(* ===== verification/Prelude.thy ===== *)
theory Prelude
  imports Main "HOL-Library.Word" "HOL-Library.Multiset" "HOL-Library.While_Combinator"
begin

text \<open>
  Shared vocabulary of the development: the machine integer types of the C++ sources, the
  result type for operations that may throw, read out of bounds or not return, folds in that
  result type, and generic facts on lists and words. Nothing here models one particular
  component of the program.
\<close>

unbundle bit_operations_syntax

section \<open>Machine integers\<close>

type_synonym u8 = "8 word"
type_synonym u16 = "16 word"
type_synonym u32 = "32 word"
type_synonym u64 = "64 word"

named_theorems res_simps \<open>rewriting of computations in the result type\<close>
named_theorems layout \<open>sizes and positions of the vectors of a component\<close>

section \<open>Results of operations\<close>

text \<open>
  \<open>Runtime_error m\<close> is a thrown \<open>std::runtime_error\<close>, \<open>Bad_alloc\<close> a failed allocation where
  a component can run into one. \<open>Undefined\<close> marks what C++ leaves
  undefined: an index outside a vector or page, an access through a null pointer.
  \<open>No_return\<close> marks a loop that does not end or a schedule that stops too early.
\<close>

datatype exn = Runtime_error string | Bad_alloc | Undefined | No_return

type_synonym 'a res = "exn + 'a"

definition rbind :: "'a res \<Rightarrow> ('a \<Rightarrow> 'b res) \<Rightarrow> 'b res" where
  "rbind m f = (case m of Inl e \<Rightarrow> Inl e | Inr x \<Rightarrow> f x)"

lemma rbind_simps [simp, res_simps]:
  "rbind (Inl e) f = Inl e"
  "rbind (Inr x) f = f x"
  by (simp_all add: rbind_def)

lemma rbind_eq_Inr [res_simps]:
  "rbind m f = Inr y \<longleftrightarrow> (\<exists>x. m = Inr x \<and> f x = Inr y)"
  by (cases m) auto

lemma rbind_eq_Inl [res_simps]:
  "rbind m f = Inl e \<longleftrightarrow> m = Inl e \<or> (\<exists>x. m = Inr x \<and> f x = Inl e)"
  by (cases m) auto

fun rfold :: "('a \<Rightarrow> 's \<Rightarrow> 's res) \<Rightarrow> 'a list \<Rightarrow> 's \<Rightarrow> 's res" where
  "rfold f [] s = Inr s"
| "rfold f (x # xs) s = rbind (f x s) (rfold f xs)"

lemma rfold_append: "rfold f (xs @ ys) s = rbind (rfold f xs s) (rfold f ys)"
proof (induction xs arbitrary: s)
  case (Cons x xs)
  then show ?case by (cases "f x s") auto
qed simp

lemma rfold_map: "rfold f (map h xs) s = rfold (\<lambda>x. f (h x)) xs s"
proof (induction xs arbitrary: s)
  case (Cons x xs)
  then show ?case by (cases "f (h x) s") auto
qed simp

lemma rfold_concat: "rfold (\<lambda>x. rfold f (g x)) xs s = rfold f (concat (map g xs)) s"
proof (induction xs arbitrary: s)
  case (Cons x xs)
  then show ?case by (cases "rfold f (g x) s") (simp_all add: rfold_append)
qed simp

lemma rfold_cong:
  "(\<And>x s. x \<in> set xs \<Longrightarrow> f x s = g x s) \<Longrightarrow> rfold f xs s = rfold g xs s"
proof (induction xs arbitrary: s)
  case (Cons x xs)
  then show ?case by (cases "g x s") auto
qed simp

lemma rbind_Inr [simp, res_simps]: "rbind m Inr = m"
  by (cases m) auto

lemma rbind_assoc: "rbind (rbind m f) g = rbind m (\<lambda>x. rbind (f x) g)"
  by (cases m) simp_all

lemma rfold_one [res_simps]: "rfold f [x] = f x"
proof (rule ext)
  have "rfold f [] = Inr" by (rule ext) simp
  then show "rfold f [x] s = f x s" for s by simp
qed

lemma rfold_upt_Suc: "rfold f [0..<Suc k] s = rbind (rfold f [0..<k] s) (f k)"
  by (simp add: rfold_append rfold_one)

lemma rfold_upt_step:
  "rfold f [0..<k] s = Inr s1 \<Longrightarrow> f k s1 = Inr s2 \<Longrightarrow> rfold f [0..<Suc k] s = Inr s2"
  by (simp only: rfold_upt_Suc rbind_simps)

text \<open>A loop whose body always succeeds on states that satisfy \<open>P\<close> is a plain fold.\<close>

lemma rfold_invariant:
  assumes "P 0 s"
    and "\<And>i s. i < length xs \<Longrightarrow> P i s \<Longrightarrow> \<exists>s'. f (xs ! i) s = Inr s' \<and> P (Suc i) s'"
  shows "\<exists>s'. rfold f xs s = Inr s' \<and> P (length xs) s'"
  using assms
proof (induction xs arbitrary: P s)
  case Nil
  then show ?case by simp
next
  case (Cons x xs)
  from Cons.prems(2)[of 0 s] Cons.prems(1)
  obtain s1 where s1: "f x s = Inr s1" "P 1 s1" by auto
  have "\<exists>s'. rfold f xs s1 = Inr s' \<and> P (Suc (length xs)) s'"
  proof (rule Cons.IH[of "\<lambda>i. P (Suc i)"])
    show "P (Suc 0) s1" using s1 by simp
    show "\<exists>s'. f (xs ! i) s = Inr s' \<and> P (Suc (Suc i)) s'"
      if "i < length xs" "P (Suc i) s" for i s
      using Cons.prems(2)[of "Suc i" s] that by simp
  qed
  with s1 show ?case by simp
qed

section \<open>Lists\<close>

text \<open>A checked vector read: \<open>None\<close> where C++ would read outside the vector.\<close>

definition at :: "'a list \<Rightarrow> nat \<Rightarrow> 'a res" where
  "at xs i = (if i < length xs then Inr (xs ! i) else Inl Undefined)"

lemma at_simps [simp, res_simps]: "i < length xs \<Longrightarrow> at xs i = Inr (xs ! i)"
  by (simp add: at_def)

lemma at_eq_Inr [res_simps]: "at xs i = Inr x \<longleftrightarrow> i < length xs \<and> x = xs ! i"
  by (auto simp: at_def)

lemma fold_invariant_nth:
  assumes "P 0 s"
    and "\<And>i s. i < length xs \<Longrightarrow> P i s \<Longrightarrow> P (Suc i) (f (xs ! i) s)"
  shows "P (length xs) (fold f xs s)"
  using assms
proof (induction xs arbitrary: P s)
  case (Cons x xs)
  have "P (Suc (length xs)) (fold f xs (f x s))"
    using Cons.prems(2)[of 0 s] Cons.prems Cons.IH[of "\<lambda>i. P (Suc i)" "f x s"] by fastforce
  then show ?case by simp
qed simp

lemma fold_invariant:
  assumes "P s" and "\<And>x s. x \<in> set xs \<Longrightarrow> P s \<Longrightarrow> P (f x s)"
  shows "P (fold f xs s)"
  using assms by (induction xs arbitrary: s) auto

lemma length_fold_update [simp, layout]:
  "length (fold (\<lambda>x ys. ys[g x ys := h x ys]) xs ys) = length ys"
  by (induction xs arbitrary: ys) auto

lemma concat_map_filter_if:
  "concat (map (\<lambda>x. if P x then [f x] else []) xs) = map f (filter P xs)"
  by (induction xs) auto

lemma mset_concat_map: "mset (concat (map f xs)) = \<Sum>\<^sub># (image_mset (\<lambda>x. mset (f x)) (mset xs))"
  by (induction xs) auto

lemma mset_concat_map_perm: "mset xs = mset ys \<Longrightarrow> mset (concat (map f xs)) = mset (concat (map f ys))"
  by (simp only: mset_concat_map)

section \<open>Words\<close>

lemma unat_less_pow: "unat (w :: 'a::len word) < 2 ^ LENGTH('a)"
  by (rule unsigned_less)

lemma unat_less_word:
  "unat (a :: u8) < 256" "unat (b :: u16) < 65536" "unat (c :: u32) < 4294967296"
  "unat (d :: u64) < 18446744073709551616"
  using unat_less_pow[of a] unat_less_pow[of b] unat_less_pow[of c] unat_less_pow[of d] by simp_all

lemma unat_of_nat_less:
  "n < 2 ^ LENGTH('a) \<Longrightarrow> unat (of_nat n :: 'a::len word) = n"
  by (simp add: unat_of_nat take_bit_nat_eq_self)

lemma unat_plus_less:
  "unat a + unat b < 2 ^ LENGTH('a) \<Longrightarrow> unat (a + b :: 'a::len word) = unat a + unat b"
  by (simp add: unat_word_ariths take_bit_nat_eq_self)

lemma bit_push_one: "n < LENGTH('a) \<Longrightarrow> bit (push_bit n (1 :: 'a::len word)) i \<longleftrightarrow> i = n"
  by (auto simp: bit_push_bit_iff bit_1_iff simp del: push_bit_of_1)

lemma sint_eq_iff: "sint a = sint b \<longleftrightarrow> a = b"
  by (auto intro: signed_word_eqI)

lemma word_eq_bitsI:
  "(\<And>i. i < LENGTH('a) \<Longrightarrow> bit v i = bit w i) \<Longrightarrow> v = (w :: 'a::len word)"
  by (rule bit_word_eqI)

end
