(* ===== verification/Pages.thy ===== *)
theory Pages
  imports Prelude
begin

text \<open>
  The storage format shared by every component (\<open>include/plan.h\<close>, \<open>include/attribute.h\<close>):
  data types, 8192-byte pages with their little-endian fields and validity bitmap, columns as
  lists of pages, columnar tables. A page is the memory at its address: reads are total (what
  lies beyond the page is arbitrary), a write that leaves the page is \<open>Undefined\<close>.
\<close>

section \<open>Data types, pages, columns\<close>

datatype data_type = INT32 | INT64 | FP64 | VARCHAR

definition PAGE_SIZE :: nat where
  "PAGE_SIZE = 8192"

type_synonym page = "nat \<Rightarrow> u8"

record column =
  col_type :: data_type
  col_pages :: "page list"

record columnar_table =
  tbl_num_rows :: nat
  tbl_columns :: "column list"

definition new_column :: "data_type \<Rightarrow> column" where
  "new_column ty = \<lparr>col_type = ty, col_pages = []\<rparr>"

section \<open>Little-endian fields\<close>

fun le_nat :: "u8 list \<Rightarrow> nat" where
  "le_nat [] = 0"
| "le_nat (b # bs) = unat b + 256 * le_nat bs"

fun le_bytes :: "nat \<Rightarrow> nat \<Rightarrow> u8 list" where
  "le_bytes 0 v = []"
| "le_bytes (Suc n) v = of_nat (v mod 256) # le_bytes n (v div 256)"

lemma length_le_bytes [simp, layout]: "length (le_bytes n v) = n"
  by (induction n arbitrary: v) auto

lemma le_nat_le_bytes: "le_nat (le_bytes n v) = v mod 256 ^ n"
proof (induction n arbitrary: v)
  case (Suc n)
  have "unat (of_nat (v mod 256) :: u8) = v mod 256"
    by (rule unat_of_nat_less) simp
  then have "le_nat (le_bytes (Suc n) v) = v mod 256 + 256 * (v div 256 mod 256 ^ n)"
    by (simp add: Suc.IH)
  then show ?case
    by (simp add: mod_mult2_eq)
qed simp

lemma le_nat_less: "le_nat bs < 256 ^ length bs"
proof (induction bs)
  case (Cons b bs)
  have "unat b < 256" by (rule unat_less_word)
  with Cons show ?case by simp
qed simp

lemma le_bytes_le_nat: "le_bytes (length bs) (le_nat bs) = bs"
proof (induction bs)
  case (Cons b bs)
  have "unat b < 256" by (rule unat_less_word)
  with Cons show ?case by simp
qed simp

definition load_bytes :: "page \<Rightarrow> nat \<Rightarrow> nat \<Rightarrow> u8 list" where
  "load_bytes p a n = map p [a..<a + n]"

definition store_bytes :: "page \<Rightarrow> nat \<Rightarrow> u8 list \<Rightarrow> page res" where
  "store_bytes p a bs =
     (if a + length bs \<le> PAGE_SIZE
      then Inr (\<lambda>i. if a \<le> i \<and> i < a + length bs then bs ! (i - a) else p i)
      else Inl Undefined)"

definition load16 :: "page \<Rightarrow> nat \<Rightarrow> u16" where
  "load16 p a = of_nat (le_nat (load_bytes p a 2))"

definition load32 :: "page \<Rightarrow> nat \<Rightarrow> u32" where
  "load32 p a = of_nat (le_nat (load_bytes p a 4))"

definition load64 :: "page \<Rightarrow> nat \<Rightarrow> u64" where
  "load64 p a = of_nat (le_nat (load_bytes p a 8))"

definition bytes16 :: "u16 \<Rightarrow> u8 list" where
  "bytes16 w = le_bytes 2 (unat w)"

definition bytes32 :: "u32 \<Rightarrow> u8 list" where
  "bytes32 w = le_bytes 4 (unat w)"

definition bytes64 :: "u64 \<Rightarrow> u8 list" where
  "bytes64 w = le_bytes 8 (unat w)"

lemma length_bytes [simp, layout]:
  "length (bytes16 a) = 2" "length (bytes32 b) = 4" "length (bytes64 c) = 8"
  by (simp_all add: bytes16_def bytes32_def bytes64_def)

lemma length_load_bytes [simp, layout]: "length (load_bytes p a n) = n"
  by (simp add: load_bytes_def)

lemma le_nat_bytes:
  "le_nat (bytes16 a) = unat a" "le_nat (bytes32 b) = unat b" "le_nat (bytes64 c) = unat c"
  using unat_less_word(2)[of a] unat_less_word(3)[of b] unat_less_word(4)[of c]
  by (simp_all add: bytes16_def bytes32_def bytes64_def le_nat_le_bytes)

lemma load_of_bytes:
  "load_bytes p a 2 = bytes16 v \<Longrightarrow> load16 p a = v"
  "load_bytes p a 4 = bytes32 w \<Longrightarrow> load32 p a = w"
  "load_bytes p a 8 = bytes64 x \<Longrightarrow> load64 p a = x"
  by (simp_all add: load16_def load32_def load64_def le_nat_bytes)

lemma load_bytes_cong:
  "(\<And>i. a \<le> i \<Longrightarrow> i < a + n \<Longrightarrow> p i = q i) \<Longrightarrow> load_bytes p a n = load_bytes q a n"
  by (simp add: load_bytes_def)

text \<open>What a store leaves behind: the bytes written, everything else as before.\<close>

lemma store_bytes_Inr:
  "a + length bs \<le> PAGE_SIZE \<Longrightarrow> \<exists>q. store_bytes p a bs = Inr q"
  by (simp add: store_bytes_def)

lemma load_store_same:
  "store_bytes p a bs = Inr q \<Longrightarrow> load_bytes q a (length bs) = bs"
  by (auto simp: store_bytes_def load_bytes_def split: if_splits intro!: nth_equalityI)

lemma load_store_disjoint:
  assumes "store_bytes p a bs = Inr q" and "b + n \<le> a \<or> a + length bs \<le> b"
  shows "load_bytes q b n = load_bytes p b n"
  using assms by (auto simp: store_bytes_def load_bytes_def split: if_splits)

lemma store_byte_elsewhere:
  "store_bytes p a bs = Inr q \<Longrightarrow> i < a \<or> a + length bs \<le> i \<Longrightarrow> q i = p i"
  by (auto simp: store_bytes_def split: if_splits)

lemma store_byte_inside:
  "store_bytes p a bs = Inr q \<Longrightarrow> i < length bs \<Longrightarrow> q (a + i) = bs ! i"
  by (auto simp: store_bytes_def split: if_splits)

section \<open>Validity bitmaps\<close>

text \<open>
  \<open>get_bitmap\<close> of \<open>build_table.cpp\<close> and \<open>get_bitmap_local_col\<close> of \<open>columnar.h\<close> are the same
  function: byte \<open>idx / 8\<close>, bit \<open>idx % 8\<close>, a set bit meaning "valid".
\<close>

definition get_bitmap :: "(nat \<Rightarrow> u8) \<Rightarrow> nat \<Rightarrow> bool" where
  "get_bitmap bitmap idx =
     (let byte_idx = idx div 8; bit_i = idx mod 8
      in (ucast (bitmap byte_idx) :: u32) AND push_bit bit_i 1 \<noteq> 0)"

lemma and_push_one: "n < LENGTH('a) \<Longrightarrow> w AND push_bit n 1 \<noteq> 0 \<longleftrightarrow> bit (w :: 'a::len word) n"
proof -
  assume n: "n < LENGTH('a)"
  have "bit (w AND push_bit n 1) i \<longleftrightarrow> bit w i \<and> i = n" for i
    unfolding bit_and_iff bit_push_one[OF n] ..
  note bits = this
  show "w AND push_bit n 1 \<noteq> 0 \<longleftrightarrow> bit w n"
  proof
    assume "bit w n"
    then have "bit (w AND push_bit n 1) n" unfolding bits by simp
    then show "w AND push_bit n 1 \<noteq> 0" by (metis bit_0_eq bot_apply bot_bool_def)
  next
    assume ne: "w AND push_bit n 1 \<noteq> 0"
    show "bit w n"
    proof (rule ccontr)
      assume "\<not> bit w n"
      then have "w AND push_bit n 1 = 0"
        by (intro word_eq_bitsI) (unfold bits, auto)
      with ne show False by contradiction
    qed
  qed
qed

lemma get_bitmap_bit: "get_bitmap bm i \<longleftrightarrow> bit (bm (i div 8)) (i mod 8)"
proof -
  have "i mod 8 < LENGTH(32)" by simp
  then have "get_bitmap bm i \<longleftrightarrow> bit (ucast (bm (i div 8)) :: u32) (i mod 8)"
    unfolding get_bitmap_def Let_def by (rule and_push_one)
  also have "\<dots> \<longleftrightarrow> bit (bm (i div 8)) (i mod 8)"
    by (auto simp: bit_ucast_iff)
  finally show ?thesis .
qed

section \<open>Reading a page\<close>

definition page_num_rows :: "page \<Rightarrow> nat" where
  "page_num_rows p = unat (load16 p 0)"

definition page_bitmap :: "page \<Rightarrow> nat \<Rightarrow> u8" where
  "page_bitmap p i = p (PAGE_SIZE - (page_num_rows p + 7) div 8 + i)"

definition page_int32 :: "page \<Rightarrow> nat \<Rightarrow> u32" where
  "page_int32 p i = load32 p (4 + 4 * i)"

lemma page_num_rows_less: "page_num_rows p < 65536"
  by (simp add: page_num_rows_def unat_less_word)

section \<open>Sample pages\<close>

text \<open>A page given by its first bytes, the rest set: every row is valid.\<close>

definition page_of :: "u8 list \<Rightarrow> page" where
  "page_of bs = (\<lambda>i. if i < length bs then bs ! i else 0xFF)"

lemma load_bytes_small:
  "load_bytes p a 0 = []" "load_bytes p a (Suc 0) = [p a]" "load_bytes p a 2 = [p a, p (a + 1)]"
  "load_bytes p a 4 = [p a, p (a + 1), p (a + 2), p (a + 3)]"
proof -
  have "[a..<a + 2] = [a, a + 1]" "[a..<a + 4] = [a, a + 1, a + 2, a + 3]"
    by (simp_all add: upt_conv_Cons)
  then show "load_bytes p a 2 = [p a, p (a + 1)]" "load_bytes p a 4 = [p a, p (a + 1), p (a + 2), p (a + 3)]"
    by (simp_all add: load_bytes_def)
qed (simp_all add: load_bytes_def)

lemma bit_255: "j < 8 \<Longrightarrow> bit (0xFF :: u8) j"
proof -
  assume "j < 8"
  moreover have "(0xFF :: u8) = - 1" by simp
  ultimately show ?thesis by (simp only: bit_minus_1_iff) simp
qed

definition int_page :: page where
  "int_page = page_of [2, 0, 2, 0, 7, 0, 0, 0, 9, 0, 0, 0]"

definition str_page :: page where
  "str_page = page_of [2, 0, 2, 0, 2, 0, 3, 0, 97, 98, 99]"

lemma sample_num_rows: "page_num_rows int_page = 2" "page_num_rows str_page = 2"
  by (simp_all add: page_num_rows_def load16_def load_bytes_small int_page_def str_page_def page_of_def)

end
