(* ===== verification/Values.thy ===== *)
theory Values
  imports Pages
begin

text \<open>
  The 64-bit payloads of \<open>include/late_materialization.h\<close>: \<open>PackedStringRef\<close> with its bit
  fields and \<open>value_t\<close> with the reserved NULL payload.
\<close>

section \<open>Packed string references\<close>

record packed_string_ref =
  ref_raw :: u64

definition ref_slot_idx :: "packed_string_ref \<Rightarrow> u16" where
  "ref_slot_idx r = ucast (ref_raw r)"

definition ref_page_idx :: "packed_string_ref \<Rightarrow> u32" where
  "ref_page_idx r = ucast (drop_bit 16 (ref_raw r))"

definition ref_col_id :: "packed_string_ref \<Rightarrow> u8" where
  "ref_col_id r = ucast (drop_bit 48 (ref_raw r))"

definition ref_table_id :: "packed_string_ref \<Rightarrow> u8" where
  "ref_table_id r = ucast (drop_bit 56 (ref_raw r))"

text \<open>An assignment to a bit field: clear its \<open>n\<close> bits at \<open>lo\<close>, then put the value there.\<close>

definition set_field :: "nat \<Rightarrow> nat \<Rightarrow> u64 \<Rightarrow> u64 \<Rightarrow> u64" where
  "set_field lo n v raw = (raw AND NOT (push_bit lo (mask n))) OR push_bit lo (take_bit n v)"

definition make_ref :: "u8 \<Rightarrow> u8 \<Rightarrow> u32 \<Rightarrow> u16 \<Rightarrow> packed_string_ref" where
  "make_ref tid cid pid sid =
     \<lparr>ref_raw = set_field 0 16 (ucast sid) (set_field 16 32 (ucast pid)
        (set_field 48 8 (ucast cid) (set_field 56 8 (ucast tid) 0)))\<rparr>"

definition unpack :: "u64 \<Rightarrow> packed_string_ref" where
  "unpack val = \<lparr>ref_raw = val\<rparr>"

section \<open>Values\<close>

record value_t =
  val_raw :: u64

definition make_i32 :: "u32 \<Rightarrow> value_t" where
  "make_i32 v = \<lparr>val_raw = scast v\<rparr>"

definition make_str_ref :: "u8 \<Rightarrow> u8 \<Rightarrow> u32 \<Rightarrow> u16 \<Rightarrow> value_t" where
  "make_str_ref t c p s = \<lparr>val_raw = ref_raw (make_ref t c p s)\<rparr>"

definition make_str :: "packed_string_ref \<Rightarrow> value_t" where
  "make_str sr = \<lparr>val_raw = ref_raw sr\<rparr>"

definition UINT64_MAX :: u64 where
  "UINT64_MAX = 0xFFFFFFFFFFFFFFFF"

definition make_null :: value_t where
  "make_null = \<lparr>val_raw = UINT64_MAX\<rparr>"

definition is_null :: "value_t \<Rightarrow> bool" where
  "is_null v \<longleftrightarrow> val_raw v = UINT64_MAX"

definition as_i32 :: "value_t \<Rightarrow> u32" where
  "as_i32 v = ucast (val_raw v)"

definition as_ref :: "value_t \<Rightarrow> u64" where
  "as_ref v = val_raw v"

section \<open>Round trips\<close>

lemma bit_set_field:
  "lo + n \<le> 64 \<Longrightarrow> bit (set_field lo n v raw) i \<longleftrightarrow>
     (if lo \<le> i \<and> i < lo + n then bit v (i - lo) else bit raw i)"
proof -
  assume fits: "lo + n \<le> 64"
  have b: "bit (set_field lo n v raw) i \<longleftrightarrow>
      (bit raw i \<and> \<not> (lo \<le> i \<and> i - lo < n) \<or> lo \<le> i \<and> i - lo < n \<and> bit v (i - lo))"
    if "i < 64"
    using that
    by (auto simp: set_field_def bit_or_iff bit_and_iff bit_not_iff bit_push_bit_iff bit_mask_iff
        bit_take_bit_iff simp del: push_bit_of_1)
  show ?thesis
  proof (cases "i < 64")
    case True
    then show ?thesis by (auto simp: b)
  next
    case False
    then have "\<not> bit (set_field lo n v raw) i" "\<not> bit raw i"
      by (auto dest: bit_imp_le_length)
    moreover have "\<not> i < lo + n" using False fits by simp
    ultimately show ?thesis by simp
  qed
qed

lemma ref_fields_make_ref:
  "ref_slot_idx (make_ref t c p s) = s"
  "ref_page_idx (make_ref t c p s) = p"
  "ref_col_id (make_ref t c p s) = c"
  "ref_table_id (make_ref t c p s) = t"
  unfolding ref_slot_idx_def ref_page_idx_def ref_col_id_def ref_table_id_def make_ref_def
  by (intro word_eq_bitsI;
      simp add: bit_ucast_iff bit_drop_bit_eq bit_set_field)+

lemma as_i32_make_i32 [simp]: "as_i32 (make_i32 v) = v"
proof (rule word_eq_bitsI)
  fix i :: nat
  assume "i < LENGTH(32)"
  then consider "i = 31" | "i < 31" by force
  then show "bit (as_i32 (make_i32 v)) i = bit v i"
    by cases (simp_all add: as_i32_def make_i32_def bit_ucast_iff bit_signed_iff min_def)
qed

lemma is_null_make_null [simp]: "is_null make_null"
  by (simp add: is_null_def make_null_def)

lemma UINT64_MAX_eq: "UINT64_MAX = - 1"
  by (simp add: UINT64_MAX_def)

lemma is_null_make_i32: "is_null (make_i32 v) \<longleftrightarrow> v = - 1"
proof
  assume "is_null (make_i32 v)"
  then have "as_i32 (make_i32 v) = ucast UINT64_MAX"
    by (simp add: is_null_def as_i32_def)
  then show "v = - 1" by (simp add: UINT64_MAX_def)
next
  assume "v = - 1"
  then show "is_null (make_i32 v)"
    by (simp add: is_null_def make_i32_def UINT64_MAX_def)
qed

end
