(* ===== verification/ColumnStore.thy ===== *)
theory ColumnStore
  imports Values
begin

text \<open>
  The intermediate columns of the engine (\<open>include/columnar.h\<close>): \<open>column_t\<close> with its two
  representations, materialised pages of \<open>value_t\<close> and a zero-copy view of a NULL-free INT32
  column, the page cache of the sequential reader and the binary search behind it, and
  \<open>ColumnBuffer\<close>. \<open>ct_values\<close> is the list of values a column stands for; the lemmas show
  that every accessor reads exactly that list.
\<close>

section \<open>State\<close>

record column_t =
  ct_pages :: "value_t list list"
  ct_src_column :: "column option"
  ct_page_offsets :: "nat list"
  ct_is_zero_copy :: bool
  ct_values_per_page :: nat
  ct_num_values :: nat
  ct_cached_page_idx :: nat

definition column_new :: "nat \<Rightarrow> column_t" where
  "column_new page_size =
     \<lparr>ct_pages = [], ct_src_column = None, ct_page_offsets = [], ct_is_zero_copy = False,
      ct_values_per_page = page_size, ct_num_values = 0, ct_cached_page_idx = 0\<rparr>"

record column_buffer =
  cb_columns :: "column_t list"
  cb_num_rows :: nat
  cb_types :: "data_type list"

definition buffer_new :: "nat \<Rightarrow> nat \<Rightarrow> column_buffer" where
  "buffer_new cols rows =
     \<lparr>cb_columns = replicate cols (column_new 1024), cb_num_rows = rows, cb_types = []\<rparr>"

definition num_cols :: "column_buffer \<Rightarrow> nat" where
  "num_cols b = length (cb_columns b)"

section \<open>Appending\<close>

definition column_append :: "value_t \<Rightarrow> column_t \<Rightarrow> column_t" where
  "column_append v c =
     (let pages = (if ct_pages c = [] \<or> ct_values_per_page c \<le> length (last (ct_pages c))
                   then ct_pages c @ [[]] else ct_pages c)
      in c\<lparr>ct_pages := butlast pages @ [last pages @ [v]], ct_num_values := ct_num_values c + 1\<rparr>)"

section \<open>Reading\<close>

text \<open>
  The binary search over the page offsets. On \<open>size_t\<close> the guard \<open>left < right - 1\<close> with
  \<open>right = 0\<close> wraps around: with a single offset the loop does not end, with none it reads
  outside the vector. \<open>page_search\<close> makes both cases explicit.
\<close>

function bsearch :: "nat list \<Rightarrow> nat \<Rightarrow> nat \<Rightarrow> nat \<Rightarrow> nat" where
  "bsearch offs row left right =
     (if left < right - 1
      then (let mid = (left + right) div 2
            in if row < offs ! mid then bsearch offs row left mid else bsearch offs row mid right)
      else left)"
  by pat_completeness auto
termination
  by (relation "measure (\<lambda>(offs, row, left, right). right - left)") auto

declare bsearch.simps [simp del]

definition page_search :: "nat list \<Rightarrow> nat \<Rightarrow> nat res" where
  "page_search offs row =
     (if offs = [] then Inl Undefined
      else if length offs = 1 then Inl No_return
      else Inr (bsearch offs row 0 (length offs - 1)))"

text \<open>The direct read from the raw page: \<open>data[row_idx - page_offsets[page_idx]]\<close>.\<close>

definition raw_read :: "column \<Rightarrow> nat list \<Rightarrow> nat \<Rightarrow> nat \<Rightarrow> value_t res" where
  "raw_read src offs page_idx row_idx =
     (if row_idx < offs ! page_idx then Inl Undefined
      else rbind (at (col_pages src) page_idx) (\<lambda>page.
        Inr (make_i32 (page_int32 page (row_idx - offs ! page_idx)))))"

definition paged_read :: "column_t \<Rightarrow> nat \<Rightarrow> value_t res" where
  "paged_read c row_idx =
     (if ct_values_per_page c = 0 then Inl Undefined
      else rbind (at (ct_pages c) (row_idx div ct_values_per_page c)) (\<lambda>page.
        at page (row_idx mod ct_values_per_page c)))"

text \<open>
  \<open>column_t::get\<close>: returns the value and the column with its page cache moved. The cache and
  then the next page are tried before the search.
\<close>

definition column_get :: "column_t \<Rightarrow> nat \<Rightarrow> (value_t \<times> column_t) res" where
  "column_get c row_idx =
     (case (if ct_is_zero_copy c then ct_src_column c else None) of
        Some src \<Rightarrow>
          (let offs = ct_page_offsets c; page_idx = ct_cached_page_idx c
           in if offs = [] then Inl Undefined
              else if page_idx < length offs - 1 \<and> offs ! page_idx \<le> row_idx \<and> row_idx < offs ! (page_idx + 1)
              then rbind (raw_read src offs page_idx row_idx) (\<lambda>v. Inr (v, c))
              else if page_idx + 1 < length offs - 1 \<and> offs ! (page_idx + 1) \<le> row_idx
                      \<and> row_idx < offs ! (page_idx + 2)
              then rbind (raw_read src offs (page_idx + 1) row_idx) (\<lambda>v.
                     Inr (v, c\<lparr>ct_cached_page_idx := page_idx + 1\<rparr>))
              else rbind (page_search offs row_idx) (\<lambda>left.
                     rbind (raw_read src offs left row_idx) (\<lambda>v.
                       Inr (v, c\<lparr>ct_cached_page_idx := left\<rparr>))))
      | None \<Rightarrow> rbind (paged_read c row_idx) (\<lambda>v. Inr (v, c)))"

text \<open>\<open>column_t::get_cached\<close>: the page cache is the caller's; the column does not change.\<close>

definition column_get_cached :: "column_t \<Rightarrow> nat \<Rightarrow> nat \<Rightarrow> (value_t \<times> nat) res" where
  "column_get_cached c row_idx page_cache =
     (case (if ct_is_zero_copy c then ct_src_column c else None) of
        Some src \<Rightarrow>
          (let offs = ct_page_offsets c;
               page_idx = (if length offs - 1 \<le> page_cache then 0 else page_cache)
           in if offs = [] then Inl Undefined
              else if length offs = 1 then Inl Undefined
              else if offs ! page_idx \<le> row_idx \<and> row_idx < offs ! (page_idx + 1)
              then rbind (raw_read src offs page_idx row_idx) (\<lambda>v. Inr (v, page_idx))
              else if page_idx + 1 < length offs - 1 \<and> offs ! (page_idx + 1) \<le> row_idx
                      \<and> row_idx < offs ! (page_idx + 2)
              then rbind (raw_read src offs (page_idx + 1) row_idx) (\<lambda>v. Inr (v, page_idx + 1))
              else rbind (page_search offs row_idx) (\<lambda>left.
                     rbind (raw_read src offs left row_idx) (\<lambda>v. Inr (v, left))))
      | None \<Rightarrow> rbind (paged_read c row_idx) (\<lambda>v. Inr (v, page_cache)))"

section \<open>The values of a column\<close>

definition zc_page_values :: "column \<Rightarrow> nat list \<Rightarrow> nat \<Rightarrow> value_t list" where
  "zc_page_values src offs p =
     map (\<lambda>i. make_i32 (page_int32 (col_pages src ! p) i)) [0..<offs ! (p + 1) - offs ! p]"

definition ct_values :: "column_t \<Rightarrow> value_t list" where
  "ct_values c =
     (case (if ct_is_zero_copy c then ct_src_column c else None) of
        Some src \<Rightarrow>
          concat (map (zc_page_values src (ct_page_offsets c)) [0..<length (ct_page_offsets c) - 1])
      | None \<Rightarrow> concat (ct_pages c))"

definition offsets_wf :: "nat \<Rightarrow> nat list \<Rightarrow> bool" where
  "offsets_wf npages offs \<longleftrightarrow> length offs = npages + 1 \<and> hd offs = 0 \<and> sorted offs"

definition pages_wf :: "nat \<Rightarrow> 'a list list \<Rightarrow> bool" where
  "pages_wf n pages \<longleftrightarrow>
     0 < n \<and> (\<forall>p \<in> set (butlast pages). length p = n) \<and>
     (pages \<noteq> [] \<longrightarrow> 0 < length (last pages) \<and> length (last pages) \<le> n)"

definition column_wf :: "column_t \<Rightarrow> bool" where
  "column_wf c \<longleftrightarrow>
     (case (if ct_is_zero_copy c then ct_src_column c else None) of
        Some src \<Rightarrow> offsets_wf (length (col_pages src)) (ct_page_offsets c)
      | None \<Rightarrow> pages_wf (ct_values_per_page c) (ct_pages c)) \<and>
     ct_num_values c = length (ct_values c)"

text \<open>Two columns that differ in the page cache only.\<close>

definition same_but_cache :: "column_t \<Rightarrow> column_t \<Rightarrow> bool" where
  "same_but_cache c c' \<longleftrightarrow> c' = c\<lparr>ct_cached_page_idx := ct_cached_page_idx c'\<rparr>"

lemma same_but_cache_trans: "same_but_cache a b \<Longrightarrow> same_but_cache b c \<Longrightarrow> same_but_cache a c"
  unfolding same_but_cache_def by (cases a; cases b; cases c) simp

lemma same_but_cache_refl [simp]: "same_but_cache c c"
  by (simp add: same_but_cache_def)

section \<open>Concatenated pages\<close>

lemma concat_nth_offset:
  assumes "p < length xss" "s < length (xss ! p)"
  shows "concat xss ! (length (concat (take p xss)) + s) = xss ! p ! s"
proof -
  have "concat xss = concat (take p xss) @ xss ! p @ concat (drop (Suc p) xss)"
    by (metis assms(1) concat.simps(2) concat_append id_take_nth_drop)
  then show ?thesis using assms by (simp add: nth_append)
qed

lemma pages_wf_take:
  assumes "pages_wf n pages" "p < length pages"
  shows "length (concat (take p pages)) = p * n"
  using assms(2)
proof (induction p)
  case (Suc p)
  have "pages ! p \<in> set (butlast pages)"
    using Suc.prems by (metis length_butlast less_diff_conv nth_butlast nth_mem Suc_eq_plus1)
  then have "length (pages ! p) = n" using assms(1) by (simp add: pages_wf_def)
  with Suc show ?case by (simp add: take_Suc_conv_app_nth)
qed simp

lemma pages_wf_length:
  assumes "pages_wf n pages" "pages \<noteq> []"
  shows "length (concat pages) = (length pages - 1) * n + length (last pages)"
proof -
  have "concat pages = concat (take (length pages - 1) pages) @ last pages"
    using assms(2) by (metis append_butlast_last_id butlast_conv_take concat.simps concat_append append_Nil2)
  then show ?thesis
    using pages_wf_take[OF assms(1), of "length pages - 1"] assms(2) by simp
qed

lemma pages_wf_nth:
  assumes wf: "pages_wf n pages" and i: "i < length (concat pages)"
  shows "i div n < length pages \<and> i mod n < length (pages ! (i div n)) \<and>
         pages ! (i div n) ! (i mod n) = concat pages ! i"
proof -
  have n: "0 < n" using wf by (simp add: pages_wf_def)
  have ne: "pages \<noteq> []" using i by auto
  let ?m = "length pages - 1"
  have last: "0 < length (last pages)" "length (last pages) \<le> n"
    using wf ne by (auto simp: pages_wf_def)
  have len: "length (concat pages) = ?m * n + length (last pages)"
    using pages_wf_length[OF wf ne] .
  have "i < Suc ?m * n" using i len last by simp
  then have p: "i div n < length pages"
    using ne n by (simp add: less_mult_imp_div_less)
  have s: "i mod n < length (pages ! (i div n))"
  proof (cases "i div n = ?m")
    case True
    then have "i = ?m * n + i mod n" by (metis div_mult_mod_eq)
    then have "i mod n < length (last pages)" using i len by linarith
    then show ?thesis using True ne by (simp add: last_conv_nth)
  next
    case False
    then have "pages ! (i div n) \<in> set (butlast pages)"
      using p by (metis One_nat_def diff_Suc_less length_butlast length_greater_0_conv less_Suc_eq
          less_antisym ne nth_butlast nth_mem Suc_diff_1)
    then show ?thesis using wf n by (simp add: pages_wf_def)
  qed
  have "concat pages ! (length (concat (take (i div n) pages)) + i mod n) = pages ! (i div n) ! (i mod n)"
    by (rule concat_nth_offset[OF p s])
  then show ?thesis
    using p s pages_wf_take[OF wf p] by simp
qed

section \<open>The search finds the page of a row\<close>

lemma bsearch_finds:
  assumes "left < right" "right < length offs" "offs ! left \<le> row" "row < offs ! right"
  shows "let p = bsearch offs row left right in
    left \<le> p \<and> p < right \<and> offs ! p \<le> row \<and> row < offs ! (p + 1)"
  using assms
proof (induction offs row left right rule: bsearch.induct)
  case (1 offs row left right)
  show ?case
  proof (cases "left < right - 1")
    case False
    then have "right = left + 1" using "1.prems" by simp
    with False "1.prems" show ?thesis by (subst bsearch.simps) (simp add: Let_def)
  next
    case True
    let ?mid = "(left + right) div 2"
    have mid: "left < ?mid" "?mid < right" using True by auto
    show ?thesis
    proof (cases "row < offs ! ?mid")
      case lt: True
      have "bsearch offs row left right = bsearch offs row left ?mid"
        using True lt by (subst bsearch.simps) (simp add: Let_def)
      then show ?thesis
        using "1.IH"(1)[OF True refl lt] "1.prems" mid lt by (auto simp: Let_def)
    next
      case ge: False
      have "bsearch offs row left right = bsearch offs row ?mid right"
        using True ge by (subst bsearch.simps) (simp add: Let_def)
      then show ?thesis
        using "1.IH"(2)[OF True refl ge] "1.prems" mid ge by (auto simp: Let_def)
    qed
  qed
qed

lemma offsets_wf_nth:
  "offsets_wf n offs \<Longrightarrow> length offs = n + 1 \<and> offs ! 0 = 0 \<and> sorted offs"
  by (cases offs) (auto simp: offsets_wf_def)

lemma zc_take_length:
  assumes "offsets_wf n offs" "p \<le> n"
  shows "length (concat (map (zc_page_values src offs) [0..<p])) = offs ! p"
  using assms(2)
proof (induction p)
  case (Suc p)
  have "offs ! p \<le> offs ! Suc p"
    using offsets_wf_nth[OF assms(1)] Suc.prems by (simp add: sorted_nth_mono)
  with Suc show ?case by (simp add: zc_page_values_def)
qed (use offsets_wf_nth[OF assms(1)] in simp)

lemma zc_nth:
  assumes wf: "offsets_wf n offs" and p: "p < n" and row: "offs ! p \<le> row" "row < offs ! (p + 1)"
  shows "concat (map (zc_page_values src offs) [0..<n]) ! row =
         make_i32 (page_int32 (col_pages src ! p) (row - offs ! p))"
proof -
  let ?xss = "map (zc_page_values src offs) [0..<n]"
  have s: "row - offs ! p < length (?xss ! p)"
    using p row by (simp add: zc_page_values_def)
  have "take p ?xss = map (zc_page_values src offs) [0..<p]"
    using p by (simp add: take_map)
  then have "length (concat (take p ?xss)) = offs ! p"
    using zc_take_length[OF wf] p by (simp del: length_concat)
  then have "concat ?xss ! row = ?xss ! p ! (row - offs ! p)"
    using concat_nth_offset[of p ?xss "row - offs ! p"] s p row by (simp del: length_concat)
  then show ?thesis using p row by (simp add: zc_page_values_def)
qed

lemma raw_read_correct:
  assumes wf: "offsets_wf (length (col_pages src)) offs" and p: "p < length offs - 1"
    and row: "offs ! p \<le> row" "row < offs ! (p + 1)"
  shows "raw_read src offs p row =
    Inr (concat (map (zc_page_values src offs) [0..<length offs - 1]) ! row)"
  using zc_nth[OF wf _ row] p row offsets_wf_nth[OF wf]
  by (simp add: raw_read_def)

lemma page_search_correct:
  assumes wf: "offsets_wf n offs" and row: "row < length (concat (map (zc_page_values src offs) [0..<n]))"
  shows "\<exists>p. page_search offs row = Inr p \<and> p < length offs - 1 \<and> offs ! p \<le> row \<and> row < offs ! (p + 1)"
proof -
  have n: "row < offs ! n" "offs ! 0 = 0" "length offs = n + 1"
    using row zc_take_length[OF wf, of n] offsets_wf_nth[OF wf] by (auto simp del: length_concat)
  then have "0 < n" by (cases n) auto
  then show ?thesis
    using bsearch_finds[of 0 n offs row] n by (auto simp: page_search_def Let_def)
qed

section \<open>Every accessor reads the list of values\<close>

lemma column_get_correct:
  assumes wf: "column_wf c" and i: "i < length (ct_values c)"
  shows "\<exists>c'. column_get c i = Inr (ct_values c ! i, c') \<and> same_but_cache c c'"
proof (cases "if ct_is_zero_copy c then ct_src_column c else None")
  case None
  then have "pages_wf (ct_values_per_page c) (ct_pages c)" "i < length (concat (ct_pages c))"
    using wf i by (auto simp: column_wf_def ct_values_def)
  from pages_wf_nth[OF this] None this(1) show ?thesis
    by (simp add: column_get_def paged_read_def ct_values_def same_but_cache_def pages_wf_def)
next
  case (Some src)
  let ?offs = "ct_page_offsets c"
  have offs: "offsets_wf (length (col_pages src)) ?offs"
    using wf Some by (simp add: column_wf_def)
  have vals: "ct_values c = concat (map (zc_page_values src ?offs) [0..<length ?offs - 1])"
    using Some by (simp add: ct_values_def)
  have len: "length ?offs = length (col_pages src) + 1" "?offs \<noteq> []"
    using offsets_wf_nth[OF offs] by auto
  obtain p where p: "page_search ?offs i = Inr p" "p < length ?offs - 1" "?offs ! p \<le> i" "i < ?offs ! (p + 1)"
    using page_search_correct[OF offs, of i src] i vals len by auto
  note read = raw_read_correct[OF offs]
  show ?thesis
    using Some p read len
    by (auto simp: column_get_def vals Let_def same_but_cache_def simp del: concat_map_singleton)
qed

lemma column_get_cached_correct:
  assumes wf: "column_wf c" and i: "i < length (ct_values c)"
  shows "\<exists>cache'. column_get_cached c i cache = Inr (ct_values c ! i, cache')"
proof (cases "if ct_is_zero_copy c then ct_src_column c else None")
  case None
  then have "pages_wf (ct_values_per_page c) (ct_pages c)" "i < length (concat (ct_pages c))"
    using wf i by (auto simp: column_wf_def ct_values_def)
  from pages_wf_nth[OF this] None this(1) show ?thesis
    by (simp add: column_get_cached_def paged_read_def ct_values_def pages_wf_def)
next
  case (Some src)
  let ?offs = "ct_page_offsets c"
  have offs: "offsets_wf (length (col_pages src)) ?offs"
    using wf Some by (simp add: column_wf_def)
  have vals: "ct_values c = concat (map (zc_page_values src ?offs) [0..<length ?offs - 1])"
    using Some by (simp add: ct_values_def)
  have len: "length ?offs = length (col_pages src) + 1" "?offs \<noteq> []"
    using offsets_wf_nth[OF offs] by auto
  obtain p where p: "page_search ?offs i = Inr p" "p < length ?offs - 1" "?offs ! p \<le> i" "i < ?offs ! (p + 1)"
    using page_search_correct[OF offs, of i src] i vals len by auto
  note read = raw_read_correct[OF offs]
  show ?thesis
    using Some p read len
    by (auto simp: column_get_cached_def vals Let_def)
qed

lemma cache_irrelevant [simp]:
  "ct_values (c\<lparr>ct_cached_page_idx := k\<rparr>) = ct_values c"
  "column_wf (c\<lparr>ct_cached_page_idx := k\<rparr>) = column_wf c"
  by (simp_all add: ct_values_def column_wf_def cong: option.case_cong)

lemma same_but_cache_values:
  "same_but_cache c c' \<Longrightarrow> ct_values c' = ct_values c \<and> (column_wf c' \<longleftrightarrow> column_wf c)"
  unfolding same_but_cache_def by (metis cache_irrelevant)

section \<open>Appending keeps the page structure\<close>

lemma column_new_wf: "0 < n \<Longrightarrow> column_wf (column_new n) \<and> ct_values (column_new n) = []"
  by (simp add: column_wf_def column_new_def ct_values_def pages_wf_def)

lemma column_append_values:
  assumes "column_wf c" "\<not> ct_is_zero_copy c"
  shows "column_wf (column_append v c)" "ct_values (column_append v c) = ct_values c @ [v]"
    "\<not> ct_is_zero_copy (column_append v c)"
proof -
  have wf: "pages_wf (ct_values_per_page c) (ct_pages c)" "ct_num_values c = length (concat (ct_pages c))"
    using assms by (auto simp: column_wf_def ct_values_def)
  let ?n = "ct_values_per_page c"
  have vals: "concat (ct_pages (column_append v c)) = concat (ct_pages c) @ [v]"
  proof (cases "ct_pages c = []")
    case False
    then have "concat (ct_pages c) = concat (butlast (ct_pages c)) @ last (ct_pages c)"
      by (metis append_butlast_last_id concat.simps concat_append append_Nil2)
    with False show ?thesis by (auto simp: column_append_def Let_def)
  qed (simp add: column_append_def)
  have "pages_wf ?n (ct_pages (column_append v c))"
  proof (cases "ct_pages c = [] \<or> ?n \<le> length (last (ct_pages c))")
    case True
    have "length p = ?n" if "p \<in> set (ct_pages c)" for p
    proof (cases "p \<in> set (butlast (ct_pages c))")
      case False
      then have "p = last (ct_pages c)"
        using that by (metis append_butlast_last_id empty_iff list.set(1) rotate1.simps(2) set_ConsD set_rotate1)
      then show ?thesis using True wf(1) that by (auto simp: pages_wf_def)
    qed (use wf(1) in \<open>simp add: pages_wf_def\<close>)
    with True wf(1) show ?thesis
      by (auto simp: column_append_def pages_wf_def)
  next
    case False
    with wf(1) show ?thesis
      by (auto simp: column_append_def Let_def pages_wf_def)
  qed
  moreover have "ct_num_values (column_append v c) = length (ct_values c @ [v])"
    using assms by (simp add: column_append_def column_wf_def Let_def)
  moreover show zc: "\<not> ct_is_zero_copy (column_append v c)"
    using assms(2) by (simp add: column_append_def Let_def)
  moreover have "ct_values_per_page (column_append v c) = ?n"
    by (simp add: column_append_def Let_def)
  moreover show "ct_values (column_append v c) = ct_values c @ [v]"
    using vals assms(2) zc by (simp add: ct_values_def)
  ultimately show "column_wf (column_append v c)"
    by (simp add: column_wf_def)
qed

section \<open>Properties\<close>

text \<open>Random access reads the column whatever its page cache holds: on a well-formed column,
  zero-copy or materialised, \<open>get\<close> returns the value at the row and moves nothing but the cache,
  and \<open>get_cached\<close> returns the same value from any cache of the caller.\<close>

theorem column_get_any_cache:
  assumes "column_wf c" "i < ct_num_values c"
  shows "\<exists>k' cache'. column_get (c\<lparr>ct_cached_page_idx := k\<rparr>) i =
      Inr (ct_values c ! i, c\<lparr>ct_cached_page_idx := k'\<rparr>) \<and>
    column_get_cached c i cache = Inr (ct_values c ! i, cache')"
proof -
  have len: "i < length (ct_values c)" using assms by (simp add: column_wf_def)
  have "column_wf (c\<lparr>ct_cached_page_idx := k\<rparr>)" "i < length (ct_values (c\<lparr>ct_cached_page_idx := k\<rparr>))"
    using assms(1) len by simp_all
  from column_get_correct[OF this] column_get_cached_correct[OF assms(1) len, of cache] show ?thesis
    by (auto simp: same_but_cache_def)
qed

definition example_zero_copy :: column_t where
  "example_zero_copy = (column_new 1024)\<lparr>ct_is_zero_copy := True,
     ct_src_column := Some \<lparr>col_type = INT32, col_pages = [\<lambda>i. 0, \<lambda>i. 0]\<rparr>,
     ct_page_offsets := [0, 2, 5], ct_num_values := 5\<rparr>"

lemma example_zero_copy_wf: "column_wf example_zero_copy"
  by (simp add: column_wf_def example_zero_copy_def offsets_wf_def ct_values_def zc_page_values_def upt_rec)

lemma column_get_any_cache_witness:
  "\<exists>k' cache'. column_get (example_zero_copy\<lparr>ct_cached_page_idx := 1\<rparr>) 4 =
      Inr (ct_values example_zero_copy ! 4, example_zero_copy\<lparr>ct_cached_page_idx := k'\<rparr>) \<and>
    column_get_cached example_zero_copy 4 7 = Inr (ct_values example_zero_copy ! 4, cache')"
  using column_get_any_cache[OF example_zero_copy_wf, of 4 1 7] by (simp add: example_zero_copy_def)

text \<open>The iterator of \<open>column_t\<close>: \<open>begin()\<close> to \<open>end()\<close>, each step a \<open>get\<close>.\<close>

definition column_iterate :: "column_t \<Rightarrow> (value_t list \<times> column_t) res" where
  "column_iterate c =
     rfold (\<lambda>row_idx (vs, c). rbind (column_get c row_idx) (\<lambda>(v, c). Inr (vs @ [v], c)))
       [0..<ct_num_values c] ([], c)"

text \<open>Iterating over a column yields its list of values, in order and complete.\<close>

theorem column_iterate_values:
  assumes "column_wf c"
  shows "\<exists>c'. column_iterate c = Inr (ct_values c, c') \<and> same_but_cache c c'"
proof -
  let ?P = "\<lambda>i (vs, c'). vs = take i (ct_values c) \<and> same_but_cache c c'"
  let ?f = "\<lambda>row_idx (vs, c). rbind (column_get c row_idx) (\<lambda>(v, c). Inr (vs @ [v], c))"
  have n: "ct_num_values c = length (ct_values c)" using assms by (simp add: column_wf_def)
  have "\<exists>s. rfold ?f [0..<ct_num_values c] ([], c) = Inr s \<and> ?P (length [0..<ct_num_values c]) s"
  proof (rule rfold_invariant[of ?P])
    show "?P 0 ([], c)" by (simp add: same_but_cache_def)
    fix i s
    assume i: "i < length [0..<ct_num_values c]" and P: "?P i s"
    obtain vs c1 where s: "s = (vs, c1)" "vs = take i (ct_values c)" "same_but_cache c c1" using P by (cases s) auto
    have "ct_values c1 = ct_values c" "column_wf c1" using same_but_cache_values[OF s(3)] assms by auto
    then obtain c2 where c2: "column_get c1 i = Inr (ct_values c ! i, c2)" "same_but_cache c1 c2"
      using column_get_correct[of c1 i] i n by auto
    have "c2 = c\<lparr>ct_cached_page_idx := ct_cached_page_idx c2\<rparr>"
      using s(3) c2(2) unfolding same_but_cache_def by (cases c; cases c1; cases c2) simp
    then show "\<exists>s'. ?f ([0..<ct_num_values c] ! i) s = Inr s' \<and> ?P (Suc i) s'"
      using i n c2(1) s by (simp add: same_but_cache_def take_Suc_conv_app_nth)
  qed
  then show ?thesis unfolding column_iterate_def using n by auto
qed

lemma column_iterate_values_witness:
  "\<exists>c'. column_iterate example_zero_copy = Inr (ct_values example_zero_copy, c')"
  using column_iterate_values[OF example_zero_copy_wf] by blast

text \<open>Appending values one by one to an empty column stores them in order, on pages that are all
  full except possibly the last.\<close>

theorem column_append_all:
  assumes "0 < n"
  shows "let c = fold column_append vs (column_new n) in
    column_wf c \<and> ct_values c = vs \<and> ct_num_values c = length vs \<and>
    (\<forall>p \<in> set (butlast (ct_pages c)). length p = n)"
proof -
  have "let c = fold column_append vs (column_new n) in
      column_wf c \<and> ct_values c = vs \<and> \<not> ct_is_zero_copy c \<and> ct_values_per_page c = n"
  proof (induction vs rule: rev_induct)
    case Nil
    show ?case using column_new_wf[OF assms] by (simp add: column_new_def Let_def)
  next
    case (snoc v vs)
    then show ?case
      using column_append_values[of "fold column_append vs (column_new n)" v]
      by (simp add: Let_def) (simp add: column_append_def Let_def)
  qed
  then show ?thesis by (auto simp: Let_def column_wf_def pages_wf_def)
qed

lemma column_append_all_witness:
  "let c = fold column_append [make_i32 1, make_null, make_i32 3] (column_new 2) in
    column_wf c \<and> ct_values c = [make_i32 1, make_null, make_i32 3]"
  using column_append_all[of 2 "[make_i32 1, make_null, make_i32 3]"] unfolding Let_def by (metis zero_less_numeral)

end
