(* ===== verification/HashBloom.thy ===== *)
theory HashBloom
  imports Prelude
begin

text \<open>
  The hash functions (\<open>include/hash_functions.h\<close>) and the 16-bit Bloom filter
  (\<open>include/bloom_filter.h\<close>) of the join hash tables: Fibonacci hashing, the population
  count table built with Kernighan's loop, the four-bit tags and the membership test.
\<close>

section \<open>Fibonacci hashing\<close>

text \<open>\<open>Fibonacci32::operator()\<close>: the key's bits as an unsigned 64-bit value, times the constant.\<close>

definition fibonacci32 :: "u32 \<Rightarrow> u64" where
  "fibonacci32 x = (let v = (ucast x :: u64) in v * 11400714819323198485)"

lemma fibonacci_constant_invertible:
  "(11400714819323198485 :: u64) * 17428512612931826493 = 1"
  by simp

section \<open>Bloom filter\<close>

lemma and_minus_one_less: "x \<noteq> 0 \<Longrightarrow> x AND (x - 1) < (x :: 'a::len word)"
proof -
  assume "x \<noteq> 0"
  have "x AND (x - 1) \<le> x - 1" by (rule word_and_le1)
  also have "x - 1 < x" using \<open>x \<noteq> 0\<close> by (simp add: word_less_nat_alt unat_minus_one) (simp add: unat_gt_0)
  finally show ?thesis .
qed

function kernighan :: "u32 \<Rightarrow> u32 \<Rightarrow> u32" where
  "kernighan x c = (if x = 0 then c else kernighan (x AND (x - 1)) (c + 1))"
  by pat_completeness auto
termination
  by (relation "measure (\<lambda>(x, c). unat x)")
    (auto simp: and_minus_one_less simp flip: word_less_nat_alt)

declare kernighan.simps [simp del]

definition make_popcount_table :: "u8 list" where
  "make_popcount_table = map (\<lambda>i. (ucast (kernighan (of_nat i) 0) :: u8)) [0..<65536]"

definition make_tag_from_hash :: "u64 \<Rightarrow> u16" where
  "make_tag_from_hash h =
     (let b1 = drop_bit 4 h AND 0xF; b2 = drop_bit 12 h AND 0xF;
          b3 = drop_bit 20 h AND 0xF; b4 = drop_bit 28 h AND 0xF
      in ucast (push_bit (unat b1) (1 :: u32) OR push_bit (unat b2) 1 OR
                          push_bit (unat b3) 1 OR push_bit (unat b4) 1))"

definition maybe_contains :: "u16 \<Rightarrow> u16 \<Rightarrow> bool" where
  "maybe_contains bloom tag \<longleftrightarrow> bloom AND tag = tag"

definition popcount :: "u16 \<Rightarrow> u8" where
  "popcount bloom = make_popcount_table ! unat bloom"

section \<open>Properties of the hash\<close>

text \<open>The multiplier is odd, hence invertible: two distinct keys never share a full hash.\<close>

lemma unat_ucast_u32_u64: "unat (ucast (x :: u32) :: u64) = unat x"
proof -
  have "unat x < 2 ^ 64"
    using unat_less_word(3)[of x] by simp
  then show ?thesis by (simp add: unsigned_ucast_eq take_bit_nat_eq_self)
qed

lemma fibonacci32_inject: "fibonacci32 x = fibonacci32 y \<longleftrightarrow> x = y"
proof
  assume "fibonacci32 x = fibonacci32 y"
  then have "(ucast x :: u64) * 11400714819323198485 * 17428512612931826493 =
             (ucast y :: u64) * 11400714819323198485 * 17428512612931826493"
    by (simp add: fibonacci32_def)
  then have "(ucast x :: u64) = ucast y"
    by (simp only: mult.assoc fibonacci_constant_invertible mult_1_right)
  then have "unat (ucast x :: u64) = unat (ucast y :: u64)"
    by simp
  then show "x = y"
    by (simp only: unat_ucast_u32_u64 word_unat_eq_iff)
qed simp

section \<open>Kernighan's loop counts bits\<close>

abbreviation bits_of :: "'a::len word \<Rightarrow> nat set" where
  "bits_of w \<equiv> {i. bit w i}"

lemma bits_double: "{i. bit (2 * m :: nat) i} = Suc ` {i. bit m i}"
proof -
  have "bit (2 * m) i \<longleftrightarrow> (\<exists>j. i = Suc j \<and> bit m j)" for i
    by (cases i) (simp_all add: bit_0 bit_Suc)
  then show ?thesis by auto
qed

lemma bits_odd: "{i. bit (Suc (2 * m)) i} = insert 0 (Suc ` {i. bit m i})"
proof -
  have "bit (Suc (2 * m)) i \<longleftrightarrow> i = 0 \<or> (\<exists>j. i = Suc j \<and> bit m j)" for i
    by (cases i) (simp_all add: bit_0 bit_Suc)
  then show ?thesis by auto
qed

lemma bit_nat_less: "bit (n :: nat) i \<Longrightarrow> i < n"
proof (rule ccontr)
  assume "bit n i" "\<not> i < n"
  then have "n < 2 ^ i" using less_exp[of i] by linarith
  then show False using \<open>bit n i\<close> by (simp add: bit_iff_odd)
qed

lemma finite_bits_nat [simp]: "finite {i. bit (n :: nat) i}"
  by (rule finite_subset[of _ "{..<n}"]) (auto dest: bit_nat_less)

lemma card_bits_and_pred:
  "0 < n \<Longrightarrow> Suc (card {i. bit (n AND (n - 1)) i}) = card {i. bit (n :: nat) i}"
proof (induction n rule: less_induct)
  case (less n)
  show ?case
  proof (cases "even n")
    case True
    then obtain m where n: "n = 2 * m" by (elim evenE)
    with less.prems have m: "0 < m" "m < n" by auto
    have "(n - 1) div 2 = m - 1"
      using n m by presburger
    then have "n AND (n - 1) = 2 * (m AND (m - 1))"
      using n m by (subst and_rec) simp
    then show ?thesis
      using less.IH[OF m(2) m(1)] n by (simp add: bits_double card_image)
  next
    case False
    then obtain m where n: "n = Suc (2 * m)" by (auto elim: oddE)
    have "n AND (n - 1) = 2 * m"
      using n by (subst and_rec) simp
    then show ?thesis
      using n by (simp add: bits_double bits_odd card_image)
  qed
qed

lemma bits_of_unat: "bits_of w = {i. bit (unat w) i}"
  by (simp add: bit_unsigned_iff)

lemma finite_bits_of [simp]: "finite (bits_of w)"
  by (simp add: bits_of_unat)

lemma card_bits_of_and_pred:
  assumes "w \<noteq> 0"
  shows "Suc (card (bits_of (w AND (w - 1)))) = card (bits_of w)"
proof -
  have "unat (w AND (w - 1)) = unat w AND (unat w - 1)"
    using assms by (simp add: unsigned_and_eq unat_minus_one)
  then show ?thesis
    using card_bits_and_pred[of "unat w"] assms by (simp add: bits_of_unat unat_gt_0)
qed

lemma kernighan_counts: "kernighan x c = c + of_nat (card (bits_of x))"
proof (induction x c rule: kernighan.induct)
  case (1 x c)
  show ?case
  proof (cases "x = 0")
    case True
    then show ?thesis by (simp add: kernighan.simps)
  next
    case False
    have "kernighan x c = kernighan (x AND (x - 1)) (c + 1)"
      using False by (subst kernighan.simps) simp
    also have "\<dots> = c + of_nat (Suc (card (bits_of (x AND (x - 1)))))"
      using "1.IH"[OF False] by simp
    finally show ?thesis
      by (simp only: card_bits_of_and_pred[OF False])
  qed
qed

lemma card_bits_of_le: "card (bits_of (w :: 'a::len word)) \<le> LENGTH('a)"
proof -
  have "bits_of w \<subseteq> {..<LENGTH('a)}"
    by (auto dest: bit_imp_le_length)
  then have "card (bits_of w) \<le> card {..<LENGTH('a)}"
    by (rule card_mono[rotated]) simp
  then show ?thesis by simp
qed

lemma popcount_card: "unat (popcount w) = card (bits_of w)"
proof -
  have lt: "unat w < 65536"
    using unat_less_word(2)[of w] by simp
  then have bits: "bits_of (of_nat (unat w) :: u32) = bits_of w"
    by (simp add: bits_of_unat unat_of_nat_less del: of_nat_unat)
  have small: "card (bits_of w) \<le> 16"
    using card_bits_of_le[of w] by simp
  have "popcount w = ucast (of_nat (card (bits_of w)) :: u32)"
    using lt by (simp add: popcount_def make_popcount_table_def kernighan_counts bits
        del: of_nat_unat)
  then show ?thesis
    using small by (simp add: unsigned_ucast_eq unat_of_nat_less take_bit_nat_eq_self)
qed

section \<open>Tags and membership\<close>

definition nibble :: "nat \<Rightarrow> u64 \<Rightarrow> nat" where
  "nibble k h = unat (drop_bit k h AND 0xF)"

lemma nibble_less: "nibble k h < 16"
proof -
  have "drop_bit k h AND 0xF \<le> 0xF" by (rule word_and_le1)
  then show ?thesis by (simp add: nibble_def word_le_nat_alt)
qed

lemma make_tag_nibbles:
  "make_tag_from_hash h = ucast (push_bit (nibble 4 h) (1 :: u32) OR push_bit (nibble 12 h) 1 OR
     push_bit (nibble 20 h) 1 OR push_bit (nibble 28 h) 1)"
  by (simp only: make_tag_from_hash_def Let_def nibble_def)

lemma bits_of_tag:
  "bits_of (make_tag_from_hash h) = {nibble 4 h, nibble 12 h, nibble 20 h, nibble 28 h}"
proof -
  have push: "bit (push_bit (nibble k h) (1 :: u32)) i \<longleftrightarrow> i = nibble k h" for k i
    using nibble_less[of k h] by (simp add: bit_push_one del: push_bit_of_1)
  have "bit (make_tag_from_hash h) i \<longleftrightarrow> i < 16 \<and>
        (i = nibble 4 h \<or> i = nibble 12 h \<or> i = nibble 20 h \<or> i = nibble 28 h)" for i
    by (simp only: make_tag_nibbles bit_ucast_iff bit_or_iff push) simp
  then have "bits_of (make_tag_from_hash h) =
      {i. i < 16 \<and> (i = nibble 4 h \<or> i = nibble 12 h \<or> i = nibble 20 h \<or> i = nibble 28 h)}"
    by (rule Collect_cong)
  also have "\<dots> = {nibble 4 h, nibble 12 h, nibble 20 h, nibble 28 h}"
    by (intro set_eqI) (auto simp: nibble_less)
  finally show ?thesis .
qed

lemma maybe_contains_iff: "maybe_contains b t \<longleftrightarrow> bits_of t \<subseteq> bits_of b"
proof -
  have "b AND t = t \<longleftrightarrow> (\<forall>i. bit t i \<longrightarrow> bit b i)"
  proof
    assume "b AND t = t"
    then have "bit (b AND t) i = bit t i" for i by (rule arg_cong)
    then show "\<forall>i. bit t i \<longrightarrow> bit b i" unfolding bit_and_iff by blast
  next
    assume "\<forall>i. bit t i \<longrightarrow> bit b i"
    then show "b AND t = t" by (intro word_eq_bitsI) (simp only: bit_and_iff, blast)
  qed
  then show ?thesis unfolding maybe_contains_def by blast
qed

lemma maybe_contains_or [simp]:
  "maybe_contains (b OR t) t"
  "maybe_contains b t \<Longrightarrow> maybe_contains (b OR t') t"
  unfolding maybe_contains_iff bit_or_iff by blast+

section \<open>Properties\<close>

text \<open>Fibonacci hashing is a bijection on 32-bit keys followed by an embedding: two keys have
  the same 64-bit hash only if they are equal, and multiplying by the inverse constant recovers
  the key.\<close>

theorem fibonacci32_recovers_key:
  "ucast (fibonacci32 x * 17428512612931826493) = x \<and> (fibonacci32 x = fibonacci32 y \<longleftrightarrow> x = y)"
proof -
  have "fibonacci32 x * 17428512612931826493 = ucast x * (11400714819323198485 * 17428512612931826493)"
    unfolding fibonacci32_def Let_def by (rule mult.assoc)
  also have "\<dots> = ucast x" by (simp only: fibonacci_constant_invertible mult_1_right)
  finally have inv: "fibonacci32 x * 17428512612931826493 = ucast x" .
  have "ucast (ucast x :: u64) = x"
    by (rule word_eq_bitsI) (auto simp: bit_ucast_iff)
  then show ?thesis unfolding inv fibonacci32_inject by simp
qed

text \<open>The Bloom filter of a slot has no false negatives: after the tags of any list of hashes
  have been merged into any initial filter, the test succeeds for every one of them, and a failed
  test means that one of the at most four bits of the tag was never set.\<close>

theorem bloom_no_false_negative:
  "(\<forall>h \<in> set hs. maybe_contains (fold (\<lambda>h b. b OR make_tag_from_hash h) hs b0) (make_tag_from_hash h)) \<and>
   (\<not> maybe_contains (fold (\<lambda>h b. b OR make_tag_from_hash h) hs b0) t \<longleftrightarrow>
      (\<exists>i. bit t i \<and> \<not> bit b0 i \<and> (\<forall>h \<in> set hs. \<not> bit (make_tag_from_hash h) i)))"
proof -
  have bits: "bit (fold (\<lambda>h b. b OR make_tag_from_hash h) hs b0) i \<longleftrightarrow>
      bit b0 i \<or> (\<exists>h \<in> set hs. bit (make_tag_from_hash h) i)" for i
    by (induction hs arbitrary: b0) (auto simp: bit_or_iff)
  show ?thesis unfolding maybe_contains_iff using bits by blast
qed

lemma bloom_no_false_negative_witness:
  "maybe_contains (fold (\<lambda>h b. b OR make_tag_from_hash h) [fibonacci32 7, fibonacci32 9] 0)
     (make_tag_from_hash (fibonacci32 9))"
  using bloom_no_false_negative[of "[fibonacci32 7, fibonacci32 9]" 0 0] by (simp del: fold_simps)

text \<open>The popcount table, built at compile time with Kernighan's loop on bytes, counts the set
  bits of every 16-bit filter.\<close>

theorem popcount_counts_bits: "unat (popcount w) = card {i. bit w i} \<and> unat (popcount w) \<le> 16"
proof -
  have "card {i. bit w i} \<le> LENGTH(16)" by (rule card_bits_of_le)
  then show ?thesis by (simp add: popcount_card)
qed

end
