(* ===== verification/HashTables.thy ===== *)
theory HashTables
  imports Pages
begin

text \<open>
  The hash table interface of the engine: \<open>HashEntry\<close> and \<open>KeyIndexInfo\<close>
  (\<open>include/hash_common.h\<close>), the abstract class \<open>IHashTable\<close> (\<open>include/hashtable_interface.h\<close>) as
  a record of its virtual functions, the page traversal its implementations share, and the
  contract between a table and the join that probes it, as the locale \<open>hash_index\<close>.
\<close>

record 'k hash_entry =
  he_key :: 'k
  he_row_id :: u32

lemma hash_entry_eta [simp]: "\<lparr>he_key = he_key e, he_row_id = he_row_id e\<rparr> = e"
  by (cases e) simp

record 'k key_index_info =
  kii_key :: 'k
  kii_start_index :: nat
  kii_count :: nat
  kii_is_valid :: bool

definition empty_entry :: "'k::zero hash_entry" where
  "empty_entry = \<lparr>he_key = 0, he_row_id = 0\<rparr>"

text \<open>
  The virtual functions. \<open>probe\<close> returns a pointer and a length; \<open>None\<close> is the null pointer,
  \<open>Some es\<close> the entries the pointer and the length delimit. \<open>build_from_zero_copy_int32\<close>
  returns the flag that tells the caller whether the table was built.
\<close>

record ('k, 't) ihash_table =
  iht_new :: 't
  iht_reserve :: "nat \<Rightarrow> 't \<Rightarrow> 't"
  iht_build_from_entries :: "'k hash_entry list \<Rightarrow> 't \<Rightarrow> 't res"
  iht_build_from_zero_copy_int32 :: "column option \<Rightarrow> nat list \<Rightarrow> nat \<Rightarrow> 't \<Rightarrow> ('t \<times> bool) res"
  iht_probe :: "'k \<Rightarrow> 't \<Rightarrow> 'k hash_entry list option"

definition default_build_from_zero_copy_int32 ::
    "column option \<Rightarrow> nat list \<Rightarrow> nat \<Rightarrow> 't \<Rightarrow> ('t \<times> bool) res" where
  "default_build_from_zero_copy_int32 src_column page_offsets num_rows t = Inr (t, False)"

abbreviation bucket :: "'k hash_entry list option \<Rightarrow> 'k hash_entry list" where
  "bucket r \<equiv> (case r of None \<Rightarrow> [] | Some es \<Rightarrow> es)"

abbreviation with_key :: "'k \<Rightarrow> 'k hash_entry list \<Rightarrow> 'k hash_entry list" where
  "with_key k es \<equiv> filter (\<lambda>e. he_key e = k) es"

section \<open>Traversing the rows of a zero-copy column\<close>

text \<open>
  The loop nest of every \<open>build_from_zero_copy_int32\<close>: pages in order, the rows of a page in
  order; the body sees the key and the global row number. A page index outside
  \<open>src_column->pages\<close> and a page whose end lies before its begin are undefined.
\<close>

definition page_entry :: "page \<Rightarrow> nat \<Rightarrow> nat \<Rightarrow> u32 hash_entry" where
  "page_entry p base i = \<lparr>he_key = page_int32 p i, he_row_id = of_nat (base + i)\<rparr>"

definition for_each_row ::
    "column \<Rightarrow> nat list \<Rightarrow> (u32 hash_entry \<Rightarrow> 's \<Rightarrow> 's) \<Rightarrow> 's \<Rightarrow> 's res" where
  "for_each_row src_column page_offsets body =
     rfold (\<lambda>page_idx s.
       let base = page_offsets ! page_idx; stop = page_offsets ! (page_idx + 1)
       in if stop < base then Inl Undefined
          else rbind (at (col_pages src_column) page_idx) (\<lambda>page.
            Inr (fold (\<lambda>i. body (page_entry page base i)) [0..<stop - base] s)))
     [0..<length page_offsets - 1]"

definition zero_copy_entries :: "column \<Rightarrow> nat list \<Rightarrow> u32 hash_entry list res" where
  "zero_copy_entries src_column page_offsets =
     for_each_row src_column page_offsets (\<lambda>e es. es @ [e]) []"

lemma fold_snoc: "fold (\<lambda>x. (\<lambda>es. es @ [f x])) xs es = es @ map f xs"
  by (induction xs arbitrary: es) auto

text \<open>Any traversal is a fold over the entries the traversal collects.\<close>

lemma for_each_row_eq:
  "for_each_row c offs body s =
   rbind (zero_copy_entries c offs) (\<lambda>es. Inr (fold body es s))"
proof -
  have "rfold (\<lambda>page_idx s.
          let base = offs ! page_idx; stop = offs ! (page_idx + 1)
          in if stop < base then Inl Undefined
             else rbind (at (col_pages c) page_idx) (\<lambda>page.
               Inr (fold (\<lambda>i. body (page_entry page base i)) [0..<stop - base] s)))
        ps (fold body es s) =
      rbind (rfold (\<lambda>page_idx s.
          let base = offs ! page_idx; stop = offs ! (page_idx + 1)
          in if stop < base then Inl Undefined
             else rbind (at (col_pages c) page_idx) (\<lambda>page.
               Inr (fold (\<lambda>i es. es @ [page_entry page base i]) [0..<stop - base] s)))
        ps es) (\<lambda>es. Inr (fold body es s))" for ps es
  proof (induction ps arbitrary: es)
    case (Cons p ps)
    show ?case
    proof (cases "offs ! (p + 1) < offs ! p \<or> \<not> p < length (col_pages c)")
      case True
      then show ?thesis by (auto simp: Let_def at_def)
    next
      case False
      then show ?thesis
        using Cons.IH[of "es @ map (page_entry (col_pages c ! p) (offs ! p)) [0..<offs ! (p + 1) - offs ! p]"]
        by (simp add: Let_def fold_snoc fold_map comp_def)
    qed
  qed simp
  from this[of "[0..<length offs - 1]" "[]"] show ?thesis
    by (simp add: for_each_row_def zero_copy_entries_def)
qed

section \<open>The contract of a hash table with the join\<close>

text \<open>
  What the probing loop of the join relies on: whenever a build succeeds, the bucket returned
  for a key contains, among possible others, exactly the entries of that key, in input order.
  \<open>fits\<close> is the range of inputs the table is built for.
\<close>

locale hash_index =
  fixes build :: "'k hash_entry list \<Rightarrow> 't \<Rightarrow> 't res"
    and probe :: "'k \<Rightarrow> 't \<Rightarrow> 'k hash_entry list option"
    and ready :: "'t \<Rightarrow> bool"
    and fits :: "'k hash_entry list \<Rightarrow> bool"
  assumes build_probe:
    "ready t \<Longrightarrow> fits es \<Longrightarrow> build es t = Inr t' \<Longrightarrow>
     with_key k (bucket (probe k t')) = with_key k es"

text \<open>
  What the engine needs of a whole table: construction and \<open>reserve\<close> leave it ready for a build; a build
  on an input in range succeeds or throws one of \<open>failures\<close>; and the build from pages is supported,
  except that it may be refused when there is no row (the fallback of the engine reads the materialised
  pages, which a zero-copy column does not have).
\<close>

locale join_table = hash_index "iht_build_from_entries vt" "iht_probe vt" ready fits
  for vt :: "(u32, 't) ihash_table" and ready :: "'t \<Rightarrow> bool" and fits :: "u32 hash_entry list \<Rightarrow> bool" +
  fixes failures :: "exn set"
  assumes new_ready: "ready (iht_new vt)"
    and reserve_ready: "ready t \<Longrightarrow> ready (iht_reserve vt n t)"
    and build_fails: "ready t \<Longrightarrow> fits es \<Longrightarrow> iht_build_from_entries vt es t = Inl e \<Longrightarrow> e \<in> failures"
    and zero_copy: "ready t \<Longrightarrow> zero_copy_entries src offs = Inr es \<Longrightarrow> fits es \<Longrightarrow> length es = n \<Longrightarrow>
      2 \<le> length offs \<Longrightarrow>
      case iht_build_from_zero_copy_int32 vt (Some src) offs n t of
        Inl e \<Rightarrow> e \<in> failures
      | Inr (t', built) \<Rightarrow> if built then \<forall>k. with_key k (bucket (iht_probe vt k t')) = with_key k es else n = 0"

end
