(* ===== verification/CountingSort.thy ===== *)
theory CountingSort
  imports Prelude
begin

text \<open>
  The bucket layout both unchained hash tables build: count the tuples per directory slot, take
  prefix sums, then scatter the tuples to their slots through write pointers. The loops are
  polymorphic in the counter type (\<open>std::size_t\<close> in \<open>unchained_hashtable.h\<close>, \<open>uint32_t\<close> in
  \<open>parallel_unchained_hashtable.h\<close>). The locale \<open>counter\<close> states what the layout needs of that
  type: a reading as a natural number that is exact below a limit.
\<close>

section \<open>The loops\<close>

definition count_step :: "('a \<Rightarrow> nat) \<Rightarrow> 'a \<Rightarrow> 'p::{plus,one} list \<Rightarrow> 'p list" where
  "count_step slot e cs = cs[slot e := cs ! slot e + 1]"

fun prefix_ends :: "'p::plus \<Rightarrow> 'p list \<Rightarrow> 'p list" where
  "prefix_ends acc [] = []"
| "prefix_ends acc (c # cs) = (acc + c) # prefix_ends (acc + c) cs"

definition scatter_step ::
    "('p \<Rightarrow> nat) \<Rightarrow> ('a \<Rightarrow> nat) \<Rightarrow> ('a \<Rightarrow> 'b) \<Rightarrow> 'a \<Rightarrow> 'p::{plus,one} list \<times> 'b list \<Rightarrow> 'p list \<times> 'b list" where
  "scatter_step rd slot mk e = (\<lambda>(wp, ts).
     let pos = wp ! slot e in (wp[slot e := pos + 1], ts[rd pos := mk e]))"

lemma length_scatter:
  "fold (scatter_step rd slot mk) xs (wp, ts) = (wp', ts') \<Longrightarrow> length wp' = length wp"
  by (induction xs arbitrary: wp ts) (auto simp: scatter_step_def Let_def)

section \<open>The layout\<close>

definition slot_begin :: "('a \<Rightarrow> nat) \<Rightarrow> 'a list \<Rightarrow> nat \<Rightarrow> nat" where
  "slot_begin slot xs s = length (filter (\<lambda>x. slot x < s) xs)"

abbreviation slot_of_list :: "('a \<Rightarrow> nat) \<Rightarrow> 'a list \<Rightarrow> nat \<Rightarrow> 'a list" where
  "slot_of_list slot xs s \<equiv> filter (\<lambda>x. slot x = s) xs"

lemma slot_begin_0 [simp]: "slot_begin slot xs 0 = 0"
  by (simp add: slot_begin_def)

lemma slot_begin_Nil [simp]: "slot_begin slot [] s = 0"
  by (simp add: slot_begin_def)

lemma slot_begin_Suc:
  "slot_begin slot xs (Suc s) = slot_begin slot xs s + length (slot_of_list slot xs s)"
  by (induction xs) (auto simp: slot_begin_def less_Suc_eq)

lemma slot_begin_mono: "s \<le> t \<Longrightarrow> slot_begin slot xs s \<le> slot_begin slot xs t"
proof (induction t)
  case (Suc t)
  then show ?case by (cases "s = Suc t") (auto simp: slot_begin_Suc)
qed simp

lemma slot_begin_le: "slot_begin slot xs s \<le> length xs"
  by (simp add: slot_begin_def)

lemma slot_begin_all: "(\<And>x. x \<in> set xs \<Longrightarrow> slot x < n) \<Longrightarrow> slot_begin slot xs n = length xs"
  by (simp add: slot_begin_def)

lemma slot_ranges_disjoint:
  assumes "i < length (slot_of_list slot xs s)" "j < length (slot_of_list slot xs t)"
    and "slot_begin slot xs s + i = slot_begin slot xs t + j"
  shows "s = t \<and> i = j"
proof -
  have *: "slot_begin slot xs s + length (slot_of_list slot xs s) \<le> slot_begin slot xs t"
    if "s < t" for s t
    using slot_begin_mono[of "Suc s" t slot xs] that by (simp add: slot_begin_Suc)
  show ?thesis
    using assms *[of s t] *[of t s] by (cases s t rule: linorder_cases) auto
qed

lemma slot_position_less:
  assumes "i < length (slot_of_list slot xs s)"
  shows "slot_begin slot xs s + i < length xs"
  using assms slot_begin_le[of slot xs "Suc s"] by (simp add: slot_begin_Suc)

section \<open>Counters that are exact below a limit\<close>

locale counter =
  fixes rd :: "'p::{zero,one,plus} \<Rightarrow> nat"
    and lim :: nat
  assumes rd_zero: "rd 0 = 0"
    and rd_one: "rd 1 = 1"
    and rd_plus: "rd a + rd b < lim \<Longrightarrow> rd (a + b) = rd a + rd b"
begin

lemma length_counts [simp]: "length (fold (count_step slot) xs cs) = length cs"
  by (induction xs arbitrary: cs) (auto simp: count_step_def)

lemma counts_read:
  assumes "length xs < lim" "\<And>x. x \<in> set xs \<Longrightarrow> slot x < n" "s < n"
  shows "rd (fold (count_step slot) xs (replicate n 0) ! s) = length (slot_of_list slot xs s)"
  using assms
proof (induction xs arbitrary: s rule: rev_induct)
  case (snoc x xs)
  let ?cs = "fold (count_step slot) xs (replicate n 0)"
  have IH: "rd (?cs ! t) = length (slot_of_list slot xs t)" if "t < n" for t
    using snoc.IH[of t] snoc.prems that by simp
  have x: "slot x < n" using snoc.prems by simp
  have "rd (?cs ! slot x) + rd 1 \<le> Suc (length xs)"
    using IH[OF x] by (simp add: rd_one)
  also have "\<dots> < lim"
    using snoc.prems(1) by simp
  finally have "rd (?cs ! slot x) + rd 1 < lim" .
  from rd_plus[OF this] have "rd (?cs ! slot x + 1) = Suc (length (slot_of_list slot xs (slot x)))"
    using IH[OF x] by (simp add: rd_one)
  then show ?case
    using IH x snoc.prems
    by (cases "s = slot x") (auto simp: count_step_def[of slot x ?cs])
qed (simp add: rd_zero)

lemma prefix_ends_read:
  assumes "rd acc + sum_list (map rd cs) < lim" "i < length cs"
  shows "rd (prefix_ends acc cs ! i) = rd acc + sum_list (map rd (take (Suc i) cs))"
  using assms
proof (induction cs arbitrary: acc i)
  case (Cons c cs)
  have step: "rd (acc + c) = rd acc + rd c"
    using Cons.prems by (intro rd_plus) simp
  show ?case
  proof (cases i)
    case 0
    then show ?thesis using step by simp
  next
    case (Suc j)
    then show ?thesis using Cons.IH[of "acc + c" j] Cons.prems step by simp
  qed
qed simp

lemma length_prefix_ends [simp]: "length (prefix_ends acc cs) = length cs"
  by (induction cs arbitrary: acc) auto

text \<open>Prefix sums over the counts are the slot boundaries.\<close>

lemma boundaries_read:
  assumes "length xs < lim" "\<And>x. x \<in> set xs \<Longrightarrow> slot x < n" "s < n"
    and cs: "cs = fold (count_step slot) xs (replicate n 0)"
  shows "rd (prefix_ends 0 cs ! s) = slot_begin slot xs (Suc s)"
proof -
  have len: "length cs = n" and reads: "\<And>t. t < n \<Longrightarrow> rd (cs ! t) = length (slot_of_list slot xs t)"
    using counts_read[of xs slot n, OF assms(1,2)] cs by auto
  have sums: "sum_list (map rd (take t cs)) = slot_begin slot xs t" if "t \<le> n" for t
    using that
  proof (induction t)
    case (Suc t)
    then have "take (Suc t) cs = take t cs @ [cs ! t]"
      using len by (simp add: take_Suc_conv_app_nth)
    with Suc show ?case using reads[of t] by (simp add: slot_begin_Suc)
  qed simp
  have "sum_list (map rd cs) < lim"
    using sums[of n] len slot_begin_le[of slot xs n] assms(1) by simp
  then show ?thesis
    using prefix_ends_read[of 0 cs s] sums[of "Suc s"] assms(3) len by (simp add: rd_zero)
qed

text \<open>Scattering through write pointers that start at the slot boundaries.\<close>

lemma scatter_correct:
  fixes mk :: "'a \<Rightarrow> 'b"
  assumes lim: "length xs < lim" and slots: "\<And>x. x \<in> set xs \<Longrightarrow> slot x < n"
    and wp0: "length wp0 = n" "\<And>s. s < n \<Longrightarrow> rd (wp0 ! s) = slot_begin slot xs s"
    and ts0: "length ts0 = length xs"
    and run: "fold (scatter_step rd slot mk) xs (wp0, ts0) = (wp, ts)"
    and s: "s < n"
  shows "take (length (slot_of_list slot xs s)) (drop (slot_begin slot xs s) ts) =
         map mk (slot_of_list slot xs s) \<and> length ts = length xs"
proof -
  define P where "P k st = (case st of (wp, ts) \<Rightarrow>
      length wp = n \<and> length ts = length xs \<and>
      (\<forall>s < n. rd (wp ! s) = slot_begin slot xs s + length (slot_of_list slot (take k xs) s)) \<and>
      (\<forall>s < n. \<forall>j < length (slot_of_list slot (take k xs) s).
         ts ! (slot_begin slot xs s + j) = mk (slot_of_list slot (take k xs) s ! j)))" for k st
  have "P (length xs) (fold (scatter_step rd slot mk) xs (wp0, ts0))"
  proof (rule fold_invariant_nth[of P])
    show "P 0 (wp0, ts0)" using wp0 ts0 by (simp add: P_def)
  next
    fix k st
    assume k: "k < length xs" and "P k st"
    obtain wp ts where st: "st = (wp, ts)" by (cases st)
    let ?x = "xs ! k"
    have x: "slot ?x < n" using slots k by simp
    have tk: "take (Suc k) xs = take k xs @ [?x]"
      using k by (rule take_Suc_conv_app_nth)
    let ?c = "length (slot_of_list slot (take k xs) (slot ?x))"
    let ?pos = "slot_begin slot xs (slot ?x) + ?c"
    have lt: "length (slot_of_list slot (take k xs) t) + (if t = slot ?x then 1 else 0)
              \<le> length (slot_of_list slot xs t)" for t
    proof -
      have "slot_of_list slot xs t = slot_of_list slot (take (Suc k) xs) t @ slot_of_list slot (drop (Suc k) xs) t"
        by (metis append_take_drop_id filter_append)
      then show ?thesis by (simp add: tk)
    qed
    have c: "?c < length (slot_of_list slot xs (slot ?x))"
      using lt[of "slot ?x"] by simp
    have P: "length wp = n" "length ts = length xs"
      "\<And>s. s < n \<Longrightarrow> rd (wp ! s) = slot_begin slot xs s + length (slot_of_list slot (take k xs) s)"
      "\<And>s j. s < n \<Longrightarrow> j < length (slot_of_list slot (take k xs) s) \<Longrightarrow>
         ts ! (slot_begin slot xs s + j) = mk (slot_of_list slot (take k xs) s ! j)"
      using \<open>P k st\<close> by (auto simp: P_def st)
    have pos: "?pos < length xs" using c by (rule slot_position_less)
    have inc: "rd (wp ! slot ?x + 1) = Suc ?pos"
      using rd_plus[of "wp ! slot ?x" 1] P(3)[OF x] pos lim by (simp add: rd_one)
    have cells: "(ts[?pos := mk ?x]) ! (slot_begin slot xs t + j) = mk (slot_of_list slot (take (Suc k) xs) t ! j)"
      if "t < n" "j < length (slot_of_list slot (take (Suc k) xs) t)" for t j
    proof (cases "t = slot ?x \<and> j = ?c")
      case True
      then show ?thesis using pos P(2) by (simp add: tk nth_append)
    next
      case False
      then have j: "j < length (slot_of_list slot (take k xs) t)"
        using that by (auto simp: tk split: if_splits)
      then have "j < length (slot_of_list slot xs t)" using lt[of t] by simp
      then have "slot_begin slot xs t + j \<noteq> ?pos"
        using slot_ranges_disjoint[OF _ c] False by metis
      then show ?thesis using P(4)[OF that(1) j] j by (simp add: tk nth_append)
    qed
    have ptrs: "rd (wp[slot ?x := wp ! slot ?x + 1] ! t) =
        slot_begin slot xs t + length (slot_of_list slot (take (Suc k) xs) t)" if "t < n" for t
      using P(1,3) that inc x by (cases "t = slot ?x") (auto simp: tk)
    show "P (Suc k) (scatter_step rd slot mk ?x st)"
      using cells ptrs P(1,2) P(3)[OF x]
      by (simp add: P_def st scatter_step_def Let_def)
  qed
  then have len: "length ts = length xs" and cells:
    "\<And>j. j < length (slot_of_list slot xs s) \<Longrightarrow> ts ! (slot_begin slot xs s + j) = mk (slot_of_list slot xs s ! j)"
    using run s by (auto simp: P_def)
  have "slot_begin slot xs s + length (slot_of_list slot xs s) \<le> length xs"
    using slot_begin_le[of slot xs "Suc s"] by (simp add: slot_begin_Suc)
  then show ?thesis
    using cells len by (intro conjI nth_equalityI) auto
qed

end

interpretation size_counter: counter "\<lambda>n::nat. n" "Suc n" for n
  by unfold_locales auto

interpretation u32_counter: counter "unat :: u32 \<Rightarrow> nat" "2 ^ 32"
  by unfold_locales (auto simp: unat_plus_less)

end
