(* ===== verification/FlatTable.thy ===== *)
theory FlatTable
  imports HashBloom HashTables CountingSort
begin

text \<open>
  \<open>FlatUnchainedHashTable\<close> (\<open>include/parallel_unchained_hashtable.h\<close>), the table the engine
  joins with, and its wrapper (\<open>include/unchained_hashtable_wrapper.h\<close>): construction, directory
  sizing, the counting/scatter build from entries and from zero-copy pages, the Bloom-guarded
  probe. \<open>TupleEntry\<close> and \<open>HashEntry\<close> have one layout (the wrapper casts between them) and are
  one record here. The hash of a key, \<open>compute_hash\<close>, is an argument: Fibonacci hashing for
  32-bit keys, \<open>std::hash\<close> otherwise.
\<close>

section \<open>State\<close>

record 'k flat_table =
  ft_tuples :: "'k hash_entry list"
  ft_directory_buffer :: "u32 list"
  ft_bloom_filters :: "u16 list"
  ft_counts :: "u32 list"
  ft_write_ptrs :: "u32 list"
  ft_dir_size :: nat
  ft_dir_mask :: u64
  ft_shift :: nat

definition compute_hash_u32 :: "u32 \<Rightarrow> u64" where
  "compute_hash_u32 k = fibonacci32 k"

definition flat_new :: "nat \<Rightarrow> 'k flat_table" where
  "flat_new directory_power =
     (let dir_size = 2 ^ directory_power
      in \<lparr>ft_tuples = [],
          ft_directory_buffer = replicate (dir_size + 2) 0,
          ft_bloom_filters = replicate dir_size 0,
          ft_counts = replicate dir_size 0,
          ft_write_ptrs = replicate dir_size 0,
          ft_dir_size = dir_size,
          ft_dir_mask = of_nat dir_size - 1,
          ft_shift = 64 - directory_power\<rparr>)"

section \<open>Directory sizing\<close>

definition next_pow2 :: "nat \<Rightarrow> nat" where
  "next_pow2 v = while (\<lambda>p. p < v) (\<lambda>p. p * 2) 1"

fun count_shifts :: "nat \<Rightarrow> nat \<Rightarrow> nat" where
  "count_shifts tmp bits = (if 1 < tmp then count_shifts (tmp div 2) (bits + 1) else bits)"

declare count_shifts.simps [simp del]

definition desired_dir_size :: "nat \<Rightarrow> nat" where
  "desired_dir_size tuples_capacity =
     (let kMinDirSize = 2 ^ 10; kMaxDirSize = 2 ^ 18; kTargetBucket = 8;
          desired = tuples_capacity div kTargetBucket;
          desired = (if desired < kMinDirSize then kMinDirSize else desired);
          desired = next_pow2 desired
      in if kMaxDirSize < desired then kMaxDirSize else desired)"

definition flat_reserve :: "nat \<Rightarrow> 'k flat_table \<Rightarrow> 'k flat_table" where
  "flat_reserve tuples_capacity t =
     (let desired = desired_dir_size tuples_capacity
      in if desired \<noteq> ft_dir_size t
         then t\<lparr>ft_dir_size := desired,
                ft_dir_mask := of_nat desired - 1,
                ft_shift := 64 - count_shifts desired 0,
                ft_directory_buffer := replicate (desired + 2) 0,
                ft_bloom_filters := replicate desired 0,
                ft_counts := replicate desired 0,
                ft_write_ptrs := replicate desired 0\<rparr>
         else t)"

section \<open>Building from entries\<close>

definition flat_slot :: "'k flat_table \<Rightarrow> u64 \<Rightarrow> nat" where
  "flat_slot t h = unat (drop_bit (ft_shift t) h AND ft_dir_mask t)"

text \<open>\<open>directory_offsets_[i]\<close> is \<open>directory_buffer_[i + 1]\<close>.\<close>

definition dir_offset :: "'k flat_table \<Rightarrow> nat \<Rightarrow> u32" where
  "dir_offset t i = ft_directory_buffer t ! (i + 1)"

definition flat_clear :: "'k flat_table \<Rightarrow> 'k flat_table" where
  "flat_clear t =
     (let buf = ft_directory_buffer t; n = ft_dir_size t
      in t\<lparr>ft_directory_buffer := take 1 buf @ replicate n 0 @ drop (n + 1) buf,
           ft_bloom_filters := replicate (length (ft_bloom_filters t)) 0\<rparr>)"

definition flat_zero_counts :: "'k flat_table \<Rightarrow> u32 list" where
  "flat_zero_counts t =
     (if length (ft_counts t) \<noteq> ft_dir_size t then replicate (ft_dir_size t) 0
      else replicate (length (ft_counts t)) 0)"

definition flat_count_step ::
    "('k \<Rightarrow> u64) \<Rightarrow> 'k flat_table \<Rightarrow> 'k hash_entry \<Rightarrow> u32 list \<times> u16 list \<Rightarrow> u32 list \<times> u16 list" where
  "flat_count_step compute_hash t e = (\<lambda>(counts, blooms).
     let h = compute_hash (he_key e); slot = flat_slot t h
     in (counts[slot := counts ! slot + 1],
         blooms[slot := blooms ! slot OR make_tag_from_hash h]))"

definition flat_prefix_sums :: "nat \<Rightarrow> u32 list \<Rightarrow> u32 list \<Rightarrow> u32 \<times> u32 list" where
  "flat_prefix_sums n counts buf =
     fold (\<lambda>i (cumulative, buf).
         let cumulative = cumulative + counts ! i in (cumulative, buf[i + 1 := cumulative]))
       [0..<n] (0, buf)"

definition flat_init_write_ptrs :: "nat \<Rightarrow> u32 list \<Rightarrow> u32 list \<Rightarrow> u32 list" where
  "flat_init_write_ptrs n buf wp =
     (let wp = (if length wp \<noteq> n then replicate n 0 else wp)
      in fold (\<lambda>i wp. wp[i := buf ! i]) [1..<n] (wp[0 := 0]))"

definition flat_copy_step ::
    "('k \<Rightarrow> u64) \<Rightarrow> 'k flat_table \<Rightarrow> 'k hash_entry \<Rightarrow> u32 list \<times> 'k hash_entry list
       \<Rightarrow> u32 list \<times> 'k hash_entry list" where
  "flat_copy_step compute_hash t e = (\<lambda>(write_ptrs, tuples).
     let h = compute_hash (he_key e); slot = flat_slot t h; pos = write_ptrs ! slot
     in (write_ptrs[slot := pos + 1],
         tuples[unat pos := \<lparr>he_key = he_key e, he_row_id = he_row_id e\<rparr>]))"

definition flat_build_from_entries ::
    "('k::zero \<Rightarrow> u64) \<Rightarrow> 'k hash_entry list \<Rightarrow> 'k flat_table \<Rightarrow> 'k flat_table" where
  "flat_build_from_entries compute_hash entries t =
     (if entries = [] then (flat_clear t)\<lparr>ft_tuples := []\<rparr>
      else
        (let t = flat_clear t;
             (counts, blooms) = fold (flat_count_step compute_hash t) entries
                                  (flat_zero_counts t, ft_bloom_filters t);
             (cumulative, buf) = flat_prefix_sums (ft_dir_size t) counts (ft_directory_buffer t);
             tuples = replicate (unat cumulative) empty_entry;
             write_ptrs = flat_init_write_ptrs (ft_dir_size t) buf (ft_write_ptrs t);
             (write_ptrs, tuples) = fold (flat_copy_step compute_hash t) entries (write_ptrs, tuples)
         in t\<lparr>ft_counts := counts, ft_bloom_filters := blooms, ft_directory_buffer := buf,
              ft_write_ptrs := write_ptrs, ft_tuples := tuples\<rparr>))"

section \<open>Building from zero-copy pages\<close>

definition flat_build_from_zero_copy_int32 ::
    "column option \<Rightarrow> nat list \<Rightarrow> nat \<Rightarrow> u32 flat_table \<Rightarrow> u32 flat_table res" where
  "flat_build_from_zero_copy_int32 src_column page_offsets num_rows t =
     (case src_column of
        None \<Rightarrow> Inr ((flat_clear t)\<lparr>ft_tuples := []\<rparr>)
      | Some src \<Rightarrow>
        if num_rows = 0 \<or> length page_offsets < 2 then Inr ((flat_clear t)\<lparr>ft_tuples := []\<rparr>)
        else
          (let t = flat_clear t
           in rbind (for_each_row src page_offsets (flat_count_step compute_hash_u32 t)
                       (flat_zero_counts t, ft_bloom_filters t)) (\<lambda>(counts, blooms).
              let (cumulative, buf) = flat_prefix_sums (ft_dir_size t) counts (ft_directory_buffer t);
                  tuples = replicate (unat cumulative) empty_entry;
                  write_ptrs = flat_init_write_ptrs (ft_dir_size t) buf (ft_write_ptrs t)
              in rbind (for_each_row src page_offsets (flat_copy_step compute_hash_u32 t)
                          (write_ptrs, tuples)) (\<lambda>(write_ptrs, tuples).
                 Inr (t\<lparr>ft_counts := counts, ft_bloom_filters := blooms, ft_directory_buffer := buf,
                        ft_write_ptrs := write_ptrs, ft_tuples := tuples\<rparr>)))))"

section \<open>Probing\<close>

definition flat_probe :: "('k \<Rightarrow> u64) \<Rightarrow> 'k \<Rightarrow> 'k flat_table \<Rightarrow> 'k hash_entry list option" where
  "flat_probe compute_hash key t =
     (let h = compute_hash key; slot = flat_slot t h; tag = make_tag_from_hash h
      in if \<not> maybe_contains (ft_bloom_filters t ! slot) tag then None
         else
           (let begin_i = (if slot = 0 then 0 else dir_offset t (slot - 1));
                end_i = dir_offset t slot;
                len = unat (end_i - begin_i)
            in if len = 0 then None
               else Some (take len (drop (unat begin_i) (ft_tuples t)))))"

definition flat_size :: "'k flat_table \<Rightarrow> nat" where
  "flat_size t = length (ft_tuples t)"

section \<open>The wrapper\<close>

definition unchained_wrapper :: "(u32, u32 flat_table) ihash_table" where
  "unchained_wrapper =
     \<lparr>iht_new = flat_new 10,
      iht_reserve = flat_reserve,
      iht_build_from_entries = (\<lambda>es t. Inr (flat_build_from_entries compute_hash_u32 es t)),
      iht_build_from_zero_copy_int32 = (\<lambda>src offs n t.
        rbind (flat_build_from_zero_copy_int32 src offs n (flat_reserve n t)) (\<lambda>t. Inr (t, True))),
      iht_probe = flat_probe compute_hash_u32\<rparr>"

section \<open>Well-formed tables\<close>

definition flat_wf :: "'k flat_table \<Rightarrow> bool" where
  "flat_wf t \<longleftrightarrow>
     (\<exists>p \<in> {1..63}. ft_dir_size t = 2 ^ p \<and> ft_shift t = 64 - p) \<and>
     ft_dir_mask t = of_nat (ft_dir_size t) - 1 \<and>
     length (ft_directory_buffer t) = ft_dir_size t + 2 \<and>
     length (ft_bloom_filters t) = ft_dir_size t \<and>
     length (ft_counts t) = ft_dir_size t \<and>
     length (ft_write_ptrs t) = ft_dir_size t"

lemma flat_wf_lengths [layout]:
  assumes "flat_wf t"
  shows "length (ft_directory_buffer t) = ft_dir_size t + 2"
    "length (ft_bloom_filters t) = ft_dir_size t" "length (ft_counts t) = ft_dir_size t"
    "length (ft_write_ptrs t) = ft_dir_size t" "0 < ft_dir_size t"
  using assms by (auto simp: flat_wf_def)

lemma and_mask_less:
  assumes "p < 64"
  shows "unat (w AND (of_nat (2 ^ p) - 1 :: u64)) < 2 ^ p"
proof -
  have "(of_nat (2 ^ p) - 1 :: u64) = mask p"
    by (simp add: mask_eq_exp_minus_1)
  then have "unat (w AND (of_nat (2 ^ p) - 1)) = take_bit p (unat w)"
    using assms by (simp add: unsigned_take_bit_eq flip: take_bit_eq_mask)
  then show ?thesis by simp
qed

lemma flat_slot_less: "flat_wf t \<Longrightarrow> flat_slot t h < ft_dir_size t"
  unfolding flat_slot_def flat_wf_def using and_mask_less by auto

lemma flat_wf_new: "p \<in> {1..63} \<Longrightarrow> flat_wf (flat_new p)"
  by (auto simp: flat_wf_def flat_new_def Let_def)

section \<open>Directory sizing is a power of two between 1024 and 262144\<close>

lemma next_pow2_spec:
  "\<exists>i. next_pow2 v = 2 ^ i \<and> v \<le> next_pow2 v \<and> (v \<le> 1 \<or> next_pow2 v < 2 * v)"
proof -
  let ?P = "\<lambda>p. (\<exists>i. p = 2 ^ i) \<and> (v \<le> 1 \<longrightarrow> p = 1) \<and> (1 < v \<longrightarrow> p < 2 * v)"
  have "?P (next_pow2 v) \<and> v \<le> next_pow2 v"
    unfolding next_pow2_def
  proof (rule while_rule[where P = ?P and r = "measure (\<lambda>p. v - p)"])
    show "?P 1" by (auto intro: exI[of _ 0])
    show "?P (p * 2)" if "?P p" "p < v" for p
      using that by (auto intro: exI[of _ "Suc _"])
    show "(p * 2, p) \<in> measure (\<lambda>p. v - p)" if "?P p" "p < v" for p
      using that by (auto intro!: diff_less_mono2)
  qed auto
  then show ?thesis by auto
qed

lemma desired_dir_size_cases: "\<exists>i \<in> {10..18}. desired_dir_size c = 2 ^ i"
proof -
  let ?d = "if c div 8 < 2 ^ 10 then 2 ^ 10 else c div 8"
  obtain i where i: "next_pow2 ?d = 2 ^ i" "?d \<le> next_pow2 ?d"
    using next_pow2_spec[of ?d] by blast
  have d: "desired_dir_size c = (if 2 ^ 18 < next_pow2 ?d then 2 ^ 18 else next_pow2 ?d)"
    by (simp add: desired_dir_size_def Let_def)
  have "(2::nat) ^ 10 \<le> 2 ^ i" using i by (auto split: if_splits)
  then have "10 \<le> i" by (rule power_le_imp_le_exp[rotated]) simp
  show ?thesis
  proof (cases "(2::nat) ^ 18 < 2 ^ i")
    case True
    then have "desired_dir_size c = 2 ^ 18" using d i by simp
    then show ?thesis by (intro bexI[of _ 18]) simp_all
  next
    case False
    then have "i \<le> 18" 
      by (meson not_less power_strict_increasing one_less_numeral_iff semiring_norm(76))
    with \<open>10 \<le> i\<close> show ?thesis using d i False by auto
  qed
qed

lemma count_shifts_pow2: "count_shifts (2 ^ i) b = b + i"
proof (induction i arbitrary: b)
  case 0
  then show ?case by (simp add: count_shifts.simps)
next
  case (Suc i)
  have "count_shifts (2 ^ Suc i) b = count_shifts (2 ^ i) (b + 1)"
  proof -
    have "1 < (2::nat) ^ Suc i" by (rule one_less_power) simp_all
    then show ?thesis by (subst count_shifts.simps) simp
  qed
  then show ?case by (simp add: Suc.IH)
qed

lemma flat_wf_reserve:
  assumes "flat_wf t"
  shows "flat_wf (flat_reserve c t)"
proof -
  obtain i where i: "i \<in> {10..18}" "desired_dir_size c = 2 ^ i"
    using desired_dir_size_cases by blast
  then show ?thesis
    using assms by (auto simp: flat_reserve_def Let_def flat_wf_def count_shifts_pow2 intro!: bexI[of _ i])
qed

section \<open>The build computes the slot layout\<close>

abbreviation entry_slot :: "('k \<Rightarrow> u64) \<Rightarrow> 'k flat_table \<Rightarrow> 'k hash_entry \<Rightarrow> nat" where
  "entry_slot ch t e \<equiv> flat_slot t (ch (he_key e))"

abbreviation entry_tag :: "('k \<Rightarrow> u64) \<Rightarrow> 'k hash_entry \<Rightarrow> u16" where
  "entry_tag ch e \<equiv> make_tag_from_hash (ch (he_key e))"

definition bloom_step :: "('k \<Rightarrow> u64) \<Rightarrow> 'k flat_table \<Rightarrow> 'k hash_entry \<Rightarrow> u16 list \<Rightarrow> u16 list" where
  "bloom_step ch t e blooms =
     blooms[entry_slot ch t e := blooms ! entry_slot ch t e OR entry_tag ch e]"

lemma flat_count_fold:
  "fold (flat_count_step ch t) es (cs, bs) =
     (fold (count_step (entry_slot ch t)) es cs, fold (bloom_step ch t) es bs)"
  by (induction es arbitrary: cs bs)
    (auto simp: flat_count_step_def count_step_def bloom_step_def Let_def)

lemma flat_copy_step_scatter:
  "flat_copy_step ch t = scatter_step unat (entry_slot ch t) (\<lambda>e. e)"
  by (auto simp: flat_copy_step_def scatter_step_def Let_def fun_eq_iff)

lemma length_bloom_fold [simp, layout]: "length (fold (bloom_step ch t) es bs) = length bs"
  by (induction es arbitrary: bs) (auto simp: bloom_step_def)

lemma bloom_fold_keeps:
  "maybe_contains (bs ! s) tag \<Longrightarrow> maybe_contains (fold (bloom_step ch t) es bs ! s) tag"
proof (induction es arbitrary: bs)
  case (Cons e es)
  have "maybe_contains (bloom_step ch t e bs ! s) tag"
    using Cons.prems
    by (cases "entry_slot ch t e < length bs")
      (auto simp: bloom_step_def nth_list_update list_update_beyond)
  with Cons.IH show ?case by simp
qed simp

lemma bloom_fold_member:
  assumes "e \<in> set es" "entry_slot ch t e < length bs"
  shows "maybe_contains (fold (bloom_step ch t) es bs ! entry_slot ch t e) (entry_tag ch e)"
  using assms
proof (induction es arbitrary: bs)
  case (Cons e' es)
  show ?case
  proof (cases "e \<in> set es")
    case True
    then show ?thesis using Cons by (simp add: bloom_step_def)
  next
    case False
    then have "e' = e" using Cons.prems by simp
    then show ?thesis
      using Cons.prems by (auto intro: bloom_fold_keeps simp: bloom_step_def[of ch t e bs])
  qed
qed simp

lemma prefix_ends_nth:
  "i < length cs \<Longrightarrow> prefix_ends acc cs ! i = (if i = 0 then acc else prefix_ends acc cs ! (i - 1)) + cs ! i"
proof (induction cs arbitrary: acc i)
  case (Cons c cs)
  then show ?case
    by (cases i; cases "i - 1") (auto dest: Cons.IH[of "i - 1" "acc + c"])
qed simp

lemma flat_prefix_sums_eq:
  assumes "length cs = n" "length buf = n + 2" "0 < n"
    and run: "flat_prefix_sums n cs buf = (cum, buf')"
  shows "length buf' = n + 2" "\<And>i. i < n \<Longrightarrow> buf' ! (i + 1) = prefix_ends 0 cs ! i"
    "buf' ! 0 = buf ! 0" "cum = prefix_ends 0 cs ! (n - 1)"
proof -
  let ?step = "\<lambda>i (cumulative, buf).
         let cumulative = cumulative + cs ! i in (cumulative, buf[i + 1 := cumulative])"
  let ?P = "\<lambda>k (cum, b). length b = n + 2 \<and> (\<forall>i < k. b ! (i + 1) = prefix_ends 0 cs ! i) \<and>
      b ! 0 = buf ! 0 \<and> cum = (if k = 0 then 0 else prefix_ends 0 cs ! (k - 1))"
  have "?P (length [0..<n]) (fold ?step [0..<n] (0, buf))"
  proof (rule fold_invariant_nth)
    show "?P 0 (0, buf)" using assms by simp
  next
    fix k st
    assume k: "k < length [0..<n]" and P: "?P k st"
    obtain c b where st: "st = (c, b)" by (cases st)
    have "c + cs ! k = prefix_ends 0 cs ! k"
      using P k prefix_ends_nth[of k cs 0] assms(1) by (auto simp: st)
    moreover have "Suc k < length b" using P k by (simp add: st)
    ultimately show "?P (Suc k) (?step ([0..<n] ! k) st)"
      using P k by (simp add: st Let_def nth_list_update less_Suc_eq del: upt_Suc)
  qed
  then show "length buf' = n + 2" "\<And>i. i < n \<Longrightarrow> buf' ! (i + 1) = prefix_ends 0 cs ! i"
    "buf' ! 0 = buf ! 0" "cum = prefix_ends 0 cs ! (n - 1)"
    using run \<open>0 < n\<close> by (simp_all add: flat_prefix_sums_def)
qed

lemma flat_init_write_ptrs_eq:
  assumes "0 < n"
  shows "length (flat_init_write_ptrs n buf wp) = n \<and>
    (\<forall>i < n. flat_init_write_ptrs n buf wp ! i = (if i = 0 then 0 else buf ! i))"
proof -
  let ?wp = "if length wp \<noteq> n then replicate n 0 else wp"
  let ?P = "\<lambda>k w. length w = n \<and> (\<forall>i < Suc k. i < n \<longrightarrow> w ! i = (if i = 0 then 0 else buf ! i))"
  have "?P (length [1..<n]) (fold (\<lambda>i wp. wp[i := buf ! i]) [1..<n] (?wp[0 := 0]))"
  proof (rule fold_invariant_nth)
    show "?P 0 (?wp[0 := 0])" using assms by simp
  next
    fix k w
    assume "k < length [1..<n]" "?P k w"
    then show "?P (Suc k) (w[[1..<n] ! k := buf ! ([1..<n] ! k)])"
      by (auto simp: nth_list_update less_Suc_eq)
  qed
  then show ?thesis using assms by (simp add: flat_init_write_ptrs_def Let_def)
qed

text \<open>
  \<open>flat_holds ch es t\<close>: table \<open>t\<close> represents the entries \<open>es\<close>. The directory holds the end of
  every slot, the tuples of a slot are the entries that hash to it in input order, and the
  filter of a slot contains the tags of its entries.
\<close>

definition flat_holds :: "('k \<Rightarrow> u64) \<Rightarrow> 'k hash_entry list \<Rightarrow> 'k flat_table \<Rightarrow> bool" where
  "flat_holds ch es t \<longleftrightarrow>
     flat_wf t \<and>
     (\<forall>s < ft_dir_size t. unat (dir_offset t s) = slot_begin (entry_slot ch t) es (Suc s)) \<and>
     (\<forall>s < ft_dir_size t.
        take (length (slot_of_list (entry_slot ch t) es s))
          (drop (slot_begin (entry_slot ch t) es s) (ft_tuples t)) = slot_of_list (entry_slot ch t) es s) \<and>
     (\<forall>e \<in> set es. maybe_contains (ft_bloom_filters t ! entry_slot ch t e) (entry_tag ch e)) \<and>
     length (ft_tuples t) = length es"

lemma flat_clear_fields:
  "ft_dir_size (flat_clear t) = ft_dir_size t" "ft_shift (flat_clear t) = ft_shift t"
  "ft_dir_mask (flat_clear t) = ft_dir_mask t" "ft_write_ptrs (flat_clear t) = ft_write_ptrs t"
  "ft_counts (flat_clear t) = ft_counts t"
  by (simp_all add: flat_clear_def Let_def)

lemma flat_slot_cong:
  "ft_shift t' = ft_shift t \<Longrightarrow> ft_dir_mask t' = ft_dir_mask t \<Longrightarrow> flat_slot t' = flat_slot t"
  by (simp add: flat_slot_def fun_eq_iff)

lemma flat_wf_clear: "flat_wf t \<Longrightarrow> flat_wf (flat_clear t)"
  by (auto simp: flat_wf_def flat_clear_def Let_def)

lemma flat_holds_empty:
  assumes "flat_wf t"
  shows "flat_holds ch [] ((flat_clear t)\<lparr>ft_tuples := []\<rparr>)"
proof -
  have "dir_offset (flat_clear t) s = 0" if "s < ft_dir_size t" for s
    using that flat_wf_lengths[OF assms]
    by (auto simp: dir_offset_def flat_clear_def Let_def nth_append nth_Cons')
  then show ?thesis
    using flat_wf_clear[OF assms]
    by (auto simp: flat_holds_def flat_wf_def dir_offset_def flat_clear_fields)
qed

lemma flat_layout:
  fixes t :: "'k::zero flat_table"
  assumes wf: "flat_wf t" and lim: "length es < 2 ^ 32"
    and sums: "flat_prefix_sums (ft_dir_size t) (fold (count_step (entry_slot ch t)) es
        (replicate (ft_dir_size t) 0)) (ft_directory_buffer t) = (cum, buf)"
    and copy: "fold (flat_copy_step ch t) es (flat_init_write_ptrs (ft_dir_size t) buf (ft_write_ptrs t),
        replicate (unat cum) empty_entry) = (wp, ts)"
    and t': "t' = t\<lparr>ft_counts := fold (count_step (entry_slot ch t)) es (replicate (ft_dir_size t) 0),
        ft_bloom_filters := fold (bloom_step ch t) es (ft_bloom_filters t),
        ft_directory_buffer := buf, ft_write_ptrs := wp, ft_tuples := ts\<rparr>"
  shows "flat_holds ch es t'"
proof -
  let ?n = "ft_dir_size t" and ?slot = "entry_slot ch t"
  let ?cs = "fold (count_step ?slot) es (replicate ?n (0 :: u32))"
  note len = flat_wf_lengths[OF wf]
  have slots: "?slot e < ?n" for e using flat_slot_less[OF wf] .
  have cs_len: "length ?cs = ?n" by simp
  note ps = flat_prefix_sums_eq[OF cs_len len(1) len(5) sums]
  have ends: "unat (prefix_ends 0 ?cs ! s) = slot_begin ?slot es (Suc s)" if "s < ?n" for s
    using u32_counter.boundaries_read[OF lim slots that refl] .
  then have cum: "unat cum = length es"
    using ps(4) len(5) slot_begin_all[of es ?slot ?n] slots by simp
  let ?wp0 = "flat_init_write_ptrs ?n buf (ft_write_ptrs t)"
  have wp0: "length ?wp0 = ?n" "\<And>s. s < ?n \<Longrightarrow> unat (?wp0 ! s) = slot_begin ?slot es s"
  proof -
    show "length ?wp0 = ?n" using flat_init_write_ptrs_eq[OF len(5)] by blast
    fix s assume s: "s < ?n"
    show "unat (?wp0 ! s) = slot_begin ?slot es s"
    proof (cases s)
      case 0
      then show ?thesis using flat_init_write_ptrs_eq[OF len(5)] s by simp
    next
      case (Suc r)
      then have "?wp0 ! s = prefix_ends 0 ?cs ! r"
        using flat_init_write_ptrs_eq[OF len(5), of buf] s ps(2)[of r] by simp
      then show ?thesis using ends[of r] Suc s by simp
    qed
  qed
  have scat: "fold (scatter_step unat ?slot (\<lambda>e. e)) es (?wp0, replicate (unat cum) empty_entry) = (wp, ts)"
    using copy by (simp add: flat_copy_step_scatter)
  have slices: "take (length (slot_of_list ?slot es s)) (drop (slot_begin ?slot es s) ts) =
      slot_of_list ?slot es s \<and> length ts = length es" if "s < ?n" for s
    using u32_counter.scatter_correct[OF lim slots wp0 _ scat that] cum by simp
  have wp_len: "length wp = ?n"
    using scat wp0(1) length_scatter by metis
  have same: "flat_slot t' = flat_slot t"
    by (rule flat_slot_cong) (simp_all add: t')
  have "flat_wf t'"
    using wf wp_len ps(1) len by (auto simp: flat_wf_def t')
  moreover have "dir_offset t' s = prefix_ends 0 ?cs ! s" if "s < ?n" for s
    using ps(2)[OF that] by (simp add: dir_offset_def t')
  moreover have "maybe_contains (ft_bloom_filters t' ! ?slot e) (entry_tag ch e)" if "e \<in> set es" for e
    using bloom_fold_member[OF that, where ch = ch and t = t and bs = "ft_bloom_filters t"] slots len(2) by (simp add: t')
  ultimately show ?thesis
    using ends slices slices[OF len(5)] by (auto simp: flat_holds_def same) (auto simp: t')
qed

section \<open>Probing a built table\<close>

lemma flat_probe_bucket:
  assumes holds: "flat_holds ch es t" and lim: "length es < 2 ^ 32"
  shows "bucket (flat_probe ch k t) =
    (if maybe_contains (ft_bloom_filters t ! flat_slot t (ch k)) (make_tag_from_hash (ch k))
     then slot_of_list (entry_slot ch t) es (flat_slot t (ch k)) else [])"
proof -
  let ?slot = "entry_slot ch t" and ?s = "flat_slot t (ch k)"
  have s: "?s < ft_dir_size t"
    using flat_slot_less holds by (auto simp: flat_holds_def)
  let ?b = "if ?s = 0 then 0 else dir_offset t (?s - 1)"
  have b: "unat ?b = slot_begin ?slot es ?s"
    using holds s by (cases ?s) (auto simp: flat_holds_def)
  have e: "unat (dir_offset t ?s) = slot_begin ?slot es (Suc ?s)"
    using holds s by (auto simp: flat_holds_def)
  then have "unat (dir_offset t ?s - ?b) = length (slot_of_list ?slot es ?s)"
    using b by (simp add: unat_sub word_le_nat_alt slot_begin_Suc)
  moreover have "take (length (slot_of_list ?slot es ?s)) (drop (slot_begin ?slot es ?s) (ft_tuples t)) =
      slot_of_list ?slot es ?s"
    using holds s by (auto simp: flat_holds_def)
  ultimately show ?thesis
    using b by (simp add: flat_probe_def Let_def)
qed

lemma flat_probe_with_key:
  assumes "flat_holds ch es t" and "length es < 2 ^ 32"
  shows "with_key k (bucket (flat_probe ch k t)) = with_key k es"
proof (cases "maybe_contains (ft_bloom_filters t ! flat_slot t (ch k)) (make_tag_from_hash (ch k))")
  case True
  have "with_key k (slot_of_list (entry_slot ch t) es (flat_slot t (ch k))) = with_key k es"
    by (induction es) auto
  with True show ?thesis by (simp add: flat_probe_bucket[OF assms])
next
  case False
  have "he_key e \<noteq> k" if "e \<in> set es" for e
    using assms(1) that False by (auto simp: flat_holds_def)
  with False show ?thesis by (simp add: flat_probe_bucket[OF assms])
qed

lemma flat_holds_build:
  assumes "flat_wf t" and "length es < 2 ^ 32"
  shows "flat_holds ch es (flat_build_from_entries ch es t)"
proof (cases "es = []")
  case True
  then show ?thesis using flat_holds_empty[OF assms(1)] by (simp add: flat_build_from_entries_def)
next
  case False
  have zero: "flat_zero_counts (flat_clear t) = replicate (ft_dir_size (flat_clear t)) 0"
    by (simp add: flat_zero_counts_def)
  show ?thesis
    using False
    by (auto simp: flat_build_from_entries_def Let_def flat_count_fold zero split: prod.splits
        intro!: flat_layout[OF flat_wf_clear[OF assms(1)] assms(2)])
qed

lemma flat_holds_build_zero_copy:
  assumes "flat_wf t" and "zero_copy_entries src offs = Inr es" and "length es < 2 ^ 32"
    and "0 < n" "2 \<le> length offs"
  shows "\<exists>t'. flat_build_from_zero_copy_int32 (Some src) offs n t = Inr t' \<and>
              flat_holds compute_hash_u32 es t'"
proof -
  have zero: "flat_zero_counts (flat_clear t) = replicate (ft_dir_size (flat_clear t)) 0"
    by (simp add: flat_zero_counts_def)
  show ?thesis
    using assms(4,5)
    by (auto simp: flat_build_from_zero_copy_int32_def Let_def for_each_row_eq assms(2) flat_count_fold
        zero split: prod.splits intro!: flat_layout[OF flat_wf_clear[OF assms(1)] assms(3)])
qed

section \<open>The contract\<close>

interpretation flat: hash_index
  "\<lambda>es t. Inr (flat_build_from_entries ch es t)" "flat_probe ch" flat_wf "\<lambda>es. length es < 2 ^ 32"
  for ch :: "'k::zero \<Rightarrow> u64"
  by unfold_locales (auto simp: flat_probe_with_key[OF flat_holds_build])

text \<open>The wrapped table meets the whole contract of the engine.\<close>

lemma wrapper_zero_copy:
  assumes wf: "flat_wf t" and es: "zero_copy_entries src offs = Inr es"
    and fits: "length es < 2 ^ 32" "length es = n" and offs: "2 \<le> length offs"
  shows "\<exists>t'. flat_build_from_zero_copy_int32 (Some src) offs n (flat_reserve n t) = Inr t' \<and>
              (\<forall>k. with_key k (bucket (flat_probe compute_hash_u32 k t')) = with_key k es)"
proof (cases "n = 0")
  case True
  have "flat_holds compute_hash_u32 es ((flat_clear (flat_reserve n t))\<lparr>ft_tuples := []\<rparr>)"
    using flat_holds_empty[OF flat_wf_reserve[OF wf]] True fits by simp
  then show ?thesis
    using True flat_probe_with_key[OF _ fits(1)] by (simp add: flat_build_from_zero_copy_int32_def)
next
  case False
  then show ?thesis
    using flat_holds_build_zero_copy[OF flat_wf_reserve[OF wf] es fits(1) _ offs, of n n]
      flat_probe_with_key[OF _ fits(1)] by auto
qed

interpretation unchained: join_table unchained_wrapper flat_wf "\<lambda>es. length es < 2 ^ 32" "{}"
proof unfold_locales
  show "with_key k (bucket (iht_probe unchained_wrapper k t')) = with_key k es"
    if "flat_wf t" "length es < 2 ^ 32" "iht_build_from_entries unchained_wrapper es t = Inr t'" for t es t' k
    using that flat.build_probe[OF that(1,2) refl, of k compute_hash_u32] by (auto simp: unchained_wrapper_def)
  show "case iht_build_from_zero_copy_int32 unchained_wrapper (Some src) offs n t of
        Inl e \<Rightarrow> e \<in> {}
      | Inr (t', built) \<Rightarrow>
          if built then \<forall>k. with_key k (bucket (iht_probe unchained_wrapper k t')) = with_key k es else n = 0"
    if "flat_wf t" "zero_copy_entries src offs = Inr es" "length es < 2 ^ 32" "length es = n" "2 \<le> length offs"
    for t src offs es n
    using wrapper_zero_copy[OF that] by (auto simp: unchained_wrapper_def)
qed (auto simp: unchained_wrapper_def flat_wf_new flat_wf_reserve)

section \<open>Properties\<close>

text \<open>C12. Building and probing the default hash table: from any well-formed table, whatever it held
  before, after \<open>reserve\<close> and \<open>build_from_entries\<close> the bucket returned for a key contains exactly
  the entries with that key, in input order and with multiplicity; a key that was not inserted
  finds none.\<close>

theorem flat_build_then_probe:
  fixes t :: "'k::zero flat_table"
  assumes "flat_wf t" "length es < 2 ^ 32"
  shows "filter (\<lambda>e. he_key e = k)
      (bucket (flat_probe ch k (flat_build_from_entries ch es (flat_reserve n t)))) =
    filter (\<lambda>e. he_key e = k) es"
  by (rule flat.build_probe[OF flat_wf_reserve[OF assms(1)] assms(2) refl])

definition example_entries :: "u32 hash_entry list" where
  "example_entries = [\<lparr>he_key = 7, he_row_id = 0\<rparr>, \<lparr>he_key = 9, he_row_id = 1\<rparr>, \<lparr>he_key = 7, he_row_id = 2\<rparr>]"

lemma flat_build_then_probe_witness:
  "filter (\<lambda>e. he_key e = 7)
      (bucket (flat_probe compute_hash_u32 7
        (flat_build_from_entries compute_hash_u32 example_entries (flat_reserve 3 (flat_new 10))))) =
    [\<lparr>he_key = 7, he_row_id = 0\<rparr>, \<lparr>he_key = 7, he_row_id = 2\<rparr>]"
  using flat_build_then_probe[OF flat_wf_new[of 10], of example_entries]
  by (simp add: example_entries_def)

text \<open>C20. A probe never reads outside the table and returns whole buckets: on a table built from
  any entries, the slot of every key is inside the directory, the range it delimits lies inside
  the tuples, and a non-null answer is the non-empty list of all entries that fall into the slot,
  in input order.\<close>

theorem flat_probe_in_bounds:
  fixes t :: "'k::zero flat_table"
  assumes "flat_wf t" "length es < 2 ^ 32"
  shows "let t' = flat_build_from_entries ch es t; slot = flat_slot t' (ch k); first = (if slot = 0 then 0 else unat (dir_offset t' (slot - 1))) in
    slot < length (ft_bloom_filters t') \<and> slot + 1 < length (ft_directory_buffer t') \<and>
    first \<le> unat (dir_offset t' slot) \<and> unat (dir_offset t' slot) \<le> length (ft_tuples t') \<and>
    (case flat_probe ch k t' of None \<Rightarrow> True
     | Some b \<Rightarrow> b \<noteq> [] \<and> b = filter (\<lambda>e. flat_slot t' (ch (he_key e)) = slot) es)"
proof -
  define t' where "t' = flat_build_from_entries ch es t"
  have holds: "flat_holds ch es t'" unfolding t'_def by (rule flat_holds_build[OF assms(1,2)])
  let ?s = "flat_slot t' (ch k)"
  have wf: "flat_wf t'" using holds by (simp add: flat_holds_def)
  have s: "?s < ft_dir_size t'" by (rule flat_slot_less[OF wf])
  have ends: "unat (dir_offset t' r) = slot_begin (entry_slot ch t') es (Suc r)" if "r < ft_dir_size t'" for r
    using holds that by (simp add: flat_holds_def)
  have first: "(if ?s = 0 then 0 else unat (dir_offset t' (?s - 1))) = slot_begin (entry_slot ch t') es ?s"
    using ends[of "?s - 1"] s by (cases ?s) auto
  have "slot_begin (entry_slot ch t') es ?s \<le> slot_begin (entry_slot ch t') es (Suc ?s)"
    by (rule slot_begin_mono) simp
  moreover have "slot_begin (entry_slot ch t') es (Suc ?s) \<le> length (ft_tuples t')"
    using slot_begin_le[of "entry_slot ch t'" es "Suc ?s"] holds by (simp add: flat_holds_def)
  moreover have "b \<noteq> [] \<and> b = slot_of_list (entry_slot ch t') es ?s" if "flat_probe ch k t' = Some b" for b
  proof -
    have "b \<noteq> []"
    proof
      assume "b = []"
      with that have *: "take (unat (dir_offset t' ?s - (if ?s = 0 then 0 else dir_offset t' (?s - 1))))
          (drop (unat (if ?s = 0 then 0 else dir_offset t' (?s - 1))) (ft_tuples t')) = []"
        "unat (dir_offset t' ?s - (if ?s = 0 then 0 else dir_offset t' (?s - 1))) \<noteq> 0"
        unfolding flat_probe_def Let_def by (auto split: if_splits)
      let ?b = "if ?s = 0 then 0 else dir_offset t' (?s - 1)"
      have b: "unat ?b = slot_begin (entry_slot ch t') es ?s" using first by (simp split: if_splits)
      have "unat (dir_offset t' ?s - ?b) = length (slot_of_list (entry_slot ch t') es ?s)"
        using b ends[OF s] by (simp add: unat_sub word_le_nat_alt slot_begin_Suc)
      then have "slot_begin (entry_slot ch t') es ?s < length (ft_tuples t')"
        using *(2) slot_position_less[of 0 "entry_slot ch t'" ?s es] holds by (simp add: flat_holds_def)
      then show False using *(1,2) b by (simp only: take_eq_Nil drop_eq_Nil) linarith
    qed
    moreover have "bucket (flat_probe ch k t') = b" using that by simp
    ultimately show ?thesis
      using flat_probe_bucket[OF holds assms(2), of k] by (auto split: if_splits)
  qed
  ultimately show ?thesis
    using s first ends[OF s] flat_wf_lengths[OF wf] unfolding t'_def[symmetric]
    by (auto simp: Let_def split: option.split)
qed

lemma flat_probe_in_bounds_witness:
  "let t' = flat_build_from_entries compute_hash_u32 example_entries (flat_new 10);
       slot = flat_slot t' (compute_hash_u32 7) in
   slot < length (ft_bloom_filters t') \<and> unat (dir_offset t' slot) \<le> length (ft_tuples t')"
  using flat_probe_in_bounds[OF flat_wf_new[of 10], of example_entries compute_hash_u32 7]
  by (simp add: example_entries_def Let_def)

text \<open>Directory sizing: \<open>reserve\<close> chooses a power of two between 1024 and 262144 slots, at least
  one slot per eight tuples unless the cap is reached, and less than twice that unless the minimum
  applies; mask and shift agree with the size, so every slot index is in range.\<close>

theorem flat_reserve_sizing:
  fixes t :: "'k flat_table"
  assumes "flat_wf t"
  shows "let t' = flat_reserve n t; d = ft_dir_size t' in
    (\<exists>p \<in> {10..18}. d = 2 ^ p \<and> ft_shift t' = 64 - p) \<and>
    (n div 8 \<le> d \<or> d = 2 ^ 18) \<and> (d < 2 * (n div 8) \<or> d = 2 ^ 10) \<and> flat_slot t' h < d"
proof -
  let ?t = "flat_reserve n t"
  have d: "ft_dir_size ?t = desired_dir_size n" by (simp add: flat_reserve_def Let_def)
  have wf: "flat_wf ?t" by (rule flat_wf_reserve[OF assms])
  obtain p where p: "p \<in> {10..18}" "desired_dir_size n = 2 ^ p" using desired_dir_size_cases by blast
  obtain q where q: "ft_dir_size ?t = 2 ^ q" "ft_shift ?t = 64 - q" using wf by (auto simp: flat_wf_def)
  have "q = p" using p(2) q(1) d by simp
  have next_1024: "next_pow2 1024 = 1024"
  proof -
    obtain i where i: "next_pow2 1024 = 2 ^ i" "(1024::nat) \<le> 2 ^ i" "2 ^ i < (2048::nat)"
      using next_pow2_spec[of 1024] by auto
    have "(2::nat) ^ 10 \<le> 2 ^ i" "(2::nat) ^ i < 2 ^ 11" using i(2,3) by simp_all
    then have "10 \<le> i" "i < 11" by (meson power_le_imp_le_exp one_less_numeral_iff semiring_norm(76), meson power_less_imp_less_exp one_less_numeral_iff semiring_norm(76))
    then have "i = 10" by simp
    then show ?thesis using i(1) by simp
  qed
  have size: "n div 8 \<le> desired_dir_size n \<or> desired_dir_size n = 2 ^ 18"
    "desired_dir_size n < 2 * (n div 8) \<or> desired_dir_size n = 2 ^ 10"
    using next_pow2_spec[of "n div 8"] next_1024
    by (auto simp: desired_dir_size_def Let_def)
  have "flat_slot ?t h < ft_dir_size ?t" by (rule flat_slot_less[OF wf])
  moreover have "\<exists>p \<in> {10..18}. ft_dir_size ?t = 2 ^ p \<and> ft_shift ?t = 64 - p"
    using p q \<open>q = p\<close> by blast
  ultimately show ?thesis using size d by (simp add: Let_def)
qed

lemma flat_reserve_sizing_witness:
  "let t' = flat_reserve 100000 (flat_new 10) :: u32 flat_table; d = ft_dir_size t' in
   12500 \<le> d \<or> d = 2 ^ 18"
  using flat_reserve_sizing[OF flat_wf_new[of 10], of 100000 0] by (auto simp: Let_def)

end
