(* ===== verification/WorkStealing.thy ===== *)
theory WorkStealing
  imports Prelude
begin

text \<open>
  The probe-side work distribution (\<open>include/work_stealing.h\<close>, \<open>src/work_stealing.cpp\<close>): block
  size, the coordinator with its atomic counter, and the worker threads that steal blocks until
  the counter passes the total. \<open>fetch_add\<close> is one atomic step; an execution of several threads
  is a schedule, the list of thread numbers in the order of their steps. Everything is on
  64-bit \<open>size_t\<close>, so the counter wraps around.
\<close>

section \<open>Configuration and coordinator\<close>

record ws_config =
  wsc_total_work :: u64
  wsc_num_threads :: u64
  wsc_min_block_size :: u64
  wsc_blocks_per_thread :: u64

definition get_block_size :: "ws_config \<Rightarrow> u64 res" where
  "get_block_size c =
     (if wsc_total_work c = 0 \<or> wsc_num_threads c = 0 then Inr 0
      else
        (let blocks = wsc_num_threads c * wsc_blocks_per_thread c
         in if blocks = 0 then Inl Undefined
            else Inr (max (wsc_min_block_size c) (wsc_total_work c div blocks))))"

record ws_coordinator =
  wsk_total_work :: u64
  wsk_block_size :: u64
  wsk_work_counter :: u64

definition ws_coordinator_new :: "ws_config \<Rightarrow> ws_coordinator res" where
  "ws_coordinator_new c =
     rbind (get_block_size c) (\<lambda>b.
       Inr \<lparr>wsk_total_work = wsc_total_work c, wsk_block_size = b, wsk_work_counter = 0\<rparr>)"

definition steal_block :: "ws_coordinator \<Rightarrow> (u64 \<times> u64) option \<times> ws_coordinator" where
  "steal_block k =
     (let begin_i = wsk_work_counter k;
          k' = k\<lparr>wsk_work_counter := wsk_work_counter k + wsk_block_size k\<rparr>
      in if wsk_total_work k \<le> begin_i then (None, k')
         else (Some (begin_i, min (wsk_total_work k) (begin_i + wsk_block_size k)), k'))"

section \<open>Threads\<close>

text \<open>Per thread: the blocks it has claimed, in order, and whether it has left its loop.\<close>

record ws_state =
  ws_coord :: ws_coordinator
  ws_blocks :: "(u64 \<times> u64) list list"
  ws_done :: "bool list"

definition ws_init :: "nat \<Rightarrow> ws_coordinator \<Rightarrow> ws_state" where
  "ws_init nthreads k =
     \<lparr>ws_coord = k, ws_blocks = replicate nthreads [], ws_done = replicate nthreads False\<rparr>"

definition ws_thread_step :: "nat \<Rightarrow> ws_state \<Rightarrow> ws_state" where
  "ws_thread_step t s =
     (if t < length (ws_done s) \<and> \<not> ws_done s ! t
      then (case steal_block (ws_coord s) of
              (None, k') \<Rightarrow> s\<lparr>ws_coord := k', ws_done := (ws_done s)[t := True]\<rparr>
            | (Some b, k') \<Rightarrow>
                s\<lparr>ws_coord := k', ws_blocks := (ws_blocks s)[t := ws_blocks s ! t @ [b]]\<rparr>)
      else s)"

definition ws_run :: "nat list \<Rightarrow> ws_state \<Rightarrow> ws_state" where
  "ws_run sched s = fold ws_thread_step sched s"

definition ws_finished :: "ws_state \<Rightarrow> bool" where
  "ws_finished s \<longleftrightarrow> list_all (\<lambda>d. d) (ws_done s)"

text \<open>The same machine as a relation: any thread that still runs may step.\<close>

inductive ws_step :: "ws_state \<Rightarrow> ws_state \<Rightarrow> bool" where
  claim: "t < length (ws_done s) \<Longrightarrow> \<not> ws_done s ! t \<Longrightarrow> steal_block (ws_coord s) = (Some b, k') \<Longrightarrow>
    ws_step s (s\<lparr>ws_coord := k', ws_blocks := (ws_blocks s)[t := ws_blocks s ! t @ [b]]\<rparr>)"
| leave: "t < length (ws_done s) \<Longrightarrow> \<not> ws_done s ! t \<Longrightarrow> steal_block (ws_coord s) = (None, k') \<Longrightarrow>
    ws_step s (s\<lparr>ws_coord := k', ws_done := (ws_done s)[t := True]\<rparr>)"

inductive_cases ws_stepE: "ws_step s s'"

lemma ws_thread_step_cases: "ws_thread_step t s = s \<or> ws_step s (ws_thread_step t s)"
proof (cases "t < length (ws_done s) \<and> \<not> ws_done s ! t")
  case True
  obtain b k' where "steal_block (ws_coord s) = (b, k')" by (cases "steal_block (ws_coord s)")
  with True show ?thesis
    by (cases b) (auto simp: ws_thread_step_def intro: ws_step.intros)
qed (auto simp: ws_thread_step_def)

lemma ws_run_steps: "ws_step\<^sup>*\<^sup>* s (ws_run sched s)"
proof (induction sched arbitrary: s)
  case (Cons t sched)
  have "ws_step\<^sup>*\<^sup>* s (ws_thread_step t s)"
    using ws_thread_step_cases[of t s] by auto
  also have "ws_step\<^sup>*\<^sup>* (ws_thread_step t s) (ws_run sched (ws_thread_step t s))"
    by (rule Cons.IH)
  finally show ?case by (simp add: ws_run_def)
qed (simp add: ws_run_def)

section \<open>Every index is handed out exactly once\<close>

definition ws_block :: "nat \<Rightarrow> nat \<Rightarrow> nat \<Rightarrow> u64 \<times> u64" where
  "ws_block T B i = (of_nat (i * B), of_nat (min T ((i + 1) * B)))"

definition block_rows :: "u64 \<times> u64 \<Rightarrow> nat list" where
  "block_rows b = [unat (fst b)..<unat (snd b)]"

text \<open>
  The invariant: \<open>m\<close> blocks are claimed, each by one thread and in increasing order per thread;
  the counter has moved by one block per claim and per thread that left; a thread leaves only
  when the claimed blocks cover the work.
\<close>

definition ws_claims :: "nat \<Rightarrow> nat \<Rightarrow> nat \<Rightarrow> ws_state \<Rightarrow> nat list list \<Rightarrow> nat \<Rightarrow> bool" where
  "ws_claims n T B s kss m \<longleftrightarrow>
     ws_blocks s = map (map (ws_block T B)) kss \<and>
     length kss = n \<and> length (ws_done s) = n \<and>
     mset (concat kss) = mset [0..<m] \<and> (\<forall>ks \<in> set kss. sorted_wrt (<) ks) \<and>
     wsk_total_work (ws_coord s) = of_nat T \<and> wsk_block_size (ws_coord s) = of_nat B \<and>
     unat (wsk_work_counter (ws_coord s)) = (m + count_list (ws_done s) True) * B \<and>
     (0 < count_list (ws_done s) True \<longrightarrow> T \<le> m * B) \<and>
     (0 < m \<longrightarrow> (m - 1) * B < T)"

definition ws_inv :: "nat \<Rightarrow> nat \<Rightarrow> nat \<Rightarrow> ws_state \<Rightarrow> bool" where
  "ws_inv n T B s \<longleftrightarrow> (\<exists>kss m. ws_claims n T B s kss m)"

lemma ws_claimsD:
  assumes "ws_claims n T B s kss m"
  shows "ws_blocks s = map (map (ws_block T B)) kss"
    and "length kss = n" and "length (ws_done s) = n"
    and "mset (concat kss) = mset [0..<m]" and "\<forall>ks \<in> set kss. sorted_wrt (<) ks"
    and "wsk_total_work (ws_coord s) = of_nat T" and "wsk_block_size (ws_coord s) = of_nat B"
    and "unat (wsk_work_counter (ws_coord s)) = (m + count_list (ws_done s) True) * B"
    and "0 < count_list (ws_done s) True \<longrightarrow> T \<le> m * B"
    and "0 < m \<longrightarrow> (m - 1) * B < T"
  by (rule assms[unfolded ws_claims_def, THEN conjunct1]
      assms[unfolded ws_claims_def, THEN conjunct2, THEN conjunct1]
      assms[unfolded ws_claims_def, THEN conjunct2, THEN conjunct2, THEN conjunct1]
    | insert assms, unfold ws_claims_def, elim conjE, assumption)+

lemma mset_concat_update:
  "t < length xss \<Longrightarrow> mset (concat (xss[t := xss ! t @ [x]])) = add_mset x (mset (concat xss))"
proof (induction xss arbitrary: t)
  case (Cons xs xss)
  then show ?case by (cases t) auto
qed simp

lemma count_list_update_True:
  "t < length ds \<Longrightarrow> \<not> ds ! t \<Longrightarrow> count_list (ds[t := True]) True = Suc (count_list ds True)"
proof (induction ds arbitrary: t)
  case (Cons d ds)
  then show ?case by (cases t) auto
qed simp

lemma unat_of_nat_u64: "n < 2 ^ 64 \<Longrightarrow> unat (of_nat n :: u64) = n"
  by (rule unat_of_nat_less) simp

lemma ws_inv_init:
  assumes "wsk_total_work k = of_nat T" "wsk_block_size k = of_nat B" "wsk_work_counter k = 0"
  shows "ws_inv n T B (ws_init n k)"
proof -
  have "count_list (replicate n False) True = 0"
    by (simp add: count_list_0_iff)
  then show ?thesis
    unfolding ws_inv_def ws_claims_def ws_init_def using assms
    by (intro exI[of _ "replicate n []"] exI[of _ 0]) auto
qed

text \<open>Values of the counter below the limit, read as natural numbers.\<close>

lemma steal_block_read:
  assumes c: "unat (wsk_work_counter k) = c"
    and k: "wsk_total_work k = of_nat T" "wsk_block_size k = of_nat B"
    and lim: "c + B < 2 ^ 64" "T < 2 ^ 64"
  shows "steal_block k =
    (if T \<le> c then None else Some (of_nat c, of_nat (min T (c + B))),
     k\<lparr>wsk_work_counter := of_nat (c + B)\<rparr>)"
proof -
  have cw: "wsk_work_counter k = of_nat c" using c by auto
  have le: "(of_nat T :: u64) \<le> of_nat c \<longleftrightarrow> T \<le> c"
    using lim by (simp add: word_le_nat_alt unat_of_nat_u64)
  have "min (of_nat T) (of_nat (c + B) :: u64) = of_nat (min T (c + B))"
    using lim by (simp add: min_def word_le_nat_alt unat_of_nat_u64 del: of_nat_add)
  then show ?thesis
    using k cw le by (simp add: steal_block_def Let_def)
qed

lemma ws_inv_counts:
  assumes inv: "mset (concat kss) = mset [0..<m]" and m: "0 < m \<longrightarrow> (m - 1) * B < T" and B: "0 < B"
  shows "m * B < T + B"
proof (cases m)
  case (Suc i)
  then have "i * B < T" using m by simp
  then show ?thesis using Suc by simp
qed (use B in simp)

lemma ws_inv_step:
  assumes inv: "ws_inv n T B s" and step: "ws_step s s'"
    and lim: "T + (n + 1) * B < 2 ^ 64" and B: "0 < B"
  shows "ws_inv n T B s'"
proof -
  obtain kss m where claims: "ws_claims n T B s kss m"
    using inv unfolding ws_inv_def by blast
  note I = ws_claimsD[OF claims]
  let ?d = "count_list (ws_done s) True"
  have mB: "m * B < T + B" using ws_inv_counts[OF I(4,10) B] .
  have room: "(m + ?d) * B + B < 2 ^ 64" if "?d < n"
  proof -
    have "?d * B + B \<le> n * B" using that by (metis Suc_leI add.commute mult_Suc mult_le_mono1)
    then have "(m + ?d) * B + B < T + B + n * B" using mB by (simp add: add_mult_distrib)
    then show ?thesis using lim by (simp add: add_mult_distrib)
  qed
  have dn: "?d < n" if "t < length (ws_done s)" "\<not> ws_done s ! t" for t
  proof -
    have "Suc ?d = count_list ((ws_done s)[t := True]) True"
      using count_list_update_True[OF that] by simp
    also have "\<dots> \<le> length ((ws_done s)[t := True])" by (rule count_le_length)
    finally show ?thesis using I(3) by simp
  qed
  have T: "T < 2 ^ 64" using lim by simp
  note read = steal_block_read[OF I(8,6,7) room[OF dn] T]
  from step show ?thesis
  proof cases
    case (claim t b k')
    have b: "\<not> T \<le> (m + ?d) * B" and bk: "b = (of_nat ((m + ?d) * B), of_nat (min T ((m + ?d) * B + B)))"
      and k': "k' = (ws_coord s)\<lparr>wsk_work_counter := of_nat ((m + ?d) * B + B)\<rparr>"
      using claim(4) read[OF claim(2,3)] by (auto split: if_splits)
    have d0: "?d = 0"
    proof (rule ccontr)
      assume "?d \<noteq> 0"
      then have "T \<le> m * B" using I(9) by simp
      then show False using b by (simp add: add_mult_distrib)
    qed
    have t: "t < length kss" using claim(2) I(2,3) by simp
    let ?kss = "kss[t := kss ! t @ [m]]"
    have "\<forall>k \<in> set (kss ! t). k < m"
    proof
      fix k assume "k \<in> set (kss ! t)"
      then have "k \<in># mset (concat kss)" using t by (auto intro: bexI[of _ "kss ! t"])
      then show "k < m" unfolding I(4) by simp
    qed
    then have "sorted_wrt (<) (kss ! t @ [m])"
      using I(5) t by (simp add: sorted_wrt_append)
    then have "\<forall>ks \<in> set ?kss. sorted_wrt (<) ks"
      using I(5) by (auto dest!: set_update_subset_insert[THEN subsetD])
    moreover have "(ws_blocks s)[t := ws_blocks s ! t @ [b]] = map (map (ws_block T B)) ?kss"
      using I(1) t d0 bk by (simp add: map_update ws_block_def algebra_simps)
    moreover have "mset (concat ?kss) = mset [0..<Suc m]"
      using mset_concat_update[OF t, of m] I(4) by simp
    moreover have "unat (of_nat ((m + ?d) * B + B) :: u64) = (Suc m + ?d) * B"
      using room[OF dn[OF claim(2,3)]] by (subst unat_of_nat_u64) (simp_all add: algebra_simps)
    ultimately show ?thesis
      unfolding ws_inv_def ws_claims_def claim(1) k' using I d0 b
      by (intro exI[of _ ?kss] exI[of _ "Suc m"]) (simp del: of_nat_add of_nat_mult)
  next
    case (leave t k')
    have b: "T \<le> (m + ?d) * B"
      and k': "k' = (ws_coord s)\<lparr>wsk_work_counter := of_nat ((m + ?d) * B + B)\<rparr>"
      using leave(4) read[OF leave(2,3)] by (auto split: if_splits)
    have covered: "T \<le> m * B" using b I(9) by (cases "?d = 0") auto
    have "unat (of_nat ((m + ?d) * B + B) :: u64) = (m + Suc ?d) * B"
      using room[OF dn[OF leave(2,3)]] by (subst unat_of_nat_u64) (simp_all add: algebra_simps)
    then show ?thesis
      unfolding ws_inv_def ws_claims_def leave(1) k' using I covered count_list_update_True[OF leave(2,3)]
      by (intro exI[of _ kss] exI[of _ m]) (simp del: of_nat_add of_nat_mult)
  qed
qed

lemma ws_inv_reachable:
  assumes "ws_step\<^sup>*\<^sup>* s s'" "ws_inv n T B s" "T + (n + 1) * B < 2 ^ 64" "0 < B"
  shows "ws_inv n T B s'"
  using assms(1,2) by (induction rule: rtranclp_induct) (auto intro: ws_inv_step assms(3,4))

section \<open>A finished run has handed out every row\<close>

definition thread_rows :: "(u64 \<times> u64) list \<Rightarrow> nat list" where
  "thread_rows bs = concat (map block_rows bs)"

lemma ws_block_rows:
  assumes "T < 2 ^ 64" "k * B < T"
  shows "block_rows (ws_block T B k) = [k * B..<min T (Suc k * B)]"
proof -
  have "min T (Suc k * B) < 2 ^ 64" using assms(1) by simp
  then show ?thesis
    using assms by (simp add: block_rows_def ws_block_def unat_of_nat_u64 del: of_nat_mult of_nat_add)
qed

lemma blocks_cover:
  assumes "T < 2 ^ 64" "0 < m \<Longrightarrow> (m - 1) * B < T"
  shows "concat (map (\<lambda>k. block_rows (ws_block T B k)) [0..<m]) = [0..<min T (m * B)]"
  using assms(2)
proof (induction m)
  case (Suc m)
  have m: "m * B < T" using Suc.prems by simp
  have "concat (map (\<lambda>k. block_rows (ws_block T B k)) [0..<m]) = [0..<min T (m * B)]"
    by (rule Suc.IH, rule order.strict_trans1[OF _ m]) simp
  moreover have "[0..<min T (Suc m * B)] = [0..<m * B] @ [m * B..<min T (Suc m * B)]"
    using m upt_add_eq_append[of 0 "m * B" "min T (Suc m * B) - m * B"] by (simp add: min_def)
  ultimately show ?case
    using m ws_block_rows[OF assms(1) m] by simp
qed simp

lemma ws_claims_rows:
  assumes claims: "ws_claims n T B s kss m" and T: "T < 2 ^ 64"
  shows "mset (concat (map thread_rows (ws_blocks s))) = mset [0..<min T (m * B)]"
proof -
  note I = ws_claimsD[OF claims]
  let ?f = "\<lambda>k. block_rows (ws_block T B k)"
  have "concat (map thread_rows (ws_blocks s)) = concat (map ?f (concat kss))"
    unfolding I(1) by (induction kss) (simp_all add: thread_rows_def comp_def)
  then have "mset (concat (map thread_rows (ws_blocks s))) = mset (concat (map ?f [0..<m]))"
    using mset_concat_map_perm[OF I(4)] by simp
  also have "concat (map ?f [0..<m]) = [0..<min T (m * B)]"
    using I(10) by (intro blocks_cover[OF T]) simp
  finally show ?thesis .
qed

lemma count_list_all_True: "list_all (\<lambda>d. d) ds \<Longrightarrow> count_list ds True = length ds"
  by (induction ds) auto

lemma ws_finished_covers:
  assumes claims: "ws_claims n T B s kss m" and fin: "ws_finished s" and n: "0 < n"
  shows "T \<le> m * B"
proof -
  have "0 < count_list (ws_done s) True"
    using fin n ws_claimsD(3)[OF claims] by (simp add: ws_finished_def count_list_all_True)
  then show ?thesis using ws_claimsD(9)[OF claims] by simp
qed

lemma sorted_wrt_less_upt:
  assumes "sorted_wrt (<) ks" "mset ks = mset [0..<m]"
  shows "ks = [0..<m]"
  using assms by (metis properties_for_sort sorted_list_of_set_lessThan_Suc sorted_upt strict_sorted_imp_sorted)

lemma ws_run_inv:
  assumes "ws_coordinator_new c = Inr k" "unat (wsc_total_work c) = T" "unat (wsk_block_size k) = B"
    and "T + (n + 1) * B < 2 ^ 64" "0 < B"
  shows "\<exists>kss m. ws_claims n T B (ws_run sched (ws_init n k)) kss m"
proof -
  have k: "wsk_total_work k = of_nat T" "wsk_block_size k = of_nat B" "wsk_work_counter k = 0"
    using assms(1-3) by (auto simp: ws_coordinator_new_def rbind_eq_Inr)
  from ws_inv_reachable[OF ws_run_steps ws_inv_init[OF k] assms(4,5)] show ?thesis
    by (simp add: ws_inv_def)
qed

section \<open>Enough steps finish the run\<close>

lemma ws_thread_step_progress:
  assumes "length (ws_done s) = n" "length (ws_blocks s) = n" "u < n"
    and "ws_done s ! u \<or> length (ws_blocks s ! u) = c"
  shows "ws_done (ws_thread_step t s) ! u \<or>
         length (ws_blocks (ws_thread_step t s) ! u) = c + (if t = u then 1 else 0)"
proof (cases "t < n \<and> \<not> ws_done s ! t")
  case True
  obtain b k' where steal: "steal_block (ws_coord s) = (b, k')" by (cases "steal_block (ws_coord s)")
  have "ws_thread_step t s = (case b of
      None \<Rightarrow> s\<lparr>ws_coord := k', ws_done := (ws_done s)[t := True]\<rparr>
    | Some b \<Rightarrow> s\<lparr>ws_coord := k', ws_blocks := (ws_blocks s)[t := ws_blocks s ! t @ [b]]\<rparr>)"
    using True assms(1) by (simp add: ws_thread_step_def steal split: option.split)
  then show ?thesis
    using True assms by (cases b) (auto simp: nth_list_update)
next
  case False
  then have "ws_thread_step t s = s" using assms(1) by (auto simp: ws_thread_step_def)
  with False assms show ?thesis by auto
qed

lemma ws_thread_step_lengths:
  "length (ws_done (ws_thread_step t s)) = length (ws_done s)"
  "length (ws_blocks (ws_thread_step t s)) = length (ws_blocks s)"
  by (auto simp: ws_thread_step_def split: prod.split option.split)

lemma ws_run_progress:
  assumes "length (ws_done s) = n" "length (ws_blocks s) = n" "u < n"
    and "ws_done s ! u \<or> length (ws_blocks s ! u) = c"
  shows "ws_done (ws_run sched s) ! u \<or>
         length (ws_blocks (ws_run sched s) ! u) = c + count_list sched u"
  using assms
proof (induction sched arbitrary: s c)
  case (Cons t sched)
  from Cons.IH[OF _ _ Cons.prems(3) ws_thread_step_progress[OF Cons.prems, of t]] Cons.prems
  show ?case by (auto simp: ws_thread_step_lengths ws_run_def)
qed (simp add: ws_run_def)

lemma ws_run_lengths:
  "length (ws_done (ws_run sched s)) = length (ws_done s) \<and>
   length (ws_blocks (ws_run sched s)) = length (ws_blocks s)"
  by (induction sched arbitrary: s) (simp_all add: ws_run_def ws_thread_step_lengths)

lemma ws_claims_few_blocks:
  assumes claims: "ws_claims n T B s kss m" and B: "0 < B" and t: "t < n"
  shows "length (ws_blocks s ! t) \<le> (T + B - 1) div B"
proof -
  note I = ws_claimsD[OF claims]
  have "length (ws_blocks s ! t) = length (kss ! t)" using I(1,2) t by simp
  also have "\<dots> \<le> length (concat kss)"
    using t I(2) by (auto simp: length_concat intro!: member_le_sum_list)
  also have "\<dots> = m" using I(4) by (metis diff_zero length_upt mset_eq_length)
  also have "m \<le> (T + B - 1) div B"
    using ws_inv_counts[OF I(4,10) B] B by (simp add: less_eq_div_iff_mult_less_eq)
  finally show ?thesis .
qed

lemma ws_run_finishes:
  assumes new: "ws_coordinator_new c = Inr k" "unat (wsc_total_work c) = T" "unat (wsk_block_size k) = B"
    and lim: "T + (n + 1) * B < 2 ^ 64" "0 < B"
    and sched: "\<And>t. t < n \<Longrightarrow> (T + B - 1) div B < count_list sched t"
  shows "ws_finished (ws_run sched (ws_init n k))"
proof -
  let ?s = "ws_run sched (ws_init n k)"
  obtain kss m where claims: "ws_claims n T B ?s kss m"
    using ws_run_inv[OF new lim] by blast
  have "ws_done ?s ! t" if t: "t < n" for t
  proof -
    have "ws_done ?s ! t \<or> length (ws_blocks ?s ! t) = 0 + count_list sched t"
      using t by (intro ws_run_progress[where n = n]) (auto simp: ws_init_def)
    then show ?thesis
      using ws_claims_few_blocks[OF claims lim(2) t] sched[OF t] by auto
  qed
  then show ?thesis
    using ws_claimsD(3)[OF claims] by (auto simp: ws_finished_def list_all_length)
qed

section \<open>What the rest of the engine uses\<close>

text \<open>A complete schedule gives every thread one step more than there are blocks.\<close>

definition ws_complete_schedule :: "nat \<Rightarrow> nat \<Rightarrow> nat \<Rightarrow> nat list \<Rightarrow> bool" where
  "ws_complete_schedule n T B sched \<longleftrightarrow> (\<forall>t < n. (T + B - 1) div B < count_list sched t)"

lemma ws_claims_sorted_rows:
  assumes claims: "ws_claims n T B s kss m" and T: "T < 2 ^ 64" and bs: "bs \<in> set (ws_blocks s)"
  shows "sorted_wrt (<) (thread_rows bs)"
proof -
  note I = ws_claimsD[OF claims]
  obtain ks where ks: "ks \<in> set kss" "bs = map (ws_block T B) ks" using bs I(1) by auto
  have small: "k * B < T" if "k \<in> set ks" for k
  proof -
    have "k \<in># mset (concat kss)" using that ks(1) by auto
    then have "k < m" unfolding I(4) by simp
    have "k * B \<le> (m - 1) * B" using \<open>k < m\<close> by (intro mult_le_mono1) simp
    also have "\<dots> < T" using \<open>k < m\<close> I(10) by simp
    finally show ?thesis .
  qed
  have "sorted_wrt (<) ks" using I(5) ks(1) by blast
  then have "sorted_wrt (<) (concat (map (\<lambda>k. [k * B..<min T (Suc k * B)]) ks))"
  proof (induction ks)
    case (Cons k ks)
    have "Suc k * B \<le> l * B" if "l \<in> set ks" for l
      using Cons.prems that by (intro mult_le_mono1) auto
    then show ?case using Cons by (fastforce simp: sorted_wrt_append)
  qed simp
  moreover have "thread_rows bs = concat (map (\<lambda>k. [k * B..<min T (Suc k * B)]) ks)"
    using small by (auto simp: thread_rows_def ks(2) ws_block_rows[OF T] intro!: arg_cong[of _ _ concat] map_cong)
  ultimately show ?thesis by simp
qed

lemma ws_run_rows:
  assumes new: "ws_coordinator_new c = Inr k" "unat (wsc_total_work c) = T" "unat (wsk_block_size k) = B"
    and lim: "T + (n + 1) * B < 2 ^ 64" "0 < B" and n: "0 < n" and sched: "ws_complete_schedule n T B sched"
  shows "ws_finished (ws_run sched (ws_init n k))"
    and "mset (concat (map thread_rows (ws_blocks (ws_run sched (ws_init n k))))) = mset [0..<T]"
    and "\<forall>bs \<in> set (ws_blocks (ws_run sched (ws_init n k))). sorted_wrt (<) (thread_rows bs)"
    and "length (ws_blocks (ws_run sched (ws_init n k))) = n"
proof -
  let ?s = "ws_run sched (ws_init n k)"
  obtain kss m where claims: "ws_claims n T B ?s kss m" using ws_run_inv[OF new lim] by blast
  show fin: "ws_finished ?s"
    using sched by (intro ws_run_finishes[OF new lim]) (simp add: ws_complete_schedule_def)
  show "mset (concat (map thread_rows (ws_blocks ?s))) = mset [0..<T]"
    using ws_claims_rows[OF claims] ws_finished_covers[OF claims fin n] lim by (simp add: min_def)
  show "\<forall>bs \<in> set (ws_blocks ?s). sorted_wrt (<) (thread_rows bs)"
    using ws_claims_sorted_rows[OF claims] lim by simp
  show "length (ws_blocks ?s) = n"
    using ws_run_lengths[of sched "ws_init n k"] by (simp add: ws_init_def)
qed

lemma ws_run_block_range:
  assumes new: "ws_coordinator_new c = Inr k" "unat (wsc_total_work c) = T" "unat (wsk_block_size k) = B"
    and lim: "T + (n + 1) * B < 2 ^ 64" "0 < B"
    and b: "bs \<in> set (ws_blocks (ws_run sched (ws_init n k)))" "b \<in> set bs"
  shows "unat (fst b) < unat (snd b) \<and> unat (snd b) \<le> T"
proof -
  obtain kss m where claims: "ws_claims n T B (ws_run sched (ws_init n k)) kss m"
    using ws_run_inv[OF new lim] by blast
  note I = ws_claimsD[OF claims]
  have "b \<in> set (map (ws_block T B) (concat kss))"
    using b I(1) by (auto simp: map_concat)
  then obtain i where i: "i \<in> set (concat kss)" "b = ws_block T B i" by (auto simp del: set_concat)
  have "i \<in># mset (concat kss)" using i(1) by (simp only: set_mset_mset)
  then have "i < m" unfolding I(4) by simp
  have "i * B \<le> (m - 1) * B" using \<open>i < m\<close> by (intro mult_le_mono1) simp
  also have "\<dots> < T" using \<open>i < m\<close> I(10) by simp
  finally have "i * B < T" .
  have "min T (i * B + B) < 2 ^ 64" "i * B < 2 ^ 64" using lim \<open>i * B < T\<close> by (auto simp: min_def)
  then show ?thesis
    using \<open>i * B < T\<close> lim(2)
    by (simp add: i(2) ws_block_def unat_of_nat_u64 algebra_simps del: of_nat_mult of_nat_add)
qed

text \<open>Without work every thread leaves at its first step.\<close>

lemma ws_run_no_work:
  assumes k: "wsk_total_work k = 0" and sched: "\<And>t. t < n \<Longrightarrow> 0 < count_list sched t"
  shows "ws_blocks (ws_run sched (ws_init n k)) = replicate n [] \<and> ws_finished (ws_run sched (ws_init n k))"
proof -
  let ?P = "\<lambda>s. ws_blocks s = replicate n [] \<and> wsk_total_work (ws_coord s) = 0"
  have "?P (ws_run sched (ws_init n k))"
    unfolding ws_run_def
    by (rule fold_invariant[of ?P])
      (auto simp: ws_init_def k ws_thread_step_def steal_block_def Let_def)
  moreover have "ws_done (ws_run sched (ws_init n k)) ! t" if t: "t < n" for t
  proof -
    have "ws_done (ws_run sched (ws_init n k)) ! t \<or>
        length (ws_blocks (ws_run sched (ws_init n k)) ! t) = 0 + count_list sched t"
      using t by (intro ws_run_progress[where n = n]) (auto simp: ws_init_def)
    then show ?thesis using calculation sched[OF t] t by auto
  qed
  moreover have "length (ws_done (ws_run sched (ws_init n k))) = n"
    using ws_run_lengths[of sched "ws_init n k"] by (simp add: ws_init_def)
  ultimately show ?thesis by (auto simp: ws_finished_def list_all_length)
qed

text \<open>With one thread the rows come in their order.\<close>

lemma ws_run_serial_rows:
  assumes "ws_coordinator_new c = Inr k" "unat (wsc_total_work c) = T" "unat (wsk_block_size k) = B"
    and "T + 2 * B < 2 ^ 64" "0 < B" and "ws_complete_schedule 1 T B sched"
  shows "map thread_rows (ws_blocks (ws_run sched (ws_init 1 k))) = [[0..<T]]"
proof -
  let ?bss = "ws_blocks (ws_run sched (ws_init 1 k))"
  have lim: "T + (1 + 1) * B < 2 ^ 64" using assms(4) by simp
  note R = ws_run_rows[OF assms(1-3) lim assms(5) zero_less_one assms(6)]
  obtain bs where bs: "?bss = [bs]" using R(4) by (cases ?bss) auto
  then have "sorted_wrt (<) (thread_rows bs)" "mset (thread_rows bs) = mset [0..<T]"
    using R(2,3) by auto
  then have "thread_rows bs = [0..<T]" by (rule sorted_wrt_less_upt)
  then show ?thesis by (simp only: bs list.map)
qed

section \<open>Properties\<close>

text \<open>C13. Work stealing processes every row exactly once and ends: under any interleaving that
  lets each of the \<open>n\<close> threads take one step more than there are blocks, all threads have left
  their loop, the claimed ranges partition \<open>[0, total_work)\<close>, and each thread sees its rows in
  increasing order. The counter is the wrapping 64-bit counter of the code; the bound says that
  it cannot wrap.\<close>

theorem ws_every_row_once:
  assumes "ws_coordinator_new c = Inr k" "0 < wsk_block_size k" "0 < n"
    and "unat (wsc_total_work c) + (n + 1) * unat (wsk_block_size k) < 2 ^ 64"
    and "ws_complete_schedule n (unat (wsc_total_work c)) (unat (wsk_block_size k)) sched"
  shows "let s = ws_run sched (ws_init n k) in
    ws_finished s \<and>
    mset (concat (map thread_rows (ws_blocks s))) = mset [0..<unat (wsc_total_work c)] \<and>
    (\<forall>bs \<in> set (ws_blocks s). sorted_wrt (<) (thread_rows bs))"
proof -
  have "0 < unat (wsk_block_size k)" using assms(2) by (simp add: unat_gt_0 word_gt_0)
  then show ?thesis
    using ws_run_rows[OF assms(1) refl refl assms(4) _ assms(3,5)] by (simp add: Let_def)
qed

definition ws_example :: ws_config where
  "ws_example = \<lparr>wsc_total_work = 1000, wsc_num_threads = 2, wsc_min_block_size = 256,
                 wsc_blocks_per_thread = 16\<rparr>"

lemma ws_example_coordinator:
  "ws_coordinator_new ws_example =
     Inr \<lparr>wsk_total_work = 1000, wsk_block_size = 256, wsk_work_counter = 0\<rparr>"
  by (simp add: ws_example_def ws_coordinator_new_def get_block_size_def Let_def max_def)

lemma ws_example_schedule: "ws_complete_schedule 2 1000 256 [0, 1, 1, 1, 0, 1, 0, 0, 0, 1]"
proof -
  have "t = 0 \<or> t = 1" if "t < 2" for t :: nat using that by auto
  then show ?thesis unfolding ws_complete_schedule_def by auto
qed

lemma ws_every_row_once_witness:
  "let s = ws_run [0, 1, 1, 1, 0, 1, 0, 0, 0, 1]
             (ws_init 2 \<lparr>wsk_total_work = 1000, wsk_block_size = 256, wsk_work_counter = 0\<rparr>)
   in ws_finished s \<and> mset (concat (map thread_rows (ws_blocks s))) = mset [0..<1000] \<and>
      (\<forall>bs \<in> set (ws_blocks s). sorted_wrt (<) (thread_rows bs))"
  using ws_every_row_once[OF ws_example_coordinator, of 2 "[0, 1, 1, 1, 0, 1, 0, 0, 0, 1]"]
    ws_example_schedule
  by (simp add: ws_example_def)

text \<open>C14. Safety at every moment: in any state reachable by any interleaving of the threads,
  finished or not, no row has been handed out twice and none lies outside the work.\<close>

theorem ws_no_row_twice:
  assumes "ws_coordinator_new c = Inr k" "0 < wsk_block_size k"
    and "unat (wsc_total_work c) + (n + 1) * unat (wsk_block_size k) < 2 ^ 64"
    and "ws_step\<^sup>*\<^sup>* (ws_init n k) s"
  shows "distinct (concat (map thread_rows (ws_blocks s))) \<and>
    set (concat (map thread_rows (ws_blocks s))) \<subseteq> {..<unat (wsc_total_work c)}"
proof -
  have k: "wsk_total_work k = of_nat (unat (wsc_total_work c))" "wsk_block_size k = of_nat (unat (wsk_block_size k))"
    "wsk_work_counter k = 0"
    using assms(1) by (auto simp: ws_coordinator_new_def rbind_eq_Inr)
  have "0 < unat (wsk_block_size k)" using assms(2) by (simp add: unat_gt_0 word_gt_0)
  from ws_inv_reachable[OF assms(4) ws_inv_init[OF k] assms(3) this]
  obtain kss m where "ws_claims n (unat (wsc_total_work c)) (unat (wsk_block_size k)) s kss m"
    by (auto simp: ws_inv_def)
  from ws_claims_rows[OF this] have *: "mset (concat (map thread_rows (ws_blocks s))) =
      mset [0..<min (unat (wsc_total_work c)) (m * unat (wsk_block_size k))]"
    using unat_less_word(4) by simp
  from mset_eq_imp_distinct_iff[OF *] mset_eq_setD[OF *] show ?thesis by auto
qed

lemma ws_no_row_twice_witness:
  "let s = ws_run [1, 0, 1] (ws_init 2 \<lparr>wsk_total_work = 1000, wsk_block_size = 256, wsk_work_counter = 0\<rparr>)
   in distinct (concat (map thread_rows (ws_blocks s))) \<and>
      set (concat (map thread_rows (ws_blocks s))) \<subseteq> {..<1000}"
  using ws_no_row_twice[OF ws_example_coordinator _ _ ws_run_steps, of 2 "[1, 0, 1]"]
  by (simp add: ws_example_def Let_def)

end
