(* ===== verification/Telemetry.thy ===== *)
theory Telemetry
  imports Prelude
begin

text \<open>
  Per-query join statistics (\<open>include/join_telemetry.h\<close>, \<open>src/join_telemetry.cpp\<close>): the
  counters on wrapping 64-bit integers, the start of a query, the record of one join. The end of a query,
  \<open>qt_end_query\<close>, leaves this state as it is and prints a report, which is \<open>qt_report\<close> of \<open>TelemetryReport\<close>.
\<close>

record query_telemetry =
  qt_joins :: u64
  qt_build_rows :: u64
  qt_probe_rows :: u64
  qt_out_rows :: u64
  qt_out_cells :: u64
  qt_bytes_baseline_min :: u64
  qt_bytes_likely :: u64

definition qt_empty :: query_telemetry where
  "qt_empty = \<lparr>qt_joins = 0, qt_build_rows = 0, qt_probe_rows = 0, qt_out_rows = 0,
               qt_out_cells = 0, qt_bytes_baseline_min = 0, qt_bytes_likely = 0\<rparr>"

record telemetry =
  tl_query_seq :: u64
  tl_qt :: query_telemetry
  tl_query_id :: u64

text \<open>\<open>JOIN_TELEMETRY\<close> is \<open>None\<close> when the variable is not set.\<close>

definition join_telemetry_enabled :: "string option \<Rightarrow> bool" where
  "join_telemetry_enabled v =
     (case v of None \<Rightarrow> False | Some s \<Rightarrow> s \<noteq> [] \<and> hd s \<noteq> CHR ''0'')"

definition qt_begin_query :: "telemetry \<Rightarrow> telemetry" where
  "qt_begin_query t =
     t\<lparr>tl_query_seq := tl_query_seq t + 1, tl_query_id := tl_query_seq t + 1, tl_qt := qt_empty\<rparr>"

definition qt_add_join :: "u64 \<Rightarrow> u64 \<Rightarrow> u64 \<Rightarrow> u64 \<Rightarrow> telemetry \<Rightarrow> telemetry" where
  "qt_add_join build_rows probe_rows out_rows out_cols t =
     (let q = tl_qt t;
          out_cells = out_rows * out_cols;
          bytes_keys = (build_rows + probe_rows) * 4;
          bytes_out_write = out_cells * 8;
          bytes_out_read = out_cells * 8
      in t\<lparr>tl_qt := \<lparr>qt_joins = qt_joins q + 1,
                     qt_build_rows = qt_build_rows q + build_rows,
                     qt_probe_rows = qt_probe_rows q + probe_rows,
                     qt_out_rows = qt_out_rows q + out_rows,
                     qt_out_cells = qt_out_cells q + out_cells,
                     qt_bytes_baseline_min = qt_bytes_baseline_min q + (bytes_keys + bytes_out_write),
                     qt_bytes_likely = qt_bytes_likely q + (bytes_keys + bytes_out_read + bytes_out_write)\<rparr>\<rparr>)"

definition qt_end_query :: "telemetry \<Rightarrow> telemetry" where
  "qt_end_query t = t"

section \<open>The two byte estimates are functions of the other counters\<close>

definition qt_consistent :: "query_telemetry \<Rightarrow> bool" where
  "qt_consistent q \<longleftrightarrow>
     qt_bytes_baseline_min q = 4 * (qt_build_rows q + qt_probe_rows q) + 8 * qt_out_cells q \<and>
     qt_bytes_likely q = qt_bytes_baseline_min q + 8 * qt_out_cells q"

lemma qt_consistent_begin [simp]: "qt_consistent (tl_qt (qt_begin_query t))"
  by (simp add: qt_consistent_def qt_begin_query_def qt_empty_def)

lemma qt_consistent_add: "qt_consistent (tl_qt t) \<Longrightarrow> qt_consistent (tl_qt (qt_add_join b p r c t))"
  by (simp add: qt_consistent_def qt_add_join_def Let_def algebra_simps)

text \<open>The telemetry counters stay consistent: after the start of a query and any sequence of
  recorded joins, on wrapping 64-bit arithmetic, \<open>bytes_baseline_min\<close> is the key bytes plus the
  bytes written, \<open>bytes_likely\<close> adds the bytes read, and \<open>joins\<close> counts the joins recorded.\<close>

theorem telemetry_consistent:
  "let t' = fold (\<lambda>(b, p, r, c). qt_add_join b p r c) js (qt_begin_query t); q = tl_qt t' in
   qt_bytes_baseline_min q = 4 * (qt_build_rows q + qt_probe_rows q) + 8 * qt_out_cells q \<and>
   qt_bytes_likely q = qt_bytes_baseline_min q + 8 * qt_out_cells q \<and>
   qt_joins q = of_nat (length js) \<and> tl_query_id t' = tl_query_seq t + 1"
proof -
  let ?P = "\<lambda>i t'. qt_consistent (tl_qt t') \<and> qt_joins (tl_qt t') = of_nat i \<and> tl_query_id t' = tl_query_seq t + 1"
  have "?P (length js) (fold (\<lambda>(b, p, r, c). qt_add_join b p r c) js (qt_begin_query t))"
  proof (rule fold_invariant_nth[of ?P])
    show "?P 0 (qt_begin_query t)"
      by simp (simp add: qt_begin_query_def qt_empty_def)
    show "?P (Suc i) ((case js ! i of (b, p, r, c) \<Rightarrow> qt_add_join b p r c) t')" if "?P i t'" for i t'
      using that by (auto simp: qt_consistent_add split: prod.split) (auto simp: qt_add_join_def Let_def)
  qed
  then show ?thesis by (simp add: Let_def qt_consistent_def)
qed

end
