(* ===== verification/JoinProbe.thy ===== *)
theory JoinProbe
  imports ColumnStore FlatTable WorkStealing Telemetry
begin

text \<open>
  The build and probe phases of \<open>JoinAlgorithm::run_int32\<close> (\<open>src/execute_default.cpp\<close>), over
  any implementation of the hash table interface: choice of the build path, number of worker
  threads, the probe of a stolen block with its page cursor or on materialised pages, the pairs
  each thread collects. The lemmas show, inside the contract of the table, that the pairs are
  the pairs of rows with equal keys; the build from pages is compared with the build from the list
  of the integers the pages store.
\<close>

section \<open>The environment of a join\<close>

text \<open>
  \<open>je_force_threads\<close> is the variable FORCE_THREADS, \<open>je_schedule\<close> the interleaving of the worker
  threads of a parallel probe, \<open>je_join_telemetry\<close> the variable JOIN_TELEMETRY.
\<close>

record join_env =
  je_hardware_concurrency :: nat
  je_force_threads :: "string option"
  je_join_telemetry :: "string option"
  je_schedule :: "nat \<Rightarrow> nat list"

fun atoi_digits :: "int \<Rightarrow> string \<Rightarrow> int" where
  "atoi_digits acc [] = acc"
| "atoi_digits acc (c # cs) =
     (let d = (of_char c :: int) in
      if 48 \<le> d \<and> d \<le> 57 then atoi_digits (10 * acc + (d - 48)) cs else acc)"

definition is_space :: "char \<Rightarrow> bool" where
  "is_space c \<longleftrightarrow> (of_char c :: nat) \<in> {9, 10, 11, 12, 13, 32}"

definition atoi :: "string \<Rightarrow> int" where
  "atoi s =
     (case dropWhile is_space s of
        [] \<Rightarrow> 0
      | c # cs \<Rightarrow> if c = CHR ''-'' then - atoi_digits 0 cs
                  else if c = CHR ''+'' then atoi_digits 0 cs else atoi_digits 0 (c # cs))"

definition forced_threads :: "string option \<Rightarrow> u64" where
  "forced_threads force_threads_env =
     (case force_threads_env of
        None \<Rightarrow> 0
      | Some s \<Rightarrow> if s = [] then 0 else of_int (atoi s))"

definition probe_nthreads :: "join_env \<Rightarrow> nat \<Rightarrow> nat" where
  "probe_nthreads env probe_n =
     (let hw = (if je_hardware_concurrency env = 0 then 4 else je_hardware_concurrency env);
          forced = unat (forced_threads (je_force_threads env))
      in if 0 < forced then forced else if 2 ^ 18 \<le> probe_n then hw else 1)"

section \<open>Build\<close>

definition can_build_from_pages :: "column_t \<Rightarrow> bool" where
  "can_build_from_pages c \<longleftrightarrow>
     ct_is_zero_copy c \<and> ct_src_column c \<noteq> None \<and> 2 \<le> length (ct_page_offsets c)"

definition collect_entries :: "column_t \<Rightarrow> nat \<Rightarrow> u32 hash_entry list res" where
  "collect_entries build_col num_rows =
     rfold (\<lambda>i entries.
        rbind (paged_read build_col i) (\<lambda>v.
          Inr (if \<not> is_null v
               then entries @ [\<lparr>he_key = as_i32 v, he_row_id = of_nat i\<rparr>] else entries)))
       [0..<num_rows] []"

text \<open>Result: the built table and \<open>build_rows_effective\<close>; \<open>None\<close> is the early return.\<close>

definition build_by_copy ::
    "(u32, 't) ihash_table \<Rightarrow> column_t \<Rightarrow> nat \<Rightarrow> 't \<Rightarrow> ('t \<times> nat) option res" where
  "build_by_copy vt build_col num_rows table =
     rbind (collect_entries build_col num_rows) (\<lambda>entries.
       if entries = [] then Inr None
       else rbind (iht_build_from_entries vt entries (iht_reserve vt (length entries) table))
              (\<lambda>table. Inr (Some (table, length entries))))"

definition build_phase ::
    "(u32, 't) ihash_table \<Rightarrow> column_t \<Rightarrow> nat \<Rightarrow> ('t \<times> nat) option res" where
  "build_phase vt build_col num_rows =
     (let table = iht_new vt
      in if can_build_from_pages build_col
         then rbind (iht_build_from_zero_copy_int32 vt (ct_src_column build_col)
                       (ct_page_offsets build_col) num_rows table) (\<lambda>(table, built).
                if \<not> built then build_by_copy vt build_col num_rows table
                else Inr (Some (table, num_rows)))
         else build_by_copy vt build_col num_rows table)"

section \<open>Probe\<close>

type_synonym out_pair = "u32 \<times> u32"

definition emit_matches ::
    "(u32, 't) ihash_table \<Rightarrow> bool \<Rightarrow> 't \<Rightarrow> u32 \<Rightarrow> nat \<Rightarrow> out_pair list" where
  "emit_matches vt build_left table probe_key j =
     (case iht_probe vt probe_key table of
        None \<Rightarrow> []
      | Some es \<Rightarrow>
          concat (map (\<lambda>e. if he_key e \<noteq> probe_key then []
                          else [if build_left then (he_row_id e, of_nat j) else (of_nat j, he_row_id e)]) es))"

text \<open>\<open>while (j >= next) ++page_idx\<close>: the reads outside the offsets are undefined.\<close>

function cursor_advance :: "nat list \<Rightarrow> nat \<Rightarrow> nat \<Rightarrow> nat res" where
  "cursor_advance offs j page_idx =
     (if length offs \<le> page_idx + 1 then Inl Undefined
      else if offs ! (page_idx + 1) \<le> j then cursor_advance offs j (page_idx + 1)
      else Inr page_idx)"
  by pat_completeness auto
termination
  by (relation "measure (\<lambda>(offs, j, p). length offs - p)") auto

declare cursor_advance.simps [simp del]

definition probe_block_zero_copy ::
    "(u32, 't) ihash_table \<Rightarrow> bool \<Rightarrow> 't \<Rightarrow> column \<Rightarrow> nat list \<Rightarrow> nat \<Rightarrow> nat \<Rightarrow> out_pair list
       \<Rightarrow> out_pair list res" where
  "probe_block_zero_copy vt build_left table src offs begin_j end_j local =
     (let page_idx = (if offs ! 1 \<le> begin_j then bsearch offs begin_j 0 (length offs - 1) else 0)
      in rbind (at (col_pages src) page_idx) (\<lambda>page.
           rbind (rfold (\<lambda>j (page_idx, page, local).
               rbind (cursor_advance offs j page_idx) (\<lambda>page_idx'.
               rbind (if page_idx' = page_idx then Inr page else at (col_pages src) page_idx') (\<lambda>page.
                 if j < offs ! page_idx' then Inl Undefined
                 else let probe_key = page_int32 page (j - offs ! page_idx')
                      in Inr (page_idx', page, local @ emit_matches vt build_left table probe_key j))))
             [begin_j..<end_j] (page_idx, page, local)) (\<lambda>(page_idx, page, local). Inr local)))"

definition probe_block_materialized ::
    "(u32, 't) ihash_table \<Rightarrow> bool \<Rightarrow> 't \<Rightarrow> column_t \<Rightarrow> nat \<Rightarrow> nat \<Rightarrow> out_pair list \<Rightarrow> out_pair list res" where
  "probe_block_materialized vt build_left table probe_col begin_j end_j local =
     rfold (\<lambda>j local.
        rbind (paged_read probe_col j) (\<lambda>v.
          if is_null v then Inr local
          else Inr (local @ emit_matches vt build_left table (as_i32 v) j)))
       [begin_j..<end_j] local"

definition probe_block ::
    "(u32, 't) ihash_table \<Rightarrow> bool \<Rightarrow> 't \<Rightarrow> column_t \<Rightarrow> u64 \<times> u64 \<Rightarrow> out_pair list \<Rightarrow> out_pair list res" where
  "probe_block vt build_left table probe_col b local =
     (case (if can_build_from_pages probe_col then ct_src_column probe_col else None) of
        Some src \<Rightarrow> probe_block_zero_copy vt build_left table src (ct_page_offsets probe_col)
                      (unat (fst b)) (unat (snd b)) local
      | None \<Rightarrow> probe_block_materialized vt build_left table probe_col (unat (fst b)) (unat (snd b)) local)"

definition probe_ws_config :: "nat \<Rightarrow> nat \<Rightarrow> ws_config" where
  "probe_ws_config probe_n nthreads =
     \<lparr>wsc_total_work = of_nat probe_n, wsc_num_threads = of_nat nthreads,
      wsc_min_block_size = 256, wsc_blocks_per_thread = 16\<rparr>"

text \<open>
  One thread is called directly; it steals until the coordinator refuses, after at most
  \<open>probe_n\<close> blocks. Several threads follow the schedule of the environment; a schedule that stops
  before all threads left their loop yields no result. The threads only read the columns and the
  table, so what a thread appends is determined by the blocks it stole.
\<close>

definition probe_schedule :: "join_env \<Rightarrow> nat \<Rightarrow> nat \<Rightarrow> nat \<Rightarrow> nat list" where
  "probe_schedule env join_no nthreads probe_n =
     (if nthreads = 1 then replicate (probe_n + 1) 0 else je_schedule env join_no)"

definition probe_phase ::
    "(u32, 't) ihash_table \<Rightarrow> join_env \<Rightarrow> nat \<Rightarrow> bool \<Rightarrow> 't \<Rightarrow> column_t \<Rightarrow> nat \<Rightarrow> out_pair list list res" where
  "probe_phase vt env join_no build_left table probe_col probe_n =
     (let nthreads = probe_nthreads env probe_n
      in rbind (ws_coordinator_new (probe_ws_config probe_n nthreads)) (\<lambda>k.
           let s = ws_run (probe_schedule env join_no nthreads probe_n) (ws_init nthreads k)
           in if \<not> ws_finished s then Inl No_return
              else rfold (\<lambda>blocks out_by_thread.
                     rbind (rfold (probe_block vt build_left table probe_col) blocks [])
                       (\<lambda>local. Inr (out_by_thread @ [local])))
                   (ws_blocks s) []))"

section \<open>What the two phases compute\<close>

text \<open>
  The key of a row: a zero-copy column has no NULLs, so every payload is a key; on materialised
  pages a NULL payload is no key. \<open>row_pairs\<close> are the output pairs of one probe row,
  \<open>join_pairs\<close> those of all rows in their order.
\<close>

definition row_keys :: "column_t \<Rightarrow> u32 option list" where
  "row_keys c =
     map (\<lambda>v. if \<not> can_build_from_pages c \<and> is_null v then None else Some (as_i32 v)) (ct_values c)"

definition rows_with_key :: "'k option list \<Rightarrow> 'k \<Rightarrow> nat list" where
  "rows_with_key ks k = filter (\<lambda>i. ks ! i = Some k) [0..<length ks]"

definition row_pairs :: "bool \<Rightarrow> 'k option list \<Rightarrow> 'k option list \<Rightarrow> nat \<Rightarrow> (nat \<times> nat) list" where
  "row_pairs build_left bks pks j =
     (case pks ! j of
        None \<Rightarrow> []
      | Some k \<Rightarrow> map (\<lambda>i. if build_left then (i, j) else (j, i)) (rows_with_key bks k))"

definition join_pairs :: "bool \<Rightarrow> 'k option list \<Rightarrow> 'k option list \<Rightarrow> (nat \<times> nat) list" where
  "join_pairs build_left bks pks = concat (map (row_pairs build_left bks pks) [0..<length pks])"

definition key_entries :: "'k option list \<Rightarrow> 'k hash_entry list" where
  "key_entries ks =
     map (\<lambda>i. \<lparr>he_key = the (ks ! i), he_row_id = of_nat i\<rparr>) (filter (\<lambda>i. ks ! i \<noteq> None) [0..<length ks])"

abbreviation pair32 :: "nat \<times> nat \<Rightarrow> out_pair" where
  "pair32 p \<equiv> (of_nat (fst p), of_nat (snd p))"

lemma length_row_keys [simp, layout]: "length (row_keys c) = length (ct_values c)"
  by (simp add: row_keys_def)

lemma length_key_entries: "length (key_entries ks) \<le> length ks"
  unfolding key_entries_def length_map by (rule order.trans[OF length_filter_le]) simp

lemma with_key_key_entries:
  "with_key k (key_entries ks) = map (\<lambda>i. \<lparr>he_key = k, he_row_id = of_nat i\<rparr>) (rows_with_key ks k)"
proof -
  have "map (\<lambda>i. \<lparr>he_key = the (ks ! i), he_row_id = of_nat i\<rparr>)
          (filter (\<lambda>i. the (ks ! i) = k) (filter (\<lambda>i. ks ! i \<noteq> None) is)) =
        map (\<lambda>i. \<lparr>he_key = k, he_row_id = of_nat i :: u32\<rparr>) (filter (\<lambda>i. ks ! i = Some k) is)" for "is"
    by (induction "is") auto
  then show ?thesis by (simp add: key_entries_def rows_with_key_def filter_map comp_def)
qed

section \<open>Build\<close>

lemma rfold_snoc_if:
  assumes "\<And>i. i \<in> set is \<Longrightarrow> rd i = Inr (v i)"
  shows "rfold (\<lambda>i es. rbind (rd i) (\<lambda>x. Inr (if P x then es @ [mk i x] else es))) is es =
    Inr (es @ map (\<lambda>i. mk i (v i)) (filter (\<lambda>i. P (v i)) is))"
  using assms by (induction "is" arbitrary: es) auto

lemma paged_read_correct:
  assumes wf: "column_wf c" and c: "\<not> can_build_from_pages c" and i: "i < length (ct_values c)"
  shows "paged_read c i = Inr (ct_values c ! i)"
proof (cases "if ct_is_zero_copy c then ct_src_column c else None")
  case None
  then have "pages_wf (ct_values_per_page c) (ct_pages c)" "i < length (concat (ct_pages c))"
    using wf i by (auto simp: column_wf_def ct_values_def)
  from pages_wf_nth[OF this] None this(1) show ?thesis
    by (simp add: paged_read_def ct_values_def pages_wf_def)
next
  case (Some src)
  then have "length (ct_page_offsets c) < 2"
    using c by (auto simp: can_build_from_pages_def split: if_splits)
  then have "ct_values c = []" using Some by (simp add: ct_values_def)
  with i show ?thesis by simp
qed

lemma collect_entries_correct:
  assumes wf: "column_wf c" and c: "\<not> can_build_from_pages c" and n: "n = length (ct_values c)"
  shows "collect_entries c n = Inr (key_entries (row_keys c))"
proof -
  have "collect_entries c n =
      Inr ([] @ map (\<lambda>i. \<lparr>he_key = as_i32 (ct_values c ! i), he_row_id = of_nat i\<rparr>)
                 (filter (\<lambda>i. \<not> is_null (ct_values c ! i)) [0..<n]))"
    unfolding collect_entries_def using paged_read_correct[OF wf c] n
    by (intro rfold_snoc_if) auto
  also have "\<dots> = Inr (key_entries (row_keys c))"
    using c n by (auto simp: key_entries_def row_keys_def intro!: map_cong filter_cong)
  finally show ?thesis .
qed

lemma map_upt_snoc: "map f [a..<a + b] = map (\<lambda>i. f (a + i)) [0..<b]"
  by (induction b) auto

lemma zero_copy_entries_correct:
  fixes src offs
  defines "vals \<equiv> concat (map (zc_page_values src offs) [0..<length offs - 1])"
  assumes wf: "offsets_wf (length (col_pages src)) offs"
  shows "zero_copy_entries src offs =
    Inr (map (\<lambda>i. \<lparr>he_key = as_i32 (vals ! i), he_row_id = of_nat i\<rparr>) [0..<length vals])"
proof -
  note offs = offsets_wf_nth[OF wf]
  let ?e = "\<lambda>i. \<lparr>he_key = as_i32 (vals ! i), he_row_id = (of_nat i :: u32)\<rparr>"
  let ?f = "\<lambda>page_idx s.
       let base = offs ! page_idx; stop = offs ! (page_idx + 1)
       in if stop < base then Inl Undefined
          else rbind (at (col_pages src) page_idx) (\<lambda>page.
            Inr (fold (\<lambda>i es. es @ [page_entry page base i]) [0..<stop - base] s))"
  have len: "length vals = offs ! (length offs - 1)"
    using zc_take_length[OF wf, of "length offs - 1"] offs by (simp add: vals_def)
  have "rfold ?f [0..<p] [] = Inr (map ?e [0..<offs ! p])" if "p \<le> length offs - 1" for p
    using that
  proof (induction p)
    case (Suc p)
    let ?base = "offs ! p" and ?stop = "offs ! (p + 1)"
    have le: "?base \<le> ?stop" using offs Suc.prems by (simp add: sorted_nth_mono)
    have e: "page_entry (col_pages src ! p) ?base i = ?e (?base + i)" if "i < ?stop - ?base" for i
      using zc_nth[OF wf, of p "?base + i" src] that offs Suc.prems by (simp add: page_entry_def vals_def)
    have "map (page_entry (col_pages src ! p) ?base) [0..<?stop - ?base] = map ?e [?base..<?stop]"
      using e le map_upt_snoc[of ?e ?base "?stop - ?base"] by simp
    moreover have "[0..<?stop] = [0..<?base] @ [?base..<?stop]"
      using le by (metis le_add_diff_inverse upt_add_eq_append zero_le)
    ultimately show ?case
      using Suc le offs by (simp add: rfold_append Let_def fold_snoc)
  qed (simp add: offs)
  from this[of "length offs - 1"] show ?thesis
    by (simp add: zero_copy_entries_def for_each_row_def len)
qed

lemma key_entries_pages:
  assumes wf: "column_wf c" and c: "can_build_from_pages c"
  shows "zero_copy_entries (the (ct_src_column c)) (ct_page_offsets c) = Inr (key_entries (row_keys c))"
    and "length (key_entries (row_keys c)) = length (ct_values c)"
proof -
  let ?src = "the (ct_src_column c)"
  have src: "(if ct_is_zero_copy c then ct_src_column c else None) = Some ?src"
    using c by (auto simp: can_build_from_pages_def)
  have wfo: "offsets_wf (length (col_pages ?src)) (ct_page_offsets c)"
    using wf src by (simp add: column_wf_def)
  have "key_entries (row_keys c) =
      map (\<lambda>i. \<lparr>he_key = as_i32 (ct_values c ! i), he_row_id = of_nat i\<rparr>) [0..<length (ct_values c)]"
    using c by (auto simp: key_entries_def row_keys_def filter_id_conv intro!: map_cong)
  then show "zero_copy_entries ?src (ct_page_offsets c) = Inr (key_entries (row_keys c))"
    and "length (key_entries (row_keys c)) = length (ct_values c)"
    using zero_copy_entries_correct[OF wfo] src by (auto simp: ct_values_def)
qed

definition effective_rows :: "column_t \<Rightarrow> nat" where
  "effective_rows c = length (key_entries (row_keys c))"

context join_table begin

definition indexes :: "'t \<Rightarrow> u32 hash_entry list \<Rightarrow> bool" where
  "indexes t es \<longleftrightarrow> (\<forall>k. with_key k (bucket (iht_probe vt k t)) = with_key k es)"

lemma build_by_copy_correct:
  assumes "column_wf c" "\<not> can_build_from_pages c" "n = length (ct_values c)"
    and t: "ready t" and fits: "fits (key_entries (row_keys c))"
  shows "if key_entries (row_keys c) = [] then build_by_copy vt c n t = Inr None
    else (\<exists>e \<in> failures. build_by_copy vt c n t = Inl e) \<or>
      (\<exists>t'. build_by_copy vt c n t = Inr (Some (t', effective_rows c)) \<and> indexes t' (key_entries (row_keys c)))"
proof (cases "key_entries (row_keys c) = []")
  case True
  then show ?thesis by (simp add: build_by_copy_def collect_entries_correct[OF assms(1-3)])
next
  case False
  let ?es = "key_entries (row_keys c)"
  have ready: "ready (iht_reserve vt (length ?es) t)" using t by (rule reserve_ready)
  show ?thesis
  proof (cases "iht_build_from_entries vt ?es (iht_reserve vt (length ?es) t)")
    case (Inl e)
    with False build_fails[OF ready fits] show ?thesis
      by (simp add: build_by_copy_def collect_entries_correct[OF assms(1-3)])
  next
    case (Inr t')
    then have "indexes t' ?es"
      unfolding indexes_def by (intro allI build_probe[OF ready fits])
    with False Inr show ?thesis
      by (simp add: build_by_copy_def collect_entries_correct[OF assms(1-3)] effective_rows_def)
  qed
qed

lemma build_phase_correct:
  assumes wf: "column_wf c" and n: "n = length (ct_values c)" and fits: "fits (key_entries (row_keys c))"
  shows "(\<exists>e \<in> failures. build_phase vt c n = Inl e) \<or>
    (build_phase vt c n = Inr None \<and> key_entries (row_keys c) = []) \<or>
    (\<exists>t. build_phase vt c n = Inr (Some (t, effective_rows c)) \<and> indexes t (key_entries (row_keys c)))"
proof (cases "can_build_from_pages c")
  case True
  note es = key_entries_pages[OF wf True]
  have src: "ct_src_column c = Some (the (ct_src_column c))" and offs: "2 \<le> length (ct_page_offsets c)"
    using True by (auto simp: can_build_from_pages_def)
  have len: "length (key_entries (row_keys c)) = n" using es(2) n by simp
  note built = zero_copy[OF new_ready es(1) fits len offs, folded src]
  show ?thesis
  proof (cases "iht_build_from_zero_copy_int32 vt (ct_src_column c) (ct_page_offsets c) n (iht_new vt)")
    case (Inl e)
    with built True show ?thesis by (simp add: build_phase_def)
  next
    case (Inr r)
    obtain t ok where r: "r = (t, ok)" by (cases r)
    show ?thesis
    proof (cases ok)
      case True
      with built Inr r have "indexes t (key_entries (row_keys c))" by (simp add: indexes_def)
      then show ?thesis using True Inr r len \<open>can_build_from_pages c\<close> by (simp add: build_phase_def effective_rows_def)
    next
      case False
      with built Inr r have "n = 0" by simp
      then have "build_by_copy vt c n t = Inr None" by (simp add: build_by_copy_def collect_entries_def)
      then show ?thesis using False Inr r len \<open>n = 0\<close> \<open>can_build_from_pages c\<close> by (simp add: build_phase_def)
    qed
  qed
next
  case False
  from build_by_copy_correct[OF wf False n new_ready fits] False show ?thesis
    by (auto simp: build_phase_def split: if_splits)
qed

end

section \<open>Probe\<close>

lemma concat_filter_map:
  "concat (map (\<lambda>e. if P e then [] else [f e]) es) = map f (filter (\<lambda>e. \<not> P e) es)"
  by (induction es) auto

lemma emit_matches_eq:
  "emit_matches vt bl t k j =
   map (\<lambda>e. if bl then (he_row_id e, of_nat j) else (of_nat j, he_row_id e)) (with_key k (bucket (iht_probe vt k t)))"
  by (simp add: emit_matches_def concat_filter_map split: option.split)

lemma cursor_advance_correct:
  assumes offs: "sorted offs" "offs ! p \<le> j" "p + 1 < length offs" "j < last offs"
  shows "\<exists>q. cursor_advance offs j p = Inr q \<and> p \<le> q \<and> q + 1 < length offs \<and> offs ! q \<le> j \<and> j < offs ! (q + 1)"
  using assms
proof (induction offs j p rule: cursor_advance.induct)
  case (1 offs j p)
  show ?case
  proof (cases "offs ! (p + 1) \<le> j")
    case True
    have "p + 1 \<noteq> length offs - 1"
      using True "1.prems" by (metis last_conv_nth leD list.size(3) not_less_zero)
    then have p: "p + 1 + 1 < length offs" using "1.prems" by linarith
    from "1.IH"[OF _ True] "1.prems" p True
    obtain q where "cursor_advance offs j (p + 1) = Inr q" "p + 1 \<le> q" "q + 1 < length offs"
      "offs ! q \<le> j" "j < offs ! (q + 1)" by auto
    with True "1.prems" show ?thesis by (subst cursor_advance.simps) auto
  next
    case False
    with "1.prems" show ?thesis by (subst cursor_advance.simps) auto
  qed
qed

lemma rfold_appends:
  assumes "\<And>j s. j \<in> set js \<Longrightarrow> f j s = Inr (s @ g j)"
  shows "rfold f js s = Inr (s @ concat (map g js))"
  using assms by (induction js arbitrary: s) auto

context join_table begin

lemma emit_matches_correct:
  assumes "indexes t (key_entries bks)" "pks ! j = Some k"
  shows "emit_matches vt bl t k j = map pair32 (row_pairs bl bks pks j)"
  using assms by (auto simp: emit_matches_eq indexes_def with_key_key_entries row_pairs_def)

lemma probe_materialized_correct:
  assumes wf: "column_wf c" and c: "\<not> can_build_from_pages c" and stop: "stop \<le> length (ct_values c)"
    and t: "indexes t (key_entries bks)"
  shows "probe_block_materialized vt bl t c begin stop local =
    Inr (local @ concat (map (\<lambda>j. map pair32 (row_pairs bl bks (row_keys c) j)) [begin..<stop]))"
  unfolding probe_block_materialized_def
proof (rule rfold_appends)
  fix j s
  assume "j \<in> set [begin..<stop]"
  then have j: "j < length (ct_values c)" using stop by simp
  show "rbind (paged_read c j) (\<lambda>v. if is_null v then Inr s else Inr (s @ emit_matches vt bl t (as_i32 v) j)) =
      Inr (s @ map pair32 (row_pairs bl bks (row_keys c) j))"
  proof (cases "is_null (ct_values c ! j)")
    case True
    then show ?thesis using paged_read_correct[OF wf c j] j c by (simp add: row_pairs_def row_keys_def)
  next
    case False
    then have "row_keys c ! j = Some (as_i32 (ct_values c ! j))"
      using j by (simp add: row_keys_def)
    from emit_matches_correct[OF t this] False show ?thesis
      using paged_read_correct[OF wf c j] by simp
  qed
qed

lemma probe_zero_copy_correct:
  fixes c
  defines "src \<equiv> the (ct_src_column c)" and "offs \<equiv> ct_page_offsets c"
  assumes wf: "column_wf c" and c: "can_build_from_pages c"
    and range: "begin < stop" "stop \<le> length (ct_values c)"
    and t: "indexes t (key_entries bks)"
  shows "probe_block_zero_copy vt bl t src offs begin stop local =
    Inr (local @ concat (map (\<lambda>j. map pair32 (row_pairs bl bks (row_keys c) j)) [begin..<stop]))"
proof -
  have src: "(if ct_is_zero_copy c then ct_src_column c else None) = Some src"
    using c by (auto simp: can_build_from_pages_def src_def)
  have wfo: "offsets_wf (length (col_pages src)) offs" and two: "2 \<le> length offs"
    using wf src c by (auto simp: column_wf_def can_build_from_pages_def offs_def)
  note offs = offsets_wf_nth[OF wfo]
  have vals: "ct_values c = concat (map (zc_page_values src offs) [0..<length (col_pages src)])"
    using src offs by (simp add: ct_values_def offs_def)
  have len: "length (ct_values c) = last offs"
    using zc_take_length[OF wfo, of "length (col_pages src)" src] offs vals
    by (simp add: last_conv_nth flip: length_0_conv)
  let ?out = "\<lambda>j. map pair32 (row_pairs bl bks (row_keys c) j)"
  let ?p0 = "if offs ! 1 \<le> begin then bsearch offs begin 0 (length offs - 1) else 0"
  have p0: "?p0 + 1 < length offs" "offs ! ?p0 \<le> begin"
  proof -
    have "offs ! (length offs - 1) = last offs" using two by (intro last_conv_nth[symmetric]) auto
    then have "begin < offs ! (length offs - 1)" using range len by simp
    then have "let p = bsearch offs begin 0 (length offs - 1) in
        0 \<le> p \<and> p < length offs - 1 \<and> offs ! p \<le> begin \<and> begin < offs ! (p + 1)"
      using two offs by (intro bsearch_finds) auto
    then show "?p0 + 1 < length offs" "offs ! ?p0 \<le> begin"
      using two offs by (auto simp: Let_def split: if_splits)
  qed
  let ?f = "\<lambda>j (page_idx, page, local).
      rbind (cursor_advance offs j page_idx) (\<lambda>page_idx'.
      rbind (if page_idx' = page_idx then Inr page else at (col_pages src) page_idx') (\<lambda>page.
        if j < offs ! page_idx' then Inl Undefined
        else let probe_key = page_int32 page (j - offs ! page_idx')
             in Inr (page_idx', page, local @ emit_matches vt bl t probe_key j)))"
  have step: "\<exists>q. ?f j (p, col_pages src ! p, s) = Inr (q, col_pages src ! q, s @ ?out j) \<and>
        q + 1 < length offs \<and> offs ! q \<le> j"
    if "p + 1 < length offs" "offs ! p \<le> j" "j < stop" for p j s
  proof -
    have "j < last offs" using that(3) len range by simp
    with cursor_advance_correct[OF _ that(2,1)] offs
    obtain q where q: "cursor_advance offs j p = Inr q" "q + 1 < length offs" "offs ! q \<le> j" "j < offs ! (q + 1)"
      by blast
    have "row_keys c ! j = Some (page_int32 (col_pages src ! q) (j - offs ! q))"
      using zc_nth[OF wfo _ q(3,4), of src] q(2) offs vals that range c by (simp add: row_keys_def)
    from emit_matches_correct[OF t this, of bl] show ?thesis
      using q offs by (intro exI[of _ q]) (cases "q = p"; simp add: Let_def)
  qed
  have run: "\<exists>q. rfold ?f [begin..<stop'] (?p0, col_pages src ! ?p0, local) =
        Inr (q, col_pages src ! q, local @ concat (map ?out [begin..<stop'])) \<and>
        q + 1 < length offs \<and> offs ! q \<le> stop'"
    if "begin \<le> stop'" "stop' \<le> stop" for stop'
    using that
  proof (induction stop')
    case 0
    then show ?case using p0 by (intro exI[of _ ?p0]) simp
  next
    case (Suc n)
    show ?case
    proof (cases "begin \<le> n")
      case True
      with Suc obtain q where q: "rfold ?f [begin..<n] (?p0, col_pages src ! ?p0, local) =
          Inr (q, col_pages src ! q, local @ concat (map ?out [begin..<n]))" "q + 1 < length offs" "offs ! q \<le> n"
        by auto
      from step[OF q(2,3)] Suc.prems True obtain q' where q':
        "?f n (q, col_pages src ! q, local @ concat (map ?out [begin..<n])) =
           Inr (q', col_pages src ! q', (local @ concat (map ?out [begin..<n])) @ ?out n)"
        "q' + 1 < length offs" "offs ! q' \<le> n" by fastforce
      show ?thesis
        using q(1) q' True by (intro exI[of _ q']) (simp add: rfold_append del: split_paired_Ex)
    next
      case False
      then have "begin = Suc n" using Suc.prems by simp
      then show ?thesis using p0 by (intro exI[of _ ?p0]) simp
    qed
  qed
  from run[of stop] range obtain q where
    "rfold ?f [begin..<stop] (?p0, col_pages src ! ?p0, local) =
       Inr (q, col_pages src ! q, local @ concat (map ?out [begin..<stop]))" by auto
  then show ?thesis
    using p0(1) offs by (simp add: probe_block_zero_copy_def Let_def)
qed

end

section \<open>The whole probe\<close>

definition fair_schedule :: "join_env \<Rightarrow> nat \<Rightarrow> nat \<Rightarrow> bool" where
  "fair_schedule env join_no probe_n \<longleftrightarrow>
     (let n = probe_nthreads env probe_n
      in n = 1 \<or> (\<forall>t < n. probe_n < count_list (je_schedule env join_no) t))"

lemma probe_nthreads_pos: "0 < probe_nthreads env n"
  by (simp add: probe_nthreads_def Let_def)

lemma probe_coordinator:
  assumes n: "0 < n" "n < 2 ^ 32" and T: "T \<le> 2 ^ 32"
  shows "\<exists>k. ws_coordinator_new (probe_ws_config T n) = Inr k \<and> unat (wsc_total_work (probe_ws_config T n)) = T \<and>
    wsk_total_work k = of_nat T \<and> T + (n + 1) * unat (wsk_block_size k) < 2 ^ 64 \<and>
    (0 < T \<longrightarrow> 0 < unat (wsk_block_size k))"
proof -
  have rT: "unat (of_nat T :: u64) = T" using T by (intro unat_of_nat_u64) simp
  have rn: "unat (of_nat n :: u64) = n" using n by (intro unat_of_nat_u64) simp
  have blocks: "unat (of_nat n * 16 :: u64) = n * 16"
  proof -
    have "of_nat n * 16 = (of_nat (n * 16) :: u64)" by simp
    then show ?thesis using n unat_of_nat_u64[of "n * 16"] by simp
  qed
  have n0: "(of_nat n :: u64) \<noteq> 0" using rn n(1) by (metis less_irrefl unat_0)
  have b0: "(of_nat n * 16 :: u64) \<noteq> 0" using blocks n(1) by (metis mult_eq_0_iff less_irrefl unat_0 zero_neq_numeral)
  show ?thesis
  proof (cases "T = 0")
    case True
    then show ?thesis
      by (simp add: ws_coordinator_new_def get_block_size_def probe_ws_config_def)
  next
    case False
    then have T0: "(of_nat T :: u64) \<noteq> 0" using rT by (metis unat_0)
    let ?B = "max 256 (of_nat T div (of_nat n * 16)) :: u64"
    have B: "unat ?B = max 256 (T div (n * 16))"
      by (simp add: max_def word_le_nat_alt unat_div rT blocks)
    have "(n + 1) * (T div (n * 16)) \<le> (n * 16) * (T div (n * 16))"
      using n(1) by (intro mult_le_mono1) simp
    also have "\<dots> \<le> T" by simp
    finally have "(n + 1) * max 256 (T div (n * 16)) \<le> (n + 1) * 256 + T"
      by (simp add: max_def)
    then have "T + (n + 1) * unat ?B < 2 ^ 64" using n T B by simp
    moreover have "0 < unat ?B" using B by simp
    ultimately show ?thesis
      using n0 b0 T0 rT
      by (simp add: ws_coordinator_new_def get_block_size_def probe_ws_config_def Let_def)
  qed
qed

lemma probe_run:
  fixes env join_no T
  defines "n \<equiv> probe_nthreads env T"
  defines "sched \<equiv> probe_schedule env join_no n T"
  assumes n: "n < 2 ^ 32" and T: "T \<le> 2 ^ 32" and fair: "fair_schedule env join_no T"
  shows "\<exists>k. ws_coordinator_new (probe_ws_config T n) = Inr k \<and>
    (let s = ws_run sched (ws_init n k) in
      ws_finished s \<and> mset (concat (map thread_rows (ws_blocks s))) = mset [0..<T] \<and>
      length (ws_blocks s) = n \<and> (n = 1 \<longrightarrow> map thread_rows (ws_blocks s) = [[0..<T]]) \<and>
      (\<forall>bs \<in> set (ws_blocks s). \<forall>b \<in> set bs. unat (fst b) < unat (snd b) \<and> unat (snd b) \<le> T))"
proof -
  have n0: "0 < n" unfolding n_def by (rule probe_nthreads_pos)
  obtain k where k: "ws_coordinator_new (probe_ws_config T n) = Inr k"
    "unat (wsc_total_work (probe_ws_config T n)) = T" "wsk_total_work k = of_nat T"
    "T + (n + 1) * unat (wsk_block_size k) < 2 ^ 64" "0 < T \<longrightarrow> 0 < unat (wsk_block_size k)"
    using probe_coordinator[OF n0 n T] by blast
  have count: "T < count_list sched t" if "t < n" for t
  proof (cases "n = 1")
    case True
    then have "t = 0" using that by simp
    have "count_list (replicate m (0::nat)) 0 = m" for m by (induction m) auto
    then show ?thesis using True \<open>t = 0\<close> by (simp add: sched_def probe_schedule_def)
  next
    case False
    then show ?thesis using fair that by (auto simp: sched_def probe_schedule_def fair_schedule_def n_def Let_def)
  qed
  show ?thesis
  proof (cases "T = 0")
    case True
    then have "wsk_total_work k = 0" using k(3) by simp
    from ws_run_no_work[OF this, of n sched] count True have
      "ws_blocks (ws_run sched (ws_init n k)) = replicate n []" "ws_finished (ws_run sched (ws_init n k))" by auto
    then show ?thesis using k(1) True by (auto simp: thread_rows_def Let_def)
  next
    case False
    then have B: "0 < unat (wsk_block_size k)" using k(5) by simp
    have "(T + unat (wsk_block_size k) - 1) div unat (wsk_block_size k) \<le> T"
    proof -
      obtain b where b: "unat (wsk_block_size k) = Suc b" using B by (cases "unat (wsk_block_size k)") auto
      have "T + b < Suc T * Suc b" using False by simp
      then have "(T + b) div Suc b < Suc T" by (rule less_mult_imp_div_less)
      then show ?thesis by (simp add: b)
    qed
    then have sched: "ws_complete_schedule n T (unat (wsk_block_size k)) sched"
      using count by (auto simp: ws_complete_schedule_def intro: order.strict_trans1)
    note R = ws_run_rows[OF k(1,2) refl k(4) B n0 sched]
      and ranges = ws_run_block_range[OF k(1,2) refl k(4) B]
    have "map thread_rows (ws_blocks (ws_run sched (ws_init n k))) = [[0..<T]]" if one: "n = 1"
      using ws_run_serial_rows[OF k(1)[unfolded one] k(2)[unfolded one] refl _ B sched[unfolded one]] k(4) one by simp
    then show ?thesis
      using k(1) R ranges by (simp add: Let_def)
  qed
qed

lemma concat_map_concat: "concat (map (\<lambda>x. concat (map f (g x))) xs) = concat (map f (concat (map g xs)))"
  by (induction xs) auto

lemma mset_concat_map_map: "mset (concat (map (\<lambda>xs. concat (map f xs)) xss)) = mset (concat (map f (concat xss)))"
  by (induction xss) auto

context join_table begin

lemma probe_block_correct:
  assumes "column_wf c" "unat (fst b) < unat (snd b)" "unat (snd b) \<le> length (ct_values c)"
    and "indexes t (key_entries bks)"
  shows "probe_block vt bl t c b local =
    Inr (local @ concat (map (\<lambda>j. map pair32 (row_pairs bl bks (row_keys c) j)) (block_rows b)))"
proof (cases "can_build_from_pages c")
  case True
  then show ?thesis
    using probe_zero_copy_correct[OF assms(1) True assms(2-4)]
    by (auto simp: probe_block_def block_rows_def can_build_from_pages_def)
next
  case False
  then show ?thesis
    using probe_materialized_correct[OF assms(1) False assms(3,4)]
    by (simp add: probe_block_def block_rows_def)
qed

lemma probe_thread_correct:
  assumes "column_wf c" "indexes t (key_entries bks)"
    and "\<And>b. b \<in> set bs \<Longrightarrow> unat (fst b) < unat (snd b) \<and> unat (snd b) \<le> length (ct_values c)"
  shows "rfold (probe_block vt bl t c) bs [] =
    Inr (concat (map (\<lambda>j. map pair32 (row_pairs bl bks (row_keys c) j)) (thread_rows bs)))"
proof -
  have "rfold (probe_block vt bl t c) bs [] =
      Inr ([] @ concat (map (\<lambda>b. concat (map (\<lambda>j. map pair32 (row_pairs bl bks (row_keys c) j)) (block_rows b))) bs))"
    using assms by (intro rfold_appends probe_block_correct) auto
  then show ?thesis by (simp only: thread_rows_def concat_map_concat append_Nil)
qed

lemma probe_phase_correct:
  assumes wf: "column_wf c" and t: "indexes t (key_entries bks)"
    and T: "T = length (ct_values c)" "T \<le> 2 ^ 32"
    and n: "probe_nthreads env T < 2 ^ 32" and fair: "fair_schedule env join_no T"
  shows "\<exists>outs. probe_phase vt env join_no bl t c T = Inr outs \<and>
    mset (concat outs) = mset (map pair32 (join_pairs bl bks (row_keys c))) \<and>
    (probe_nthreads env T = 1 \<longrightarrow> concat outs = map pair32 (join_pairs bl bks (row_keys c)))"
proof -
  let ?n = "probe_nthreads env T"
  let ?out = "\<lambda>j. map pair32 (row_pairs bl bks (row_keys c) j)"
  obtain k where k: "ws_coordinator_new (probe_ws_config T ?n) = Inr k"
    and run: "let s = ws_run (probe_schedule env join_no ?n T) (ws_init ?n k) in
      ws_finished s \<and> mset (concat (map thread_rows (ws_blocks s))) = mset [0..<T] \<and>
      length (ws_blocks s) = ?n \<and> (?n = 1 \<longrightarrow> map thread_rows (ws_blocks s) = [[0..<T]]) \<and>
      (\<forall>bs \<in> set (ws_blocks s). \<forall>b \<in> set bs. unat (fst b) < unat (snd b) \<and> unat (snd b) \<le> T)"
    using probe_run[OF n T(2) fair] by blast
  define s where "s = ws_run (probe_schedule env join_no ?n T) (ws_init ?n k)"
  have R: "ws_finished s" "mset (concat (map thread_rows (ws_blocks s))) = mset [0..<T]"
    "?n = 1 \<longrightarrow> map thread_rows (ws_blocks s) = [[0..<T]]"
    "\<forall>bs \<in> set (ws_blocks s). \<forall>b \<in> set bs. unat (fst b) < unat (snd b) \<and> unat (snd b) \<le> T"
    using run by (auto simp: s_def Let_def)
  let ?outs = "map (\<lambda>bs. concat (map ?out (thread_rows bs))) (ws_blocks s)"
  have "rfold (\<lambda>blocks out_by_thread.
      rbind (rfold (probe_block vt bl t c) blocks []) (\<lambda>local. Inr (out_by_thread @ [local]))) (ws_blocks s) [] =
      Inr ([] @ concat (map (\<lambda>bs. [concat (map ?out (thread_rows bs))]) (ws_blocks s)))"
    using R(4) T(1) by (intro rfold_appends) (simp add: probe_thread_correct[OF wf t])
  then have "probe_phase vt env join_no bl t c T = Inr ?outs"
    using k R(1) by (simp add: probe_phase_def s_def Let_def)
  moreover have "mset (concat ?outs) = mset (concat (map ?out (concat (map thread_rows (ws_blocks s)))))"
    using mset_concat_map_map[of ?out "map thread_rows (ws_blocks s)"] by (simp add: comp_def)
  moreover have "\<dots> = mset (concat (map ?out [0..<T]))" by (rule mset_concat_map_perm[OF R(2)])
  moreover have "concat (map ?out [0..<T]) = map pair32 (join_pairs bl bks (row_keys c))"
    by (simp add: join_pairs_def map_concat comp_def T(1))
  moreover have "concat ?outs = concat (map ?out [0..<T])" if "?n = 1"
  proof -
    have "?outs = map (\<lambda>rs. concat (map ?out rs)) (map thread_rows (ws_blocks s))" by (simp add: comp_def)
    then show ?thesis using R(3) that by simp
  qed
  ultimately show ?thesis by (intro exI[of _ ?outs]) simp
qed

end

section \<open>Properties\<close>

text \<open>C21. The zero-copy build is an optimisation: for any offsets that list the first row of each page and
  the number of rows, it produces exactly the table that \<open>build_from_entries\<close> produces, hashes, filter,
  directory and tuples included, from the list in which row number \<open>i\<close> of the column, counted
  through the pages in order, has the \<open>i\<close>-th of the integers stored in the pages as its key.\<close>

theorem flat_zero_copy_equiv:
  assumes "offsets_wf (length (col_pages src)) offs" "0 < last offs" "0 < n"
  defines "keys \<equiv> concat (map (\<lambda>p. map (page_int32 (col_pages src ! p)) [0..<offs ! (p + 1) - offs ! p]) [0..<length (col_pages src)])"
  shows "length keys = last offs \<and>
    flat_build_from_zero_copy_int32 (Some src) offs n t =
      Inr (flat_build_from_entries compute_hash_u32
        (map (\<lambda>i. \<lparr>he_key = keys ! i, he_row_id = of_nat i\<rparr>) [0..<last offs]) t)"
proof -
  let ?vals = "concat (map (zc_page_values src offs) [0..<length offs - 1])"
  let ?es = "map (\<lambda>i. \<lparr>he_key = keys ! i, he_row_id = (of_nat i :: u32)\<rparr>) [0..<last offs]"
  note offs = offsets_wf_nth[OF assms(1)]
  have vals: "?vals = map make_i32 keys"
    using offs by (simp add: keys_def zc_page_values_def[abs_def] map_concat comp_def)
  have last: "last offs = offs ! (length offs - 1)" using offs by (intro last_conv_nth) auto
  then have len: "length keys = last offs"
    using zc_take_length[OF assms(1), of "length offs - 1" src] offs arg_cong[OF vals, of length] by simp
  have "zero_copy_entries src offs = Inr ?es"
    unfolding zero_copy_entries_correct[OF assms(1)] vals using len by simp
  moreover have "2 \<le> length offs" using offs assms(2) last by (cases "col_pages src") auto
  ultimately show ?thesis
    using assms(2,3) len
    by (simp add: flat_build_from_zero_copy_int32_def flat_build_from_entries_def Let_def for_each_row_eq split: prod.split)
qed

text \<open>Two pages with the keys 7 and 9 each.\<close>

lemma flat_zero_copy_equiv_witness:
  "flat_build_from_zero_copy_int32 (Some \<lparr>col_type = INT32, col_pages = [int_page, int_page]\<rparr>) [0, 2, 4] 4 (flat_new 10) =
   Inr (flat_build_from_entries compute_hash_u32
     [\<lparr>he_key = 7, he_row_id = 0\<rparr>, \<lparr>he_key = 9, he_row_id = 1\<rparr>, \<lparr>he_key = 7, he_row_id = 2\<rparr>, \<lparr>he_key = 9, he_row_id = 3\<rparr>]
     (flat_new 10))"
proof -
  let ?src = "\<lparr>col_type = INT32, col_pages = [int_page, int_page]\<rparr>"
  have keys: "page_int32 int_page 0 = 7" "page_int32 int_page (Suc 0) = 9"
    by (simp_all add: page_int32_def load32_def load_bytes_small int_page_def page_of_def)
  have "offsets_wf (length (col_pages ?src)) [0, 2, 4]" by (simp add: offsets_wf_def)
  from flat_zero_copy_equiv[OF this, of 4 "flat_new 10"] show ?thesis by (simp add: keys upt_rec)
qed

end
