(* ===== verification/Plans.thy ===== *)
theory Plans
  imports Pages
begin

text \<open>
  Query plans (\<open>include/plan.h\<close>): scan and join nodes with their output attributes, the plan
  with its inputs and root, and the functions that append nodes and inputs. The memory mapping a
  column may own is not modelled: it only decides when the bytes of a page are released.
\<close>

type_synonym attrs = "(nat \<times> data_type) list"

record scan_node =
  sn_base_table_id :: nat

record join_node =
  jn_build_left :: bool
  jn_left :: nat
  jn_right :: nat
  jn_left_attr :: nat
  jn_right_attr :: nat

datatype node_data = Scan_node scan_node | Join_node join_node

record plan_node =
  pn_data :: node_data
  pn_output_attrs :: attrs

record plan =
  pl_nodes :: "plan_node list"
  pl_inputs :: "columnar_table list"
  pl_root :: nat

definition new_join_node ::
    "bool \<Rightarrow> nat \<Rightarrow> nat \<Rightarrow> nat \<Rightarrow> nat \<Rightarrow> attrs \<Rightarrow> plan \<Rightarrow> nat \<times> plan" where
  "new_join_node build_left left right left_attr right_attr output_attrs p =
     (let join = \<lparr>jn_build_left = build_left, jn_left = left, jn_right = right,
                   jn_left_attr = left_attr, jn_right_attr = right_attr\<rparr>
      in (length (pl_nodes p),
          p\<lparr>pl_nodes := pl_nodes p @ [\<lparr>pn_data = Join_node join, pn_output_attrs = output_attrs\<rparr>]\<rparr>))"

definition new_scan_node :: "nat \<Rightarrow> attrs \<Rightarrow> plan \<Rightarrow> nat \<times> plan" where
  "new_scan_node base_table_id output_attrs p =
     (length (pl_nodes p),
      p\<lparr>pl_nodes := pl_nodes p @
         [\<lparr>pn_data = Scan_node \<lparr>sn_base_table_id = base_table_id\<rparr>, pn_output_attrs = output_attrs\<rparr>]\<rparr>)"

definition new_input :: "columnar_table \<Rightarrow> plan \<Rightarrow> nat \<times> plan" where
  "new_input input p = (length (pl_inputs p), p\<lparr>pl_inputs := pl_inputs p @ [input]\<rparr>)"

section \<open>Plans built bottom up\<close>

text \<open>
  Children are created before their parents, so a node only refers to nodes with smaller
  numbers: the order the recursion of the engine descends along.
\<close>

definition node_below :: "nat \<Rightarrow> plan_node \<Rightarrow> bool" where
  "node_below i n \<longleftrightarrow>
     (case pn_data n of Scan_node s \<Rightarrow> True | Join_node j \<Rightarrow> jn_left j < i \<and> jn_right j < i)"

definition plan_acyclic :: "plan \<Rightarrow> bool" where
  "plan_acyclic p \<longleftrightarrow> (\<forall>i < length (pl_nodes p). node_below i (pl_nodes p ! i))"

lemma plan_acyclic_new_scan:
  "plan_acyclic p \<Longrightarrow> plan_acyclic (snd (new_scan_node tid attrs p))"
  by (auto simp: plan_acyclic_def new_scan_node_def nth_append node_below_def)

lemma plan_acyclic_new_join:
  "plan_acyclic p \<Longrightarrow> l < length (pl_nodes p) \<Longrightarrow> r < length (pl_nodes p) \<Longrightarrow>
   plan_acyclic (snd (new_join_node bl l r la ra attrs p))"
  by (auto simp: plan_acyclic_def new_join_node_def nth_append node_below_def Let_def less_Suc_eq)

lemma plan_acyclic_new_input: "plan_acyclic p \<Longrightarrow> plan_acyclic (snd (new_input t p))"
  by (simp add: plan_acyclic_def new_input_def)

end
