(* ===== verification/JoinExec.thy ===== *)
theory JoinExec
  imports JoinProbe Plans
begin

text \<open>
  The rest of \<open>JoinAlgorithm::run_int32\<close> (\<open>src/execute_default.cpp\<close>): the allocation of the
  output pages, the copy of the matched rows into them, the early returns, the telemetry record.
  The main lemma says which rows the result buffer holds.
\<close>

section \<open>State of the engine between joins\<close>

text \<open>\<open>en_join_no\<close> numbers the probes, to select the schedule of each.\<close>

record engine =
  en_join_no :: nat
  en_telemetry :: telemetry

section \<open>Output columns\<close>

definition zero_value :: value_t where
  "zero_value = \<lparr>val_raw = 0\<rparr>"

function alloc_pages :: "nat \<Rightarrow> nat \<Rightarrow> nat \<Rightarrow> value_t list list \<Rightarrow> value_t list list res" where
  "alloc_pages page_sz total_out written pages =
     (if written < total_out
      then if page_sz = 0 then Inl No_return
           else (let take = min page_sz (total_out - written)
                 in alloc_pages page_sz total_out (written + take) (pages @ [replicate take zero_value]))
      else Inr pages)"
  by pat_completeness auto
termination
  by (relation "measure (\<lambda>(page_sz, tot, written, pages). tot - written)") auto

declare alloc_pages.simps [simp del]

definition output_map :: "nat \<Rightarrow> nat \<Rightarrow> bool \<times> u32" where
  "output_map left_cols src =
     (if src < left_cols then (True, of_nat src) else (False, of_nat (src - left_cols)))"

definition prepare_column :: "nat \<Rightarrow> column_t \<Rightarrow> column_t res" where
  "prepare_column total_out dst =
     rbind (alloc_pages (ct_values_per_page dst) total_out 0 []) (\<lambda>pages.
       Inr (dst\<lparr>ct_pages := pages, ct_page_offsets := [], ct_src_column := None,
                ct_is_zero_copy := False, ct_cached_page_idx := 0, ct_num_values := total_out\<rparr>))"

definition prepare_outputs ::
    "attrs \<Rightarrow> nat \<Rightarrow> nat \<Rightarrow> column_t list \<Rightarrow> (column_t list \<times> (bool \<times> u32) list) res" where
  "prepare_outputs output_attrs left_cols total_out columns =
     rfold (\<lambda>col (columns, out_map).
        rbind (at columns col) (\<lambda>dst.
        rbind (prepare_column total_out dst) (\<lambda>dst.
        rbind (at output_attrs col) (\<lambda>attr.
          Inr (columns[col := dst], out_map @ [output_map left_cols (fst attr)])))))
       [0..<length output_attrs] (columns, [])"

definition write_cell :: "column_t list \<Rightarrow> nat \<Rightarrow> nat \<Rightarrow> nat \<Rightarrow> value_t \<Rightarrow> column_t list res" where
  "write_cell columns col page_idx off v =
     rbind (at columns col) (\<lambda>c.
     rbind (at (ct_pages c) page_idx) (\<lambda>page.
       if off < length page
       then Inr (columns[col := c\<lparr>ct_pages := (ct_pages c)[page_idx := page[off := v]]\<rparr>])
       else Inl Undefined))"

text \<open>The copy reads through \<open>column_t::get\<close>, which moves the page cache of its column.\<close>

record fill_state =
  fs_left :: "column_t list"
  fs_right :: "column_t list"
  fs_out :: "column_t list"

definition fill_cell ::
    "(bool \<times> u32) list \<Rightarrow> nat \<Rightarrow> nat \<Rightarrow> nat \<Rightarrow> nat \<Rightarrow> nat \<Rightarrow> fill_state \<Rightarrow> fill_state res" where
  "fill_cell out_map lidx ridx page_idx off col st =
     rbind (at out_map col) (\<lambda>(from_left, idx).
       if from_left
       then rbind (at (fs_left st) (unat idx)) (\<lambda>c.
            rbind (column_get c lidx) (\<lambda>(v, c).
            rbind (write_cell (fs_out st) col page_idx off v) (\<lambda>out.
              Inr (st\<lparr>fs_left := (fs_left st)[unat idx := c], fs_out := out\<rparr>))))
       else rbind (at (fs_right st) (unat idx)) (\<lambda>c.
            rbind (column_get c ridx) (\<lambda>(v, c).
            rbind (write_cell (fs_out st) col page_idx off v) (\<lambda>out.
              Inr (st\<lparr>fs_right := (fs_right st)[unat idx := c], fs_out := out\<rparr>)))))"

definition fill_row ::
    "(bool \<times> u32) list \<Rightarrow> nat \<Rightarrow> nat \<Rightarrow> out_pair \<Rightarrow> nat \<times> fill_state \<Rightarrow> (nat \<times> fill_state) res" where
  "fill_row out_map num_output_cols out_page_sz op = (\<lambda>(out_idx, st).
     let page_idx = out_idx div out_page_sz; off = out_idx mod out_page_sz
     in rbind (rfold (fill_cell out_map (unat (fst op)) (unat (snd op)) page_idx off) [0..<num_output_cols] st)
          (\<lambda>st. Inr (out_idx + 1, st)))"

definition fill_outputs ::
    "(bool \<times> u32) list \<Rightarrow> nat \<Rightarrow> nat \<Rightarrow> out_pair list list \<Rightarrow> fill_state \<Rightarrow> fill_state res" where
  "fill_outputs out_map num_output_cols out_page_sz out_by_thread st =
     rbind (rfold (\<lambda>local. rfold (fill_row out_map num_output_cols out_page_sz) local) out_by_thread (0, st))
       (\<lambda>(out_idx, st). Inr st)"

section \<open>The join\<close>

text \<open>The empty output buffer of \<open>execute_hash_join\<close>, with its column types.\<close>

definition fresh_results :: "attrs \<Rightarrow> column_buffer" where
  "fresh_results output_attrs =
     (buffer_new (length output_attrs) 0)\<lparr>cb_types := map snd output_attrs\<rparr>"

definition run_int32 ::
    "(u32, 't) ihash_table \<Rightarrow> join_env \<Rightarrow> bool \<Rightarrow> column_buffer \<Rightarrow> column_buffer \<Rightarrow> column_buffer \<Rightarrow>
     nat \<Rightarrow> nat \<Rightarrow> attrs \<Rightarrow> engine \<Rightarrow> (column_buffer \<times> engine) res" where
  "run_int32 vt env build_left left right results left_col right_col output_attrs en =
     (let build_buf = (if build_left then left else right);
          probe_buf = (if build_left then right else left);
          build_key_col = (if build_left then left_col else right_col);
          probe_key_col = (if build_left then right_col else left_col)
      in rbind (at (cb_columns build_buf) build_key_col) (\<lambda>build_col.
         rbind (build_phase vt build_col (cb_num_rows build_buf)) (\<lambda>built.
         case built of
           None \<Rightarrow> Inr (results, en)
         | Some (table, build_rows_effective) \<Rightarrow>
           (let probe_n = cb_num_rows probe_buf
            in rbind (at (cb_columns probe_buf) probe_key_col) (\<lambda>probe_col.
               rbind (probe_phase vt env (en_join_no en) build_left table probe_col probe_n) (\<lambda>out_by_thread.
               let en = en\<lparr>en_join_no := en_join_no en + 1\<rparr>;
                   total_out = sum_list (map length out_by_thread);
                   num_output_cols = length output_attrs
               in if total_out = 0 then Inr (results, en)
                  else
                    (let en = (if join_telemetry_enabled (je_join_telemetry env)
                               then en\<lparr>en_telemetry := qt_add_join (of_nat build_rows_effective) (of_nat probe_n)
                                         (of_nat total_out) (of_nat num_output_cols) (en_telemetry en)\<rparr>
                               else en)
                     in rbind (prepare_outputs output_attrs (num_cols left) total_out (cb_columns results))
                          (\<lambda>(columns, out_map).
                        let out_page_sz = (if columns = [] then 1024 else ct_values_per_page (hd columns))
                        in rbind (fill_outputs out_map num_output_cols out_page_sz out_by_thread
                                    \<lparr>fs_left = cb_columns left, fs_right = cb_columns right, fs_out = columns\<rparr>)
                             (\<lambda>st. Inr (results\<lparr>cb_columns := fs_out st, cb_num_rows := total_out\<rparr>, en))))))))))"

section \<open>Plain columns\<close>

definition plain_column :: "nat \<Rightarrow> value_t list \<Rightarrow> column_t \<Rightarrow> bool" where
  "plain_column n vs c \<longleftrightarrow>
     \<not> ct_is_zero_copy c \<and> ct_values_per_page c = n \<and> pages_wf n (ct_pages c) \<and>
     concat (ct_pages c) = vs \<and> ct_num_values c = length vs"

lemma plain_column_values: "plain_column n vs c \<Longrightarrow> column_wf c \<and> ct_values c = vs"
  by (auto simp: plain_column_def column_wf_def ct_values_def)

lemma alloc_pages_correct:
  assumes "0 < n" "written \<le> tot" "concat pages = replicate written zero_value"
    and "\<And>p. p \<in> set pages \<Longrightarrow> 0 < length p \<and> length p \<le> n"
    and "written < tot \<Longrightarrow> \<forall>p \<in> set pages. length p = n" "\<forall>p \<in> set (butlast pages). length p = n"
  shows "\<exists>pages'. alloc_pages n tot written pages = Inr pages' \<and>
    concat pages' = replicate tot zero_value \<and> pages_wf n pages'"
  using assms
proof (induction n tot written pages rule: alloc_pages.induct)
  case (1 n tot written pages)
  show ?case
  proof (cases "written < tot")
    case True
    let ?take = "min n (tot - written)"
    let ?pages = "pages @ [replicate ?take zero_value]"
    have full: "?take = n" if "written + ?take < tot" using that by (simp add: min_def split: if_splits)
    have "\<exists>pages'. alloc_pages n tot (written + ?take) ?pages = Inr pages' \<and>
        concat pages' = replicate tot zero_value \<and> pages_wf n pages'"
    proof (rule "1.IH"[OF True _ refl])
      show "concat ?pages = replicate (written + ?take) zero_value"
        using "1.prems" by (simp add: replicate_add)
      show "\<forall>p \<in> set ?pages. length p = n" if "written + ?take < tot"
        using full[OF that] "1.prems"(5)[OF True] by auto
      show "\<forall>p \<in> set (butlast ?pages). length p = n" using "1.prems"(5)[OF True] by simp
      show "0 < length p \<and> length p \<le> n" if "p \<in> set ?pages" for p
        using that "1.prems"(1,4) True by auto
    qed (use "1.prems" True in auto)
    then show ?thesis
      using True "1.prems"(1) by (subst alloc_pages.simps) (simp add: Let_def)
  next
    case False
    then have "alloc_pages n tot written pages = Inr pages" by (subst alloc_pages.simps) simp
    moreover have "written = tot" using False "1.prems" by simp
    moreover have "last pages \<in> set pages" if "pages \<noteq> []" using that by simp
    ultimately show ?thesis
      using "1.prems" by (auto simp: pages_wf_def)
  qed
qed

lemma prepare_column_correct:
  assumes "0 < ct_values_per_page dst"
  shows "\<exists>c. prepare_column tot dst = Inr c \<and>
    plain_column (ct_values_per_page dst) (replicate tot zero_value) c"
proof -
  obtain pages where "alloc_pages (ct_values_per_page dst) tot 0 [] = Inr pages"
    "concat pages = replicate tot zero_value" "pages_wf (ct_values_per_page dst) pages"
    using alloc_pages_correct[of "ct_values_per_page dst" 0 tot "[]"] assms by auto
  then show ?thesis by (simp add: prepare_column_def plain_column_def)
qed

lemma concat_update:
  "p < length xss \<Longrightarrow> s < length (xss ! p) \<Longrightarrow>
   concat (xss[p := (xss ! p)[s := v]]) = (concat xss)[length (concat (take p xss)) + s := v]"
proof (induction xss arbitrary: p)
  case (Cons xs xss)
  show ?case
  proof (cases p)
    case 0
    with Cons show ?thesis by (simp add: list_update_append)
  next
    case (Suc q)
    then show ?thesis using Cons by (simp add: list_update_append ac_simps)
  qed
qed simp

lemma pages_wf_lengths:
  "pages_wf n pages \<longleftrightarrow> 0 < n \<and> (\<forall>l \<in> set (butlast (map length pages)). l = n) \<and>
     (map length pages \<noteq> [] \<longrightarrow> 0 < last (map length pages) \<and> last (map length pages) \<le> n)"
  by (auto simp: pages_wf_def map_butlast[symmetric] last_map)

lemma pages_wf_cong: "map length ps = map length qs \<Longrightarrow> pages_wf n ps \<Longrightarrow> pages_wf n qs"
  unfolding pages_wf_lengths by presburger

lemma write_cell_plain:
  assumes col: "col < length cs" and c: "plain_column n vs (cs ! col)" and i: "i < length vs"
  shows "\<exists>c'. write_cell cs col (i div n) (i mod n) v = Inr (cs[col := c']) \<and> plain_column n (vs[i := v]) c'"
proof -
  let ?pages = "ct_pages (cs ! col)" and ?p = "i div n" and ?s = "i mod n"
  have pages: "pages_wf n ?pages" "concat ?pages = vs" using c by (auto simp: plain_column_def)
  have at: "?p < length ?pages" "?s < length (?pages ! ?p)"
    using pages_wf_nth[OF pages(1), of i] pages(2) i by auto
  let ?pages' = "?pages[?p := (?pages ! ?p)[?s := v]]"
  have "map length ?pages' = map length ?pages" by (simp add: map_update list_update_same_conv at)
  then have "pages_wf n ?pages'" using pages(1) by (rule pages_wf_cong[OF sym])
  moreover have "concat ?pages' = vs[i := v]"
    using concat_update[OF at, of v] pages_wf_take[OF pages(1) at(1)] pages(2) by (simp del: length_concat)
  ultimately have "plain_column n (vs[i := v]) ((cs ! col)\<lparr>ct_pages := ?pages'\<rparr>)"
    using c by (simp add: plain_column_def)
  moreover have "write_cell cs col ?p ?s v = Inr (cs[col := (cs ! col)\<lparr>ct_pages := ?pages'\<rparr>])"
    using col at by (simp add: write_cell_def)
  ultimately show ?thesis by blast
qed

section \<open>The copy of the matched rows\<close>

text \<open>The value of output column \<open>src\<close> for a pair of a left and a right row.\<close>

definition join_cell :: "column_t list \<Rightarrow> column_t list \<Rightarrow> nat \<Rightarrow> nat \<times> nat \<Rightarrow> value_t" where
  "join_cell L R src p =
     (if src < length L then ct_values (L ! src) ! fst p else ct_values (R ! (src - length L)) ! snd p)"

definition columns_wf :: "nat \<Rightarrow> column_t list \<Rightarrow> bool" where
  "columns_wf n cs \<longleftrightarrow> (\<forall>c \<in> set cs. column_wf c \<and> length (ct_values c) = n)"

lemma get_through_cache:
  assumes rel: "list_all2 same_but_cache cs cs'" and wf: "columns_wf n cs"
    and i: "i < length cs" and j: "j < n"
  shows "i < length cs'"
    and "\<exists>c'. column_get (cs' ! i) j = Inr (ct_values (cs ! i) ! j, c') \<and>
              list_all2 same_but_cache cs (cs'[i := c'])"
proof -
  show i': "i < length cs'" using rel i by (simp add: list_all2_lengthD)
  have c: "same_but_cache (cs ! i) (cs' ! i)" using rel i by (rule list_all2_nthD)
  have "column_wf (cs ! i)" "length (ct_values (cs ! i)) = n"
    using wf i by (simp_all add: columns_wf_def)
  then have "column_wf (cs' ! i)" "ct_values (cs' ! i) = ct_values (cs ! i)" "j < length (ct_values (cs' ! i))"
    using same_but_cache_values[OF c] j by auto
  with column_get_correct obtain c' where
    c': "column_get (cs' ! i) j = Inr (ct_values (cs ! i) ! j, c')" "same_but_cache (cs' ! i) c'" by metis
  then have "list_all2 same_but_cache cs (cs'[i := c'])"
    using rel same_but_cache_trans[OF c c'(2)] i'
    by (auto simp: list_all2_conv_all_nth nth_list_update)
  then show "\<exists>c'. column_get (cs' ! i) j = Inr (ct_values (cs ! i) ! j, c') \<and>
              list_all2 same_but_cache cs (cs'[i := c'])"
    using c'(1) by blast
qed

definition filled :: "column_t list \<Rightarrow> column_t list \<Rightarrow> attrs \<Rightarrow> (nat \<times> nat) list \<Rightarrow> nat \<Rightarrow> nat \<Rightarrow> value_t list" where
  "filled L R attrs ps col i =
     map (join_cell L R (fst (attrs ! col))) (take i ps) @ replicate (length ps - i) zero_value"

lemma length_filled [simp, layout]: "i \<le> length ps \<Longrightarrow> length (filled L R attrs ps col i) = length ps"
  by (simp add: filled_def)

lemma filled_step:
  assumes "i < length ps"
  shows "(filled L R attrs ps col i)[i := join_cell L R (fst (attrs ! col)) (ps ! i)] =
    filled L R attrs ps col (Suc i)"
proof -
  have "length ps - i = Suc (length ps - Suc i)" using assms by simp
  then show ?thesis using assms by (simp add: filled_def take_Suc_conv_app_nth list_update_append)
qed

definition fill_inv ::
    "column_t list \<Rightarrow> column_t list \<Rightarrow> attrs \<Rightarrow> (nat \<times> nat) list \<Rightarrow> nat \<Rightarrow> nat \<Rightarrow> nat \<Rightarrow> fill_state \<Rightarrow> bool" where
  "fill_inv L R attrs ps n i c st \<longleftrightarrow>
     list_all2 same_but_cache L (fs_left st) \<and> list_all2 same_but_cache R (fs_right st) \<and>
     length (fs_out st) = length attrs \<and>
     (\<forall>col < length attrs. plain_column n (filled L R attrs ps col (if col < c then Suc i else i)) (fs_out st ! col))"

definition attrs_in :: "nat \<Rightarrow> nat \<Rightarrow> attrs \<Rightarrow> bool" where
  "attrs_in nl nr attrs \<longleftrightarrow> nl \<le> 2 ^ 32 \<and> nr \<le> 2 ^ 32 \<and> (\<forall>a \<in> set attrs. fst a < nl + nr)"

lemma unat_of_nat_u32: "n < 2 ^ 32 \<Longrightarrow> unat (of_nat n :: u32) = n"
  by (rule unat_of_nat_less) simp

lemma fill_cell_step:
  assumes inv: "fill_inv L R attrs ps n i c st" and c: "c < length attrs" and i: "i < length ps"
    and wf: "columns_wf nl L" "columns_wf nr R" and attrs: "attrs_in (length L) (length R) attrs"
    and ps: "fst (ps ! i) < nl" "snd (ps ! i) < nr"
    and om: "om = map (\<lambda>a. output_map (length L) (fst a)) attrs"
  shows "\<exists>st'. fill_cell om (fst (ps ! i)) (snd (ps ! i)) (i div n) (i mod n) c st = Inr st' \<and>
    fill_inv L R attrs ps n i (Suc c) st'"
proof -
  let ?src = "fst (attrs ! c)" and ?l = "fst (ps ! i)" and ?r = "snd (ps ! i)"
  let ?v = "join_cell L R ?src (ps ! i)"
  have src: "?src < length L + length R" "length L \<le> 2 ^ 32" "length R \<le> 2 ^ 32"
    using attrs c by (auto simp: attrs_in_def)
  have I: "list_all2 same_but_cache L (fs_left st)" "list_all2 same_but_cache R (fs_right st)"
    "length (fs_out st) = length attrs" "plain_column n (filled L R attrs ps c i) (fs_out st ! c)"
    using inv c by (auto simp: fill_inv_def)
  obtain c' where c': "write_cell (fs_out st) c (i div n) (i mod n) ?v = Inr ((fs_out st)[c := c'])"
    "plain_column n (filled L R attrs ps c (Suc i)) c'"
    using write_cell_plain[OF _ I(4), of i ?v] c i I(3) filled_step[OF i, of L R attrs c] by auto
  have out: "fill_inv L R attrs ps n i (Suc c) st'"
    if "list_all2 same_but_cache L (fs_left st')" "list_all2 same_but_cache R (fs_right st')"
      "fs_out st' = (fs_out st)[c := c']" for st'
    using inv that c' c by (auto simp: fill_inv_def nth_list_update less_Suc_eq)
  show ?thesis
  proof (cases "?src < length L")
    case True
    then have idx: "om ! c = (True, of_nat ?src)" "unat (of_nat ?src :: u32) = ?src"
      using om c src by (auto simp: output_map_def unat_of_nat_u32)
    obtain cl where "column_get (fs_left st ! ?src) ?l = Inr (?v, cl)"
      "list_all2 same_but_cache L ((fs_left st)[?src := cl])"
      using get_through_cache(2)[OF I(1) wf(1) True ps(1)] True by (auto simp: join_cell_def)
    then show ?thesis
      using idx c om c'(1) out I(1,2) get_through_cache(1)[OF I(1) wf(1) True ps(1)]
      by (simp add: fill_cell_def)
  next
    case False
    let ?s = "?src - length L"
    have s: "?s < length R" using False src by simp
    have "om ! c = (False, of_nat ?s)" using om c False by (simp add: output_map_def)
    moreover have "unat (of_nat ?s :: u32) = ?s" using s src(3) by (intro unat_of_nat_u32) simp
    ultimately obtain w where idx: "om ! c = (False, w)" "unat w = ?s" by blast
    obtain cr where "column_get (fs_right st ! ?s) ?r = Inr (?v, cr)"
      "list_all2 same_but_cache R ((fs_right st)[?s := cr])"
      using get_through_cache(2)[OF I(2) wf(2) s ps(2)] False by (auto simp: join_cell_def)
    then show ?thesis
      using idx c om c'(1) out I(1,2) get_through_cache(1)[OF I(2) wf(2) s ps(2)]
      by (simp add: fill_cell_def)
  qed
qed

lemma fill_outputs_correct:
  assumes start: "fill_inv L R attrs ps n 0 0 st"
    and outs: "concat outs = map pair32 ps" and small: "nl \<le> 2 ^ 32" "nr \<le> 2 ^ 32"
    and wf: "columns_wf nl L" "columns_wf nr R" and attrs: "attrs_in (length L) (length R) attrs"
    and ps: "\<And>p. p \<in> set ps \<Longrightarrow> fst p < nl \<and> snd p < nr"
    and om: "om = map (\<lambda>a. output_map (length L) (fst a)) attrs"
  shows "\<exists>st'. fill_outputs om (length attrs) n outs st = Inr st' \<and> fill_inv L R attrs ps n (length ps) 0 st'"
proof -
  let ?P = "\<lambda>i (idx, st). idx = i \<and> fill_inv L R attrs ps n i 0 st"
  have "\<exists>s'. rfold (fill_row om (length attrs) n) (concat outs) (0, st) = Inr s' \<and> ?P (length (concat outs)) s'"
  proof (rule rfold_invariant[of ?P])
    show "?P 0 (0, st)" using start by simp
    fix i s
    assume i: "i < length (concat outs)" and P: "?P i s"
    obtain st1 where s: "s = (i, st1)" "fill_inv L R attrs ps n i 0 st1" using P by (cases s) auto
    have i: "i < length ps" using i unfolding outs by simp
    have p: "fst (ps ! i) < nl" "snd (ps ! i) < nr" using ps[of "ps ! i"] i by simp_all
    have op: "unat (fst (concat outs ! i)) = fst (ps ! i)" "unat (snd (concat outs ! i)) = snd (ps ! i)"
      using i p small by (simp_all add: outs unat_of_nat_u32)
    have "\<exists>st'. rfold (fill_cell om (fst (ps ! i)) (snd (ps ! i)) (i div n) (i mod n)) [0..<length attrs] st1 = Inr st' \<and>
        fill_inv L R attrs ps n i (length [0..<length attrs]) st'"
    proof (rule rfold_invariant)
      show "fill_inv L R attrs ps n i 0 st1" by (rule s)
      show "\<exists>st'. fill_cell om (fst (ps ! i)) (snd (ps ! i)) (i div n) (i mod n) ([0..<length attrs] ! c) st = Inr st' \<and>
          fill_inv L R attrs ps n i (Suc c) st'"
        if "c < length [0..<length attrs]" "fill_inv L R attrs ps n i c st" for c st
        using fill_cell_step[OF that(2) _ i wf attrs p om] that(1) by simp
    qed
    then show "\<exists>s'. fill_row om (length attrs) n (concat outs ! i) s = Inr s' \<and> ?P (Suc i) s'"
      by (auto simp: fill_row_def s(1) op fill_inv_def Let_def)
  qed
  then obtain st' where "rfold (fill_row om (length attrs) n) (concat outs) (0, st) = Inr (length ps, st')"
    "fill_inv L R attrs ps n (length ps) 0 st'" by (auto simp: outs)
  then show ?thesis
    by (simp add: fill_outputs_def rfold_concat)
qed

section \<open>What the join computes\<close>

definition buffer_wf :: "column_buffer \<Rightarrow> bool" where
  "buffer_wf b \<longleftrightarrow> columns_wf (cb_num_rows b) (cb_columns b)"

definition buffer_rows :: "column_buffer \<Rightarrow> value_t list list" where
  "buffer_rows b = map (\<lambda>i. map (\<lambda>c. ct_values c ! i) (cb_columns b)) [0..<cb_num_rows b]"

definition join_row :: "column_buffer \<Rightarrow> column_buffer \<Rightarrow> attrs \<Rightarrow> nat \<times> nat \<Rightarrow> value_t list" where
  "join_row left right attrs p =
     map (\<lambda>a. (buffer_rows left ! fst p @ buffer_rows right ! snd p) ! fst a) attrs"

definition key_column :: "column_buffer \<Rightarrow> nat \<Rightarrow> u32 option list" where
  "key_column b col = row_keys (cb_columns b ! col)"

definition buffer_join_pairs ::
    "bool \<Rightarrow> column_buffer \<Rightarrow> column_buffer \<Rightarrow> nat \<Rightarrow> nat \<Rightarrow> (nat \<times> nat) list" where
  "buffer_join_pairs build_left left right left_col right_col =
     (if build_left then join_pairs True (key_column left left_col) (key_column right right_col)
      else join_pairs False (key_column right right_col) (key_column left left_col))"

lemma length_buffer_rows [simp, layout]: "length (buffer_rows b) = cb_num_rows b"
  by (simp add: buffer_rows_def)

lemma columns_wfD: "columns_wf n cs \<Longrightarrow> i < length cs \<Longrightarrow> column_wf (cs ! i) \<and> length (ct_values (cs ! i)) = n"
  by (simp add: columns_wf_def)

lemma join_row_cells:
  assumes "fst p < cb_num_rows left" "snd p < cb_num_rows right"
    and "\<And>a. a \<in> set attrs \<Longrightarrow> fst a < num_cols left + num_cols right"
  shows "join_row left right attrs p = map (\<lambda>a. join_cell (cb_columns left) (cb_columns right) (fst a) p) attrs"
proof -
  have "(buffer_rows left ! fst p @ buffer_rows right ! snd p) ! src = join_cell (cb_columns left) (cb_columns right) src p"
    if "src < num_cols left + num_cols right" for src
  proof (cases "src < num_cols left")
    case False
    then have "src - num_cols left < length (cb_columns right)" using that by (simp add: num_cols_def)
    with False assms(1,2) show ?thesis
      by (simp add: buffer_rows_def join_cell_def nth_append num_cols_def)
  qed (use assms(1,2) in \<open>simp add: buffer_rows_def join_cell_def nth_append num_cols_def\<close>)
  then show ?thesis unfolding join_row_def using assms(3) by simp
qed

lemma rows_of_filled:
  assumes "\<And>col. col < length attrs \<Longrightarrow> plain_column n (filled L R attrs ps col (length ps)) (cs ! col)"
    and "length cs = length attrs"
  shows "buffer_rows \<lparr>cb_columns = cs, cb_num_rows = length ps, cb_types = tys\<rparr> =
      map (\<lambda>p. map (\<lambda>a. join_cell L R (fst a) p) attrs) ps"
    and "columns_wf (length ps) cs" and "\<forall>c \<in> set cs. \<not> ct_is_zero_copy c"
proof -
  show "\<forall>c \<in> set cs. \<not> ct_is_zero_copy c"
    using assms by (auto simp: in_set_conv_nth plain_column_def)
  have vals: "ct_values (cs ! col) = map (join_cell L R (fst (attrs ! col))) ps" "column_wf (cs ! col)"
    if "col < length attrs" for col
    using plain_column_values[OF assms(1)[OF that]] by (auto simp: filled_def)
  show "columns_wf (length ps) cs"
    using vals assms(2) by (auto simp: columns_wf_def in_set_conv_nth)
  show "buffer_rows \<lparr>cb_columns = cs, cb_num_rows = length ps, cb_types = tys\<rparr> =
      map (\<lambda>p. map (\<lambda>a. join_cell L R (fst a) p) attrs) ps"
    using vals assms(2) by (auto simp: buffer_rows_def intro!: nth_equalityI)
qed

lemma prepare_outputs_correct:
  assumes len: "length columns = length attrs" and n: "0 < n"
    and cols: "\<And>c. c \<in> set columns \<Longrightarrow> ct_values_per_page c = n"
  shows "\<exists>columns'. prepare_outputs attrs left_cols tot columns =
      Inr (columns', map (\<lambda>a. output_map left_cols (fst a)) attrs) \<and>
    length columns' = length attrs \<and>
    (\<forall>col < length attrs. plain_column n (replicate tot zero_value) (columns' ! col))"
proof -
  let ?om = "map (\<lambda>a. output_map left_cols (fst a)) attrs"
  let ?P = "\<lambda>i (cs, om). length cs = length attrs \<and> om = take i ?om \<and>
    (\<forall>col < length attrs. if col < i then plain_column n (replicate tot zero_value) (cs ! col)
                          else ct_values_per_page (cs ! col) = n)"
  let ?f = "\<lambda>col (columns, out_map).
        rbind (at columns col) (\<lambda>dst.
        rbind (prepare_column tot dst) (\<lambda>dst.
        rbind (at attrs col) (\<lambda>attr.
          Inr (columns[col := dst], out_map @ [output_map left_cols (fst attr)]))))"
  have "\<exists>s. rfold ?f [0..<length attrs] (columns, []) = Inr s \<and> ?P (length [0..<length attrs]) s"
  proof (rule rfold_invariant[of ?P])
    show "?P 0 (columns, [])" using len cols by simp
    fix i s
    assume i: "i < length [0..<length attrs]" and P: "?P i s"
    obtain cs om where s: "s = (cs, om)" by (cases s)
    have nth: "[0..<length attrs] ! i = i" using i by simp
    have cs: "length cs = length attrs" "om = take i ?om" "ct_values_per_page (cs ! i) = n"
      using P i by (auto simp: s)
    obtain c where c: "prepare_column tot (cs ! i) = Inr c" "plain_column n (replicate tot zero_value) c"
      using prepare_column_correct[of "cs ! i" tot] cs(3) n by auto
    have "?f i s = Inr (cs[i := c], om @ [output_map left_cols (fst (attrs ! i))])"
      using c i cs(1) by (simp add: s)
    moreover have "?P (Suc i) (cs[i := c], om @ [output_map left_cols (fst (attrs ! i))])"
      using P c i cs(1,2) by (auto simp: s nth_list_update take_Suc_conv_app_nth less_Suc_eq)
    ultimately show "\<exists>s'. ?f ([0..<length attrs] ! i) s = Inr s' \<and> ?P (Suc i) s'"
      unfolding nth by blast
  qed
  then obtain cs om where "rfold ?f [0..<length attrs] (columns, []) = Inr (cs, om)" "?P (length attrs) (cs, om)"
    by auto
  then show ?thesis
    by (auto simp: prepare_outputs_def)
qed

lemma mset_map_split: "mset xs = mset (map f ys) \<Longrightarrow> \<exists>zs. mset zs = mset ys \<and> xs = map f zs"
proof (induction xs arbitrary: ys)
  case (Cons x xs)
  have "set (x # xs) = set (map f ys)" using Cons.prems by (rule mset_eq_setD)
  then have "x \<in> f ` set ys" by auto
  then obtain y where y: "y \<in> set ys" "x = f y" by auto
  have ys: "mset ys = add_mset y (mset (remove1 y ys))" using y by simp
  have "add_mset x (mset xs) = image_mset f (mset ys)" using Cons.prems by simp
  then have "mset xs = mset (map f (remove1 y ys))" unfolding ys y(2) by simp
  from Cons.IH[OF this] obtain zs where zs: "mset zs = mset (remove1 y ys)" "xs = map f zs" by blast
  have "mset (y # zs) = mset ys" using zs(1) y(1) by simp
  then show ?case using zs(2) y(2) by (intro exI[of _ "y # zs"]) simp
qed simp

lemma join_pairs_range:
  "p \<in> set (join_pairs bl bks pks) \<Longrightarrow>
   (if bl then fst p < length bks \<and> snd p < length pks else fst p < length pks \<and> snd p < length bks)"
  by (auto simp: join_pairs_def row_pairs_def rows_with_key_def split: option.splits if_splits)

lemma buffer_join_pairs_range:
  assumes "buffer_wf left" "buffer_wf right" "left_col < num_cols left" "right_col < num_cols right"
    and "p \<in> set (buffer_join_pairs bl left right left_col right_col)"
  shows "fst p < cb_num_rows left \<and> snd p < cb_num_rows right"
  using assms join_pairs_range[of p bl]
  by (cases bl) (auto simp: buffer_join_pairs_def key_column_def buffer_wf_def num_cols_def columns_wf_def
      dest!: join_pairs_range)

lemma join_pairs_empty: "key_entries bks = [] \<Longrightarrow> join_pairs bl bks pks = []"
proof -
  assume "key_entries bks = []"
  then have "\<forall>i < length bks. bks ! i = None" by (auto simp: key_entries_def filter_empty_conv)
  then have "rows_with_key bks k = []" for k by (auto simp: rows_with_key_def filter_empty_conv)
  then show ?thesis by (auto simp: join_pairs_def row_pairs_def split: option.split)
qed

text \<open>The output phase on its own: any list of pairs in range is materialised row by row.\<close>

lemma output_phase_correct:
  assumes bufs: "buffer_wf left" "buffer_wf right" "cb_num_rows left \<le> 2 ^ 32" "cb_num_rows right \<le> 2 ^ 32"
    and attrs: "attrs_in (num_cols left) (num_cols right) attrs"
    and ps: "\<And>p. p \<in> set ps \<Longrightarrow> fst p < cb_num_rows left \<and> snd p < cb_num_rows right"
    and outs: "concat outs = map pair32 ps"
    and fresh: "cb_columns results = replicate (length attrs) (column_new 1024)"
  shows "\<exists>columns out_map st.
    prepare_outputs attrs (num_cols left) (length ps) (cb_columns results) = Inr (columns, out_map) \<and>
    fill_outputs out_map (length attrs) (if columns = [] then 1024 else ct_values_per_page (hd columns)) outs
      \<lparr>fs_left = cb_columns left, fs_right = cb_columns right, fs_out = columns\<rparr> = Inr st \<and>
    length (fs_out st) = length attrs \<and> columns_wf (length ps) (fs_out st) \<and>
    (\<forall>c \<in> set (fs_out st). \<not> ct_is_zero_copy c) \<and>
    buffer_rows (results\<lparr>cb_columns := fs_out st, cb_num_rows := length ps\<rparr>) = map (join_row left right attrs) ps"
proof -
  let ?L = "cb_columns left" and ?R = "cb_columns right"
  let ?om = "map (\<lambda>a. output_map (num_cols left) (fst a)) attrs"
  have "\<exists>columns. prepare_outputs attrs (num_cols left) (length ps) (cb_columns results) = Inr (columns, ?om) \<and>
      length columns = length attrs \<and>
      (\<forall>col < length attrs. plain_column 1024 (replicate (length ps) zero_value) (columns ! col))"
    using fresh by (intro prepare_outputs_correct) (auto simp: column_new_def)
  then obtain columns where prep:
    "prepare_outputs attrs (num_cols left) (length ps) (cb_columns results) = Inr (columns, ?om)"
    "length columns = length attrs"
    "\<And>col. col < length attrs \<Longrightarrow> plain_column 1024 (replicate (length ps) zero_value) (columns ! col)"
    by blast
  let ?st = "\<lparr>fs_left = ?L, fs_right = ?R, fs_out = columns\<rparr>"
  have page_sz: "(if columns = [] then 1024 else ct_values_per_page (hd columns)) = 1024"
  proof (cases "columns = []")
    case False
    then have "0 < length attrs" using prep(2) by auto
    from prep(3)[OF this] False show ?thesis by (simp add: plain_column_def hd_conv_nth)
  qed simp
  have start: "fill_inv ?L ?R attrs ps 1024 0 0 ?st"
    using prep by (auto simp: fill_inv_def filled_def list_all2_refl)
  obtain st where fill: "fill_outputs ?om (length attrs) 1024 outs ?st = Inr st"
    "fill_inv ?L ?R attrs ps 1024 (length ps) 0 st"
    using fill_outputs_correct[OF start outs bufs(3,4) bufs(1,2)[unfolded buffer_wf_def]
        attrs[unfolded num_cols_def] ps refl] unfolding num_cols_def by blast
  have out: "length (fs_out st) = length attrs"
    "\<And>col. col < length attrs \<Longrightarrow> plain_column 1024 (filled ?L ?R attrs ps col (length ps)) (fs_out st ! col)"
    using fill(2) by (auto simp: fill_inv_def)
  note rows = rows_of_filled[OF out(2,1)]
  have wf': "columns_wf (length ps) (fs_out st)" and nz: "\<forall>c \<in> set (fs_out st). \<not> ct_is_zero_copy c"
    by (rule rows(2), assumption) (rule rows(3), assumption)
  have "map (\<lambda>p. map (\<lambda>a. join_cell ?L ?R (fst a) p) attrs) ps = map (join_row left right attrs) ps"
    using attrs ps by (intro map_cong refl) (auto simp: join_row_cells attrs_in_def)
  then have "buffer_rows (results\<lparr>cb_columns := fs_out st, cb_num_rows := length ps\<rparr>) = map (join_row left right attrs) ps"
    using rows(1)[of "cb_types results"] by (simp add: buffer_rows_def)
  then show ?thesis
    using prep(1) fill(1) out(1) wf' nz unfolding page_sz
    by (intro exI[of _ columns] exI[of _ ?om] exI[of _ st]) (simp only: page_sz simp_thms)
qed

lemma fresh_buffer:
  assumes "cb_columns results = replicate m (column_new 1024)" "cb_num_rows results = 0"
  shows "buffer_wf results \<and> buffer_rows results = [] \<and> num_cols results = m \<and>
    (\<forall>c \<in> set (cb_columns results). \<not> ct_is_zero_copy c)"
  using assms column_new_wf[of 1024] by (auto simp: buffer_wf_def columns_wf_def buffer_rows_def num_cols_def column_new_def)

text \<open>The hypotheses of a join: well-formed inputs, attributes and key columns in range.\<close>

definition join_inputs_ok :: "column_buffer \<Rightarrow> column_buffer \<Rightarrow> nat \<Rightarrow> nat \<Rightarrow> attrs \<Rightarrow> bool" where
  "join_inputs_ok left right left_col right_col attrs \<longleftrightarrow>
     buffer_wf left \<and> buffer_wf right \<and> cb_num_rows left < 2 ^ 32 \<and> cb_num_rows right < 2 ^ 32 \<and>
     left_col < num_cols left \<and> right_col < num_cols right \<and>
     attrs_in (num_cols left) (num_cols right) attrs"

definition threads_ok :: "join_env \<Rightarrow> engine \<Rightarrow> nat \<Rightarrow> bool" where
  "threads_ok env en probe_n \<longleftrightarrow>
     probe_nthreads env probe_n < 2 ^ 32 \<and> fair_schedule env (en_join_no en) probe_n"

definition join_telemetry ::
    "join_env \<Rightarrow> column_t \<Rightarrow> nat \<Rightarrow> nat \<Rightarrow> nat \<Rightarrow> telemetry \<Rightarrow> telemetry" where
  "join_telemetry env build_col probe_n out_n cols t =
     (if join_telemetry_enabled (je_join_telemetry env) \<and> 0 < out_n
      then qt_add_join (of_nat (effective_rows build_col)) (of_nat probe_n) (of_nat out_n) (of_nat cols) t
      else t)"

text \<open>The result of a join: the projected pairs in some order, in the order of the probe with one thread.\<close>

definition join_result ::
    "join_env \<Rightarrow> bool \<Rightarrow> column_buffer \<Rightarrow> column_buffer \<Rightarrow> nat \<Rightarrow> nat \<Rightarrow> attrs \<Rightarrow> column_buffer \<Rightarrow> bool" where
  "join_result env bl left right left_col right_col attrs res \<longleftrightarrow>
     (let ps = buffer_join_pairs bl left right left_col right_col;
          probe_n = cb_num_rows (if bl then right else left)
      in buffer_wf res \<and> num_cols res = length attrs \<and> (\<forall>c \<in> set (cb_columns res). \<not> ct_is_zero_copy c) \<and>
         mset (buffer_rows res) = mset (map (join_row left right attrs) ps) \<and>
         (probe_nthreads env probe_n = 1 \<longrightarrow> buffer_rows res = map (join_row left right attrs) ps))"

context join_table begin

lemma run_int32_correct:
  assumes ok: "join_inputs_ok left right left_col right_col attrs"
    and threads: "threads_ok env en (cb_num_rows (if bl then right else left))"
    and fits: "fits (key_entries (if bl then key_column left left_col else key_column right right_col))"
    and fresh: "cb_columns results = replicate (length attrs) (column_new 1024)" "cb_num_rows results = 0"
  shows "(\<exists>e \<in> failures. run_int32 vt env bl left right results left_col right_col attrs en = Inl e) \<or>
    (\<exists>res en'. run_int32 vt env bl left right results left_col right_col attrs en = Inr (res, en') \<and>
    cb_types res = cb_types results \<and> join_result env bl left right left_col right_col attrs res \<and>
    en_telemetry en' = join_telemetry env (if bl then cb_columns left ! left_col else cb_columns right ! right_col)
      (cb_num_rows (if bl then right else left)) (cb_num_rows res) (length attrs) (en_telemetry en))"
proof -
  let ?bbuf = "if bl then left else right" and ?pbuf = "if bl then right else left"
  let ?bc = "if bl then left_col else right_col" and ?pc = "if bl then right_col else left_col"
  let ?bcol = "cb_columns ?bbuf ! ?bc" and ?pcol = "cb_columns ?pbuf ! ?pc"
  let ?jps = "buffer_join_pairs bl left right left_col right_col"
  note I = ok[unfolded join_inputs_ok_def]
  have cols: "?bc < length (cb_columns ?bbuf)" "?pc < length (cb_columns ?pbuf)"
    using I by (auto simp: num_cols_def)
  have wf: "column_wf ?bcol" "cb_num_rows ?bbuf = length (ct_values ?bcol)"
      "column_wf ?pcol" "cb_num_rows ?pbuf = length (ct_values ?pcol)"
    using I columns_wfD[OF _ cols(1)] columns_wfD[OF _ cols(2)]
    by (auto simp: buffer_wf_def split: if_splits)
  have jps: "?jps = join_pairs bl (row_keys ?bcol) (row_keys ?pcol)"
    by (simp add: buffer_join_pairs_def key_column_def)
  have fits': "fits (key_entries (row_keys ?bcol))" using fits by (simp add: key_column_def split: if_splits)
  have empty: ?thesis (is "_ \<or> ?ok")
    if "run_int32 vt env bl left right results left_col right_col attrs en = Inr (results, en')"
      "en_telemetry en' = en_telemetry en" "?jps = []" for en'
    using that fresh_buffer[OF fresh] fresh(2) by (intro disjI2) (simp add: join_result_def join_telemetry_def Let_def)
  from build_phase_correct[OF wf(1,2) fits'] show ?thesis
  proof (elim disjE conjE exE bexE)
    fix e assume "e \<in> failures" "build_phase vt ?bcol (cb_num_rows ?bbuf) = Inl e"
    then show ?thesis using cols by (intro disjI1 bexI[of _ e]) (simp_all add: run_int32_def Let_def)
  next
    assume "build_phase vt ?bcol (cb_num_rows ?bbuf) = Inr None" "key_entries (row_keys ?bcol) = []"
    then show ?thesis
      using cols join_pairs_empty[of "row_keys ?bcol" bl "row_keys ?pcol"] jps
      by (intro empty[of en]) (simp_all add: run_int32_def Let_def)
  next
    fix t
    assume build: "build_phase vt ?bcol (cb_num_rows ?bbuf) = Inr (Some (t, effective_rows ?bcol))"
      and t: "indexes t (key_entries (row_keys ?bcol))"
    have small: "cb_num_rows ?pbuf \<le> 2 ^ 32" using I by auto
    obtain outs where outs: "probe_phase vt env (en_join_no en) bl t ?pcol (cb_num_rows ?pbuf) = Inr outs"
      "mset (concat outs) = mset (map pair32 ?jps)"
      "probe_nthreads env (cb_num_rows ?pbuf) = 1 \<longrightarrow> concat outs = map pair32 ?jps"
      using probe_phase_correct[OF wf(3) t wf(4) small, of env "en_join_no en" bl] threads jps
      by (auto simp: threads_ok_def)
    have "\<exists>ps. mset ps = mset ?jps \<and> concat outs = map pair32 ps \<and>
        (probe_nthreads env (cb_num_rows ?pbuf) = 1 \<longrightarrow> ps = ?jps)"
      using mset_map_split[OF outs(2)] outs(3) by blast
    then obtain ps where ps: "mset ps = mset ?jps" "concat outs = map pair32 ps"
      "probe_nthreads env (cb_num_rows ?pbuf) = 1 \<longrightarrow> ps = ?jps"
      by blast
    have tot: "sum_list (map length outs) = length ps"
      using arg_cong[OF ps(2), of length] by (simp add: length_concat)
    let ?en1 = "en\<lparr>en_join_no := en_join_no en + 1\<rparr>"
    show ?thesis
    proof (cases "ps = []")
      case True
      then have "?jps = []" using ps(1) by simp
      then show ?thesis
        using cols build outs(1) tot True
        by (intro empty[of ?en1]) (simp_all add: run_int32_def Let_def)
    next
      case False
      have range: "fst p < cb_num_rows left \<and> snd p < cb_num_rows right" if "p \<in> set ps" for p
        using that buffer_join_pairs_range[of left right left_col right_col p bl] I mset_eq_setD[OF ps(1)] by auto
      obtain columns om st where out:
        "prepare_outputs attrs (num_cols left) (length ps) (cb_columns results) = Inr (columns, om)"
        "fill_outputs om (length attrs) (if columns = [] then 1024 else ct_values_per_page (hd columns)) outs
          \<lparr>fs_left = cb_columns left, fs_right = cb_columns right, fs_out = columns\<rparr> = Inr st"
        "length (fs_out st) = length attrs" "columns_wf (length ps) (fs_out st)"
        "\<forall>c \<in> set (fs_out st). \<not> ct_is_zero_copy c"
        "buffer_rows (results\<lparr>cb_columns := fs_out st, cb_num_rows := length ps\<rparr>) = map (join_row left right attrs) ps"
        using output_phase_correct[OF _ _ _ _ _ range ps(2) fresh(1)] I by auto
      let ?res = "results\<lparr>cb_columns := fs_out st, cb_num_rows := length ps\<rparr>"
      let ?en2 = "if join_telemetry_enabled (je_join_telemetry env)
                  then ?en1\<lparr>en_telemetry := qt_add_join (of_nat (effective_rows ?bcol)) (of_nat (cb_num_rows ?pbuf))
                         (of_nat (length ps)) (of_nat (length attrs)) (en_telemetry ?en1)\<rparr> else ?en1"
      have "run_int32 vt env bl left right results left_col right_col attrs en = Inr (?res, ?en2)"
        unfolding run_int32_def Let_def
        by (simp only: at_simps[OF cols(1)] at_simps[OF cols(2)] rbind_simps build outs(1) option.case prod.case
            tot length_0_conv False if_False out(1,2) engine.simps)
      moreover have "join_result env bl left right left_col right_col attrs ?res"
      proof -
        have "mset (map (join_row left right attrs) ps) = mset (map (join_row left right attrs) ?jps)"
          using ps(1) by simp
        then show ?thesis
          using out(3-6) ps(3) by (simp add: join_result_def Let_def buffer_wf_def num_cols_def)
      qed
      ultimately show ?thesis
        using False by (intro disjI2 exI[of _ ?res] exI[of _ ?en2]) (simp add: join_telemetry_def)
    qed
  qed
qed

end

section \<open>The pairs as a relation\<close>

lemma row_pairs_set:
  "set (row_pairs bl bks pks j) =
     {p. \<exists>i < length bks. pks ! j \<noteq> None \<and> bks ! i = pks ! j \<and> p = (if bl then (i, j) else (j, i))}"
  by (cases "pks ! j") (auto simp: row_pairs_def rows_with_key_def)

lemma join_pairs_set:
  "set (join_pairs bl bks pks) =
     {p. \<exists>i < length bks. \<exists>j < length pks. pks ! j \<noteq> None \<and> bks ! i = pks ! j \<and> p = (if bl then (i, j) else (j, i))}"
  by (auto simp: join_pairs_def row_pairs_set)

lemma distinct_concat_keyed:
  assumes "distinct js" "\<And>j. j \<in> set js \<Longrightarrow> distinct (f j)" "\<And>j p. p \<in> set (f j) \<Longrightarrow> g p = j"
  shows "distinct (concat (map f js))"
  using assms(1,2)
proof (induction js)
  case (Cons j js)
  have "j = k" if "p \<in> set (f j)" "p \<in> set (f k)" for p k
    using assms(3)[OF that(1)] assms(3)[OF that(2)] by simp
  then have "set (f j) \<inter> set (concat (map f js)) = {}" using Cons.prems(1) by auto
  with Cons show ?case by simp
qed simp

lemma join_pairs_distinct: "distinct (join_pairs bl bks pks)"
  unfolding join_pairs_def
proof (rule distinct_concat_keyed)
  show "distinct (row_pairs bl bks pks j)" for j
    by (cases "pks ! j") (auto simp: row_pairs_def rows_with_key_def distinct_map inj_on_def)
  show "(if bl then snd p else fst p) = j" if "p \<in> set (row_pairs bl bks pks j)" for j p
    using that by (auto simp: row_pairs_set)
qed simp

lemma buffer_join_pairs_set:
  "set (buffer_join_pairs bl left right lc rc) =
     {(l, r). l < length (key_column left lc) \<and> r < length (key_column right rc) \<and>
        key_column left lc ! l = key_column right rc ! r \<and> key_column left lc ! l \<noteq> None}"
proof -
  have some: "\<exists>y. x = Some y" if "Some z = x" for x :: "u32 option" and z using that by (metis that)
  show ?thesis by (cases bl) (auto simp: buffer_join_pairs_def join_pairs_set intro: some)
qed

lemma buffer_join_pairs_distinct: "distinct (buffer_join_pairs bl left right lc rc)"
  by (simp add: buffer_join_pairs_def join_pairs_distinct)

lemma length_key_column:
  "buffer_wf b \<Longrightarrow> col < num_cols b \<Longrightarrow> length (key_column b col) = cb_num_rows b"
  by (auto simp: key_column_def buffer_wf_def num_cols_def dest: columns_wfD)

section \<open>Properties\<close>

text \<open>Two small buffers: keys 7, NULL, 9 on the left; keys 9, 7, 9 with a payload column on the right.\<close>

definition example_column :: "value_t list \<Rightarrow> column_t" where
  "example_column vs = (column_new 1024)\<lparr>ct_pages := [vs], ct_num_values := length vs\<rparr>"

definition example_left :: column_buffer where
  "example_left = \<lparr>cb_columns = [example_column [make_i32 7, make_null, make_i32 9]], cb_num_rows = 3,
                   cb_types = [INT32]\<rparr>"

definition example_right :: column_buffer where
  "example_right = \<lparr>cb_columns = [example_column [make_i32 9, make_i32 7, make_i32 9],
                                  example_column [make_i32 1, make_i32 2, make_i32 3]], cb_num_rows = 3,
                    cb_types = [INT32, INT32]\<rparr>"

definition example_attrs :: attrs where
  "example_attrs = [(2, INT32), (0, INT32)]"

definition example_env :: join_env where
  "example_env = \<lparr>je_hardware_concurrency = 8, je_force_threads = None, je_join_telemetry = None,
                  je_schedule = (\<lambda>n. [])\<rparr>"

definition example_engine :: engine where
  "example_engine = \<lparr>en_join_no = 0,
     en_telemetry = \<lparr>tl_query_seq = 0, tl_qt = qt_empty, tl_query_id = 0\<rparr>\<rparr>"

lemma example_column_wf:
  "vs \<noteq> [] \<Longrightarrow> length vs \<le> 1024 \<Longrightarrow> column_wf (example_column vs) \<and> ct_values (example_column vs) = vs"
  by (simp add: example_column_def column_new_def column_wf_def ct_values_def pages_wf_def)

lemma example_inputs: "join_inputs_ok example_left example_right 0 0 example_attrs"
  using example_column_wf
  by (simp add: join_inputs_ok_def buffer_wf_def columns_wf_def example_left_def example_right_def
      num_cols_def attrs_in_def example_attrs_def)

lemma example_threads: "threads_ok example_env example_engine 3"
  by (simp add: threads_ok_def fair_schedule_def probe_nthreads_def forced_threads_def example_env_def Let_def)

lemma example_keys:
  "key_column example_left 0 = [Some 7, None, Some 9]" "key_column example_right 0 = [Some 9, Some 7, Some 9]"
  using example_column_wf
  by (simp_all add: key_column_def row_keys_def example_left_def example_right_def can_build_from_pages_def
      is_null_make_i32 example_column_def column_new_def ct_values_def)

text \<open>C6. The join computes the inner equi-join: on well-formed inputs, with any number of threads
  and any complete interleaving, \<open>run_int32\<close> over the default hash table succeeds and its result
  holds one row for each pair of a left and a right row with the same non-NULL key, no pair twice
  and no other pair, projected to the output attributes.\<close>

theorem run_int32_equijoin:
  assumes "join_inputs_ok left right left_col right_col attrs"
    and "threads_ok env en (cb_num_rows (if bl then right else left))"
  shows "\<exists>res en' ps.
    run_int32 unchained_wrapper env bl left right
      (fresh_results attrs) left_col right_col attrs en = Inr (res, en') \<and>
    cb_types res = map snd attrs \<and> buffer_wf res \<and> distinct ps \<and>
    set ps = {(l, r). l < cb_num_rows left \<and> r < cb_num_rows right \<and>
                key_column left left_col ! l = key_column right right_col ! r \<and>
                key_column left left_col ! l \<noteq> None} \<and>
    buffer_rows res = map (join_row left right attrs) ps"
proof -
  let ?results = "fresh_results attrs"
  let ?ks = "if bl then key_column left left_col else key_column right right_col"
  have wf: "buffer_wf left" "buffer_wf right" "left_col < num_cols left" "right_col < num_cols right"
    "cb_num_rows left < 2 ^ 32" "cb_num_rows right < 2 ^ 32"
    using assms(1) by (auto simp: join_inputs_ok_def)
  have "length (key_entries ?ks) < 2 ^ 32"
    using length_key_entries[of ?ks] wf by (auto simp: length_key_column split: if_splits)
  then obtain res en' where run:
    "run_int32 unchained_wrapper env bl left right ?results left_col right_col attrs en = Inr (res, en')"
    "cb_types res = map snd attrs" "join_result env bl left right left_col right_col attrs res"
    using unchained.run_int32_correct[OF assms, of ?results] by (auto simp: fresh_results_def buffer_new_def)
  then have "mset (buffer_rows res) =
      mset (map (join_row left right attrs) (buffer_join_pairs bl left right left_col right_col))"
    and res: "buffer_wf res" by (auto simp: join_result_def Let_def)
  then obtain ps where ps: "mset ps = mset (buffer_join_pairs bl left right left_col right_col)"
    "buffer_rows res = map (join_row left right attrs) ps" using mset_map_split by blast
  have "distinct ps" using mset_eq_imp_distinct_iff[OF ps(1)] buffer_join_pairs_distinct by blast
  with run(1,2) res ps(2) mset_eq_setD[OF ps(1)] wf show ?thesis
    by (intro exI[of _ res] exI[of _ en'] exI[of _ ps]) (simp add: buffer_join_pairs_set length_key_column)
qed

lemma run_int32_equijoin_witness:
  "\<exists>res en' ps.
    run_int32 unchained_wrapper example_env True example_left example_right
      (fresh_results example_attrs) 0 0 example_attrs example_engine = Inr (res, en') \<and>
    distinct ps \<and> set ps = {(0, 1), (2, 0), (2, 2)} \<and>
    buffer_rows res = map (join_row example_left example_right example_attrs) ps"
proof -
  have "cb_num_rows example_left = 3" "cb_num_rows example_right = 3"
    by (simp_all add: example_left_def example_right_def)
  moreover have "{(l, r). l < 3 \<and> r < 3 \<and>
      [Some 7, None, Some 9] ! l = [Some 9, Some 7, Some (9 :: u32)] ! r \<and>
      [Some 7, None, Some (9 :: u32)] ! l \<noteq> None} = {(0, 1), (2, 0), (2, 2)}"
    by (auto simp: less_Suc_eq numeral_3_eq_3)
  moreover have "map snd example_attrs = [INT32, INT32]" "length example_attrs = 2"
    by (simp_all add: example_attrs_def)
  ultimately show ?thesis
    using run_int32_equijoin[OF example_inputs, of example_env example_engine True] example_threads
    by (simp add: example_keys) blast
qed

text \<open>C8. With one worker thread the output order is determined: rows appear in the order of the
  probe side, and for one probe row in the order of the build side. Telemetry, when enabled and
  the result is not empty, records the entries built, the rows probed and the rows produced.\<close>

theorem run_int32_serial_order:
  assumes "join_inputs_ok left right left_col right_col attrs"
    and "threads_ok env en (cb_num_rows (if bl then right else left))"
    and "probe_nthreads env (cb_num_rows (if bl then right else left)) = 1"
  shows "\<exists>res en'.
    run_int32 unchained_wrapper env bl left right
      (fresh_results attrs) left_col right_col attrs en = Inr (res, en') \<and>
    buffer_rows res =
      concat (map (\<lambda>j. map (join_row left right attrs)
          (if bl then map (\<lambda>i. (i, j)) (filter (\<lambda>i. key_column right right_col ! j \<noteq> None \<and>
                         key_column left left_col ! i = key_column right right_col ! j) [0..<cb_num_rows left])
           else map (\<lambda>i. (j, i)) (filter (\<lambda>i. key_column left left_col ! j \<noteq> None \<and>
                         key_column right right_col ! i = key_column left left_col ! j) [0..<cb_num_rows right])))
        [0..<cb_num_rows (if bl then right else left)]) \<and>
    en_telemetry en' = join_telemetry env (if bl then cb_columns left ! left_col else cb_columns right ! right_col)
      (cb_num_rows (if bl then right else left)) (cb_num_rows res) (length attrs) (en_telemetry en)"
proof -
  let ?results = "fresh_results attrs"
  let ?ks = "if bl then key_column left left_col else key_column right right_col"
  have wf: "buffer_wf left" "buffer_wf right" "left_col < num_cols left" "right_col < num_cols right"
    "cb_num_rows left < 2 ^ 32" "cb_num_rows right < 2 ^ 32"
    using assms(1) by (auto simp: join_inputs_ok_def)
  have "length (key_entries ?ks) < 2 ^ 32"
    using length_key_entries[of ?ks] wf by (auto simp: length_key_column split: if_splits)
  then obtain res en' where run:
    "run_int32 unchained_wrapper env bl left right ?results left_col right_col attrs en = Inr (res, en')"
    "join_result env bl left right left_col right_col attrs res"
    "en_telemetry en' = join_telemetry env (if bl then cb_columns left ! left_col else cb_columns right ! right_col)
      (cb_num_rows (if bl then right else left)) (cb_num_rows res) (length attrs) (en_telemetry en)"
    using unchained.run_int32_correct[OF assms(1,2), of ?results] by (auto simp: fresh_results_def buffer_new_def)
  then have rows: "buffer_rows res = map (join_row left right attrs) (buffer_join_pairs bl left right left_col right_col)"
    using assms(3) by (simp add: join_result_def Let_def)
  have pairs: "row_pairs b bks pks j =
      map (\<lambda>i. if b then (i, j) else (j, i)) (filter (\<lambda>i. pks ! j \<noteq> None \<and> bks ! i = pks ! j) [0..<length bks])"
    for b bks pks j
    by (cases "pks ! j") (simp_all add: row_pairs_def rows_with_key_def)
  show ?thesis
    using run(1,3) rows wf
    by (intro exI[of _ res] exI[of _ en'])
      (cases bl; simp add: buffer_join_pairs_def join_pairs_def pairs length_key_column map_concat comp_def)
qed

lemma run_int32_serial_order_witness:
  "\<exists>res en'. run_int32 unchained_wrapper example_env True example_left example_right
      (fresh_results example_attrs) 0 0 example_attrs example_engine = Inr (res, en') \<and>
    buffer_rows res = [[make_i32 1, make_i32 9], [make_i32 2, make_i32 7], [make_i32 3, make_i32 9]]"
proof -
  have one: "probe_nthreads example_env 3 = 1"
    by (simp add: probe_nthreads_def forced_threads_def example_env_def)
  have rows: "cb_num_rows example_left = 3" "cb_num_rows example_right = 3"
    by (simp_all add: example_left_def example_right_def)
  have attrs: "map snd example_attrs = [INT32, INT32]" "length example_attrs = 2"
    by (simp_all add: example_attrs_def)
  have cells: "buffer_rows example_left = [[make_i32 7], [make_null], [make_i32 9]]"
    "buffer_rows example_right = [[make_i32 9, make_i32 1], [make_i32 7, make_i32 2], [make_i32 9, make_i32 3]]"
    by (simp_all add: buffer_rows_def example_left_def example_right_def example_column_def column_new_def
        ct_values_def upt_rec)
  show ?thesis
    using run_int32_serial_order[OF example_inputs, of example_env example_engine True] example_threads one
    by (simp add: example_keys rows attrs upt_rec join_row_def cells) (auto simp: example_attrs_def)
qed

end
