(* ===== verification/Scan.thy ===== *)
theory Scan
  imports ColumnStore Plans
begin

text \<open>
  Scans (\<open>src/late_materialization.cpp\<close>): the NULL test on the bitmaps of an INT32 column, and
  \<open>scan_columnar_to_columnbuffer\<close>, which turns the columns of an input table into intermediate
  columns, zero-copy for INT32 without NULLs, materialised otherwise (values for INT32, packed
  references for VARCHAR). \<open>page_int32_rows\<close> is what an INT32 page stores; the lemmas show that
  both paths produce it.
\<close>

section \<open>The NULL test\<close>

definition page_has_nulls :: "page \<Rightarrow> bool" where
  "page_has_nulls page =
     (let num_rows = page_num_rows page;
          bitmap_bytes = (num_rows + 7) div 8;
          bitmap = (\<lambda>i. page (PAGE_SIZE - bitmap_bytes + i))
      in list_ex (\<lambda>i.
           let expected = (if i = bitmap_bytes - 1 \<and> num_rows mod 8 \<noteq> 0
                           then push_bit (num_rows mod 8) 1 - 1 else 0xFF :: u8)
           in bitmap i AND expected \<noteq> expected) [0..<bitmap_bytes])"

definition column_has_nulls :: "column \<Rightarrow> bool" where
  "column_has_nulls column =
     (if col_type column \<noteq> INT32 then True
      else if col_pages column = [] then False
      else list_ex page_has_nulls (col_pages column))"

section \<open>The scan\<close>

definition scan_zero_copy :: "nat \<Rightarrow> column \<Rightarrow> column_t \<Rightarrow> column_t" where
  "scan_zero_copy num_rows column out_col =
     (let out_col = out_col\<lparr>ct_is_zero_copy := True, ct_src_column := Some column, ct_num_values := num_rows,
                            ct_page_offsets := ct_page_offsets out_col @ [0]\<rparr>;
          (cumulative, offsets) =
            fold (\<lambda>page (cumulative, offsets).
                let cumulative = cumulative + page_num_rows page in (cumulative, offsets @ [cumulative]))
              (col_pages column) (0, ct_page_offsets out_col)
      in out_col\<lparr>ct_page_offsets := offsets\<rparr>)"

definition scan_int32_page :: "page \<Rightarrow> column_t \<Rightarrow> column_t" where
  "scan_int32_page page out_col =
     snd (fold (\<lambda>i (data_idx :: u16, out_col).
            if get_bitmap (page_bitmap page) i
            then (data_idx + 1, column_append (make_i32 (page_int32 page (unat data_idx))) out_col)
            else (data_idx, column_append make_null out_col))
          [0..<page_num_rows page] (0, out_col))"

definition scan_varchar_page :: "nat \<Rightarrow> nat \<Rightarrow> nat \<Rightarrow> page \<Rightarrow> column_t \<Rightarrow> column_t" where
  "scan_varchar_page table_id in_col_idx page_idx page out_col =
     (let n = page_num_rows page; mk = make_str_ref (of_nat table_id) (of_nat in_col_idx) (of_nat page_idx)
      in if n = 0xffff then column_append (mk 0xffff) out_col
         else if n = 0xfffe then out_col
         else snd (fold (\<lambda>i (data_idx :: u16, out_col).
                if get_bitmap (page_bitmap page) i
                then (data_idx + 1, column_append (mk data_idx) out_col)
                else (data_idx, column_append make_null out_col))
              [0..<n] (0, out_col)))"

definition scan_materialize :: "nat \<Rightarrow> nat \<Rightarrow> column \<Rightarrow> column_t \<Rightarrow> column_t" where
  "scan_materialize table_id in_col_idx column out_col =
     fold (\<lambda>page_idx out_col.
        let page = col_pages column ! page_idx
        in case col_type column of
             INT32 \<Rightarrow> scan_int32_page page out_col
           | VARCHAR \<Rightarrow> scan_varchar_page table_id in_col_idx page_idx page out_col
           | _ \<Rightarrow> out_col)
       [0..<length (col_pages column)] out_col"

definition scan_column :: "nat \<Rightarrow> nat \<Rightarrow> nat \<Rightarrow> column \<Rightarrow> column_t \<Rightarrow> column_t" where
  "scan_column table_id in_col_idx num_rows column out_col =
     (if col_type column = INT32 \<and> \<not> column_has_nulls column
      then scan_zero_copy num_rows column out_col
      else scan_materialize table_id in_col_idx column out_col)"

definition scan_columnar_to_columnbuffer :: "plan \<Rightarrow> scan_node \<Rightarrow> attrs \<Rightarrow> column_buffer res" where
  "scan_columnar_to_columnbuffer plan scan output_attrs =
     (let table_id = sn_base_table_id scan
      in rbind (at (pl_inputs plan) table_id) (\<lambda>input_columnar.
         let buf = (buffer_new (length output_attrs) (tbl_num_rows input_columnar))\<lparr>cb_types := map snd output_attrs\<rparr>
         in rfold (\<lambda>col_idx buf.
              let in_col_idx = fst (output_attrs ! col_idx)
              in rbind (at (tbl_columns input_columnar) in_col_idx) (\<lambda>column.
                 rbind (at (cb_columns buf) col_idx) (\<lambda>out_col.
                   Inr (buf\<lparr>cb_columns := (cb_columns buf)[col_idx :=
                          scan_column table_id in_col_idx (tbl_num_rows input_columnar) column out_col]\<rparr>))))
            [0..<length output_attrs] buf))"

section \<open>What a page stores\<close>

text \<open>Values are stored densely: the value of a valid row is at the number of valid rows before it.\<close>

definition valid_rank :: "(nat \<Rightarrow> bool) \<Rightarrow> nat \<Rightarrow> nat" where
  "valid_rank valid i = length (filter valid [0..<i])"

definition page_valid :: "page \<Rightarrow> nat \<Rightarrow> bool" where
  "page_valid page i = get_bitmap (page_bitmap page) i"

definition page_rows :: "(page \<Rightarrow> nat \<Rightarrow> 'a) \<Rightarrow> page \<Rightarrow> 'a option list" where
  "page_rows value page =
     map (\<lambda>i. if page_valid page i then Some (value page (valid_rank (page_valid page) i)) else None)
       [0..<page_num_rows page]"

definition column_int32_rows :: "column \<Rightarrow> u32 option list" where
  "column_int32_rows column = concat (map (page_rows page_int32) (col_pages column))"

definition int32_value :: "u32 option \<Rightarrow> value_t" where
  "int32_value x = (case x of None \<Rightarrow> make_null | Some v \<Rightarrow> make_i32 v)"

lemma valid_rank_Suc: "valid_rank valid (Suc i) = valid_rank valid i + (if valid i then 1 else 0)"
  by (simp add: valid_rank_def)

lemma valid_rank_le: "valid_rank valid i \<le> i"
  by (simp add: valid_rank_def) (metis diff_zero length_filter_le length_upt)

lemma valid_rank_all: "(\<And>j. j < i \<Longrightarrow> valid j) \<Longrightarrow> valid_rank valid i = i"
  by (simp add: valid_rank_def)

lemma valid_rank_mono: "i \<le> j \<Longrightarrow> valid_rank valid i \<le> valid_rank valid j"
  by (induction j) (auto simp: valid_rank_Suc le_Suc_eq)

lemma valid_rank_less: "valid i \<Longrightarrow> i < j \<Longrightarrow> valid_rank valid i < valid_rank valid j"
  using valid_rank_mono[of "Suc i" j valid] by (simp add: valid_rank_Suc)

lemma length_page_rows [simp, layout]: "length (page_rows value page) = page_num_rows page"
  by (simp add: page_rows_def)

section \<open>The NULL test is exact\<close>

lemma u8_and_mask:
  assumes "k \<le> 8"
  shows "w AND (mask k :: u8) = mask k \<longleftrightarrow> (\<forall>j < k. bit w j)"
proof
  assume *: "w AND mask k = mask k"
  show "\<forall>j < k. bit w j"
  proof (intro allI impI)
    fix j assume "j < k"
    then have "bit (w AND mask k) j" unfolding * using assms by (simp add: bit_mask_iff)
    then show "bit w j" unfolding bit_and_iff by blast
  qed
next
  assume *: "\<forall>j < k. bit w j"
  show "w AND mask k = mask k"
  proof (rule word_eq_bitsI)
    fix i show "bit (w AND mask k) i = bit (mask k :: u8) i"
      unfolding bit_and_iff bit_mask_iff using * by blast
  qed
qed

lemma ex_upt: "(\<exists>i \<in> set [0..<n]. P i) \<longleftrightarrow> (\<exists>i < n. P i)"
  by auto

lemma bitmap_bytes: "(n + 7) div 8 = (if n mod 8 = 0 then n div 8 else n div 8 + 1)" for n :: nat
  by presburger

lemma page_has_nulls_iff: "page_has_nulls page \<longleftrightarrow> (\<exists>i < page_num_rows page. \<not> page_valid page i)"
proof -
  let ?n = "page_num_rows page" and ?b = "(page_num_rows page + 7) div 8"
  let ?bits = "\<lambda>i. if i = ?b - 1 \<and> ?n mod 8 \<noteq> 0 then ?n mod 8 else 8"
  have mask: "(if i = ?b - 1 \<and> ?n mod 8 \<noteq> 0 then push_bit (?n mod 8) 1 - 1 else 0xFF :: u8) = mask (?bits i)" for i
    by (simp add: mask_eq_exp_minus_1 push_bit_eq_mult del: push_bit_of_1)
  have small: "?bits i \<le> 8" for i by auto
  have rows: "8 * i + j < ?n \<longleftrightarrow> j < ?bits i" if "i < ?b" "j < 8" for i j
  proof (cases "i = ?b - 1 \<and> ?n mod 8 \<noteq> 0")
    case True
    have n: "8 * (?n div 8) + ?n mod 8 = ?n" by simp
    have "?b = ?n div 8 + 1" using True bitmap_bytes[of ?n] by simp
    then have "8 * i + ?n mod 8 = ?n" using True n by simp
    then show ?thesis using True by auto
  next
    case False
    have "8 * i + 8 \<le> ?n"
    proof (cases "?n mod 8 = 0")
      case True
      then obtain m where "?n = 8 * m" by (metis mod_0_imp_dvd dvdE)
      then show ?thesis using that(1) by simp
    next
      case ne: False
      have "8 * (?n div 8) \<le> ?n" by simp
      moreover have "i + 1 < ?b" using False ne that(1) by linarith
      then have "i < ?n div 8" using bitmap_bytes[of ?n] ne by simp
      ultimately show ?thesis by linarith
    qed
    then show ?thesis using False that(2) by auto
  qed
  have "page_has_nulls page \<longleftrightarrow> (\<exists>i < ?b. \<not> (\<forall>j < ?bits i. bit (page_bitmap page i) j))"
    unfolding page_has_nulls_def Let_def mask u8_and_mask[OF small] list_ex_iff page_bitmap_def
    by (rule ex_upt)
  also have "\<dots> \<longleftrightarrow> (\<exists>i < ?n. \<not> page_valid page i)"
  proof
    assume "\<exists>i < ?b. \<not> (\<forall>j < ?bits i. bit (page_bitmap page i) j)"
    then obtain i j where ij: "i < ?b" "j < ?bits i" "\<not> bit (page_bitmap page i) j" by blast
    then have "j < 8" using small[of i] by linarith
    then have "8 * i + j < ?n" "\<not> page_valid page (8 * i + j)"
      using rows ij by (auto simp: page_valid_def get_bitmap_bit)
    then show "\<exists>i < ?n. \<not> page_valid page i" by blast
  next
    assume "\<exists>i < ?n. \<not> page_valid page i"
    then obtain r where r: "r < ?n" "\<not> page_valid page r" by blast
    have "r div 8 < ?b" "8 * (r div 8) + r mod 8 < ?n" using r(1) by auto
    then have "r mod 8 < ?bits (r div 8)" using rows[of "r div 8" "r mod 8"] by simp
    then show "\<exists>i < ?b. \<not> (\<forall>j < ?bits i. bit (page_bitmap page i) j)"
      using r(2) \<open>r div 8 < ?b\<close> unfolding page_valid_def get_bitmap_bit by blast
  qed
  finally show ?thesis .
qed

lemma column_has_nulls_iff:
  "col_type c = INT32 \<Longrightarrow>
   column_has_nulls c \<longleftrightarrow> (\<exists>p \<in> set (col_pages c). \<exists>i < page_num_rows p. \<not> page_valid p i)"
  by (auto simp: column_has_nulls_def list_ex_iff page_has_nulls_iff)

section \<open>Materialised columns\<close>

lemma column_append_list:
  assumes "column_wf c" "\<not> ct_is_zero_copy c"
  shows "column_wf (fold column_append vs c) \<and> ct_values (fold column_append vs c) = ct_values c @ vs \<and>
    \<not> ct_is_zero_copy (fold column_append vs c)"
  using assms
proof (induction vs arbitrary: c)
  case (Cons v vs)
  from Cons.IH[of "column_append v c"] column_append_values[OF Cons.prems, of v] show ?case by simp
qed simp

lemma fold_append_valid:
  "fold (\<lambda>i (d :: u16, c). if valid i then (d + 1, column_append (f d) c) else (d, column_append g c)) [0..<k] (0, c) =
   (of_nat (valid_rank valid k),
    fold column_append (map (\<lambda>i. if valid i then f (of_nat (valid_rank valid i)) else g) [0..<k]) c)"
proof (induction k)
  case (Suc k)
  then show ?case by (simp add: valid_rank_Suc add.commute)
qed (simp add: valid_rank_def)

lemma rank_u16: "i < page_num_rows page \<Longrightarrow> unat (of_nat (valid_rank valid i) :: u16) = valid_rank valid i"
proof (rule unat_of_nat_less)
  assume "i < page_num_rows page"
  then show "valid_rank valid i < 2 ^ LENGTH(16)"
    using valid_rank_le[of valid i] page_num_rows_less[of page] by simp
qed

definition page_int32_values :: "page \<Rightarrow> value_t list" where
  "page_int32_values page = map int32_value (page_rows page_int32 page)"

definition page_refs :: "nat \<Rightarrow> nat \<Rightarrow> nat \<Rightarrow> page \<Rightarrow> value_t list" where
  "page_refs table_id in_col_idx page_idx page =
     (let n = page_num_rows page; mk = make_str_ref (of_nat table_id) (of_nat in_col_idx) (of_nat page_idx)
      in if n = 0xffff then [mk 0xffff]
         else if n = 0xfffe then []
         else map (\<lambda>i. if page_valid page i then mk (of_nat (valid_rank (page_valid page) i)) else make_null) [0..<n])"

lemma scan_int32_page_appends:
  "scan_int32_page page c = fold column_append (page_int32_values page) c"
proof -
  have "map (\<lambda>i. if page_valid page i
           then make_i32 (page_int32 page (unat (of_nat (valid_rank (page_valid page) i) :: u16))) else make_null)
         [0..<page_num_rows page] = page_int32_values page"
    unfolding page_int32_values_def page_rows_def map_map
    by (intro map_cong refl) (auto simp: rank_u16 int32_value_def)
  then show ?thesis
    unfolding scan_int32_page_def page_valid_def[symmetric] fold_append_valid by simp
qed

lemma scan_varchar_page_appends:
  "scan_varchar_page tid cid pidx page c = fold column_append (page_refs tid cid pidx page) c"
  unfolding scan_varchar_page_def page_refs_def Let_def page_valid_def[symmetric] fold_append_valid by simp

definition scanned_values :: "nat \<Rightarrow> nat \<Rightarrow> column \<Rightarrow> value_t list" where
  "scanned_values table_id in_col_idx column =
     (case col_type column of
        INT32 \<Rightarrow> concat (map page_int32_values (col_pages column))
      | VARCHAR \<Rightarrow> concat (map (\<lambda>i. page_refs table_id in_col_idx i (col_pages column ! i)) [0..<length (col_pages column)])
      | _ \<Rightarrow> [])"

lemma fold_idle: "fold (\<lambda>x y. y) xs c = c"
  by (induction xs) auto

lemma fold_fold_append: "fold (\<lambda>x. fold column_append (g x)) xs c = fold column_append (concat (map g xs)) c"
  by (induction xs arbitrary: c) auto

lemma scan_materialize_appends:
  "scan_materialize tid cid column c = fold column_append (scanned_values tid cid column) c"
proof (cases "col_type column")
  case INT32
  have "map (\<lambda>i. page_int32_values (col_pages column ! i)) [0..<length (col_pages column)] =
      map page_int32_values (col_pages column)"
    by (rule nth_equalityI) simp_all
  with INT32 show ?thesis
    by (simp add: scan_materialize_def scanned_values_def Let_def scan_int32_page_appends fold_fold_append)
next
  case VARCHAR
  then show ?thesis
    by (simp add: scan_materialize_def scanned_values_def Let_def scan_varchar_page_appends fold_fold_append)
qed (simp_all add: scan_materialize_def scanned_values_def Let_def fold_idle)

section \<open>Zero-copy columns\<close>

definition rows_before :: "page list \<Rightarrow> nat \<Rightarrow> nat" where
  "rows_before pages k = sum_list (map page_num_rows (take k pages))"

lemma scan_offsets:
  "fold (\<lambda>page (cumulative, offsets).
      let cumulative = cumulative + page_num_rows page in (cumulative, offsets @ [cumulative])) pages (a, offs) =
   (a + sum_list (map page_num_rows pages),
    offs @ map (\<lambda>k. a + rows_before pages (Suc k)) [0..<length pages])"
proof (induction pages arbitrary: a offs)
  case (Cons page pages)
  have "map (\<lambda>k. a + rows_before (page # pages) (Suc k)) [0..<length (page # pages)] =
      (a + page_num_rows page) # map (\<lambda>k. a + page_num_rows page + rows_before pages (Suc k)) [0..<length pages]"
    by (simp only: length_Cons map_upt_Suc) (simp add: rows_before_def add.assoc)
  then show ?case using Cons.IH[of "a + page_num_rows page" "offs @ [a + page_num_rows page]"]
    by (simp add: Let_def add.assoc)
qed simp

lemma rows_before_Suc:
  "k < length pages \<Longrightarrow> rows_before pages (Suc k) = rows_before pages k + page_num_rows (pages ! k)"
  by (simp add: rows_before_def take_Suc_conv_app_nth)

lemma scan_zero_copy_fields:
  fixes column n
  defines "c \<equiv> scan_zero_copy n column (column_new 1024)"
  shows "ct_is_zero_copy c" "ct_src_column c = Some column" "ct_num_values c = n"
    "ct_page_offsets c = map (rows_before (col_pages column)) [0..<length (col_pages column) + 1]"
proof -
  let ?pages = "col_pages column"
  have "ct_page_offsets c = [0] @ map (\<lambda>k. 0 + rows_before ?pages (Suc k)) [0..<length ?pages]"
    unfolding c_def scan_zero_copy_def Let_def by (simp add: column_new_def scan_offsets[unfolded Let_def])
  also have "\<dots> = map (rows_before ?pages) [0..<length ?pages + 1]"
    by (simp only: Suc_eq_plus1[symmetric] map_upt_Suc) (simp add: rows_before_def)
  finally show "ct_page_offsets c = map (rows_before ?pages) [0..<length ?pages + 1]" .
qed (simp_all add: c_def scan_zero_copy_def Let_def column_new_def split: prod.split)

lemma page_rows_no_nulls:
  assumes "\<And>i. i < page_num_rows page \<Longrightarrow> page_valid page i"
  shows "page_int32_values page = map (\<lambda>i. make_i32 (page_int32 page i)) [0..<page_num_rows page]"
proof -
  have "valid_rank (page_valid page) i = i" if "i < page_num_rows page" for i
    using assms that by (intro valid_rank_all) auto
  then show ?thesis
    using assms by (simp add: page_int32_values_def page_rows_def int32_value_def)
qed

lemma scan_zero_copy_correct:
  assumes ty: "col_type column = INT32" and nonull: "\<not> column_has_nulls column"
    and n: "n = sum_list (map page_num_rows (col_pages column))"
  shows "column_wf (scan_zero_copy n column (column_new 1024)) \<and>
    ct_values (scan_zero_copy n column (column_new 1024)) = scanned_values tid cid column"
proof -
  let ?c = "scan_zero_copy n column (column_new 1024)" and ?pages = "col_pages column"
  note F = scan_zero_copy_fields[of n column]
  have offs: "ct_page_offsets ?c ! k = rows_before ?pages k" if "k \<le> length ?pages" for k
    using that by (simp add: F nth_map_upt del: upt_Suc)
  have len: "length (ct_page_offsets ?c) = length ?pages + 1" by (simp add: F)
  have mono: "rows_before ?pages i \<le> rows_before ?pages j" if "i \<le> j" for i j
    unfolding rows_before_def using that
    by (metis le_add1 le_add_diff_inverse map_append sum_list_append take_add)
  have wfo: "offsets_wf (length ?pages) (ct_page_offsets ?c)"
  proof -
    have "sorted (ct_page_offsets ?c)"
      unfolding sorted_iff_nth_mono using len offs mono by auto
    moreover have "hd (ct_page_offsets ?c) = 0"
      using len offs[of 0] by (metis Suc_eq_plus1 hd_conv_nth length_0_conv list.map(1) nat.distinct(1)
          rows_before_def sum_list.Nil take_0 zero_le)
    ultimately show ?thesis using len by (simp add: offsets_wf_def)
  qed
  have page: "zc_page_values column (ct_page_offsets ?c) p = page_int32_values (?pages ! p)" if "p < length ?pages" for p
  proof -
    have "\<And>i. i < page_num_rows (?pages ! p) \<Longrightarrow> page_valid (?pages ! p) i"
      using nonull that by (auto simp: column_has_nulls_iff[OF ty])
    then show ?thesis
      using that offs[of p] offs[of "Suc p"]
      by (simp add: zc_page_values_def page_rows_no_nulls rows_before_Suc)
  qed
  have "map (zc_page_values column (ct_page_offsets ?c)) [0..<length ?pages] = map page_int32_values ?pages"
    using page by (intro nth_equalityI) auto
  then have vals: "ct_values ?c = concat (map page_int32_values ?pages)"
    using F len by (simp add: ct_values_def)
  moreover have "length (concat (map page_int32_values ?pages)) = n"
    by (simp add: n length_concat comp_def page_int32_values_def)
  ultimately show ?thesis
    using wfo F ty by (simp add: column_wf_def scanned_values_def)
qed

section \<open>The scanned buffer\<close>

definition page_logical_rows :: "data_type \<Rightarrow> page \<Rightarrow> nat" where
  "page_logical_rows ty page =
     (let n = page_num_rows page in if ty = VARCHAR then if n = 0xffff then 1 else if n = 0xfffe then 0 else n else n)"

definition input_column_ok :: "nat \<Rightarrow> column \<Rightarrow> bool" where
  "input_column_ok n column \<longleftrightarrow>
     col_type column \<in> {INT32, VARCHAR} \<and>
     sum_list (map (page_logical_rows (col_type column)) (col_pages column)) = n"

lemma length_scanned_values:
  "col_type column \<in> {INT32, VARCHAR} \<Longrightarrow> length (scanned_values tid cid column) =
     sum_list (map (page_logical_rows (col_type column)) (col_pages column))"
proof -
  assume ty: "col_type column \<in> {INT32, VARCHAR}"
  have "map (length \<circ> (\<lambda>i. page_refs tid cid i (col_pages column ! i))) [0..<length (col_pages column)] =
      map (page_logical_rows VARCHAR) (col_pages column)"
    by (rule nth_equalityI) (auto simp: page_refs_def page_logical_rows_def Let_def)
  moreover have "length \<circ> page_int32_values = page_logical_rows INT32"
    by (simp add: fun_eq_iff page_logical_rows_def page_int32_values_def)
  ultimately show ?thesis
    using ty by (auto simp: scanned_values_def length_concat)
qed

lemma scan_column_correct:
  assumes "input_column_ok n column"
  shows "column_wf (scan_column tid cid n column (column_new 1024)) \<and>
    ct_values (scan_column tid cid n column (column_new 1024)) = scanned_values tid cid column \<and>
    length (scanned_values tid cid column) = n"
proof -
  have ty: "col_type column \<in> {INT32, VARCHAR}"
    and n: "n = sum_list (map (page_logical_rows (col_type column)) (col_pages column))"
    using assms by (auto simp: input_column_ok_def)
  have len: "length (scanned_values tid cid column) = n" using length_scanned_values[OF ty] n by simp
  show ?thesis
  proof (cases "col_type column = INT32 \<and> \<not> column_has_nulls column")
    case True
    then have "n = sum_list (map page_num_rows (col_pages column))"
      using n by (simp add: page_logical_rows_def[abs_def])
    from scan_zero_copy_correct[OF _ _ this] True len show ?thesis by (simp add: scan_column_def)
  next
    case False
    have "column_wf (column_new 1024)" "ct_values (column_new 1024) = []" "\<not> ct_is_zero_copy (column_new 1024)"
      using column_new_wf[of 1024] by (simp_all add: column_new_def)
    from column_append_list[OF this(1,3), of "scanned_values tid cid column"] this(2) len show ?thesis
      unfolding scan_column_def if_not_P[OF False] scan_materialize_appends by simp
  qed
qed

definition scan_ok :: "plan \<Rightarrow> scan_node \<Rightarrow> attrs \<Rightarrow> bool" where
  "scan_ok plan scan attrs \<longleftrightarrow>
     sn_base_table_id scan < length (pl_inputs plan) \<and>
     (let t = pl_inputs plan ! sn_base_table_id scan
      in \<forall>a \<in> set attrs. fst a < length (tbl_columns t) \<and>
           input_column_ok (tbl_num_rows t) (tbl_columns t ! fst a) \<and> col_type (tbl_columns t ! fst a) = snd a)"

definition zero_copy_source :: "column \<Rightarrow> bool" where
  "zero_copy_source column \<longleftrightarrow> col_type column = INT32 \<and> \<not> column_has_nulls column"

lemma scan_column_zero_copy:
  "ct_is_zero_copy (scan_column tid cid n column (column_new 1024)) \<Longrightarrow> zero_copy_source column"
proof (rule ccontr)
  assume zc: "ct_is_zero_copy (scan_column tid cid n column (column_new 1024))" and not: "\<not> zero_copy_source column"
  have c: "column_wf (column_new 1024)" "\<not> ct_is_zero_copy (column_new 1024)"
    using column_new_wf[of 1024] by (simp_all add: column_new_def)
  have "\<not> ct_is_zero_copy (scan_column tid cid n column (column_new 1024))"
    using column_append_list[OF c]
    unfolding scan_column_def if_not_P[OF not[unfolded zero_copy_source_def]] scan_materialize_appends by blast
  with zc show False by contradiction
qed

lemma scan_correct:
  assumes ok: "scan_ok plan scan attrs"
  defines "tid \<equiv> sn_base_table_id scan"
  defines "t \<equiv> pl_inputs plan ! tid"
  shows "\<exists>buf. scan_columnar_to_columnbuffer plan scan attrs = Inr buf \<and>
    cb_num_rows buf = tbl_num_rows t \<and> cb_types buf = map snd attrs \<and> length (cb_columns buf) = length attrs \<and>
    (\<forall>k < length attrs. column_wf (cb_columns buf ! k) \<and>
       ct_values (cb_columns buf ! k) = scanned_values tid (fst (attrs ! k)) (tbl_columns t ! fst (attrs ! k)) \<and>
       length (ct_values (cb_columns buf ! k)) = tbl_num_rows t \<and>
       (ct_is_zero_copy (cb_columns buf ! k) \<longrightarrow> zero_copy_source (tbl_columns t ! fst (attrs ! k))))"
proof -
  let ?n = "tbl_num_rows t"
  let ?P = "\<lambda>i buf. cb_num_rows buf = ?n \<and> cb_types buf = map snd attrs \<and> length (cb_columns buf) = length attrs \<and>
    (\<forall>k < length attrs. cb_columns buf ! k =
       (if k < i then scan_column tid (fst (attrs ! k)) ?n (tbl_columns t ! fst (attrs ! k)) (column_new 1024)
        else column_new 1024))"
  let ?f = "\<lambda>col_idx buf.
      let in_col_idx = fst (attrs ! col_idx)
      in rbind (at (tbl_columns t) in_col_idx) (\<lambda>column.
         rbind (at (cb_columns buf) col_idx) (\<lambda>out_col.
           Inr (buf\<lparr>cb_columns := (cb_columns buf)[col_idx := scan_column tid in_col_idx ?n column out_col]\<rparr>)))"
  have tid: "tid < length (pl_inputs plan)"
    and cols: "\<And>k. k < length attrs \<Longrightarrow> fst (attrs ! k) < length (tbl_columns t) \<and>
      input_column_ok ?n (tbl_columns t ! fst (attrs ! k))"
    using ok by (auto simp: scan_ok_def t_def tid_def Let_def)
  have "\<exists>buf. rfold ?f [0..<length attrs] ((buffer_new (length attrs) ?n)\<lparr>cb_types := map snd attrs\<rparr>) = Inr buf \<and>
      ?P (length [0..<length attrs]) buf"
  proof (rule rfold_invariant[of ?P])
    show "?P 0 ((buffer_new (length attrs) ?n)\<lparr>cb_types := map snd attrs\<rparr>)" by (simp add: buffer_new_def)
    fix i buf
    assume i: "i < length [0..<length attrs]" and P: "?P i buf"
    then show "\<exists>buf'. ?f ([0..<length attrs] ! i) buf = Inr buf' \<and> ?P (Suc i) buf'"
      using cols[of i] by (auto simp: Let_def nth_list_update less_Suc_eq)
  qed
  then obtain buf where "rfold ?f [0..<length attrs] ((buffer_new (length attrs) ?n)\<lparr>cb_types := map snd attrs\<rparr>) = Inr buf"
    "?P (length attrs) buf" by auto
  then show ?thesis
    using tid cols scan_column_correct scan_column_zero_copy
    by (intro exI[of _ buf]) (simp add: scan_columnar_to_columnbuffer_def Let_def tid_def[symmetric] t_def[symmetric])
qed

section \<open>Sample pages\<close>

lemma page_of_valid:
  assumes "length bs + (page_num_rows (page_of bs) + 7) div 8 \<le> PAGE_SIZE"
  shows "page_valid (page_of bs) i"
proof -
  have "page_bitmap (page_of bs) (i div 8) = 0xFF"
    using assms by (auto simp: page_bitmap_def page_of_def PAGE_SIZE_def)
  then show ?thesis unfolding page_valid_def get_bitmap_bit by (simp only:) (rule bit_255, simp)
qed

lemma sample_valid: "page_valid int_page i" "page_valid str_page i"
  using page_of_valid sample_num_rows by (simp_all add: int_page_def str_page_def PAGE_SIZE_def)

definition example_keys :: column where
  "example_keys = \<lparr>col_type = INT32, col_pages = [int_page, int_page]\<rparr>"

lemma example_keys_no_nulls: "\<not> column_has_nulls example_keys" "col_type example_keys = INT32"
  using sample_valid by (simp_all add: column_has_nulls_iff example_keys_def)

section \<open>Properties\<close>

text \<open>The NULL test is exact: it inspects whole bytes of the bitmap, the last one under a mask,
  and reports a NULL precisely when some row of some page has a clear validity bit (a column that
  is not INT32 always counts as nullable).\<close>

theorem column_has_nulls_exact:
  "column_has_nulls column =
     (if col_type column = INT32
      then \<exists>p \<in> set (col_pages column). \<exists>i < page_num_rows p. \<not> page_valid p i else True)"
  using column_has_nulls_iff by (cases "col_type column = INT32") (auto simp: column_has_nulls_def)

text \<open>On an INT32 column without NULLs the zero-copy view and the materialised copy are both
  well formed and stand for the same values: the scan may choose either.\<close>

theorem scan_paths_agree:
  assumes "col_type column = INT32" "\<not> column_has_nulls column"
    and "n = sum_list (map page_num_rows (col_pages column))"
  shows "ct_values (scan_zero_copy n column (column_new 1024)) =
      ct_values (scan_materialize table_id in_col_idx column (column_new 1024)) \<and>
    column_wf (scan_zero_copy n column (column_new 1024)) \<and>
    column_wf (scan_materialize table_id in_col_idx column (column_new 1024))"
proof -
  have "column_wf (column_new 1024)" "\<not> ct_is_zero_copy (column_new 1024)" "ct_values (column_new 1024) = []"
    using column_new_wf[of 1024] by (simp_all add: column_new_def)
  with column_append_list[OF this(1,2), of "scanned_values table_id in_col_idx column"] scan_zero_copy_correct[OF assms]
  show ?thesis unfolding scan_materialize_appends by simp
qed

lemma scan_paths_agree_witness:
  "ct_values (scan_zero_copy 4 example_keys (column_new 1024)) =
     ct_values (scan_materialize 0 0 example_keys (column_new 1024))"
proof -
  have "4 = sum_list (map page_num_rows (col_pages example_keys))"
    by (simp add: example_keys_def sample_num_rows)
  from scan_paths_agree[OF example_keys_no_nulls(2,1) this] show ?thesis by blast
qed

end
