(* ===== verification/Inserter.thy ===== *)
theory Inserter
  imports Scan
begin

text \<open>
  \<open>ColumnInserter<T>\<close> (\<open>include/plan.h\<close>): rows appended to the pages of a column, values written
  into the page as they come, validity bits collected on the side and copied to the end of the
  page when it is saved. The size of \<open>T\<close> and the bytes of a value are arguments. A new page has
  arbitrary content (\<open>fresh\<close>). For 4-byte values the lemmas show that what is inserted is what a
  reader of the pages finds.
\<close>

section \<open>State and operations\<close>

record inserter =
  ins_column :: column
  ins_last_page_idx :: nat
  ins_num_rows :: u16
  ins_data_end :: nat
  ins_bitmap :: "u8 list"

definition data_begin :: "nat \<Rightarrow> nat" where
  "data_begin sz = (if sz < 4 then 4 else sz)"

definition inserter_new :: "nat \<Rightarrow> column \<Rightarrow> inserter" where
  "inserter_new sz column =
     \<lparr>ins_column = column, ins_last_page_idx = 0, ins_num_rows = 0, ins_data_end = data_begin sz,
      ins_bitmap = replicate PAGE_SIZE 0\<rparr>"

definition new_page :: "(nat \<Rightarrow> page) \<Rightarrow> column \<Rightarrow> column" where
  "new_page fresh column =
     column\<lparr>col_pages := col_pages column @ [fresh (length (col_pages column))]\<rparr>"

definition get_page :: "(nat \<Rightarrow> page) \<Rightarrow> nat \<Rightarrow> column \<Rightarrow> (page \<times> column) res" where
  "get_page fresh last_page_idx column =
     (let column = (if last_page_idx = length (col_pages column) then new_page fresh column else column)
      in rbind (at (col_pages column) last_page_idx) (\<lambda>page. Inr (page, column)))"

definition put_page :: "nat \<Rightarrow> page \<Rightarrow> column \<Rightarrow> column" where
  "put_page i page column = column\<lparr>col_pages := (col_pages column)[i := page]\<rparr>"

definition save_page :: "(nat \<Rightarrow> page) \<Rightarrow> nat \<Rightarrow> inserter \<Rightarrow> inserter res" where
  "save_page fresh sz s =
     rbind (get_page fresh (ins_last_page_idx s) (ins_column s)) (\<lambda>(page, column).
     let bitmap_size = (unat (ins_num_rows s) + 7) div 8
     in rbind (store_bytes page 0 (bytes16 (ins_num_rows s))) (\<lambda>page.
        rbind (store_bytes page 2 (bytes16 (of_nat ((ins_data_end s - data_begin sz) div sz)))) (\<lambda>page.
        rbind (store_bytes page (PAGE_SIZE - bitmap_size) (take bitmap_size (ins_bitmap s))) (\<lambda>page.
          Inr (s\<lparr>ins_column := put_page (ins_last_page_idx s) page column,
                 ins_last_page_idx := ins_last_page_idx s + 1,
                 ins_num_rows := 0, ins_data_end := data_begin sz\<rparr>)))))"

text \<open>\<open>bitmap[byte_idx]\<close> outside the 8192 bytes of the vector is undefined.\<close>

definition set_bitmap :: "nat \<Rightarrow> u8 list \<Rightarrow> u8 list res" where
  "set_bitmap idx bitmap =
     rbind (at bitmap (idx div 8)) (\<lambda>b. Inr (bitmap[idx div 8 := b OR push_bit (idx mod 8) 1]))"

definition unset_bitmap :: "nat \<Rightarrow> u8 list \<Rightarrow> u8 list res" where
  "unset_bitmap idx bitmap =
     rbind (at bitmap (idx div 8)) (\<lambda>b. Inr (bitmap[idx div 8 := b AND NOT (push_bit (idx mod 8) 1)]))"

definition inserter_insert :: "(nat \<Rightarrow> page) \<Rightarrow> nat \<Rightarrow> u8 list \<Rightarrow> inserter \<Rightarrow> inserter res" where
  "inserter_insert fresh sz value s =
     rbind (if PAGE_SIZE < ins_data_end s + 4 + unat (ins_num_rows s) div 8 + 1
            then save_page fresh sz s else Inr s) (\<lambda>s.
     rbind (get_page fresh (ins_last_page_idx s) (ins_column s)) (\<lambda>(page, column).
     rbind (store_bytes page (ins_data_end s) value) (\<lambda>page.
     rbind (set_bitmap (unat (ins_num_rows s)) (ins_bitmap s)) (\<lambda>bitmap.
       Inr (s\<lparr>ins_column := put_page (ins_last_page_idx s) page column,
              ins_data_end := ins_data_end s + sz, ins_bitmap := bitmap,
              ins_num_rows := ins_num_rows s + 1\<rparr>)))))"

definition inserter_insert_null :: "(nat \<Rightarrow> page) \<Rightarrow> nat \<Rightarrow> inserter \<Rightarrow> inserter res" where
  "inserter_insert_null fresh sz s =
     rbind (if PAGE_SIZE < ins_data_end s + unat (ins_num_rows s) div 8 + 1
            then save_page fresh sz s else Inr s) (\<lambda>s.
     rbind (unset_bitmap (unat (ins_num_rows s)) (ins_bitmap s)) (\<lambda>bitmap.
       Inr (s\<lparr>ins_bitmap := bitmap, ins_num_rows := ins_num_rows s + 1\<rparr>)))"

definition inserter_finalize :: "(nat \<Rightarrow> page) \<Rightarrow> nat \<Rightarrow> inserter \<Rightarrow> inserter res" where
  "inserter_finalize fresh sz s = (if ins_num_rows s \<noteq> 0 then save_page fresh sz s else Inr s)"

text \<open>A client inserts a list of INT32 rows and finalizes.\<close>

definition insert_int32 :: "(nat \<Rightarrow> page) \<Rightarrow> u32 option \<Rightarrow> inserter \<Rightarrow> inserter res" where
  "insert_int32 fresh x s =
     (case x of None \<Rightarrow> inserter_insert_null fresh 4 s | Some v \<Rightarrow> inserter_insert fresh 4 (bytes32 v) s)"

section \<open>Bitmaps as vectors\<close>

lemma u8_set_bit: "j < 8 \<Longrightarrow> bit (w OR push_bit j 1 :: u8) i \<longleftrightarrow> bit w i \<or> i = j"
  unfolding bit_or_iff by (subst bit_push_one) simp_all

lemma u8_unset_bit: "j < 8 \<Longrightarrow> bit (w AND NOT (push_bit j 1) :: u8) i \<longleftrightarrow> bit w i \<and> i \<noteq> j"
proof (cases "i < 8")
  case True
  assume "j < 8"
  then show ?thesis using True unfolding bit_and_iff bit_not_iff by (subst bit_push_one) auto
qed (auto dest: bit_imp_le_length)

lemma bitmap_bits_set:
  assumes "set_bitmap idx bm = Inr bm'"
  shows "length bm' = length bm" "get_bitmap (\<lambda>i. bm' ! i) k \<longleftrightarrow> get_bitmap (\<lambda>i. bm ! i) k \<or> k = idx"
proof -
  have i: "idx div 8 < length bm" and bm': "bm' = bm[idx div 8 := bm ! (idx div 8) OR push_bit (idx mod 8) 1]"
    using assms by (auto simp: set_bitmap_def rbind_eq_Inr at_eq_Inr)
  show "length bm' = length bm" by (simp add: bm')
  have "k = idx \<longleftrightarrow> k div 8 = idx div 8 \<and> k mod 8 = idx mod 8" by (metis div_mult_mod_eq)
  then show "get_bitmap (\<lambda>i. bm' ! i) k \<longleftrightarrow> get_bitmap (\<lambda>i. bm ! i) k \<or> k = idx"
    unfolding get_bitmap_bit bm' using i
    by (cases "k div 8 = idx div 8") (simp_all add: u8_set_bit del: push_bit_of_1)
qed

lemma bitmap_bits_unset:
  assumes "unset_bitmap idx bm = Inr bm'"
  shows "length bm' = length bm" "get_bitmap (\<lambda>i. bm' ! i) k \<longleftrightarrow> get_bitmap (\<lambda>i. bm ! i) k \<and> k \<noteq> idx"
proof -
  have i: "idx div 8 < length bm"
    and bm': "bm' = bm[idx div 8 := bm ! (idx div 8) AND NOT (push_bit (idx mod 8) 1)]"
    using assms by (auto simp: unset_bitmap_def rbind_eq_Inr at_eq_Inr)
  show "length bm' = length bm" by (simp add: bm')
  have "k = idx \<longleftrightarrow> k div 8 = idx div 8 \<and> k mod 8 = idx mod 8" by (metis div_mult_mod_eq)
  then show "get_bitmap (\<lambda>i. bm' ! i) k \<longleftrightarrow> get_bitmap (\<lambda>i. bm ! i) k \<and> k \<noteq> idx"
    unfolding get_bitmap_bit bm' using i
    by (cases "k div 8 = idx div 8") (simp_all add: u8_unset_bit del: push_bit_of_1)
qed

section \<open>Dense values\<close>

definition present :: "'a option list \<Rightarrow> 'a list" where
  "present rs = map the (filter (\<lambda>x. x \<noteq> None) rs)"

lemma present_simps [simp]:
  "present [] = []" "present (None # rs) = present rs" "present (Some v # rs) = v # present rs"
  "present (rs @ rs') = present rs @ present rs'"
  by (simp_all add: present_def)

lemma present_rank:
  assumes "\<And>j. j < i \<Longrightarrow> valid j \<longleftrightarrow> rs ! j \<noteq> None" "i \<le> length rs"
  shows "valid_rank valid i = length (present (take i rs))"
  using assms
proof (induction i)
  case (Suc i)
  then show ?case
    by (cases "rs ! i") (simp_all add: valid_rank_Suc take_Suc_conv_app_nth)
qed (simp add: valid_rank_def)

lemma present_nth:
  assumes "i < length rs" "rs ! i = Some v"
  shows "length (present (take i rs)) < length (present rs) \<and> present rs ! length (present (take i rs)) = v"
proof -
  have "rs = take i rs @ Some v # drop (Suc i) rs"
    using assms by (metis id_take_nth_drop)
  then have "present rs = present (take i rs) @ v # present (drop (Suc i) rs)"
    by (metis present_simps(3,4))
  then show ?thesis by simp
qed

lemma length_present_le: "length (present rs) \<le> length rs"
  by (simp add: present_def)

text \<open>A page whose header, bitmap and values agree with a list of rows decodes to that list.\<close>

lemma page_rows_decode:
  assumes n: "page_num_rows q = length rs"
    and valid: "\<And>i. i < length rs \<Longrightarrow> page_valid q i \<longleftrightarrow> rs ! i \<noteq> None"
    and vals: "\<And>k. k < length (present rs) \<Longrightarrow> value q k = present rs ! k"
  shows "page_rows value q = rs"
proof (rule nth_equalityI)
  fix i assume "i < length (page_rows value q)"
  then have i: "i < length rs" using n by simp
  have rank: "valid_rank (page_valid q) i = length (present (take i rs))"
    using valid i by (intro present_rank) auto
  show "page_rows value q ! i = rs ! i"
  proof (cases "rs ! i")
    case None
    then show ?thesis using i n valid by (simp add: page_rows_def)
  next
    case (Some v)
    then show ?thesis
      using i n valid present_nth[OF i Some] vals rank by (simp add: page_rows_def)
  qed
qed (simp add: n)

section \<open>Saving a page\<close>

lemma get_bitmap_cong:
  "(\<And>i. i \<le> k div 8 \<Longrightarrow> f i = g i) \<Longrightarrow> get_bitmap f k = get_bitmap g k"
  by (simp add: get_bitmap_bit)

lemma saved_page:
  fixes n :: u16
  defines "bs \<equiv> (unat n + 7) div 8"
  assumes h1: "store_bytes p 0 (bytes16 n) = Inr p1" and h2: "store_bytes p1 2 (bytes16 c) = Inr p2"
    and bm: "store_bytes p2 (PAGE_SIZE - bs) (take bs bitmap) = Inr q"
    and len: "length bitmap = PAGE_SIZE" and room: "d + bs \<le> PAGE_SIZE" "4 \<le> d"
  shows "page_num_rows q = unat n" "load16 q 2 = c"
    "\<And>i. i < unat n \<Longrightarrow> page_valid q i \<longleftrightarrow> get_bitmap (\<lambda>i. bitmap ! i) i"
    "\<And>a m. 4 \<le> a \<Longrightarrow> a + m \<le> d \<Longrightarrow> load_bytes q a m = load_bytes p a m"
proof -
  have bs: "length (take bs bitmap) = bs" using len room by simp
  have "load_bytes q 0 2 = load_bytes p2 0 2" using load_store_disjoint[OF bm, of 0 2] room by simp
  also have "\<dots> = load_bytes p1 0 2" using load_store_disjoint[OF h2, of 0 2] by simp
  also have "\<dots> = bytes16 n" using load_store_same[OF h1] by simp
  finally show n: "page_num_rows q = unat n" by (simp add: page_num_rows_def load_of_bytes)
  have "2 + 2 \<le> PAGE_SIZE - bs" using room by linarith
  then have "load_bytes q 2 2 = load_bytes p2 2 2" using load_store_disjoint[OF bm, of 2 2] by blast
  also have "\<dots> = bytes16 c" using load_store_same[OF h2] by simp
  finally show "load16 q 2 = c" by (simp add: load_of_bytes)
  show "page_valid q i \<longleftrightarrow> get_bitmap (\<lambda>i. bitmap ! i) i" if "i < unat n" for i
    unfolding page_valid_def
  proof (rule get_bitmap_cong)
    fix j assume "j \<le> i div 8"
    then have "j < bs" using that by (simp add: bs_def)
    then show "page_bitmap q j = bitmap ! j"
      using store_byte_inside[OF bm, of j] bs by (simp add: page_bitmap_def n bs_def[symmetric])
  qed
  have inside: "a + m \<le> PAGE_SIZE - bs" if "a + m \<le> d" for a m using that room by linarith
  show "load_bytes q a m = load_bytes p a m" if "4 \<le> a" "a + m \<le> d" for a m
    using inside[OF that(2)] load_store_disjoint[OF bm, of a m] load_store_disjoint[OF h2, of a m] load_store_disjoint[OF h1, of a m]
      that room bs by simp
qed

lemma store_ok: "a + length bs \<le> PAGE_SIZE \<Longrightarrow> \<exists>q. store_bytes p a bs = Inr q"
  by (rule store_bytes_Inr)

section \<open>The invariant for 4-byte values\<close>

definition ins_inv :: "data_type \<Rightarrow> inserter \<Rightarrow> u32 option list list \<Rightarrow> u32 option list \<Rightarrow> bool" where
  "ins_inv ty s done_pages rs \<longleftrightarrow>
     (let pages = col_pages (ins_column s); last_i = ins_last_page_idx s; k = length (present rs)
      in col_type (ins_column s) = ty \<and> unat (ins_num_rows s) = length rs \<and> ins_data_end s = 4 + 4 * k \<and>
         length (ins_bitmap s) = PAGE_SIZE \<and>
         (\<forall>i < length rs. get_bitmap (\<lambda>i. ins_bitmap s ! i) i \<longleftrightarrow> rs ! i \<noteq> None) \<and>
         4 + 4 * k + (length rs + 7) div 8 \<le> PAGE_SIZE \<and>
         last_i \<le> length pages \<and> length pages \<le> last_i + 1 \<and>
         map (page_rows page_int32) (take last_i pages) = done_pages \<and>
         (0 < k \<longrightarrow> length pages = last_i + 1 \<and>
            (\<forall>i < k. load_bytes (pages ! last_i) (4 + 4 * i) 4 = bytes32 (present rs ! i))) \<and>
         (rs = [] \<longrightarrow> length pages = last_i))"

lemma ins_invD:
  assumes "ins_inv ty s D rs"
  shows "col_type (ins_column s) = ty" "unat (ins_num_rows s) = length rs"
    "ins_data_end s = 4 + 4 * length (present rs)" "length (ins_bitmap s) = PAGE_SIZE"
    "\<And>i. i < length rs \<Longrightarrow> get_bitmap (\<lambda>i. ins_bitmap s ! i) i \<longleftrightarrow> rs ! i \<noteq> None"
    "4 + 4 * length (present rs) + (length rs + 7) div 8 \<le> PAGE_SIZE"
    "ins_last_page_idx s \<le> length (col_pages (ins_column s))"
    "length (col_pages (ins_column s)) \<le> ins_last_page_idx s + 1"
    "map (page_rows page_int32) (take (ins_last_page_idx s) (col_pages (ins_column s))) = D"
    "0 < length (present rs) \<Longrightarrow> length (col_pages (ins_column s)) = ins_last_page_idx s + 1"
    "\<And>i. i < length (present rs) \<Longrightarrow>
       load_bytes (col_pages (ins_column s) ! ins_last_page_idx s) (4 + 4 * i) 4 = bytes32 (present rs ! i)"
    "rs = [] \<Longrightarrow> length (col_pages (ins_column s)) = ins_last_page_idx s"
  using assms by (auto simp: ins_inv_def Let_def)

lemma get_page_current:
  assumes "l \<le> length (col_pages c)" "length (col_pages c) \<le> l + 1"
  shows "\<exists>page c'. get_page fresh l c = Inr (page, c') \<and> col_type c' = col_type c \<and>
    length (col_pages c') = l + 1 \<and> take l (col_pages c') = take l (col_pages c) \<and> page = col_pages c' ! l \<and>
    (length (col_pages c) = l + 1 \<longrightarrow> c' = c)"
proof (cases "l = length (col_pages c)")
  case True
  then show ?thesis
    by (intro exI[of _ "fresh l"] exI[of _ "new_page fresh c"])
      (simp add: get_page_def new_page_def nth_append)
next
  case False
  then have "length (col_pages c) = l + 1" using assms by simp
  then show ?thesis
    by (intro exI[of _ "col_pages c ! l"] exI[of _ c]) (simp add: get_page_def)
qed

lemma save_page_correct:
  assumes inv: "ins_inv ty s D rs"
  shows "\<exists>s'. save_page fresh 4 s = Inr s' \<and> ins_inv ty s' (D @ [rs]) []"
proof -
  note I = ins_invD[OF inv]
  let ?l = "ins_last_page_idx s" and ?n = "ins_num_rows s"
  let ?bs = "(unat ?n + 7) div 8"
  obtain page c where gp: "get_page fresh ?l (ins_column s) = Inr (page, c)" "col_type c = ty"
    "length (col_pages c) = ?l + 1" "take ?l (col_pages c) = take ?l (col_pages (ins_column s))"
    "page = col_pages c ! ?l" "length (col_pages (ins_column s)) = ?l + 1 \<longrightarrow> c = ins_column s"
    using get_page_current[OF I(7,8)] I(1) by metis
  obtain p1 where p1: "store_bytes page 0 (bytes16 ?n) = Inr p1" using store_ok[of 0 "bytes16 ?n"] by (auto simp: PAGE_SIZE_def)
  let ?c = "of_nat ((ins_data_end s - data_begin 4) div 4) :: u16"
  obtain p2 where p2: "store_bytes p1 2 (bytes16 ?c) = Inr p2" using store_ok[of 2 "bytes16 ?c"] by (auto simp: PAGE_SIZE_def)
  have bs: "length (take ?bs (ins_bitmap s)) = ?bs" "4 + 4 * length (present rs) + ?bs \<le> PAGE_SIZE"
    using I(2,4,6) by simp_all
  then obtain q where q: "store_bytes p2 (PAGE_SIZE - ?bs) (take ?bs (ins_bitmap s)) = Inr q"
    using store_ok[of "PAGE_SIZE - ?bs" "take ?bs (ins_bitmap s)" p2] by auto
  note saved = saved_page[OF p1 p2 q I(4) bs(2)]
  have "page_rows page_int32 q = rs"
  proof (rule page_rows_decode)
    show "page_num_rows q = length rs" using saved(1) I(2) by simp
    show "page_valid q i \<longleftrightarrow> rs ! i \<noteq> None" if "i < length rs" for i using saved(3)[of i] I(2,5) that by simp
    fix k assume k: "k < length (present rs)"
    then have "length (col_pages (ins_column s)) = ?l + 1" by (intro I(10)) auto
    then have "load_bytes page (4 + 4 * k) 4 = bytes32 (present rs ! k)"
      using I(11)[OF k] gp(5,6) by simp
    moreover have "load_bytes q (4 + 4 * k) 4 = load_bytes page (4 + 4 * k) 4"
      using k by (intro saved(4)) auto
    ultimately show "page_int32 q k = present rs ! k" by (simp add: page_int32_def load_of_bytes)
  qed
  then have "map (page_rows page_int32) (take (?l + 1) ((col_pages c)[?l := q])) = D @ [rs]"
  proof -
    have "take (Suc ?l) ((col_pages c)[?l := q]) = take ?l (col_pages c) @ [q]"
      using gp(3) by (subst take_Suc_conv_app_nth) simp_all
    then show ?thesis using gp(4) I(9) \<open>page_rows page_int32 q = rs\<close> by simp
  qed
  then show ?thesis
    using gp(1-3) p1 p2 q I(4)
    by (simp add: save_page_def ins_inv_def put_page_def Let_def data_begin_def PAGE_SIZE_def)
qed

section \<open>Inserting\<close>

lemma u16_next: "unat (n :: u16) < 65535 \<Longrightarrow> unat (n + 1) = unat n + 1"
  by (subst unat_plus_less) simp_all

lemma ins_inv_small:
  assumes "ins_inv ty s D rs"
  shows "length rs < 65535" "length rs div 8 < length (ins_bitmap s)"
  using ins_invD(4,6)[OF assms] by (auto simp: PAGE_SIZE_def)

lemma guard_room:
  "\<exists>s' D'. (if PAGE_SIZE < ins_data_end s + extra + unat (ins_num_rows s) div 8 + 1
            then save_page fresh 4 s else Inr s) = Inr s' \<and>
     (\<exists>rs'. ins_inv ty s' D' rs' \<and> concat D' @ rs' = concat D @ rs \<and>
        ins_data_end s' + extra + unat (ins_num_rows s') div 8 + 1 \<le> PAGE_SIZE \<and>
        (D' = D \<and> rs' = rs \<or> D' = D @ [rs] \<and> rs' = []))"
  if inv: "ins_inv ty s D rs" and extra: "extra \<le> 4"
proof (cases "PAGE_SIZE < ins_data_end s + extra + unat (ins_num_rows s) div 8 + 1")
  case True
  obtain s' where s': "save_page fresh 4 s = Inr s'" "ins_inv ty s' (D @ [rs]) []"
    using save_page_correct[OF inv] by blast
  have "ins_data_end s' + extra + unat (ins_num_rows s') div 8 + 1 \<le> PAGE_SIZE"
    using ins_invD(2,3)[OF s'(2)] extra by (simp add: PAGE_SIZE_def)
  with True s' show ?thesis by (intro exI[of _ s'] exI[of _ "D @ [rs]"]) (auto intro!: exI[of _ "[]"])
next
  case False
  with inv show ?thesis by (intro exI[of _ s] exI[of _ D]) (auto intro!: exI[of _ rs])
qed

lemma insert_null_correct:
  assumes inv: "ins_inv ty s D rs"
  shows "\<exists>s' D' rs'. inserter_insert_null fresh 4 s = Inr s' \<and> ins_inv ty s' D' rs' \<and>
    concat D' @ rs' = concat D @ rs @ [None]"
proof -
  obtain s1 D1 rs1 where s1: "(if PAGE_SIZE < ins_data_end s + unat (ins_num_rows s) div 8 + 1
      then save_page fresh 4 s else Inr s) = Inr s1" "ins_inv ty s1 D1 rs1" "concat D1 @ rs1 = concat D @ rs"
    "ins_data_end s1 + unat (ins_num_rows s1) div 8 + 1 \<le> PAGE_SIZE"
    using guard_room[OF inv, of 0 fresh] by auto
  note I = ins_invD[OF s1(2)] and small = ins_inv_small[OF s1(2)]
  let ?i = "unat (ins_num_rows s1)"
  obtain bm where bm: "unset_bitmap ?i (ins_bitmap s1) = Inr bm"
    using small(2) I(2) by (simp add: unset_bitmap_def)
  note bits = bitmap_bits_unset[OF bm]
  let ?s = "s1\<lparr>ins_bitmap := bm, ins_num_rows := ins_num_rows s1 + 1\<rparr>"
  have "ins_inv ty ?s D1 (rs1 @ [None])"
    unfolding ins_inv_def Let_def
  proof (intro conjI)
    show "unat (ins_num_rows ?s) = length (rs1 @ [None])" using I(2) small(1) by (simp add: u16_next)
    show "\<forall>i < length (rs1 @ [None]). get_bitmap (\<lambda>i. ins_bitmap ?s ! i) i \<longleftrightarrow> (rs1 @ [None]) ! i \<noteq> None"
      using I(2,5) bits(2) by (auto simp: less_Suc_eq nth_append)
    show "4 + 4 * length (present (rs1 @ [None])) + (length (rs1 @ [None]) + 7) div 8 \<le> PAGE_SIZE"
      using s1(4) I(2,3) by simp
  qed (use I bits(1) in auto)
  then show ?thesis
    using s1(1,3) bm by (intro exI[of _ ?s] exI[of _ D1] exI[of _ "rs1 @ [None]"]) (simp add: inserter_insert_null_def)
qed

lemma insert_value_correct:
  assumes inv: "ins_inv ty s D rs"
  shows "\<exists>s' D' rs'. inserter_insert fresh 4 (bytes32 v) s = Inr s' \<and> ins_inv ty s' D' rs' \<and>
    concat D' @ rs' = concat D @ rs @ [Some v]"
proof -
  obtain s1 D1 rs1 where s1: "(if PAGE_SIZE < ins_data_end s + 4 + unat (ins_num_rows s) div 8 + 1
      then save_page fresh 4 s else Inr s) = Inr s1" "ins_inv ty s1 D1 rs1" "concat D1 @ rs1 = concat D @ rs"
    "ins_data_end s1 + 4 + unat (ins_num_rows s1) div 8 + 1 \<le> PAGE_SIZE"
    using guard_room[OF inv, of 4 fresh] by auto
  note I = ins_invD[OF s1(2)] and small = ins_inv_small[OF s1(2)]
  let ?i = "unat (ins_num_rows s1)" and ?l = "ins_last_page_idx s1" and ?k = "length (present rs1)"
  obtain page c where gp: "get_page fresh ?l (ins_column s1) = Inr (page, c)" "col_type c = ty"
    "length (col_pages c) = ?l + 1" "take ?l (col_pages c) = take ?l (col_pages (ins_column s1))"
    "page = col_pages c ! ?l" "length (col_pages (ins_column s1)) = ?l + 1 \<longrightarrow> c = ins_column s1"
    using get_page_current[OF I(7,8)] I(1) by metis
  obtain q where q: "store_bytes page (ins_data_end s1) (bytes32 v) = Inr q"
    using store_ok[of "ins_data_end s1" "bytes32 v" page] s1(4) by auto
  obtain bm where bm: "set_bitmap ?i (ins_bitmap s1) = Inr bm"
    using small(2) I(2) by (simp add: set_bitmap_def)
  note bits = bitmap_bits_set[OF bm]
  let ?s = "s1\<lparr>ins_column := put_page ?l q c, ins_data_end := ins_data_end s1 + 4, ins_bitmap := bm,
               ins_num_rows := ins_num_rows s1 + 1\<rparr>"
  have vals: "load_bytes q (4 + 4 * i) 4 = bytes32 (present (rs1 @ [Some v]) ! i)"
    if "i < length (present (rs1 @ [Some v]))" for i
  proof (cases "i = ?k")
    case True
    then show ?thesis using load_store_same[OF q] I(3) by simp
  next
    case False
    then have i: "i < ?k" using that by simp
    then have "length (col_pages (ins_column s1)) = ?l + 1" by (intro I(10)) auto
    then have "load_bytes page (4 + 4 * i) 4 = bytes32 (present rs1 ! i)" using I(11)[OF i] gp(5,6) by simp
    then show ?thesis
      using load_store_disjoint[OF q, of "4 + 4 * i" 4] I(3) i by (simp add: nth_append)
  qed
  have "ins_inv ty ?s D1 (rs1 @ [Some v])"
    unfolding ins_inv_def Let_def
  proof (intro conjI)
    show "unat (ins_num_rows ?s) = length (rs1 @ [Some v])" using I(2) small(1) by (simp add: u16_next)
    show "\<forall>i < length (rs1 @ [Some v]). get_bitmap (\<lambda>i. ins_bitmap ?s ! i) i \<longleftrightarrow> (rs1 @ [Some v]) ! i \<noteq> None"
      using I(2,5) bits(2) by (auto simp: less_Suc_eq nth_append)
    show "4 + 4 * length (present (rs1 @ [Some v])) + (length (rs1 @ [Some v]) + 7) div 8 \<le> PAGE_SIZE"
      using s1(4) I(2,3) by simp
    show "0 < length (present (rs1 @ [Some v])) \<longrightarrow> length (col_pages (ins_column ?s)) = ins_last_page_idx ?s + 1 \<and>
        (\<forall>i < length (present (rs1 @ [Some v])).
          load_bytes (col_pages (ins_column ?s) ! ins_last_page_idx ?s) (4 + 4 * i) 4 = bytes32 (present (rs1 @ [Some v]) ! i))"
      using vals gp(3) by (simp add: put_page_def del: present_simps)
  qed (use I(1-4,9) bits(1) gp in \<open>auto simp: put_page_def\<close>)
  then show ?thesis
    using s1(1,3) gp(1) q bm
    by (intro exI[of _ ?s] exI[of _ D1] exI[of _ "rs1 @ [Some v]"]) (simp add: inserter_insert_def)
qed

lemma inserter_new_inv:
  assumes "col_pages c = []"
  shows "ins_inv (col_type c) (inserter_new 4 c) [] []"
  using assms by (simp add: ins_inv_def inserter_new_def data_begin_def Let_def PAGE_SIZE_def)

text \<open>Inserting a list of rows into an empty column and finalizing.\<close>

definition insert_rows :: "(nat \<Rightarrow> page) \<Rightarrow> u32 option list \<Rightarrow> column \<Rightarrow> column res" where
  "insert_rows fresh rows c =
     rbind (rfold (insert_int32 fresh) rows (inserter_new 4 c)) (\<lambda>s.
     rbind (inserter_finalize fresh 4 s) (\<lambda>s. Inr (ins_column s)))"

lemma insert_int32_all:
  assumes "ins_inv ty s D rs"
  shows "\<exists>s' D' rs'. rfold (insert_int32 fresh) rows s = Inr s' \<and> ins_inv ty s' D' rs' \<and>
    concat D' @ rs' = concat D @ rs @ rows"
  using assms
proof (induction rows arbitrary: s D rs)
  case (Cons x rows)
  obtain s1 D1 rs1 where s1: "insert_int32 fresh x s = Inr s1" "ins_inv ty s1 D1 rs1"
    "concat D1 @ rs1 = concat D @ rs @ [x]"
    using insert_null_correct[OF Cons.prems] insert_value_correct[OF Cons.prems]
    by (cases x) (fastforce simp: insert_int32_def)+
  from Cons.IH[OF s1(2)] obtain s2 D2 rs2 where s2:
    "rfold (insert_int32 fresh) rows s1 = Inr s2" "ins_inv ty s2 D2 rs2"
    "concat D2 @ rs2 = concat D1 @ rs1 @ rows" by blast
  have "concat D2 @ rs2 = (concat D1 @ rs1) @ rows" using s2(3) by simp
  then have "concat D2 @ rs2 = concat D @ rs @ (x # rows)" unfolding s1(3) by simp
  with s1(1) s2(1,2) show ?case by auto
qed auto

lemma inserter_finalize_correct:
  assumes inv: "ins_inv ty s D rs"
  shows "\<exists>s' D'. inserter_finalize fresh 4 s = Inr s' \<and> ins_inv ty s' D' [] \<and> concat D' = concat D @ rs \<and>
    map (page_rows page_int32) (col_pages (ins_column s')) = D'"
proof -
  note I = ins_invD[OF inv]
  have all: "map (page_rows page_int32) (col_pages (ins_column s')) = D'" if "ins_inv ty s' D' []" for s' D'
    using ins_invD(9,12)[OF that] by simp
  show ?thesis
  proof (cases "rs = []")
    case True
    then have "ins_num_rows s = 0" using I(2) by (simp add: unat_eq_zero)
    then show ?thesis using inv True all by (intro exI[of _ s] exI[of _ D]) (simp add: inserter_finalize_def)
  next
    case False
    then have "ins_num_rows s \<noteq> 0" using I(2) by auto
    moreover obtain s' where "save_page fresh 4 s = Inr s'" "ins_inv ty s' (D @ [rs]) []"
      using save_page_correct[OF inv] by blast
    ultimately show ?thesis
      using all by (intro exI[of _ s'] exI[of _ "D @ [rs]"]) (simp add: inserter_finalize_def)
  qed
qed

lemma insert_rows_correct:
  assumes "col_pages c = []"
  shows "\<exists>c'. insert_rows fresh rows c = Inr c' \<and> col_type c' = col_type c \<and> column_int32_rows c' = rows"
proof -
  obtain s1 D1 rs1 where s1: "rfold (insert_int32 fresh) rows (inserter_new 4 c) = Inr s1"
    "ins_inv (col_type c) s1 D1 rs1" "concat D1 @ rs1 = rows"
    using insert_int32_all[OF inserter_new_inv[OF assms], of fresh rows] by auto
  obtain s2 D2 where "inserter_finalize fresh 4 s1 = Inr s2" "ins_inv (col_type c) s2 D2 []"
    "concat D2 = concat D1 @ rs1" "map (page_rows page_int32) (col_pages (ins_column s2)) = D2"
    using inserter_finalize_correct[OF s1(2)] by blast
  with s1(1,3) ins_invD(1)[of "col_type c" s2 D2 "[]"] show ?thesis
    by (auto simp: insert_rows_def column_int32_rows_def)
qed

section \<open>Sample pages\<close>

lemma page_of_rows:
  assumes "page_num_rows (page_of bs) = length vs" "length bs + (length vs + 7) div 8 \<le> PAGE_SIZE"
    and "\<And>k. k < length vs \<Longrightarrow> f (page_of bs) k = vs ! k"
  shows "page_rows f (page_of bs) = map Some vs"
proof (rule page_rows_decode)
  show "page_valid (page_of bs) i \<longleftrightarrow> map Some vs ! i \<noteq> None" if "i < length (map Some vs)" for i
    using that page_of_valid[of bs i] assms(1,2) by simp
  have "present (map Some vs) = vs" by (induction vs) simp_all
  then show "f (page_of bs) k = present (map Some vs) ! k" if "k < length (present (map Some vs))" for k
    using that assms(3) by simp
qed (simp add: assms(1))

lemma int_page_rows: "page_rows page_int32 int_page = [Some 7, Some 9]"
proof -
  have "page_int32 int_page 0 = 7" "page_int32 int_page 1 = 9"
    by (simp_all add: page_int32_def load32_def load_bytes_small int_page_def page_of_def)
  then have "page_int32 int_page k = [7, 9] ! k" if "k < 2" for k
    using that by (auto simp: less_2_cases_iff)
  then show ?thesis
    using sample_num_rows(1) page_of_rows[of _ "[7, 9]" page_int32] by (simp add: int_page_def PAGE_SIZE_def)
qed

section \<open>Properties\<close>

text \<open>INT32 round trip through the storage format: whatever rows are inserted into a fresh
  column, with whatever garbage in the new pages, no write leaves its page, and a reader of the
  pages as well as the scan of the engine get exactly these rows back.\<close>

theorem insert_rows_roundtrip:
  "\<exists>c. insert_rows fresh rows (new_column INT32) = Inr c \<and> col_type c = INT32 \<and>
     column_int32_rows c = rows \<and>
     ct_values (scan_column table_id in_col_idx (length rows) c (column_new 1024)) = map int32_value rows"
proof -
  obtain c where c: "insert_rows fresh rows (new_column INT32) = Inr c" "col_type c = INT32" "column_int32_rows c = rows"
    using insert_rows_correct[of "new_column INT32" fresh rows] by (auto simp: new_column_def)
  have "sum_list (map (page_logical_rows INT32) (col_pages c)) = length (column_int32_rows c)"
    by (simp add: column_int32_rows_def length_concat comp_def page_logical_rows_def[abs_def])
  then have "input_column_ok (length rows) c" using c(2,3) by (simp add: input_column_ok_def)
  from scan_column_correct[OF this, of table_id in_col_idx] c show ?thesis
    by (auto simp: scanned_values_def column_int32_rows_def page_int32_values_def[abs_def] map_concat comp_def)
qed

end
