(* ===== verification/StringPages.thy ===== *)
theory StringPages
  imports Inserter
begin

text \<open>
  VARCHAR columns: the page format (offsets, characters, long strings spread over pages marked
  0xffff and 0xfffe), \<open>ColumnInserter<std::string>\<close> (\<open>include/plan.h\<close>), and
  \<open>StringRefResolver::resolve\<close> with \<open>StringRefEq\<close> (\<open>src/late_materialization.cpp\<close>).
  \<open>decode_strings\<close> is what a VARCHAR column stores, as its readers in \<open>build_table.cpp\<close>
  understand it. Strings are byte lists.
\<close>

type_synonym bytes = "u8 list"

section \<open>The format\<close>

definition page_offset :: "page \<Rightarrow> nat \<Rightarrow> nat" where
  "page_offset p k = unat (load16 p (4 + 2 * k))"

definition page_string :: "page \<Rightarrow> nat \<Rightarrow> bytes" where
  "page_string p k =
     (let start = (if k = 0 then 0 else page_offset p (k - 1)); stop = page_offset p k
      in load_bytes p (4 + 2 * unat (load16 p 2) + start) (stop - start))"

definition page_chunk :: "page \<Rightarrow> bytes" where
  "page_chunk p = load_bytes p 4 (unat (load16 p 2))"

abbreviation long_first :: "page \<Rightarrow> bool" where "long_first p \<equiv> page_num_rows p = 0xffff"
abbreviation long_next :: "page \<Rightarrow> bool" where "long_next p \<equiv> page_num_rows p = 0xfffe"

fun decode_strings :: "page list \<Rightarrow> bytes option list" where
  "decode_strings [] = []"
| "decode_strings (p # ps) =
     (if long_first p
      then Some (page_chunk p @ concat (map page_chunk (takeWhile long_next ps))) # decode_strings ps
      else if long_next p then decode_strings ps
      else page_rows page_string p @ decode_strings ps)"

text \<open>A page of short strings whose offsets grow, one for each valid row.\<close>

definition page_offsets_ok :: "page \<Rightarrow> bool" where
  "page_offsets_ok p \<longleftrightarrow>
     (let cnt = unat (load16 p 2)
      in valid_rank (page_valid p) (page_num_rows p) \<le> cnt \<and>
         (\<forall>k. Suc k < cnt \<longrightarrow> page_offset p k \<le> page_offset p (Suc k)))"

text \<open>
  A group of pages that stands on its own: one page of short strings, or one long string. No page is
  empty, and only strings that do not fit a page of their own are spread over pages.
\<close>

definition string_group :: "page list \<Rightarrow> bytes option list \<Rightarrow> bool" where
  "string_group g rows \<longleftrightarrow>
     (\<exists>p. g = [p] \<and> page_num_rows p < 0xfffe \<and> page_offsets_ok p \<and> page_rows page_string p = rows \<and> rows \<noteq> []) \<or>
     (\<exists>p ps. g = p # ps \<and> long_first p \<and> (\<forall>q \<in> set ps. long_next q) \<and> rows = [Some (concat (map page_chunk g))] \<and>
        (\<forall>q \<in> set g. page_chunk q \<noteq> []) \<and> PAGE_SIZE - 7 < length (concat (map page_chunk g)))"

lemma decode_skip: "\<forall>q \<in> set ps. long_next q \<Longrightarrow> decode_strings (ps @ qs) = decode_strings qs"
  by (induction ps) auto

lemma decode_groups:
  assumes "\<forall>(g, rows) \<in> set gs. string_group g rows"
  shows "decode_strings (concat (map fst gs)) = concat (map snd gs)"
  using assms
proof (induction gs)
  case (Cons x gs)
  obtain g rows where x: "x = (g, rows)" by (cases x)
  have IH: "decode_strings (concat (map fst gs)) = concat (map snd gs)" using Cons by simp
  have first: "takeWhile long_next (concat (map fst gs)) = []"
    using Cons.prems by (cases gs) (auto simp: string_group_def)
  have "string_group g rows" using Cons.prems x by simp
  then show ?case
    unfolding string_group_def
  proof (elim disjE exE conjE)
    fix p assume "g = [p]" "page_num_rows p < 0xfffe" "page_offsets_ok p" "page_rows page_string p = rows"
    then show ?thesis using IH x by simp
  next
    fix p ps assume "g = p # ps" "long_first p" "\<forall>q \<in> set ps. long_next q" "rows = [Some (concat (map page_chunk g))]"
    moreover from this have "takeWhile long_next (ps @ concat (map fst gs)) = ps"
      using first by (induction ps) auto
    ultimately show ?thesis using IH x decode_skip by simp
  qed
qed simp

text \<open>A column that is a sequence of groups, with the rows it stores.\<close>

definition string_groups :: "page list \<Rightarrow> bytes option list \<Rightarrow> bool" where
  "string_groups pages rows \<longleftrightarrow>
     (\<exists>gs. pages = concat (map fst gs) \<and> rows = concat (map snd gs) \<and> (\<forall>(g, rows) \<in> set gs. string_group g rows))"

lemma string_groups_decode: "string_groups pages rows \<Longrightarrow> decode_strings pages = rows"
  using decode_groups by (auto simp: string_groups_def)

section \<open>The inserter\<close>

record str_inserter =
  si_column :: column
  si_last_page_idx :: nat
  si_num_rows :: u16
  si_data_size :: u16
  si_offset_end :: nat
  si_data :: bytes
  si_bitmap :: "u8 list"

definition str_inserter_new :: "column \<Rightarrow> str_inserter" where
  "str_inserter_new column =
     \<lparr>si_column = column, si_last_page_idx = 0, si_num_rows = 0, si_data_size = 0, si_offset_end = 4,
      si_data = replicate PAGE_SIZE 0, si_bitmap = replicate PAGE_SIZE 0\<rparr>"

function save_long_string ::
    "(nat \<Rightarrow> page) \<Rightarrow> bytes \<Rightarrow> nat \<Rightarrow> bool \<Rightarrow> str_inserter \<Rightarrow> str_inserter res" where
  "save_long_string fresh value offset first_page s =
     (if offset < length value
      then rbind (get_page fresh (si_last_page_idx s) (si_column s)) (\<lambda>(page, column).
           rbind (store_bytes page 0 (bytes16 (if first_page then 0xffff else 0xfffe))) (\<lambda>page.
           let page_data_len = min (length value - offset) (PAGE_SIZE - 4)
           in rbind (store_bytes page 2 (bytes16 (of_nat page_data_len))) (\<lambda>page.
              rbind (store_bytes page 4 (take page_data_len (drop offset value))) (\<lambda>page.
                save_long_string fresh value (offset + page_data_len) False
                  (s\<lparr>si_column := put_page (si_last_page_idx s) page column,
                     si_last_page_idx := si_last_page_idx s + 1\<rparr>)))))
      else Inr s)"
  by pat_completeness auto
termination
  by (relation "measure (\<lambda>(fresh, value, offset, first_page, s). length value - offset)")
    (auto simp: PAGE_SIZE_def)

declare save_long_string.simps [simp del]

definition str_save_page :: "(nat \<Rightarrow> page) \<Rightarrow> str_inserter \<Rightarrow> str_inserter res" where
  "str_save_page fresh s =
     rbind (get_page fresh (si_last_page_idx s) (si_column s)) (\<lambda>(page, column).
     let bitmap_size = (unat (si_num_rows s) + 7) div 8
     in rbind (store_bytes page 0 (bytes16 (si_num_rows s))) (\<lambda>page.
        rbind (store_bytes page 2 (bytes16 (of_nat ((si_offset_end s - 4) div 2)))) (\<lambda>page.
        rbind (store_bytes page (si_offset_end s) (take (unat (si_data_size s)) (si_data s))) (\<lambda>page.
        rbind (store_bytes page (PAGE_SIZE - bitmap_size) (take bitmap_size (si_bitmap s))) (\<lambda>page.
          Inr (s\<lparr>si_column := put_page (si_last_page_idx s) page column,
                 si_last_page_idx := si_last_page_idx s + 1,
                 si_num_rows := 0, si_data_size := 0, si_offset_end := 4\<rparr>))))))"

text \<open>\<open>memcpy\<close> into the 8192-byte character buffer; a longer copy is undefined.\<close>

definition copy_into :: "nat \<Rightarrow> bytes \<Rightarrow> bytes \<Rightarrow> bytes res" where
  "copy_into at_i value data =
     (if at_i + length value \<le> length data
      then Inr (take at_i data @ value @ drop (at_i + length value) data) else Inl Undefined)"

definition str_insert :: "(nat \<Rightarrow> page) \<Rightarrow> bytes \<Rightarrow> str_inserter \<Rightarrow> str_inserter res" where
  "str_insert fresh value s =
     (if PAGE_SIZE - 7 < length value
      then rbind (if 0 < unat (si_num_rows s) then str_save_page fresh s else Inr s)
             (save_long_string fresh value 0 True)
      else
        rbind (if PAGE_SIZE < si_offset_end s + 2 + unat (si_data_size s) + length value + unat (si_num_rows s) div 8 + 1
               then str_save_page fresh s else Inr s) (\<lambda>s.
        rbind (copy_into (unat (si_data_size s)) value (si_data s)) (\<lambda>data.
        let data_size = si_data_size s + of_nat (length value)
        in rbind (get_page fresh (si_last_page_idx s) (si_column s)) (\<lambda>(page, column).
           rbind (store_bytes page (si_offset_end s) (bytes16 data_size)) (\<lambda>page.
           rbind (set_bitmap (unat (si_num_rows s)) (si_bitmap s)) (\<lambda>bitmap.
             Inr (s\<lparr>si_data := data, si_data_size := data_size,
                    si_column := put_page (si_last_page_idx s) page column,
                    si_offset_end := si_offset_end s + 2, si_bitmap := bitmap,
                    si_num_rows := si_num_rows s + 1\<rparr>)))))))"

definition str_insert_null :: "(nat \<Rightarrow> page) \<Rightarrow> str_inserter \<Rightarrow> str_inserter res" where
  "str_insert_null fresh s =
     rbind (if PAGE_SIZE < si_offset_end s + unat (si_data_size s) + unat (si_num_rows s) div 8 + 1
            then str_save_page fresh s else Inr s) (\<lambda>s.
     rbind (unset_bitmap (unat (si_num_rows s)) (si_bitmap s)) (\<lambda>bitmap.
       Inr (s\<lparr>si_bitmap := bitmap, si_num_rows := si_num_rows s + 1\<rparr>)))"

definition str_finalize :: "(nat \<Rightarrow> page) \<Rightarrow> str_inserter \<Rightarrow> str_inserter res" where
  "str_finalize fresh s = (if si_num_rows s \<noteq> 0 then str_save_page fresh s else Inr s)"

definition insert_string :: "(nat \<Rightarrow> page) \<Rightarrow> bytes option \<Rightarrow> str_inserter \<Rightarrow> str_inserter res" where
  "insert_string fresh x s =
     (case x of None \<Rightarrow> str_insert_null fresh s | Some v \<Rightarrow> str_insert fresh v s)"

definition insert_strings :: "(nat \<Rightarrow> page) \<Rightarrow> bytes option list \<Rightarrow> column \<Rightarrow> column res" where
  "insert_strings fresh rows c =
     rbind (rfold (insert_string fresh) rows (str_inserter_new c)) (\<lambda>s.
     rbind (str_finalize fresh s) (\<lambda>s. Inr (si_column s)))"

section \<open>Short strings on a page\<close>

definition string_end :: "bytes list \<Rightarrow> nat \<Rightarrow> nat" where
  "string_end strs k = length (concat (take k strs))"

lemma string_end_simps [simp]: "string_end strs 0 = 0"
  by (simp add: string_end_def)

lemma string_end_Suc: "k < length strs \<Longrightarrow> string_end strs (Suc k) = string_end strs k + length (strs ! k)"
  by (simp add: string_end_def take_Suc_conv_app_nth)

lemma string_end_le: "string_end strs k \<le> length (concat strs)"
proof -
  have "concat strs = concat (take k strs) @ concat (drop k strs)"
    by (metis append_take_drop_id concat_append)
  then show ?thesis by (simp add: string_end_def)
qed

lemma string_slice:
  assumes "k < length strs"
  shows "take (length (strs ! k)) (drop (string_end strs k) (concat strs)) = strs ! k"
proof -
  have "concat strs = concat (take k strs) @ strs ! k @ concat (drop (Suc k) strs)"
    using assms by (metis concat.simps(2) concat_append id_take_nth_drop)
  then show ?thesis by (simp add: string_end_def)
qed

lemma load_bytes_slice:
  "load_bytes p a n = bs \<Longrightarrow> i + m \<le> n \<Longrightarrow> load_bytes p (a + i) m = take m (drop i bs)"
  by (auto simp: load_bytes_def add.assoc intro!: nth_equalityI)

lemma page_string_decode:
  assumes cnt: "unat (load16 q 2) = length strs"
    and offs: "\<And>k. k < length strs \<Longrightarrow> page_offset q k = string_end strs (Suc k)"
    and data: "load_bytes q (4 + 2 * length strs) (length (concat strs)) = concat strs"
    and k: "k < length strs"
  shows "page_string q k = strs ! k"
proof -
  have start: "(if k = 0 then 0 else page_offset q (k - 1)) = string_end strs k"
    using offs[of "k - 1"] k by (cases k) auto
  have len: "page_offset q k - string_end strs k = length (strs ! k)"
    using offs[OF k] string_end_Suc[OF k] by simp
  have "string_end strs k + length (strs ! k) \<le> length (concat strs)"
    using string_end_le[of strs "Suc k"] string_end_Suc[OF k] by simp
  from load_bytes_slice[OF data this] show ?thesis
    unfolding page_string_def Let_def start cnt len by (simp add: string_slice[OF k])
qed

text \<open>A saved page of strings decodes to its rows, and its offsets are in order.\<close>

lemma string_page_rows:
  assumes num: "page_num_rows q = length rs"
    and valid: "\<And>i. i < length rs \<Longrightarrow> page_valid q i \<longleftrightarrow> rs ! i \<noteq> None"
    and cnt: "unat (load16 q 2) = length (present rs)"
    and offs: "\<And>k. k < length (present rs) \<Longrightarrow> page_offset q k = string_end (present rs) (Suc k)"
    and data: "load_bytes q (4 + 2 * length (present rs)) (length (concat (present rs))) = concat (present rs)"
  shows "page_rows page_string q = rs \<and> page_offsets_ok q"
proof
  show "page_rows page_string q = rs"
    using num valid page_string_decode[OF cnt offs data] by (rule page_rows_decode)
  have "valid_rank (page_valid q) (length rs) = length (present (take (length rs) rs))"
    using valid by (intro present_rank) auto
  moreover have "string_end (present rs) k \<le> string_end (present rs) (Suc k)" if "k < length (present rs)" for k
    using string_end_Suc[OF that] by simp
  ultimately show "page_offsets_ok q"
    using num cnt offs by (auto simp: page_offsets_ok_def)
qed

lemma saved_string_page:
  fixes n :: u16
  defines "bs \<equiv> (unat n + 7) div 8"
  assumes h1: "store_bytes p 0 (bytes16 n) = Inr p1" and h2: "store_bytes p1 2 (bytes16 c) = Inr p2"
    and dat: "store_bytes p2 d str = Inr p3"
    and bm: "store_bytes p3 (PAGE_SIZE - bs) (take bs bitmap) = Inr q"
    and len: "bs \<le> length bitmap" and room: "d + length str + bs \<le> PAGE_SIZE" "4 \<le> d"
  shows "page_num_rows q = unat n" "load16 q 2 = c"
    "\<And>i. i < unat n \<Longrightarrow> page_valid q i \<longleftrightarrow> get_bitmap (\<lambda>i. bitmap ! i) i"
    "\<And>a m. 4 \<le> a \<Longrightarrow> a + m \<le> d \<Longrightarrow> load_bytes q a m = load_bytes p a m"
    "load_bytes q d (length str) = str"
proof -
  have bs: "length (take bs bitmap) = bs" using len room by simp
  have keep: "load_bytes q a m = load_bytes p2 a m" if "a + m \<le> d" for a m
  proof -
    have "a + m \<le> PAGE_SIZE - bs" using that room by linarith
    then show ?thesis using load_store_disjoint[OF bm, of a m] load_store_disjoint[OF dat, of a m] that by simp
  qed
  have "load_bytes p2 0 2 = load_bytes p1 0 2" using load_store_disjoint[OF h2, of 0 2] by simp
  then show n: "page_num_rows q = unat n"
    using keep[of 0 2] load_store_same[OF h1] room by (simp add: page_num_rows_def load_of_bytes)
  show "load16 q 2 = c"
    using keep[of 2 2] load_store_same[OF h2] room by (simp add: load_of_bytes)
  show "page_valid q i \<longleftrightarrow> get_bitmap (\<lambda>i. bitmap ! i) i" if "i < unat n" for i
    unfolding page_valid_def
  proof (rule get_bitmap_cong)
    fix j assume "j \<le> i div 8"
    then have "j < bs" using that by (simp add: bs_def)
    then show "page_bitmap q j = bitmap ! j"
      using store_byte_inside[OF bm, of j] bs by (simp add: page_bitmap_def n bs_def[symmetric])
  qed
  show "load_bytes q a m = load_bytes p a m" if "4 \<le> a" "a + m \<le> d" for a m
    using keep[OF that(2)] load_store_disjoint[OF h2, of a m] load_store_disjoint[OF h1, of a m] that by simp
  have "d + length str \<le> PAGE_SIZE - bs" using room by linarith
  then have "load_bytes q d (length str) = load_bytes p3 d (length str)"
    using load_store_disjoint[OF bm, of d "length str"] by blast
  then show "load_bytes q d (length str) = str" using load_store_same[OF dat] by simp
qed

section \<open>The invariant of the inserter\<close>

definition str_inv ::
    "data_type \<Rightarrow> str_inserter \<Rightarrow> (page list \<times> bytes option list) list \<Rightarrow> bytes option list \<Rightarrow> bool" where
  "str_inv ty s D rs \<longleftrightarrow>
     (let pages = col_pages (si_column s); last_i = si_last_page_idx s; strs = present rs; k = length strs
      in col_type (si_column s) = ty \<and> unat (si_num_rows s) = length rs \<and> si_offset_end s = 4 + 2 * k \<and>
         unat (si_data_size s) = length (concat strs) \<and> length (si_data s) = PAGE_SIZE \<and>
         take (length (concat strs)) (si_data s) = concat strs \<and> length (si_bitmap s) = PAGE_SIZE \<and>
         (\<forall>i < length rs. get_bitmap (\<lambda>i. si_bitmap s ! i) i \<longleftrightarrow> rs ! i \<noteq> None) \<and>
         4 + 2 * k + length (concat strs) + (length rs + 7) div 8 \<le> PAGE_SIZE \<and>
         last_i \<le> length pages \<and> length pages \<le> last_i + 1 \<and>
         take last_i pages = concat (map fst D) \<and> (\<forall>(g, rows) \<in> set D. string_group g rows) \<and>
         (0 < k \<longrightarrow> length pages = last_i + 1 \<and>
            (\<forall>i < k. load_bytes (pages ! last_i) (4 + 2 * i) 2 = bytes16 (of_nat (string_end strs (Suc i))))) \<and>
         (rs = [] \<longrightarrow> length pages = last_i))"

lemma str_invD:
  assumes "str_inv ty s D rs"
  shows "col_type (si_column s) = ty" "unat (si_num_rows s) = length rs"
    "si_offset_end s = 4 + 2 * length (present rs)" "unat (si_data_size s) = length (concat (present rs))"
    "length (si_data s) = PAGE_SIZE" "take (length (concat (present rs))) (si_data s) = concat (present rs)"
    "length (si_bitmap s) = PAGE_SIZE"
    "\<And>i. i < length rs \<Longrightarrow> get_bitmap (\<lambda>i. si_bitmap s ! i) i \<longleftrightarrow> rs ! i \<noteq> None"
    "4 + 2 * length (present rs) + length (concat (present rs)) + (length rs + 7) div 8 \<le> PAGE_SIZE"
    "si_last_page_idx s \<le> length (col_pages (si_column s))"
    "length (col_pages (si_column s)) \<le> si_last_page_idx s + 1"
    "take (si_last_page_idx s) (col_pages (si_column s)) = concat (map fst D)"
    "\<forall>(g, rows) \<in> set D. string_group g rows"
    "0 < length (present rs) \<Longrightarrow> length (col_pages (si_column s)) = si_last_page_idx s + 1"
    "\<And>i. i < length (present rs) \<Longrightarrow> load_bytes (col_pages (si_column s) ! si_last_page_idx s) (4 + 2 * i) 2 =
       bytes16 (of_nat (string_end (present rs) (Suc i)))"
    "rs = [] \<Longrightarrow> length (col_pages (si_column s)) = si_last_page_idx s"
  using assms by (auto simp: str_inv_def Let_def)

lemma str_save_page_correct:
  assumes inv: "str_inv ty s D rs" and rs: "rs \<noteq> []"
  shows "\<exists>s' g. str_save_page fresh s = Inr s' \<and> str_inv ty s' (D @ [(g, rs)]) []"
proof -
  note I = str_invD[OF inv]
  let ?l = "si_last_page_idx s" and ?n = "si_num_rows s" and ?strs = "present rs"
  let ?bs = "(unat ?n + 7) div 8" and ?d = "si_offset_end s"
  let ?str = "take (unat (si_data_size s)) (si_data s)"
  have str: "?str = concat ?strs" using I(4,6) by simp
  obtain page c where gp: "get_page fresh ?l (si_column s) = Inr (page, c)" "col_type c = ty"
    "length (col_pages c) = ?l + 1" "take ?l (col_pages c) = take ?l (col_pages (si_column s))"
    "page = col_pages c ! ?l" "length (col_pages (si_column s)) = ?l + 1 \<longrightarrow> c = si_column s"
    using get_page_current[OF I(10,11)] I(1) by metis
  let ?c = "of_nat ((si_offset_end s - 4) div 2) :: u16"
  have cnt: "unat ?c = length ?strs"
    using I(3,9) by (subst unat_of_nat_less) (simp_all add: PAGE_SIZE_def)
  obtain p1 where p1: "store_bytes page 0 (bytes16 ?n) = Inr p1" using store_ok[of 0 "bytes16 ?n"] by (auto simp: PAGE_SIZE_def)
  obtain p2 where p2: "store_bytes p1 2 (bytes16 ?c) = Inr p2" using store_ok[of 2 "bytes16 ?c"] by (auto simp: PAGE_SIZE_def)
  have room: "?d + length ?str + ?bs \<le> PAGE_SIZE" "4 \<le> ?d" using I(2,3,9) str by simp_all
  obtain p3 where p3: "store_bytes p2 ?d ?str = Inr p3" using store_ok[of ?d ?str p2] room by auto
  have bs: "length (take ?bs (si_bitmap s)) = ?bs" using I(7) room by simp
  then obtain q where q: "store_bytes p3 (PAGE_SIZE - ?bs) (take ?bs (si_bitmap s)) = Inr q"
    using store_ok[of "PAGE_SIZE - ?bs" "take ?bs (si_bitmap s)" p3] room by auto
  have bs_len: "?bs \<le> length (si_bitmap s)" using I(7) room by simp
  note saved = saved_string_page[OF p1 p2 p3 q bs_len room]
  have n_small: "length rs < 0xfffe" using I(9) by (simp add: PAGE_SIZE_def)
  have "page_rows page_string q = rs \<and> page_offsets_ok q"
  proof (rule string_page_rows)
    show "page_num_rows q = length rs" using saved(1) I(2) by simp
    show "page_valid q i \<longleftrightarrow> rs ! i \<noteq> None" if "i < length rs" for i using saved(3)[of i] I(2,8) that by simp
    show "unat (load16 q 2) = length ?strs" using saved(2) cnt by simp
    show "load_bytes q (4 + 2 * length ?strs) (length (concat ?strs)) = concat ?strs"
      using saved(5) str I(3) by simp
    fix i assume i: "i < length ?strs"
    have "length (col_pages (si_column s)) = ?l + 1" using i by (intro I(14)) auto
    then have "load_bytes page (4 + 2 * i) 2 = bytes16 (of_nat (string_end ?strs (Suc i)))"
      using I(15)[OF i] gp(5,6) by simp
    moreover have "load_bytes q (4 + 2 * i) 2 = load_bytes page (4 + 2 * i) 2"
      using i I(3) by (intro saved(4)) auto
    moreover have "string_end ?strs (Suc i) < 2 ^ 16"
      using string_end_le[of ?strs "Suc i"] I(9) by (simp add: PAGE_SIZE_def)
    ultimately show "page_offset q i = string_end ?strs (Suc i)"
      by (simp add: page_offset_def load_of_bytes unat_of_nat_less)
  qed
  then have group: "string_group [q] rs"
    using saved(1) I(2) n_small rs by (auto simp: string_group_def)
  let ?s = "s\<lparr>si_column := put_page ?l q c, si_last_page_idx := ?l + 1, si_num_rows := 0, si_data_size := 0, si_offset_end := 4\<rparr>"
  have "take (Suc ?l) ((col_pages c)[?l := q]) = take ?l (col_pages c) @ [q]"
    using gp(3) by (subst take_Suc_conv_app_nth) simp_all
  moreover have "length (concat (map fst D)) = ?l"
    using I(10) by (simp flip: I(12))
  ultimately have "str_inv ty ?s (D @ [([q], rs)]) []"
    using gp(2-4) I(5,7,12,13) group
    by (simp add: str_inv_def put_page_def Let_def PAGE_SIZE_def)
  moreover have "str_save_page fresh s = Inr ?s"
    using gp(1) p1 p2 p3 q by (simp add: str_save_page_def Let_def)
  ultimately show ?thesis by blast
qed

lemma get_page_fresh:
  "length (col_pages c) = l \<Longrightarrow> get_page fresh l c = Inr (fresh l, new_page fresh c)"
  by (simp add: get_page_def new_page_def nth_append)

lemma long_page_written:
  assumes "length chunk \<le> PAGE_SIZE - 4"
  obtains p1 p2 q where "store_bytes p 0 (bytes16 tag) = Inr p1"
    "store_bytes p1 2 (bytes16 (of_nat (length chunk))) = Inr p2" "store_bytes p2 4 chunk = Inr q"
    "page_num_rows q = unat tag" "page_chunk q = chunk"
proof -
  obtain p1 where p1: "store_bytes p 0 (bytes16 tag) = Inr p1"
    using store_ok[of 0 "bytes16 tag"] by (auto simp: PAGE_SIZE_def)
  obtain p2 where p2: "store_bytes p1 2 (bytes16 (of_nat (length chunk))) = Inr p2"
    using store_ok[of 2 "bytes16 (of_nat (length chunk))"] by (auto simp: PAGE_SIZE_def)
  obtain q where q: "store_bytes p2 4 chunk = Inr q"
    using store_ok[of 4 chunk p2] assms by (auto simp: PAGE_SIZE_def)
  have "page_num_rows q = unat tag"
    using load_store_disjoint[OF q, of 0 2] load_store_disjoint[OF p2, of 0 2] load_store_same[OF p1]
    by (simp add: page_num_rows_def load_of_bytes)
  moreover have "load16 q 2 = of_nat (length chunk)"
    using load_store_disjoint[OF q, of 2 2] load_store_same[OF p2] by (simp add: load_of_bytes)
  moreover have "unat (of_nat (length chunk) :: u16) = length chunk"
    using assms by (intro unat_of_nat_less) (simp add: PAGE_SIZE_def)
  ultimately show ?thesis
    using that[OF p1 p2 q] load_store_same[OF q] by (simp add: page_chunk_def)
qed

lemma save_long_string_correct:
  assumes "length (col_pages (si_column s)) = si_last_page_idx s" "offset \<le> length txt_v"
  shows "\<exists>s' g. save_long_string fresh txt_v offset fst_page s = Inr s' \<and>
    col_pages (si_column s') = col_pages (si_column s) @ g \<and> col_type (si_column s') = col_type (si_column s) \<and>
    si_last_page_idx s' = si_last_page_idx s + length g \<and>
    si_num_rows s' = si_num_rows s \<and> si_data_size s' = si_data_size s \<and> si_offset_end s' = si_offset_end s \<and>
    si_data s' = si_data s \<and> si_bitmap s' = si_bitmap s \<and>
    concat (map page_chunk g) = drop offset txt_v \<and> (\<forall>q \<in> set g. page_chunk q \<noteq> []) \<and>
    (g \<noteq> [] \<longrightarrow> page_num_rows (hd g) = (if fst_page then 0xffff else 0xfffe)) \<and> (\<forall>q \<in> set (tl g). long_next q)"
  using assms
proof (induction "length txt_v - offset" arbitrary: offset fst_page s rule: less_induct)
  case (less offset fst_page s)
  show ?case
  proof (cases "offset < length txt_v")
    case True
    let ?l = "si_last_page_idx s" and ?c = "new_page fresh (si_column s)"
    let ?len = "min (length txt_v - offset) (PAGE_SIZE - 4)"
    let ?tag = "if fst_page then 0xffff else 0xfffe :: u16" and ?chunk = "take ?len (drop offset txt_v)"
    have gp: "get_page fresh ?l (si_column s) = Inr (fresh ?l, ?c)" using get_page_fresh less.prems(1) by blast
    have clen: "length ?chunk = ?len" by simp
    obtain p1 p2 q where p1: "store_bytes (fresh ?l) 0 (bytes16 ?tag) = Inr p1"
      and p2: "store_bytes p1 2 (bytes16 (of_nat ?len)) = Inr p2" and q: "store_bytes p2 4 ?chunk = Inr q"
      and tag: "page_num_rows q = unat ?tag" and chunk: "page_chunk q = ?chunk"
      by (rule long_page_written[of ?chunk "fresh ?l" ?tag]) (unfold clen, simp_all)
    have num: "page_num_rows q = (if fst_page then 0xffff else 0xfffe)" using tag by simp
    let ?s1 = "s\<lparr>si_column := put_page ?l q ?c, si_last_page_idx := ?l + 1\<rparr>"
    have s1: "col_pages (si_column ?s1) = col_pages (si_column s) @ [q]"
      using less.prems(1) by (simp add: put_page_def new_page_def list_update_append)
    have step: "save_long_string fresh txt_v offset fst_page s = save_long_string fresh txt_v (offset + ?len) False ?s1"
      using True gp p1 p2 q by (subst save_long_string.simps) (simp add: Let_def)
    have "length (col_pages (si_column ?s1)) = si_last_page_idx ?s1" using s1 less.prems(1) by simp
    moreover have "offset + ?len \<le> length txt_v" using True by simp
    moreover have "length txt_v - (offset + ?len) < length txt_v - offset"
    proof -
      have "0 < ?len" using True by (simp add: PAGE_SIZE_def)
      then show ?thesis using True by linarith
    qed
    ultimately obtain s' g where IH:
      "save_long_string fresh txt_v (offset + ?len) False ?s1 = Inr s'"
      "col_pages (si_column s') = col_pages (si_column ?s1) @ g" "col_type (si_column s') = col_type (si_column ?s1)"
      "si_last_page_idx s' = si_last_page_idx ?s1 + length g"
      "si_num_rows s' = si_num_rows ?s1" "si_data_size s' = si_data_size ?s1" "si_offset_end s' = si_offset_end ?s1"
      "si_data s' = si_data ?s1" "si_bitmap s' = si_bitmap ?s1"
      "concat (map page_chunk g) = drop (offset + ?len) txt_v" "\<forall>q \<in> set g. page_chunk q \<noteq> []"
      "g \<noteq> [] \<longrightarrow> page_num_rows (hd g) = (if False then 0xffff else 0xfffe)" "\<forall>q \<in> set (tl g). long_next q"
      using less.hyps[of "offset + ?len" ?s1 False] by blast
    have all: "\<forall>q \<in> set g. long_next q"
      using IH(12,13) by (cases g) auto
    have "?chunk \<noteq> []" using True by (simp add: PAGE_SIZE_def)
    then have ne: "page_chunk q \<noteq> []" by (simp only: chunk not_False_eq_True)
    have "?chunk @ drop (offset + ?len) txt_v = drop offset txt_v"
      by (metis append_take_drop_id drop_drop add.commute)
    then have "concat (map page_chunk (q # g)) = drop offset txt_v" using IH(10) chunk by simp
    then show ?thesis
      using step IH(1-9,11) s1 num all ne
      by (intro exI[of _ s'] exI[of _ "q # g"]) (simp add: put_page_def new_page_def)
  next
    case False
    then show ?thesis
      using less.prems by (intro exI[of _ s] exI[of _ "[]"]) (subst save_long_string.simps, simp)
  qed
qed

section \<open>Inserting rows\<close>

abbreviation group_rows :: "(page list \<times> bytes option list) list \<Rightarrow> bytes option list" where
  "group_rows D \<equiv> concat (map snd D)"

text \<open>The row is appended to the rows inserted so far, wherever they are stored.\<close>

definition str_appends ::
    "data_type \<Rightarrow> (page list \<times> bytes option list) list \<Rightarrow> bytes option list \<Rightarrow> bytes option list \<Rightarrow>
     str_inserter res \<Rightarrow> bool" where
  "str_appends ty D rs new r \<longleftrightarrow>
     (\<exists>s' D' rs'. r = Inr s' \<and> str_inv ty s' D' rs' \<and> group_rows D' @ rs' = group_rows D @ rs @ new)"

lemma str_guard_room:
  assumes inv: "str_inv ty s D rs" and extra: "4 + extra + 1 \<le> PAGE_SIZE"
  shows "\<exists>s' D' rs'. (if PAGE_SIZE < si_offset_end s + extra + unat (si_data_size s) + unat (si_num_rows s) div 8 + 1
            then str_save_page fresh s else Inr s) = Inr s' \<and>
     str_inv ty s' D' rs' \<and> group_rows D' @ rs' = group_rows D @ rs \<and>
     si_offset_end s' + extra + unat (si_data_size s') + unat (si_num_rows s') div 8 + 1 \<le> PAGE_SIZE"
proof (cases "PAGE_SIZE < si_offset_end s + extra + unat (si_data_size s) + unat (si_num_rows s) div 8 + 1")
  case True
  then have "rs \<noteq> []" using str_invD(2,3,4)[OF inv] extra by auto
  then obtain s' g where s': "str_save_page fresh s = Inr s'" "str_inv ty s' (D @ [(g, rs)]) []"
    using str_save_page_correct[OF inv] by blast
  have "si_offset_end s' + extra + unat (si_data_size s') + unat (si_num_rows s') div 8 + 1 \<le> PAGE_SIZE"
    using str_invD(2,3,4)[OF s'(2)] extra by simp
  with True s' show ?thesis
    by (intro exI[of _ s'] exI[of _ "D @ [(g, rs)]"] exI[of _ "[]"]) simp
next
  case False
  with inv show ?thesis by (intro exI[of _ s] exI[of _ D] exI[of _ rs]) simp
qed

lemma str_inv_small:
  assumes "str_inv ty s D rs"
  shows "length rs < 65535" "length rs div 8 < length (si_bitmap s)"
  using str_invD(7,9)[OF assms] by (auto simp: PAGE_SIZE_def)

lemma str_insert_null_correct:
  assumes inv: "str_inv ty s D rs"
  shows "str_appends ty D rs [None] (str_insert_null fresh s)"
proof -
  obtain s1 D1 rs1 where s1: "(if PAGE_SIZE < si_offset_end s + unat (si_data_size s) + unat (si_num_rows s) div 8 + 1
      then str_save_page fresh s else Inr s) = Inr s1" "str_inv ty s1 D1 rs1" "group_rows D1 @ rs1 = group_rows D @ rs"
    "si_offset_end s1 + unat (si_data_size s1) + unat (si_num_rows s1) div 8 + 1 \<le> PAGE_SIZE"
    using str_guard_room[OF inv, of 0 fresh] by (auto simp: PAGE_SIZE_def)
  note I = str_invD[OF s1(2)] and small = str_inv_small[OF s1(2)]
  let ?i = "unat (si_num_rows s1)"
  obtain bm where bm: "unset_bitmap ?i (si_bitmap s1) = Inr bm"
    using small(2) I(2) by (simp add: unset_bitmap_def)
  note bits = bitmap_bits_unset[OF bm]
  let ?s = "s1\<lparr>si_bitmap := bm, si_num_rows := si_num_rows s1 + 1\<rparr>"
  have "str_inv ty ?s D1 (rs1 @ [None])"
    unfolding str_inv_def Let_def
  proof (intro conjI)
    show "unat (si_num_rows ?s) = length (rs1 @ [None])" using I(2) small(1) by (simp add: u16_next)
    show "\<forall>i < length (rs1 @ [None]). get_bitmap (\<lambda>i. si_bitmap ?s ! i) i \<longleftrightarrow> (rs1 @ [None]) ! i \<noteq> None"
      using I(2,8) bits(2) by (auto simp: less_Suc_eq nth_append)
    show "4 + 2 * length (present (rs1 @ [None])) + length (concat (present (rs1 @ [None]))) +
        (length (rs1 @ [None]) + 7) div 8 \<le> PAGE_SIZE"
      using s1(4) I(2,3,4) by simp
  qed (use I bits(1) in auto)
  moreover have "group_rows D1 @ rs1 @ [None] = group_rows D @ rs @ [None]"
    using s1(3) by (metis append_assoc)
  ultimately show ?thesis
    unfolding str_appends_def using s1(1) bm
    by (intro exI[of _ ?s] exI[of _ D1] exI[of _ "rs1 @ [None]"]) (simp add: str_insert_null_def)
qed

lemma str_insert_short_correct:
  assumes inv: "str_inv ty s D rs" and short: "length v \<le> PAGE_SIZE - 7"
  shows "str_appends ty D rs [Some v] (str_insert fresh v s)"
proof -
  have fits: "4 + (2 + length v) + 1 \<le> PAGE_SIZE" using short by (simp add: PAGE_SIZE_def)
  obtain s1 D1 rs1 where s1: "(if PAGE_SIZE < si_offset_end s + 2 + unat (si_data_size s) + length v + unat (si_num_rows s) div 8 + 1
      then str_save_page fresh s else Inr s) = Inr s1" "str_inv ty s1 D1 rs1" "group_rows D1 @ rs1 = group_rows D @ rs"
    "si_offset_end s1 + 2 + unat (si_data_size s1) + length v + unat (si_num_rows s1) div 8 + 1 \<le> PAGE_SIZE"
    using str_guard_room[OF inv fits, of fresh] by (auto simp: ac_simps)
  note I = str_invD[OF s1(2)] and small = str_inv_small[OF s1(2)]
  let ?i = "unat (si_num_rows s1)" and ?l = "si_last_page_idx s1" and ?strs = "present rs1"
  let ?ds = "si_data_size s1 + of_nat (length v)"
  have lens: "4 + 2 * length ?strs + 2 + length (concat ?strs) + length v + length rs1 div 8 + 1 \<le> PAGE_SIZE"
    using s1(4) I(2,3,4) by simp
  have ds: "unat ?ds = length (concat (?strs @ [v]))" and ds_word: "?ds = of_nat (string_end (?strs @ [v]) (Suc (length ?strs)))"
  proof -
    have "unat (of_nat (length v) :: u16) = length v" using lens by (intro unat_of_nat_less) (simp add: PAGE_SIZE_def)
    then show *: "unat ?ds = length (concat (?strs @ [v]))"
      using I(4) lens by (subst unat_plus_less) (simp_all add: PAGE_SIZE_def)
    have "?ds = of_nat (unat ?ds)" by simp
    then show "?ds = of_nat (string_end (?strs @ [v]) (Suc (length ?strs)))"
      unfolding * string_end_def by simp
  qed
  obtain data where data: "copy_into (unat (si_data_size s1)) v (si_data s1) = Inr data"
    "length data = PAGE_SIZE" "take (length (concat (?strs @ [v]))) data = concat (?strs @ [v])"
  proof -
    let ?n = "length (concat ?strs)"
    have room: "?n + length v \<le> length (si_data s1)" using lens I(5) by simp
    let ?data = "take ?n (si_data s1) @ v @ drop (?n + length v) (si_data s1)"
    have "length ?data = PAGE_SIZE" using room I(5) by simp
    moreover have "take (length (concat (?strs @ [v]))) ?data = concat (?strs @ [v])"
      using I(6) room by simp
    ultimately show ?thesis using room I(4) that[of ?data] by (simp add: copy_into_def)
  qed
  obtain page c where gp: "get_page fresh ?l (si_column s1) = Inr (page, c)" "col_type c = ty"
    "length (col_pages c) = ?l + 1" "take ?l (col_pages c) = take ?l (col_pages (si_column s1))"
    "page = col_pages c ! ?l" "length (col_pages (si_column s1)) = ?l + 1 \<longrightarrow> c = si_column s1"
    using get_page_current[OF I(10,11)] I(1) by metis
  obtain q where q: "store_bytes page (si_offset_end s1) (bytes16 ?ds) = Inr q"
    using store_ok[of "si_offset_end s1" "bytes16 ?ds" page] s1(4) by auto
  obtain bm where bm: "set_bitmap ?i (si_bitmap s1) = Inr bm"
    using small(2) I(2) by (simp add: set_bitmap_def)
  note bits = bitmap_bits_set[OF bm]
  let ?s = "s1\<lparr>si_data := data, si_data_size := ?ds, si_column := put_page ?l q c,
               si_offset_end := si_offset_end s1 + 2, si_bitmap := bm, si_num_rows := si_num_rows s1 + 1\<rparr>"
  have offs: "load_bytes q (4 + 2 * i) 2 = bytes16 (of_nat (string_end (?strs @ [v]) (Suc i)))"
    if "i < length (?strs @ [v])" for i
  proof (cases "i = length ?strs")
    case True
    have "load_bytes q (si_offset_end s1) 2 = bytes16 ?ds" using load_store_same[OF q] by simp
    then show ?thesis using I(3) True ds_word by simp
  next
    case False
    then have i: "i < length ?strs" using that by simp
    then have "length (col_pages (si_column s1)) = ?l + 1" by (intro I(14)) auto
    then have "load_bytes page (4 + 2 * i) 2 = bytes16 (of_nat (string_end ?strs (Suc i)))"
      using I(15)[OF i] gp(5,6) by simp
    moreover have "string_end (?strs @ [v]) (Suc i) = string_end ?strs (Suc i)"
      using i by (simp add: string_end_def)
    ultimately show ?thesis
      using load_store_disjoint[OF q, of "4 + 2 * i" 2] I(3) i by simp
  qed
  have strs: "present (rs1 @ [Some v]) = ?strs @ [v]" by simp
  have "str_inv ty ?s D1 (rs1 @ [Some v])"
    unfolding str_inv_def Let_def strs
  proof (intro conjI)
    show "unat (si_num_rows ?s) = length (rs1 @ [Some v])" using I(2) small(1) by (simp add: u16_next)
    show "\<forall>i < length (rs1 @ [Some v]). get_bitmap (\<lambda>i. si_bitmap ?s ! i) i \<longleftrightarrow> (rs1 @ [Some v]) ! i \<noteq> None"
      using I(2,8) bits(2) by (auto simp: less_Suc_eq nth_append)
    show "4 + 2 * length (?strs @ [v]) + length (concat (?strs @ [v])) + (length (rs1 @ [Some v]) + 7) div 8 \<le> PAGE_SIZE"
      using lens by simp
    show "0 < length (?strs @ [v]) \<longrightarrow> length (col_pages (si_column ?s)) = si_last_page_idx ?s + 1 \<and>
        (\<forall>i < length (?strs @ [v]). load_bytes (col_pages (si_column ?s) ! si_last_page_idx ?s) (4 + 2 * i) 2 =
          bytes16 (of_nat (string_end (?strs @ [v]) (Suc i))))"
      using offs gp(3) by (simp add: put_page_def)
    show "unat (si_data_size ?s) = length (concat (?strs @ [v]))" using ds by simp
    show "take (length (concat (?strs @ [v]))) (si_data ?s) = concat (?strs @ [v])" using data(3) by simp
  qed (use I(1-3,7,12,13) bits(1) gp data(2) in \<open>auto simp: put_page_def\<close>)
  moreover have "group_rows D1 @ rs1 @ [Some v] = group_rows D @ rs @ [Some v]"
    using s1(3) by (metis append_assoc)
  moreover have "str_insert fresh v s = Inr ?s"
    using s1(1) gp(1) q bm data(1) short by (simp add: str_insert_def Let_def)
  ultimately show ?thesis
    unfolding str_appends_def by (intro exI[of _ ?s] exI[of _ D1] exI[of _ "rs1 @ [Some v]"]) simp
qed

lemma str_insert_long_correct:
  assumes inv: "str_inv ty s D rs" and long: "PAGE_SIZE - 7 < length v"
  shows "str_appends ty D rs [Some v] (str_insert fresh v s)"
proof -
  obtain s1 D1 where s1: "(if 0 < unat (si_num_rows s) then str_save_page fresh s else Inr s) = Inr s1"
    "str_inv ty s1 D1 []" "group_rows D1 = group_rows D @ rs"
  proof (cases "rs = []")
    case True
    then show ?thesis using str_invD(2)[OF inv] inv that[of s D] by simp
  next
    case False
    obtain s' g where "str_save_page fresh s = Inr s'" "str_inv ty s' (D @ [(g, rs)]) []"
      using str_save_page_correct[OF inv False] by blast
    then show ?thesis using str_invD(2)[OF inv] False that[of s' "D @ [(g, rs)]"] by simp
  qed
  note I = str_invD[OF s1(2)]
  obtain s2 g where s2: "save_long_string fresh v 0 True s1 = Inr s2"
    "col_pages (si_column s2) = col_pages (si_column s1) @ g" "col_type (si_column s2) = col_type (si_column s1)"
    "si_last_page_idx s2 = si_last_page_idx s1 + length g"
    "si_num_rows s2 = si_num_rows s1 \<and> si_data_size s2 = si_data_size s1 \<and> si_offset_end s2 = si_offset_end s1 \<and>
     si_data s2 = si_data s1 \<and> si_bitmap s2 = si_bitmap s1"
    "concat (map page_chunk g) = v" "\<forall>q \<in> set g. page_chunk q \<noteq> []"
    "g \<noteq> [] \<longrightarrow> long_first (hd g)" "\<forall>q \<in> set (tl g). long_next q"
    using save_long_string_correct[of s1 0 v fresh True] I(16) by auto
  have "g \<noteq> []" using s2(6) long by auto
  then have "string_group g [Some v]" using s2(6-9) long by (cases g) (auto simp: string_group_def)
  then have "str_inv ty s2 (D1 @ [(g, [Some v])]) []"
    using I(1-7,12,13,16) s2(2-5) by (simp add: str_inv_def Let_def PAGE_SIZE_def)
  then show ?thesis
    unfolding str_appends_def using s1(1,3) s2(1) long
    by (intro exI[of _ s2] exI[of _ "D1 @ [(g, [Some v])]"] exI[of _ "[]"]) (simp add: str_insert_def)
qed

lemma insert_string_correct:
  assumes "str_inv ty s D rs"
  shows "str_appends ty D rs [x] (insert_string fresh x s)"
proof (cases x)
  case (Some v)
  then show ?thesis
    using str_insert_short_correct[OF assms, of v fresh] str_insert_long_correct[OF assms, of v fresh]
    by (cases "length v \<le> PAGE_SIZE - 7") (simp_all add: insert_string_def)
qed (simp add: insert_string_def str_insert_null_correct[OF assms])

lemma insert_string_all:
  assumes "str_inv ty s D rs"
  shows "str_appends ty D rs rows (rfold (insert_string fresh) rows s)"
  using assms
proof (induction rows arbitrary: s D rs)
  case (Cons x rows)
  obtain s1 D1 rs1 where s1: "insert_string fresh x s = Inr s1" "str_inv ty s1 D1 rs1"
    "group_rows D1 @ rs1 = group_rows D @ rs @ [x]"
    using insert_string_correct[OF Cons.prems, of x fresh] by (auto simp: str_appends_def)
  obtain s2 D2 rs2 where s2: "rfold (insert_string fresh) rows s1 = Inr s2" "str_inv ty s2 D2 rs2"
    "group_rows D2 @ rs2 = group_rows D1 @ rs1 @ rows"
    using Cons.IH[OF s1(2)] by (auto simp: str_appends_def)
  have "group_rows D2 @ rs2 = (group_rows D1 @ rs1) @ rows" using s2(3) by simp
  then have "group_rows D2 @ rs2 = group_rows D @ rs @ (x # rows)" unfolding s1(3) by simp
  with s1(1) s2(1,2) show ?case unfolding str_appends_def by auto
qed (auto simp: str_appends_def)

lemma str_inserter_new_inv:
  "col_pages c = [] \<Longrightarrow> str_inv (col_type c) (str_inserter_new c) [] []"
  by (simp add: str_inv_def str_inserter_new_def Let_def PAGE_SIZE_def)

lemma str_finalize_correct:
  assumes inv: "str_inv ty s D rs"
  shows "\<exists>s' D'. str_finalize fresh s = Inr s' \<and> str_inv ty s' D' [] \<and> group_rows D' = group_rows D @ rs"
proof (cases "rs = []")
  case True
  then have "si_num_rows s = 0" using str_invD(2)[OF inv] by (simp add: unat_eq_zero)
  then show ?thesis using inv True by (intro exI[of _ s] exI[of _ D]) (simp add: str_finalize_def)
next
  case False
  then have "si_num_rows s \<noteq> 0" using str_invD(2)[OF inv] by auto
  moreover obtain s' g where "str_save_page fresh s = Inr s'" "str_inv ty s' (D @ [(g, rs)]) []"
    using str_save_page_correct[OF inv False] by blast
  ultimately show ?thesis by (intro exI[of _ s'] exI[of _ "D @ [(g, rs)]"]) (simp add: str_finalize_def)
qed

lemma insert_strings_correct:
  assumes "col_pages c = []"
  shows "\<exists>c'. insert_strings fresh rows c = Inr c' \<and> col_type c' = col_type c \<and> string_groups (col_pages c') rows"
proof -
  obtain s1 D1 rs1 where s1: "rfold (insert_string fresh) rows (str_inserter_new c) = Inr s1"
    "str_inv (col_type c) s1 D1 rs1" "group_rows D1 @ rs1 = rows"
    using insert_string_all[OF str_inserter_new_inv[OF assms], of rows fresh] by (auto simp: str_appends_def)
  obtain s2 D2 where s2: "str_finalize fresh s1 = Inr s2" "str_inv (col_type c) s2 D2 []" "group_rows D2 = rows"
    using str_finalize_correct[OF s1(2), of fresh] s1(3) by auto
  have "col_pages (si_column s2) = concat (map fst D2)"
    using str_invD(12,16)[OF s2(2)] by simp
  then have "string_groups (col_pages (si_column s2)) rows"
    using str_invD(13)[OF s2(2)] s2(3) by (auto simp: string_groups_def)
  then show ?thesis
    using s1(1) s2(1) str_invD(1)[OF s2(2)] by (simp add: insert_strings_def)
qed

section \<open>Properties\<close>

lemma str_page_rows: "page_rows page_string str_page = [Some [97, 98], Some [99]]"
proof -
  have "page_string str_page 0 = [97, 98]" "page_string str_page 1 = [99]"
    by (simp_all add: page_string_def page_offset_def load16_def load_bytes_small str_page_def page_of_def)
  then have "page_string str_page k = [[97, 98], [99]] ! k" if "k < 2" for k
    using that by (auto simp: less_2_cases_iff)
  then show ?thesis
    using sample_num_rows(2) page_of_rows[of _ "[[97, 98], [99]]" page_string] by (simp add: str_page_def PAGE_SIZE_def)
qed

text \<open>C10. VARCHAR round trip through the storage format: strings of any length, long ones spread
  over several pages, and NULLs, inserted into a fresh column, are what a reader of the pages finds;
  no write leaves its page or the character buffer.\<close>

theorem insert_strings_roundtrip:
  "\<exists>c. insert_strings fresh rows (new_column VARCHAR) = Inr c \<and> col_type c = VARCHAR \<and>
     decode_strings (col_pages c) = rows"
  using insert_strings_correct[of "new_column VARCHAR" fresh rows] string_groups_decode by (fastforce simp: new_column_def)

end
