(* ===== verification/Resolver.thy ===== *)
theory Resolver
  imports StringPages
begin

text \<open>
  \<open>StringRefResolver::resolve\<close> and \<open>StringRefEq\<close> (\<open>src/late_materialization.cpp\<close>): the string
  behind a packed reference. \<open>value_cell\<close> reads a 64-bit payload under its column type; the
  lemmas show that scanning a column and reading the payloads gives what the column stores.
\<close>

section \<open>Resolving a reference\<close>

fun collect_long :: "page list \<Rightarrow> bytes" where
  "collect_long [] = []"
| "collect_long (p # ps) = (if long_first p \<or> long_next p then page_chunk p @ collect_long ps else [])"

text \<open>
  \<open>None\<close> is the null pointer. With \<open>end < start\<close> the length converts to a huge \<open>size_t\<close> and
  \<open>std::string::assign\<close> throws \<open>std::length_error\<close>.
\<close>

definition resolve :: "plan \<Rightarrow> u64 \<Rightarrow> bytes option res" where
  "resolve plan raw_ref =
     (let ref = unpack raw_ref
      in if length (pl_inputs plan) \<le> unat (ref_table_id ref) then Inr None
         else let ct = pl_inputs plan ! unat (ref_table_id ref)
         in if length (tbl_columns ct) \<le> unat (ref_col_id ref) then Inr None
         else let column = tbl_columns ct ! unat (ref_col_id ref)
         in if length (col_pages column) \<le> unat (ref_page_idx ref) then Inr None
         else let page_data = col_pages column ! unat (ref_page_idx ref)
         in if long_first page_data \<or> long_next page_data
            then Inr (Some (collect_long (drop (unat (ref_page_idx ref)) (col_pages column))))
            else
              (let num_offsets = load16 page_data 2; slot = unat (ref_slot_idx ref)
               in if unat num_offsets \<le> slot then Inr None
                  else let offsets_end = 4 + unat num_offsets * 2;
                           start = (if slot = 0 then 0 else page_offset page_data (slot - 1));
                           stop = page_offset page_data slot
                       in if stop < start then Inl (Runtime_error ''basic_string::_M_create'')
                          else Inr (Some (load_bytes page_data (offsets_end + start) (stop - start)))))"

text \<open>The plan pointer of \<open>StringRefEq\<close> may be null.\<close>

definition string_ref_eq :: "plan option \<Rightarrow> packed_string_ref \<Rightarrow> packed_string_ref \<Rightarrow> bool res" where
  "string_ref_eq plan a b =
     (if ref_raw a = ref_raw b then Inr True
      else case plan of
        None \<Rightarrow> Inr False
      | Some p \<Rightarrow>
          rbind (resolve p (ref_raw a)) (\<lambda>sa.
          rbind (resolve p (ref_raw b)) (\<lambda>sb.
            Inr (case (sa, sb) of
                   (Some xs, Some ys) \<Rightarrow> if length xs \<noteq> length ys then False else xs = ys
                 | _ \<Rightarrow> False))))"

section \<open>Cells\<close>

datatype cell = Cell_null | Cell_int u32 | Cell_str bytes

definition int32_cell :: "u32 option \<Rightarrow> cell" where
  "int32_cell x = (case x of None \<Rightarrow> Cell_null | Some v \<Rightarrow> Cell_int v)"

definition string_cell :: "bytes option \<Rightarrow> cell" where
  "string_cell x = (case x of None \<Rightarrow> Cell_null | Some s \<Rightarrow> Cell_str s)"

text \<open>What a column of an input or output table stores.\<close>

definition column_cells :: "column \<Rightarrow> cell list" where
  "column_cells c =
     (case col_type c of
        INT32 \<Rightarrow> map int32_cell (column_int32_rows c)
      | VARCHAR \<Rightarrow> map string_cell (decode_strings (col_pages c))
      | _ \<Rightarrow> [])"

text \<open>What a payload of an intermediate column stands for.\<close>

definition value_cell :: "plan \<Rightarrow> data_type \<Rightarrow> value_t \<Rightarrow> cell" where
  "value_cell plan ty v =
     (if is_null v then Cell_null
      else case ty of
        VARCHAR \<Rightarrow> (case resolve plan (as_ref v) of Inr (Some s) \<Rightarrow> Cell_str s | _ \<Rightarrow> Cell_null)
      | _ \<Rightarrow> Cell_int (as_i32 v))"

section \<open>Input columns the engine can represent\<close>

definition long_page :: "page \<Rightarrow> bool" where
  "long_page p \<longleftrightarrow> long_first p \<or> long_next p"

text \<open>No long string directly follows another one: the resolver would read on into it.\<close>

definition no_adjacent_long :: "page list \<Rightarrow> bool" where
  "no_adjacent_long ps \<longleftrightarrow> (\<forall>i. Suc i < length ps \<longrightarrow> long_page (ps ! i) \<longrightarrow> \<not> long_first (ps ! Suc i))"

definition string_column_ok :: "column \<Rightarrow> bool" where
  "string_column_ok c \<longleftrightarrow>
     length (col_pages c) \<le> 2 ^ 32 \<and> no_adjacent_long (col_pages c) \<and>
     (\<forall>p \<in> set (col_pages c). long_page p \<or> page_offsets_ok p)"

text \<open>The INT32 value -1 has the payload of NULL.\<close>

definition int_column_ok :: "column \<Rightarrow> bool" where
  "int_column_ok c \<longleftrightarrow> Some (- 1) \<notin> set (column_int32_rows c)"

lemma collect_long_takeWhile: "collect_long ps = concat (map page_chunk (takeWhile long_page ps))"
  by (induction ps) (auto simp: long_page_def)

lemma takeWhile_long:
  assumes "no_adjacent_long (p # ps)" "long_page p"
  shows "takeWhile long_page ps = takeWhile long_next ps"
  using assms
proof (induction ps arbitrary: p)
  case (Cons q ps)
  have "\<not> long_first q" using Cons.prems by (auto simp: no_adjacent_long_def dest: spec[of _ 0])
  moreover have "no_adjacent_long (q # ps)"
    using Cons.prems(1) unfolding no_adjacent_long_def by (metis length_Cons not_less_eq nth_Cons_Suc)
  ultimately show ?case using Cons.IH[of q] by (auto simp: long_page_def)
qed simp

lemma no_adjacent_long_drop: "no_adjacent_long ps \<Longrightarrow> no_adjacent_long (drop i ps)"
  by (auto simp: no_adjacent_long_def)

definition page_cells :: "page list \<Rightarrow> nat \<Rightarrow> bytes option list" where
  "page_cells ps i =
     (if long_first (ps ! i)
      then [Some (page_chunk (ps ! i) @ concat (map page_chunk (takeWhile long_next (drop (Suc i) ps))))]
      else if long_next (ps ! i) then [] else page_rows page_string (ps ! i))"

lemma decode_by_page: "decode_strings ps = concat (map (page_cells ps) [0..<length ps])"
proof (induction ps)
  case (Cons p ps)
  have "map (page_cells (p # ps)) [0..<length (p # ps)] = page_cells (p # ps) 0 # map (page_cells ps) [0..<length ps]"
    by (simp only: length_Cons map_upt_Suc) (simp add: page_cells_def)
  then have "concat (map (page_cells (p # ps)) [0..<length (p # ps)]) = page_cells (p # ps) 0 @ decode_strings ps"
    by (simp only: concat.simps Cons.IH)
  moreover have "decode_strings (p # ps) = page_cells (p # ps) 0 @ decode_strings ps"
    by (simp add: page_cells_def)
  ultimately show ?case by (simp only:)
qed simp

lemma decode_length: "length (decode_strings ps) = sum_list (map (page_logical_rows VARCHAR) ps)"
  by (induction ps) (auto simp: page_logical_rows_def Let_def)

lemma length_column_cells:
  assumes "input_column_ok n c"
  shows "length (column_cells c) = n"
proof -
  have "page_logical_rows INT32 = (\<lambda>p. length (page_rows page_int32 p))"
    by (simp add: fun_eq_iff page_logical_rows_def)
  then show ?thesis
    using assms by (auto simp: input_column_ok_def column_cells_def column_int32_rows_def decode_length length_concat comp_def)
qed

section \<open>References of a scan resolve to what the column stores\<close>

lemma str_ref_not_null:
  assumes "t < 255"
  shows "\<not> is_null (make_str_ref (of_nat t) c p s)"
proof
  assume "is_null (make_str_ref (of_nat t) c p s)"
  then have "ref_raw (make_ref (of_nat t) c p s) = UINT64_MAX" by (simp add: is_null_def make_str_ref_def)
  moreover have "ref_table_id (make_ref (of_nat t) c p s) = of_nat t" by (rule ref_fields_make_ref)
  ultimately have "(of_nat t :: u8) = ucast (drop_bit 56 UINT64_MAX)" by (simp add: ref_table_id_def)
  also have "\<dots> = 255" by (simp add: UINT64_MAX_def)
  finally have "unat (of_nat t :: u8) = unat (255 :: u8)" by simp
  then show False using assms by (simp add: unat_of_nat_less)
qed

lemma resolve_make_ref:
  assumes t: "t < 255" "t < length (pl_inputs plan)" and c: "c < 256" "c < length (tbl_columns (pl_inputs plan ! t))"
    and p: "p < 2 ^ 32" "p < length (col_pages (tbl_columns (pl_inputs plan ! t) ! c))"
  defines "pages \<equiv> col_pages (tbl_columns (pl_inputs plan ! t) ! c)"
  shows "resolve plan (as_ref (make_str_ref (of_nat t) (of_nat c) (of_nat p) s)) =
    (if long_page (pages ! p) then Inr (Some (collect_long (drop p pages)))
     else let num_offsets = unat (load16 (pages ! p) 2); slot = unat s
          in if num_offsets \<le> slot then Inr None
             else let start = (if slot = 0 then 0 else page_offset (pages ! p) (slot - 1)); stop = page_offset (pages ! p) slot
                  in if stop < start then Inl (Runtime_error ''basic_string::_M_create'')
                     else Inr (Some (load_bytes (pages ! p) (4 + num_offsets * 2 + start) (stop - start))))"
proof -
  have u: "unat (of_nat t :: u8) = t" "unat (of_nat c :: u8) = c" "unat (of_nat p :: u32) = p"
    using t(1) c(1) p(1) by (simp_all add: unat_of_nat_less)
  have ref: "unpack (as_ref (make_str_ref (of_nat t) (of_nat c) (of_nat p) s)) = make_ref (of_nat t) (of_nat c) (of_nat p) s"
    by (simp add: unpack_def as_ref_def make_str_ref_def)
  show ?thesis
    using t c p unfolding resolve_def ref Let_def ref_fields_make_ref u pages_def long_page_def by simp
qed

text \<open>The payload \<open>v\<close> refers to the string \<open>x\<close>, NULL to no string.\<close>

definition string_value :: "plan \<Rightarrow> value_t \<Rightarrow> bytes option \<Rightarrow> bool" where
  "string_value plan v x \<longleftrightarrow>
     (case x of None \<Rightarrow> is_null v | Some s \<Rightarrow> \<not> is_null v \<and> resolve plan (as_ref v) = Inr (Some s))"

lemma string_value_cell: "string_value plan v x \<Longrightarrow> value_cell plan VARCHAR v = string_cell x"
  by (cases x) (simp_all add: string_value_def value_cell_def string_cell_def)

text \<open>References to strings are compared by the strings.\<close>

lemma string_ref_eq_content:
  assumes "string_value plan v (Some s)" "string_value plan w (Some t)"
  shows "string_ref_eq (Some plan) (unpack (as_ref v)) (unpack (as_ref w)) = Inr (s = t)"
  using assms by (auto simp: string_ref_eq_def string_value_def unpack_def)

lemma page_refs_resolve:
  assumes t: "t < 255" "t < length (pl_inputs plan)" and c: "c < 256" "c < length (tbl_columns (pl_inputs plan ! t))"
    and col: "column = tbl_columns (pl_inputs plan ! t) ! c" and ok: "string_column_ok column"
    and i: "i < length (col_pages column)"
  shows "list_all2 (string_value plan) (page_refs t c i (col_pages column ! i)) (page_cells (col_pages column) i)"
proof -
  let ?pages = "col_pages column"
  let ?p = "?pages ! i"
  have i32: "i < 2 ^ 32" using ok i by (simp add: string_column_ok_def)
  note res = resolve_make_ref[OF t c i32, folded col, OF i]
  consider "long_first ?p" | "long_next ?p" | "\<not> long_page ?p" by (auto simp: long_page_def)
  then show ?thesis
  proof cases
    case 1
    have adj: "no_adjacent_long (?p # drop (Suc i) ?pages)"
      using ok i no_adjacent_long_drop[of ?pages i] by (simp add: string_column_ok_def Cons_nth_drop_Suc)
    have long: "long_page ?p" using 1 by (simp add: long_page_def)
    have "collect_long (drop i ?pages) = page_chunk ?p @ concat (map page_chunk (takeWhile long_next (drop (Suc i) ?pages)))"
      using i takeWhile_long[OF adj long] long
      by (simp add: collect_long_takeWhile flip: Cons_nth_drop_Suc)
    then show ?thesis
      using 1 res long str_ref_not_null[OF t(1)]
      by (simp add: page_refs_def page_cells_def string_value_def)
  next
    case 2
    then show ?thesis by (simp add: page_refs_def page_cells_def)
  next
    case 3
    then have n: "\<not> long_first ?p" "\<not> long_next ?p" by (auto simp: long_page_def)
    have offs: "page_offsets_ok ?p" using ok i 3 by (auto simp: string_column_ok_def)
    let ?cnt = "unat (load16 ?p 2)" and ?rank = "valid_rank (page_valid ?p)"
    have row: "string_value plan (make_str_ref (of_nat t) (of_nat c) (of_nat i) (of_nat (?rank r)))
        (Some (page_string ?p (?rank r)))"
      if r: "r < page_num_rows ?p" "page_valid ?p r" for r
    proof -
      have k: "?rank r < ?cnt"
        using valid_rank_less[of "page_valid ?p" r, OF r(2,1)] offs by (simp add: page_offsets_ok_def Let_def)
      have u: "unat (of_nat (?rank r) :: u16) = ?rank r" by (rule rank_u16[OF r(1)])
      have le: "(if ?rank r = 0 then 0 else page_offset ?p (?rank r - 1)) \<le> page_offset ?p (?rank r)"
        using offs k by (cases "?rank r") (auto simp: page_offsets_ok_def Let_def)
      show ?thesis
        using res[of "of_nat (?rank r)"] 3 k le str_ref_not_null[OF t(1)] u
        by (simp add: string_value_def page_string_def Let_def mult.commute)
    qed
    have null: "string_value plan make_null None" by (simp add: string_value_def)
    show ?thesis
      using n row
      by (auto simp: page_refs_def page_cells_def page_rows_def Let_def null list_all2_conv_all_nth)
  qed
qed

lemma list_all2_concat_map:
  "(\<And>i. i \<in> set is \<Longrightarrow> list_all2 P (f i) (g i)) \<Longrightarrow> list_all2 P (concat (map f is)) (concat (map g is))"
  by (induction "is") (auto intro: list_all2_appendI)

lemma scanned_strings:
  assumes t: "t < 255" "t < length (pl_inputs plan)" and c: "c < 256" "c < length (tbl_columns (pl_inputs plan ! t))"
    and col: "column = tbl_columns (pl_inputs plan ! t) ! c" "col_type column = VARCHAR" and ok: "string_column_ok column"
  shows "list_all2 (string_value plan) (scanned_values t c column) (decode_strings (col_pages column))"
  using page_refs_resolve[OF t c col(1) ok] col(2)
  by (auto simp: scanned_values_def decode_by_page intro!: list_all2_concat_map)

lemma scanned_int_cells:
  assumes "col_type column = INT32" "int_column_ok column"
  shows "map (value_cell plan INT32) (scanned_values t c column) = column_cells column"
proof -
  have "scanned_values t c column = map int32_value (column_int32_rows column)"
    using assms(1) by (simp add: scanned_values_def column_int32_rows_def page_int32_values_def[abs_def] map_concat comp_def)
  moreover have "value_cell plan INT32 (int32_value x) = int32_cell x" if "x \<in> set (column_int32_rows column)" for x
    by (insert that assms(2), cases x) (auto simp: int32_value_def int32_cell_def value_cell_def is_null_make_i32 int_column_ok_def)
  ultimately show ?thesis using assms(1) by (simp add: column_cells_def)
qed

section \<open>Properties\<close>

definition example_names :: column where
  "example_names = \<lparr>col_type = VARCHAR, col_pages = [str_page]\<rparr>"

lemma str_page_offsets: "page_offsets_ok str_page"
proof -
  have "page_offset str_page 0 = 2" "page_offset str_page 1 = 3" "unat (load16 str_page 2) = 2"
    by (simp_all add: page_offset_def load16_def load_bytes_small str_page_def page_of_def)
  then show ?thesis
    using valid_rank_le[of "page_valid str_page" 2] by (auto simp: page_offsets_ok_def sample_num_rows less_2_cases_iff)
qed

lemma example_names_ok: "string_column_ok example_names" "decode_strings (col_pages example_names) = [Some [97, 98], Some [99]]"
  using str_page_offsets str_page_rows
  by (simp_all add: string_column_ok_def example_names_def no_adjacent_long_def sample_num_rows)

definition example_string_plan :: plan where
  "example_string_plan = \<lparr>pl_nodes = [],
     pl_inputs = [\<lparr>tbl_num_rows = 2, tbl_columns = [example_names]\<rparr>], pl_root = 0\<rparr>"

text \<open>C9. Late materialisation of strings: \<open>scan_columnar_to_columnbuffer\<close> succeeds, and in the buffer it
  returns every VARCHAR column has one value for each row its input column stores, in order: NULL
  for a NULL row, and for a string, short or long, a value that is not NULL and that
  \<open>StringRefResolver\<close> resolves to exactly the characters of the row.\<close>

theorem scanned_refs_resolve:
  assumes "scan_ok plan scan attrs" "sn_base_table_id scan < 255"
    and "\<forall>a \<in> set attrs. snd a = VARCHAR \<longrightarrow>
      fst a < 256 \<and> string_column_ok (tbl_columns (pl_inputs plan ! sn_base_table_id scan) ! fst a)"
  shows "\<exists>buf. scan_columnar_to_columnbuffer plan scan attrs = Inr buf \<and> length (cb_columns buf) = length attrs \<and>
    (\<forall>k < length attrs. snd (attrs ! k) = VARCHAR \<longrightarrow>
      (let stored = decode_strings (col_pages (tbl_columns (pl_inputs plan ! sn_base_table_id scan) ! fst (attrs ! k)));
           scanned = ct_values (cb_columns buf ! k)
       in length scanned = length stored \<and>
          (\<forall>i < length stored.
             case stored ! i of
               None \<Rightarrow> is_null (scanned ! i)
             | Some s \<Rightarrow> \<not> is_null (scanned ! i) \<and> resolve plan (as_ref (scanned ! i)) = Inr (Some s))))"
proof -
  let ?tid = "sn_base_table_id scan"
  let ?c = "\<lambda>k. tbl_columns (pl_inputs plan ! ?tid) ! fst (attrs ! k)"
  obtain buf where buf: "scan_columnar_to_columnbuffer plan scan attrs = Inr buf" "length (cb_columns buf) = length attrs"
    "\<And>k. k < length attrs \<Longrightarrow> ct_values (cb_columns buf ! k) = scanned_values ?tid (fst (attrs ! k)) (?c k)"
    using scan_correct[OF assms(1)] by blast
  have "list_all2 (string_value plan) (ct_values (cb_columns buf ! k)) (decode_strings (col_pages (?c k)))"
    if k: "k < length attrs" and ty: "snd (attrs ! k) = VARCHAR" for k
  proof -
    have "?tid < length (pl_inputs plan)" "fst (attrs ! k) < length (tbl_columns (pl_inputs plan ! ?tid))" "col_type (?c k) = VARCHAR"
      using assms(1) k ty by (auto simp: scan_ok_def Let_def)
    moreover have "fst (attrs ! k) < 256" "string_column_ok (?c k)" using bspec[OF assms(3) nth_mem[OF k]] ty by auto
    ultimately show ?thesis
      unfolding buf(3)[OF k] using scanned_strings[OF assms(2) _ _ _ refl] by blast
  qed
  with buf(1,2) show ?thesis by (auto simp: list_all2_conv_all_nth string_value_def Let_def)
qed

lemma scanned_refs_resolve_witness:
  "\<exists>buf v. scan_columnar_to_columnbuffer example_string_plan \<lparr>sn_base_table_id = 0\<rparr> [(0, VARCHAR)] = Inr buf \<and>
    length (ct_values (cb_columns buf ! 0)) = 2 \<and> ct_values (cb_columns buf ! 0) ! 1 = v \<and>
    resolve example_string_plan (as_ref v) = Inr (Some [99])"
proof -
  have t: "pl_inputs example_string_plan ! 0 = \<lparr>tbl_num_rows = 2, tbl_columns = [example_names]\<rparr>"
    "length (pl_inputs example_string_plan) = 1"
    by (simp_all add: example_string_plan_def)
  have "scan_ok example_string_plan \<lparr>sn_base_table_id = 0\<rparr> [(0, VARCHAR)]"
    by (simp add: scan_ok_def t input_column_ok_def example_names_def page_logical_rows_def sample_num_rows)
  from scanned_refs_resolve[OF this] obtain buf where
    "scan_columnar_to_columnbuffer example_string_plan \<lparr>sn_base_table_id = 0\<rparr> [(0, VARCHAR)] = Inr buf"
    and *: "length (ct_values (cb_columns buf ! 0)) = 2 \<and>
      (\<forall>i < 2. case [Some [97, 98], Some [99]] ! i of
         None \<Rightarrow> is_null (ct_values (cb_columns buf ! 0) ! i)
       | Some s \<Rightarrow> \<not> is_null (ct_values (cb_columns buf ! 0) ! i) \<and>
           resolve example_string_plan (as_ref (ct_values (cb_columns buf ! 0) ! i)) = Inr (Some s))"
    by (auto simp: t example_names_ok Let_def)
  moreover from spec[OF conjunct2[OF *], of 1]
  have "resolve example_string_plan (as_ref (ct_values (cb_columns buf ! 0) ! 1)) = Inr (Some [99])" by simp
  ultimately show ?thesis by auto
qed

text \<open>The restriction to columns without adjacent long strings is needed: where the page of one
  long string is followed by the first page of another, the resolver returns the characters of both
  for the reference to the first, although the column stores two strings.\<close>

theorem resolve_merges_adjacent_long:
  assumes "table_id < 255" "table_id < length (pl_inputs plan)"
    and "col < 256" "col < length (tbl_columns (pl_inputs plan ! table_id))"
    and "col_pages (tbl_columns (pl_inputs plan ! table_id) ! col) = [p, q]"
    and "page_num_rows p = 0xffff" "page_num_rows q = 0xffff"
  shows "decode_strings [p, q] = [Some (page_chunk p), Some (page_chunk q)] \<and>
    resolve plan (as_ref (make_str_ref (of_nat table_id) (of_nat col) 0 0xffff)) = Inr (Some (page_chunk p @ page_chunk q))"
  using resolve_make_ref[OF assms(1-4), of 0 "0xffff"] assms(5-7) by (simp add: long_page_def)

definition long_page_of :: "u8 \<Rightarrow> page" where
  "long_page_of c = page_of [0xFF, 0xFF, 1, 0, c]"

lemma long_page_of_simps: "page_num_rows (long_page_of c) = 0xffff" "page_chunk (long_page_of c) = [c]"
  by (simp_all add: page_num_rows_def page_chunk_def load16_def load_bytes_small long_page_of_def page_of_def)

lemma resolve_merges_adjacent_long_witness:
  "resolve \<lparr>pl_nodes = [], pl_inputs = [\<lparr>tbl_num_rows = 2,
       tbl_columns = [\<lparr>col_type = VARCHAR, col_pages = [long_page_of 97, long_page_of 98]\<rparr>]\<rparr>], pl_root = 0\<rparr>
     (as_ref (make_str_ref 0 0 0 0xffff)) = Inr (Some [97, 98])"
  using resolve_merges_adjacent_long[of 0 "\<lparr>pl_nodes = [], pl_inputs = [\<lparr>tbl_num_rows = 2,
       tbl_columns = [\<lparr>col_type = VARCHAR, col_pages = [long_page_of 97, long_page_of 98]\<rparr>]\<rparr>], pl_root = 0\<rparr>" 0
       "long_page_of 97" "long_page_of 98"]
  by (simp add: long_page_of_simps)

end
