(* ===== verification/TableCache.thy ===== *)
theory TableCache
  imports Pages
begin

text \<open>
  Tables as files (\<open>DumpTable\<close> of \<open>include/table.h\<close>, \<open>Table::from_cache\<close> of \<open>src/build_table.cpp\<close>): a
  header page with the sizes and types of the columns, then the pages of the columns, one after the
  other. A file is its bytes; opening and mapping it is a parameter that can fail. The header has
  arrays of 16 entries, an access past them is undefined. The main result is that a table of at most
  16 columns that is dumped and loaded has the same pages.
\<close>

section \<open>State and operations\<close>

definition MAX_COLS :: nat where
  "MAX_COLS = 16"

record table_meta =
  tm_num_rows :: u64
  tm_num_cols :: u64
  tm_types :: "data_type list"
  tm_num_pages :: "u64 list"

text \<open>The constructor \<open>DumpTable(ColumnarTable*)\<close>; \<open>tablemeta\<close> is zero before, and 0 is \<open>INT32\<close>.\<close>

definition set_meta :: "nat \<Rightarrow> column \<Rightarrow> table_meta \<Rightarrow> table_meta res" where
  "set_meta i column m =
     rbind (at (tm_types m) i) (\<lambda>_. rbind (at (tm_num_pages m) i) (\<lambda>_.
       Inr (m\<lparr>tm_types := (tm_types m)[i := col_type column],
              tm_num_pages := (tm_num_pages m)[i := of_nat (length (col_pages column))]\<rparr>)))"

definition dump_table_new :: "columnar_table \<Rightarrow> table_meta res" where
  "dump_table_new table =
     rfold (\<lambda>i m. rbind (at (tbl_columns table) i) (\<lambda>column. set_meta i column m)) [0..<length (tbl_columns table)]
       \<lparr>tm_num_rows = of_nat (tbl_num_rows table), tm_num_cols = of_nat (length (tbl_columns table)),
        tm_types = replicate MAX_COLS INT32, tm_num_pages = replicate MAX_COLS 0\<rparr>"

text \<open>The values of the enumeration \<open>DataType\<close>, stored as 32-bit integers.\<close>

definition type_code :: "data_type \<Rightarrow> u32" where
  "type_code ty = (case ty of INT32 \<Rightarrow> 0 | INT64 \<Rightarrow> 1 | FP64 \<Rightarrow> 2 | VARCHAR \<Rightarrow> 3)"

definition type_of_code :: "u32 \<Rightarrow> data_type res" where
  "type_of_code c =
     (if c = 0 then Inr INT32 else if c = 1 then Inr INT64 else if c = 2 then Inr FP64 else if c = 3 then Inr VARCHAR
      else Inl Undefined)"

text \<open>The layout of \<open>TableMeta\<close>: 8 + 8 + 16 * 4 + 16 * 8 bytes.\<close>

definition META_SIZE :: nat where
  "META_SIZE = 208"

definition meta_bytes :: "table_meta \<Rightarrow> u8 list" where
  "meta_bytes m = bytes64 (tm_num_rows m) @ bytes64 (tm_num_cols m) @
     concat (map (\<lambda>ty. bytes32 (type_code ty)) (tm_types m)) @ concat (map bytes64 (tm_num_pages m))"

definition page_bytes :: "page \<Rightarrow> u8 list" where
  "page_bytes page = load_bytes page 0 PAGE_SIZE"

definition dump_file :: "table_meta \<Rightarrow> columnar_table \<Rightarrow> u8 list res" where
  "dump_file m table =
     rfold (\<lambda>i out. rbind (at (tbl_columns table) i) (\<lambda>column.
         Inr (out @ concat (map page_bytes (col_pages column)))))
       [0..<unat (tm_num_cols m)] (meta_bytes m @ replicate (PAGE_SIZE - META_SIZE) 0)"

definition dump :: "columnar_table \<Rightarrow> u8 list res" where
  "dump table = rbind (dump_table_new table) (\<lambda>m. dump_file m table)"

text \<open>\<open>dump_columnar_debug\<close> of \<open>src/late_materialization.cpp\<close>: the bytes go to a file.\<close>

definition dump_columnar_debug :: "columnar_table \<Rightarrow> u8 list res" where
  "dump_columnar_debug table = dump table"

text \<open>\<open>from_cache\<close> reads the header and takes the pages where they lie in the mapped file.\<close>

definition file_bytes :: "u8 list \<Rightarrow> nat \<Rightarrow> nat \<Rightarrow> u8 list res" where
  "file_bytes contents off n =
     (if off + n \<le> length contents then Inr (take n (drop off contents)) else Inl Undefined)"

definition file_u64 :: "u8 list \<Rightarrow> nat \<Rightarrow> u64 res" where
  "file_u64 contents off = rbind (file_bytes contents off 8) (\<lambda>bs. Inr (of_nat (le_nat bs)))"

definition file_type :: "u8 list \<Rightarrow> nat \<Rightarrow> data_type res" where
  "file_type contents off = rbind (file_bytes contents off 4) (\<lambda>bs. type_of_code (of_nat (le_nat bs)))"

definition file_page :: "u8 list \<Rightarrow> nat \<Rightarrow> page res" where
  "file_page contents off =
     rbind (file_bytes contents off PAGE_SIZE) (\<lambda>bs. Inr (\<lambda>i. if i < PAGE_SIZE then bs ! i else 0))"

definition cache_column :: "u8 list \<Rightarrow> nat \<Rightarrow> column list \<times> nat \<Rightarrow> (column list \<times> nat) res" where
  "cache_column contents i = (\<lambda>(columns, data).
     rbind (if i < MAX_COLS then Inr () else Inl Undefined) (\<lambda>_.
     rbind (file_type contents (16 + 4 * i)) (\<lambda>ty.
     rbind (file_u64 contents (80 + 8 * i)) (\<lambda>num_pages.
     rbind (rfold (\<lambda>j (last_column, data).
              rbind (file_page contents data) (\<lambda>page.
                Inr (last_column\<lparr>col_pages := col_pages last_column @ [page]\<rparr>, data + PAGE_SIZE)))
            [0..<unat num_pages] (new_column ty, data)) (\<lambda>(last_column, data).
       Inr (columns @ [last_column], data))))))"

definition from_cache :: "(string \<Rightarrow> u8 list res) \<Rightarrow> string \<Rightarrow> columnar_table res" where
  "from_cache open_file path =
     rbind (open_file path) (\<lambda>contents.
       if length contents = 0 then Inl (Runtime_error (''File is empty: '' @ path))
       else rbind (file_u64 contents 0) (\<lambda>num_rows.
            rbind (file_u64 contents 8) (\<lambda>num_cols.
            rbind (rfold (cache_column contents) [0..<unat num_cols] ([], PAGE_SIZE)) (\<lambda>(columns, data).
              Inr \<lparr>tbl_num_rows = unat num_rows, tbl_columns = columns\<rparr>))))"

section \<open>The header\<close>

definition meta_of :: "columnar_table \<Rightarrow> table_meta" where
  "meta_of t =
     \<lparr>tm_num_rows = of_nat (tbl_num_rows t), tm_num_cols = of_nat (length (tbl_columns t)),
      tm_types = map col_type (tbl_columns t) @ replicate (MAX_COLS - length (tbl_columns t)) INT32,
      tm_num_pages = map (\<lambda>c. of_nat (length (col_pages c))) (tbl_columns t) @ replicate (MAX_COLS - length (tbl_columns t)) 0\<rparr>"

lemma replicate_step: "k < n \<Longrightarrow> replicate (n - k) x = x # replicate (n - Suc k) x"
  by (simp add: Suc_diff_Suc flip: replicate_Suc)

lemma dump_table_new_prefix:
  assumes "k \<le> length (tbl_columns t)"
  shows "rfold (\<lambda>i m. rbind (at (tbl_columns t) i) (\<lambda>column. set_meta i column m)) [0..<k]
       \<lparr>tm_num_rows = r, tm_num_cols = c, tm_types = replicate MAX_COLS INT32, tm_num_pages = replicate MAX_COLS 0\<rparr> =
    (if k \<le> MAX_COLS then Inr \<lparr>tm_num_rows = r, tm_num_cols = c,
        tm_types = map col_type (take k (tbl_columns t)) @ replicate (MAX_COLS - k) INT32,
        tm_num_pages = map (\<lambda>c. of_nat (length (col_pages c))) (take k (tbl_columns t)) @ replicate (MAX_COLS - k) 0\<rparr>
     else Inl Undefined)"
  using assms
proof (induction k)
  case 0
  then show ?case by simp
next
  case (Suc k)
  show ?case
  proof (cases "k < MAX_COLS")
    case True
    then show ?thesis
      using Suc unfolding rfold_upt_Suc
      by (simp add: set_meta_def take_Suc_conv_app_nth list_update_append replicate_step)
  next
    case False
    then show ?thesis
      using Suc unfolding rfold_upt_Suc by (cases "k = MAX_COLS") (simp_all add: set_meta_def at_def)
  qed
qed

lemma dump_table_new_eq:
  "dump_table_new t = (if length (tbl_columns t) \<le> MAX_COLS then Inr (meta_of t) else Inl Undefined)"
  using dump_table_new_prefix[of "length (tbl_columns t)" t] by (simp add: dump_table_new_def meta_of_def)

section \<open>The contents of a file\<close>

lemma length_concat_const: "(\<And>x. length (f x) = n) \<Longrightarrow> length (concat (map f xs)) = length xs * n"
  by (induction xs) simp_all

lemma concat_nth_split:
  "i < length xs \<Longrightarrow> concat (map f xs) = concat (map f (take i xs)) @ f (xs ! i) @ concat (map f (drop (Suc i) xs))"
  by (subst id_take_nth_drop[of i xs]) simp_all

lemma file_bytes_middle: "off = length pre \<Longrightarrow> n = length x \<Longrightarrow> file_bytes (pre @ x @ post) off n = Inr x"
  by (simp add: file_bytes_def)

lemma length_page_bytes [simp, layout]: "length (page_bytes p) = PAGE_SIZE"
  by (simp add: page_bytes_def)

definition file_of :: "table_meta \<Rightarrow> page list \<Rightarrow> u8 list" where
  "file_of m pages = meta_bytes m @ replicate (PAGE_SIZE - META_SIZE) 0 @ concat (map page_bytes pages)"

definition meta_ok :: "table_meta \<Rightarrow> bool" where
  "meta_ok m \<longleftrightarrow> length (tm_types m) = MAX_COLS \<and> length (tm_num_pages m) = MAX_COLS"

lemma length_meta_bytes: "meta_ok m \<Longrightarrow> length (meta_bytes m) = META_SIZE"
  by (simp add: meta_bytes_def meta_ok_def length_concat_const[of _ 4] length_concat_const[of _ 8] MAX_COLS_def META_SIZE_def)

lemma file_meta:
  assumes m: "meta_ok m"
  shows "file_u64 (file_of m pages) 0 = Inr (tm_num_rows m)" "file_u64 (file_of m pages) 8 = Inr (tm_num_cols m)"
    and "i < MAX_COLS \<Longrightarrow> file_type (file_of m pages) (16 + 4 * i) = Inr (tm_types m ! i)"
    and "i < MAX_COLS \<Longrightarrow> file_u64 (file_of m pages) (80 + 8 * i) = Inr (tm_num_pages m ! i)"
proof -
  let ?r = "replicate (PAGE_SIZE - META_SIZE) 0 @ concat (map page_bytes pages)"
  let ?ty = "\<lambda>ty. bytes32 (type_code ty)"
  have u64: "file_u64 contents off = Inr v" if "file_bytes contents off 8 = Inr (bytes64 v)" for contents off v
    using that by (simp add: file_u64_def le_nat_bytes)
  have type: "file_type contents off = Inr ty" if "file_bytes contents off 4 = Inr (bytes32 (type_code ty))" for contents off ty
    using that by (cases ty) (simp_all add: file_type_def le_nat_bytes type_code_def type_of_code_def)
  show "file_u64 (file_of m pages) 0 = Inr (tm_num_rows m)"
    by (rule u64) (simp add: file_of_def meta_bytes_def file_bytes_def)
  show "file_u64 (file_of m pages) 8 = Inr (tm_num_cols m)"
    by (rule u64) (simp add: file_of_def meta_bytes_def file_bytes_def)
  show "file_type (file_of m pages) (16 + 4 * i) = Inr (tm_types m ! i)" if i: "i < MAX_COLS"
  proof (rule type)
    have eq: "file_of m pages = (bytes64 (tm_num_rows m) @ bytes64 (tm_num_cols m) @ concat (map ?ty (take i (tm_types m)))) @
        ?ty (tm_types m ! i) @ concat (map ?ty (drop (Suc i) (tm_types m))) @ concat (map bytes64 (tm_num_pages m)) @ ?r"
      using concat_nth_split[of i "tm_types m" ?ty] i m by (simp add: file_of_def meta_bytes_def meta_ok_def)
    show "file_bytes (file_of m pages) (16 + 4 * i) 4 = Inr (?ty (tm_types m ! i))"
      unfolding eq using i m by (intro file_bytes_middle) (simp_all add: length_concat_const[of _ 4] meta_ok_def)
  qed
  show "file_u64 (file_of m pages) (80 + 8 * i) = Inr (tm_num_pages m ! i)" if i: "i < MAX_COLS"
  proof (rule u64)
    have eq: "file_of m pages = (bytes64 (tm_num_rows m) @ bytes64 (tm_num_cols m) @ concat (map ?ty (tm_types m)) @
          concat (map bytes64 (take i (tm_num_pages m)))) @
        bytes64 (tm_num_pages m ! i) @ concat (map bytes64 (drop (Suc i) (tm_num_pages m))) @ ?r"
      using concat_nth_split[of i "tm_num_pages m" bytes64] i m by (simp add: file_of_def meta_bytes_def meta_ok_def)
    show "file_bytes (file_of m pages) (80 + 8 * i) 8 = Inr (bytes64 (tm_num_pages m ! i))"
      unfolding eq using i m
      by (intro file_bytes_middle) (simp_all add: length_concat_const[of _ 4] length_concat_const[of _ 8] meta_ok_def MAX_COLS_def)
  qed
qed

text \<open>A page as a file stores it, and a table.\<close>

definition stored_page :: "page \<Rightarrow> page" where
  "stored_page p = (\<lambda>i. if i < PAGE_SIZE then p i else 0)"

definition stored_column :: "column \<Rightarrow> column" where
  "stored_column c = c\<lparr>col_pages := map stored_page (col_pages c)\<rparr>"

definition stored_table :: "columnar_table \<Rightarrow> columnar_table" where
  "stored_table t = t\<lparr>tbl_columns := map stored_column (tbl_columns t)\<rparr>"

lemma file_page_nth:
  assumes "meta_ok m" "k < length pages"
  shows "file_page (file_of m pages) (PAGE_SIZE + k * PAGE_SIZE) = Inr (stored_page (pages ! k))"
proof -
  have eq: "file_of m pages = (meta_bytes m @ replicate (PAGE_SIZE - META_SIZE) 0 @ concat (map page_bytes (take k pages))) @
      page_bytes (pages ! k) @ concat (map page_bytes (drop (Suc k) pages))"
    using concat_nth_split[of k pages page_bytes] assms(2) by (simp add: file_of_def)
  have "file_bytes (file_of m pages) (PAGE_SIZE + k * PAGE_SIZE) PAGE_SIZE = Inr (page_bytes (pages ! k))"
    unfolding eq using assms length_meta_bytes[OF assms(1)]
    by (intro file_bytes_middle) (simp_all add: length_concat_const[of _ PAGE_SIZE] PAGE_SIZE_def META_SIZE_def)
  then show ?thesis by (simp add: file_page_def stored_page_def page_bytes_def load_bytes_def fun_eq_iff)
qed

lemma dump_eq:
  assumes "length (tbl_columns t) \<le> MAX_COLS"
  shows "dump t = Inr (file_of (meta_of t) (concat (map col_pages (tbl_columns t))))"
proof -
  have "rfold (\<lambda>i out. rbind (at (tbl_columns t) i) (\<lambda>column. Inr (out @ concat (map page_bytes (col_pages column)))))
       [0..<k] acc = Inr (acc @ concat (map page_bytes (concat (map col_pages (take k (tbl_columns t))))))"
    if "k \<le> length (tbl_columns t)" for k acc
    using that
  proof (induction k)
    case (Suc k)
    then show ?case unfolding rfold_upt_Suc by (simp add: take_Suc_conv_app_nth)
  qed simp
  from this[of "length (tbl_columns t)"] show ?thesis
    using assms unfolding dump_def dump_table_new_eq
    by (simp add: dump_file_def meta_of_def file_of_def unat_of_nat MAX_COLS_def)
qed

definition table_fits :: "columnar_table \<Rightarrow> bool" where
  "table_fits t \<longleftrightarrow> length (tbl_columns t) \<le> MAX_COLS \<and> tbl_num_rows t < 2 ^ 64 \<and>
     (\<forall>c \<in> set (tbl_columns t). length (col_pages c) < 2 ^ 64)"

lemma meta_of_ok: "table_fits t \<Longrightarrow> meta_ok (meta_of t)"
  by (simp add: table_fits_def meta_ok_def meta_of_def)

lemma load_columns:
  assumes fits: "table_fits t" and k: "k \<le> length (tbl_columns t)"
  defines "contents \<equiv> file_of (meta_of t) (concat (map col_pages (tbl_columns t)))"
  shows "rfold (cache_column contents) [0..<k] ([], PAGE_SIZE) =
    Inr (map stored_column (take k (tbl_columns t)),
         PAGE_SIZE + length (concat (map col_pages (take k (tbl_columns t)))) * PAGE_SIZE)"
  using k
proof (induction k)
  case (Suc k)
  let ?cols = "tbl_columns t" and ?c = "tbl_columns t ! k" and ?m = "meta_of t"
  let ?before = "concat (map col_pages (take k ?cols))"
  have k: "k < length ?cols" "k < MAX_COLS" using Suc.prems fits by (simp_all add: table_fits_def)
  have pages: "concat (map col_pages ?cols) = ?before @ col_pages ?c @ concat (map col_pages (drop (Suc k) ?cols))"
    by (rule concat_nth_split[OF k(1)])
  have small: "unat (of_nat (length (col_pages ?c)) :: u64) = length (col_pages ?c)"
    using fits k(1) by (simp add: table_fits_def unat_of_nat)
  have "rfold (\<lambda>j (last_column, data).
          rbind (file_page contents data) (\<lambda>page.
            Inr (last_column\<lparr>col_pages := col_pages last_column @ [page]\<rparr>, data + PAGE_SIZE)))
        [0..<n] (new_column ty, PAGE_SIZE + length ?before * PAGE_SIZE) =
      Inr (\<lparr>col_type = ty, col_pages = map stored_page (take n (col_pages ?c))\<rparr>,
           PAGE_SIZE + (length ?before + n) * PAGE_SIZE)" if "n \<le> length (col_pages ?c)" for n ty
    using that
  proof (induction n)
    case 0
    then show ?case by (simp add: new_column_def)
  next
    case (Suc n)
    then have "file_page contents (PAGE_SIZE + (length ?before + n) * PAGE_SIZE) = Inr (stored_page (col_pages ?c ! n))"
      using file_page_nth[OF meta_of_ok[OF fits], of "length ?before + n" "concat (map col_pages ?cols)"] unfolding contents_def pages
      by (simp add: nth_append)
    then show ?case
      using Suc unfolding rfold_upt_Suc by (simp add: take_Suc_conv_app_nth algebra_simps)
  qed
  from this[of "length (col_pages ?c)" "col_type ?c"] have col:
    "rfold (\<lambda>j (last_column, data).
          rbind (file_page contents data) (\<lambda>page.
            Inr (last_column\<lparr>col_pages := col_pages last_column @ [page]\<rparr>, data + PAGE_SIZE)))
        [0..<length (col_pages ?c)] (new_column (col_type ?c), PAGE_SIZE + length ?before * PAGE_SIZE) =
      Inr (stored_column ?c, PAGE_SIZE + (length ?before + length (col_pages ?c)) * PAGE_SIZE)"
    by (simp add: stored_column_def)
  have "tm_types ?m ! k = col_type ?c" "tm_num_pages ?m ! k = of_nat (length (col_pages ?c))"
    using k(1) by (simp_all add: meta_of_def nth_append)
  then have "cache_column contents k (cs, PAGE_SIZE + length ?before * PAGE_SIZE) =
      Inr (cs @ [stored_column ?c], PAGE_SIZE + (length ?before + length (col_pages ?c)) * PAGE_SIZE)" for cs
    unfolding cache_column_def contents_def
    using file_meta(3,4)[OF meta_of_ok[OF fits] k(2)] k(2) col[unfolded contents_def] small by simp
  then show ?case
    using Suc k(1) unfolding rfold_upt_Suc by (simp add: take_Suc_conv_app_nth)
qed simp

lemma load_dumped:
  assumes fits: "table_fits t"
  shows "rbind (dump t) (\<lambda>contents. from_cache (\<lambda>_. Inr contents) path) = Inr (stored_table t)"
proof -
  let ?contents = "file_of (meta_of t) (concat (map col_pages (tbl_columns t)))"
  have "?contents \<noteq> []" using length_meta_bytes[OF meta_of_ok[OF fits]] by (auto simp: file_of_def META_SIZE_def)
  moreover have "unat (of_nat (length (tbl_columns t)) :: u64) = length (tbl_columns t)"
    "unat (of_nat (tbl_num_rows t) :: u64) = tbl_num_rows t"
    using fits by (simp_all add: table_fits_def MAX_COLS_def unat_of_nat)
  ultimately have "from_cache (\<lambda>_. Inr ?contents) path = Inr (stored_table t)"
    using load_columns[OF fits, of "length (tbl_columns t)"] file_meta(1,2)[OF meta_of_ok[OF fits]]
    by (simp add: from_cache_def meta_of_def stored_table_def)
  then show ?thesis using fits by (simp add: dump_eq table_fits_def)
qed

section \<open>Properties\<close>

text \<open>C38. Round trip through a cache file: a table of at most 16 columns, dumped and loaded again, has
  the same number of rows, the same column types and, byte for byte, the same pages.\<close>

theorem cache_roundtrip:
  assumes "length (tbl_columns t) \<le> 16" "tbl_num_rows t < 2 ^ 64" "\<forall>c \<in> set (tbl_columns t). length (col_pages c) < 2 ^ 64"
  shows "\<exists>t'. rbind (dump t) (\<lambda>contents. from_cache (\<lambda>_. Inr contents) path) = Inr t' \<and>
    tbl_num_rows t' = tbl_num_rows t \<and> map col_type (tbl_columns t') = map col_type (tbl_columns t) \<and>
    map (\<lambda>c. map page_bytes (col_pages c)) (tbl_columns t') = map (\<lambda>c. map page_bytes (col_pages c)) (tbl_columns t)"
proof -
  have "table_fits t" using assms by (simp add: table_fits_def MAX_COLS_def)
  moreover have "page_bytes (stored_page p) = page_bytes p" for p
    by (auto simp: page_bytes_def stored_page_def intro!: load_bytes_cong)
  ultimately show ?thesis
    by (auto simp: load_dumped stored_table_def stored_column_def)
qed

theorem cache_roundtrip_witness:
  "\<exists>t'. rbind (dump \<lparr>tbl_num_rows = 2, tbl_columns = [\<lparr>col_type = VARCHAR, col_pages = [(\<lambda>i. of_nat i), (\<lambda>i. 7)]\<rparr>]\<rparr>)
      (\<lambda>contents. from_cache (\<lambda>_. Inr contents) ''t'') = Inr t' \<and>
    tbl_num_rows t' = 2 \<and> map col_type (tbl_columns t') = [VARCHAR] \<and>
    map (\<lambda>c. map page_bytes (col_pages c)) (tbl_columns t') = [[page_bytes (\<lambda>i. of_nat i), page_bytes (\<lambda>i. 7)]]"
  using cache_roundtrip[of "\<lparr>tbl_num_rows = 2, tbl_columns = [\<lparr>col_type = VARCHAR, col_pages = [(\<lambda>i. of_nat i), (\<lambda>i. 7)]\<rparr>]\<rparr>" "''t''"]
  by simp

end
