(* ===== verification/Finalize.thy ===== *)
theory Finalize
  imports Resolver TableCache
begin

text \<open>
  \<open>finalize_columnbuffer_to_columnar\<close> (\<open>src/late_materialization.cpp\<close>): the intermediate columns
  written back into pages, packed references resolved to their characters. The lemmas show that
  the output table stores the cells the buffer stands for. The debug dump at its end writes the table
  to a file; its header has room for 16 columns, more are undefined behaviour.
\<close>

section \<open>Operations\<close>

text \<open>The loop of one output column; reading moves the page cache of the source column.\<close>

definition finalize_int32 :: "(nat \<Rightarrow> page) \<Rightarrow> nat \<Rightarrow> column_t \<Rightarrow> column \<Rightarrow> column res" where
  "finalize_int32 fresh num_rows src col =
     rbind (rfold (\<lambda>row_idx (src, ins).
        rbind (column_get src row_idx) (\<lambda>(v, src).
        rbind (if \<not> is_null v then inserter_insert fresh 4 (bytes32 (as_i32 v)) ins
               else inserter_insert_null fresh 4 ins) (\<lambda>ins. Inr (src, ins))))
       [0..<num_rows] (src, inserter_new 4 col)) (\<lambda>(src, ins).
     rbind (inserter_finalize fresh 4 ins) (\<lambda>ins. Inr (ins_column ins)))"

definition finalize_varchar :: "plan \<Rightarrow> (nat \<Rightarrow> page) \<Rightarrow> nat \<Rightarrow> column_t \<Rightarrow> column \<Rightarrow> column res" where
  "finalize_varchar plan fresh num_rows src col =
     rbind (rfold (\<lambda>row_idx (src, ins).
        rbind (column_get src row_idx) (\<lambda>(v, src).
        rbind (if is_null v then str_insert_null fresh ins
               else rbind (resolve plan (as_ref v)) (\<lambda>r.
                 case r of Some s \<Rightarrow> str_insert fresh s ins | None \<Rightarrow> str_insert_null fresh ins))
          (\<lambda>ins. Inr (src, ins))))
       [0..<num_rows] (src, str_inserter_new col)) (\<lambda>(src, ins).
     rbind (str_finalize fresh ins) (\<lambda>ins. Inr (si_column ins)))"

definition finalize_column ::
    "plan \<Rightarrow> (nat \<Rightarrow> nat \<Rightarrow> page) \<Rightarrow> column_buffer \<Rightarrow> nat \<Rightarrow> column res" where
  "finalize_column plan fresh buf col_idx =
     rbind (at (cb_types buf) col_idx) (\<lambda>dtype.
     let col = new_column dtype
     in if cb_num_rows buf = 0 then Inr col
        else case dtype of
          INT32 \<Rightarrow> rbind (at (cb_columns buf) col_idx) (\<lambda>src.
            finalize_int32 (fresh col_idx) (cb_num_rows buf) src col)
        | VARCHAR \<Rightarrow> rbind (at (cb_columns buf) col_idx) (\<lambda>src.
            finalize_varchar plan (fresh col_idx) (cb_num_rows buf) src col)
        | _ \<Rightarrow> Inr col)"

text \<open>\<open>fresh c p\<close> is the arbitrary content of page \<open>p\<close> of column \<open>c\<close> when it is allocated.\<close>

definition finalize_columnbuffer_to_columnar ::
    "plan \<Rightarrow> (nat \<Rightarrow> nat \<Rightarrow> page) \<Rightarrow> column_buffer \<Rightarrow> attrs \<Rightarrow> columnar_table res" where
  "finalize_columnbuffer_to_columnar plan fresh buf output_attrs =
     rbind (rfold (\<lambda>col_idx output.
        rbind (finalize_column plan fresh buf col_idx) (\<lambda>col.
          Inr (output\<lparr>tbl_columns := tbl_columns output @ [col]\<rparr>)))
       [0..<length output_attrs] \<lparr>tbl_num_rows = cb_num_rows buf, tbl_columns = []\<rparr>) (\<lambda>output.
     rbind (dump_columnar_debug output) (\<lambda>_. Inr output))"

section \<open>One column\<close>

text \<open>A loop over \<open>get\<close> is a loop over the values of the column.\<close>

lemma rfold_get:
  assumes wf: "column_wf c" and n: "n \<le> length (ct_values c)"
    and ok: "rfold g (take n (ct_values c)) s = Inr s'"
  shows "\<exists>c'. rfold (\<lambda>i (c, s). rbind (column_get c i) (\<lambda>(v, c). rbind (g v s) (\<lambda>s. Inr (c, s)))) [0..<n] (c, s) =
    Inr (c', s') \<and> same_but_cache c c'"
  using n ok
proof (induction n arbitrary: s')
  case 0
  then show ?case by (simp add: same_but_cache_def)
next
  case (Suc n)
  have "take (Suc n) (ct_values c) = take n (ct_values c) @ [ct_values c ! n]"
    using Suc.prems(1) by (simp add: take_Suc_conv_app_nth)
  then obtain s1 where s1: "rfold g (take n (ct_values c)) s = Inr s1" "g (ct_values c ! n) s1 = Inr s'"
    using Suc.prems(2) by (auto simp: rfold_append rbind_eq_Inr)
  then obtain c1 where c1: "rfold (\<lambda>i (c, s). rbind (column_get c i) (\<lambda>(v, c). rbind (g v s) (\<lambda>s. Inr (c, s)))) [0..<n] (c, s) =
      Inr (c1, s1)" "same_but_cache c c1"
    using Suc.IH[of s1] Suc.prems(1) by auto
  have "ct_values c1 = ct_values c" "column_wf c1" using same_but_cache_values[OF c1(2)] wf by auto
  then obtain c2 where "column_get c1 n = Inr (ct_values c ! n, c2)" "same_but_cache c1 c2"
    using column_get_correct[of c1 n] Suc.prems(1) by auto
  then show ?case
    using c1 s1(2) same_but_cache_trans[OF c1(2)] by (auto simp: rfold_append)
qed

definition value_int32 :: "value_t \<Rightarrow> u32 option" where
  "value_int32 v = (if is_null v then None else Some (as_i32 v))"

lemma finalize_int32_correct:
  assumes wf: "column_wf src" and n: "n = length (ct_values src)" and col: "col_pages col = []"
  shows "\<exists>col'. finalize_int32 fresh n src col = Inr col' \<and> col_type col' = col_type col \<and>
    column_int32_rows col' = map value_int32 (ct_values src)"
proof -
  let ?g = "\<lambda>v ins. if \<not> is_null v then inserter_insert fresh 4 (bytes32 (as_i32 v)) ins else inserter_insert_null fresh 4 ins"
  obtain c' where c': "insert_rows fresh (map value_int32 (ct_values src)) col = Inr c'" "col_type c' = col_type col"
    "column_int32_rows c' = map value_int32 (ct_values src)"
    using insert_rows_correct[OF col, of fresh "map value_int32 (ct_values src)"] by blast
  have g: "(\<lambda>v. insert_int32 fresh (value_int32 v)) = ?g"
    by (auto simp: fun_eq_iff insert_int32_def value_int32_def)
  from c'(1) obtain s1 s2 where s: "rfold ?g (ct_values src) (inserter_new 4 col) = Inr s1"
    "inserter_finalize fresh 4 s1 = Inr s2" "c' = ins_column s2"
    unfolding insert_rows_def rfold_map g by (auto simp: rbind_eq_Inr)
  have "rfold ?g (take n (ct_values src)) (inserter_new 4 col) = Inr s1" using s(1) n by simp
  from rfold_get[OF wf _ this] n obtain src' where
    "rfold (\<lambda>i (c, s). rbind (column_get c i) (\<lambda>(v, c). rbind (?g v s) (\<lambda>s. Inr (c, s)))) [0..<n] (src, inserter_new 4 col) =
      Inr (src', s1)" by auto
  then have "finalize_int32 fresh n src col = Inr c'"
    unfolding finalize_int32_def using s(2,3) by simp
  with c' show ?thesis by blast
qed

definition value_string :: "plan \<Rightarrow> value_t \<Rightarrow> bytes option" where
  "value_string plan v =
     (if is_null v then None else case resolve plan (as_ref v) of Inr (Some s) \<Rightarrow> Some s | _ \<Rightarrow> None)"

text \<open>A payload the finalizer can resolve: NULL, or a reference whose resolution does not throw.\<close>

definition value_resolves :: "plan \<Rightarrow> data_type \<Rightarrow> value_t \<Rightarrow> bool" where
  "value_resolves plan ty v \<longleftrightarrow> (ty = VARCHAR \<longrightarrow> is_null v \<or> \<not> isl (resolve plan (as_ref v)))"

text \<open>Strings are stored in groups of pages that stand on their own.\<close>

definition whole_groups :: "column \<Rightarrow> bool" where
  "whole_groups c \<longleftrightarrow> (col_type c = VARCHAR \<longrightarrow> string_groups (col_pages c) (decode_strings (col_pages c)))"

lemma finalize_varchar_correct:
  assumes wf: "column_wf src" and n: "n = length (ct_values src)" and col: "col_pages col = []"
    and ok: "\<And>v. v \<in> set (ct_values src) \<Longrightarrow> value_resolves plan VARCHAR v"
  shows "\<exists>col'. finalize_varchar plan fresh n src col = Inr col' \<and> col_type col' = col_type col \<and>
    string_groups (col_pages col') (map (value_string plan) (ct_values src))"
proof -
  let ?g = "\<lambda>v ins. if is_null v then str_insert_null fresh ins
      else rbind (resolve plan (as_ref v)) (\<lambda>r.
        case r of Some s \<Rightarrow> str_insert fresh s ins | None \<Rightarrow> str_insert_null fresh ins)"
  obtain c' where c': "insert_strings fresh (map (value_string plan) (ct_values src)) col = Inr c'"
    "col_type c' = col_type col" "string_groups (col_pages c') (map (value_string plan) (ct_values src))"
    using insert_strings_correct[OF col, of fresh "map (value_string plan) (ct_values src)"] by blast
  have step: "insert_string fresh (value_string plan v) ins = ?g v ins" if "v \<in> set (ct_values src)" for v ins
  proof (cases "resolve plan (as_ref v)")
    case (Inl e)
    then have "is_null v" using ok[OF that] by (simp add: value_resolves_def)
    then show ?thesis by (simp add: insert_string_def value_string_def)
  qed (auto simp: insert_string_def value_string_def split: option.split)
  have g: "rfold (\<lambda>v. insert_string fresh (value_string plan v)) vs ins = rfold ?g vs ins"
    if "set vs \<subseteq> set (ct_values src)" for vs ins
    using that
  proof (induction vs arbitrary: ins)
    case (Cons v vs)
    then show ?case using step[of v ins] by (cases "?g v ins") auto
  qed simp
  from c'(1) obtain s1 s2 where s: "rfold ?g (ct_values src) (str_inserter_new col) = Inr s1"
    "str_finalize fresh s1 = Inr s2" "c' = si_column s2"
    unfolding insert_strings_def rfold_map g[OF subset_refl] by (auto simp: rbind_eq_Inr)
  have "rfold ?g (take n (ct_values src)) (str_inserter_new col) = Inr s1" using s(1) n by simp
  from rfold_get[OF wf _ this] n obtain src' where
    "rfold (\<lambda>i (c, s). rbind (column_get c i) (\<lambda>(v, c). rbind (?g v s) (\<lambda>s. Inr (c, s)))) [0..<n] (src, str_inserter_new col) =
      Inr (src', s1)" by auto
  then have "finalize_varchar plan fresh n src col = Inr c'"
    unfolding finalize_varchar_def using s(2,3) by simp
  with c' show ?thesis by blast
qed

section \<open>The table\<close>

definition finalize_ok :: "plan \<Rightarrow> column_buffer \<Rightarrow> bool" where
  "finalize_ok plan buf \<longleftrightarrow>
     length (cb_types buf) = num_cols buf \<and>
     (\<forall>k < num_cols buf. cb_types buf ! k \<in> {INT32, VARCHAR} \<and> column_wf (cb_columns buf ! k) \<and>
        length (ct_values (cb_columns buf ! k)) = cb_num_rows buf \<and>
        (\<forall>v \<in> set (ct_values (cb_columns buf ! k)). value_resolves plan (cb_types buf ! k) v))"

definition buffer_cells :: "plan \<Rightarrow> column_buffer \<Rightarrow> nat \<Rightarrow> cell list" where
  "buffer_cells plan buf k = map (value_cell plan (cb_types buf ! k)) (ct_values (cb_columns buf ! k))"

lemma value_cell_int32: "value_cell plan INT32 v = int32_cell (value_int32 v)"
  by (simp add: value_cell_def int32_cell_def value_int32_def)

lemma value_cell_varchar: "value_cell plan VARCHAR v = string_cell (value_string plan v)"
  by (auto simp: value_cell_def string_cell_def value_string_def split: sum.split option.split)

lemma finalize_column_correct:
  assumes ok: "finalize_ok plan buf" and k: "k < num_cols buf"
  shows "\<exists>col. finalize_column plan fresh buf k = Inr col \<and> col_type col = cb_types buf ! k \<and>
    column_cells col = buffer_cells plan buf k \<and> whole_groups col"
proof -
  have F: "k < length (cb_types buf)" "k < length (cb_columns buf)" "column_wf (cb_columns buf ! k)"
    "cb_num_rows buf = length (ct_values (cb_columns buf ! k))"
    "\<And>v. v \<in> set (ct_values (cb_columns buf ! k)) \<Longrightarrow> value_resolves plan (cb_types buf ! k) v"
    and ty: "cb_types buf ! k = INT32 \<or> cb_types buf ! k = VARCHAR"
    using ok k by (auto simp: finalize_ok_def num_cols_def)
  have new: "col_pages (new_column ty) = []" "col_type (new_column ty) = ty" for ty by (simp_all add: new_column_def)
  show ?thesis
  proof (cases "cb_num_rows buf = 0")
    case True
    then have "column_cells (new_column (cb_types buf ! k)) = buffer_cells plan buf k"
      using F(4) ty by (auto simp: buffer_cells_def column_cells_def new_column_def column_int32_rows_def)
    moreover have "string_groups [] []" unfolding string_groups_def by (rule exI[of _ "[]"]) simp
    then have "whole_groups (new_column (cb_types buf ! k))" by (simp add: whole_groups_def new_column_def)
    ultimately show ?thesis using True F(1) new by (simp add: finalize_column_def)
  next
    case False
    from ty show ?thesis
    proof
      assume t: "cb_types buf ! k = INT32"
      from finalize_int32_correct[OF F(3,4) new(1), of "fresh k" INT32] show ?thesis
        using False F(1,2) t
        by (auto simp: finalize_column_def new column_cells_def buffer_cells_def value_cell_int32 whole_groups_def)
    next
      assume t: "cb_types buf ! k = VARCHAR"
      then obtain col where col: "finalize_varchar plan (fresh k) (cb_num_rows buf) (cb_columns buf ! k) (new_column VARCHAR) = Inr col"
        "col_type col = VARCHAR" "string_groups (col_pages col) (map (value_string plan) (ct_values (cb_columns buf ! k)))"
        using finalize_varchar_correct[OF F(3,4) new(1), of plan "fresh k" VARCHAR] F(5) by (auto simp: new)
      then show ?thesis
        using False F(1,2) t string_groups_decode[OF col(3)]
        by (auto simp: finalize_column_def column_cells_def buffer_cells_def value_cell_varchar whole_groups_def)
    qed
  qed
qed

lemma finalize_columns:
  assumes ok: "finalize_ok plan buf" and len: "length attrs = num_cols buf"
  shows "\<exists>t. finalize_columnbuffer_to_columnar plan fresh buf attrs = rbind (dump_columnar_debug t) (\<lambda>_. Inr t) \<and>
    tbl_num_rows t = cb_num_rows buf \<and> map col_type (tbl_columns t) = cb_types buf \<and>
    map column_cells (tbl_columns t) = map (buffer_cells plan buf) [0..<num_cols buf] \<and>
    (\<forall>c \<in> set (tbl_columns t). whole_groups c)"
proof -
  let ?f = "\<lambda>col_idx output.
        rbind (finalize_column plan fresh buf col_idx) (\<lambda>col.
          Inr (output\<lparr>tbl_columns := tbl_columns output @ [col]\<rparr>))"
  let ?P = "\<lambda>i t. tbl_num_rows t = cb_num_rows buf \<and>
    map col_type (tbl_columns t) = take i (cb_types buf) \<and>
    map column_cells (tbl_columns t) = map (buffer_cells plan buf) [0..<i] \<and> (\<forall>c \<in> set (tbl_columns t). whole_groups c)"
  have "\<exists>t. rfold ?f [0..<length attrs] \<lparr>tbl_num_rows = cb_num_rows buf, tbl_columns = []\<rparr> = Inr t \<and>
      ?P (length [0..<length attrs]) t"
  proof (rule rfold_invariant[of ?P])
    show "?P 0 \<lparr>tbl_num_rows = cb_num_rows buf, tbl_columns = []\<rparr>" by simp
    fix i t
    assume i: "i < length [0..<length attrs]" and P: "?P i t"
    obtain col where "finalize_column plan fresh buf i = Inr col" "col_type col = cb_types buf ! i"
      "column_cells col = buffer_cells plan buf i" "whole_groups col"
      using finalize_column_correct[OF ok, of i fresh] i len by auto
    moreover have "i < length (cb_types buf)" using ok i len by (simp add: finalize_ok_def)
    ultimately show "\<exists>t'. ?f ([0..<length attrs] ! i) t = Inr t' \<and> ?P (Suc i) t'"
      using i P by (simp add: take_Suc_conv_app_nth)
  qed
  then show ?thesis
    using len ok unfolding finalize_columnbuffer_to_columnar_def by (auto simp: finalize_ok_def)
qed

lemma dump_columnar_debug_wide: "MAX_COLS < length (tbl_columns t) \<Longrightarrow> dump_columnar_debug t = Inl Undefined"
  by (simp add: dump_columnar_debug_def dump_def dump_table_new_eq)

lemma finalize_correct:
  assumes "finalize_ok plan buf" "length attrs = num_cols buf" "length attrs \<le> MAX_COLS"
  shows "\<exists>t. finalize_columnbuffer_to_columnar plan fresh buf attrs = Inr t \<and>
    tbl_num_rows t = cb_num_rows buf \<and> map col_type (tbl_columns t) = cb_types buf \<and>
    map column_cells (tbl_columns t) = map (buffer_cells plan buf) [0..<num_cols buf] \<and>
    (\<forall>c \<in> set (tbl_columns t). whole_groups c)"
proof -
  obtain t where t: "finalize_columnbuffer_to_columnar plan fresh buf attrs = rbind (dump_columnar_debug t) (\<lambda>_. Inr t)"
    "tbl_num_rows t = cb_num_rows buf" "map col_type (tbl_columns t) = cb_types buf"
    "map column_cells (tbl_columns t) = map (buffer_cells plan buf) [0..<num_cols buf]" "\<forall>c \<in> set (tbl_columns t). whole_groups c"
    using finalize_columns[OF assms(1,2)] by blast
  have "length (tbl_columns t) = num_cols buf" using arg_cong[OF t(4), of length] by simp
  then show ?thesis using t assms(2,3) by (auto simp: dump_columnar_debug_def dump_eq)
qed

lemma finalize_wide:
  assumes "finalize_ok plan buf" "length attrs = num_cols buf" "MAX_COLS < length attrs"
  shows "finalize_columnbuffer_to_columnar plan fresh buf attrs = Inl Undefined"
proof -
  obtain t where t: "finalize_columnbuffer_to_columnar plan fresh buf attrs = rbind (dump_columnar_debug t) (\<lambda>_. Inr t)"
    "map column_cells (tbl_columns t) = map (buffer_cells plan buf) [0..<num_cols buf]"
    using finalize_columns[OF assms(1,2)] by blast
  have "length (tbl_columns t) = num_cols buf" using arg_cong[OF t(2), of length] by simp
  then show ?thesis using t(1) assms(2,3) by (simp add: dump_columnar_debug_wide)
qed

end
