(* ===== verification/Execute.thy ===== *)
theory Execute
  imports JoinExec Finalize
begin

text \<open>
  Plan execution (\<open>src/execute_default.cpp\<close>): \<open>execute_hash_join\<close>, \<open>execute_scan\<close>, the
  recursion \<open>execute_impl\<close> over the plan, and the entry point \<open>execute\<close>. The specification
  \<open>eval_plan\<close> evaluates the plan on the rows of the input tables, as lists of cells; the main
  result is that the pages of the output table store exactly these rows, as a bag. \<open>attr_from\<close> traces
  an attribute of a node to a column of an input table, and \<open>value_from\<close> is the type of the values
  that column allows.
\<close>

section \<open>Operations\<close>

text \<open>\<open>exec\<close> is the recursive call \<open>execute_impl\<close>. Both children run before the type check.\<close>

definition execute_hash_join ::
    "(nat \<Rightarrow> engine \<Rightarrow> (column_buffer \<times> engine) res) \<Rightarrow> join_env \<Rightarrow> plan \<Rightarrow> join_node \<Rightarrow> attrs \<Rightarrow> engine
       \<Rightarrow> (column_buffer \<times> engine) res" where
  "execute_hash_join exec env plan join output_attrs en =
     rbind (at (pl_nodes plan) (jn_left join)) (\<lambda>left_node.
     rbind (at (pl_nodes plan) (jn_right join)) (\<lambda>right_node.
     rbind (exec (jn_left join) en) (\<lambda>(left, en).
     rbind (exec (jn_right join) en) (\<lambda>(right, en).
     rbind (if jn_build_left join then at (pn_output_attrs left_node) (jn_left_attr join)
            else at (pn_output_attrs right_node) (jn_right_attr join)) (\<lambda>key.
       if snd key \<noteq> INT32 then Inl (Runtime_error ''Only INT32 join columns supported.'')
       else run_int32 unchained_wrapper env (jn_build_left join) left right (fresh_results output_attrs)
              (jn_left_attr join) (jn_right_attr join) output_attrs en)))))"

definition execute_scan :: "plan \<Rightarrow> scan_node \<Rightarrow> attrs \<Rightarrow> column_buffer res" where
  "execute_scan plan scan output_attrs = scan_columnar_to_columnbuffer plan scan output_attrs"

text \<open>The recursion follows node numbers; the fuel bounds its depth.\<close>

fun execute_impl :: "nat \<Rightarrow> join_env \<Rightarrow> plan \<Rightarrow> nat \<Rightarrow> engine \<Rightarrow> (column_buffer \<times> engine) res" where
  "execute_impl 0 env plan node_idx en = Inl No_return"
| "execute_impl (Suc fuel) env plan node_idx en =
     rbind (at (pl_nodes plan) node_idx) (\<lambda>node.
       case pn_data node of
         Join_node join \<Rightarrow>
           execute_hash_join (\<lambda>i en. execute_impl fuel env plan i en) env plan join (pn_output_attrs node) en
       | Scan_node scan \<Rightarrow> rbind (execute_scan plan scan (pn_output_attrs node)) (\<lambda>buf. Inr (buf, en)))"

definition execute ::
    "nat \<Rightarrow> join_env \<Rightarrow> (nat \<Rightarrow> nat \<Rightarrow> page) \<Rightarrow> plan \<Rightarrow> engine \<Rightarrow> (columnar_table \<times> engine) res" where
  "execute fuel env fresh plan en =
     (let en = (if join_telemetry_enabled (je_join_telemetry env)
                then en\<lparr>en_telemetry := qt_begin_query (en_telemetry en)\<rparr> else en)
      in rbind (execute_impl fuel env plan (pl_root plan) en) (\<lambda>(buf, en).
         let en = (if join_telemetry_enabled (je_join_telemetry env)
                   then en\<lparr>en_telemetry := qt_end_query (en_telemetry en)\<rparr> else en)
         in rbind (at (pl_nodes plan) (pl_root plan)) (\<lambda>root.
            rbind (finalize_columnbuffer_to_columnar plan fresh buf (pn_output_attrs root)) (\<lambda>t.
              Inr (t, en)))))"

section \<open>The specification\<close>

text \<open>The rows of a table, and the inner equi-join of two lists of rows, over cells.\<close>

definition table_rows :: "columnar_table \<Rightarrow> attrs \<Rightarrow> cell list list" where
  "table_rows t attrs =
     map (\<lambda>r. map (\<lambda>a. column_cells (tbl_columns t ! fst a) ! r) attrs) [0..<tbl_num_rows t]"

definition equi_join :: "nat \<Rightarrow> nat \<Rightarrow> attrs \<Rightarrow> cell list list \<Rightarrow> cell list list \<Rightarrow> cell list list" where
  "equi_join la ra attrs L R =
     concat (map (\<lambda>l. map (\<lambda>r. map (\<lambda>a. (l @ r) ! fst a) attrs)
       (filter (\<lambda>r. l ! la \<noteq> Cell_null \<and> l ! la = r ! ra) R)) L)"

fun eval_plan :: "nat \<Rightarrow> plan \<Rightarrow> nat \<Rightarrow> cell list list" where
  "eval_plan 0 plan i = []"
| "eval_plan (Suc fuel) plan i =
     (let node = pl_nodes plan ! i; attrs = pn_output_attrs node
      in case pn_data node of
           Scan_node s \<Rightarrow> table_rows (pl_inputs plan ! sn_base_table_id s) attrs
         | Join_node j \<Rightarrow> equi_join (jn_left_attr j) (jn_right_attr j) attrs
             (eval_plan fuel plan (jn_left j)) (eval_plan fuel plan (jn_right j)))"

definition node_rows :: "plan \<Rightarrow> nat \<Rightarrow> cell list list" where
  "node_rows plan i = eval_plan (Suc i) plan i"

text \<open>Plans and inputs the engine supports.\<close>

definition scan_node_ok :: "plan \<Rightarrow> scan_node \<Rightarrow> attrs \<Rightarrow> bool" where
  "scan_node_ok plan s attrs \<longleftrightarrow>
     scan_ok plan s attrs \<and> sn_base_table_id s < 255 \<and>
     (\<forall>a \<in> set attrs. fst a < 256 \<and>
        (let c = tbl_columns (pl_inputs plan ! sn_base_table_id s) ! fst a
         in if snd a = INT32 then int_column_ok c else string_column_ok c))"

definition join_node_ok :: "attrs \<Rightarrow> attrs \<Rightarrow> join_node \<Rightarrow> attrs \<Rightarrow> bool" where
  "join_node_ok la ra j attrs \<longleftrightarrow>
     length la \<le> 2 ^ 32 \<and> length ra \<le> 2 ^ 32 \<and>
     jn_left_attr j < length la \<and> jn_right_attr j < length ra \<and>
     snd (la ! jn_left_attr j) = INT32 \<and> snd (ra ! jn_right_attr j) = INT32 \<and>
     (\<forall>a \<in> set attrs. fst a < length la + length ra \<and> snd a = snd ((la @ ra) ! fst a))"

definition node_ok :: "plan \<Rightarrow> nat \<Rightarrow> bool" where
  "node_ok plan i \<longleftrightarrow>
     (let node = pl_nodes plan ! i; attrs = pn_output_attrs node
      in length (node_rows plan i) < 2 ^ 32 \<and>
         (case pn_data node of
            Scan_node s \<Rightarrow> scan_node_ok plan s attrs
          | Join_node j \<Rightarrow> join_node_ok (pn_output_attrs (pl_nodes plan ! jn_left j))
                            (pn_output_attrs (pl_nodes plan ! jn_right j)) j attrs))"

definition plan_ok :: "plan \<Rightarrow> bool" where
  "plan_ok plan \<longleftrightarrow>
     plan_acyclic plan \<and> pl_root plan < length (pl_nodes plan) \<and> (\<forall>i < length (pl_nodes plan). node_ok plan i)"

text \<open>Every probe below 2^32 rows gets fewer than 2^32 threads and a complete schedule.\<close>

definition env_ok :: "join_env \<Rightarrow> bool" where
  "env_ok env \<longleftrightarrow> (\<forall>n < 2 ^ 32. probe_nthreads env n < 2 ^ 32 \<and> (\<forall>k. fair_schedule env k n))"

section \<open>The specification does not depend on the fuel\<close>

lemma acyclic_children:
  assumes "plan_acyclic plan" "i < length (pl_nodes plan)" "pn_data (pl_nodes plan ! i) = Join_node j"
  shows "jn_left j < i" "jn_right j < i"
  using assms by (auto simp: plan_acyclic_def node_below_def dest!: spec[of _ i])

lemma eval_plan_fuel:
  assumes "plan_acyclic plan"
  shows "i < length (pl_nodes plan) \<Longrightarrow> i < f \<Longrightarrow> eval_plan f plan i = node_rows plan i"
proof (induction i arbitrary: f rule: less_induct)
  case (less i)
  obtain f' where f: "f = Suc f'" "i \<le> f'" using less.prems(2) by (cases f) auto
  show ?case
  proof (cases "pn_data (pl_nodes plan ! i)")
    case (Join_node j)
    note below = acyclic_children[OF assms less.prems(1) Join_node]
    have "eval_plan f' plan c = node_rows plan c \<and> eval_plan i plan c = node_rows plan c"
      if "c < i" for c using less.IH[OF that] that less.prems(1) f(2) by simp
    with below show ?thesis by (simp add: f(1) node_rows_def Join_node Let_def)
  qed (simp add: f(1) node_rows_def)
qed

lemma node_rows_join:
  assumes "plan_acyclic plan" "i < length (pl_nodes plan)" "pn_data (pl_nodes plan ! i) = Join_node j"
  shows "node_rows plan i = equi_join (jn_left_attr j) (jn_right_attr j) (pn_output_attrs (pl_nodes plan ! i))
    (node_rows plan (jn_left j)) (node_rows plan (jn_right j))"
  using acyclic_children[OF assms] eval_plan_fuel[OF assms(1)] assms(2,3)
  by (simp add: node_rows_def[of plan i] Let_def)

section \<open>Buffers as rows of cells\<close>

definition cell_rows :: "plan \<Rightarrow> column_buffer \<Rightarrow> cell list list" where
  "cell_rows plan b = map (map2 (value_cell plan) (cb_types b)) (buffer_rows b)"

text \<open>A value of an intermediate VARCHAR column is NULL or refers to a string.\<close>

definition value_ok :: "plan \<Rightarrow> data_type \<Rightarrow> value_t \<Rightarrow> bool" where
  "value_ok plan ty v \<longleftrightarrow> (ty = VARCHAR \<longrightarrow> is_null v \<or> (\<exists>s. resolve plan (as_ref v) = Inr (Some s)))"

lemma value_ok_resolves: "value_ok plan ty v \<Longrightarrow> value_resolves plan ty v"
  by (auto simp: value_ok_def value_resolves_def)

definition zero_copy_ok :: "column_t \<Rightarrow> bool" where
  "zero_copy_ok c \<longleftrightarrow> (ct_is_zero_copy c \<longrightarrow> (\<forall>v \<in> set (ct_values c). \<not> is_null v))"

definition buffer_ok :: "plan \<Rightarrow> data_type list \<Rightarrow> column_buffer \<Rightarrow> bool" where
  "buffer_ok plan tys b \<longleftrightarrow>
     buffer_wf b \<and> cb_types b = tys \<and> num_cols b = length tys \<and>
     (\<forall>k < length tys. zero_copy_ok (cb_columns b ! k) \<and>
        (\<forall>v \<in> set (ct_values (cb_columns b ! k)). value_ok plan (tys ! k) v))"

lemma buffer_okD:
  assumes "buffer_ok plan tys b"
  shows "buffer_wf b" "cb_types b = tys" "num_cols b = length tys" "length (cb_columns b) = length tys"
    "\<And>k. k < length tys \<Longrightarrow> column_wf (cb_columns b ! k) \<and> length (ct_values (cb_columns b ! k)) = cb_num_rows b"
    "\<And>k. k < length tys \<Longrightarrow> zero_copy_ok (cb_columns b ! k)"
    "\<And>k v. k < length tys \<Longrightarrow> v \<in> set (ct_values (cb_columns b ! k)) \<Longrightarrow> value_ok plan (tys ! k) v"
  using assms by (auto simp: buffer_ok_def buffer_wf_def columns_wf_def num_cols_def)

lemma length_cell_rows [simp, layout]: "length (cell_rows plan b) = cb_num_rows b"
  by (simp add: cell_rows_def)

lemma cell_rows_nth:
  assumes ok: "buffer_ok plan tys b" and i: "i < cb_num_rows b"
  shows "cell_rows plan b ! i = map (\<lambda>k. value_cell plan (tys ! k) (ct_values (cb_columns b ! k) ! i)) [0..<length tys]"
  using buffer_okD(2,4)[OF ok] i
  by (intro nth_equalityI) (simp_all add: cell_rows_def buffer_rows_def)

lemma cell_rows_cell:
  "buffer_ok plan tys b \<Longrightarrow> i < cb_num_rows b \<Longrightarrow> k < length tys \<Longrightarrow>
   cell_rows plan b ! i ! k = value_cell plan (tys ! k) (ct_values (cb_columns b ! k) ! i)"
  by (simp add: cell_rows_nth)

text \<open>The key the engine joins on is the INT32 cell.\<close>

lemma key_column_cell:
  assumes ok: "buffer_ok plan tys b" and k: "k < length tys" "tys ! k = INT32" and i: "i < cb_num_rows b"
  shows "key_column b k ! i = (case cell_rows plan b ! i ! k of Cell_int x \<Rightarrow> Some x | _ \<Rightarrow> None)"
    and "cell_rows plan b ! i ! k \<in> insert Cell_null (range Cell_int)"
proof -
  let ?c = "cb_columns b ! k"
  have len: "i < length (ct_values ?c)" using buffer_okD(5)[OF ok k(1)] i by simp
  have cell: "cell_rows plan b ! i ! k = value_cell plan INT32 (ct_values ?c ! i)"
    using cell_rows_cell[OF ok i k(1)] k(2) by simp
  have "\<not> is_null (ct_values ?c ! i)" if "can_build_from_pages ?c"
    using that buffer_okD(6)[OF ok k(1)] len by (auto simp: zero_copy_ok_def can_build_from_pages_def)
  then show "key_column b k ! i = (case cell_rows plan b ! i ! k of Cell_int x \<Rightarrow> Some x | _ \<Rightarrow> None)"
    using len by (auto simp: key_column_def row_keys_def cell value_cell_def)
  show "cell_rows plan b ! i ! k \<in> insert Cell_null (range Cell_int)"
    by (simp add: cell value_cell_def)
qed

lemma key_match_iff:
  assumes l: "buffer_ok plan ltys lb" "la < length ltys" "ltys ! la = INT32" "i < cb_num_rows lb"
    and r: "buffer_ok plan rtys rb" "ra < length rtys" "rtys ! ra = INT32" "j < cb_num_rows rb"
  shows "key_column lb la ! i = key_column rb ra ! j \<and> key_column lb la ! i \<noteq> None \<longleftrightarrow>
    cell_rows plan lb ! i ! la \<noteq> Cell_null \<and> cell_rows plan lb ! i ! la = cell_rows plan rb ! j ! ra"
  using key_column_cell[OF l] key_column_cell[OF r] by (auto split: cell.splits)

section \<open>The join as a list of index pairs\<close>

definition match_pairs :: "nat \<Rightarrow> nat \<Rightarrow> cell list list \<Rightarrow> cell list list \<Rightarrow> (nat \<times> nat) list" where
  "match_pairs la ra L R =
     concat (map (\<lambda>i. map (Pair i) (filter (\<lambda>j. L ! i ! la \<noteq> Cell_null \<and> L ! i ! la = R ! j ! ra) [0..<length R]))
       [0..<length L])"

definition project :: "attrs \<Rightarrow> cell list \<times> cell list \<Rightarrow> cell list" where
  "project attrs p = map (\<lambda>a. (fst p @ snd p) ! fst a) attrs"

lemma map_filter_nth: "map f (filter P xs) = map (\<lambda>i. f (xs ! i)) (filter (\<lambda>i. P (xs ! i)) [0..<length xs])"
proof -
  have "map f (filter P (map (nth xs) [0..<length xs])) =
      map (\<lambda>i. f (xs ! i)) (filter (\<lambda>i. P (xs ! i)) [0..<length xs])"
    by (simp add: filter_map comp_def)
  then show ?thesis by (simp only: map_nth)
qed

lemma equi_join_pairs:
  "equi_join la ra attrs L R = map (\<lambda>(i, j). project attrs (L ! i, R ! j)) (match_pairs la ra L R)"
proof -
  have "equi_join la ra attrs L R =
      concat (map (\<lambda>l. map (\<lambda>r. project attrs (l, r)) (filter (\<lambda>r. l ! la \<noteq> Cell_null \<and> l ! la = r ! ra) R))
        (map (nth L) [0..<length L]))"
    by (simp add: equi_join_def project_def map_nth)
  also have "\<dots> = concat (map (\<lambda>i. map (\<lambda>j. project attrs (L ! i, R ! j))
      (filter (\<lambda>j. L ! i ! la \<noteq> Cell_null \<and> L ! i ! la = R ! j ! ra) [0..<length R])) [0..<length L])"
    unfolding map_map comp_def by (subst map_filter_nth) (rule refl)
  finally show ?thesis by (simp add: match_pairs_def map_concat comp_def)
qed

lemma match_pairs_set:
  "set (match_pairs la ra L R) = {(i, j). i < length L \<and> j < length R \<and>
     L ! i ! la \<noteq> Cell_null \<and> L ! i ! la = R ! j ! ra}"
  by (auto simp: match_pairs_def)

lemma match_pairs_distinct: "distinct (match_pairs la ra L R)"
  unfolding match_pairs_def
  by (rule distinct_concat_keyed[where g = fst]) (auto simp: distinct_map inj_on_def)

lemma equi_join_perm:
  assumes "mset L = mset L'" "mset R = mset R'"
  shows "mset (equi_join la ra attrs L R) = mset (equi_join la ra attrs L' R')"
proof -
  have R: "mset (map f (filter P R)) = mset (map f (filter P R'))" for P and f :: "cell list \<Rightarrow> cell list"
    using assms(2) by simp
  show ?thesis
    unfolding equi_join_def mset_concat_map using assms(1) by (simp only: R)
qed

section \<open>One join of the plan\<close>

lemma joined_cell:
  assumes l: "buffer_ok plan (map snd lattrs) lb" and r: "buffer_ok plan (map snd rattrs) rb"
    and p: "fst p < cb_num_rows lb" "snd p < cb_num_rows rb"
    and a: "fst a < length lattrs + length rattrs" "snd a = snd ((lattrs @ rattrs) ! fst a)"
  shows "value_ok plan (snd a) (join_cell (cb_columns lb) (cb_columns rb) (fst a) p)"
    and "value_cell plan (snd a) (join_cell (cb_columns lb) (cb_columns rb) (fst a) p) =
      (cell_rows plan lb ! fst p @ cell_rows plan rb ! snd p) ! fst a"
proof -
  note L = buffer_okD[OF l] and R = buffer_okD[OF r]
  have len: "length (cell_rows plan lb ! fst p) = length lattrs" using cell_rows_nth[OF l p(1)] by simp
  have "value_ok plan (snd a) (join_cell (cb_columns lb) (cb_columns rb) (fst a) p) \<and>
      value_cell plan (snd a) (join_cell (cb_columns lb) (cb_columns rb) (fst a) p) =
        (cell_rows plan lb ! fst p @ cell_rows plan rb ! snd p) ! fst a"
  proof (cases "fst a < length lattrs")
    case True
    then have "ct_values (cb_columns lb ! fst a) ! fst p \<in> set (ct_values (cb_columns lb ! fst a))"
      using L(5)[of "fst a"] p(1) by simp
    then show ?thesis
      using True a L(4) L(7)[of "fst a"] cell_rows_cell[OF l p(1), of "fst a"] len
      by (simp add: join_cell_def nth_append)
  next
    case False
    let ?k = "fst a - length lattrs"
    have k: "?k < length rattrs" using False a(1) by simp
    then have "ct_values (cb_columns rb ! ?k) ! snd p \<in> set (ct_values (cb_columns rb ! ?k))"
      using R(5)[of ?k] p(2) by simp
    then show ?thesis
      using False k a L(4) R(7)[of ?k] cell_rows_cell[OF r p(2), of ?k] len
      by (simp add: join_cell_def nth_append)
  qed
  then show "value_ok plan (snd a) (join_cell (cb_columns lb) (cb_columns rb) (fst a) p)"
    and "value_cell plan (snd a) (join_cell (cb_columns lb) (cb_columns rb) (fst a) p) =
      (cell_rows plan lb ! fst p @ cell_rows plan rb ! snd p) ! fst a" by auto
qed

lemma join_step:
  assumes l: "buffer_ok plan (map snd lattrs) lb" and r: "buffer_ok plan (map snd rattrs) rb"
    and j: "join_node_ok lattrs rattrs j attrs" and env: "env_ok env"
    and sizes: "cb_num_rows lb < 2 ^ 32" "cb_num_rows rb < 2 ^ 32"
  shows "\<exists>res en'. run_int32 unchained_wrapper env (jn_build_left j) lb rb (fresh_results attrs)
      (jn_left_attr j) (jn_right_attr j) attrs en = Inr (res, en') \<and>
    buffer_ok plan (map snd attrs) res \<and>
    mset (cell_rows plan res) =
      mset (equi_join (jn_left_attr j) (jn_right_attr j) attrs (cell_rows plan lb) (cell_rows plan rb))"
proof -
  let ?la = "jn_left_attr j" and ?ra = "jn_right_attr j" and ?bl = "jn_build_left j"
  let ?ps = "buffer_join_pairs ?bl lb rb ?la ?ra" and ?C = "join_cell (cb_columns lb) (cb_columns rb)"
  note L = buffer_okD[OF l] and R = buffer_okD[OF r] and J = j[unfolded join_node_ok_def]
  have nc: "num_cols lb = length lattrs" "num_cols rb = length rattrs" using L(3) R(3) by simp_all
  have cols: "?la < num_cols lb" "?ra < num_cols rb" using J nc by auto
  have inputs: "join_inputs_ok lb rb ?la ?ra attrs"
    using L(1) R(1) sizes cols J nc by (auto simp: join_inputs_ok_def attrs_in_def)
  have threads: "threads_ok env en (cb_num_rows (if ?bl then rb else lb))"
    using env sizes by (cases ?bl) (auto simp: threads_ok_def env_ok_def)
  let ?ks = "if ?bl then key_column lb ?la else key_column rb ?ra"
  have "length (key_entries ?ks) < 2 ^ 32"
    using length_key_entries[of ?ks] L(1) R(1) cols sizes by (auto simp: length_key_column split: if_splits)
  then obtain res en' where run:
    "run_int32 unchained_wrapper env ?bl lb rb (fresh_results attrs) ?la ?ra attrs en = Inr (res, en')"
    "cb_types res = map snd attrs" "join_result env ?bl lb rb ?la ?ra attrs res"
    using unchained.run_int32_correct[OF inputs threads, of "fresh_results attrs"]
    by (auto simp: fresh_results_def buffer_new_def)
  from run(3) have res: "buffer_wf res" "num_cols res = length attrs" "\<forall>c \<in> set (cb_columns res). \<not> ct_is_zero_copy c"
    "mset (buffer_rows res) = mset (map (join_row lb rb attrs) ?ps)"
    by (auto simp: join_result_def Let_def)
  have range: "fst p < cb_num_rows lb \<and> snd p < cb_num_rows rb" if "p \<in> set ?ps" for p
    using buffer_join_pairs_range[OF L(1) R(1) cols that] .
  have row: "join_row lb rb attrs p = map (\<lambda>a. ?C (fst a) p) attrs" if "p \<in> set ?ps" for p
    using range[OF that] J nc by (intro join_row_cells) auto
  have pairs: "mset ?ps = mset (match_pairs ?la ?ra (cell_rows plan lb) (cell_rows plan rb))"
  proof -
    have "key_column lb ?la ! i = key_column rb ?ra ! k \<and> key_column lb ?la ! i \<noteq> None \<longleftrightarrow>
        cell_rows plan lb ! i ! ?la \<noteq> Cell_null \<and> cell_rows plan lb ! i ! ?la = cell_rows plan rb ! k ! ?ra"
      if "i < cb_num_rows lb" "k < cb_num_rows rb" for i k
      using J that by (intro key_match_iff[OF l _ _ _ r]) auto
    then have "set ?ps = set (match_pairs ?la ?ra (cell_rows plan lb) (cell_rows plan rb))"
      unfolding buffer_join_pairs_set match_pairs_set length_cell_rows
        length_key_column[OF L(1) cols(1)] length_key_column[OF R(1) cols(2)] by blast
    then show ?thesis
      using set_eq_iff_mset_eq_distinct[OF buffer_join_pairs_distinct match_pairs_distinct] by blast
  qed
  have cells: "map2 (value_cell plan) (map snd attrs) (join_row lb rb attrs p) =
      project attrs (cell_rows plan lb ! fst p, cell_rows plan rb ! snd p)" if "p \<in> set ?ps" for p
  proof -
    have "map2 (value_cell plan) (map snd attrs) (map (\<lambda>a. ?C (fst a) p) attrs) =
        map (\<lambda>a. value_cell plan (snd a) (?C (fst a) p)) attrs"
      by (induction attrs) auto
    then show ?thesis
      using joined_cell(2)[OF l r] range[OF that] J row[OF that] by (simp add: project_def)
  qed
  have "mset (cell_rows plan res) = image_mset (map2 (value_cell plan) (map snd attrs)) (mset (buffer_rows res))"
    by (simp add: cell_rows_def run(2))
  also have "\<dots> = mset (map (\<lambda>p. map2 (value_cell plan) (map snd attrs) (join_row lb rb attrs p)) ?ps)"
    by (simp add: res(4) image_mset.compositionality comp_def)
  also have "map (\<lambda>p. map2 (value_cell plan) (map snd attrs) (join_row lb rb attrs p)) ?ps =
      map (\<lambda>p. project attrs (cell_rows plan lb ! fst p, cell_rows plan rb ! snd p)) ?ps"
    using cells by (intro map_cong refl)
  also have "mset \<dots> = mset (equi_join ?la ?ra attrs (cell_rows plan lb) (cell_rows plan rb))"
    unfolding equi_join_pairs mset_map pairs by (simp add: case_prod_unfold)
  finally have rows: "mset (cell_rows plan res) = mset (equi_join ?la ?ra attrs (cell_rows plan lb) (cell_rows plan rb))" .
  have "value_ok plan (snd (attrs ! k)) v" if k: "k < length attrs" and v: "v \<in> set (ct_values (cb_columns res ! k))" for k v
  proof -
    have len: "k < length (cb_columns res)" "length (ct_values (cb_columns res ! k)) = cb_num_rows res"
      using res(1,2) k columns_wfD by (auto simp: num_cols_def buffer_wf_def)
    then obtain i where i: "i < cb_num_rows res" "v = buffer_rows res ! i ! k"
      using v by (auto simp: in_set_conv_nth buffer_rows_def)
    then have "buffer_rows res ! i \<in> set (map (join_row lb rb attrs) ?ps)"
      using mset_eq_setD[OF res(4)] by (metis length_buffer_rows nth_mem)
    then obtain p where p: "p \<in> set ?ps" "buffer_rows res ! i = join_row lb rb attrs p" by auto
    then have "v = ?C (fst (attrs ! k)) p" using i(2) row[OF p(1)] k by simp
    then show ?thesis using joined_cell(1)[OF l r _ _ , of p "attrs ! k"] range[OF p(1)] J k by simp
  qed
  then have "buffer_ok plan (map snd attrs) res"
    using res(1-3) run(2) by (auto simp: buffer_ok_def zero_copy_ok_def num_cols_def)
  with run(1) rows show ?thesis by blast
qed

section \<open>One scan of the plan\<close>

lemma column_rows_no_nulls:
  "col_type c = INT32 \<Longrightarrow> \<not> column_has_nulls c \<Longrightarrow> None \<notin> set (column_int32_rows c)"
  by (auto simp: column_has_nulls_iff column_int32_rows_def page_rows_def split: if_splits)

lemma scan_step:
  assumes ok: "scan_node_ok plan s attrs"
  shows "\<exists>buf. execute_scan plan s attrs = Inr buf \<and> buffer_ok plan (map snd attrs) buf \<and>
    cell_rows plan buf = table_rows (pl_inputs plan ! sn_base_table_id s) attrs"
proof -
  let ?tid = "sn_base_table_id s"
  let ?t = "pl_inputs plan ! ?tid"
  let ?c = "\<lambda>k. tbl_columns ?t ! fst (attrs ! k)"
  have so: "scan_ok plan s attrs" and tid: "?tid < 255"
    and at: "\<And>k. k < length attrs \<Longrightarrow> fst (attrs ! k) < 256 \<and>
      (if snd (attrs ! k) = INT32 then int_column_ok (?c k) else string_column_ok (?c k))"
    using ok by (auto simp: scan_node_ok_def Let_def)
  have tl: "?tid < length (pl_inputs plan)"
    and col: "\<And>k. k < length attrs \<Longrightarrow> fst (attrs ! k) < length (tbl_columns ?t) \<and>
      input_column_ok (tbl_num_rows ?t) (?c k) \<and> col_type (?c k) = snd (attrs ! k)"
    using so by (auto simp: scan_ok_def Let_def)
  obtain buf where buf: "scan_columnar_to_columnbuffer plan s attrs = Inr buf"
    "cb_num_rows buf = tbl_num_rows ?t" "cb_types buf = map snd attrs" "length (cb_columns buf) = length attrs"
    "\<And>k. k < length attrs \<Longrightarrow> column_wf (cb_columns buf ! k) \<and>
       ct_values (cb_columns buf ! k) = scanned_values ?tid (fst (attrs ! k)) (?c k) \<and>
       length (ct_values (cb_columns buf ! k)) = tbl_num_rows ?t \<and>
       (ct_is_zero_copy (cb_columns buf ! k) \<longrightarrow> zero_copy_source (?c k))"
    using scan_correct[OF so] by blast
  have column: "map (value_cell plan (snd (attrs ! k))) (ct_values (cb_columns buf ! k)) = column_cells (?c k) \<and>
      (\<forall>v \<in> set (ct_values (cb_columns buf ! k)). value_ok plan (snd (attrs ! k)) v) \<and> zero_copy_ok (cb_columns buf ! k)"
    if k: "k < length attrs" for k
  proof (cases "snd (attrs ! k) = INT32")
    case True
    then have c: "col_type (?c k) = INT32" "int_column_ok (?c k)" using at[OF k] col[OF k] by auto
    have rows: "scanned_values ?tid (fst (attrs ! k)) (?c k) = map int32_value (column_int32_rows (?c k))"
      using c(1) by (simp add: scanned_values_def column_int32_rows_def page_int32_values_def[abs_def] map_concat comp_def)
    have "\<not> is_null (int32_value x)" if "\<not> column_has_nulls (?c k)" "x \<in> set (column_int32_rows (?c k))" for x
      by (insert that column_rows_no_nulls[OF c(1)] c(2), cases x)
        (auto simp: int32_value_def is_null_make_i32 int_column_ok_def)
    then have "zero_copy_ok (cb_columns buf ! k)"
      using buf(5)[OF k] rows by (auto simp: zero_copy_ok_def zero_copy_source_def)
    then show ?thesis using True scanned_int_cells[OF c] buf(5)[OF k] by (simp add: value_ok_def)
  next
    case False
    then have ty: "snd (attrs ! k) = VARCHAR" "col_type (?c k) = VARCHAR" and sc: "string_column_ok (?c k)"
      using col[OF k] at[OF k] by (auto simp: input_column_ok_def)
    have strs: "list_all2 (string_value plan) (ct_values (cb_columns buf ! k)) (decode_strings (col_pages (?c k)))"
      using scanned_strings[OF tid tl _ _ refl ty(2) sc] at[OF k] col[OF k] buf(5)[OF k] by simp
    then have "map (value_cell plan VARCHAR) (ct_values (cb_columns buf ! k)) = column_cells (?c k)"
      using ty(2) by (intro nth_equalityI) (auto simp: list_all2_conv_all_nth column_cells_def string_value_cell)
    moreover have "value_ok plan VARCHAR v" if "v \<in> set (ct_values (cb_columns buf ! k))" for v
      using strs that
      by (auto simp: list_all2_conv_all_nth in_set_conv_nth value_ok_def string_value_def split: option.splits)
    moreover have "zero_copy_ok (cb_columns buf ! k)"
      using buf(5)[OF k] ty(2) by (auto simp: zero_copy_ok_def zero_copy_source_def)
    ultimately show ?thesis using ty(1) by simp
  qed
  have bok: "buffer_ok plan (map snd attrs) buf"
  proof -
    have "column_wf c \<and> length (ct_values c) = cb_num_rows buf" if "c \<in> set (cb_columns buf)" for c
      using that buf(2,4) buf(5) unfolding in_set_conv_nth by metis
    then show ?thesis
      using buf(3,4) column by (auto simp: buffer_ok_def buffer_wf_def columns_wf_def num_cols_def)
  qed
  have "cell_rows plan buf = table_rows ?t attrs"
  proof (rule nth_equalityI)
    fix i assume i: "i < length (cell_rows plan buf)"
    have "value_cell plan (snd (attrs ! k)) (ct_values (cb_columns buf ! k) ! i) = column_cells (?c k) ! i"
      if "k < length attrs" for k
      using column[OF that] buf(2) buf(5)[OF that] i by (metis length_cell_rows nth_map)
    then show "cell_rows plan buf ! i = table_rows ?t attrs ! i"
      using i buf(2) by (intro nth_equalityI) (simp_all add: cell_rows_nth[OF bok] table_rows_def)
  qed (simp add: buf(2) table_rows_def)
  with bok buf(1) show ?thesis by (auto simp: execute_scan_def)
qed

section \<open>The whole plan\<close>

lemma node_types:
  assumes "plan_acyclic plan" "\<forall>i < length (pl_nodes plan). node_ok plan i"
  shows "i < length (pl_nodes plan) \<Longrightarrow> a \<in> set (pn_output_attrs (pl_nodes plan ! i)) \<Longrightarrow> snd a \<in> {INT32, VARCHAR}"
proof (induction i arbitrary: a rule: less_induct)
  case (less i)
  have ok: "node_ok plan i" using assms(2) less.prems(1) by simp
  show ?case
  proof (cases "pn_data (pl_nodes plan ! i)")
    case (Scan_node s)
    then show ?thesis
      using ok less.prems(2) by (fastforce simp: node_ok_def scan_node_ok_def scan_ok_def input_column_ok_def Let_def)
  next
    case (Join_node j)
    note below = acyclic_children[OF assms(1) less.prems(1) Join_node]
    let ?la = "pn_output_attrs (pl_nodes plan ! jn_left j)" and ?ra = "pn_output_attrs (pl_nodes plan ! jn_right j)"
    have "fst a < length ?la + length ?ra" "snd a = snd ((?la @ ?ra) ! fst a)"
      using ok less.prems(2) Join_node by (auto simp: node_ok_def join_node_ok_def Let_def)
    moreover from this(1) have "(?la @ ?ra) ! fst a \<in> set ?la \<union> set ?ra"
      by (metis length_append nth_mem set_append)
    moreover have "snd x \<in> {INT32, VARCHAR}" if "x \<in> set ?la \<union> set ?ra" for x
      using that less.IH[OF below(1)] less.IH[OF below(2)] below less.prems(1) less_trans by blast
    ultimately show ?thesis by metis
  qed
qed

lemma execute_impl_correct:
  assumes ac: "plan_acyclic plan" and ok: "\<forall>i < length (pl_nodes plan). node_ok plan i" and env: "env_ok env"
  shows "i < length (pl_nodes plan) \<Longrightarrow> i < fuel \<Longrightarrow> \<exists>buf en'. execute_impl fuel env plan i en = Inr (buf, en') \<and>
    buffer_ok plan (map snd (pn_output_attrs (pl_nodes plan ! i))) buf \<and>
    mset (cell_rows plan buf) = mset (node_rows plan i) \<and> cb_num_rows buf < 2 ^ 32"
proof (induction fuel arbitrary: i en)
  case (Suc fuel)
  let ?node = "pl_nodes plan ! i"
  let ?attrs = "pn_output_attrs ?node"
  have nok: "node_ok plan i" using ok Suc.prems(1) by simp
  have size: "cb_num_rows buf < 2 ^ 32" if "mset (cell_rows plan buf) = mset (node_rows plan i)" for buf
    using nok mset_eq_length[OF that] by (simp add: node_ok_def Let_def)
  show ?case
  proof (cases "pn_data ?node")
    case (Scan_node s)
    have "node_rows plan i = table_rows (pl_inputs plan ! sn_base_table_id s) ?attrs"
      by (simp add: node_rows_def Scan_node)
    moreover have "scan_node_ok plan s ?attrs" using nok by (simp add: node_ok_def Scan_node)
    ultimately show ?thesis
      using scan_step[of plan s ?attrs] size Suc.prems(1) Scan_node by auto
  next
    case (Join_node j)
    let ?l = "jn_left j" and ?r = "jn_right j"
    let ?lattrs = "pn_output_attrs (pl_nodes plan ! ?l)" and ?rattrs = "pn_output_attrs (pl_nodes plan ! ?r)"
    let ?exec = "\<lambda>i en. execute_impl fuel env plan i en"
    note below = acyclic_children[OF ac Suc.prems(1) Join_node]
    have lr: "?l < length (pl_nodes plan)" "?r < length (pl_nodes plan)" "?l < fuel" "?r < fuel"
      using below Suc.prems by auto
    have j: "join_node_ok ?lattrs ?rattrs j ?attrs" using nok Join_node by (simp add: node_ok_def Let_def)
    obtain lb en1 where l: "?exec ?l en = Inr (lb, en1)" "buffer_ok plan (map snd ?lattrs) lb"
      "mset (cell_rows plan lb) = mset (node_rows plan ?l)" "cb_num_rows lb < 2 ^ 32"
      using Suc.IH[OF lr(1,3), of en] by blast
    obtain rb en2 where r: "?exec ?r en1 = Inr (rb, en2)" "buffer_ok plan (map snd ?rattrs) rb"
      "mset (cell_rows plan rb) = mset (node_rows plan ?r)" "cb_num_rows rb < 2 ^ 32"
      using Suc.IH[OF lr(2,4), of en1] by blast
    obtain res en3 where run: "run_int32 unchained_wrapper env (jn_build_left j) lb rb (fresh_results ?attrs)
        (jn_left_attr j) (jn_right_attr j) ?attrs en2 = Inr (res, en3)"
      "buffer_ok plan (map snd ?attrs) res"
      "mset (cell_rows plan res) =
        mset (equi_join (jn_left_attr j) (jn_right_attr j) ?attrs (cell_rows plan lb) (cell_rows plan rb))"
      using join_step[OF l(2) r(2) j env l(4) r(4), of en2] by blast
    have key: "(if jn_build_left j then at ?lattrs (jn_left_attr j) else at ?rattrs (jn_right_attr j)) =
        Inr (if jn_build_left j then ?lattrs ! jn_left_attr j else ?rattrs ! jn_right_attr j)"
      and ty: "snd (if jn_build_left j then ?lattrs ! jn_left_attr j else ?rattrs ! jn_right_attr j) = INT32"
      using j by (auto simp: join_node_ok_def)
    have hj: "execute_hash_join ?exec env plan j ?attrs en = Inr (res, en3)"
      unfolding execute_hash_join_def
      by (simp only: at_simps[OF lr(1)] at_simps[OF lr(2)] rbind_simps l(1) r(1) prod.case key ty run(1) simp_thms if_False)
    have "execute_impl (Suc fuel) env plan i en = Inr (res, en3)"
      by (simp only: execute_impl.simps at_simps[OF Suc.prems(1)] rbind_simps Join_node node_data.case hj)
    moreover have rows: "mset (cell_rows plan res) = mset (node_rows plan i)"
      unfolding run(3) node_rows_join[OF ac Suc.prems(1) Join_node] by (rule equi_join_perm[OF l(3) r(3)])
    ultimately show ?thesis using run(2) size[OF rows] by blast
  qed
qed simp

section \<open>Where the attributes of a node come from\<close>

text \<open>\<open>attr_from plan i k t c\<close>: output attribute \<open>k\<close> of node \<open>i\<close> is column \<open>c\<close> of input table \<open>t\<close>,
  read off the plan alone.\<close>

inductive attr_from :: "plan \<Rightarrow> nat \<Rightarrow> nat \<Rightarrow> nat \<Rightarrow> nat \<Rightarrow> bool" for plan where
  from_scan: "pn_data (pl_nodes plan ! i) = Scan_node s \<Longrightarrow> k < length (pn_output_attrs (pl_nodes plan ! i)) \<Longrightarrow>
    attr_from plan i k (sn_base_table_id s) (fst (pn_output_attrs (pl_nodes plan ! i) ! k))"
| from_left: "pn_data (pl_nodes plan ! i) = Join_node j \<Longrightarrow> k < length (pn_output_attrs (pl_nodes plan ! i)) \<Longrightarrow>
    a = fst (pn_output_attrs (pl_nodes plan ! i) ! k) \<Longrightarrow> a < length (pn_output_attrs (pl_nodes plan ! jn_left j)) \<Longrightarrow>
    attr_from plan (jn_left j) a t c \<Longrightarrow> attr_from plan i k t c"
| from_right: "pn_data (pl_nodes plan ! i) = Join_node j \<Longrightarrow> k < length (pn_output_attrs (pl_nodes plan ! i)) \<Longrightarrow>
    a = fst (pn_output_attrs (pl_nodes plan ! i) ! k) \<Longrightarrow> \<not> a < length (pn_output_attrs (pl_nodes plan ! jn_left j)) \<Longrightarrow>
    attr_from plan (jn_right j) (a - length (pn_output_attrs (pl_nodes plan ! jn_left j))) t c \<Longrightarrow> attr_from plan i k t c"

inductive_simps attr_from_iff: "attr_from plan i k t c"

lemma attr_from_total:
  assumes ac: "plan_acyclic plan" and ok: "\<forall>i < length (pl_nodes plan). node_ok plan i"
  shows "i < length (pl_nodes plan) \<Longrightarrow> k < length (pn_output_attrs (pl_nodes plan ! i)) \<Longrightarrow> \<exists>t c. attr_from plan i k t c"
proof (induction i arbitrary: k rule: less_induct)
  case (less i)
  show ?case
  proof (cases "pn_data (pl_nodes plan ! i)")
    case (Scan_node s)
    then show ?thesis using from_scan[OF Scan_node less.prems(2)] by blast
  next
    case (Join_node j)
    note below = acyclic_children[OF ac less.prems(1) Join_node]
    let ?la = "pn_output_attrs (pl_nodes plan ! jn_left j)" and ?ra = "pn_output_attrs (pl_nodes plan ! jn_right j)"
    let ?a = "fst (pn_output_attrs (pl_nodes plan ! i) ! k)"
    have a: "?a < length ?la + length ?ra"
      using ok less.prems Join_node by (auto simp: node_ok_def join_node_ok_def Let_def)
    show ?thesis
    proof (cases "?a < length ?la")
      case True
      then show ?thesis using from_left[OF Join_node less.prems(2) refl] less.IH[OF below(1)] below(1) less.prems(1) by fastforce
    next
      case False
      then have "?a - length ?la < length ?ra" using a by simp
      then show ?thesis
        using from_right[OF Join_node less.prems(2) refl False] less.IH[OF below(2)] below(2) less.prems(1) by fastforce
    qed
  qed
qed

lemma node_rows_scan:
  "pn_data (pl_nodes plan ! i) = Scan_node s \<Longrightarrow>
   node_rows plan i = table_rows (pl_inputs plan ! sn_base_table_id s) (pn_output_attrs (pl_nodes plan ! i))"
  by (simp add: node_rows_def)

lemma length_node_row:
  assumes "row \<in> set (node_rows plan i)"
  shows "length row = length (pn_output_attrs (pl_nodes plan ! i))"
  using assms
  by (cases "pn_data (pl_nodes plan ! i)") (auto simp: node_rows_def table_rows_def equi_join_def Let_def)

text \<open>The column has the declared type, and the node shows none but its cells.\<close>

lemma attr_from_cells:
  assumes ac: "plan_acyclic plan" and ok: "\<forall>i < length (pl_nodes plan). node_ok plan i" and "attr_from plan i k t c"
  shows "i < length (pl_nodes plan) \<Longrightarrow> col_type (tbl_columns (pl_inputs plan ! t) ! c) = snd (pn_output_attrs (pl_nodes plan ! i) ! k) \<and>
    (\<forall>row \<in> set (node_rows plan i). row ! k \<in> set (column_cells (tbl_columns (pl_inputs plan ! t) ! c)))"
  using assms(3)
proof (induction rule: attr_from.induct)
  case (from_scan i s k)
  let ?attrs = "pn_output_attrs (pl_nodes plan ! i)" and ?t = "pl_inputs plan ! sn_base_table_id s"
  have "scan_ok plan s ?attrs" using ok from_scan by (auto simp: node_ok_def scan_node_ok_def Let_def)
  then have "input_column_ok (tbl_num_rows ?t) (tbl_columns ?t ! fst (?attrs ! k))"
    "col_type (tbl_columns ?t ! fst (?attrs ! k)) = snd (?attrs ! k)"
    using from_scan(2) by (auto simp: scan_ok_def Let_def)
  then show ?case
    using from_scan(2) length_column_cells[of "tbl_num_rows ?t" "tbl_columns ?t ! fst (?attrs ! k)"]
    by (auto simp: node_rows_scan[OF from_scan(1)] table_rows_def)
next
  case (from_left i j k a t c)
  note below = acyclic_children[OF ac from_left.prems from_left(1)]
  let ?la = "pn_output_attrs (pl_nodes plan ! jn_left j)"
  have IH: "col_type (tbl_columns (pl_inputs plan ! t) ! c) = snd (?la ! a)"
    "\<And>row. row \<in> set (node_rows plan (jn_left j)) \<Longrightarrow> row ! a \<in> set (column_cells (tbl_columns (pl_inputs plan ! t) ! c))"
    using from_left.IH below from_left.prems by auto
  have ty: "snd (pn_output_attrs (pl_nodes plan ! i) ! k) = snd (?la ! a)"
    using ok from_left.prems from_left(1-4) by (auto simp: node_ok_def join_node_ok_def Let_def nth_append)
  show ?case
    using IH from_left(2-4) ty length_node_row[of _ plan "jn_left j"]
    by (auto simp: node_rows_join[OF ac from_left.prems from_left(1)] equi_join_def nth_append)
next
  case (from_right i j k a t c)
  note below = acyclic_children[OF ac from_right.prems from_right(1)]
  let ?la = "pn_output_attrs (pl_nodes plan ! jn_left j)" and ?ra = "pn_output_attrs (pl_nodes plan ! jn_right j)"
  have IH: "col_type (tbl_columns (pl_inputs plan ! t) ! c) = snd (?ra ! (a - length ?la))"
    "\<And>row. row \<in> set (node_rows plan (jn_right j)) \<Longrightarrow>
       row ! (a - length ?la) \<in> set (column_cells (tbl_columns (pl_inputs plan ! t) ! c))"
    using from_right.IH below from_right.prems by auto
  have ty: "snd (pn_output_attrs (pl_nodes plan ! i) ! k) = snd (?ra ! (a - length ?la))"
    using ok from_right.prems from_right(1-4) by (auto simp: node_ok_def join_node_ok_def Let_def nth_append)
  show ?case
    using IH from_right(2-4) ty length_node_row[of _ plan "jn_left j"]
    by (auto simp: node_rows_join[OF ac from_right.prems from_right(1)] equi_join_def nth_append)
qed

text \<open>The value \<open>v\<close> stands for a row of the input column \<open>c\<close>: NULL for a NULL row, the integer of
  an INT32 row, and for VARCHAR a reference that resolves to a string the column stores.\<close>

definition value_from :: "plan \<Rightarrow> column \<Rightarrow> value_t \<Rightarrow> bool" where
  "value_from plan c v \<longleftrightarrow>
     (case col_type c of
        INT32 \<Rightarrow> (if is_null v then None else Some (as_i32 v)) \<in> set (column_int32_rows c)
      | VARCHAR \<Rightarrow>
          (if is_null v then None \<in> set (decode_strings (col_pages c))
           else \<exists>s. resolve plan (as_ref v) = Inr (Some s) \<and> Some s \<in> set (decode_strings (col_pages c)))
      | _ \<Rightarrow> False)"

lemma int32_cell_eq: "int32_cell x = int32_cell y \<longleftrightarrow> x = y"
  by (cases x; cases y; simp add: int32_cell_def)

lemma string_cell_eq: "Resolver.string_cell x = Resolver.string_cell y \<longleftrightarrow> x = y"
  by (cases x; cases y; simp add: Resolver.string_cell_def)

lemma value_from_cell:
  assumes "value_cell plan (col_type c) v \<in> set (column_cells c)" "value_ok plan (col_type c) v" "col_type c \<in> {INT32, VARCHAR}"
  shows "value_from plan c v"
proof (cases "col_type c = INT32")
  case True
  then have "value_cell plan (col_type c) v = int32_cell (if is_null v then None else Some (as_i32 v))"
    by (simp add: value_cell_def int32_cell_def)
  then show ?thesis using assms(1) True by (auto simp: value_from_def column_cells_def int32_cell_eq)
next
  case False
  then have ty: "col_type c = VARCHAR" using assms(3) by simp
  show ?thesis
  proof (cases "is_null v")
    case True
    then have "value_cell plan (col_type c) v = Resolver.string_cell None" by (simp add: value_cell_def Resolver.string_cell_def)
    then show ?thesis using assms(1) ty True by (auto simp: value_from_def column_cells_def string_cell_eq)
  next
    case False
    then obtain s where s: "resolve plan (as_ref v) = Inr (Some s)" using assms(2) ty by (auto simp: value_ok_def)
    then have "value_cell plan (col_type c) v = Resolver.string_cell (Some s)"
      using ty False by (simp add: value_cell_def Resolver.string_cell_def)
    then show ?thesis using assms(1) ty False s by (auto simp: value_from_def column_cells_def string_cell_eq)
  qed
qed

text \<open>The rows an output table stores.\<close>

definition output_rows :: "columnar_table \<Rightarrow> cell list list" where
  "output_rows t = map (\<lambda>r. map (\<lambda>c. column_cells c ! r) (tbl_columns t)) [0..<tbl_num_rows t]"

lemma finalize_buffer:
  assumes ok: "buffer_ok plan (map snd attrs) buf" and tys: "\<And>a. a \<in> set attrs \<Longrightarrow> snd a \<in> {INT32, VARCHAR}"
    and few: "length attrs \<le> MAX_COLS"
  shows "\<exists>t. finalize_columnbuffer_to_columnar plan fresh buf attrs = Inr t \<and>
    tbl_num_rows t = cb_num_rows buf \<and> map col_type (tbl_columns t) = map snd attrs \<and>
    (\<forall>c \<in> set (tbl_columns t). length (column_cells c) = tbl_num_rows t \<and> whole_groups c) \<and>
    output_rows t = cell_rows plan buf"
proof -
  note B = buffer_okD[OF ok]
  have n: "length attrs = num_cols buf" using B(3) by simp
  have "finalize_ok plan buf" using B tys by (auto simp: finalize_ok_def intro: value_ok_resolves)
  from finalize_correct[OF this n few] obtain t where t: "finalize_columnbuffer_to_columnar plan fresh buf attrs = Inr t"
    "tbl_num_rows t = cb_num_rows buf" "map col_type (tbl_columns t) = map snd attrs"
    "map column_cells (tbl_columns t) = map (buffer_cells plan buf) [0..<num_cols buf]"
    "\<forall>c \<in> set (tbl_columns t). whole_groups c"
    unfolding B(2) by blast
  have len: "length (tbl_columns t) = length attrs" using t(3) by (metis length_map)
  have col: "column_cells (tbl_columns t ! k) = buffer_cells plan buf k" if "k < length attrs" for k
    using t(4) that len n by (metis (no_types, lifting) add.left_neutral diff_zero length_upt nth_map nth_upt)
  have cells: "length (column_cells (tbl_columns t ! k)) = cb_num_rows buf" if "k < length attrs" for k
    using col[OF that] B(5)[of k] that by (simp add: buffer_cells_def)
  have "output_rows t = cell_rows plan buf"
  proof (rule nth_equalityI)
    fix i assume i: "i < length (output_rows t)"
    have "column_cells (tbl_columns t ! k) ! i = value_cell plan (snd (attrs ! k)) (ct_values (cb_columns buf ! k) ! i)"
      if "k < length attrs" for k
      using col[OF that] cells[OF that] i t(2) B(2) that by (simp add: output_rows_def buffer_cells_def)
    then show "output_rows t ! i = cell_rows plan buf ! i"
      using i t(2) len by (intro nth_equalityI) (simp_all add: cell_rows_nth[OF ok] output_rows_def)
  qed (simp add: output_rows_def t(2))
  then show ?thesis using t(1-3,5) cells len by (auto simp: in_set_conv_nth)
qed

lemma execute_correct:
  assumes "plan_ok plan" "env_ok env" "pl_root plan < fuel"
    and few: "length (pn_output_attrs (pl_nodes plan ! pl_root plan)) \<le> MAX_COLS"
  shows "\<exists>t en'. execute fuel env fresh plan en = Inr (t, en') \<and>
    map col_type (tbl_columns t) = map snd (pn_output_attrs (pl_nodes plan ! pl_root plan)) \<and>
    (\<forall>c \<in> set (tbl_columns t). length (column_cells c) = tbl_num_rows t \<and> whole_groups c) \<and>
    mset (output_rows t) = mset (node_rows plan (pl_root plan))"
proof -
  let ?attrs = "pn_output_attrs (pl_nodes plan ! pl_root plan)"
  have ac: "plan_acyclic plan" and root: "pl_root plan < length (pl_nodes plan)"
    and ok: "\<forall>i < length (pl_nodes plan). node_ok plan i" using assms(1) by (auto simp: plan_ok_def)
  define en0 where "en0 = (if join_telemetry_enabled (je_join_telemetry env)
    then en\<lparr>en_telemetry := qt_begin_query (en_telemetry en)\<rparr> else en)"
  obtain buf en1 where run: "execute_impl fuel env plan (pl_root plan) en0 = Inr (buf, en1)"
    "buffer_ok plan (map snd ?attrs) buf" "mset (cell_rows plan buf) = mset (node_rows plan (pl_root plan))"
    using execute_impl_correct[OF ac ok assms(2) root assms(3), of en0] by blast
  obtain t where t: "finalize_columnbuffer_to_columnar plan fresh buf ?attrs = Inr t"
    "map col_type (tbl_columns t) = map snd ?attrs"
    "\<forall>c \<in> set (tbl_columns t). length (column_cells c) = tbl_num_rows t \<and> whole_groups c" "output_rows t = cell_rows plan buf"
    using finalize_buffer[OF run(2) node_types[OF ac ok root] few, of fresh] by blast
  have "\<exists>en'. execute fuel env fresh plan en = Inr (t, en')"
    unfolding execute_def Let_def en0_def[symmetric] run(1) rbind_simps prod.case at_simps[OF root] t(1) by blast
  with t(2-4) run(3) show ?thesis by auto
qed

section \<open>A sample plan\<close>

text \<open>Four keys joined with two keyed names; two forced worker threads, one scheduled after the other.\<close>

definition example_plan :: plan where
  "example_plan =
     \<lparr>pl_nodes =
        [\<lparr>pn_data = Scan_node \<lparr>sn_base_table_id = 0\<rparr>, pn_output_attrs = [(0, INT32)]\<rparr>,
         \<lparr>pn_data = Scan_node \<lparr>sn_base_table_id = 1\<rparr>, pn_output_attrs = [(0, INT32), (1, VARCHAR)]\<rparr>,
         \<lparr>pn_data = Join_node \<lparr>jn_build_left = False, jn_left = 0, jn_right = 1, jn_left_attr = 0, jn_right_attr = 0\<rparr>,
          pn_output_attrs = [(0, INT32), (2, VARCHAR)]\<rparr>],
      pl_inputs =
        [\<lparr>tbl_num_rows = 4, tbl_columns = [example_keys]\<rparr>,
         \<lparr>tbl_num_rows = 2, tbl_columns = [\<lparr>col_type = INT32, col_pages = [int_page]\<rparr>, example_names]\<rparr>],
      pl_root = 2\<rparr>"

text \<open>New pages come with arbitrary bytes.\<close>

definition example_fresh :: "nat \<Rightarrow> nat \<Rightarrow> page" where
  "example_fresh c p i = 0xAA"

definition example_parallel_env :: join_env where
  "example_parallel_env = \<lparr>je_hardware_concurrency = 8, je_force_threads = Some ''2'', je_join_telemetry = Some ''1'',
     je_schedule = (\<lambda>n. replicate (2 ^ 32) 0 @ replicate (2 ^ 32) 1)\<rparr>"

lemma count_list_replicate_if: "count_list (replicate n x) y = (if x = y then n else 0)"
  by (induction n) auto

lemma example_parallel_env_ok: "env_ok example_parallel_env"
proof -
  have "forced_threads (Some ''2'') = 2"
    by (simp add: forced_threads_def atoi_def is_space_def)
  then have "probe_nthreads example_parallel_env n = 2" for n
    by (simp add: probe_nthreads_def example_parallel_env_def)
  moreover have "count_list (je_schedule example_parallel_env k) t = 2 ^ 32" if "t < 2" for k and t :: nat
    using that by (auto simp: example_parallel_env_def less_2_cases_iff count_list_replicate_if)
  ultimately show ?thesis by (auto simp: env_ok_def fair_schedule_def)
qed

lemma example_plan_cells:
  "column_cells example_keys = [Cell_int 7, Cell_int 9, Cell_int 7, Cell_int 9]"
  "column_cells \<lparr>col_type = INT32, col_pages = [int_page]\<rparr> = [Cell_int 7, Cell_int 9]"
  "column_cells example_names = [Cell_str [97, 98], Cell_str [99]]"
  using example_names_ok(2) int_page_rows
  by (simp_all add: column_cells_def example_keys_def column_int32_rows_def int32_cell_def string_cell_def example_names_def)

lemma example_node_rows:
  "node_rows example_plan 0 = [[Cell_int 7], [Cell_int 9], [Cell_int 7], [Cell_int 9]]"
  "node_rows example_plan 1 = [[Cell_int 7, Cell_str [97, 98]], [Cell_int 9, Cell_str [99]]]"
  "node_rows example_plan 2 = [[Cell_int 7, Cell_str [97, 98]], [Cell_int 9, Cell_str [99]],
     [Cell_int 7, Cell_str [97, 98]], [Cell_int 9, Cell_str [99]]]"
  by (simp_all add: node_rows_def example_plan_def table_rows_def example_plan_cells equi_join_def upt_rec numeral_2_eq_2)

lemma example_int_ok: "int_column_ok example_keys" "int_column_ok \<lparr>col_type = INT32, col_pages = [int_page]\<rparr>"
  using int_page_rows by (simp_all add: int_column_ok_def column_int32_rows_def example_keys_def)

lemma example_scans_ok:
  assumes "pl_inputs plan = pl_inputs example_plan"
  shows "scan_node_ok plan \<lparr>sn_base_table_id = 0\<rparr> [(0, INT32)]"
    "scan_node_ok plan \<lparr>sn_base_table_id = 1\<rparr> [(0, INT32), (1, VARCHAR)]"
proof -
  have rows: "input_column_ok 4 example_keys" "input_column_ok 2 \<lparr>col_type = INT32, col_pages = [int_page]\<rparr>"
    "input_column_ok 2 example_names"
    by (simp_all add: input_column_ok_def example_keys_def example_names_def page_logical_rows_def sample_num_rows)
  show "scan_node_ok plan \<lparr>sn_base_table_id = 0\<rparr> [(0, INT32)]"
    using assms rows example_int_ok by (simp add: scan_node_ok_def scan_ok_def example_plan_def example_keys_no_nulls)
  show "scan_node_ok plan \<lparr>sn_base_table_id = 1\<rparr> [(0, INT32), (1, VARCHAR)]"
    using assms rows example_int_ok example_names_ok(1)
    by (simp add: scan_node_ok_def scan_ok_def example_plan_def) (simp add: example_names_def)
qed

lemma example_plan_ok: "plan_ok example_plan"
proof -
  have "plan_acyclic example_plan"
    by (auto simp: plan_acyclic_def node_below_def example_plan_def less_Suc_eq numeral_3_eq_3)
  moreover have "node_ok example_plan 0" "node_ok example_plan 1" "node_ok example_plan 2"
    unfolding node_ok_def Let_def example_node_rows
    using example_scans_ok by (simp_all add: example_plan_def join_node_ok_def)
  moreover have "length (pl_nodes example_plan) = 3" "pl_root example_plan = 2" by (simp_all add: example_plan_def)
  moreover have "i = 0 \<or> i = 1 \<or> i = 2" if "i < 3" for i :: nat using that by linarith
  ultimately show ?thesis unfolding plan_ok_def by auto
qed

section \<open>Properties\<close>

text \<open>C4. End to end: on a supported plan (acyclic, typed, inputs the engine can represent, fewer
  than 2^32 rows at each node, at most 16 output columns) \<open>execute\<close> succeeds, and the pages of the output table store, as a
  bag, exactly the rows of the relational evaluation of the plan, with the column types of the
  root, whatever the number of threads and their interleaving. Fuel above the root number is enough.\<close>

theorem execute_refines_plan:
  assumes "plan_ok plan" "env_ok env" "pl_root plan < fuel"
    and "length (pn_output_attrs (pl_nodes plan ! pl_root plan)) \<le> MAX_COLS"
  shows "\<exists>t en'. execute fuel env fresh plan en = Inr (t, en') \<and>
    map col_type (tbl_columns t) = map snd (pn_output_attrs (pl_nodes plan ! pl_root plan)) \<and>
    (\<forall>c \<in> set (tbl_columns t). length (column_cells c) = tbl_num_rows t) \<and>
    mset (output_rows t) = mset (node_rows plan (pl_root plan))"
  using execute_correct[OF assms, of fresh en] by blast

lemma execute_refines_plan_witness:
  "\<exists>t en'. execute 3 example_parallel_env example_fresh example_plan example_engine = Inr (t, en') \<and>
    map col_type (tbl_columns t) = [INT32, VARCHAR] \<and>
    mset (output_rows t) = {#[Cell_int 7, Cell_str [97, 98]], [Cell_int 9, Cell_str [99]],
      [Cell_int 7, Cell_str [97, 98]], [Cell_int 9, Cell_str [99]]#}"
proof -
  have root: "pl_root example_plan = 2" "map snd (pn_output_attrs (pl_nodes example_plan ! 2)) = [INT32, VARCHAR]"
    by (simp_all add: example_plan_def)
  have "length (pn_output_attrs (pl_nodes example_plan ! 2)) \<le> MAX_COLS" by (simp add: example_plan_def MAX_COLS_def)
  then show ?thesis
    using execute_refines_plan[OF example_plan_ok example_parallel_env_ok, of 3 example_fresh example_engine]
    unfolding root example_node_rows by auto
qed

text \<open>C11. A join whose build key is not INT32 is rejected: once both children have run, the engine
  throws, whatever they returned.\<close>

theorem execute_rejects_key_type:
  assumes "node_idx < length (pl_nodes plan)" "pn_data (pl_nodes plan ! node_idx) = Join_node j"
    and "jn_left j < length (pl_nodes plan)" "jn_right j < length (pl_nodes plan)"
    and "execute_impl fuel env plan (jn_left j) en = Inr (left, en1)"
    and "execute_impl fuel env plan (jn_right j) en1 = Inr (right, en2)"
    and "if jn_build_left j
      then jn_left_attr j < length (pn_output_attrs (pl_nodes plan ! jn_left j)) \<and>
        snd (pn_output_attrs (pl_nodes plan ! jn_left j) ! jn_left_attr j) \<noteq> INT32
      else jn_right_attr j < length (pn_output_attrs (pl_nodes plan ! jn_right j)) \<and>
        snd (pn_output_attrs (pl_nodes plan ! jn_right j) ! jn_right_attr j) \<noteq> INT32"
  shows "execute_impl (Suc fuel) env plan node_idx en =
    Inl (Runtime_error ''Only INT32 join columns supported.'')"
proof -
  let ?exec = "\<lambda>i en. execute_impl fuel env plan i en"
  have "execute_hash_join ?exec env plan j attrs en = Inl (Runtime_error ''Only INT32 join columns supported.'')" for attrs
    using assms(7) unfolding execute_hash_join_def at_simps[OF assms(3)] at_simps[OF assms(4)] rbind_simps assms(5,6) prod.case
    by (cases "jn_build_left j") simp_all
  then show ?thesis by (simp add: assms(1,2))
qed

text \<open>The same inputs joined on the names of the right side, which is the build side.\<close>

definition example_bad_join :: join_node where
  "example_bad_join = \<lparr>jn_build_left = False, jn_left = 0, jn_right = 1, jn_left_attr = 0, jn_right_attr = 1\<rparr>"

definition example_bad_plan :: plan where
  "example_bad_plan = example_plan\<lparr>pl_nodes := take 2 (pl_nodes example_plan) @
     [\<lparr>pn_data = Join_node example_bad_join, pn_output_attrs = []\<rparr>]\<rparr>"

lemma execute_rejects_key_type_witness:
  "execute_impl (Suc 1) example_env example_bad_plan 2 example_engine =
   Inl (Runtime_error ''Only INT32 join columns supported.'')"
proof -
  have nodes: "pl_nodes example_bad_plan =
      [\<lparr>pn_data = Scan_node \<lparr>sn_base_table_id = 0\<rparr>, pn_output_attrs = [(0, INT32)]\<rparr>,
       \<lparr>pn_data = Scan_node \<lparr>sn_base_table_id = 1\<rparr>, pn_output_attrs = [(0, INT32), (1, VARCHAR)]\<rparr>,
       \<lparr>pn_data = Join_node example_bad_join, pn_output_attrs = []\<rparr>]"
    by (simp add: example_bad_plan_def example_plan_def)
  note scans = example_scans_ok[of example_bad_plan]
  obtain b0 b1 where "execute_impl 1 example_env example_bad_plan 0 example_engine = Inr (b0, example_engine)"
    "execute_impl 1 example_env example_bad_plan 1 example_engine = Inr (b1, example_engine)"
    using scan_step[OF scans(1)] scan_step[OF scans(2)] nodes by (auto simp: example_bad_plan_def)
  moreover have "length (pl_nodes example_bad_plan) = 3"
    "pn_data (pl_nodes example_bad_plan ! 2) = Join_node example_bad_join"
    "pn_output_attrs (pl_nodes example_bad_plan ! 1) = [(0, INT32), (1, VARCHAR)]"
    by (simp_all add: nodes)
  ultimately show ?thesis
    by (intro execute_rejects_key_type) (auto simp: example_bad_join_def)
qed

text \<open>A scan of a supported table yields a well-formed buffer whose rows, read as cells, are the
  rows of the table restricted to the scanned columns, in the order of the table.\<close>

theorem execute_scan_reads_table:
  assumes "scan_node_ok plan s attrs"
  shows "\<exists>buf. execute_scan plan s attrs = Inr buf \<and> buffer_wf buf \<and> cb_types buf = map snd attrs \<and>
    cell_rows plan buf = table_rows (pl_inputs plan ! sn_base_table_id s) attrs"
  using scan_step[OF assms] by (auto simp: buffer_ok_def)

lemma execute_scan_reads_table_witness:
  "\<exists>buf. execute_scan example_plan \<lparr>sn_base_table_id = 1\<rparr> [(0, INT32), (1, VARCHAR)] = Inr buf \<and>
    cell_rows example_plan buf = [[Cell_int 7, Cell_str [97, 98]], [Cell_int 9, Cell_str [99]]]"
proof -
  have "table_rows (pl_inputs example_plan ! 1) [(0, INT32), (1, VARCHAR)] =
      [[Cell_int 7, Cell_str [97, 98]], [Cell_int 9, Cell_str [99]]]"
    by (simp add: example_plan_def table_rows_def example_plan_cells upt_rec)
  then show ?thesis
    using execute_scan_reads_table[OF example_scans_ok(2)[OF refl]] by fastforce
qed

text \<open>Finalization writes what the buffer stands for: if no reference fails to resolve and
  there are at most 16 columns, every column of the output table stores the cells of its buffer column, in order, under its type.\<close>

theorem finalize_writes_cells:
  assumes "finalize_ok plan buf" "length attrs = num_cols buf" "length attrs \<le> MAX_COLS"
  shows "\<exists>t. finalize_columnbuffer_to_columnar plan fresh buf attrs = Inr t \<and>
    tbl_num_rows t = cb_num_rows buf \<and> map col_type (tbl_columns t) = cb_types buf \<and>
    map column_cells (tbl_columns t) =
      map (\<lambda>k. map (value_cell plan (cb_types buf ! k)) (ct_values (cb_columns buf ! k))) [0..<num_cols buf]"
  using finalize_correct[OF assms, of fresh] by (auto simp: buffer_cells_def)

lemma finalize_writes_cells_witness:
  "\<exists>t. finalize_columnbuffer_to_columnar example_plan example_fresh example_left [(0, INT32)] = Inr t \<and>
    map column_cells (tbl_columns t) = [[Cell_int 7, Cell_null, Cell_int 9]]"
proof -
  have b: "cb_types example_left = [INT32]" "num_cols example_left = 1" "cb_num_rows example_left = 3"
    "ct_values (cb_columns example_left ! 0) = [make_i32 7, make_null, make_i32 9]" "column_wf (cb_columns example_left ! 0)"
    using example_column_wf by (simp_all add: example_left_def num_cols_def)
  then have ok: "finalize_ok example_plan example_left" by (simp add: finalize_ok_def value_resolves_def)
  have "length [(0, INT32)] = num_cols example_left" using b by simp
  have cells: "map (value_cell example_plan (cb_types example_left ! 0)) (ct_values (cb_columns example_left ! 0)) =
      [Cell_int 7, Cell_null, Cell_int 9]"
    unfolding b by (simp add: b(1) value_cell_def is_null_make_i32)
  obtain t where "finalize_columnbuffer_to_columnar example_plan example_fresh example_left [(0, INT32)] = Inr t"
    "map column_cells (tbl_columns t) =
      map (\<lambda>k. map (value_cell example_plan (cb_types example_left ! k)) (ct_values (cb_columns example_left ! k)))
        [0..<num_cols example_left]"
    using finalize_writes_cells[OF ok \<open>length [(0, INT32)] = num_cols example_left\<close>, of example_fresh] by (auto simp: MAX_COLS_def)
  moreover have "[0..<num_cols example_left] = [0]" by (simp add: b)
  ultimately show ?thesis using cells by simp
qed

text \<open>A result of more than 16 columns runs into undefined behaviour: finalization ends with the
  debug dump, whose header has arrays of 16 entries, and nothing checks the number of columns.\<close>

theorem finalize_wide_undefined:
  assumes "finalize_ok plan buf" "length attrs = num_cols buf" "16 < length attrs"
  shows "finalize_columnbuffer_to_columnar plan fresh buf attrs = Inl Undefined"
  using finalize_wide[OF assms(1,2)] assms(3) by (simp add: MAX_COLS_def)

lemma finalize_wide_undefined_witness:
  "finalize_columnbuffer_to_columnar example_plan example_fresh
     \<lparr>cb_columns = replicate 17 (column_new 1024), cb_num_rows = 0, cb_types = replicate 17 INT32\<rparr> (replicate 17 (0, INT32)) =
   Inl Undefined"
  by (rule finalize_wide_undefined) (simp_all add: finalize_ok_def num_cols_def column_new_wf)

text \<open>C5. Evaluation of a well-formed plan does not go wrong and keeps the declared types and the
  origin of every value: each node returns a buffer with the types of its output attributes, in
  which all columns have the same length, and each column of it comes from a column of an input
  table, found by following the attribute down the plan: the input column has the declared type, a
  NULL occurs only where that column stores one, every INT32 value is an integer that column stores,
  and every reference in a VARCHAR column resolves to a string that column stores.\<close>

theorem execute_impl_well_typed:
  assumes "plan_ok plan" "env_ok env" "i < length (pl_nodes plan)" "i < fuel"
  shows "\<exists>buf en'. execute_impl fuel env plan i en = Inr (buf, en') \<and>
    cb_types buf = map snd (pn_output_attrs (pl_nodes plan ! i)) \<and> num_cols buf = length (cb_types buf) \<and>
    (\<forall>c \<in> set (cb_columns buf). length (ct_values c) = cb_num_rows buf) \<and>
    (\<forall>k < num_cols buf. \<exists>t c. attr_from plan i k t c \<and>
       col_type (tbl_columns (pl_inputs plan ! t) ! c) = cb_types buf ! k \<and>
       (\<forall>v \<in> set (ct_values (cb_columns buf ! k)). value_from plan (tbl_columns (pl_inputs plan ! t) ! c) v))"
proof -
  let ?attrs = "pn_output_attrs (pl_nodes plan ! i)"
  have ac: "plan_acyclic plan" and nodes: "\<forall>i < length (pl_nodes plan). node_ok plan i"
    using assms(1) by (simp_all add: plan_ok_def)
  obtain buf en' where run: "execute_impl fuel env plan i en = Inr (buf, en')" and ok: "buffer_ok plan (map snd ?attrs) buf"
    and rows: "mset (cell_rows plan buf) = mset (node_rows plan i)"
    using execute_impl_correct[OF ac nodes assms(2-4), of en] by blast
  note B = buffer_okD[OF ok]
  have "length (ct_values c) = cb_num_rows buf" if "c \<in> set (cb_columns buf)" for c
    using B(1) that by (simp add: buffer_wf_def columns_wf_def)
  moreover have "\<exists>t c. attr_from plan i k t c \<and> col_type (tbl_columns (pl_inputs plan ! t) ! c) = map snd ?attrs ! k \<and>
      (\<forall>v \<in> set (ct_values (cb_columns buf ! k)). value_from plan (tbl_columns (pl_inputs plan ! t) ! c) v)"
    if k: "k < length ?attrs" for k
  proof -
    obtain t c where from_col: "attr_from plan i k t c" using attr_from_total[OF ac nodes assms(3) k] by blast
    let ?c = "tbl_columns (pl_inputs plan ! t) ! c"
    have ty: "col_type ?c = map snd ?attrs ! k"
      and cells: "\<And>row. row \<in> set (node_rows plan i) \<Longrightarrow> row ! k \<in> set (column_cells ?c)"
      using attr_from_cells[OF ac nodes from_col assms(3)] k by auto
    have "value_from plan ?c v" if v: "v \<in> set (ct_values (cb_columns buf ! k))" for v
    proof (rule value_from_cell)
      obtain r where r: "r < cb_num_rows buf" "v = ct_values (cb_columns buf ! k) ! r"
        using v B(5)[of k] k by (auto simp: in_set_conv_nth)
      have "cell_rows plan buf ! r \<in> set (node_rows plan i)"
        using r(1) mset_eq_setD[OF rows] by (metis length_cell_rows nth_mem)
      then show "value_cell plan (col_type ?c) v \<in> set (column_cells ?c)"
        using cells[of "cell_rows plan buf ! r"] cell_rows_cell[OF ok r(1), of k] k r(2) ty by simp
      show "value_ok plan (col_type ?c) v" using B(7)[of k v] k v ty by simp
      show "col_type ?c \<in> {INT32, VARCHAR}" using node_types[OF ac nodes assms(3) nth_mem[OF k]] ty k by simp
    qed
    then show ?thesis using from_col ty by blast
  qed
  ultimately show ?thesis using run B(2,3) by auto
qed

text \<open>In the example the names of the join are references to the strings of the second column of the
  second table.\<close>

lemma execute_impl_well_typed_witness:
  "\<exists>buf en'. execute_impl 3 example_parallel_env example_plan 2 example_engine = Inr (buf, en') \<and>
    cb_types buf = [INT32, VARCHAR] \<and>
    (\<forall>v \<in> set (ct_values (cb_columns buf ! 1)). \<not> is_null v \<and>
       resolve example_plan (as_ref v) \<in> {Inr (Some [97, 98]), Inr (Some [99])})"
proof -
  have nodes: "2 < length (pl_nodes example_plan)" "map snd (pn_output_attrs (pl_nodes example_plan ! 2)) = [INT32, VARCHAR]"
    by (simp_all add: example_plan_def)
  obtain buf en' where run: "execute_impl 3 example_parallel_env example_plan 2 example_engine = Inr (buf, en')"
    "cb_types buf = [INT32, VARCHAR]" "num_cols buf = length (cb_types buf)"
    and cols: "\<forall>k < num_cols buf. \<exists>t c. attr_from example_plan 2 k t c \<and>
       col_type (tbl_columns (pl_inputs example_plan ! t) ! c) = cb_types buf ! k \<and>
       (\<forall>v \<in> set (ct_values (cb_columns buf ! k)). value_from example_plan (tbl_columns (pl_inputs example_plan ! t) ! c) v)"
    using execute_impl_well_typed[OF example_plan_ok example_parallel_env_ok, of 2 3 example_engine] nodes by auto
  have "1 < num_cols buf" by (simp add: run)
  with cols obtain t c where from_col: "attr_from example_plan 2 1 t c"
    and vals: "\<forall>v \<in> set (ct_values (cb_columns buf ! 1)). value_from example_plan (tbl_columns (pl_inputs example_plan ! t) ! c) v"
    by blast
  have "attr_from example_plan 1 1 t c"
    using from_col unfolding attr_from_iff[of example_plan 2] by (auto simp: example_plan_def)
  then have "t = 1" "c = 1"
    unfolding attr_from_iff[of example_plan 1] by (auto simp: example_plan_def)
  then have "tbl_columns (pl_inputs example_plan ! t) ! c = example_names" by (simp add: example_plan_def)
  moreover have "col_type example_names = VARCHAR" by (simp add: example_names_def)
  ultimately have "\<not> is_null v \<and> resolve example_plan (as_ref v) \<in> {Inr (Some [97, 98]), Inr (Some [99])}"
    if "v \<in> set (ct_values (cb_columns buf ! 1))" for v
    using bspec[OF vals that] example_names_ok(2) by (auto simp: value_from_def split: if_splits)
  then show ?thesis using run(1,2) by blast
qed

end
