(* ===== verification/CsvParser.thy ===== *)
theory CsvParser
  imports Prelude
begin

text \<open>
  \<open>CSVParser\<close> (\<open>include/csv_parser.h\<close>, \<open>src/csv_parser.cpp\<close>): an incremental parser that is fed a
  file in chunks. The virtual \<open>on_field\<close> is an argument with a state of its own, which it may change
  or throw from. The loop over the buffer is a recursion over the characters that are left; a step
  sees the next character of the chunk, if there is one, and may consume it.

  The lemmas show that, without trailing commas, the chunking does not matter, and what the parser makes
  of a file in which every field is quoted.
\<close>

section \<open>State\<close>

datatype csv_error = Csv_Ok | QuoteNotClosed | InconsistentColumns | NoTrailingComma

record csv_parser =
  cp_escape :: u8
  cp_comma :: u8
  cp_has_trailing_comma :: bool
  cp_current_field :: "u8 list"
  cp_col_idx :: nat
  cp_row_idx :: nat
  cp_num_cols :: nat
  cp_after_first_row :: bool
  cp_quoted :: bool
  cp_after_field_sep :: bool
  cp_after_record_sep :: bool
  cp_escaping :: bool
  cp_newlining :: bool

definition csv_new :: "u8 \<Rightarrow> u8 \<Rightarrow> bool \<Rightarrow> csv_parser" where
  "csv_new escape sep has_trailing_comma =
     \<lparr>cp_escape = escape, cp_comma = sep, cp_has_trailing_comma = has_trailing_comma, cp_current_field = [],
      cp_col_idx = 0, cp_row_idx = 0, cp_num_cols = 0, cp_after_first_row = False, cp_quoted = False,
      cp_after_field_sep = False, cp_after_record_sep = False, cp_escaping = False, cp_newlining = False\<rparr>"

type_synonym 's on_field = "nat \<Rightarrow> nat \<Rightarrow> u8 list \<Rightarrow> 's \<Rightarrow> 's res"

type_synonym 's csv_outcome = "(csv_error \<times> csv_parser \<times> 's) res"

abbreviation csv_quote :: u8 where "csv_quote \<equiv> 34"
abbreviation csv_newline :: u8 where "csv_newline \<equiv> 10"
abbreviation csv_return :: u8 where "csv_return \<equiv> 13"

definition csv_push :: "u8 \<Rightarrow> csv_parser \<Rightarrow> csv_parser" where
  "csv_push c p = p\<lparr>cp_current_field := cp_current_field p @ [c]\<rparr>"

section \<open>Operations\<close>

text \<open>The end of a record, which \<open>execute\<close> has twice.\<close>

definition csv_end_record :: "'s on_field \<Rightarrow> csv_parser \<Rightarrow> 's \<Rightarrow> 's csv_outcome" where
  "csv_end_record on_field p s =
     (if cp_has_trailing_comma p
      then if \<not> cp_after_field_sep p then Inr (NoTrailingComma, p, s)
           else if \<not> cp_after_first_row p
           then Inr (Csv_Ok, p\<lparr>cp_after_first_row := True, cp_num_cols := cp_col_idx p,
                                cp_col_idx := 0, cp_row_idx := cp_row_idx p + 1\<rparr>, s)
           else if cp_col_idx p \<noteq> cp_num_cols p then Inr (InconsistentColumns, p, s)
           else Inr (Csv_Ok, p\<lparr>cp_col_idx := 0, cp_row_idx := cp_row_idx p + 1\<rparr>, s)
      else if cp_after_first_row p \<and> cp_col_idx p + 1 \<noteq> cp_num_cols p then Inr (InconsistentColumns, p, s)
      else rbind (on_field (cp_col_idx p) (cp_row_idx p) (cp_current_field p) s) (\<lambda>s.
             Inr (Csv_Ok, p\<lparr>cp_after_first_row := True, cp_num_cols := cp_col_idx p + 1, cp_current_field := [],
                             cp_col_idx := 0, cp_row_idx := cp_row_idx p + 1\<rparr>, s)))"

text \<open>
  One round of the loop: \<open>Go skip\<close> goes on, past the next character too if \<open>skip\<close>, after the two
  assignments at the end of the body; \<open>Stop\<close> is a return.
\<close>

datatype csv_move = Go bool | Stop csv_error

definition csv_go :: "bool \<Rightarrow> bool \<Rightarrow> bool \<Rightarrow> csv_parser \<Rightarrow> 's \<Rightarrow> (csv_move \<times> csv_parser \<times> 's) res" where
  "csv_go skip field_sep record_sep p s =
     Inr (Go skip, p\<lparr>cp_after_field_sep := field_sep, cp_after_record_sep := record_sep\<rparr>, s)"

definition csv_step :: "'s on_field \<Rightarrow> u8 \<Rightarrow> u8 option \<Rightarrow> csv_parser \<Rightarrow> 's \<Rightarrow> (csv_move \<times> csv_parser \<times> 's) res" where
  "csv_step on_field c ahead p s =
     (if c \<noteq> cp_comma p \<and> c \<noteq> csv_newline \<and> c \<noteq> csv_return \<and> c \<noteq> csv_quote \<and> c \<noteq> cp_escape p
      then csv_go False False False (csv_push c p) s
      else if c = cp_comma p
      then if \<not> cp_quoted p
           then rbind (on_field (cp_col_idx p) (cp_row_idx p) (cp_current_field p) s) (\<lambda>s.
                  csv_go False True False (p\<lparr>cp_current_field := [], cp_col_idx := cp_col_idx p + 1\<rparr>) s)
           else csv_go False False False (csv_push c p) s
      else if c = csv_newline \<or> c = csv_return
      then if \<not> cp_quoted p
           then if c = csv_return \<and> ahead = None then Inr (Stop Csv_Ok, p\<lparr>cp_newlining := True\<rparr>, s)
                else rbind (csv_end_record on_field p s) (\<lambda>(e, p, s).
                       if e \<noteq> Csv_Ok then Inr (Stop e, p, s)
                       else csv_go (c = csv_return \<and> ahead = Some csv_newline) False True p s)
           else csv_go False False False (csv_push c p) s
      else if c = csv_quote
      then if cp_escape p = csv_quote
           then if \<not> cp_quoted p then csv_go False False False (p\<lparr>cp_quoted := True\<rparr>) s
                else (case ahead of
                        None \<Rightarrow> Inr (Stop Csv_Ok, p\<lparr>cp_escaping := True\<rparr>, s)
                      | Some d \<Rightarrow> if d = csv_quote then csv_go True False False (csv_push c p) s
                                  else csv_go False False False (p\<lparr>cp_quoted := False\<rparr>) s)
           else csv_go False False False (p\<lparr>cp_quoted := \<not> cp_quoted p\<rparr>) s
      else if cp_quoted p
      then (case ahead of
              None \<Rightarrow> Inr (Stop Csv_Ok, p\<lparr>cp_escaping := True\<rparr>, s)
            | Some d \<Rightarrow> if d = csv_quote \<or> d = cp_escape p then csv_go True False False (csv_push d p) s
                        else csv_go False False False (csv_push (cp_escape p) p) s)
      else csv_go False False False (csv_push c p) s)"

abbreviation ahead_of :: "'a list \<Rightarrow> 'a option" where
  "ahead_of xs \<equiv> (case xs of [] \<Rightarrow> None | x # _ \<Rightarrow> Some x)"

function csv_loop :: "'s on_field \<Rightarrow> u8 list \<Rightarrow> csv_parser \<Rightarrow> 's \<Rightarrow> 's csv_outcome" where
  "csv_loop on_field [] p s = Inr (Csv_Ok, p, s)"
| "csv_loop on_field (c # rest) p s =
     rbind (csv_step on_field c (ahead_of rest) p s) (\<lambda>(move, p, s).
       case move of Stop e \<Rightarrow> Inr (e, p, s) | Go skip \<Rightarrow> csv_loop on_field (if skip then tl rest else rest) p s)"
  by pat_completeness auto
termination
  by (relation "measure (\<lambda>(on_field, buffer, p, s). length buffer)") auto

text \<open>The first block of \<open>execute\<close>: what is left of an escape; \<open>buffer[0]\<close> of an empty chunk is undefined.\<close>

definition csv_resume_escape :: "u8 list \<Rightarrow> csv_parser \<Rightarrow> (nat \<times> csv_parser) res" where
  "csv_resume_escape buffer p =
     (if cp_escaping p
      then rbind (at buffer 0) (\<lambda>c.
             let (i, p) =
               (if cp_escape p = csv_quote
                then if c = csv_quote then (1, csv_push csv_quote p) else (0, p\<lparr>cp_quoted := False\<rparr>)
                else if c = csv_quote \<or> c = cp_escape p then (1, csv_push c p)
                else (0, csv_push (cp_escape p) p))
             in Inr (i, p\<lparr>cp_escaping := False\<rparr>))
      else Inr (0, p))"

definition csv_execute :: "'s on_field \<Rightarrow> u8 list \<Rightarrow> csv_parser \<Rightarrow> 's \<Rightarrow> 's csv_outcome" where
  "csv_execute on_field buffer p s =
     rbind (csv_resume_escape buffer p) (\<lambda>(i, p).
       if cp_newlining p
       then let i = (if ahead_of buffer = Some csv_newline then i + 1 else i)
            in rbind (csv_end_record on_field p s) (\<lambda>(e, p, s).
                 if e \<noteq> Csv_Ok then Inr (e, p, s)
                 else csv_loop on_field (drop i buffer) (p\<lparr>cp_after_record_sep := True, cp_newlining := False\<rparr>) s)
       else csv_loop on_field (drop i buffer) p s)"

definition csv_finish :: "'s on_field \<Rightarrow> csv_parser \<Rightarrow> 's \<Rightarrow> 's csv_outcome" where
  "csv_finish on_field p s =
     (if cp_quoted p then Inr (QuoteNotClosed, p, s)
      else if cp_newlining p then csv_execute on_field [] p s
      else if \<not> cp_after_record_sep p then csv_execute on_field [csv_newline] p s
      else Inr (Csv_Ok, p, s))"

text \<open>The way the parser is driven: \<open>execute\<close> on each chunk until an error, then \<open>finish\<close>.\<close>

fun csv_feed :: "'s on_field \<Rightarrow> u8 list list \<Rightarrow> csv_parser \<Rightarrow> 's \<Rightarrow> 's csv_outcome" where
  "csv_feed on_field [] p s = csv_finish on_field p s"
| "csv_feed on_field (chunk # chunks) p s =
     rbind (csv_execute on_field chunk p s) (\<lambda>(e, p, s).
       if e \<noteq> Csv_Ok then Inr (e, p, s) else csv_feed on_field chunks p s)"

definition csv_parse :: "'s on_field \<Rightarrow> csv_parser \<Rightarrow> u8 list list \<Rightarrow> 's \<Rightarrow> (csv_error \<times> 's) res" where
  "csv_parse on_field p chunks s = rbind (csv_feed on_field chunks p s) (\<lambda>(e, p, s). Inr (e, s))"

section \<open>Chunks\<close>

text \<open>What later calls can see of an outcome: without a trailing comma, \<open>after_field_sep_\<close> is never read.\<close>

definition csv_view :: "'s csv_outcome \<Rightarrow> (csv_error \<times> csv_parser option \<times> 's) res" where
  "csv_view r = rbind r (\<lambda>(e, p, s). Inr (e, if e = Csv_Ok then Some (p\<lparr>cp_after_field_sep := False\<rparr>) else None, s))"

lemma csv_view_simps [simp]:
  "csv_view (Inl x) = Inl x"
  "csv_view (Inr (e, p, s)) = Inr (e, if e = Csv_Ok then Some (p\<lparr>cp_after_field_sep := False\<rparr>) else None, s)"
  by (simp_all add: csv_view_def)

lemma csv_end_record_sep:
  "\<not> cp_has_trailing_comma p \<Longrightarrow> csv_end_record f (p\<lparr>cp_after_field_sep := a\<rparr>) s =
     rbind (csv_end_record f p s) (\<lambda>(e, q, s). Inr (e, q\<lparr>cp_after_field_sep := a\<rparr>, s))"
  by (auto simp: csv_end_record_def rbind_def split: sum.split)

lemma csv_step_plain:
  assumes "c \<noteq> cp_comma p" "c \<noteq> csv_newline" "c \<noteq> csv_return" "c \<noteq> csv_quote" "c \<noteq> cp_escape p"
  shows "csv_step f c ah p s = csv_go False False False (csv_push c p) s"
  using assms by (simp add: csv_step_def)

lemma csv_step_comma:
  assumes "c = cp_comma p"
  shows "csv_step f c ah p s =
    (if \<not> cp_quoted p
     then rbind (f (cp_col_idx p) (cp_row_idx p) (cp_current_field p) s) (\<lambda>s.
            csv_go False True False (p\<lparr>cp_current_field := [], cp_col_idx := cp_col_idx p + 1\<rparr>) s)
     else csv_go False False False (csv_push c p) s)"
  using assms by (simp add: csv_step_def)

lemma csv_step_line_end:
  assumes "c \<noteq> cp_comma p" "c = csv_newline \<or> c = csv_return"
  shows "csv_step f c ah p s =
    (if cp_quoted p then csv_go False False False (csv_push c p) s
     else if c = csv_return \<and> ah = None then Inr (Stop Csv_Ok, p\<lparr>cp_newlining := True\<rparr>, s)
     else rbind (csv_end_record f p s) (\<lambda>(e, p, s).
       if e \<noteq> Csv_Ok then Inr (Stop e, p, s) else csv_go (c = csv_return \<and> ah = Some csv_newline) False True p s))"
proof -
  have "\<not> (c \<noteq> cp_comma p \<and> c \<noteq> csv_newline \<and> c \<noteq> csv_return \<and> c \<noteq> csv_quote \<and> c \<noteq> cp_escape p)"
    using assms(2) by blast
  then show ?thesis unfolding csv_step_def using assms by (simp only: if_False if_True not_not refl simp_thms split: if_split) simp
qed

lemma csv_step_quote:
  assumes "c \<noteq> cp_comma p" "c = csv_quote"
  shows "csv_step f c ah p s =
    (if cp_escape p = csv_quote
     then if \<not> cp_quoted p then csv_go False False False (p\<lparr>cp_quoted := True\<rparr>) s
          else (case ah of
                  None \<Rightarrow> Inr (Stop Csv_Ok, p\<lparr>cp_escaping := True\<rparr>, s)
                | Some d \<Rightarrow> if d = csv_quote then csv_go True False False (csv_push csv_quote p) s
                            else csv_go False False False (p\<lparr>cp_quoted := False\<rparr>) s)
     else csv_go False False False (p\<lparr>cp_quoted := \<not> cp_quoted p\<rparr>) s)"
  using assms by (cases ah) (simp_all add: csv_step_def)

lemma csv_step_escape:
  assumes "c \<noteq> cp_comma p" "c \<noteq> csv_newline" "c \<noteq> csv_return" "c \<noteq> csv_quote" "c = cp_escape p"
  shows "csv_step f c ah p s =
    (if cp_quoted p
     then (case ah of
             None \<Rightarrow> Inr (Stop Csv_Ok, p\<lparr>cp_escaping := True\<rparr>, s)
           | Some d \<Rightarrow> if d = csv_quote \<or> d = cp_escape p then csv_go True False False (csv_push d p) s
                       else csv_go False False False (csv_push (cp_escape p) p) s)
     else csv_go False False False (csv_push c p) s)"
  using assms by (cases ah) (simp_all add: csv_step_def)

text \<open>The five kinds of characters.\<close>

lemma csv_kinds:
  obtains (plain) "c \<noteq> cp_comma p" "c \<noteq> csv_newline" "c \<noteq> csv_return" "c \<noteq> csv_quote" "c \<noteq> cp_escape p"
  | (comma) "c = cp_comma p"
  | (line_end) "c \<noteq> cp_comma p" "c = csv_newline \<or> c = csv_return"
  | (quote) "c \<noteq> cp_comma p" "c = csv_quote"
  | (escape) "c \<noteq> cp_comma p" "c \<noteq> csv_newline" "c \<noteq> csv_return" "c \<noteq> csv_quote" "c = cp_escape p"
  by blast

lemma csv_step_sep:
  assumes "\<not> cp_has_trailing_comma p"
  shows "csv_step f c ah (p\<lparr>cp_after_field_sep := a\<rparr>) s =
     rbind (csv_step f c ah p s) (\<lambda>(m, q, s). Inr (m, case m of Go skip \<Rightarrow> q | Stop e \<Rightarrow> q\<lparr>cp_after_field_sep := a\<rparr>, s))"
proof (cases c p rule: csv_kinds)
  case plain
  then show ?thesis by (simp add: csv_step_plain csv_go_def csv_push_def)
next
  case comma
  then show ?thesis
    by (cases "f (cp_col_idx p) (cp_row_idx p) (cp_current_field p) s") (simp_all add: csv_step_comma csv_go_def csv_push_def)
next
  case line_end
  then have "c \<noteq> cp_comma (p\<lparr>cp_after_field_sep := a\<rparr>)" by simp
  note steps = csv_step_line_end[OF this line_end(2)] csv_step_line_end[OF line_end]
  show ?thesis
    by (cases "csv_end_record f p s") (auto simp: steps csv_end_record_sep[OF assms] csv_go_def csv_push_def)
next
  case quote
  then show ?thesis by (cases ah) (simp_all add: csv_step_quote csv_go_def csv_push_def)
next
  case escape
  then show ?thesis by (cases ah) (simp_all add: csv_step_escape csv_go_def csv_push_def)
qed

lemma csv_loop_sep:
  assumes "\<not> cp_has_trailing_comma p"
  shows "csv_view (csv_loop f bs (p\<lparr>cp_after_field_sep := a\<rparr>) s) = csv_view (csv_loop f bs p s)"
proof (cases bs)
  case (Cons c rest)
  show ?thesis
  proof (cases "csv_step f c (ahead_of rest) p s")
    case (Inr r)
    obtain m q s' where r: "r = (m, q, s')" by (cases r)
    show ?thesis using Cons Inr r csv_step_sep[OF assms, of f c "ahead_of rest" a s] by (cases m) simp_all
  qed (use Cons csv_step_sep[OF assms, of f c "ahead_of rest" a s] in simp)
qed simp

text \<open>Between characters nothing is pending.\<close>

definition csv_ready :: "csv_parser \<Rightarrow> bool" where
  "csv_ready p \<longleftrightarrow> \<not> cp_has_trailing_comma p \<and> \<not> cp_escaping p \<and> \<not> cp_newlining p \<and>
     (cp_quoted p \<longrightarrow> \<not> cp_after_record_sep p)"

lemma csv_ready_new: "csv_ready (csv_new escape sep False)"
  by (simp add: csv_ready_def csv_new_def)

lemma csv_end_record_keeps:
  assumes "csv_end_record f p s = Inr (e, q, s')"
  shows "cp_has_trailing_comma q = cp_has_trailing_comma p \<and> cp_escaping q = cp_escaping p \<and>
    cp_newlining q = cp_newlining p \<and> cp_quoted q = cp_quoted p \<and> cp_escape q = cp_escape p \<and> cp_comma q = cp_comma p"
  using assms by (auto simp: csv_end_record_def rbind_eq_Inr split: if_splits)

lemma csv_step_ready:
  assumes "csv_step f c ah p s = Inr (Go skip, q, s')" "csv_ready p"
  shows "csv_ready q"
proof (cases c p rule: csv_kinds)
  case comma
  then show ?thesis
    using assms by (auto simp: csv_step_comma csv_go_def csv_push_def csv_ready_def rbind_eq_Inr split: if_splits)
next
  case line_end
  then show ?thesis
    using assms by (auto simp: csv_step_line_end csv_go_def csv_push_def csv_ready_def rbind_eq_Inr
        dest!: csv_end_record_keeps split: if_splits)
qed (use assms in \<open>auto simp: csv_step_plain csv_step_quote csv_step_escape csv_go_def csv_push_def csv_ready_def
    split: if_splits option.splits\<close>)

lemma csv_execute_ready: "csv_ready p \<Longrightarrow> csv_execute f bs p s = csv_loop f bs p s"
  by (simp add: csv_execute_def csv_resume_escape_def csv_ready_def)

lemma csv_end_record_newlining:
  "csv_end_record f (p\<lparr>cp_newlining := a\<rparr>) s =
     rbind (csv_end_record f p s) (\<lambda>(e, q, s). Inr (e, q\<lparr>cp_newlining := a\<rparr>, s))"
  by (auto simp: csv_end_record_def rbind_def split: sum.split)

text \<open>What a step does with the last character of a chunk, and how the next chunk completes it.\<close>

definition csv_continue :: "'s on_field \<Rightarrow> u8 list \<Rightarrow> (csv_move \<times> csv_parser \<times> 's) res \<Rightarrow> 's csv_outcome" where
  "csv_continue f ys r = rbind r (\<lambda>(m, q, s). case m of
     Stop e \<Rightarrow> if e \<noteq> Csv_Ok then Inr (e, q, s) else csv_execute f ys q s
   | Go skip \<Rightarrow> csv_execute f ys q s)"

lemma csv_continue_same:
  assumes "csv_step f c (Some y) p s = csv_step f c None p s" "csv_ready p"
    and "\<And>skip q s'. csv_step f c None p s = Inr (Go skip, q, s') \<Longrightarrow> \<not> skip"
    and "\<And>e q s'. csv_step f c None p s = Inr (Stop e, q, s') \<Longrightarrow> e \<noteq> Csv_Ok"
  shows "csv_loop f (c # y # zs) p s = csv_continue f (y # zs) (csv_step f c None p s)"
proof (cases "csv_step f c None p s")
  case (Inr r)
  obtain m q s' where r: "r = (m, q, s')" by (cases r)
  show ?thesis
  proof (cases m)
    case (Go skip)
    then have "csv_ready q" using csv_step_ready[of f c None p s skip q s'] assms(2) Inr r by simp
    then show ?thesis using assms(1,3) Inr r Go by (simp add: csv_continue_def csv_execute_ready)
  next
    case (Stop e)
    then show ?thesis using assms(1,4) Inr r by (simp add: csv_continue_def)
  qed
qed (use assms(1) in \<open>simp add: csv_continue_def\<close>)

lemma csv_return_chunk:
  assumes "csv_ready p" "csv_return \<noteq> cp_comma p" "\<not> cp_quoted p"
  shows "csv_view (csv_loop f (csv_return # y # zs) p s) = csv_view (csv_continue f (y # zs) (csv_step f csv_return None p s))"
proof -
  have step: "csv_step f csv_return None p s = Inr (Stop Csv_Ok, p\<lparr>cp_newlining := True\<rparr>, s)"
    using assms csv_step_line_end[of csv_return p f None s] by simp
  have step': "csv_step f csv_return (Some y) p s = rbind (csv_end_record f p s) (\<lambda>(e, p, s).
       if e \<noteq> Csv_Ok then Inr (Stop e, p, s) else csv_go (y = csv_newline) False True p s)"
    using assms csv_step_line_end[of csv_return p f "Some y" s] by (simp cong: if_cong)
  show ?thesis
  proof (cases "csv_end_record f p s")
    case (Inl e)
    then show ?thesis
      using step step' assms
      by (simp add: csv_continue_def csv_execute_def csv_resume_escape_def csv_ready_def csv_end_record_newlining)
  next
    case (Inr r)
    obtain e q s' where r: "r = (e, q, s')" by (cases r)
    note keeps = csv_end_record_keeps[OF Inr[unfolded r]]
    have q: "\<not> cp_has_trailing_comma q" "\<not> cp_newlining q" using keeps assms(1) by (simp_all add: csv_ready_def)
    let ?q = "q\<lparr>cp_after_record_sep := True\<rparr>"
    have same: "q\<lparr>cp_newlining := True, cp_after_record_sep := True, cp_newlining := False\<rparr> = ?q"
      "q\<lparr>cp_after_field_sep := False, cp_after_record_sep := True\<rparr> = ?q\<lparr>cp_after_field_sep := False\<rparr>"
      using q(2) by (cases q; simp)+
    have "csv_continue f (y # zs) (csv_step f csv_return None p s) =
        (if e \<noteq> Csv_Ok then Inr (e, q\<lparr>cp_newlining := True\<rparr>, s') else csv_loop f (if y = csv_newline then zs else y # zs) ?q s')"
      using step assms Inr r same(1)
      by (simp add: csv_continue_def csv_execute_def csv_resume_escape_def csv_ready_def csv_end_record_newlining)
    moreover have "csv_loop f (csv_return # y # zs) p s =
        (if e \<noteq> Csv_Ok then Inr (e, q, s') else csv_loop f (if y = csv_newline then zs else y # zs) (?q\<lparr>cp_after_field_sep := False\<rparr>) s')"
      using step' Inr r by (simp add: csv_go_def same(2))
    ultimately show ?thesis
      using csv_loop_sep[of ?q f "if y = csv_newline then zs else y # zs" False s'] q(1) by simp
  qed
qed

text \<open>An escape at the end of a chunk.\<close>

lemma csv_escape_chunk:
  assumes p: "csv_ready p" "cp_quoted p" "c \<noteq> cp_comma p" "c \<noteq> csv_newline" "c \<noteq> csv_return" "c = cp_escape p"
  shows "csv_view (csv_loop f (c # y # zs) p s) = csv_view (csv_continue f (y # zs) (csv_step f c None p s))"
proof -
  have step: "csv_step f c None p s = Inr (Stop Csv_Ok, p\<lparr>cp_escaping := True\<rparr>, s)"
    using p by (cases "c = csv_quote") (simp_all add: csv_step_quote csv_step_escape)
  let ?d = "if c = csv_quote then y = csv_quote else y = csv_quote \<or> y = c"
  let ?q = "if ?d then csv_push y p else if c = csv_quote then p\<lparr>cp_quoted := False\<rparr> else csv_push c p"
  have step': "csv_step f c (Some y) p s = csv_go ?d False False ?q s"
    using p by (cases "c = csv_quote") (auto simp: csv_step_quote csv_step_escape)
  have r: "csv_resume_escape (y # zs) (p\<lparr>cp_escaping := True\<rparr>) = Inr (if ?d then 1 else 0, ?q)"
    using p by (cases p) (auto simp: csv_resume_escape_def csv_ready_def csv_push_def at_def)
  have nl: "\<not> cp_newlining ?q" "\<not> cp_has_trailing_comma ?q" "\<not> cp_after_record_sep ?q"
    using p by (auto simp: csv_ready_def csv_push_def)
  have "?q\<lparr>cp_after_field_sep := False, cp_after_record_sep := False\<rparr> = ?q\<lparr>cp_after_field_sep := False\<rparr>"
    using nl(3) by (cases ?q) simp
  then have "csv_loop f (c # y # zs) p s = csv_loop f (if ?d then zs else y # zs) (?q\<lparr>cp_after_field_sep := False\<rparr>) s"
    using step' by (simp add: csv_go_def del: csv_loop.simps(2) add: csv_loop.simps(2)[of f c])
  moreover have "csv_continue f (y # zs) (csv_step f c None p s) = csv_loop f (if ?d then zs else y # zs) ?q s"
    using step r nl(1) by (simp add: csv_continue_def csv_execute_def)
  ultimately show ?thesis using csv_loop_sep[OF nl(2), of f "if ?d then zs else y # zs" False s] by simp
qed

lemma csv_last_char:
  assumes "csv_ready p"
  shows "csv_view (csv_loop f (c # y # zs) p s) = csv_view (csv_continue f (y # zs) (csv_step f c None p s))"
proof (cases c p rule: csv_kinds)
  case plain
  then show ?thesis
    by (intro arg_cong[of _ _ csv_view] csv_continue_same[OF _ assms]) (simp_all add: csv_step_plain csv_go_def)
next
  case comma
  then show ?thesis
    by (intro arg_cong[of _ _ csv_view] csv_continue_same[OF _ assms])
      (auto simp: csv_step_comma csv_go_def rbind_eq_Inr split: if_splits)
next
  case line_end
  then show ?thesis
  proof (cases "\<not> cp_quoted p \<and> c = csv_return")
    case True
    then show ?thesis using csv_return_chunk[OF assms] line_end(1) by simp
  next
    case False
    with line_end show ?thesis
      by (intro arg_cong[of _ _ csv_view] csv_continue_same[OF _ assms])
        (auto simp: csv_step_line_end csv_go_def rbind_eq_Inr cong: if_cong split: if_splits)
  qed
next
  case quote
  then show ?thesis
  proof (cases "cp_quoted p \<and> cp_escape p = csv_quote")
    case True
    then show ?thesis using csv_escape_chunk[OF assms, of c] quote by simp
  next
    case False
    with quote show ?thesis
      by (intro arg_cong[of _ _ csv_view] csv_continue_same[OF _ assms]) (auto simp: csv_step_quote csv_go_def split: if_splits)
  qed
next
  case escape
  then show ?thesis
  proof (cases "cp_quoted p")
    case True
    then show ?thesis using csv_escape_chunk[OF assms, of c] escape by simp
  next
    case False
    with escape show ?thesis
      by (intro arg_cong[of _ _ csv_view] csv_continue_same[OF _ assms]) (auto simp: csv_step_escape csv_go_def)
  qed
qed

lemma csv_step_stop:
  assumes "csv_step f c (Some d) p s = Inr (Stop e, q, s')"
  shows "e \<noteq> Csv_Ok"
  using assms
  by (cases c p rule: csv_kinds)
    (auto simp: csv_step_plain csv_step_comma csv_step_line_end csv_step_quote csv_step_escape csv_go_def rbind_eq_Inr
      split: if_splits)

text \<open>Executing two chunks is executing their concatenation.\<close>

definition csv_then :: "'s csv_outcome \<Rightarrow> (csv_parser \<Rightarrow> 's \<Rightarrow> 's csv_outcome) \<Rightarrow> 's csv_outcome" where
  "csv_then r g = rbind r (\<lambda>(e, p, s). if e \<noteq> Csv_Ok then Inr (e, p, s) else g p s)"

lemma csv_loop_append:
  assumes "csv_ready p"
  shows "csv_view (csv_loop f (xs @ y # zs) p s) = csv_view (csv_then (csv_loop f xs p s) (csv_execute f (y # zs)))"
  using assms
proof (induction f xs p s rule: csv_loop.induct)
  case (1 f p s)
  then show ?case by (simp add: csv_then_def csv_execute_ready)
next
  case (2 f c rest p s)
  show ?case
  proof (cases rest)
    case Nil
    have "csv_then (csv_loop f [c] p s) (csv_execute f (y # zs)) = csv_continue f (y # zs) (csv_step f c None p s)"
      by (cases "csv_step f c None p s") (auto simp: csv_then_def csv_continue_def split: csv_move.split)
    then show ?thesis using csv_last_char[OF 2(2), of f c y zs s] Nil by simp
  next
    case (Cons d rest')
    have ah: "ahead_of (rest @ y # zs) = ahead_of rest" using Cons by simp
    show ?thesis
    proof (cases "csv_step f c (ahead_of rest) p s")
      case (Inl e)
      then show ?thesis using ah by (simp add: csv_then_def)
    next
      case (Inr r)
      obtain m q s' where r: "r = (m, q, s')" by (cases r)
      show ?thesis
      proof (cases m)
        case (Stop e)
        then have "e \<noteq> Csv_Ok" using csv_step_stop[of f c d p s e q s'] Inr r Cons by simp
        then show ?thesis using ah Inr r Stop by (simp add: csv_then_def)
      next
        case (Go skip)
        have "csv_ready q" using csv_step_ready[of f c "ahead_of rest" p s skip q s'] Inr r Go 2(2) by simp
        moreover have "(if skip then tl (rest @ y # zs) else rest @ y # zs) = (if skip then tl rest else rest) @ y # zs"
          using Cons by simp
        ultimately show ?thesis using 2(1)[OF Go, of q s'] ah Inr r Go by (simp add: csv_then_def)
      qed
    qed
  qed
qed

text \<open>What the driver sees of an outcome.\<close>

definition csv_final :: "'s csv_outcome \<Rightarrow> (csv_error \<times> 's) res" where
  "csv_final r = rbind r (\<lambda>(e, p, s). Inr (e, s))"

lemma csv_execute_sep:
  assumes "\<not> cp_has_trailing_comma p"
  shows "csv_view (csv_execute f bs (p\<lparr>cp_after_field_sep := a\<rparr>) s) = csv_view (csv_execute f bs p s)"
proof -
  have resume: "csv_resume_escape bs (p\<lparr>cp_after_field_sep := a\<rparr>) =
      rbind (csv_resume_escape bs p) (\<lambda>(i, q). Inr (i, q\<lparr>cp_after_field_sep := a\<rparr>))"
    by (cases bs) (auto simp: csv_resume_escape_def csv_push_def at_def)
  show ?thesis
  proof (cases "csv_resume_escape bs p")
    case (Inr r)
    obtain i q where r: "r = (i, q)" by (cases r)
    have q: "\<not> cp_has_trailing_comma q"
      using Inr r assms by (auto simp: csv_resume_escape_def csv_push_def rbind_eq_Inr Let_def split: if_splits)
    show ?thesis
    proof (cases "csv_end_record f q s")
      case (Inl e)
      then show ?thesis
        using resume Inr r by (simp add: csv_execute_def csv_end_record_sep[OF q] csv_loop_sep[OF q])
    next
      case r': (Inr r')
      obtain e q' s' where q': "r' = (e, q', s')" by (cases r')
      let ?q = "q'\<lparr>cp_after_record_sep := True, cp_newlining := False\<rparr>"
      have t: "\<not> cp_has_trailing_comma ?q" using csv_end_record_keeps[OF r'[unfolded q']] q by simp
      have upd: "q'\<lparr>cp_after_field_sep := a, cp_after_record_sep := True, cp_newlining := False\<rparr> = ?q\<lparr>cp_after_field_sep := a\<rparr>"
        by simp
      have "csv_view (csv_loop f cs (q'\<lparr>cp_after_field_sep := a, cp_after_record_sep := True, cp_newlining := False\<rparr>) s') =
          csv_view (csv_loop f cs ?q s')" for cs
        unfolding upd by (rule csv_loop_sep[OF t])
      then show ?thesis
        using resume Inr r r' q' by (simp add: csv_execute_def csv_end_record_sep[OF q] csv_loop_sep[OF q])
    qed
  qed (use resume in \<open>simp add: csv_execute_def\<close>)
qed

lemma csv_step_trailing:
  "csv_step f c ah p s = Inr (m, q, s') \<Longrightarrow> cp_has_trailing_comma q = cp_has_trailing_comma p"
  by (cases c p rule: csv_kinds)
    (auto simp: csv_step_plain csv_step_comma csv_step_line_end csv_step_quote csv_step_escape csv_go_def csv_push_def rbind_eq_Inr
      dest!: csv_end_record_keeps split: if_splits option.splits)

lemma csv_loop_trailing:
  "csv_loop f bs p s = Inr (e, q, s') \<Longrightarrow> cp_has_trailing_comma q = cp_has_trailing_comma p"
proof (induction f bs p s rule: csv_loop.induct)
  case (2 f c rest p s)
  obtain m q1 s1 where step: "csv_step f c (ahead_of rest) p s = Inr (m, q1, s1)"
    using 2(2) by (auto simp: rbind_eq_Inr)
  show ?case using 2(1)[where x = m and xa = q1 and xb = s1] 2(2) step csv_step_trailing[OF step] by (cases m) auto
qed simp

lemma csv_execute_trailing:
  assumes "csv_execute f bs p s = Inr (e, q, s')"
  shows "cp_has_trailing_comma q = cp_has_trailing_comma p"
proof -
  obtain i p1 where r: "csv_resume_escape bs p = Inr (i, p1)"
    using assms by (auto simp: csv_execute_def rbind_eq_Inr)
  have p1: "cp_has_trailing_comma p1 = cp_has_trailing_comma p"
    using r by (auto simp: csv_resume_escape_def csv_push_def rbind_eq_Inr Let_def split: if_splits)
  show ?thesis
    using assms r p1
    by (auto simp: csv_execute_def rbind_eq_Inr dest!: csv_end_record_keeps csv_loop_trailing split: if_splits)
qed

lemma csv_final_view: "csv_view r = csv_view r' \<Longrightarrow> csv_final r = csv_final r'"
  by (cases r; cases r') (auto simp: csv_final_def split: if_splits)

text \<open>A driver step that cannot see \<open>after_field_sep_\<close> sees no difference.\<close>

lemma csv_then_cong:
  assumes view: "csv_view r = csv_view r'"
    and keeps: "\<And>p s. r' = Inr (Csv_Ok, p, s) \<Longrightarrow> \<not> cp_has_trailing_comma p"
    and g: "\<And>p a s. \<not> cp_has_trailing_comma p \<Longrightarrow> csv_final (g (p\<lparr>cp_after_field_sep := a\<rparr>) s) = csv_final (g p s)"
  shows "csv_final (csv_then r g) = csv_final (csv_then r' g)"
proof (cases r')
  case (Inl e)
  then show ?thesis using view by (cases r) (auto simp: csv_then_def)
next
  case (Inr x)
  obtain e' p' s' where x: "r' = Inr (e', p', s')" using Inr by (cases x) auto
  then obtain e p s where r: "r = Inr (e, p, s)" using view by (cases r) auto
  have eq: "e = e'" "s = s'" "e = Csv_Ok \<Longrightarrow> p\<lparr>cp_after_field_sep := False\<rparr> = p'\<lparr>cp_after_field_sep := False\<rparr>"
    using view x r by (auto split: if_splits)
  show ?thesis
  proof (cases "e = Csv_Ok")
    case True
    then have "p = p'\<lparr>cp_after_field_sep := cp_after_field_sep p\<rparr>" using eq(3) by (cases p; cases p') simp
    then show ?thesis
      using g[of p' "cp_after_field_sep p" s'] keeps[of p' s'] x r eq True by (simp add: csv_then_def)
  next
    case False
    then show ?thesis using x r eq by (simp add: csv_then_def csv_final_def)
  qed
qed

lemma csv_finish_sep:
  assumes "\<not> cp_has_trailing_comma p"
  shows "csv_final (csv_finish f (p\<lparr>cp_after_field_sep := a\<rparr>) s) = csv_final (csv_finish f p s)"
proof -
  have "csv_final (csv_execute f bs (p\<lparr>cp_after_field_sep := a\<rparr>) s) = csv_final (csv_execute f bs p s)" for bs
    by (rule csv_final_view[OF csv_execute_sep[OF assms]])
  then show ?thesis by (simp add: csv_finish_def) (simp add: csv_final_def)
qed

lemma csv_feed_then: "csv_feed f (bs # chunks) p s = csv_then (csv_execute f bs p s) (csv_feed f chunks)"
  by (simp add: csv_then_def)

lemma csv_feed_sep:
  "\<not> cp_has_trailing_comma p \<Longrightarrow> csv_final (csv_feed f chunks (p\<lparr>cp_after_field_sep := a\<rparr>) s) = csv_final (csv_feed f chunks p s)"
proof (induction chunks arbitrary: p a s)
  case Nil
  then show ?case using csv_finish_sep by simp
next
  case (Cons bs chunks)
  show ?case
    unfolding csv_feed_then
  proof (rule csv_then_cong[OF csv_execute_sep[OF Cons.prems]])
    show "\<not> cp_has_trailing_comma q" if "csv_execute f bs p s = Inr (Csv_Ok, q, s')" for q s'
      using csv_execute_trailing[OF that] Cons.prems by simp
  qed (rule Cons.IH)
qed

text \<open>Feeding chunks is feeding the file at once.\<close>

lemma csv_feed_concat:
  assumes "csv_ready p" "\<forall>ys \<in> set chunks. ys \<noteq> []"
  shows "csv_final (csv_feed f (xs # chunks) p s) = csv_final (csv_feed f [xs @ concat chunks] p s)"
  using assms(2)
proof (induction chunks arbitrary: xs)
  case (Cons ys chunks)
  obtain y zs where ys: "ys = y # zs" using Cons.prems by (cases ys) auto
  have p: "\<not> cp_has_trailing_comma p" using assms(1) by (simp add: csv_ready_def)
  have "csv_final (csv_feed f (xs # ys # chunks) p s) =
      csv_final (csv_then (csv_then (csv_execute f xs p s) (csv_execute f ys)) (csv_feed f chunks))"
    by (cases "csv_execute f xs p s") (auto simp: csv_then_def csv_feed_then split: prod.split)
  also have "\<dots> = csv_final (csv_then (csv_execute f (xs @ ys) p s) (csv_feed f chunks))"
  proof (rule csv_then_cong)
    show "csv_view (csv_then (csv_execute f xs p s) (csv_execute f ys)) = csv_view (csv_execute f (xs @ ys) p s)"
      using csv_loop_append[OF assms(1), of f xs y zs s] by (simp add: csv_execute_ready[OF assms(1)] ys)
    show "\<not> cp_has_trailing_comma q" if "csv_execute f (xs @ ys) p s = Inr (Csv_Ok, q, s')" for q s'
      using csv_execute_trailing[OF that] p by simp
  qed (rule csv_feed_sep)
  also have "\<dots> = csv_final (csv_feed f ((xs @ ys) # chunks) p s)" by (simp only: csv_feed_then)
  also have "\<dots> = csv_final (csv_feed f [(xs @ ys) @ concat chunks] p s)" using Cons by simp
  finally show ?case by simp
qed simp

lemma csv_parse_concat:
  assumes "csv_ready p" "\<forall>ys \<in> set chunks. ys \<noteq> []"
  shows "csv_parse f p chunks s = csv_parse f p [concat chunks] s"
proof (cases chunks)
  case Nil
  then show ?thesis using assms(1) by (simp add: csv_parse_def csv_execute_ready)
next
  case (Cons xs rest)
  then show ?thesis
    using csv_feed_concat[OF assms(1), of rest f xs s] assms(2) by (simp add: csv_parse_def flip: csv_final_def)
qed

section \<open>Files in which every field is quoted\<close>

definition csv_field :: "u8 \<Rightarrow> u8 list \<Rightarrow> u8 list" where
  "csv_field esc fld =
     csv_quote # concat (map (\<lambda>c. if c = csv_quote \<or> c = esc then [esc, c] else [c]) fld) @ [csv_quote]"

fun csv_record :: "u8 \<Rightarrow> u8 \<Rightarrow> u8 list list \<Rightarrow> u8 list" where
  "csv_record esc sep [] = []"
| "csv_record esc sep [fld] = csv_field esc fld"
| "csv_record esc sep (fld # flds) = csv_field esc fld @ sep # csv_record esc sep flds"

definition csv_file :: "u8 \<Rightarrow> u8 \<Rightarrow> u8 list list list \<Rightarrow> u8 list" where
  "csv_file esc sep rows = concat (map (\<lambda>flds. csv_record esc sep flds @ [csv_newline]) rows)"

text \<open>Separator and escape that can be told apart from the other special characters.\<close>

definition csv_config_ok :: "u8 \<Rightarrow> u8 \<Rightarrow> bool" where
  "csv_config_ok esc sep \<longleftrightarrow> sep \<notin> {csv_quote, csv_newline, csv_return, esc} \<and> esc \<notin> {csv_newline, csv_return}"

text \<open>A parser between two fields.\<close>

definition csv_at :: "u8 \<Rightarrow> u8 \<Rightarrow> u8 list \<Rightarrow> nat \<Rightarrow> nat \<Rightarrow> nat \<Rightarrow> bool \<Rightarrow> bool \<Rightarrow> bool \<Rightarrow> csv_parser" where
  "csv_at esc sep cur col row n first field_sep record_sep =
     \<lparr>cp_escape = esc, cp_comma = sep, cp_has_trailing_comma = False, cp_current_field = cur, cp_col_idx = col,
      cp_row_idx = row, cp_num_cols = n, cp_after_first_row = first, cp_quoted = False,
      cp_after_field_sep = field_sep, cp_after_record_sep = record_sep, cp_escaping = False, cp_newlining = False\<rparr>"

lemma csv_loop_quoted:
  assumes ok: "csv_config_ok esc (cp_comma p)" and "cp_escape p = esc" "cp_quoted p" "\<not> cp_after_field_sep p" "\<not> cp_after_record_sep p"
  shows "csv_loop f (concat (map (\<lambda>c. if c = csv_quote \<or> c = esc then [esc, c] else [c]) fld) @ rest) p s =
    csv_loop f rest (p\<lparr>cp_current_field := cp_current_field p @ fld\<rparr>) s"
  using assms
proof (induction fld arbitrary: p)
  case (Cons c fld)
  have same: "csv_push c p\<lparr>cp_after_field_sep := False, cp_after_record_sep := False\<rparr> = csv_push c p"
    using Cons.prems by (cases p) (simp add: csv_push_def)
  have sep: "c = cp_comma p \<Longrightarrow> c \<noteq> csv_quote \<and> c \<noteq> cp_escape p" "csv_quote \<noteq> cp_comma p" "cp_escape p \<noteq> cp_comma p"
    "cp_escape p \<noteq> csv_newline" "cp_escape p \<noteq> csv_return"
    using Cons.prems(1,2) by (auto simp: csv_config_ok_def)
  have "csv_loop f ((if c = csv_quote \<or> c = esc then [esc, c] else [c]) @ xs) p s = csv_loop f xs (csv_push c p) s" for xs
  proof (cases "c = csv_quote \<or> c = esc")
    case True
    have "csv_step f (cp_escape p) (Some c) p s = csv_go True False False (csv_push c p) s"
      using True Cons.prems(2,3) sep by (cases "cp_escape p = csv_quote") (auto simp: csv_step_quote csv_step_escape)
    then show ?thesis using True Cons.prems(2) by (auto simp: csv_go_def same)
  next
    case False
    have "csv_step f c ah p s = csv_go False False False (csv_push c p) s" for ah
      using False Cons.prems(2,3)
      by (cases c p rule: csv_kinds) (auto simp: csv_step_plain csv_step_comma csv_step_line_end)
    then show ?thesis using False by (simp add: csv_go_def same)
  qed
  from this[of "concat (map (\<lambda>c. if c = csv_quote \<or> c = esc then [esc, c] else [c]) fld) @ rest"]
  show ?case using Cons.IH[of "csv_push c p"] Cons.prems by (simp add: csv_push_def)
qed simp

lemma csv_loop_field:
  assumes ok: "csv_config_ok esc sep" and d: "d \<noteq> csv_quote"
  shows "csv_loop f (csv_field esc fld @ d # rest) (csv_at esc sep [] col row n first a b) s =
    csv_loop f (d # rest) (csv_at esc sep fld col row n first False False) s"
proof -
  let ?p = "csv_at esc sep [] col row n first a b"
  let ?q = "(csv_at esc sep [] col row n first False False)\<lparr>cp_quoted := True\<rparr>"
  let ?r = "(csv_at esc sep fld col row n first False False)\<lparr>cp_quoted := True\<rparr>"
  have sep: "csv_quote \<noteq> sep" using ok by (auto simp: csv_config_ok_def)
  have opens: "csv_step f csv_quote ah ?p s = Inr (Go False, ?q, s)" for ah
    using sep by (simp add: csv_step_quote csv_at_def csv_go_def)
  have closes: "csv_step f csv_quote (Some d) ?r s = Inr (Go False, csv_at esc sep fld col row n first False False, s)"
    using sep d by (simp add: csv_step_quote csv_at_def csv_go_def)
  have "csv_loop f (concat (map (\<lambda>c. if c = csv_quote \<or> c = esc then [esc, c] else [c]) fld) @ csv_quote # d # rest) ?q s =
      csv_loop f (csv_quote # d # rest) ?r s"
    using csv_loop_quoted[of esc ?q f fld "csv_quote # d # rest" s] ok by (simp add: csv_at_def)
  then show ?thesis using opens closes by (simp add: csv_field_def)
qed

lemma csv_loop_record:
  assumes ok: "csv_config_ok esc sep" and "flds \<noteq> []" "first \<longrightarrow> col + length flds = n"
  shows "csv_loop f (csv_record esc sep flds @ csv_newline # rest) (csv_at esc sep [] col row n first a b) s =
    rbind (rfold (\<lambda>(i, fld). f i row fld) (enumerate col flds) s) (\<lambda>s.
      csv_loop f rest (csv_at esc sep [] 0 (row + 1) (col + length flds) True False True) s)"
  using assms(2,3)
proof (induction flds arbitrary: col a b s rule: list_nonempty_induct)
  case (single fld)
  have sep: "csv_newline \<noteq> sep" using ok by (auto simp: csv_config_ok_def)
  let ?p = "csv_at esc sep fld col row n first False False"
  have "csv_step f csv_newline ah ?p s = rbind (f col row fld s) (\<lambda>s. Inr (Go False, csv_at esc sep [] 0 (row + 1) (col + 1) True False True, s))" for ah
    using sep single.prems
    by (cases "f col row fld s") (simp_all add: csv_step_line_end csv_end_record_def csv_at_def csv_go_def)
  then show ?case
    using csv_loop_field[OF ok, of csv_newline f fld rest col row n first a b s]
    by (cases "f col row fld s") (simp_all add: csv_go_def)
next
  case (cons fld flds)
  have sep: "sep \<noteq> csv_quote" using ok by (auto simp: csv_config_ok_def)
  have rec: "csv_record esc sep (fld # flds) = csv_field esc fld @ sep # csv_record esc sep flds"
    using cons.hyps by (cases flds) simp_all
  let ?p = "csv_at esc sep fld col row n first False False"
  have "csv_step f sep ah ?p s = rbind (f col row fld s) (\<lambda>s. Inr (Go False, csv_at esc sep [] (col + 1) row n first True False, s))" for ah
    by (cases "f col row fld s") (simp_all add: csv_step_comma csv_at_def csv_go_def)
  moreover have "first \<longrightarrow> col + 1 + length flds = n" using cons.prems by simp
  ultimately show ?case
    using csv_loop_field[OF ok sep, of f fld "csv_record esc sep flds @ csv_newline # rest" col row n first a b s]
      cons.IH[of "col + 1" True False]
    by (cases "f col row fld s") (simp_all add: rec)
qed

text \<open>All records, with the row and column numbers the parser gives the fields.\<close>

definition csv_fields :: "'s on_field \<Rightarrow> nat \<Rightarrow> u8 list list list \<Rightarrow> 's \<Rightarrow> 's res" where
  "csv_fields f row rows = rfold (\<lambda>(r, flds). rfold (\<lambda>(i, fld). f i r fld) (enumerate 0 flds)) (enumerate row rows)"

lemma csv_loop_file:
  assumes ok: "csv_config_ok esc sep" and "0 < n" "rows \<noteq> []" "\<forall>flds \<in> set rows. length flds = n" "first \<longrightarrow> m = n"
  shows "csv_loop f (csv_file esc sep rows) (csv_at esc sep [] 0 row m first a b) s =
    rbind (csv_fields f row rows s) (\<lambda>s. Inr (Csv_Ok, csv_at esc sep [] 0 (row + length rows) n True False True, s))"
  using assms(3-5)
proof (induction rows arbitrary: row m first a b s rule: list_nonempty_induct)
  case (single flds)
  then have "flds \<noteq> []" "first \<longrightarrow> 0 + length flds = m" "length flds = n" using assms(2) by auto
  then show ?case
    using csv_loop_record[OF ok, of flds first 0 m f "[]" row a b s]
    by (cases "rfold (\<lambda>(i, fld). f i row fld) (enumerate 0 flds) s") (simp_all add: csv_file_def csv_fields_def)
next
  case (cons flds rows)
  then have "flds \<noteq> []" "first \<longrightarrow> 0 + length flds = m" "length flds = n" using assms(2) by auto
  then show ?case
    using csv_loop_record[OF ok, of flds first 0 m f "csv_file esc sep rows" row a b s] cons.IH[of True n "row + 1" False True] cons.prems
    by (cases "rfold (\<lambda>(i, fld). f i row fld) (enumerate 0 flds) s") (simp_all add: csv_file_def csv_fields_def)
qed

lemma csv_parse_file:
  assumes ok: "csv_config_ok esc sep" and rows: "0 < n" "rows \<noteq> []" "\<forall>flds \<in> set rows. length flds = n"
    and chunks: "\<forall>ys \<in> set chunks. ys \<noteq> []" "concat chunks = csv_file esc sep rows"
  shows "csv_parse f (csv_new esc sep False) chunks s = rbind (csv_fields f 0 rows s) (\<lambda>s. Inr (Csv_Ok, s))"
proof -
  have new: "csv_new esc sep False = csv_at esc sep [] 0 0 0 False False False" by (simp add: csv_new_def csv_at_def)
  have "csv_parse f (csv_new esc sep False) [csv_file esc sep rows] s = rbind (csv_fields f 0 rows s) (\<lambda>s. Inr (Csv_Ok, s))"
    using csv_loop_file[OF ok rows, of False 0 f 0 False False s] csv_ready_new[of esc sep]
    by (cases "csv_fields f 0 rows s")
      (simp_all add: csv_parse_def csv_execute_ready csv_finish_def flip: new, simp_all add: new csv_at_def)
  then show ?thesis using csv_parse_concat[OF csv_ready_new chunks(1), of f esc sep s] chunks(2) by simp
qed

section \<open>Properties\<close>

text \<open>Logging the fields.\<close>

lemma rfold_log: "rfold (\<lambda>x log. Inr (log @ g x)) xs log = Inr (log @ concat (map g xs))"
  by (induction xs arbitrary: log) simp_all

definition csv_log :: "(nat \<times> nat \<times> u8 list) list on_field" where
  "csv_log col row fld log = Inr (log @ [(row, col, fld)])"

definition csv_cells :: "u8 list list list \<Rightarrow> (nat \<times> nat \<times> u8 list) list" where
  "csv_cells rows = concat (map (\<lambda>(row, flds). map (\<lambda>(col, fld). (row, col, fld)) (enumerate 0 flds)) (enumerate 0 rows))"

lemma csv_fields_log: "csv_fields csv_log 0 rows [] = Inr (csv_cells rows)"
proof -
  have inner: "rfold (\<lambda>(i, fld). csv_log i r fld) xs log = Inr (log @ map (\<lambda>(col, fld). (r, col, fld)) xs)" for r xs log
    by (induction xs arbitrary: log) (auto simp: csv_log_def)
  show ?thesis
    unfolding csv_fields_def csv_cells_def inner
    using rfold_log[of "\<lambda>(r, flds). map (\<lambda>(col, fld). (r, col, fld)) (enumerate 0 flds)" "enumerate 0 rows" "[]"]
    by (simp add: case_prod_unfold)
qed

text \<open>C39. Without trailing commas, the way \<open>from_csv\<close> configures the parser, it does not matter where the
  buffer ends: whatever \<open>on_field\<close> does, and wherever the file is cut into the chunks the parser is fed
  with (inside a quoted field, between an escape and the escaped character, between \<open>\r\<close> and \<open>\n\<close>), the
  fields, their numbers and the error code are those of the whole file in one buffer. With
  \<open>has_trailing_comma\<close> it does matter: after a \<open>\r\<close> at the end of a chunk \<open>after_field_sep_\<close> is
  still set when the next chunk has finished the record, so an empty line right after it is reported
  as \<open>InconsistentColumns\<close> instead of \<open>NoTrailingComma\<close>.\<close>

theorem csv_chunks_irrelevant:
  "(\<forall>f esc sep s chunks.
      csv_parse f (csv_new esc sep False) (filter (\<lambda>chunk. chunk \<noteq> []) chunks) (s :: 's) =
      csv_parse f (csv_new esc sep False) [concat chunks] s) \<and>
   csv_parse csv_log (csv_new 92 44 True) [[97, 44, 13, 10, 10]] [] = Inr (NoTrailingComma, [(0, 0, [97])]) \<and>
   csv_parse csv_log (csv_new 92 44 True) [[97, 44, 13], [10, 10]] [] = Inr (InconsistentColumns, [(0, 0, [97])])"
proof -
  have "csv_parse f (csv_new esc sep False) (filter (\<lambda>chunk. chunk \<noteq> []) chunks) s =
      csv_parse f (csv_new esc sep False) [concat chunks] s" for f esc sep chunks and s :: 's
  proof -
    have "concat (filter (\<lambda>chunk. chunk \<noteq> []) chunks) = concat chunks" by (induction chunks) simp_all
    then show ?thesis
      using csv_parse_concat[OF csv_ready_new, of "filter (\<lambda>chunk. chunk \<noteq> []) chunks" f esc sep s] by simp
  qed
  moreover have "csv_parse csv_log (csv_new 92 44 True) [[97, 44, 13, 10, 10]] [] = Inr (NoTrailingComma, [(0, 0, [97])])"
    "csv_parse csv_log (csv_new 92 44 True) [[97, 44, 13], [10, 10]] [] = Inr (InconsistentColumns, [(0, 0, [97])])"
    by code_simp+
  ultimately show ?thesis by blast
qed

text \<open>C40. Round trip: a file of rows of \<open>n\<close> quoted fields, with quotes and escapes inside a field
  escaped and any other characters in it (separators, line ends), read in any chunks, gives back
  exactly the fields, each with its row and column, and no error.\<close>

theorem csv_roundtrip:
  assumes "csv_config_ok esc sep" and "0 < n" and "rows \<noteq> []" and "\<forall>flds \<in> set rows. length flds = n"
    and "\<forall>chunk \<in> set chunks. chunk \<noteq> []" and "concat chunks = csv_file esc sep rows"
  shows "csv_parse csv_log (csv_new esc sep False) chunks [] = Inr (Csv_Ok, csv_cells rows)"
  using csv_parse_file[OF assms, of csv_log "[]"] by (simp add: csv_fields_log)

text \<open>The configuration of \<open>from_csv\<close>; a field with a comma and a quote, cut after its escape character.\<close>

theorem csv_roundtrip_witness:
  "csv_parse csv_log (csv_new 92 44 False) [[34, 49, 34, 44, 34, 97, 44, 92], [34, 34, 10]] [] =
   Inr (Csv_Ok, csv_cells [[[49], [97, 44, 34]]])"
  by (rule csv_roundtrip[where n = 2]) (simp_all add: csv_config_ok_def csv_file_def csv_field_def)

end
