(* ===== verification/FilterPool.thy ===== *)
theory FilterPool
  imports Prelude
begin

text \<open>
  \<open>FilterThreadPool\<close> (\<open>include/inner_column.h\<close>): a range of tasks is cut into one shard per thread;
  the shards run concurrently and the call returns when all are done. The tasks of the callers
  write disjoint memory, so a run is the shards in some order, an argument of the model. The
  lemmas show that the shards are a partition of the tasks, and that the order does not matter
  for tasks that commute. An exception inside a worker thread terminates the process in C++; the
  model returns it as the error of the run.
\<close>

section \<open>Operations\<close>

definition pool_size :: "nat \<Rightarrow> nat" where
  "pool_size num_threads = (if num_threads \<noteq> 0 then num_threads else 1)"

definition begin_idx :: "nat \<Rightarrow> nat \<Rightarrow> nat \<Rightarrow> nat" where
  "begin_idx num_threads thread_id tasks =
     (let base = tasks div num_threads; rem = tasks mod num_threads
      in thread_id * base + min thread_id rem)"

text \<open>\<open>order\<close> lists the threads in the order in which their shards take effect.\<close>

definition pool_run ::
    "nat \<Rightarrow> nat list \<Rightarrow> (nat \<Rightarrow> nat \<Rightarrow> 's \<Rightarrow> 's res) \<Rightarrow> nat \<Rightarrow> 's \<Rightarrow> 's res" where
  "pool_run num_threads order f tasks s =
     (if tasks = 0 then Inr s
      else rfold (\<lambda>t s.
        let begin_i = begin_idx num_threads t tasks; end_i = begin_idx num_threads (t + 1) tasks
        in if begin_i < end_i then f begin_i end_i s else Inr s) order s)"

definition filter_tp_threads :: nat where
  "filter_tp_threads = pool_size 12"

text \<open>The orders of the threads of a pool.\<close>

definition pool_order :: "nat \<Rightarrow> nat list \<Rightarrow> bool" where
  "pool_order num_threads order \<longleftrightarrow> mset order = mset [0..<num_threads]"

section \<open>The shards partition the tasks\<close>

lemma begin_idx_0 [simp]: "begin_idx n 0 tasks = 0"
  by (simp add: begin_idx_def)

lemma begin_idx_all: "0 < n \<Longrightarrow> begin_idx n n tasks = tasks"
proof -
  assume "0 < n"
  then have "tasks mod n < n" by simp
  then have "min n (tasks mod n) = tasks mod n" by simp
  then show ?thesis by (simp add: begin_idx_def)
qed

lemma begin_idx_mono: "t \<le> u \<Longrightarrow> begin_idx n t tasks \<le> begin_idx n u tasks"
  unfolding begin_idx_def Let_def by (intro add_mono mult_le_mono1) (auto simp: min_def)

lemma shards_prefix:
  "concat (map (\<lambda>t. [begin_idx n t tasks..<begin_idx n (t + 1) tasks]) [0..<k]) = [0..<begin_idx n k tasks]"
proof (induction k)
  case (Suc k)
  have "begin_idx n k tasks \<le> begin_idx n (Suc k) tasks" by (rule begin_idx_mono) simp
  then have "[0..<begin_idx n (Suc k) tasks] = [0..<begin_idx n k tasks] @ [begin_idx n k tasks..<begin_idx n (Suc k) tasks]"
    by (metis le_add_diff_inverse upt_add_eq_append zero_le)
  with Suc show ?case by simp
qed simp

lemma shards_concat:
  "0 < n \<Longrightarrow> concat (map (\<lambda>t. [begin_idx n t tasks..<begin_idx n (t + 1) tasks]) [0..<n]) = [0..<tasks]"
  by (simp only: shards_prefix begin_idx_all)

section \<open>Runs of commuting tasks\<close>

text \<open>A body that treats the tasks of its range one by one, each without an error.\<close>

lemma rfold_pure:
  assumes "\<And>x s. x \<in> set xs \<Longrightarrow> f x s = Inr (g x s)"
  shows "rfold f xs s = Inr (fold g xs s)"
  using assms by (induction xs arbitrary: s) auto

lemma rfold_pure_invariant:
  assumes "\<And>x s. x \<in> set xs \<Longrightarrow> P s \<Longrightarrow> f x s = Inr (g x s) \<and> P (g x s)" and "P s"
  shows "rfold f xs s = Inr (fold g xs s) \<and> P (fold g xs s)"
  using assms by (induction xs arbitrary: s) auto

lemma rfold_distinct:
  assumes "distinct ts" "Q {} s"
    and "\<And>t T s. t \<in> set ts \<Longrightarrow> t \<notin> T \<Longrightarrow> Q T s \<Longrightarrow> f t s = Inr (h t s) \<and> Q (insert t T) (h t s)"
  shows "rfold f ts s = Inr (fold h ts s)"
proof -
  have "rfold f ts s = Inr (fold h ts s) \<and> Q (set ts) (fold h ts s)"
    using assms(1,3)
  proof (induction ts rule: rev_induct)
    case (snoc t ts)
    then have "rfold f ts s = Inr (fold h ts s)" "Q (set ts) (fold h ts s)" by simp_all
    with snoc.prems(2)[of t "set ts" "fold h ts s"] snoc.prems(1) show ?case by (simp add: rfold_append rfold_one)
  qed (use assms(2) in simp)
  then show ?thesis ..
qed

text \<open>
  A task may rely on not having run before: \<open>P D\<close> holds of the states in which the tasks in \<open>D\<close> are done.
\<close>

lemma pool_run_once:
  assumes order: "pool_order n order" and n: "0 < n"
    and f: "\<And>b e s D. P D s \<Longrightarrow> e \<le> tasks \<Longrightarrow> D \<inter> {b..<e} = {} \<Longrightarrow>
      f b e s = Inr (fold g [b..<e] s) \<and> P (D \<union> {b..<e}) (fold g [b..<e] s)"
    and comm: "\<And>i j. i < tasks \<Longrightarrow> j < tasks \<Longrightarrow> g i \<circ> g j = g j \<circ> g i"
    and s: "P {} s"
  shows "pool_run n order f tasks s = Inr (fold g [0..<tasks] s)"
proof -
  let ?shard = "\<lambda>t. [begin_idx n t tasks..<begin_idx n (t + 1) tasks]"
  let ?body = "\<lambda>t s. let b = begin_idx n t tasks; e = begin_idx n (t + 1) tasks in if b < e then f b e s else Inr s"
  have order_set: "set order = {..<n}"
    using mset_eq_setD[OF order[unfolded pool_order_def]] by (simp add: atLeast0LessThan)
  have order_distinct: "distinct order"
    using mset_eq_imp_distinct_iff[OF order[unfolded pool_order_def]] by simp
  have le: "begin_idx n (t + 1) tasks \<le> tasks" if "t < n" for t
    using that begin_idx_mono[of "t + 1" n n tasks] begin_idx_all[OF n] by simp
  have disjoint: "set (?shard t) \<inter> set (?shard u) = {}" if "t \<noteq> u" for t u
  proof -
    have "t + 1 \<le> u \<or> u + 1 \<le> t" using that by linarith
    then have "begin_idx n (t + 1) tasks \<le> begin_idx n u tasks \<or> begin_idx n (u + 1) tasks \<le> begin_idx n t tasks"
      using begin_idx_mono by blast
    then show ?thesis by (auto simp del: add_Suc_right)
  qed
  have run: "rfold ?body order s = Inr (fold (\<lambda>t. fold g (?shard t)) order s)"
  proof (rule rfold_distinct[where Q = "\<lambda>T. P (\<Union>t \<in> T. set (?shard t))"])
    fix t T s assume t: "t \<in> set order" "t \<notin> T" and P: "P (\<Union>t \<in> T. set (?shard t)) s"
    show "?body t s = Inr (fold g (?shard t) s) \<and> P (\<Union>t \<in> insert t T. set (?shard t)) (fold g (?shard t) s)"
    proof (cases "begin_idx n t tasks < begin_idx n (t + 1) tasks")
      case True
      have "t < n" using t(1) order_set by simp
      moreover have "set (?shard u) \<inter> set (?shard t) = {}" if "u \<in> T" for u
        using that t(2) by (intro disjoint) auto
      then have "(\<Union>t \<in> T. set (?shard t)) \<inter> {begin_idx n t tasks..<begin_idx n (t + 1) tasks} = {}"
        unfolding set_upt by blast
      ultimately have "f (begin_idx n t tasks) (begin_idx n (t + 1) tasks) s = Inr (fold g (?shard t) s) \<and>
          P ((\<Union>t \<in> T. set (?shard t)) \<union> {begin_idx n t tasks..<begin_idx n (t + 1) tasks}) (fold g (?shard t) s)"
        by (intro f[OF P le])
      with True show ?thesis by (simp only: Let_def if_True set_upt UN_insert Un_commute)
    next
      case False
      then have "?shard t = []" by simp
      with False P show ?thesis by (simp only: Let_def if_False fold.simps id_apply list.set UN_insert Un_empty_left)
    qed
  qed (use order_distinct s in simp_all)
  have "fold (\<lambda>t. fold g (?shard t)) order s = fold g (concat (map ?shard order)) s"
    by (induction order arbitrary: s) auto
  moreover have "fold g (concat (map ?shard order)) = fold g [0..<tasks]"
  proof (rule fold_multiset_equiv)
    have "mset (concat (map ?shard order)) = mset (concat (map ?shard [0..<n]))"
      using order by (intro mset_concat_map_perm) (simp add: pool_order_def)
    then show eq: "mset (concat (map ?shard order)) = mset [0..<tasks]" by (simp only: shards_concat[OF n])
    show "g x \<circ> g y = g y \<circ> g x" if "x \<in> set (concat (map ?shard order))" "y \<in> set (concat (map ?shard order))" for x y
      using that comm[of x y] unfolding mset_eq_setD[OF eq] by simp
  qed
  ultimately show ?thesis using run s by (auto simp: pool_run_def)
qed

lemma pool_run_tasks:
  assumes "pool_order n order" "0 < n"
    and f: "\<And>b e s. P s \<Longrightarrow> e \<le> tasks \<Longrightarrow> f b e s = Inr (fold g [b..<e] s) \<and> P (fold g [b..<e] s)"
    and "\<And>i j. i < tasks \<Longrightarrow> j < tasks \<Longrightarrow> g i \<circ> g j = g j \<circ> g i"
    and "P s"
  shows "pool_run n order f tasks s = Inr (fold g [0..<tasks] s)"
proof (rule pool_run_once[OF assms(1,2), where P = "\<lambda>D. P"])
  show "f b e s = Inr (fold g [b..<e] s) \<and> P (fold g [b..<e] s)" if "P s" "e \<le> tasks" for b e s
    using that by (rule f)
qed (use assms(4,5) in auto)

text \<open>The shards of a thread pool partition the tasks: taken in the order of the threads they are
  the tasks in order, so no task is skipped and none runs twice, for every number of tasks, also
  when there are fewer tasks than threads.\<close>

theorem pool_shards_partition:
  "concat (map (\<lambda>t. [begin_idx (pool_size n) t tasks..<begin_idx (pool_size n) (t + 1) tasks]) [0..<pool_size n]) =
   [0..<tasks]"
  by (rule shards_concat) (simp add: pool_size_def)

end
