(* ===== verification/TableRead.thy ===== *)
theory TableRead
  imports StringPages FilterPool
begin

text \<open>
  Reading columnar tables into row tables (\<open>src/build_table.cpp\<close>): \<open>Table::from_columnar\<close> and
  \<open>Table::copy_scan\<close>, which walk the pages of each column and write the cells of a matrix of
  \<open>Data\<close> variants, one column per task of the thread pool. Doubles are their 64 bits.
  \<open>column_data\<close> is what a column stores; the lemmas show that both functions produce it.
\<close>

section \<open>Operations\<close>

datatype data = D_int32 u32 | D_int64 u64 | D_fp64 u64 | D_string bytes | D_null

type_synonym matrix = "data list list"

record table =
  tb_types :: "data_type list"
  tb_data :: matrix

definition put_data :: "nat \<Rightarrow> nat \<Rightarrow> nat \<Rightarrow> data \<Rightarrow> matrix \<Rightarrow> matrix res" where
  "put_data num_rows row_idx column_idx v results =
     (if num_rows \<le> row_idx then Inl (Runtime_error ''row_idx'')
      else Inr (results[row_idx := (results ! row_idx)[column_idx := v]]))"

text \<open>A page of fixed-width values; \<open>rd page k\<close> is the value at position \<open>k\<close>.\<close>

definition read_fixed ::
    "(page \<Rightarrow> nat \<Rightarrow> data) \<Rightarrow> nat \<Rightarrow> nat \<Rightarrow> page \<Rightarrow> nat \<times> matrix \<Rightarrow> (nat \<times> matrix) res" where
  "read_fixed rd num_rows column_idx page = (\<lambda>(row_idx, results).
     rbind (rfold (\<lambda>i (data_idx :: u16, row_idx, results).
        if get_bitmap (page_bitmap page) i
        then rbind (put_data num_rows row_idx column_idx (rd page (unat data_idx)) results)
               (\<lambda>results. Inr (data_idx + 1, row_idx + 1, results))
        else Inr (data_idx, row_idx + 1, results))
       [0..<page_num_rows page] (0, row_idx, results)) (\<lambda>(data_idx, row_idx, results). Inr (row_idx, results)))"

definition data_int32 :: "page \<Rightarrow> nat \<Rightarrow> data" where
  "data_int32 page k = D_int32 (load32 page (4 + 4 * k))"

definition data_int64 :: "page \<Rightarrow> nat \<Rightarrow> data" where
  "data_int64 page k = D_int64 (load64 page (8 + 8 * k))"

definition data_fp64 :: "page \<Rightarrow> nat \<Rightarrow> data" where
  "data_fp64 page k = D_fp64 (load64 page (8 + 8 * k))"

text \<open>A page of short strings: \<open>string_begin\<close> is where the previous string ended.\<close>

definition read_strings :: "nat \<Rightarrow> nat \<Rightarrow> page \<Rightarrow> nat \<times> matrix \<Rightarrow> (nat \<times> matrix) res" where
  "read_strings num_rows column_idx page = (\<lambda>(row_idx, results).
     let chars = 4 + unat (load16 page 2) * 2
     in rbind (rfold (\<lambda>i (data_idx :: u16, string_begin, row_idx, results).
        if get_bitmap (page_bitmap page) i
        then (let offset = page_offset page (unat data_idx)
              in if offset < string_begin then Inl (Runtime_error ''basic_string::_M_create'')
                 else rbind (put_data num_rows row_idx column_idx
                          (D_string (load_bytes page (chars + string_begin) (offset - string_begin))) results)
                        (\<lambda>results. Inr (data_idx + 1, offset, row_idx + 1, results)))
        else Inr (data_idx, string_begin, row_idx + 1, results))
       [0..<page_num_rows page] (0, 0, row_idx, results))
       (\<lambda>(data_idx, string_begin, row_idx, results). Inr (row_idx, results)))"

definition append_long :: "nat \<Rightarrow> page \<Rightarrow> nat \<times> matrix \<Rightarrow> (nat \<times> matrix) res" where
  "append_long column_idx page = (\<lambda>(row_idx, results).
     if row_idx = 0 \<or> length results \<le> row_idx - 1 then Inl Undefined
     else case results ! (row_idx - 1) ! column_idx of
       D_string s \<Rightarrow> Inr (row_idx, results[row_idx - 1 := (results ! (row_idx - 1))[column_idx := D_string (s @ page_chunk page)]])
     | _ \<Rightarrow> Inl (Runtime_error ''long string page 0xfffe must follows a string''))"

definition read_varchar :: "nat \<Rightarrow> nat \<Rightarrow> page \<Rightarrow> nat \<times> matrix \<Rightarrow> (nat \<times> matrix) res" where
  "read_varchar num_rows column_idx page = (\<lambda>(row_idx, results).
     if page_num_rows page = 0xffff
     then rbind (put_data num_rows row_idx column_idx (D_string (page_chunk page)) results)
            (\<lambda>results. Inr (row_idx + 1, results))
     else if page_num_rows page = 0xfffe then append_long column_idx page (row_idx, results)
     else read_strings num_rows column_idx page (row_idx, results))"

definition read_page :: "data_type \<Rightarrow> nat \<Rightarrow> nat \<Rightarrow> page \<Rightarrow> nat \<times> matrix \<Rightarrow> (nat \<times> matrix) res" where
  "read_page ty num_rows column_idx page =
     (case ty of
        INT32 \<Rightarrow> read_fixed data_int32 num_rows column_idx page
      | INT64 \<Rightarrow> read_fixed data_int64 num_rows column_idx page
      | FP64 \<Rightarrow> read_fixed data_fp64 num_rows column_idx page
      | VARCHAR \<Rightarrow> read_varchar num_rows column_idx page)"

definition read_column :: "nat \<Rightarrow> nat \<Rightarrow> column \<Rightarrow> matrix \<Rightarrow> matrix res" where
  "read_column num_rows column_idx column results =
     rbind (rfold (read_page (col_type column) num_rows column_idx) (col_pages column) (0, results))
       (\<lambda>(row_idx, results). Inr results)"

definition null_matrix :: "nat \<Rightarrow> nat \<Rightarrow> matrix" where
  "null_matrix rows cols = replicate rows (replicate cols D_null)"

text \<open>\<open>order\<close> is the order in which the shards of the thread pool take effect.\<close>

definition from_columnar :: "nat list \<Rightarrow> columnar_table \<Rightarrow> table res" where
  "from_columnar order table =
     rbind (pool_run filter_tp_threads order (\<lambda>begin_i end_i.
        rfold (\<lambda>column_idx (types, results).
          rbind (at (tbl_columns table) column_idx) (\<lambda>column.
          rbind (read_column (tbl_num_rows table) column_idx column results) (\<lambda>results.
            Inr (types[column_idx := col_type column], results))))
          [begin_i..<end_i]) (length (tbl_columns table))
        (replicate (length (tbl_columns table)) INT32,
         null_matrix (tbl_num_rows table) (length (tbl_columns table))))
       (\<lambda>(types, results). Inr \<lparr>tb_types = types, tb_data = results\<rparr>)"

definition copy_scan :: "nat list \<Rightarrow> columnar_table \<Rightarrow> (nat \<times> data_type) list \<Rightarrow> matrix res" where
  "copy_scan order table output_attrs =
     pool_run filter_tp_threads order (\<lambda>begin_i end_i.
        rfold (\<lambda>column_idx results.
          rbind (at output_attrs column_idx) (\<lambda>attr.
          rbind (at (tbl_columns table) (fst attr)) (\<lambda>column.
            read_column (tbl_num_rows table) column_idx column results)))
          [begin_i..<end_i]) (length output_attrs)
        (null_matrix (tbl_num_rows table) (length output_attrs))"

section \<open>What a column stores\<close>

definition column_rows :: "column \<Rightarrow> data option list" where
  "column_rows column =
     (case col_type column of
        INT32 \<Rightarrow> concat (map (page_rows data_int32) (col_pages column))
      | INT64 \<Rightarrow> concat (map (page_rows data_int64) (col_pages column))
      | FP64 \<Rightarrow> concat (map (page_rows data_fp64) (col_pages column))
      | VARCHAR \<Rightarrow> map (map_option D_string) (decode_strings (col_pages column)))"

definition data_of :: "data option \<Rightarrow> data" where
  "data_of x = (case x of None \<Rightarrow> D_null | Some d \<Rightarrow> d)"

definition column_data :: "column \<Rightarrow> data list" where
  "column_data column = map data_of (column_rows column)"

text \<open>The column stores \<open>n\<close> rows, strings in groups of pages that stand on their own.\<close>

definition readable :: "nat \<Rightarrow> column \<Rightarrow> bool" where
  "readable n column \<longleftrightarrow>
     length (column_rows column) = n \<and>
     (col_type column = VARCHAR \<longrightarrow> string_groups (col_pages column) (decode_strings (col_pages column)))"

section \<open>Reading a page writes its rows\<close>

fun put_rows :: "nat \<Rightarrow> nat \<Rightarrow> data option list \<Rightarrow> matrix \<Rightarrow> matrix" where
  "put_rows c r [] M = M"
| "put_rows c r (x # xs) M =
     put_rows c (Suc r) xs (case x of None \<Rightarrow> M | Some v \<Rightarrow> M[r := (M ! r)[c := v]])"

lemma put_rows_append: "put_rows c r (xs @ ys) M = put_rows c (r + length xs) ys (put_rows c r xs M)"
  by (induction xs arbitrary: r M) auto

lemma length_put_rows [simp, layout]: "length (put_rows c r xs M) = length M"
  by (induction xs arbitrary: r M) (auto split: option.split)

lemma put_rows_nth:
  "i < length M \<Longrightarrow> put_rows c r xs M ! i =
     (if r \<le> i \<and> i < r + length xs then (case xs ! (i - r) of None \<Rightarrow> M ! i | Some v \<Rightarrow> (M ! i)[c := v]) else M ! i)"
proof (induction xs arbitrary: r M)
  case (Cons x xs)
  show ?case
  proof (cases "i = r")
    case False
    then have "i - r = Suc (i - Suc r)" if "r < i" using that by simp
    with Cons False show ?thesis by (auto split: option.split)
  qed (use Cons in \<open>auto split: option.split\<close>)
qed auto

lemma put_data_ok: "row < n \<Longrightarrow> put_data n row c v M = Inr (M[row := (M ! row)[c := v]])"
  by (simp add: put_data_def)

lemma read_fixed_rows:
  assumes "row_idx + page_num_rows page \<le> n"
  shows "read_fixed rd n c page (row_idx, M) =
    Inr (row_idx + page_num_rows page, put_rows c row_idx (page_rows rd page) M)"
proof -
  let ?rank = "valid_rank (page_valid page)"
  let ?row = "\<lambda>i. if page_valid page i then Some (rd page (?rank i)) else None"
  let ?f = "\<lambda>i (data_idx :: u16, row_idx, results).
        if get_bitmap (page_bitmap page) i
        then rbind (put_data n row_idx c (rd page (unat data_idx)) results)
               (\<lambda>results. Inr (data_idx + 1, row_idx + 1, results))
        else Inr (data_idx, row_idx + 1, results)"
  have "rfold ?f [0..<k] (0, row_idx, M) =
      Inr (of_nat (?rank k), row_idx + k, put_rows c row_idx (map ?row [0..<k]) M)" if "k \<le> page_num_rows page" for k
    using that
  proof (induction k)
    case (Suc k)
    have u: "unat (of_nat (?rank k) :: u16) = ?rank k" using Suc.prems by (intro rank_u16[of k page]) simp
    have row: "row_idx + k < n" using Suc.prems assms by simp
    show ?case
      using Suc by (simp add: rfold_append put_rows_append page_valid_def[symmetric] u put_data_ok[OF row] valid_rank_Suc)
  qed (simp add: valid_rank_def)
  from this[of "page_num_rows page"] show ?thesis by (simp add: read_fixed_def page_rows_def)
qed

lemma read_strings_rows:
  assumes room: "row_idx + page_num_rows page \<le> n" and ok: "page_offsets_ok page"
  shows "read_strings n c page (row_idx, M) =
    Inr (row_idx + page_num_rows page, put_rows c row_idx (map (map_option D_string) (page_rows page_string page)) M)"
proof -
  let ?rank = "valid_rank (page_valid page)"
  let ?start = "\<lambda>r. if r = 0 then 0 else page_offset page (r - 1)"
  let ?row = "\<lambda>i. if page_valid page i then Some (D_string (page_string page (?rank i))) else None"
  let ?f = "\<lambda>i (data_idx :: u16, string_begin, row_idx, results).
        if get_bitmap (page_bitmap page) i
        then (let offset = page_offset page (unat data_idx)
              in if offset < string_begin then Inl (Runtime_error ''basic_string::_M_create'')
                 else rbind (put_data n row_idx c
                          (D_string (load_bytes page (4 + unat (load16 page 2) * 2 + string_begin) (offset - string_begin))) results)
                        (\<lambda>results. Inr (data_idx + 1, offset, row_idx + 1, results)))
        else Inr (data_idx, string_begin, row_idx + 1, results)"
  have "rfold ?f [0..<k] (0, 0, row_idx, M) =
      Inr (of_nat (?rank k), ?start (?rank k), row_idx + k, put_rows c row_idx (map ?row [0..<k]) M)"
    if "k \<le> page_num_rows page" for k
    using that
  proof (induction k)
    case (Suc k)
    have u: "unat (of_nat (?rank k) :: u16) = ?rank k" using Suc.prems by (intro rank_u16[of k page]) simp
    have row: "row_idx + k < n" using Suc.prems room by simp
    have step: "?f k (of_nat (?rank k), ?start (?rank k), row_idx + k, M') =
        Inr (of_nat (?rank (Suc k)), ?start (?rank (Suc k)), row_idx + Suc k, put_rows c (row_idx + k) [?row k] M')" for M'
    proof (cases "page_valid page k")
      case True
      have "?rank (Suc k) \<le> ?rank (page_num_rows page)" using Suc.prems by (intro valid_rank_mono) simp
      then have "?rank k < unat (load16 page 2)"
        using ok True by (simp add: page_offsets_ok_def Let_def valid_rank_Suc)
      then have le: "?start (?rank k) \<le> page_offset page (?rank k)"
        using ok by (cases "?rank k") (auto simp: page_offsets_ok_def Let_def)
      then show ?thesis
        using True row u by (simp add: page_valid_def[symmetric] Let_def put_data_ok valid_rank_Suc page_string_def mult.commute add.commute)
    next
      case False
      then show ?thesis by (simp add: page_valid_def[symmetric] valid_rank_Suc)
    qed
    have "rfold ?f [0..<Suc k] (0, 0, row_idx, M) = rbind (rfold ?f [0..<k] (0, 0, row_idx, M)) (?f k)"
      by (rule rfold_upt_Suc)
    also have "\<dots> = Inr (of_nat (?rank (Suc k)), ?start (?rank (Suc k)), row_idx + Suc k,
        put_rows c row_idx (map ?row [0..<Suc k]) M)"
      using Suc by (simp only: rbind_simps step) (simp add: put_rows_append)
    finally show ?case .
  qed (simp add: valid_rank_def)
  note loop = this[of "page_num_rows page", OF order_refl, unfolded Let_def]
  have rows: "map (map_option D_string) (page_rows page_string page) = map ?row [0..<page_num_rows page]"
    by (simp add: page_rows_def)
  show ?thesis unfolding read_strings_def Let_def prod.case loop rbind_simps rows ..
qed

section \<open>Reading a column\<close>

lemma rfold_fixed_pages:
  assumes "row_idx + length (concat (map (page_rows rd) pages)) \<le> n"
  shows "rfold (read_fixed rd n c) pages (row_idx, M) =
    Inr (row_idx + length (concat (map (page_rows rd) pages)), put_rows c row_idx (concat (map (page_rows rd) pages)) M)"
  using assms
proof (induction pages arbitrary: row_idx M)
  case (Cons p ps)
  then show ?case by (simp add: read_fixed_rows put_rows_append add.assoc)
qed simp

lemma append_long_pages:
  assumes "\<forall>q \<in> set qs. long_next q" "row < length M" "c < length (M ! row)" "M ! row ! c = D_string s"
  shows "rfold (read_varchar n c) qs (Suc row, M) =
    Inr (Suc row, M[row := (M ! row)[c := D_string (s @ concat (map page_chunk qs))]])"
  using assms
proof (induction qs arbitrary: M s)
  case Nil
  then have "(M ! row)[c := D_string s] = M ! row" by (metis list_update_id)
  then show ?case by simp
next
  case (Cons q qs)
  let ?M = "M[row := (M ! row)[c := D_string (s @ page_chunk q)]]"
  have "read_varchar n c q (Suc row, M) = Inr (Suc row, ?M)"
    using Cons.prems by (simp add: read_varchar_def append_long_def)
  moreover have "rfold (read_varchar n c) qs (Suc row, ?M) =
      Inr (Suc row, ?M[row := (?M ! row)[c := D_string ((s @ page_chunk q) @ concat (map page_chunk qs))]])"
    using Cons.prems by (intro Cons.IH) auto
  ultimately show ?case using Cons.prems by simp
qed

lemma rfold_group:
  assumes g: "string_group g rows" and room: "row + length rows \<le> n" "n = length M"
    and c: "\<And>r. r < n \<Longrightarrow> c < length (M ! r)"
  shows "rfold (read_varchar n c) g (row, M) =
    Inr (row + length rows, put_rows c row (map (map_option D_string) rows) M)"
  using g unfolding string_group_def
proof (elim disjE exE conjE)
  fix p assume "g = [p]" "page_num_rows p < 0xfffe" "page_offsets_ok p" "page_rows page_string p = rows"
  moreover from this have "page_num_rows p = length rows" by (metis length_page_rows)
  ultimately show ?thesis
    using read_strings_rows[of row p n c M] room by (simp add: read_varchar_def)
next
  fix p ps assume g: "g = p # ps" "long_first p" "\<forall>q \<in> set ps. long_next q" "rows = [Some (concat (map page_chunk g))]"
  let ?M = "M[row := (M ! row)[c := D_string (page_chunk p)]]"
  have row: "row < length M" using room g(4) by simp
  have "rfold (read_varchar n c) ps (Suc row, ?M) =
      Inr (Suc row, ?M[row := (?M ! row)[c := D_string (page_chunk p @ concat (map page_chunk ps))]])"
    using row c room g(3) by (intro append_long_pages) auto
  then show ?thesis using row room g by (simp add: read_varchar_def put_data_ok)
qed

lemma rfold_groups:
  assumes "\<forall>(g, rows) \<in> set gs. string_group g rows" "row + length (concat (map snd gs)) \<le> n" "n = length M"
    and "\<And>r. r < n \<Longrightarrow> c < length (M ! r)"
  shows "rfold (read_varchar n c) (concat (map fst gs)) (row, M) =
    Inr (row + length (concat (map snd gs)), put_rows c row (map (map_option D_string) (concat (map snd gs))) M)"
  using assms
proof (induction gs arbitrary: row M)
  case (Cons x gs)
  obtain g rows where x: "x = (g, rows)" by (cases x)
  let ?M = "put_rows c row (map (map_option D_string) rows) M"
  have "rfold (read_varchar n c) g (row, M) = Inr (row + length rows, ?M)"
    using Cons.prems x by (intro rfold_group) auto
  moreover have "rfold (read_varchar n c) (concat (map fst gs)) (row + length rows, ?M) =
      Inr (row + length rows + length (concat (map snd gs)),
        put_rows c (row + length rows) (map (map_option D_string) (concat (map snd gs))) ?M)"
    using Cons.prems x by (intro Cons.IH) (auto simp: put_rows_nth split: option.split)
  ultimately show ?case using x by (simp add: rfold_append put_rows_append add.assoc)
qed simp

definition set_column :: "nat \<Rightarrow> data list \<Rightarrow> matrix \<Rightarrow> matrix" where
  "set_column c vals M = map2 (\<lambda>row v. row[c := v]) M vals"

text \<open>Every cell of the matrix is still NULL or already holds its value.\<close>

definition partly_read :: "nat \<Rightarrow> data list list \<Rightarrow> matrix \<Rightarrow> bool" where
  "partly_read n cols M \<longleftrightarrow>
     length M = n \<and> (\<forall>r < n. length (M ! r) = length cols \<and> (\<forall>c < length cols. M ! r ! c \<in> {D_null, cols ! c ! r}))"

lemma partly_read_set_column:
  assumes "partly_read n cols M" "c < length cols" "length (cols ! c) = n"
  shows "partly_read n cols (set_column c (cols ! c) M)"
  using assms by (auto simp: partly_read_def set_column_def nth_list_update)

lemma put_rows_set_column:
  assumes M: "partly_read n cols M" and c: "c < length cols" and rows: "cols ! c = map data_of rows" "length rows = n"
  shows "put_rows c 0 rows M = set_column c (cols ! c) M"
proof (rule nth_equalityI)
  show "length (put_rows c 0 rows M) = length (set_column c (cols ! c) M)"
    using M rows by (simp add: set_column_def partly_read_def)
  fix r assume "r < length (put_rows c 0 rows M)"
  then have r: "r < n" "r < length M" using M by (simp_all add: partly_read_def)
  then have "M ! r ! c \<in> {D_null, cols ! c ! r}" using M c by (simp add: partly_read_def)
  moreover have "cols ! c ! r = data_of (rows ! r)" using rows r(1) by simp
  ultimately have cell: "M ! r ! c \<in> {D_null, data_of (rows ! r)}" by simp
  have "set_column c (cols ! c) M ! r = (M ! r)[c := data_of (rows ! r)]"
    using r rows by (simp add: set_column_def)
  moreover have "(M ! r)[c := D_null] = M ! r" if "rows ! r = None"
    using cell that by (metis data_of_def insertE list_update_id option.simps(4) singletonD)
  ultimately show "put_rows c 0 rows M ! r = set_column c (cols ! c) M ! r"
    using r rows(2) by (auto simp: put_rows_nth data_of_def split: option.split)
qed

lemma read_column_correct:
  assumes M: "partly_read n cols M" and c: "c < length cols" and col: "readable n column" "cols ! c = column_data column"
  shows "read_column n c column M = Inr (set_column c (cols ! c) M)"
proof -
  have len: "length (column_rows column) = n" using col(1) by (simp add: readable_def)
  have put: "put_rows c 0 (column_rows column) M = set_column c (cols ! c) M"
    using M c col(2) len by (intro put_rows_set_column) (auto simp: column_data_def)
  have dims: "n = length M" "\<And>r. r < n \<Longrightarrow> c < length (M ! r)" using M c by (auto simp: partly_read_def)
  have "rfold (read_page (col_type column) n c) (col_pages column) (0, M) = Inr (n, put_rows c 0 (column_rows column) M)"
  proof (cases "col_type column")
    case VARCHAR
    then obtain gs where gs: "col_pages column = concat (map fst gs)" "decode_strings (col_pages column) = concat (map snd gs)"
      "\<forall>(g, rows) \<in> set gs. string_group g rows"
      using col(1) by (auto simp: readable_def string_groups_def)
    have rows: "column_rows column = map (map_option D_string) (concat (map snd gs))"
      using VARCHAR gs(2) by (simp add: column_rows_def)
    have "length (concat (map snd gs)) = n" using len unfolding rows length_map by simp
    then show ?thesis
      using rfold_groups[OF gs(3), of 0 n M c] dims VARCHAR unfolding rows gs(1)
      by (simp add: read_page_def[abs_def])
  next
    case INT32
    then show ?thesis
      using rfold_fixed_pages[of 0 data_int32 "col_pages column" n c M] len by (simp add: column_rows_def read_page_def[abs_def])
  next
    case INT64
    then show ?thesis
      using rfold_fixed_pages[of 0 data_int64 "col_pages column" n c M] len by (simp add: column_rows_def read_page_def[abs_def])
  next
    case FP64
    then show ?thesis
      using rfold_fixed_pages[of 0 data_fp64 "col_pages column" n c M] len by (simp add: column_rows_def read_page_def[abs_def])
  qed
  then show ?thesis by (simp add: read_column_def put)
qed

section \<open>Reading a table\<close>

lemma set_column_commute:
  "i \<noteq> j \<Longrightarrow> length v = length w \<Longrightarrow> set_column i v (set_column j w M) = set_column j w (set_column i v M)"
  by (intro nth_equalityI) (auto simp: set_column_def list_update_swap)

lemma fold_set_columns:
  assumes "\<And>c. c < k \<Longrightarrow> length (cols ! c) = n" "k \<le> m" "length cols = m" "length M = n" "\<And>r. r < n \<Longrightarrow> length (M ! r) = m"
  shows "length (fold (\<lambda>c. set_column c (cols ! c)) [0..<k] M) = n \<and>
    (\<forall>r < n. length (fold (\<lambda>c. set_column c (cols ! c)) [0..<k] M ! r) = m \<and>
      (\<forall>c < m. fold (\<lambda>c. set_column c (cols ! c)) [0..<k] M ! r ! c = (if c < k then cols ! c ! r else M ! r ! c)))"
  using assms
proof (induction k)
  case (Suc k)
  then show ?case by (auto simp: set_column_def nth_list_update less_Suc_eq)
qed simp

definition transpose_rows :: "nat \<Rightarrow> data list list \<Rightarrow> matrix" where
  "transpose_rows n cols = map (\<lambda>r. map (\<lambda>col. col ! r) cols) [0..<n]"

lemma fold_set_columns_null:
  assumes "\<And>c. c < length cols \<Longrightarrow> length (cols ! c) = n"
  shows "fold (\<lambda>c. set_column c (cols ! c)) [0..<length cols] (null_matrix n (length cols)) = transpose_rows n cols"
  using fold_set_columns[of "length cols" cols n "length cols" "null_matrix n (length cols)"] assms
  by (intro nth_equalityI) (auto simp: null_matrix_def transpose_rows_def intro!: nth_equalityI)

lemma partly_read_null: "partly_read n cols (null_matrix n (length cols))"
  by (simp add: partly_read_def null_matrix_def)

lemma filter_tp_threads_pos: "0 < filter_tp_threads"
  by (simp add: filter_tp_threads_def pool_size_def)

lemma copy_scan_correct:
  assumes order: "pool_order filter_tp_threads order"
    and attrs: "\<And>a. a \<in> set attrs \<Longrightarrow> fst a < length (tbl_columns t) \<and> readable (tbl_num_rows t) (tbl_columns t ! fst a)"
  shows "copy_scan order t attrs =
    Inr (transpose_rows (tbl_num_rows t) (map (\<lambda>a. column_data (tbl_columns t ! fst a)) attrs))"
proof -
  let ?n = "tbl_num_rows t" and ?cols = "map (\<lambda>a. column_data (tbl_columns t ! fst a)) attrs"
  let ?g = "\<lambda>c. set_column c (?cols ! c)"
  have len: "length (?cols ! c) = ?n" if "c < length attrs" for c
    using attrs[of "attrs ! c"] that by (simp add: column_data_def readable_def)
  have "copy_scan order t attrs = Inr (fold ?g [0..<length attrs] (null_matrix ?n (length attrs)))"
    unfolding copy_scan_def
  proof (rule pool_run_tasks[OF order filter_tp_threads_pos, where P = "partly_read ?n ?cols"])
    fix b e M assume M: "partly_read ?n ?cols M" and e: "e \<le> length attrs"
    show "rfold (\<lambda>column_idx results. rbind (at attrs column_idx) (\<lambda>attr. rbind (at (tbl_columns t) (fst attr))
          (\<lambda>column. read_column ?n column_idx column results))) [b..<e] M = Inr (fold ?g [b..<e] M) \<and>
        partly_read ?n ?cols (fold ?g [b..<e] M)"
      using M
    proof (rule rfold_pure_invariant[rotated])
      fix c M assume c: "c \<in> set [b..<e]" and M: "partly_read ?n ?cols M"
      then have c': "c < length attrs" using e by simp
      then have "fst (attrs ! c) < length (tbl_columns t)" "readable ?n (tbl_columns t ! fst (attrs ! c))"
        using attrs[of "attrs ! c"] by auto
      then show "rbind (at attrs c) (\<lambda>attr. rbind (at (tbl_columns t) (fst attr)) (\<lambda>column. read_column ?n c column M)) = Inr (?g c M) \<and>
          partly_read ?n ?cols (?g c M)"
        using read_column_correct[OF M, of c "tbl_columns t ! fst (attrs ! c)"] partly_read_set_column[OF M, of c] len c' by simp
    qed
  next
    show "?g i \<circ> ?g j = ?g j \<circ> ?g i" if "i < length attrs" "j < length attrs" for i j
      using that len by (cases "i = j") (auto simp: fun_eq_iff set_column_commute simp del: nth_map)
  next
    show "partly_read ?n ?cols (null_matrix ?n (length attrs))" using partly_read_null[of ?n ?cols] by simp
  qed
  then show ?thesis using fold_set_columns_null[of ?cols ?n] len by simp
qed

lemma from_columnar_correct:
  assumes order: "pool_order filter_tp_threads order"
    and cols: "\<And>c. c \<in> set (tbl_columns t) \<Longrightarrow> readable (tbl_num_rows t) c"
  shows "from_columnar order t = Inr \<lparr>tb_types = map col_type (tbl_columns t),
    tb_data = transpose_rows (tbl_num_rows t) (map column_data (tbl_columns t))\<rparr>"
proof -
  let ?n = "tbl_num_rows t" and ?m = "length (tbl_columns t)" and ?cols = "map column_data (tbl_columns t)"
  let ?g = "\<lambda>c (types, M). (types[c := col_type (tbl_columns t ! c)], set_column c (?cols ! c) M)"
  let ?P = "\<lambda>(types :: data_type list, M). partly_read ?n ?cols M"
  have len: "length (?cols ! c) = ?n" if "c < ?m" for c
    using cols[of "tbl_columns t ! c"] that by (simp add: column_data_def readable_def)
  let ?s0 = "(replicate ?m INT32, null_matrix ?n ?m)"
  have "pool_run filter_tp_threads order (\<lambda>begin_i end_i.
        rfold (\<lambda>column_idx (types, results).
          rbind (at (tbl_columns t) column_idx) (\<lambda>column.
          rbind (read_column ?n column_idx column results) (\<lambda>results.
            Inr (types[column_idx := col_type column], results)))) [begin_i..<end_i]) ?m ?s0 =
      Inr (fold ?g [0..<?m] ?s0)"
  proof (rule pool_run_tasks[OF order filter_tp_threads_pos, where P = ?P])
    fix b e s assume s: "?P s" and e: "e \<le> ?m"
    show "rfold (\<lambda>column_idx (types, results). rbind (at (tbl_columns t) column_idx) (\<lambda>column.
          rbind (read_column ?n column_idx column results) (\<lambda>results. Inr (types[column_idx := col_type column], results))))
        [b..<e] s = Inr (fold ?g [b..<e] s) \<and> ?P (fold ?g [b..<e] s)"
      using s
    proof (rule rfold_pure_invariant[rotated])
      fix c s assume c: "c \<in> set [b..<e]" and s: "?P s"
      obtain types M where sM: "s = (types, M)" "partly_read ?n ?cols M" using s by (cases s) auto
      have c': "c < ?m" using c e by simp
      then have "readable ?n (tbl_columns t ! c)" using cols by simp
      with c' show "(\<lambda>(types, results). rbind (at (tbl_columns t) c) (\<lambda>column.
          rbind (read_column ?n c column results) (\<lambda>results. Inr (types[c := col_type column], results)))) s = Inr (?g c s) \<and> ?P (?g c s)"
        using read_column_correct[OF sM(2), of c "tbl_columns t ! c"] partly_read_set_column[OF sM(2), of c] len[OF c'] sM(1)
        by simp
    qed
  next
    show "?g i \<circ> ?g j = ?g j \<circ> ?g i" if "i < ?m" "j < ?m" for i j
      using that len by (cases "i = j") (auto simp: fun_eq_iff set_column_commute list_update_swap simp del: nth_map)
  next
    show "?P ?s0" using partly_read_null[of ?n ?cols] by simp
  qed
  moreover have "fold ?g cs (types, M) =
      (fold (\<lambda>c types. types[c := col_type (tbl_columns t ! c)]) cs types, fold (\<lambda>c. set_column c (?cols ! c)) cs M)" for cs types M
    by (induction cs arbitrary: types M) auto
  moreover have "fold (\<lambda>c types. types[c := col_type (tbl_columns t ! c)]) [0..<?m] (replicate ?m INT32) = map col_type (tbl_columns t)"
  proof -
    have "fold (\<lambda>c types. types[c := col_type (tbl_columns t ! c)]) [0..<k] (replicate ?m INT32) =
        map col_type (take k (tbl_columns t)) @ replicate (?m - k) INT32" if "k \<le> ?m" for k
      using that
    proof (induction k)
      case (Suc k)
      then have "?m - k = Suc (?m - Suc k)" by simp
      with Suc show ?case by (simp add: list_update_append take_Suc_conv_app_nth)
    qed simp
    from this[of ?m] show ?thesis by simp
  qed
  ultimately show ?thesis using fold_set_columns_null[of ?cols ?n] len by (simp add: from_columnar_def)
qed

end
