(* ===== verification/TableWrite.thy ===== *)
theory TableWrite
  imports TableRead
begin

text \<open>
  Writing row tables into pages (\<open>Table::to_columnar\<close>, \<open>src/build_table.cpp\<close>): for each column the
  values of a page are collected in vectors and copied into a new page when the next one would not
  fit. The three fixed-width types run the same loop with their width and the variant alternative
  they accept, which the locale \<open>fixed_format\<close> abstracts; strings have a loop of their own, with
  long strings spread over pages. The main result is the round trip with \<open>from_columnar\<close>.
\<close>

section \<open>Operations\<close>

definition grow_bitmap :: "nat \<Rightarrow> u8 list \<Rightarrow> u8 list" where
  "grow_bitmap idx bitmap = bitmap @ replicate (idx div 8 + 1 - length bitmap) 0"

definition vec_set_bitmap :: "nat \<Rightarrow> u8 list \<Rightarrow> u8 list" where
  "vec_set_bitmap idx bitmap =
     (let bitmap = grow_bitmap idx bitmap
      in bitmap[idx div 8 := bitmap ! (idx div 8) OR push_bit (idx mod 8) 1])"

definition vec_unset_bitmap :: "nat \<Rightarrow> u8 list \<Rightarrow> u8 list" where
  "vec_unset_bitmap idx bitmap =
     (let bitmap = grow_bitmap idx bitmap
      in bitmap[idx div 8 := bitmap ! (idx div 8) AND NOT (push_bit (idx mod 8) 1)])"

text \<open>Fixed-width values: \<open>hdr\<close> is where the values begin, \<open>sz\<close> their width.\<close>

record fixed_packer =
  fp_column :: column
  fp_num_rows :: u16
  fp_values :: "bytes list"
  fp_bitmap :: "u8 list"

definition fixed_save_page :: "(nat \<Rightarrow> page) \<Rightarrow> nat \<Rightarrow> fixed_packer \<Rightarrow> fixed_packer res" where
  "fixed_save_page fresh hdr s =
     (let page = fresh (length (col_pages (fp_column s)))
      in rbind (store_bytes page 0 (bytes16 (fp_num_rows s))) (\<lambda>page.
         rbind (store_bytes page 2 (bytes16 (of_nat (length (fp_values s))))) (\<lambda>page.
         rbind (store_bytes page hdr (concat (fp_values s))) (\<lambda>page.
         rbind (store_bytes page (PAGE_SIZE - length (fp_bitmap s)) (fp_bitmap s)) (\<lambda>page.
           Inr (s\<lparr>fp_column := (fp_column s)\<lparr>col_pages := col_pages (fp_column s) @ [page]\<rparr>,
                  fp_num_rows := 0, fp_values := [], fp_bitmap := []\<rparr>))))))"

text \<open>\<open>sel\<close> gives the bytes of a value of the column's own type; other types but NULL are skipped.\<close>

definition fixed_pack ::
    "(nat \<Rightarrow> page) \<Rightarrow> nat \<Rightarrow> nat \<Rightarrow> (data \<Rightarrow> bytes option) \<Rightarrow> data \<Rightarrow> fixed_packer \<Rightarrow> fixed_packer res" where
  "fixed_pack fresh hdr sz sel d s =
     (case sel d of
        Some v \<Rightarrow>
          rbind (if PAGE_SIZE < hdr + (length (fp_values s) + 1) * sz + (unat (fp_num_rows s) div 8 + 1)
                 then fixed_save_page fresh hdr s else Inr s) (\<lambda>s.
            Inr (s\<lparr>fp_bitmap := vec_set_bitmap (unat (fp_num_rows s)) (fp_bitmap s),
                   fp_values := fp_values s @ [v], fp_num_rows := fp_num_rows s + 1\<rparr>))
      | None \<Rightarrow>
          if d = D_null
          then rbind (if PAGE_SIZE < hdr + length (fp_values s) * sz + (unat (fp_num_rows s) div 8 + 1)
                      then fixed_save_page fresh hdr s else Inr s) (\<lambda>s.
                 Inr (s\<lparr>fp_bitmap := vec_unset_bitmap (unat (fp_num_rows s)) (fp_bitmap s),
                        fp_num_rows := fp_num_rows s + 1\<rparr>))
          else Inr s)"

definition fixed_column ::
    "(nat \<Rightarrow> page) \<Rightarrow> nat \<Rightarrow> nat \<Rightarrow> (data \<Rightarrow> bytes option) \<Rightarrow> data list \<Rightarrow> column \<Rightarrow> column res" where
  "fixed_column fresh hdr sz sel vals column =
     rbind (rfold (fixed_pack fresh hdr sz sel) vals
              \<lparr>fp_column = column, fp_num_rows = 0, fp_values = [], fp_bitmap = []\<rparr>) (\<lambda>s.
     rbind (if fp_num_rows s \<noteq> 0 then fixed_save_page fresh hdr s else Inr s) (\<lambda>s. Inr (fp_column s)))"

definition sel_int32 :: "data \<Rightarrow> bytes option" where
  "sel_int32 d = (case d of D_int32 v \<Rightarrow> Some (bytes32 v) | _ \<Rightarrow> None)"

definition sel_int64 :: "data \<Rightarrow> bytes option" where
  "sel_int64 d = (case d of D_int64 v \<Rightarrow> Some (bytes64 v) | _ \<Rightarrow> None)"

definition sel_fp64 :: "data \<Rightarrow> bytes option" where
  "sel_fp64 d = (case d of D_fp64 v \<Rightarrow> Some (bytes64 v) | _ \<Rightarrow> None)"

definition pack_int32 :: "(nat \<Rightarrow> page) \<Rightarrow> data list \<Rightarrow> column \<Rightarrow> column res" where
  "pack_int32 fresh = fixed_column fresh 4 4 sel_int32"

definition pack_int64 :: "(nat \<Rightarrow> page) \<Rightarrow> data list \<Rightarrow> column \<Rightarrow> column res" where
  "pack_int64 fresh = fixed_column fresh 8 8 sel_int64"

definition pack_fp64 :: "(nat \<Rightarrow> page) \<Rightarrow> data list \<Rightarrow> column \<Rightarrow> column res" where
  "pack_fp64 fresh = fixed_column fresh 8 8 sel_fp64"

text \<open>Strings.\<close>

record string_packer =
  sp_column :: column
  sp_num_rows :: u16
  sp_chars :: bytes
  sp_offsets :: "u16 list"
  sp_bitmap :: "u8 list"

function pack_long_string :: "(nat \<Rightarrow> page) \<Rightarrow> bytes \<Rightarrow> nat \<Rightarrow> bool \<Rightarrow> column \<Rightarrow> column res" where
  "pack_long_string fresh txt offset first_page column =
     (if offset < length txt
      then let page_data_len = min (length txt - offset) (PAGE_SIZE - 4)
           in rbind (store_bytes (fresh (length (col_pages column))) 0 (bytes16 (if first_page then 0xffff else 0xfffe))) (\<lambda>page.
              rbind (store_bytes page 2 (bytes16 (of_nat page_data_len))) (\<lambda>page.
              rbind (store_bytes page 4 (take page_data_len (drop offset txt))) (\<lambda>page.
                pack_long_string fresh txt (offset + page_data_len) False
                  (column\<lparr>col_pages := col_pages column @ [page]\<rparr>))))
      else Inr column)"
  by pat_completeness auto
termination
  by (relation "measure (\<lambda>(fresh, txt, offset, first_page, column). length txt - offset)") (auto simp: PAGE_SIZE_def)

declare pack_long_string.simps [simp del]

definition string_save_page :: "(nat \<Rightarrow> page) \<Rightarrow> string_packer \<Rightarrow> string_packer res" where
  "string_save_page fresh s =
     (let page = fresh (length (col_pages (sp_column s)))
      in rbind (store_bytes page 0 (bytes16 (sp_num_rows s))) (\<lambda>page.
         rbind (store_bytes page 2 (bytes16 (of_nat (length (sp_offsets s))))) (\<lambda>page.
         rbind (store_bytes page 4 (concat (map bytes16 (sp_offsets s)))) (\<lambda>page.
         rbind (store_bytes page (4 + length (sp_offsets s) * 2) (sp_chars s)) (\<lambda>page.
         rbind (store_bytes page (PAGE_SIZE - length (sp_bitmap s)) (sp_bitmap s)) (\<lambda>page.
           Inr (s\<lparr>sp_column := (sp_column s)\<lparr>col_pages := col_pages (sp_column s) @ [page]\<rparr>,
                  sp_num_rows := 0, sp_chars := [], sp_offsets := [], sp_bitmap := []\<rparr>)))))))"

definition string_pack :: "(nat \<Rightarrow> page) \<Rightarrow> data \<Rightarrow> string_packer \<Rightarrow> string_packer res" where
  "string_pack fresh d s =
     (case d of
        D_string v \<Rightarrow>
          if PAGE_SIZE - 7 < length v
          then rbind (if 0 < unat (sp_num_rows s) then string_save_page fresh s else Inr s) (\<lambda>s.
               rbind (pack_long_string fresh v 0 True (sp_column s)) (\<lambda>column. Inr (s\<lparr>sp_column := column\<rparr>)))
          else rbind (if PAGE_SIZE < 4 + (length (sp_offsets s) + 1) * 2 + (length (sp_chars s) + length v)
                                     + (unat (sp_num_rows s) div 8 + 1)
                      then string_save_page fresh s else Inr s) (\<lambda>s.
                 Inr (s\<lparr>sp_bitmap := vec_set_bitmap (unat (sp_num_rows s)) (sp_bitmap s),
                        sp_chars := sp_chars s @ v,
                        sp_offsets := sp_offsets s @ [of_nat (length (sp_chars s @ v))],
                        sp_num_rows := sp_num_rows s + 1\<rparr>))
      | D_null \<Rightarrow>
          rbind (if PAGE_SIZE < 4 + length (sp_offsets s) * 2 + length (sp_chars s) + (unat (sp_num_rows s) div 8 + 1)
                 then string_save_page fresh s else Inr s) (\<lambda>s.
            Inr (s\<lparr>sp_bitmap := vec_unset_bitmap (unat (sp_num_rows s)) (sp_bitmap s),
                   sp_num_rows := sp_num_rows s + 1\<rparr>))
      | _ \<Rightarrow> Inl (Runtime_error ''not string or null''))"

definition pack_varchar :: "(nat \<Rightarrow> page) \<Rightarrow> data list \<Rightarrow> column \<Rightarrow> column res" where
  "pack_varchar fresh vals column =
     rbind (rfold (string_pack fresh) vals
              \<lparr>sp_column = column, sp_num_rows = 0, sp_chars = [], sp_offsets = [], sp_bitmap = []\<rparr>) (\<lambda>s.
     rbind (if sp_num_rows s \<noteq> 0 then string_save_page fresh s else Inr s) (\<lambda>s. Inr (sp_column s)))"

text \<open>The whole table; \<open>record[col_idx]\<close> outside the record is undefined.\<close>

definition record_cells :: "nat \<Rightarrow> matrix \<Rightarrow> data list res" where
  "record_cells col_idx rows = rfold (\<lambda>record vals. rbind (at record col_idx) (\<lambda>d. Inr (vals @ [d]))) rows []"

definition pack_column :: "(nat \<Rightarrow> page) \<Rightarrow> data_type \<Rightarrow> data list \<Rightarrow> column res" where
  "pack_column fresh ty vals =
     (case ty of
        INT32 \<Rightarrow> pack_int32 fresh vals (new_column ty)
      | INT64 \<Rightarrow> pack_int64 fresh vals (new_column ty)
      | FP64 \<Rightarrow> pack_fp64 fresh vals (new_column ty)
      | VARCHAR \<Rightarrow> pack_varchar fresh vals (new_column ty))"

definition to_columnar :: "(nat \<Rightarrow> nat \<Rightarrow> page) \<Rightarrow> table \<Rightarrow> columnar_table res" where
  "to_columnar fresh t =
     rfold (\<lambda>col_idx ret.
        rbind (record_cells col_idx (tb_data t)) (\<lambda>vals.
        rbind (pack_column (fresh col_idx) (tb_types t ! col_idx) vals) (\<lambda>column.
          Inr (ret\<lparr>tbl_columns := tbl_columns ret @ [column]\<rparr>))))
       [0..<length (tb_types t)] \<lparr>tbl_num_rows = length (tb_data t), tbl_columns = []\<rparr>"

section \<open>Bitmaps\<close>

lemma grow_bitmap_next:
  assumes "length bm = (n + 7) div 8"
  shows "length (grow_bitmap n bm) = (n + 8) div 8" "n div 8 < length (grow_bitmap n bm)"
    "i < n \<Longrightarrow> grow_bitmap n bm ! (i div 8) = bm ! (i div 8)"
proof -
  show "length (grow_bitmap n bm) = (n + 8) div 8" using assms by (auto simp: grow_bitmap_def)
  then show "n div 8 < length (grow_bitmap n bm)" by simp
  assume "i < n"
  then have "i div 8 < length bm" using assms by auto
  then show "grow_bitmap n bm ! (i div 8) = bm ! (i div 8)" by (simp add: grow_bitmap_def nth_append)
qed

lemma vec_bitmap_next:
  assumes len: "length bm = (n + 7) div 8"
  shows "length (vec_set_bitmap n bm) = (Suc n + 7) div 8" "length (vec_unset_bitmap n bm) = (Suc n + 7) div 8"
    and "i < Suc n \<Longrightarrow> get_bitmap (\<lambda>i. vec_set_bitmap n bm ! i) i \<longleftrightarrow> i = n \<or> get_bitmap (\<lambda>i. bm ! i) i"
    and "i < Suc n \<Longrightarrow> get_bitmap (\<lambda>i. vec_unset_bitmap n bm ! i) i \<longleftrightarrow> i \<noteq> n \<and> get_bitmap (\<lambda>i. bm ! i) i"
proof -
  note G = grow_bitmap_next[OF len]
  show "length (vec_set_bitmap n bm) = (Suc n + 7) div 8" "length (vec_unset_bitmap n bm) = (Suc n + 7) div 8"
    using G(1) by (simp_all add: vec_set_bitmap_def vec_unset_bitmap_def Let_def del: push_bit_of_1)
  have eq: "i = n \<longleftrightarrow> i div 8 = n div 8 \<and> i mod 8 = n mod 8" by (metis div_mult_mod_eq)
  show "get_bitmap (\<lambda>i. vec_set_bitmap n bm ! i) i \<longleftrightarrow> i = n \<or> get_bitmap (\<lambda>i. bm ! i) i" if i: "i < Suc n"
  proof (cases "i = n")
    case True
    then show ?thesis
      unfolding get_bitmap_bit using G(2) by (simp add: vec_set_bitmap_def Let_def u8_set_bit del: push_bit_of_1)
  next
    case False
    then show ?thesis
      unfolding get_bitmap_bit using G(2) G(3)[of i] i eq
      by (cases "i div 8 = n div 8") (auto simp: vec_set_bitmap_def Let_def u8_set_bit simp del: push_bit_of_1)
  qed
  show "get_bitmap (\<lambda>i. vec_unset_bitmap n bm ! i) i \<longleftrightarrow> i \<noteq> n \<and> get_bitmap (\<lambda>i. bm ! i) i" if i: "i < Suc n"
  proof (cases "i = n")
    case True
    then show ?thesis
      unfolding get_bitmap_bit using G(2) by (simp add: vec_unset_bitmap_def Let_def u8_unset_bit del: push_bit_of_1)
  next
    case False
    then show ?thesis
      unfolding get_bitmap_bit using G(2) G(3)[of i] i eq
      by (cases "i div 8 = n div 8") (auto simp: vec_unset_bitmap_def Let_def u8_unset_bit simp del: push_bit_of_1)
  qed
qed

section \<open>Columns of fixed-width values\<close>

definition cell_of :: "data \<Rightarrow> data option" where
  "cell_of d = (if d = D_null then None else Some d)"

lemma data_of_cell [simp]: "data_of (cell_of d) = d"
  by (simp add: cell_of_def data_of_def)

lemma string_end_equal:
  fixes strs :: "bytes list"
  assumes "\<And>b. b \<in> set strs \<Longrightarrow> length b = sz" "k \<le> length strs"
  shows "string_end strs k = sz * k"
  using assms(2)
proof (induction k)
  case (Suc k)
  then show ?case using string_end_Suc[of k strs] assms(1) by simp
qed simp

lemma length_concat_equal:
  "(\<And>b. b \<in> set (strs :: bytes list) \<Longrightarrow> length b = sz) \<Longrightarrow> length (concat strs) = sz * length strs"
  using string_end_equal[of strs sz "length strs"] by (simp add: string_end_def)

text \<open>What the three numeric types promise: a width, where their values begin, and that a value
  read back from its bytes is the value.\<close>

locale fixed_format =
  fixes hdr sz :: nat and sel :: "data \<Rightarrow> bytes option" and rd :: "page \<Rightarrow> nat \<Rightarrow> data"
  assumes sel_length: "sel d = Some bs \<Longrightarrow> length bs = sz"
    and sel_null: "sel D_null = None"
    and read_back: "sel d = Some bs \<Longrightarrow> load_bytes p (hdr + sz * k) sz = bs \<Longrightarrow> rd p k = d"
    and room: "4 \<le> hdr" "hdr + sz + 1 \<le> PAGE_SIZE"
begin

definition packed :: "data_type \<Rightarrow> fixed_packer \<Rightarrow> data option list list \<Rightarrow> data option list \<Rightarrow> bool" where
  "packed ty s D rs \<longleftrightarrow>
     col_type (fp_column s) = ty \<and> unat (fp_num_rows s) = length rs \<and>
     map Some (fp_values s) = map sel (present rs) \<and> length (fp_bitmap s) = (length rs + 7) div 8 \<and>
     (\<forall>i < length rs. get_bitmap (\<lambda>i. fp_bitmap s ! i) i \<longleftrightarrow> rs ! i \<noteq> None) \<and>
     hdr + sz * length (present rs) + (length rs + 7) div 8 \<le> PAGE_SIZE \<and>
     map (page_rows rd) (col_pages (fp_column s)) = D"

lemma packedD:
  assumes "packed ty s D rs"
  shows "col_type (fp_column s) = ty" "unat (fp_num_rows s) = length rs"
    "map Some (fp_values s) = map sel (present rs)" "length (fp_bitmap s) = (length rs + 7) div 8"
    "\<And>i. i < length rs \<Longrightarrow> get_bitmap (\<lambda>i. fp_bitmap s ! i) i \<longleftrightarrow> rs ! i \<noteq> None"
    "hdr + sz * length (present rs) + (length rs + 7) div 8 \<le> PAGE_SIZE"
    "map (page_rows rd) (col_pages (fp_column s)) = D"
    "length (fp_values s) = length (present rs)" "length rs < 65535"
  using assms room by (auto simp: packed_def PAGE_SIZE_def dest: map_eq_imp_length_eq)

lemma packed_values:
  assumes "packed ty s D rs"
  shows "\<And>k. k < length (present rs) \<Longrightarrow> sel (present rs ! k) = Some (fp_values s ! k)"
    "\<And>b. b \<in> set (fp_values s) \<Longrightarrow> length b = sz"
proof -
  note P = packedD[OF assms]
  show k: "sel (present rs ! k) = Some (fp_values s ! k)" if "k < length (present rs)" for k
    using arg_cong[OF P(3), of "\<lambda>xs. xs ! k"] that P(8) by simp
  show "length b = sz" if "b \<in> set (fp_values s)" for b
    using that k P(8) by (metis in_set_conv_nth sel_length)
qed

lemma save_packed:
  assumes inv: "packed ty s D rs"
  shows "\<exists>s'. fixed_save_page fresh hdr s = Inr s' \<and> packed ty s' (D @ [rs]) []"
proof -
  note P = packedD[OF inv] and V = packed_values[OF inv]
  let ?page = "fresh (length (col_pages (fp_column s)))" and ?n = "fp_num_rows s" and ?vs = "fp_values s"
  let ?bs = "(unat ?n + 7) div 8"
  have bm_len: "length (fp_bitmap s) = ?bs" using P(2,4) by simp
  have vs_len: "length (concat ?vs) = sz * length (present rs)"
    using length_concat_equal[of ?vs sz] V(2) P(8) by simp
  have fits: "hdr + length (concat ?vs) + ?bs \<le> PAGE_SIZE" using P(2,6) vs_len by simp
  obtain p1 where p1: "store_bytes ?page 0 (bytes16 ?n) = Inr p1" using store_ok[of 0 "bytes16 ?n"] by (auto simp: PAGE_SIZE_def)
  obtain p2 where p2: "store_bytes p1 2 (bytes16 (of_nat (length ?vs))) = Inr p2"
    using store_ok[of 2 "bytes16 (of_nat (length ?vs))"] by (auto simp: PAGE_SIZE_def)
  obtain p3 where p3: "store_bytes p2 hdr (concat ?vs) = Inr p3" using store_ok[of hdr "concat ?vs" p2] fits by auto
  obtain q where q: "store_bytes p3 (PAGE_SIZE - ?bs) (fp_bitmap s) = Inr q"
    using store_ok[of "PAGE_SIZE - ?bs" "fp_bitmap s" p3] fits bm_len by auto
  have take_bm: "take ?bs (fp_bitmap s) = fp_bitmap s" using bm_len by simp
  note saved = saved_string_page[OF p1 p2 p3, of "fp_bitmap s" q, unfolded take_bm, OF q _ fits room(1)]
  have "page_rows rd q = rs"
  proof (rule page_rows_decode)
    show "page_num_rows q = length rs" using saved(1) P(2) bm_len by simp
    show "page_valid q i \<longleftrightarrow> rs ! i \<noteq> None" if "i < length rs" for i using saved(3)[of i] P(2,5) bm_len that by simp
    fix k assume k: "k < length (present rs)"
    have "string_end ?vs k = sz * k" using V(2) k P(8) by (intro string_end_equal) auto
    moreover have "sz * k + sz \<le> length (concat ?vs)"
      using mult_le_mono2[of "Suc k" "length (present rs)" sz] k vs_len by simp
    moreover have "length (?vs ! k) = sz" using V(2) k P(8) by simp
    moreover have "load_bytes q hdr (length (concat ?vs)) = concat ?vs" using saved(5) bm_len by simp
    ultimately have "load_bytes q (hdr + sz * k) sz = ?vs ! k"
      using load_bytes_slice[of q hdr _ "concat ?vs" "sz * k" sz] string_slice[of k ?vs] k P(8) by simp
    then show "rd q k = present rs ! k" using V(1)[OF k] read_back by blast
  qed
  then show ?thesis
    using p1 p2 p3 q P(1,7) bm_len room by (simp add: fixed_save_page_def packed_def Let_def)
qed

lemma packed_room:
  assumes inv: "packed ty s D rs" and extra: "hdr + extra + 1 \<le> PAGE_SIZE"
  shows "\<exists>s' D' rs'. (if PAGE_SIZE < hdr + length (fp_values s) * sz + extra + (unat (fp_num_rows s) div 8 + 1)
            then fixed_save_page fresh hdr s else Inr s) = Inr s' \<and>
     packed ty s' D' rs' \<and> concat D' @ rs' = concat D @ rs \<and>
     hdr + length (present rs') * sz + extra + (length rs' div 8 + 1) \<le> PAGE_SIZE"
proof (cases "PAGE_SIZE < hdr + length (fp_values s) * sz + extra + (unat (fp_num_rows s) div 8 + 1)")
  case True
  obtain s' where "fixed_save_page fresh hdr s = Inr s'" "packed ty s' (D @ [rs]) []"
    using save_packed[OF inv] by blast
  with True extra show ?thesis by (intro exI[of _ s'] exI[of _ "D @ [rs]"] exI[of _ "[]"]) simp
next
  case False
  with inv packedD(2,8)[OF inv] show ?thesis by (intro exI[of _ s] exI[of _ D] exI[of _ rs]) simp
qed

lemma packed_next:
  assumes inv: "packed ty s D rs" and x: "x = None \<or> (\<exists>d. x = Some d \<and> sel d = Some b)"
    and fits: "hdr + sz * length (present (rs @ [x])) + (length rs div 8 + 1) \<le> PAGE_SIZE"
    and s': "s' = s\<lparr>fp_bitmap := (if x = None then vec_unset_bitmap else vec_set_bitmap) (unat (fp_num_rows s)) (fp_bitmap s),
      fp_values := fp_values s @ (if x = None then [] else [b]), fp_num_rows := fp_num_rows s + 1\<rparr>"
  shows "packed ty s' D (rs @ [x])"
  unfolding packed_def
proof (intro conjI)
  note P = packedD[OF inv]
  have n: "unat (fp_num_rows s) = length rs" by (rule P(2))
  note bits = vec_bitmap_next[OF P(4)]
  show "unat (fp_num_rows s') = length (rs @ [x])" using P(2,9) s' by (simp add: u16_next)
  show "map Some (fp_values s') = map sel (present (rs @ [x]))" using P(3) s' x by auto
  show "length (fp_bitmap s') = (length (rs @ [x]) + 7) div 8" using bits(1,2) s' n by simp
  show "\<forall>i < length (rs @ [x]). get_bitmap (\<lambda>i. fp_bitmap s' ! i) i \<longleftrightarrow> (rs @ [x]) ! i \<noteq> None"
    using bits(3,4) P(5) s' n by (auto simp: nth_append less_Suc_eq)
  show "hdr + sz * length (present (rs @ [x])) + (length (rs @ [x]) + 7) div 8 \<le> PAGE_SIZE"
    using fits by simp
qed (use packedD(1,7)[OF inv] s' in simp_all)

text \<open>A value of the column's type or NULL is packed as the next row.\<close>

lemma pack_correct:
  assumes inv: "packed ty s D rs" and d: "d = D_null \<or> sel d \<noteq> None"
  shows "\<exists>s' D' rs'. fixed_pack fresh hdr sz sel d s = Inr s' \<and> packed ty s' D' rs' \<and>
    concat D' @ rs' = concat D @ rs @ [cell_of d]"
proof (cases "sel d")
  case None
  then have null: "d = D_null" using d by simp
  obtain s1 D1 rs1 where s1: "(if PAGE_SIZE < hdr + length (fp_values s) * sz + (unat (fp_num_rows s) div 8 + 1)
      then fixed_save_page fresh hdr s else Inr s) = Inr s1" "packed ty s1 D1 rs1" "concat D1 @ rs1 = concat D @ rs"
    "hdr + length (present rs1) * sz + (length rs1 div 8 + 1) \<le> PAGE_SIZE"
    using packed_room[OF inv, of 0 fresh] room by auto
  let ?s = "s1\<lparr>fp_bitmap := vec_unset_bitmap (unat (fp_num_rows s1)) (fp_bitmap s1), fp_num_rows := fp_num_rows s1 + 1\<rparr>"
  have "packed ty ?s D1 (rs1 @ [None])"
    using s1(4) by (intro packed_next[OF s1(2)]) (auto simp: mult.commute)
  then show ?thesis
    using s1(1,3) None null
    by (intro exI[of _ ?s] exI[of _ D1] exI[of _ "rs1 @ [None]"]) (simp add: fixed_pack_def cell_of_def)
next
  case (Some b)
  then have nn: "d \<noteq> D_null" using sel_null by auto
  have guard: "hdr + (length (fp_values s) + 1) * sz + (unat (fp_num_rows s) div 8 + 1) =
      hdr + length (fp_values s) * sz + sz + (unat (fp_num_rows s) div 8 + 1)" by simp
  obtain s1 D1 rs1 where s1: "(if PAGE_SIZE < hdr + length (fp_values s) * sz + sz + (unat (fp_num_rows s) div 8 + 1)
      then fixed_save_page fresh hdr s else Inr s) = Inr s1" "packed ty s1 D1 rs1" "concat D1 @ rs1 = concat D @ rs"
    "hdr + length (present rs1) * sz + sz + (length rs1 div 8 + 1) \<le> PAGE_SIZE"
    using packed_room[OF inv, of sz fresh] room by auto
  let ?s = "s1\<lparr>fp_bitmap := vec_set_bitmap (unat (fp_num_rows s1)) (fp_bitmap s1), fp_values := fp_values s1 @ [b],
    fp_num_rows := fp_num_rows s1 + 1\<rparr>"
  have "packed ty ?s D1 (rs1 @ [Some d])"
    using s1(4) Some by (intro packed_next[OF s1(2)]) (auto simp: algebra_simps)
  moreover have "fixed_pack fresh hdr sz sel d s = Inr ?s"
    unfolding fixed_pack_def Some option.case guard s1(1) rbind_simps ..
  ultimately show ?thesis
    using s1(3) nn by (intro exI[of _ ?s] exI[of _ D1] exI[of _ "rs1 @ [Some d]"]) (simp add: cell_of_def)
qed

lemma pack_all:
  assumes "packed ty s D rs" "\<And>d. d \<in> set vals \<Longrightarrow> d = D_null \<or> sel d \<noteq> None"
  shows "\<exists>s' D' rs'. rfold (fixed_pack fresh hdr sz sel) vals s = Inr s' \<and> packed ty s' D' rs' \<and>
    concat D' @ rs' = concat D @ rs @ map cell_of vals"
  using assms
proof (induction vals arbitrary: s D rs)
  case (Cons d vals)
  obtain s1 D1 rs1 where s1: "fixed_pack fresh hdr sz sel d s = Inr s1" "packed ty s1 D1 rs1"
    "concat D1 @ rs1 = concat D @ rs @ [cell_of d]"
    using pack_correct[OF Cons.prems(1), of d fresh] Cons.prems(2) by auto
  obtain s2 D2 rs2 where s2: "rfold (fixed_pack fresh hdr sz sel) vals s1 = Inr s2" "packed ty s2 D2 rs2"
    "concat D2 @ rs2 = concat D1 @ rs1 @ map cell_of vals"
    using Cons.IH[OF s1(2)] Cons.prems(2) by auto
  have "concat D2 @ rs2 = (concat D1 @ rs1) @ map cell_of vals" using s2(3) by simp
  then have "concat D2 @ rs2 = concat D @ rs @ map cell_of (d # vals)" unfolding s1(3) by simp
  with s1(1) s2(1,2) show ?case by auto
qed auto

lemma fixed_column_correct:
  assumes c: "col_pages c = []" and vals: "\<And>d. d \<in> set vals \<Longrightarrow> d = D_null \<or> sel d \<noteq> None"
  shows "\<exists>c'. fixed_column fresh hdr sz sel vals c = Inr c' \<and> col_type c' = col_type c \<and>
    concat (map (page_rows rd) (col_pages c')) = map cell_of vals"
proof -
  let ?s0 = "\<lparr>fp_column = c, fp_num_rows = 0, fp_values = [], fp_bitmap = []\<rparr>"
  have "packed (col_type c) ?s0 [] []" using c room by (simp add: packed_def)
  then have "\<exists>s' D' rs'. rfold (fixed_pack fresh hdr sz sel) vals ?s0 = Inr s' \<and> packed (col_type c) s' D' rs' \<and>
      concat D' @ rs' = concat [] @ [] @ map cell_of vals"
    using vals by (intro pack_all) auto
  then obtain s1 D1 rs1 where s1: "rfold (fixed_pack fresh hdr sz sel) vals ?s0 = Inr s1" "packed (col_type c) s1 D1 rs1"
    "concat D1 @ rs1 = map cell_of vals" by auto
  note P = packedD[OF s1(2)]
  show ?thesis
  proof (cases "rs1 = []")
    case True
    then have "fp_num_rows s1 = 0" using P(2) by (simp add: unat_eq_zero)
    then show ?thesis using s1(1,3) P(1,7) True by (simp add: fixed_column_def)
  next
    case False
    then have "fp_num_rows s1 \<noteq> 0" using P(2) by auto
    moreover obtain s2 where "fixed_save_page fresh hdr s1 = Inr s2" "packed (col_type c) s2 (D1 @ [rs1]) []"
      using save_packed[OF s1(2)] by blast
    ultimately show ?thesis using s1(1,3) packedD(1,7) by (fastforce simp: fixed_column_def)
  qed
qed

end

interpretation int32_format: fixed_format 4 4 sel_int32 data_int32
  by unfold_locales
    (auto simp: sel_int32_def data_int32_def load_of_bytes PAGE_SIZE_def split: data.splits)

interpretation int64_format: fixed_format 8 8 sel_int64 data_int64
  by unfold_locales
    (auto simp: sel_int64_def data_int64_def load_of_bytes PAGE_SIZE_def split: data.splits)

interpretation fp64_format: fixed_format 8 8 sel_fp64 data_fp64
  by unfold_locales
    (auto simp: sel_fp64_def data_fp64_def load_of_bytes PAGE_SIZE_def split: data.splits)

section \<open>Columns of strings\<close>

definition sp_inv ::
    "data_type \<Rightarrow> string_packer \<Rightarrow> (page list \<times> bytes option list) list \<Rightarrow> bytes option list \<Rightarrow> bool" where
  "sp_inv ty s D rs \<longleftrightarrow>
     col_type (sp_column s) = ty \<and> unat (sp_num_rows s) = length rs \<and> sp_chars s = concat (present rs) \<and>
     sp_offsets s = map (\<lambda>k. of_nat (string_end (present rs) (Suc k))) [0..<length (present rs)] \<and>
     length (sp_bitmap s) = (length rs + 7) div 8 \<and>
     (\<forall>i < length rs. get_bitmap (\<lambda>i. sp_bitmap s ! i) i \<longleftrightarrow> rs ! i \<noteq> None) \<and>
     4 + 2 * length (present rs) + length (concat (present rs)) + (length rs + 7) div 8 \<le> PAGE_SIZE \<and>
     col_pages (sp_column s) = concat (map fst D) \<and> (\<forall>(g, rows) \<in> set D. string_group g rows)"

lemma sp_invD:
  assumes "sp_inv ty s D rs"
  shows "col_type (sp_column s) = ty" "unat (sp_num_rows s) = length rs" "sp_chars s = concat (present rs)"
    "sp_offsets s = map (\<lambda>k. of_nat (string_end (present rs) (Suc k))) [0..<length (present rs)]"
    "length (sp_bitmap s) = (length rs + 7) div 8"
    "\<And>i. i < length rs \<Longrightarrow> get_bitmap (\<lambda>i. sp_bitmap s ! i) i \<longleftrightarrow> rs ! i \<noteq> None"
    "4 + 2 * length (present rs) + length (concat (present rs)) + (length rs + 7) div 8 \<le> PAGE_SIZE"
    "col_pages (sp_column s) = concat (map fst D)" "\<forall>(g, rows) \<in> set D. string_group g rows"
    "length (sp_offsets s) = length (present rs)" "length rs < 0xfffe"
  using assms by (auto simp: sp_inv_def PAGE_SIZE_def)

lemma length_concat_bytes16 [simp, layout]: "length (concat (map bytes16 xs)) = length xs * 2"
  by (induction xs) auto

lemma store_adjacent:
  assumes "store_bytes p a bs = Inr q" "store_bytes q (a + length bs) cs = Inr r"
  shows "store_bytes p a (bs @ cs) = Inr r"
proof -
  have q: "q = (\<lambda>i. if a \<le> i \<and> i < a + length bs then bs ! (i - a) else p i)"
    using assms(1) by (auto simp: store_bytes_def split: if_splits)
  have r: "r = (\<lambda>i. if a + length bs \<le> i \<and> i < a + length bs + length cs then cs ! (i - (a + length bs)) else q i)"
    and fits: "a + length bs + length cs \<le> PAGE_SIZE"
    using assms(2) by (auto simp: store_bytes_def split: if_splits)
  show ?thesis unfolding store_bytes_def r q using fits by (auto simp: nth_append fun_eq_iff)
qed

lemma string_save_page_correct:
  assumes inv: "sp_inv ty s D rs" and rs: "rs \<noteq> []"
  shows "\<exists>s' g. string_save_page fresh s = Inr s' \<and> sp_inv ty s' (D @ [(g, rs)]) []"
proof -
  note P = sp_invD[OF inv]
  let ?page = "fresh (length (col_pages (sp_column s)))" and ?n = "sp_num_rows s" and ?offs = "sp_offsets s"
  let ?bs = "(unat ?n + 7) div 8" and ?strs = "present rs" and ?o = "concat (map bytes16 (sp_offsets s))"
  have bm_len: "length (sp_bitmap s) = ?bs" using P(2,5) by simp
  have o_len: "length ?o = length ?offs * 2" by (rule length_concat_bytes16)
  let ?body = "?o @ sp_chars s"
  have body: "length ?body = 2 * length ?strs + length (concat ?strs)" using o_len P(3,10) by simp
  have fits: "4 + length ?body + ?bs \<le> PAGE_SIZE" using P(2,7) body by simp
  obtain p1 where p1: "store_bytes ?page 0 (bytes16 ?n) = Inr p1" using store_ok[of 0 "bytes16 ?n"] by (auto simp: PAGE_SIZE_def)
  obtain p2 where p2: "store_bytes p1 2 (bytes16 (of_nat (length ?offs))) = Inr p2"
    using store_ok[of 2 "bytes16 (of_nat (length ?offs))"] by (auto simp: PAGE_SIZE_def)
  obtain p3 where p3: "store_bytes p2 4 ?o = Inr p3" using store_ok[of 4 ?o p2] fits by auto
  obtain p4 where p4: "store_bytes p3 (4 + length ?offs * 2) (sp_chars s) = Inr p4"
    using store_ok[of "4 + length ?offs * 2" "sp_chars s" p3] fits o_len by auto
  have p34: "store_bytes p2 4 ?body = Inr p4" using store_adjacent[OF p3, unfolded o_len, OF p4] .
  obtain q where q: "store_bytes p4 (PAGE_SIZE - ?bs) (sp_bitmap s) = Inr q"
    using store_ok[of "PAGE_SIZE - ?bs" "sp_bitmap s" p4] fits bm_len by auto
  have take_bm: "take ?bs (sp_bitmap s) = sp_bitmap s" using bm_len by simp
  note saved = saved_string_page[OF p1 p2 p34, of "sp_bitmap s" q, unfolded take_bm, OF q _ fits order_refl]
  have all: "load_bytes q 4 (length ?body) = ?body" using saved(5) bm_len by simp
  have cnt: "unat (load16 q 2) = length ?strs"
    using saved(2) bm_len P(7,10) by (simp add: unat_of_nat_less PAGE_SIZE_def)
  have "page_rows page_string q = rs \<and> page_offsets_ok q"
  proof (rule string_page_rows)
    show "page_num_rows q = length rs" using saved(1) P(2) bm_len by simp
    show "page_valid q i \<longleftrightarrow> rs ! i \<noteq> None" if "i < length rs" for i using saved(3)[of i] P(2,6) bm_len that by simp
    show "unat (load16 q 2) = length ?strs" by (rule cnt)
    show "load_bytes q (4 + 2 * length ?strs) (length (concat ?strs)) = concat ?strs"
      using load_bytes_slice[OF all, of "2 * length ?strs" "length (concat ?strs)"] o_len P(3,10) body by simp
    fix i assume i: "i < length ?strs"
    have "string_end (map bytes16 ?offs) i = 2 * i" using i P(10) by (intro string_end_equal) auto
    then have "take 2 (drop (2 * i) ?o) = bytes16 (?offs ! i)"
      using string_slice[of i "map bytes16 ?offs"] i P(10) by simp
    moreover have "2 * i + 2 \<le> length ?o" using i o_len P(10) by simp
    ultimately have "load_bytes q (4 + 2 * i) 2 = bytes16 (?offs ! i)"
      using load_bytes_slice[OF all, of "2 * i" 2] by simp
    moreover have "string_end ?strs (Suc i) < 2 ^ 16"
      using string_end_le[of ?strs "Suc i"] P(7) by (simp add: PAGE_SIZE_def)
    ultimately show "page_offset q i = string_end ?strs (Suc i)"
      using P(4) i by (simp add: page_offset_def load_of_bytes unat_of_nat_less)
  qed
  then have group: "string_group [q] rs"
    using saved(1) P(2,11) bm_len rs by (auto simp: string_group_def)
  let ?s = "s\<lparr>sp_column := (sp_column s)\<lparr>col_pages := col_pages (sp_column s) @ [q]\<rparr>, sp_num_rows := 0, sp_chars := [],
    sp_offsets := [], sp_bitmap := []\<rparr>"
  have "string_save_page fresh s = Inr ?s"
    using p1 p2 p3 p4 q bm_len by (simp add: string_save_page_def Let_def)
  moreover have "sp_inv ty ?s (D @ [([q], rs)]) []"
    using P(1,8,9) group by (simp add: sp_inv_def PAGE_SIZE_def)
  ultimately show ?thesis by blast
qed

definition sp_appends ::
    "data_type \<Rightarrow> (page list \<times> bytes option list) list \<Rightarrow> bytes option list \<Rightarrow> bytes option list \<Rightarrow>
     string_packer res \<Rightarrow> bool" where
  "sp_appends ty D rs new r \<longleftrightarrow>
     (\<exists>s' D' rs'. r = Inr s' \<and> sp_inv ty s' D' rs' \<and> group_rows D' @ rs' = group_rows D @ rs @ new)"

lemma sp_room:
  assumes inv: "sp_inv ty s D rs" and extra: "4 + extra + 1 \<le> PAGE_SIZE"
  shows "\<exists>s' D' rs'. (if PAGE_SIZE < 4 + length (sp_offsets s) * 2 + length (sp_chars s) + extra + (unat (sp_num_rows s) div 8 + 1)
            then string_save_page fresh s else Inr s) = Inr s' \<and>
     sp_inv ty s' D' rs' \<and> group_rows D' @ rs' = group_rows D @ rs \<and>
     4 + 2 * length (present rs') + length (concat (present rs')) + extra + (length rs' div 8 + 1) \<le> PAGE_SIZE"
proof (cases "PAGE_SIZE < 4 + length (sp_offsets s) * 2 + length (sp_chars s) + extra + (unat (sp_num_rows s) div 8 + 1)")
  case True
  then have "rs \<noteq> []" using sp_invD(2,3,10)[OF inv] extra by auto
  then obtain s' g where "string_save_page fresh s = Inr s'" "sp_inv ty s' (D @ [(g, rs)]) []"
    using string_save_page_correct[OF inv] by blast
  with True extra show ?thesis by (intro exI[of _ s'] exI[of _ "D @ [(g, rs)]"] exI[of _ "[]"]) simp
next
  case False
  with inv sp_invD(2,3,10)[OF inv] show ?thesis by (intro exI[of _ s] exI[of _ D] exI[of _ rs]) simp
qed

lemma sp_next:
  assumes inv: "sp_inv ty s D rs"
    and fits: "4 + 2 * length (present (rs @ [x])) + length (concat (present (rs @ [x]))) + (length rs div 8 + 1) \<le> PAGE_SIZE"
    and s': "s' = s\<lparr>sp_bitmap := (if x = None then vec_unset_bitmap else vec_set_bitmap) (unat (sp_num_rows s)) (sp_bitmap s),
      sp_chars := sp_chars s @ concat (present [x]),
      sp_offsets := sp_offsets s @ map (\<lambda>v. of_nat (length (sp_chars s @ v))) (present [x]), sp_num_rows := sp_num_rows s + 1\<rparr>"
  shows "sp_inv ty s' D (rs @ [x])"
  unfolding sp_inv_def
proof (intro conjI)
  note P = sp_invD[OF inv]
  have n: "unat (sp_num_rows s) = length rs" by (rule P(2))
  note bits = vec_bitmap_next[OF P(5)]
  show "unat (sp_num_rows s') = length (rs @ [x])" using P(2,11) s' by (simp add: u16_next)
  show "sp_chars s' = concat (present (rs @ [x]))" using P(3) s' by simp
  show "sp_offsets s' = map (\<lambda>k. of_nat (string_end (present (rs @ [x])) (Suc k))) [0..<length (present (rs @ [x]))]"
  proof (cases x)
    case (Some v)
    have "string_end (present rs @ [v]) (Suc k) = string_end (present rs) (Suc k)" if "k < length (present rs)" for k
      using that by (simp add: string_end_def)
    moreover have "string_end (present rs @ [v]) (Suc (length (present rs))) = length (concat (present rs)) + length v"
      by (simp add: string_end_def)
    ultimately show ?thesis using P(3,4) s' Some by simp
  qed (use P(4) s' in simp)
  show "length (sp_bitmap s') = (length (rs @ [x]) + 7) div 8" using bits(1,2) s' n by simp
  show "\<forall>i < length (rs @ [x]). get_bitmap (\<lambda>i. sp_bitmap s' ! i) i \<longleftrightarrow> (rs @ [x]) ! i \<noteq> None"
    using bits(3,4) P(6) s' n by (auto simp: nth_append less_Suc_eq)
  show "4 + 2 * length (present (rs @ [x])) + length (concat (present (rs @ [x]))) + (length (rs @ [x]) + 7) div 8 \<le> PAGE_SIZE"
    using fits by simp
qed (use sp_invD(1,8,9)[OF inv] s' in simp_all)

lemma pack_long_string_correct:
  assumes "offset \<le> length txt"
  shows "\<exists>g. pack_long_string fresh txt offset first_page column =
      Inr (column\<lparr>col_pages := col_pages column @ g\<rparr>) \<and>
    concat (map page_chunk g) = drop offset txt \<and> (\<forall>q \<in> set g. page_chunk q \<noteq> []) \<and>
    (g \<noteq> [] \<longrightarrow> page_num_rows (hd g) = (if first_page then 0xffff else 0xfffe)) \<and> (\<forall>q \<in> set (tl g). long_next q)"
  using assms
proof (induction "length txt - offset" arbitrary: offset first_page column rule: less_induct)
  case (less offset first_page column)
  show ?case
  proof (cases "offset < length txt")
    case True
    let ?fresh = "fresh (length (col_pages column))" and ?len = "min (length txt - offset) (PAGE_SIZE - 4)"
    let ?tag = "if first_page then 0xffff else 0xfffe :: u16" and ?chunk = "take ?len (drop offset txt)"
    have clen: "length ?chunk = ?len" by simp
    obtain p1 p2 q where p1: "store_bytes ?fresh 0 (bytes16 ?tag) = Inr p1"
      and p2: "store_bytes p1 2 (bytes16 (of_nat ?len)) = Inr p2" and q: "store_bytes p2 4 ?chunk = Inr q"
      and tag: "page_num_rows q = unat ?tag" and chunk: "page_chunk q = ?chunk"
      by (rule long_page_written[of ?chunk ?fresh ?tag]) (unfold clen, simp_all)
    let ?c = "column\<lparr>col_pages := col_pages column @ [q]\<rparr>"
    have step: "pack_long_string fresh txt offset first_page column = pack_long_string fresh txt (offset + ?len) False ?c"
      using True p1 p2 q by (subst pack_long_string.simps) (simp add: Let_def)
    have "length txt - (offset + ?len) < length txt - offset" "offset + ?len \<le> length txt"
      using True by (auto simp: PAGE_SIZE_def)
    from less.hyps[OF this, of False ?c] obtain g where g:
      "pack_long_string fresh txt (offset + ?len) False ?c = Inr (?c\<lparr>col_pages := col_pages ?c @ g\<rparr>)"
      "concat (map page_chunk g) = drop (offset + ?len) txt" "\<forall>q \<in> set g. page_chunk q \<noteq> []"
      "g \<noteq> [] \<longrightarrow> page_num_rows (hd g) = (if False then 0xffff else 0xfffe)" "\<forall>q \<in> set (tl g). long_next q" by blast
    have "?chunk \<noteq> []" using True by (simp add: PAGE_SIZE_def)
    then have "page_chunk q \<noteq> []" by (simp only: chunk not_False_eq_True)
    moreover have "\<forall>q \<in> set g. long_next q" using g(4,5) by (cases g) auto
    moreover have "?chunk @ drop (offset + ?len) txt = drop offset txt"
      by (metis append_take_drop_id drop_drop add.commute)
    ultimately show ?thesis
      using step g(1-3) chunk tag by (intro exI[of _ "q # g"]) simp
  next
    case False
    then show ?thesis
      using less.prems by (intro exI[of _ "[]"]) (subst pack_long_string.simps, simp)
  qed
qed

lemma string_pack_long:
  assumes inv: "sp_inv ty s D rs" and long: "PAGE_SIZE - 7 < length v"
  shows "sp_appends ty D rs [Some v] (string_pack fresh (D_string v) s)"
proof -
  obtain s1 D1 where s1: "(if 0 < unat (sp_num_rows s) then string_save_page fresh s else Inr s) = Inr s1"
    "sp_inv ty s1 D1 []" "group_rows D1 = group_rows D @ rs"
  proof (cases "rs = []")
    case True
    then show ?thesis using sp_invD(2)[OF inv] inv that[of s D] by simp
  next
    case False
    obtain s' g where "string_save_page fresh s = Inr s'" "sp_inv ty s' (D @ [(g, rs)]) []"
      using string_save_page_correct[OF inv False] by blast
    then show ?thesis using sp_invD(2)[OF inv] False that[of s' "D @ [(g, rs)]"] by simp
  qed
  note P = sp_invD[OF s1(2)]
  obtain g where g: "pack_long_string fresh v 0 True (sp_column s1) = Inr ((sp_column s1)\<lparr>col_pages := col_pages (sp_column s1) @ g\<rparr>)"
    "concat (map page_chunk g) = v" "\<forall>q \<in> set g. page_chunk q \<noteq> []"
    "g \<noteq> [] \<longrightarrow> long_first (hd g)" "\<forall>q \<in> set (tl g). long_next q"
    using pack_long_string_correct[of 0 v fresh True "sp_column s1"] by auto
  have "g \<noteq> []" using g(2) long by auto
  then have "string_group g [Some v]" using g(2-5) long by (cases g) (auto simp: string_group_def)
  then have "sp_inv ty (s1\<lparr>sp_column := (sp_column s1)\<lparr>col_pages := col_pages (sp_column s1) @ g\<rparr>\<rparr>) (D1 @ [(g, [Some v])]) []"
    using P by (simp add: sp_inv_def)
  moreover have "string_pack fresh (D_string v) s =
      Inr (s1\<lparr>sp_column := (sp_column s1)\<lparr>col_pages := col_pages (sp_column s1) @ g\<rparr>\<rparr>)"
    using s1(1) g(1) long by (simp add: string_pack_def)
  ultimately show ?thesis
    unfolding sp_appends_def using s1(3)
    by (intro exI[of _ "s1\<lparr>sp_column := (sp_column s1)\<lparr>col_pages := col_pages (sp_column s1) @ g\<rparr>\<rparr>"]
        exI[of _ "D1 @ [(g, [Some v])]"] exI[of _ "[]"]) simp
qed

lemma string_pack_short:
  assumes inv: "sp_inv ty s D rs" and short: "\<not> PAGE_SIZE - 7 < length v"
  shows "sp_appends ty D rs [Some v] (string_pack fresh (D_string v) s)"
proof -
  have guard: "4 + (length (sp_offsets s) + 1) * 2 + (length (sp_chars s) + length v) + (unat (sp_num_rows s) div 8 + 1) =
      4 + length (sp_offsets s) * 2 + length (sp_chars s) + (2 + length v) + (unat (sp_num_rows s) div 8 + 1)" by simp
  have "4 + (2 + length v) + 1 \<le> PAGE_SIZE" using short by (simp add: PAGE_SIZE_def)
  from sp_room[OF inv this, of fresh] obtain s1 D1 rs1 where s1:
    "(if PAGE_SIZE < 4 + length (sp_offsets s) * 2 + length (sp_chars s) + (2 + length v) + (unat (sp_num_rows s) div 8 + 1)
      then string_save_page fresh s else Inr s) = Inr s1" "sp_inv ty s1 D1 rs1" "group_rows D1 @ rs1 = group_rows D @ rs"
    "4 + 2 * length (present rs1) + length (concat (present rs1)) + (2 + length v) + (length rs1 div 8 + 1) \<le> PAGE_SIZE" by blast
  let ?s = "s1\<lparr>sp_bitmap := vec_set_bitmap (unat (sp_num_rows s1)) (sp_bitmap s1), sp_chars := sp_chars s1 @ v,
    sp_offsets := sp_offsets s1 @ [of_nat (length (sp_chars s1 @ v))], sp_num_rows := sp_num_rows s1 + 1\<rparr>"
  have "sp_inv ty ?s D1 (rs1 @ [Some v])"
    using s1(4) by (intro sp_next[OF s1(2)]) auto
  moreover have "string_pack fresh (D_string v) s = Inr ?s"
    unfolding string_pack_def data.case if_not_P[OF short] guard s1(1) rbind_simps ..
  moreover have "group_rows D1 @ rs1 @ [Some v] = group_rows D @ rs @ [Some v]"
    using s1(3) by (metis append_assoc)
  ultimately show ?thesis
    unfolding sp_appends_def by (intro exI[of _ ?s] exI[of _ D1] exI[of _ "rs1 @ [Some v]"]) simp
qed

lemma string_pack_null:
  assumes inv: "sp_inv ty s D rs"
  shows "sp_appends ty D rs [None] (string_pack fresh D_null s)"
proof -
  obtain s1 D1 rs1 where s1:
    "(if PAGE_SIZE < 4 + length (sp_offsets s) * 2 + length (sp_chars s) + (unat (sp_num_rows s) div 8 + 1)
      then string_save_page fresh s else Inr s) = Inr s1" "sp_inv ty s1 D1 rs1" "group_rows D1 @ rs1 = group_rows D @ rs"
    "4 + 2 * length (present rs1) + length (concat (present rs1)) + (length rs1 div 8 + 1) \<le> PAGE_SIZE"
    using sp_room[OF inv, of 0 fresh] by (auto simp: PAGE_SIZE_def)
  let ?s = "s1\<lparr>sp_bitmap := vec_unset_bitmap (unat (sp_num_rows s1)) (sp_bitmap s1), sp_num_rows := sp_num_rows s1 + 1\<rparr>"
  have "sp_inv ty ?s D1 (rs1 @ [None])"
    using s1(4) by (intro sp_next[OF s1(2)]) auto
  moreover have "string_pack fresh D_null s = Inr ?s"
    unfolding string_pack_def data.case s1(1) rbind_simps ..
  moreover have "group_rows D1 @ rs1 @ [None] = group_rows D @ rs @ [None]"
    using s1(3) by (metis append_assoc)
  ultimately show ?thesis
    unfolding sp_appends_def by (intro exI[of _ ?s] exI[of _ D1] exI[of _ "rs1 @ [None]"]) simp
qed

definition string_cell :: "data \<Rightarrow> bytes option" where
  "string_cell d = (case d of D_string v \<Rightarrow> Some v | _ \<Rightarrow> None)"

definition is_string :: "data \<Rightarrow> bool" where
  "is_string d = (case d of D_string v \<Rightarrow> True | _ \<Rightarrow> False)"

lemma string_pack_correct:
  assumes "sp_inv ty s D rs" "d = D_null \<or> is_string d"
  shows "sp_appends ty D rs [string_cell d] (string_pack fresh d s)"
proof (cases d)
  case (D_string v)
  then show ?thesis
    using string_pack_short[OF assms(1), of v fresh] string_pack_long[OF assms(1), of v fresh]
    by (cases "PAGE_SIZE - 7 < length v") (simp_all add: string_cell_def)
qed (use assms(2) string_pack_null[OF assms(1), of fresh] in \<open>simp_all add: is_string_def string_cell_def\<close>)

lemma string_pack_all:
  assumes "sp_inv ty s D rs" "\<forall>d \<in> set vals. d = D_null \<or> is_string d"
  shows "sp_appends ty D rs (map string_cell vals) (rfold (string_pack fresh) vals s)"
  using assms
proof (induction vals arbitrary: s D rs)
  case (Cons d vals)
  obtain s1 D1 rs1 where s1: "string_pack fresh d s = Inr s1" "sp_inv ty s1 D1 rs1"
    "group_rows D1 @ rs1 = group_rows D @ rs @ [string_cell d]"
    using string_pack_correct[OF Cons.prems(1), of d fresh] Cons.prems(2) by (auto simp: sp_appends_def)
  obtain s2 D2 rs2 where s2: "rfold (string_pack fresh) vals s1 = Inr s2" "sp_inv ty s2 D2 rs2"
    "group_rows D2 @ rs2 = group_rows D1 @ rs1 @ map string_cell vals"
    using Cons.IH[OF s1(2)] Cons.prems(2) by (auto simp: sp_appends_def)
  have "group_rows D2 @ rs2 = (group_rows D1 @ rs1) @ map string_cell vals" using s2(3) by simp
  then have "group_rows D2 @ rs2 = group_rows D @ rs @ map string_cell (d # vals)" unfolding s1(3) by simp
  with s1(1) s2(1,2) show ?case unfolding sp_appends_def by auto
qed (auto simp: sp_appends_def)

lemma pack_varchar_correct:
  assumes c: "col_pages c = []" and vals: "\<forall>d \<in> set vals. d = D_null \<or> is_string d"
  shows "\<exists>c'. pack_varchar fresh vals c = Inr c' \<and> col_type c' = col_type c \<and>
    string_groups (col_pages c') (map string_cell vals)"
proof -
  let ?s0 = "\<lparr>sp_column = c, sp_num_rows = 0, sp_chars = [], sp_offsets = [], sp_bitmap = []\<rparr>"
  have "sp_inv (col_type c) ?s0 [] []" using c by (simp add: sp_inv_def PAGE_SIZE_def)
  from string_pack_all[OF this vals, of fresh]
  obtain s1 D1 rs1 where s1: "rfold (string_pack fresh) vals ?s0 = Inr s1" "sp_inv (col_type c) s1 D1 rs1"
    "group_rows D1 @ rs1 = map string_cell vals" by (auto simp: sp_appends_def)
  obtain s2 D2 where s2: "(if sp_num_rows s1 \<noteq> 0 then string_save_page fresh s1 else Inr s1) = Inr s2"
    "sp_inv (col_type c) s2 D2 []" "group_rows D2 = map string_cell vals"
  proof (cases "rs1 = []")
    case True
    then show ?thesis using sp_invD(2)[OF s1(2)] s1 that[of s1 D1] by (simp add: unat_eq_zero)
  next
    case False
    obtain s' g where "string_save_page fresh s1 = Inr s'" "sp_inv (col_type c) s' (D1 @ [(g, rs1)]) []"
      using string_save_page_correct[OF s1(2) False] by blast
    moreover have "sp_num_rows s1 \<noteq> 0" using sp_invD(2)[OF s1(2)] False by auto
    ultimately show ?thesis using s1(3) that[of s' "D1 @ [(g, rs1)]"] by simp
  qed
  note P = sp_invD[OF s2(2)]
  have "string_groups (col_pages (sp_column s2)) (map string_cell vals)"
    using P(8,9) s2(3) by (auto simp: string_groups_def)
  then show ?thesis using s1(1) s2(1) P(1) by (simp add: pack_varchar_def)
qed

section \<open>Whole tables\<close>

definition cell_ok :: "data_type \<Rightarrow> data \<Rightarrow> bool" where
  "cell_ok ty d \<longleftrightarrow>
     (case d of D_null \<Rightarrow> True | D_int32 v \<Rightarrow> ty = INT32 | D_int64 v \<Rightarrow> ty = INT64 | D_fp64 v \<Rightarrow> ty = FP64
      | D_string v \<Rightarrow> ty = VARCHAR)"

lemma pack_column_correct:
  assumes "\<And>d. d \<in> set vals \<Longrightarrow> cell_ok ty d"
  shows "\<exists>c. pack_column fresh ty vals = Inr c \<and> col_type c = ty \<and> readable (length vals) c \<and> column_data c = vals"
proof (cases ty)
  case VARCHAR
  have ok: "\<forall>d \<in> set vals. d = D_null \<or> is_string d"
    using assms VARCHAR by (fastforce simp: cell_ok_def is_string_def split: data.splits)
  obtain c where c: "pack_varchar fresh vals (new_column VARCHAR) = Inr c" "col_type c = VARCHAR"
    "string_groups (col_pages c) (map string_cell vals)"
    using pack_varchar_correct[OF _ ok, of "new_column VARCHAR" fresh] by (auto simp: new_column_def)
  have dec: "decode_strings (col_pages c) = map string_cell vals" using string_groups_decode[OF c(3)] by simp
  have "data_of (map_option D_string (string_cell d)) = d" if "d \<in> set vals" for d
    using ok that by (auto simp: is_string_def string_cell_def data_of_def split: data.splits)
  then show ?thesis
    using c dec VARCHAR
    by (intro exI[of _ c]) (simp add: pack_column_def readable_def column_data_def column_rows_def map_idI)
next
  case INT32
  have ok: "d = D_null \<or> sel_int32 d \<noteq> None" if "d \<in> set vals" for d
    using assms[OF that] INT32 by (auto simp: cell_ok_def sel_int32_def split: data.splits)
  show ?thesis
    using int32_format.fixed_column_correct[OF _ ok, of "new_column INT32" vals fresh] INT32
    by (fastforce simp: pack_column_def pack_int32_def readable_def column_data_def column_rows_def new_column_def comp_def)
next
  case INT64
  have ok: "d = D_null \<or> sel_int64 d \<noteq> None" if "d \<in> set vals" for d
    using assms[OF that] INT64 by (auto simp: cell_ok_def sel_int64_def split: data.splits)
  show ?thesis
    using int64_format.fixed_column_correct[OF _ ok, of "new_column INT64" vals fresh] INT64
    by (fastforce simp: pack_column_def pack_int64_def readable_def column_data_def column_rows_def new_column_def comp_def)
next
  case FP64
  have ok: "d = D_null \<or> sel_fp64 d \<noteq> None" if "d \<in> set vals" for d
    using assms[OF that] FP64 by (auto simp: cell_ok_def sel_fp64_def split: data.splits)
  show ?thesis
    using fp64_format.fixed_column_correct[OF _ ok, of "new_column FP64" vals fresh] FP64
    by (fastforce simp: pack_column_def pack_fp64_def readable_def column_data_def column_rows_def new_column_def comp_def)
qed

definition table_ok :: "table \<Rightarrow> bool" where
  "table_ok t \<longleftrightarrow> (\<forall>row \<in> set (tb_data t). list_all2 cell_ok (tb_types t) row)"

lemma table_okD:
  assumes "table_ok t" "row \<in> set (tb_data t)"
  shows "length row = length (tb_types t)" "c < length (tb_types t) \<Longrightarrow> cell_ok (tb_types t ! c) (row ! c)"
  using assms by (auto simp: table_ok_def list_all2_conv_all_nth)

lemma record_cells_correct:
  assumes "\<And>row. row \<in> set rows \<Longrightarrow> c < length row"
  shows "record_cells c rows = Inr (map (\<lambda>row. row ! c) rows)"
proof -
  have "rfold (\<lambda>record vals. rbind (at record c) (\<lambda>d. Inr (vals @ [d]))) rows acc =
      Inr (acc @ map (\<lambda>row. row ! c) rows)" for acc
    using assms by (induction rows arbitrary: acc) auto
  then show ?thesis by (simp add: record_cells_def)
qed

lemma to_columnar_correct:
  assumes ok: "table_ok t"
  shows "\<exists>ct. to_columnar fresh t = Inr ct \<and> tbl_num_rows ct = length (tb_data t) \<and>
    map col_type (tbl_columns ct) = tb_types t \<and>
    (\<forall>c < length (tb_types t). readable (length (tb_data t)) (tbl_columns ct ! c) \<and>
       column_data (tbl_columns ct ! c) = map (\<lambda>row. row ! c) (tb_data t))"
proof -
  let ?rows = "tb_data t" and ?types = "tb_types t"
  let ?f = "\<lambda>col_idx ret. rbind (record_cells col_idx ?rows) (\<lambda>vals.
        rbind (pack_column (fresh col_idx) (?types ! col_idx) vals) (\<lambda>column.
          Inr (ret\<lparr>tbl_columns := tbl_columns ret @ [column]\<rparr>)))"
  have "\<exists>ct. rfold ?f [0..<k] \<lparr>tbl_num_rows = length ?rows, tbl_columns = []\<rparr> = Inr ct \<and>
      tbl_num_rows ct = length ?rows \<and> map col_type (tbl_columns ct) = take k ?types \<and>
      (\<forall>c < k. readable (length ?rows) (tbl_columns ct ! c) \<and>
        column_data (tbl_columns ct ! c) = map (\<lambda>row. row ! c) ?rows)" if "k \<le> length ?types" for k
    using that
  proof (induction k)
    case (Suc k)
    then obtain ct where ct: "rfold ?f [0..<k] \<lparr>tbl_num_rows = length ?rows, tbl_columns = []\<rparr> = Inr ct"
      "tbl_num_rows ct = length ?rows" "map col_type (tbl_columns ct) = take k ?types"
      "\<And>c. c < k \<Longrightarrow> readable (length ?rows) (tbl_columns ct ! c) \<and> column_data (tbl_columns ct ! c) = map (\<lambda>row. row ! c) ?rows"
      by auto
    have k: "k < length ?types" using Suc.prems by simp
    have len: "length (tbl_columns ct) = k" using arg_cong[OF ct(3), of length] k by simp
    have cells: "record_cells k ?rows = Inr (map (\<lambda>row. row ! k) ?rows)"
      using table_okD(1)[OF ok] k by (intro record_cells_correct) auto
    obtain c where c: "pack_column (fresh k) (?types ! k) (map (\<lambda>row. row ! k) ?rows) = Inr c" "col_type c = ?types ! k"
      "readable (length ?rows) c" "column_data c = map (\<lambda>row. row ! k) ?rows"
      using pack_column_correct[of "map (\<lambda>row. row ! k) ?rows" "?types ! k" "fresh k"] table_okD(2)[OF ok _ k] by auto
    have "?f k ct = Inr (ct\<lparr>tbl_columns := tbl_columns ct @ [c]\<rparr>)" using cells c(1) by simp
    with ct(1) have "rfold ?f [0..<Suc k] \<lparr>tbl_num_rows = length ?rows, tbl_columns = []\<rparr> =
        Inr (ct\<lparr>tbl_columns := tbl_columns ct @ [c]\<rparr>)" by (rule rfold_upt_step)
    moreover have "readable (length ?rows) ((tbl_columns ct @ [c]) ! i) \<and>
        column_data ((tbl_columns ct @ [c]) ! i) = map (\<lambda>row. row ! i) ?rows" if "i < Suc k" for i
      using that ct(4)[of i] c(3,4) len by (cases "i = k") (auto simp: nth_append)
    ultimately show ?case
      using ct(2,3) c(2) k by (intro exI[of _ "ct\<lparr>tbl_columns := tbl_columns ct @ [c]\<rparr>"]) (simp add: take_Suc_conv_app_nth)
  qed simp
  from this[of "length ?types"] show ?thesis by (simp add: to_columnar_def)
qed

lemma transpose_columns:
  assumes "table_ok t"
  shows "transpose_rows (length (tb_data t)) (map (\<lambda>c. map (\<lambda>row. row ! c) (tb_data t)) [0..<length (tb_types t)]) = tb_data t"
  using table_okD(1)[OF assms] by (auto simp: transpose_rows_def intro!: nth_equalityI)

lemma table_roundtrip:
  assumes ok: "table_ok t" and order: "pool_order filter_tp_threads order"
  shows "rbind (to_columnar fresh t) (from_columnar order) = Inr t"
proof -
  obtain ct where ct: "to_columnar fresh t = Inr ct" "tbl_num_rows ct = length (tb_data t)"
    "map col_type (tbl_columns ct) = tb_types t"
    "\<And>c. c < length (tb_types t) \<Longrightarrow> readable (length (tb_data t)) (tbl_columns ct ! c) \<and>
       column_data (tbl_columns ct ! c) = map (\<lambda>row. row ! c) (tb_data t)"
    using to_columnar_correct[OF ok, of fresh] by blast
  have len: "length (tbl_columns ct) = length (tb_types t)" using arg_cong[OF ct(3), of length] by simp
  have "map column_data (tbl_columns ct) = map (\<lambda>c. map (\<lambda>row. row ! c) (tb_data t)) [0..<length (tb_types t)]"
    using ct(4) len by (intro nth_equalityI) auto
  moreover have "readable (tbl_num_rows ct) c" if "c \<in> set (tbl_columns ct)" for c
    using that ct(2,4) len by (auto simp: in_set_conv_nth)
  ultimately show ?thesis
    using from_columnar_correct[OF order, of ct] ct(1-3) transpose_columns[OF ok] by simp
qed

text \<open>A cell of another type stops the packing of a string column.\<close>

lemma string_pack_rejects:
  "d \<noteq> D_null \<Longrightarrow> \<not> is_string d \<Longrightarrow> string_pack fresh d s = Inl (Runtime_error ''not string or null'')"
  by (cases d) (simp_all add: string_pack_def is_string_def)

lemma pack_varchar_rejects:
  assumes "col_pages c = []" "d \<in> set vals" "d \<noteq> D_null" "\<not> is_string d"
  shows "pack_varchar fresh vals c = Inl (Runtime_error ''not string or null'')"
proof -
  have "\<exists>d \<in> set vals. d \<noteq> D_null \<and> \<not> is_string d" using assms by blast
  then obtain good bad rest where vals: "vals = good @ bad # rest" "bad \<noteq> D_null" "\<not> is_string bad"
    "\<forall>d \<in> set good. \<not> (d \<noteq> D_null \<and> \<not> is_string d)"
    by (auto dest!: split_list_first_prop)
  let ?s0 = "\<lparr>sp_column = c, sp_num_rows = 0, sp_chars = [], sp_offsets = [], sp_bitmap = []\<rparr>"
  have "sp_inv (col_type c) ?s0 [] []" using assms(1) by (simp add: sp_inv_def PAGE_SIZE_def)
  then obtain s1 where "rfold (string_pack fresh) good ?s0 = Inr s1"
    using string_pack_all[of "col_type c" ?s0 "[]" "[]" good fresh] vals(4) by (auto simp: sp_appends_def)
  then show ?thesis
    using vals(2,3) by (simp add: pack_varchar_def vals(1) rfold_append string_pack_rejects)
qed

section \<open>Properties\<close>

definition example_table :: table where
  "example_table = \<lparr>tb_types = [INT32, VARCHAR, INT64, FP64],
     tb_data = [[D_int32 7, D_string [97, 98], D_null, D_fp64 1], [D_null, D_null, D_int64 9, D_null]]\<rparr>"

lemma example_table_ok: "table_ok example_table"
  by (simp add: table_ok_def example_table_def cell_ok_def)

lemma default_pool_order: "pool_order filter_tp_threads [0..<filter_tp_threads]"
  by (simp add: pool_order_def)

text \<open>C22. Round trip of the row and the columnar form: a table whose cells have the types of their
  columns (NULLs anywhere, strings of any length), written into pages by \<open>to_columnar\<close> and read by
  \<open>from_columnar\<close>, is the same table, in whatever order the shards of the thread pool run and whatever
  new pages contain. No write leaves its page.\<close>

theorem columnar_roundtrip:
  assumes "table_ok t" and "pool_order filter_tp_threads order"
  shows "rbind (to_columnar fresh t) (from_columnar order) = Inr t"
  using assms by (rule table_roundtrip)

theorem columnar_roundtrip_witness:
  "rbind (to_columnar (\<lambda>_ _ _. 0) example_table) (from_columnar [0..<filter_tp_threads]) = Inr example_table"
  by (rule columnar_roundtrip[OF example_table_ok default_pool_order])

text \<open>\<open>copy_scan\<close> is projection: scanning chosen columns of a table in its columnar form (in any
  order, with repetitions) gives each row restricted to these columns, under every order of the shards.\<close>

theorem copy_scan_projects:
  assumes ok: "table_ok t" and order: "pool_order filter_tp_threads order"
    and attrs: "\<forall>a \<in> set attrs. fst a < length (tb_types t)"
  shows "rbind (to_columnar fresh t) (\<lambda>ct. copy_scan order ct attrs) =
    Inr (map (\<lambda>row. map (\<lambda>a. row ! fst a) attrs) (tb_data t))"
proof -
  obtain ct where ct: "to_columnar fresh t = Inr ct" "tbl_num_rows ct = length (tb_data t)"
    "map col_type (tbl_columns ct) = tb_types t"
    "\<And>c. c < length (tb_types t) \<Longrightarrow> readable (length (tb_data t)) (tbl_columns ct ! c) \<and>
       column_data (tbl_columns ct ! c) = map (\<lambda>row. row ! c) (tb_data t)"
    using to_columnar_correct[OF ok, of fresh] by blast
  have len: "length (tbl_columns ct) = length (tb_types t)" using arg_cong[OF ct(3), of length] by simp
  have "copy_scan order ct attrs =
      Inr (transpose_rows (tbl_num_rows ct) (map (\<lambda>a. column_data (tbl_columns ct ! fst a)) attrs))"
    using attrs ct(2,4) len by (intro copy_scan_correct[OF order]) auto
  moreover have "map (\<lambda>a. column_data (tbl_columns ct ! fst a)) attrs = map (\<lambda>a. map (\<lambda>row. row ! fst a) (tb_data t)) attrs"
    using attrs ct(4) by simp
  ultimately show ?thesis
    using ct(1,2) by (auto simp: transpose_rows_def intro!: nth_equalityI)
qed

theorem copy_scan_projects_witness:
  "rbind (to_columnar (\<lambda>_ _ _. 0) example_table) (\<lambda>ct. copy_scan [0..<filter_tp_threads] ct [(1, VARCHAR), (0, INT32)]) =
     Inr [[D_string [97, 98], D_int32 7], [D_null, D_null]]"
  using copy_scan_projects[OF example_table_ok default_pool_order, of "[(1, VARCHAR), (0, INT32)]" "\<lambda>_ _ _. 0"]
  by (simp add: example_table_def)

text \<open>Error path of \<open>to_columnar\<close>: if the columns before a VARCHAR column are well typed and a row
  holds a number there, the conversion throws "not string or null", whatever the other rows hold.\<close>

theorem to_columnar_rejects_number:
  assumes types: "tb_types t = tys @ VARCHAR # tys'"
    and rows: "\<forall>row \<in> set (tb_data t). length row = length (tb_types t) \<and> list_all2 cell_ok tys (take (length tys) row)"
    and bad: "row \<in> set (tb_data t)" "row ! length tys \<noteq> D_null" "\<not> is_string (row ! length tys)"
  shows "to_columnar fresh t = Inl (Runtime_error ''not string or null'')"
proof -
  let ?t = "\<lparr>tb_types = tys, tb_data = map (take (length tys)) (tb_data t)\<rparr>" and ?k = "length tys"
  have "table_ok ?t" using rows by (simp add: table_ok_def)
  from to_columnar_correct[OF this, of fresh] obtain ct where ct: "to_columnar fresh ?t = Inr ct" by blast
  let ?f = "\<lambda>t col_idx ret. rbind (record_cells col_idx (tb_data t)) (\<lambda>vals.
        rbind (pack_column (fresh col_idx) (tb_types t ! col_idx) vals) (\<lambda>column.
          Inr (ret\<lparr>tbl_columns := tbl_columns ret @ [column]\<rparr>)))"
  let ?s = "\<lparr>tbl_num_rows = length (tb_data t), tbl_columns = []\<rparr>"
  have cells: "record_cells c (tb_data t) = Inr (map (\<lambda>row. row ! c) (tb_data t))" if "c \<le> ?k" for c
    using rows that types by (intro record_cells_correct) auto
  have "record_cells c (tb_data ?t) = record_cells c (tb_data t)" if "c < ?k" for c
    using rows that types by (subst record_cells_correct) (auto simp: cells)
  then have "rfold (?f t) [0..<?k] ?s = rfold (?f ?t) [0..<?k] ?s"
    using types by (intro rfold_cong) (simp_all add: nth_append)
  then have first: "rfold (?f t) [0..<?k] ?s = Inr ct" using ct by (simp add: to_columnar_def)
  have "pack_varchar (fresh ?k) (map (\<lambda>row. row ! ?k) (tb_data t)) (new_column VARCHAR) =
      Inl (Runtime_error ''not string or null'')"
    using bad by (intro pack_varchar_rejects[of _ "row ! ?k"]) (auto simp: new_column_def)
  then have "?f t ?k ct = Inl (Runtime_error ''not string or null'')"
    using cells[of ?k] types by (simp add: pack_column_def)
  moreover have "[0..<length (tb_types t)] = [0..<?k] @ ?k # [Suc ?k..<length (tb_types t)]"
    using types upt_add_eq_append[of 0 ?k "Suc (length tys')"] by (simp add: upt_conv_Cons del: upt_Suc)
  ultimately show ?thesis
    unfolding to_columnar_def by (simp only: rfold_append first rbind_simps rfold.simps)
qed

theorem to_columnar_rejects_number_witness:
  "to_columnar (\<lambda>_ _ _. 0) \<lparr>tb_types = [INT32, VARCHAR], tb_data = [[D_int32 7, D_null], [D_null, D_int32 7]]\<rparr> =
     Inl (Runtime_error ''not string or null'')"
  by (rule to_columnar_rejects_number[where tys = "[INT32]" and tys' = "[]" and row = "[D_null, D_int32 7]"])
    (simp_all add: cell_ok_def is_string_def)

end
