(* ===== verification/Doubles.thy ===== *)
theory Doubles
  imports Prelude
begin

text \<open>
  The \<open>double\<close> values of the engine as the 64 bits of the IEEE 754 format: the comparison operators,
  and the conversion of integers, rounded to nearest, ties to even (\<open>static_cast<double>\<close>). The
  conversion keeps the order of integers below 2^53, which is what filters rely on.
\<close>

section \<open>Comparison\<close>

definition fp_exponent :: "u64 \<Rightarrow> nat" where
  "fp_exponent w = unat w div 2 ^ 52 mod 2 ^ 11"

definition fp_is_nan :: "u64 \<Rightarrow> bool" where
  "fp_is_nan w \<longleftrightarrow> fp_exponent w = 2 ^ 11 - 1 \<and> unat w mod 2 ^ 52 \<noteq> 0"

text \<open>Doubles that are not NaN are ordered like these integers; both zeros are 0.\<close>

definition fp_key :: "u64 \<Rightarrow> int" where
  "fp_key w = (let m = int (unat w mod 2 ^ 63) in if 2 ^ 63 \<le> unat w then - m else m)"

definition fp_eq :: "u64 \<Rightarrow> u64 \<Rightarrow> bool" where
  "fp_eq a b \<longleftrightarrow> \<not> fp_is_nan a \<and> \<not> fp_is_nan b \<and> fp_key a = fp_key b"

definition fp_lt :: "u64 \<Rightarrow> u64 \<Rightarrow> bool" where
  "fp_lt a b \<longleftrightarrow> \<not> fp_is_nan a \<and> \<not> fp_is_nan b \<and> fp_key a < fp_key b"

definition fp_le :: "u64 \<Rightarrow> u64 \<Rightarrow> bool" where
  "fp_le a b \<longleftrightarrow> \<not> fp_is_nan a \<and> \<not> fp_is_nan b \<and> fp_key a \<le> fp_key b"

section \<open>Conversion of integers\<close>

fun top_bit :: "nat \<Rightarrow> nat" where
  "top_bit m = (if m < 2 then 0 else Suc (top_bit (m div 2)))"

declare top_bit.simps [simp del]

definition round_shift :: "nat \<Rightarrow> nat \<Rightarrow> nat" where
  "round_shift m s =
     (let q = m div 2 ^ s; r = m mod 2 ^ s
      in if 2 ^ (s - 1) < r \<or> r = 2 ^ (s - 1) \<and> odd q then q + 1 else q)"

definition double_of_nat :: "nat \<Rightarrow> nat" where
  "double_of_nat m =
     (if m = 0 then 0
      else let e = top_bit m
           in (e + 1022) * 2 ^ 52 + (if e \<le> 52 then m * 2 ^ (52 - e) else round_shift m (e - 52)))"

definition double_of_int :: "int \<Rightarrow> u64" where
  "double_of_int i = of_nat ((if i < 0 then 2 ^ 63 else 0) + double_of_nat (nat \<bar>i\<bar>))"

lemma top_bit_bounds: "0 < m \<Longrightarrow> 2 ^ top_bit m \<le> m \<and> m < 2 ^ (top_bit m + 1)"
proof (induction m rule: top_bit.induct)
  case (1 m)
  show ?case
  proof (cases "m < 2")
    case False
    have "2 ^ top_bit (m div 2) \<le> m div 2 \<and> m div 2 < 2 ^ (top_bit (m div 2) + 1)"
      using 1 False by simp
    then have "2 * 2 ^ top_bit (m div 2) \<le> m \<and> m < 2 * 2 ^ (top_bit (m div 2) + 1)" by linarith
    then show ?thesis using False by (simp add: top_bit.simps[of m])
  qed (use 1 in \<open>simp add: top_bit.simps[of m]\<close>)
qed

lemma top_bit_less: "0 < m \<Longrightarrow> m < 2 ^ n \<Longrightarrow> top_bit m < n"
  using top_bit_bounds[of m] by (meson le_less_trans nat_power_less_imp_less zero_less_numeral)

lemma double_of_nat_exact:
  assumes "0 < m" "m < 2 ^ 53"
  shows "double_of_nat m = (top_bit m + 1022) * 2 ^ 52 + m * 2 ^ (52 - top_bit m)"
    "2 ^ 52 \<le> m * 2 ^ (52 - top_bit m)" "m * 2 ^ (52 - top_bit m) < 2 ^ 53"
proof -
  let ?e = "top_bit m"
  have e: "?e \<le> 52" using top_bit_less[OF assms] by simp
  then show "double_of_nat m = (?e + 1022) * 2 ^ 52 + m * 2 ^ (52 - ?e)"
    using assms by (simp add: double_of_nat_def Let_def)
  note B = top_bit_bounds[OF assms(1)]
  have split: "2 ^ ?e * 2 ^ (52 - ?e) = (2 ^ 52 :: nat)"
    using e by (metis le_add_diff_inverse power_add)
  have "2 ^ ?e * 2 ^ (52 - ?e) \<le> m * 2 ^ (52 - ?e)" using B by (intro mult_le_mono1) simp
  then show "2 ^ 52 \<le> m * 2 ^ (52 - ?e)" unfolding split .
  have "m * 2 ^ (52 - ?e) < 2 ^ (?e + 1) * 2 ^ (52 - ?e)" using B by simp
  also have "\<dots> = 2 * 2 ^ 52" using split by simp
  finally show "m * 2 ^ (52 - ?e) < 2 ^ 53" by simp
qed

lemma double_of_nat_less:
  assumes "m < k" "k < 2 ^ 53"
  shows "double_of_nat m < double_of_nat k"
proof (cases "m = 0")
  case True
  have "2 ^ 52 \<le> double_of_nat k" using double_of_nat_exact(1,2)[of k] assms by simp
  then have "0 < double_of_nat k" by (rule order.strict_trans2[rotated]) simp
  then show ?thesis using True by (simp add: double_of_nat_def)
next
  case False
  note M = double_of_nat_exact[of m] and K = double_of_nat_exact[of k]
  have e: "top_bit m \<le> top_bit k"
  proof (rule ccontr)
    assume "\<not> top_bit m \<le> top_bit k"
    then have "2 ^ (top_bit k + 1) \<le> (2 ^ top_bit m :: nat)" by (intro power_increasing) auto
    then show False using top_bit_bounds[of m] top_bit_bounds[of k] assms False by linarith
  qed
  show ?thesis
  proof (cases "top_bit m = top_bit k")
    case True
    have "m * 2 ^ (52 - top_bit k) < k * 2 ^ (52 - top_bit k)" using assms by simp
    then show ?thesis using M(1) K(1) True assms False by simp
  next
    case False
    then have "(top_bit m + 1) * 2 ^ 52 \<le> top_bit k * (2 ^ 52 :: nat)" using e by (intro mult_le_mono1) simp
    then show ?thesis using M K assms \<open>m \<noteq> 0\<close> by (simp add: algebra_simps)
  qed
qed

lemma double_of_nat_bound: "m < 2 ^ 53 \<Longrightarrow> double_of_nat m < 1076 * 2 ^ 52"
proof (cases "m = 0")
  case False
  assume m: "m < 2 ^ 53"
  have "top_bit m \<le> 52" using top_bit_less[of m 53] m False by simp
  then have "(top_bit m + 1022) * 2 ^ 52 \<le> 1074 * (2 ^ 52 :: nat)" by (intro mult_le_mono1) simp
  then show ?thesis using double_of_nat_exact[of m] m False by simp
qed (simp add: double_of_nat_def)

lemma double_of_int_exact:
  assumes "\<bar>i\<bar> < 2 ^ 53"
  shows "\<not> fp_is_nan (double_of_int i)"
    "fp_key (double_of_int i) = (if i < 0 then - int (double_of_nat (nat \<bar>i\<bar>)) else int (double_of_nat (nat \<bar>i\<bar>)))"
proof -
  let ?d = "double_of_nat (nat \<bar>i\<bar>)" and ?s = "if i < 0 then 2 ^ 63 else 0 :: nat"
  have d: "?d < 1076 * 2 ^ 52" using assms by (intro double_of_nat_bound) (simp add: nat_less_iff)
  have u: "unat (double_of_int i) = ?s + ?d"
    unfolding double_of_int_def using d by (intro unat_of_nat_less) auto
  have "?s = (if i < 0 then 2 ^ 11 else 0) * 2 ^ 52" by simp
  then have "(?s + ?d) div 2 ^ 52 = (if i < 0 then 2 ^ 11 else 0) + ?d div 2 ^ 52"
    by (cases "i < 0") simp_all
  moreover have "?d div 2 ^ 52 < 1076" using d by (simp add: less_mult_imp_div_less)
  ultimately have "fp_exponent (double_of_int i) < 1076" unfolding fp_exponent_def u by auto
  then show "\<not> fp_is_nan (double_of_int i)" by (simp add: fp_is_nan_def)
  show "fp_key (double_of_int i) = (if i < 0 then - int ?d else int ?d)"
    unfolding fp_key_def u Let_def using d by (cases "i < 0") simp_all
qed

lemma double_of_int_less_iff:
  assumes "\<bar>i\<bar> < 2 ^ 53" "\<bar>j\<bar> < 2 ^ 53"
  shows "fp_key (double_of_int i) < fp_key (double_of_int j) \<longleftrightarrow> i < j"
proof -
  have mono: "fp_key (double_of_int i) < fp_key (double_of_int j)"
    if "i < j" "\<bar>i\<bar> < 2 ^ 53" "\<bar>j\<bar> < 2 ^ 53" for i j
  proof -
    have pos: "0 < double_of_nat (nat \<bar>k\<bar>)" if "k \<noteq> 0" "\<bar>k\<bar> < 2 ^ 53" for k
      using double_of_nat_less[of 0 "nat \<bar>k\<bar>"] that by (simp add: nat_less_iff double_of_nat_def)
    show ?thesis
      using that double_of_nat_less[of "nat \<bar>i\<bar>" "nat \<bar>j\<bar>"] double_of_nat_less[of "nat \<bar>j\<bar>" "nat \<bar>i\<bar>"] pos[of i]
      by (auto simp: double_of_int_exact nat_less_iff)
  qed
  from mono[of i j] mono[of j i] assms show ?thesis by (cases i j rule: linorder_cases) auto
qed

lemma double_of_int_compare:
  assumes "\<bar>i\<bar> < 2 ^ 53" "\<bar>j\<bar> < 2 ^ 53"
  shows "fp_lt (double_of_int i) (double_of_int j) \<longleftrightarrow> i < j"
    "fp_le (double_of_int i) (double_of_int j) \<longleftrightarrow> i \<le> j"
    "fp_eq (double_of_int i) (double_of_int j) \<longleftrightarrow> i = j"
proof -
  note nan = double_of_int_exact(1)[OF assms(1)] double_of_int_exact(1)[OF assms(2)]
  note less = double_of_int_less_iff[OF assms] double_of_int_less_iff[OF assms(2,1)]
  show "fp_lt (double_of_int i) (double_of_int j) \<longleftrightarrow> i < j"
    using nan less by (simp add: fp_lt_def)
  show "fp_le (double_of_int i) (double_of_int j) \<longleftrightarrow> i \<le> j"
    using nan less by (auto simp: fp_le_def not_less[symmetric])
  show "fp_eq (double_of_int i) (double_of_int j) \<longleftrightarrow> i = j"
    using nan less by (metis fp_eq_def linorder_neqE order_less_irrefl)
qed

end
