(* ===== verification/InnerColumns.thy ===== *)
theory InnerColumns
  imports TableWrite Doubles
begin

text \<open>
  \<open>InnerColumn<T>\<close> and \<open>InnerColumn<std::string>\<close> (\<open>include/inner_column.h\<close>): growing columns with a
  validity bitmap, and the comparisons of a whole column with a constant, which produce a bitmap of
  the selected rows on the filter threads. The operators of the element type are the record
  \<open>cmp_ops\<close>. The lemmas show that a comparison selects exactly the rows that are not NULL and
  satisfy it, whatever the order of the shards.
\<close>

section \<open>Comparison operators\<close>

record 'a cmp_ops =
  op_less :: "'a \<Rightarrow> 'a \<Rightarrow> bool"
  op_greater :: "'a \<Rightarrow> 'a \<Rightarrow> bool"
  op_less_equal :: "'a \<Rightarrow> 'a \<Rightarrow> bool"
  op_greater_equal :: "'a \<Rightarrow> 'a \<Rightarrow> bool"
  op_equal :: "'a \<Rightarrow> 'a \<Rightarrow> bool"
  op_not_equal :: "'a \<Rightarrow> 'a \<Rightarrow> bool"

definition signed_ops :: "('a::len word) cmp_ops" where
  "signed_ops =
     \<lparr>op_less = (\<lambda>a b. sint a < sint b), op_greater = (\<lambda>a b. sint b < sint a),
      op_less_equal = (\<lambda>a b. sint a \<le> sint b), op_greater_equal = (\<lambda>a b. sint b \<le> sint a),
      op_equal = (\<lambda>a b. a = b), op_not_equal = (\<lambda>a b. a \<noteq> b)\<rparr>"

definition double_ops :: "u64 cmp_ops" where
  "double_ops =
     \<lparr>op_less = fp_lt, op_greater = (\<lambda>a b. fp_lt b a), op_less_equal = fp_le,
      op_greater_equal = (\<lambda>a b. fp_le b a), op_equal = fp_eq, op_not_equal = (\<lambda>a b. \<not> fp_eq a b)\<rparr>"

text \<open>Strings compare by their characters as unsigned bytes, a prefix first.\<close>

fun bytes_less :: "bytes \<Rightarrow> bytes \<Rightarrow> bool" where
  "bytes_less xs [] = False"
| "bytes_less [] (y # ys) = True"
| "bytes_less (x # xs) (y # ys) = (unat x < unat y \<or> x = y \<and> bytes_less xs ys)"

definition string_ops :: "bytes cmp_ops" where
  "string_ops =
     \<lparr>op_less = bytes_less, op_greater = (\<lambda>a b. bytes_less b a), op_less_equal = (\<lambda>a b. \<not> bytes_less b a),
      op_greater_equal = (\<lambda>a b. \<not> bytes_less a b), op_equal = (\<lambda>a b. a = b), op_not_equal = (\<lambda>a b. a \<noteq> b)\<rparr>"

section \<open>Columns of numbers\<close>

record 'a inner_column =
  ic_data :: "'a list"
  ic_bitmap :: "u8 list"

definition bitmap_push_back :: "nat \<Rightarrow> bool \<Rightarrow> u8 list \<Rightarrow> u8 list res" where
  "bitmap_push_back n not_null bitmap =
     (if length bitmap < (n + 7) div 8 then Inr (bitmap @ [if not_null then 1 else 0])
      else if not_null then set_bitmap (n - 1) bitmap else unset_bitmap (n - 1) bitmap)"

definition push_back :: "'a \<Rightarrow> 'a inner_column \<Rightarrow> 'a inner_column res" where
  "push_back value c =
     (let c = c\<lparr>ic_data := ic_data c @ [value]\<rparr>
      in rbind (bitmap_push_back (length (ic_data c)) True (ic_bitmap c)) (\<lambda>bitmap. Inr (c\<lparr>ic_bitmap := bitmap\<rparr>)))"

text \<open>A NULL stores a value-initialised element, zero for the three types.\<close>

definition push_back_null :: "('a::zero) inner_column \<Rightarrow> 'a inner_column res" where
  "push_back_null c =
     (let c = c\<lparr>ic_data := ic_data c @ [0]\<rparr>
      in rbind (bitmap_push_back (length (ic_data c)) False (ic_bitmap c)) (\<lambda>bitmap. Inr (c\<lparr>ic_bitmap := bitmap\<rparr>)))"

definition bitmap_test :: "u8 list \<Rightarrow> nat \<Rightarrow> bool res" where
  "bitmap_test bitmap idx = rbind (at bitmap (idx div 8)) (\<lambda>b. Inr (b AND push_bit (idx mod 8) 1 \<noteq> 0))"

definition is_not_null :: "nat \<Rightarrow> 'a inner_column \<Rightarrow> bool res" where
  "is_not_null idx c = bitmap_test (ic_bitmap c) idx"

definition ic_get :: "nat \<Rightarrow> 'a inner_column \<Rightarrow> 'a res" where
  "ic_get idx c = at (ic_data c) idx"

text \<open>
  The static loops get pointers into the three vectors: \<open>base\<close> is the first byte of the shard,
  \<open>8 * base\<close> its first row.
\<close>

definition compare_rows ::
    "('a \<Rightarrow> bool) \<Rightarrow> 'a list \<Rightarrow> u8 list \<Rightarrow> nat \<Rightarrow> nat \<Rightarrow> u8 list \<Rightarrow> u8 list res" where
  "compare_rows test data bitmap base n =
     rfold (\<lambda>i output.
       let byte_idx = base + i div 8; bit_idx = i mod 8
       in rbind (at output byte_idx) (\<lambda>o_byte.
          rbind (at bitmap byte_idx) (\<lambda>b.
          rbind (at data (8 * base + i)) (\<lambda>v.
            Inr (output[byte_idx := o_byte OR (b AND push_bit bit_idx 1 AND push_bit bit_idx (of_bool (test v)))])))))
       [0..<n]"

definition static_less where
  "static_less ops data bitmap base n rhs = compare_rows (\<lambda>v. op_less ops v rhs) data bitmap base n"

definition static_greater where
  "static_greater ops data bitmap base n rhs = compare_rows (\<lambda>v. op_greater ops v rhs) data bitmap base n"

definition static_less_equal where
  "static_less_equal ops data bitmap base n rhs = compare_rows (\<lambda>v. op_less_equal ops v rhs) data bitmap base n"

definition static_greater_equal where
  "static_greater_equal ops data bitmap base n rhs = compare_rows (\<lambda>v. op_greater_equal ops v rhs) data bitmap base n"

definition static_equal where
  "static_equal ops data bitmap base n rhs = compare_rows (\<lambda>v. op_equal ops v rhs) data bitmap base n"

definition static_not_equal where
  "static_not_equal ops data bitmap base n rhs = compare_rows (\<lambda>v. op_not_equal ops v rhs) data bitmap base n"

text \<open>The methods run a static loop on the shards of the thread pool.\<close>

definition ic_run ::
    "nat list \<Rightarrow> ('a list \<Rightarrow> u8 list \<Rightarrow> nat \<Rightarrow> nat \<Rightarrow> 'a \<Rightarrow> u8 list \<Rightarrow> u8 list res) \<Rightarrow> 'a inner_column \<Rightarrow> 'a \<Rightarrow> u8 list res" where
  "ic_run order static c rhs =
     pool_run filter_tp_threads order (\<lambda>byte_begin byte_end.
         static (ic_data c) (ic_bitmap c) byte_begin (min (byte_end * 8) (length (ic_data c)) - byte_begin * 8) rhs)
       ((length (ic_data c) + 7) div 8) (replicate (length (ic_bitmap c)) 0)"

definition ic_less where
  "ic_less ops order = ic_run order (static_less ops)"

definition ic_greater where
  "ic_greater ops order = ic_run order (static_greater ops)"

definition ic_less_equal where
  "ic_less_equal ops order = ic_run order (static_less_equal ops)"

definition ic_greater_equal where
  "ic_greater_equal ops order = ic_run order (static_greater_equal ops)"

definition ic_equal where
  "ic_equal ops order = ic_run order (static_equal ops)"

definition ic_not_equal where
  "ic_not_equal ops order = ic_run order (static_not_equal ops)"

section \<open>Columns of strings\<close>

record string_column =
  sc_data :: bytes
  sc_offsets :: "nat list"
  sc_bitmap :: "u8 list"
  sc_row :: nat

definition sc_new :: string_column where
  "sc_new = \<lparr>sc_data = [], sc_offsets = [], sc_bitmap = [], sc_row = 0\<rparr>"

definition sc_bitmap_push_back :: "bool \<Rightarrow> string_column \<Rightarrow> string_column res" where
  "sc_bitmap_push_back not_null c =
     rbind (if length (sc_bitmap c) < sc_row c div 8 + 1 then Inr (sc_bitmap c @ [if not_null then 1 else 0])
            else if not_null then set_bitmap (sc_row c) (sc_bitmap c) else unset_bitmap (sc_row c) (sc_bitmap c))
       (\<lambda>bitmap. Inr (c\<lparr>sc_bitmap := bitmap, sc_row := sc_row c + 1\<rparr>))"

definition sc_push_back :: "bytes \<Rightarrow> string_column \<Rightarrow> string_column res" where
  "sc_push_back value c =
     (let c = c\<lparr>sc_data := sc_data c @ value\<rparr>
      in sc_bitmap_push_back True (c\<lparr>sc_offsets := sc_offsets c @ [length (sc_data c)]\<rparr>))"

definition sc_push_back_null :: "string_column \<Rightarrow> string_column res" where
  "sc_push_back_null c = sc_bitmap_push_back False (c\<lparr>sc_offsets := sc_offsets c @ [length (sc_data c)]\<rparr>)"

definition sc_is_not_null :: "nat \<Rightarrow> string_column \<Rightarrow> bool res" where
  "sc_is_not_null idx c = bitmap_test (sc_bitmap c) idx"

definition string_view :: "bytes \<Rightarrow> nat \<Rightarrow> nat \<Rightarrow> bytes res" where
  "string_view data begin_i end_i =
     (if begin_i \<le> end_i \<and> end_i \<le> length data then Inr (take (end_i - begin_i) (drop begin_i data)) else Inl Undefined)"

definition sc_get :: "nat \<Rightarrow> string_column \<Rightarrow> bytes res" where
  "sc_get idx c =
     rbind (if idx = 0 then Inr 0 else at (sc_offsets c) (idx - 1)) (\<lambda>begin_i.
     rbind (at (sc_offsets c) idx) (\<lambda>end_i. string_view (sc_data c) begin_i end_i))"

definition sc_run :: "nat list \<Rightarrow> (bytes \<Rightarrow> bool) \<Rightarrow> string_column \<Rightarrow> u8 list res" where
  "sc_run order test c =
     pool_run filter_tp_threads order (\<lambda>byte_begin byte_end.
         rfold (\<lambda>byte_idx.
           rfold (\<lambda>bit_idx ret.
             rbind (at (sc_bitmap c) byte_idx) (\<lambda>b.
             let non_null = b AND push_bit bit_idx 1 \<noteq> 0
             in rbind (sc_get (byte_idx * 8 + bit_idx) c) (\<lambda>value.
                rbind (at ret byte_idx) (\<lambda>r.
                  Inr (ret[byte_idx := r OR push_bit bit_idx (of_bool (non_null \<and> test value))])))))
             (takeWhile (\<lambda>bit_idx. \<not> sc_row c \<le> byte_idx * 8 + bit_idx) [0..<8]))
           [byte_begin..<byte_end])
       ((sc_row c + 7) div 8) (replicate (length (sc_bitmap c)) 0)"

definition sc_less where
  "sc_less order c rhs = sc_run order (\<lambda>value. op_less string_ops value rhs) c"

definition sc_greater where
  "sc_greater order c rhs = sc_run order (\<lambda>value. op_greater string_ops value rhs) c"

definition sc_less_equal where
  "sc_less_equal order c rhs = sc_run order (\<lambda>value. op_less_equal string_ops value rhs) c"

definition sc_greater_equal where
  "sc_greater_equal order c rhs = sc_run order (\<lambda>value. op_greater_equal string_ops value rhs) c"

definition sc_equal where
  "sc_equal order c rhs = sc_run order (\<lambda>value. op_equal string_ops value rhs) c"

definition sc_not_equal where
  "sc_not_equal order c rhs = sc_run order (\<lambda>value. op_not_equal string_ops value rhs) c"

text \<open>\<open>like_match\<close> is an argument; \<open>Filters\<close> gives it.\<close>

definition sc_like where
  "sc_like like_match order c rhs = sc_run order (\<lambda>value. like_match value rhs) c"

definition sc_not_like where
  "sc_not_like like_match order c rhs = sc_run order (\<lambda>value. \<not> like_match value rhs) c"

section \<open>Bitmaps of rows\<close>

definition bitmap_rep :: "u8 list \<Rightarrow> bool list \<Rightarrow> bool" where
  "bitmap_rep bm vs \<longleftrightarrow>
     length bm = (length vs + 7) div 8 \<and> (\<forall>i < length vs. get_bitmap (\<lambda>k. bm ! k) i \<longleftrightarrow> vs ! i)"

lemma bitmap_repD:
  assumes "bitmap_rep bm vs"
  shows "length bm = (length vs + 7) div 8" "\<And>i. i < length vs \<Longrightarrow> get_bitmap (\<lambda>k. bm ! k) i \<longleftrightarrow> vs ! i"
    "\<And>i. i < length vs \<Longrightarrow> bitmap_test bm i = Inr (vs ! i)"
proof -
  show len: "length bm = (length vs + 7) div 8" and bits: "\<And>i. i < length vs \<Longrightarrow> get_bitmap (\<lambda>k. bm ! k) i \<longleftrightarrow> vs ! i"
    using assms by (auto simp: bitmap_rep_def)
  show "bitmap_test bm i = Inr (vs ! i)" if "i < length vs" for i
    using that bits[OF that] len unfolding get_bitmap_bit bitmap_test_def by (subst and_push_one) simp_all
qed

lemma bitmap_push_back_correct:
  assumes "bitmap_rep bm vs"
  shows "\<exists>bm'. bitmap_push_back (Suc (length vs)) b bm = Inr bm' \<and> bitmap_rep bm' (vs @ [b])"
proof (cases "length bm < (Suc (length vs) + 7) div 8")
  case True
  note R = bitmap_repD[OF assms]
  let ?n = "length vs" and ?bm = "bm @ [if b then 1 else 0]"
  have len: "length bm = (?n + 7) div 8" using R(1) by simp
  have "(?n + 7) div 8 < (Suc ?n + 7) div 8" using True unfolding len .
  then have "?n mod 8 = 0" by presburger
  then obtain q where q: "?n = 8 * q" by auto
  have n: "length bm = q" "?n = 8 * q" using len unfolding q by simp_all
  have "get_bitmap (\<lambda>k. ?bm ! k) i \<longleftrightarrow> (vs @ [b]) ! i" if "i < Suc ?n" for i
  proof (cases "i = ?n")
    case True
    have "get_bitmap (\<lambda>k. ?bm ! k) ?n = bit (if b then 1 else 0 :: u8) 0"
      unfolding get_bitmap_bit n(2) using n(1) by (simp add: nth_append)
    then show ?thesis using True by (simp add: bit_1_iff)
  next
    case False
    then have "i < ?n" using that by simp
    moreover from this have "i div 8 < length bm" using n by simp
    ultimately show ?thesis using R(2)[of i] by (simp add: get_bitmap_bit nth_append)
  qed
  moreover have "length ?bm = (Suc ?n + 7) div 8" using n by simp
  ultimately show ?thesis using True by (simp add: bitmap_push_back_def bitmap_rep_def)
next
  case False
  note R = bitmap_repD[OF assms]
  let ?n = "length vs"
  have i: "?n div 8 < length bm" and len: "length bm = (Suc ?n + 7) div 8" using False R(1) by auto
  obtain bm' where bm': "(if b then set_bitmap ?n bm else unset_bitmap ?n bm) = Inr bm'"
    using i by (cases b) (simp_all add: set_bitmap_def unset_bitmap_def)
  then have "length bm' = length bm" "get_bitmap (\<lambda>k. bm' ! k) j \<longleftrightarrow> (if j = ?n then b else get_bitmap (\<lambda>k. bm ! k) j)" for j
    using bitmap_bits_set[of ?n bm bm'] bitmap_bits_unset[of ?n bm bm'] by (auto split: if_splits)
  moreover have "bitmap_push_back (Suc ?n) b bm = Inr bm'" using False bm' by (simp only: bitmap_push_back_def if_False diff_Suc_1)
  ultimately show ?thesis
    using R(2) len by (intro exI[of _ bm']) (auto simp: bitmap_rep_def nth_append less_Suc_eq)
qed

lemma sc_bitmap_push_back_eq:
  "sc_bitmap_push_back b c =
     rbind (bitmap_push_back (Suc (sc_row c)) b (sc_bitmap c)) (\<lambda>bm. Inr (c\<lparr>sc_bitmap := bm, sc_row := Suc (sc_row c)\<rparr>))"
proof -
  have "(Suc (sc_row c) + 7) div 8 = sc_row c div 8 + 1" by presburger
  then show ?thesis by (simp only: sc_bitmap_push_back_def bitmap_push_back_def diff_Suc_1) simp
qed

section \<open>What a column stores\<close>

definition ic_rep :: "'a inner_column \<Rightarrow> 'a option list \<Rightarrow> bool" where
  "ic_rep c rows \<longleftrightarrow>
     length (ic_data c) = length rows \<and> bitmap_rep (ic_bitmap c) (map (\<lambda>r. r \<noteq> None) rows) \<and>
     (\<forall>i < length rows. \<forall>v. rows ! i = Some v \<longrightarrow> ic_data c ! i = v)"

lemma push_back_correct:
  "ic_rep c rows \<Longrightarrow> \<exists>c'. push_back v c = Inr c' \<and> ic_rep c' (rows @ [Some v])"
  using bitmap_push_back_correct[of "ic_bitmap c" "map (\<lambda>r. r \<noteq> None) rows" True]
  by (fastforce simp: push_back_def ic_rep_def nth_append less_Suc_eq)

lemma push_back_null_correct:
  "ic_rep c rows \<Longrightarrow> \<exists>c'. push_back_null c = Inr c' \<and> ic_rep c' (rows @ [None])"
  using bitmap_push_back_correct[of "ic_bitmap c" "map (\<lambda>r. r \<noteq> None) rows" False]
  by (fastforce simp: push_back_null_def ic_rep_def nth_append less_Suc_eq)

definition string_of :: "bytes option \<Rightarrow> bytes" where
  "string_of r = (case r of None \<Rightarrow> [] | Some s \<Rightarrow> s)"

lemma string_of_simps [simp]: "string_of None = []" "string_of (Some s) = s"
  by (simp_all add: string_of_def)

definition sc_rep :: "string_column \<Rightarrow> bytes option list \<Rightarrow> bool" where
  "sc_rep c rows \<longleftrightarrow>
     sc_row c = length rows \<and> bitmap_rep (sc_bitmap c) (map (\<lambda>r. r \<noteq> None) rows) \<and>
     sc_data c = concat (map string_of rows) \<and>
     sc_offsets c = map (\<lambda>k. string_end (map string_of rows) (Suc k)) [0..<length rows]"

lemma string_end_snoc:
  "map (\<lambda>k. string_end (strs @ [s]) (Suc k)) [0..<Suc (length strs)] =
   map (\<lambda>k. string_end strs (Suc k)) [0..<length strs] @ [length (concat strs) + length s]"
  by (simp add: string_end_def)

lemma sc_push_back_correct:
  assumes "sc_rep c rows"
  shows "\<exists>c'. sc_push_back v c = Inr c' \<and> sc_rep c' (rows @ [Some v])"
  using assms bitmap_push_back_correct[of "sc_bitmap c" "map (\<lambda>r. r \<noteq> None) rows" True]
    string_end_snoc[of "map string_of rows" v]
  by (auto simp: sc_push_back_def sc_rep_def sc_bitmap_push_back_eq simp del: upt_Suc)

lemma sc_push_back_null_correct:
  assumes "sc_rep c rows"
  shows "\<exists>c'. sc_push_back_null c = Inr c' \<and> sc_rep c' (rows @ [None])"
  using assms bitmap_push_back_correct[of "sc_bitmap c" "map (\<lambda>r. r \<noteq> None) rows" False]
    string_end_snoc[of "map string_of rows" "[]"]
  by (auto simp: sc_push_back_null_def sc_rep_def sc_bitmap_push_back_eq simp del: upt_Suc)

lemma sc_get_correct:
  assumes rep: "sc_rep c rows" and i: "i < length rows"
  shows "sc_get i c = Inr (string_of (rows ! i))"
proof -
  let ?strs = "map string_of rows"
  have start: "(if i = 0 then Inr 0 else at (sc_offsets c) (i - 1)) = Inr (string_end ?strs i)"
    using rep i by (cases i) (simp_all add: sc_rep_def)
  have fin: "at (sc_offsets c) i = Inr (string_end ?strs (Suc i))"
    using rep i by (simp add: sc_rep_def)
  have "string_end ?strs (Suc i) = string_end ?strs i + length (string_of (rows ! i))"
    using string_end_Suc[of i ?strs] i by simp
  moreover have "string_end ?strs (Suc i) \<le> length (concat ?strs)" by (rule string_end_le)
  ultimately show ?thesis
    using string_slice[of i ?strs] rep i unfolding sc_get_def start fin rbind_simps
    by (simp add: string_view_def sc_rep_def)
qed

section \<open>Selecting rows on the filter threads\<close>

definition or_bit :: "nat \<Rightarrow> bool \<Rightarrow> u8 list \<Rightarrow> u8 list" where
  "or_bit i v out = out[i div 8 := out ! (i div 8) OR push_bit (i mod 8) (of_bool v)]"

lemma length_or_bit [simp, layout]: "length (or_bit i v out) = length out"
  by (simp add: or_bit_def)

lemma length_fold_or_bit [simp, layout]: "length (fold (\<lambda>i. or_bit i (p i)) js out) = length out"
  by (induction js arbitrary: out) auto

lemma or_bit_commute: "or_bit i u (or_bit j v out) = or_bit j v (or_bit i u out)"
proof (cases "i div 8 = j div 8")
  case True
  then show ?thesis
    by (cases "j div 8 < length out") (simp_all add: or_bit_def ac_simps list_update_beyond)
next
  case False
  then show ?thesis by (simp add: or_bit_def list_update_swap)
qed

lemma get_or_bit:
  assumes "i div 8 < length out"
  shows "get_bitmap (\<lambda>k. or_bit i v out ! k) j \<longleftrightarrow> get_bitmap (\<lambda>k. out ! k) j \<or> j = i \<and> v"
proof -
  have eq: "j = i \<longleftrightarrow> j div 8 = i div 8 \<and> j mod 8 = i mod 8" by (metis div_mult_mod_eq)
  show ?thesis
    unfolding get_bitmap_bit or_bit_def using assms eq
    by (cases "j div 8 = i div 8"; cases v) (auto simp: u8_set_bit simp del: push_bit_of_1)
qed

lemma get_fold_or_bit:
  assumes "n \<le> 8 * m" and that: "j < 8 * m"
  shows "get_bitmap (\<lambda>k. fold (\<lambda>i. or_bit i (p i)) [0..<n] (replicate m 0) ! k) j \<longleftrightarrow> j < n \<and> p j"
  using assms(1)
proof (induction n)
  case 0
  then show ?case using that by (simp add: get_bitmap_bit)
next
  case (Suc n)
  then have "n div 8 < length (fold (\<lambda>i. or_bit i (p i)) [0..<n] (replicate m 0))" by simp
  from get_or_bit[OF this] Suc show ?case by (auto simp: less_Suc_eq)
qed

lemma shard_rows:
  "b \<le> e \<Longrightarrow> concat (map (\<lambda>k. [8 * k..<min (8 * k + 8) n]) [b..<e]) = [8 * b..<min (8 * e) n]"
proof (induction e)
  case (Suc e)
  show ?case
  proof (cases "b = Suc e")
    case False
    then have "concat (map (\<lambda>k. [8 * k..<min (8 * k + 8) n]) [b..<Suc e]) = [8 * b..<min (8 * e) n] @ [8 * e..<min (8 * e + 8) n]"
      using Suc by simp
    also have "\<dots> = [8 * b..<min (8 * Suc e) n]"
    proof (cases "8 * e \<le> n")
      case True
      then have "8 * b \<le> 8 * e" "min (8 * e + 8) n = 8 * e + (min (8 * e + 8) n - 8 * e)" using Suc.prems False by auto
      then have "[8 * b..<min (8 * e + 8) n] = [8 * b..<8 * e] @ [8 * e..<min (8 * e + 8) n]"
        by (metis upt_add_eq_append)
      then show ?thesis using True by (simp add: add.commute)
    qed (simp add: min_def)
    finally show ?thesis .
  qed simp
qed simp

text \<open>A run in which each row of a shard adds its bit selects the rows that satisfy \<open>p\<close>.\<close>

lemma pool_select:
  assumes order: "pool_order filter_tp_threads order"
    and f: "\<And>b e out. e \<le> (n + 7) div 8 \<Longrightarrow> length out = (n + 7) div 8 \<Longrightarrow>
      f b e out = Inr (fold (\<lambda>i. or_bit i (p i)) [8 * b..<min (8 * e) n] out)"
  shows "\<exists>bm. pool_run filter_tp_threads order f ((n + 7) div 8) (replicate ((n + 7) div 8) 0) = Inr bm \<and>
    bitmap_rep bm (map p [0..<n])"
proof -
  let ?m = "(n + 7) div 8"
  let ?g = "\<lambda>k. fold (\<lambda>i. or_bit i (p i)) [8 * k..<min (8 * k + 8) n]"
  have folds: "fold ?g [b..<e] out = fold (\<lambda>i. or_bit i (p i)) [8 * b..<min (8 * e) n] out" for b e out
  proof (cases "b \<le> e")
    case True
    have "fold ?g ks out = fold (\<lambda>i. or_bit i (p i)) (concat (map (\<lambda>k. [8 * k..<min (8 * k + 8) n]) ks)) out" for ks
      by (induction ks arbitrary: out) auto
    then show ?thesis by (simp only: shard_rows[OF True])
  qed simp
  have "pool_run filter_tp_threads order f ?m (replicate ?m 0) = Inr (fold ?g [0..<?m] (replicate ?m 0))"
  proof (rule pool_run_tasks[OF order filter_tp_threads_pos, where P = "\<lambda>out. length out = ?m"])
    show "f b e out = Inr (fold ?g [b..<e] out) \<and> length (fold ?g [b..<e] out) = ?m"
      if "length out = ?m" "e \<le> ?m" for b e out
      using f[OF that(2,1)] that(1) by (simp only: folds length_fold_or_bit)
    have swap: "fold (\<lambda>i. or_bit i (p i)) js \<circ> or_bit j (p j) = or_bit j (p j) \<circ> fold (\<lambda>i. or_bit i (p i)) js" for js j
      by (rule fold_commute[symmetric]) (simp add: fun_eq_iff or_bit_commute)
    show "?g i \<circ> ?g j = ?g j \<circ> ?g i" for i j
      by (rule fold_commute) (rule swap)
  qed simp
  moreover have "fold ?g [0..<?m] (replicate ?m 0) = fold (\<lambda>i. or_bit i (p i)) [0..<n] (replicate ?m 0)"
    unfolding folds by simp
  moreover have "bitmap_rep (fold (\<lambda>i. or_bit i (p i)) [0..<n] (replicate ?m 0)) (map p [0..<n])"
    unfolding bitmap_rep_def by (auto simp: get_fold_or_bit)
  ultimately show ?thesis by simp
qed

text \<open>A comparison of a column of numbers.\<close>

definition selected :: "('a \<Rightarrow> bool) \<Rightarrow> 'a option \<Rightarrow> bool" where
  "selected test r = (case r of None \<Rightarrow> False | Some v \<Rightarrow> test v)"

lemma selected_simps [simp]: "selected test None = False" "selected test (Some v) = test v"
  by (simp_all add: selected_def)

lemma upt_shift: "map (\<lambda>i. a + i) [0..<n - a] = [a..<n]"
proof -
  have "map (\<lambda>i. a + i) [0..<m] = [a..<a + m]" for m by (induction m) auto
  then show ?thesis by (cases "a \<le> n") simp_all
qed

lemma masked_bit:
  assumes "j < 8"
  shows "(b :: u8) AND push_bit j 1 AND push_bit j (of_bool t) = push_bit j (of_bool (bit b j \<and> t))"
proof (rule word_eq_bitsI)
  fix i
  show "bit (b AND push_bit j 1 AND push_bit j (of_bool t)) i = bit (push_bit j (of_bool (bit b j \<and> t)) :: u8) i"
    using assms by (cases t; cases "bit b j") (auto simp: bit_and_iff bit_push_one simp del: push_bit_of_1)
qed

lemma compare_rows_correct:
  assumes rep: "ic_rep c rows" and e: "e \<le> (length rows + 7) div 8" and out: "length out = (length rows + 7) div 8"
  shows "compare_rows test (ic_data c) (ic_bitmap c) b (min (e * 8) (length rows) - b * 8) out =
    Inr (fold (\<lambda>i. or_bit i (selected test (rows ! i))) [8 * b..<min (8 * e) (length rows)] out)"
proof -
  let ?n = "length rows" and ?m = "(length rows + 7) div 8"
  let ?hi = "min (8 * e) ?n"
  have bm: "length (ic_bitmap c) = ?m" "\<And>i. i < ?n \<Longrightarrow> bit (ic_bitmap c ! (i div 8)) (i mod 8) \<longleftrightarrow> rows ! i \<noteq> None"
    using rep bitmap_repD[of "ic_bitmap c"] by (auto simp: ic_rep_def get_bitmap_bit)
  have shift: "[8 * b..<?hi] = map (\<lambda>i. 8 * b + i) [0..<?hi - 8 * b]"
    by (simp only: upt_shift)
  let ?step = "\<lambda>i output. let byte_idx = b + i div 8; bit_idx = i mod 8
       in rbind (at output byte_idx) (\<lambda>o_byte. rbind (at (ic_bitmap c) byte_idx) (\<lambda>bt. rbind (at (ic_data c) (8 * b + i)) (\<lambda>v.
            Inr (output[byte_idx := o_byte OR (bt AND push_bit bit_idx 1 AND push_bit bit_idx (of_bool (test v)))]))))"
  let ?g = "\<lambda>i. or_bit (8 * b + i) (selected test (rows ! (8 * b + i)))"
  have "rfold ?step [0..<?hi - 8 * b] out = Inr (fold ?g [0..<?hi - 8 * b] out) \<and> length (fold ?g [0..<?hi - 8 * b] out) = ?m"
    using out
  proof (rule rfold_pure_invariant[rotated])
    fix i and out :: "u8 list" assume i: "i \<in> set [0..<?hi - 8 * b]" and out: "length out = ?m"
    let ?j = "8 * b + i"
    have j: "?j < ?n" "?j div 8 = b + i div 8" "?j mod 8 = i mod 8" "b + i div 8 < ?m" using i by auto
    have v: "ic_data c ! ?j = v" if "rows ! ?j = Some v" for v using rep j(1) that by (auto simp: ic_rep_def)
    have "bit (ic_bitmap c ! (b + i div 8)) (i mod 8) \<and> test (ic_data c ! ?j) \<longleftrightarrow> selected test (rows ! ?j)"
      using bm(2)[OF j(1)] v unfolding j(2,3) by (cases "rows ! ?j") auto
    moreover have "?j < length (ic_data c)" using rep j(1) by (simp add: ic_rep_def)
    moreover have "ic_bitmap c ! (b + i div 8) AND push_bit (i mod 8) 1 AND push_bit (i mod 8) (of_bool (test (ic_data c ! ?j))) =
        push_bit (i mod 8) (of_bool (bit (ic_bitmap c ! (b + i div 8)) (i mod 8) \<and> test (ic_data c ! ?j)))"
      by (rule masked_bit) simp
    ultimately have "?step i out = Inr (?g i out)"
      using j bm(1) out by (simp only: Let_def at_simps rbind_simps or_bit_def)
    with out show "?step i out = Inr (?g i out) \<and> length (?g i out) = ?m" by (simp only: length_or_bit simp_thms)
  qed
  moreover have "fold ?g xs out = fold (\<lambda>i. or_bit i (selected test (rows ! i))) (map (\<lambda>i. 8 * b + i) xs) out" for xs
    by (induction xs arbitrary: out) auto
  ultimately show ?thesis unfolding shift compare_rows_def by (simp add: mult.commute)
qed

lemma ic_run_correct:
  assumes rep: "ic_rep c rows" and order: "pool_order filter_tp_threads order"
    and body: "\<And>data bitmap base n out. body data bitmap base n rhs out = compare_rows test data bitmap base n out"
  shows "\<exists>bm. ic_run order body c rhs = Inr bm \<and> bitmap_rep bm (map (selected test) rows)"
proof -
  have len: "length (ic_data c) = length rows" "length (ic_bitmap c) = (length rows + 7) div 8"
    using rep bitmap_repD(1)[of "ic_bitmap c"] by (auto simp: ic_rep_def)
  have "map (\<lambda>i. selected test (rows ! i)) [0..<length rows] = map (selected test) rows"
    by (intro nth_equalityI) simp_all
  moreover have "\<exists>bm. ic_run order body c rhs = Inr bm \<and> bitmap_rep bm (map (\<lambda>i. selected test (rows ! i)) [0..<length rows])"
    unfolding ic_run_def len body using compare_rows_correct[OF rep] by (intro pool_select[OF order]) blast
  ultimately show ?thesis by simp
qed

lemma ic_compare_correct:
  assumes "ic_rep c rows" "pool_order filter_tp_threads order"
  shows "\<exists>bm. ic_less ops order c rhs = Inr bm \<and> bitmap_rep bm (map (selected (\<lambda>v. op_less ops v rhs)) rows)"
    "\<exists>bm. ic_greater ops order c rhs = Inr bm \<and> bitmap_rep bm (map (selected (\<lambda>v. op_greater ops v rhs)) rows)"
    "\<exists>bm. ic_less_equal ops order c rhs = Inr bm \<and> bitmap_rep bm (map (selected (\<lambda>v. op_less_equal ops v rhs)) rows)"
    "\<exists>bm. ic_greater_equal ops order c rhs = Inr bm \<and> bitmap_rep bm (map (selected (\<lambda>v. op_greater_equal ops v rhs)) rows)"
    "\<exists>bm. ic_equal ops order c rhs = Inr bm \<and> bitmap_rep bm (map (selected (\<lambda>v. op_equal ops v rhs)) rows)"
    "\<exists>bm. ic_not_equal ops order c rhs = Inr bm \<and> bitmap_rep bm (map (selected (\<lambda>v. op_not_equal ops v rhs)) rows)"
  unfolding ic_less_def ic_greater_def ic_less_equal_def ic_greater_equal_def ic_equal_def ic_not_equal_def
  by (rule ic_run_correct[OF assms],
      simp add: static_less_def static_greater_def static_less_equal_def static_greater_equal_def static_equal_def static_not_equal_def)+

text \<open>A comparison of a column of strings.\<close>

lemma row_bits:
  "takeWhile (\<lambda>bit_idx. \<not> n \<le> k * 8 + bit_idx) [0..<8] = [0..<min 8 (n - k * 8)]"
proof -
  have "takeWhile (\<lambda>j. j < m) [0..<t] = [0..<min t m]" for m t :: nat
  proof (induction t)
    case (Suc t)
    consider "t < m" | "t = m" | "m < t" by linarith
    then show ?case using Suc by cases (auto simp: takeWhile_append)
  qed simp
  moreover have "(\<lambda>bit_idx. \<not> n \<le> k * 8 + bit_idx) = (\<lambda>j. j < n - k * 8)" by (auto simp: fun_eq_iff)
  ultimately show ?thesis by simp
qed

lemma sc_run_correct:
  assumes rep: "sc_rep c rows" and order: "pool_order filter_tp_threads order"
  shows "\<exists>bm. sc_run order test c = Inr bm \<and> bitmap_rep bm (map (selected test) rows)"
proof -
  let ?n = "length rows" and ?m = "(length rows + 7) div 8"
  let ?p = "\<lambda>i. selected test (rows ! i)"
  have bm: "length (sc_bitmap c) = ?m" "\<And>i. i < ?n \<Longrightarrow> bit (sc_bitmap c ! (i div 8)) (i mod 8) \<longleftrightarrow> rows ! i \<noteq> None"
    using rep bitmap_repD[of "sc_bitmap c"] by (auto simp: sc_rep_def get_bitmap_bit)
  have row: "sc_row c = ?n" using rep by (simp add: sc_rep_def)
  let ?step = "\<lambda>byte_idx bit_idx ret.
             rbind (at (sc_bitmap c) byte_idx) (\<lambda>b.
             let non_null = b AND push_bit bit_idx 1 \<noteq> 0
             in rbind (sc_get (byte_idx * 8 + bit_idx) c) (\<lambda>value.
                rbind (at ret byte_idx) (\<lambda>r.
                  Inr (ret[byte_idx := r OR push_bit bit_idx (of_bool (non_null \<and> test value))]))))"
  have step: "?step k j out = Inr (or_bit (8 * k + j) (?p (8 * k + j)) out)"
    if "8 * k + j < ?n" "j < 8" "length out = ?m" for k j out
  proof -
    let ?i = "8 * k + j"
    have i: "?i div 8 = k" "?i mod 8 = j" "k < ?m" using that by auto
    have "(sc_bitmap c ! k AND push_bit j 1 \<noteq> 0) \<longleftrightarrow> rows ! ?i \<noteq> None"
      using bm(2)[OF that(1)] that(2) unfolding i by (subst and_push_one) simp_all
    then have sel: "(sc_bitmap c ! k AND push_bit j 1 \<noteq> 0 \<and> test (string_of (rows ! ?i))) = ?p ?i"
      by (cases "rows ! ?i") simp_all
    have get: "sc_get (k * 8 + j) c = Inr (string_of (rows ! ?i))"
      using sc_get_correct[OF rep that(1)] by (simp add: mult.commute)
    show ?thesis
      unfolding get rbind_simps at_simps[of k "sc_bitmap c", unfolded bm(1), OF i(3)] at_simps[of k out, unfolded that(3), OF i(3)]
        Let_def sel or_bit_def i ..
  qed
  have "\<exists>bm. pool_run filter_tp_threads order (\<lambda>byte_begin byte_end.
         rfold (\<lambda>byte_idx. rfold (?step byte_idx) (takeWhile (\<lambda>bit_idx. \<not> ?n \<le> byte_idx * 8 + bit_idx) [0..<8])) [byte_begin..<byte_end])
       ?m (replicate ?m 0) = Inr bm \<and> bitmap_rep bm (map ?p [0..<?n])"
  proof (rule pool_select[OF order])
    fix b e out assume e: "e \<le> ?m" and out: "length (out :: u8 list) = ?m"
    let ?byte = "\<lambda>k. fold (\<lambda>i. or_bit i (?p i)) [8 * k..<min (8 * k + 8) ?n]"
    have inner: "rfold (?step k) [0..<min 8 (?n - k * 8)] out = Inr (?byte k out) \<and> length (?byte k out) = ?m"
      if "k \<in> set [b..<e]" "length out = ?m" for k out
    proof -
      let ?g = "\<lambda>j. or_bit (8 * k + j) (?p (8 * k + j))"
      have "rfold (?step k) [0..<min 8 (?n - k * 8)] out = Inr (fold ?g [0..<min 8 (?n - k * 8)] out) \<and>
          length (fold ?g [0..<min 8 (?n - k * 8)] out) = ?m"
        using that(2)
      proof (rule rfold_pure_invariant[rotated])
        show "?step k j out = Inr (?g j out) \<and> length (?g j out) = ?m"
          if "j \<in> set [0..<min 8 (?n - k * 8)]" "length out = ?m" for j out
          using that by (intro conjI step) (auto simp: length_or_bit)
      qed
      moreover have "fold ?g js out = fold (\<lambda>i. or_bit i (?p i)) (map (\<lambda>j. 8 * k + j) js) out" for js
        by (induction js arbitrary: out) auto
      moreover have "map (\<lambda>j. 8 * k + j) [0..<min 8 (?n - k * 8)] = [8 * k..<min (8 * k + 8) ?n]"
      proof -
        have "min (8 * k + 8) ?n - 8 * k = min 8 (?n - k * 8)" by auto
        then show ?thesis using upt_shift[of "8 * k" "min (8 * k + 8) ?n"] by simp
      qed
      ultimately show ?thesis by simp
    qed
    have "rfold (\<lambda>k. rfold (?step k) [0..<min 8 (?n - k * 8)]) [b..<e] out = Inr (fold ?byte [b..<e] out) \<and>
        length (fold ?byte [b..<e] out) = ?m"
      using out
    proof (rule rfold_pure_invariant[rotated])
      show "rfold (?step k) [0..<min 8 (?n - k * 8)] out = Inr (?byte k out) \<and> length (?byte k out) = ?m"
        if "k \<in> set [b..<e]" "length out = ?m" for k out
        using that by (rule inner)
    qed
    moreover have "fold ?byte [b..<e] out = fold (\<lambda>i. or_bit i (?p i)) [8 * b..<min (8 * e) ?n] out"
    proof (cases "b \<le> e")
      case True
      have "fold ?byte ks out = fold (\<lambda>i. or_bit i (?p i)) (concat (map (\<lambda>k. [8 * k..<min (8 * k + 8) ?n]) ks)) out" for ks
        by (induction ks arbitrary: out) auto
      then show ?thesis by (simp only: shard_rows[OF True])
    qed simp
    ultimately show "rfold (\<lambda>byte_idx. rfold (?step byte_idx) (takeWhile (\<lambda>bit_idx. \<not> ?n \<le> byte_idx * 8 + bit_idx) [0..<8])) [b..<e] out =
        Inr (fold (\<lambda>i. or_bit i (?p i)) [8 * b..<min (8 * e) ?n] out)"
      by (simp only: row_bits)
  qed
  moreover have "map ?p [0..<?n] = map (selected test) rows" by (intro nth_equalityI) simp_all
  ultimately show ?thesis unfolding sc_run_def row bm(1) by simp
qed

end
