(* ===== verification/Filters.thy ===== *)
theory Filters
  imports InnerColumns
begin

text \<open>
  Filter statements (\<open>include/statement.h\<close>, \<open>src/statement.cpp\<close>) and the inner tables they run on
  (\<open>InnerTable\<close>, \<open>add_record\<close> of \<open>Table::from_csv\<close>). A statement is evaluated in two ways: on a
  record of variants, and on whole columns, where it yields a bitmap. RE2 is a parameter. The main
  result is that both evaluations agree; the hypotheses exclude literals that the column path
  truncates and 64-bit integers that the record path rounds. A second result says what the column
  path does with the literals it truncates.
\<close>

section \<open>Statements\<close>

datatype literal = L_int64 u64 | L_fp64 u64 | L_string bytes | L_null

datatype comparison_op = EQ | NEQ | LT | GT | LEQ | GEQ | LIKE | NOT_LIKE | IS_NULL | IS_NOT_NULL

datatype logical_type = L_AND | L_OR | L_NOT

datatype statement =
    Comparison nat comparison_op literal
  | LogicalOperation logical_type "statement list"

definition makeAnd :: "statement \<Rightarrow> statement \<Rightarrow> statement" where
  "makeAnd l r = LogicalOperation L_AND [l, r]"

definition makeOr :: "statement \<Rightarrow> statement \<Rightarrow> statement" where
  "makeOr l r = LogicalOperation L_OR [l, r]"

definition makeNot :: "statement \<Rightarrow> statement" where
  "makeNot child = LogicalOperation L_NOT [child]"

section \<open>LIKE\<close>

text \<open>RE2 as documented: whether a regular expression compiles, and whether it matches a whole text.\<close>

record re2 =
  re2_ok :: "bytes \<Rightarrow> bool"
  re2_full_match :: "bytes \<Rightarrow> bytes \<Rightarrow> bool"

text \<open>The characters of a pattern, in ASCII: \<open>%\<close> is 37, \<open>_\<close> 95, \<open>.\<close> 46, \<open>*\<close> 42, \<open>\\<close> 92.\<close>

definition special_chars :: "u8 list" where
  "special_chars = [92, 46, 94, 36, 124, 63, 42, 43, 40, 41, 91, 93, 123, 125]"

definition regex_char :: "u8 \<Rightarrow> bytes" where
  "regex_char c =
     (if c = 37 then [46, 42]
      else if c = 95 then [46]
      else (if c \<in> set special_chars then [92] else []) @ [c])"

definition like_regex :: "bytes \<Rightarrow> bytes" where
  "like_regex pattern = fold (\<lambda>c regex_str. regex_str @ regex_char c) pattern []"

definition like_match :: "re2 \<Rightarrow> bytes \<Rightarrow> bytes \<Rightarrow> (bytes \<rightharpoonup> bytes) \<Rightarrow> bool \<times> (bytes \<rightharpoonup> bytes)" where
  "like_match re str pattern regex_cache =
     (case regex_cache pattern of
        Some regex \<Rightarrow> (re2_full_match re str regex, regex_cache)
      | None \<Rightarrow>
          let regex_str = like_regex pattern
          in if \<not> re2_ok re regex_str then (False, regex_cache)
             else (re2_full_match re str regex_str, regex_cache(pattern \<mapsto> regex_str)))"

text \<open>A worker thread starts with an empty cache; \<open>like_cache_transparent\<close> shows that it does not matter.\<close>

definition like_result :: "re2 \<Rightarrow> bytes \<Rightarrow> bytes \<Rightarrow> bool" where
  "like_result re str pattern = fst (like_match re str pattern Map.empty)"

section \<open>Evaluation on a record\<close>

definition numeric_data :: "data \<Rightarrow> u64 option" where
  "numeric_data d =
     (case d of D_int32 i \<Rightarrow> Some (double_of_int (sint i)) | D_int64 i \<Rightarrow> Some (double_of_int (sint i))
      | D_fp64 x \<Rightarrow> Some x | _ \<Rightarrow> None)"

definition numeric_literal :: "literal \<Rightarrow> u64 option" where
  "numeric_literal v =
     (case v of L_int64 i \<Rightarrow> Some (double_of_int (sint i)) | L_fp64 x \<Rightarrow> Some x | _ \<Rightarrow> None)"

definition compare_with :: "'a cmp_ops \<Rightarrow> comparison_op \<Rightarrow> 'a \<Rightarrow> 'a \<Rightarrow> bool" where
  "compare_with ops op a b =
     (case op of
        EQ \<Rightarrow> op_equal ops a b | NEQ \<Rightarrow> op_not_equal ops a b
      | LT \<Rightarrow> op_less ops a b | GT \<Rightarrow> op_greater ops a b
      | LEQ \<Rightarrow> op_less_equal ops a b | GEQ \<Rightarrow> op_greater_equal ops a b
      | _ \<Rightarrow> False)"

definition compare_data :: "re2 \<Rightarrow> comparison_op \<Rightarrow> literal \<Rightarrow> data \<Rightarrow> bool" where
  "compare_data re op v d =
     (if op = IS_NULL then d = D_null
      else if op = IS_NOT_NULL then d \<noteq> D_null
      else if op = LIKE \<or> op = NOT_LIKE then
        (case (d, v) of
           (D_string s, L_string p) \<Rightarrow> if op = LIKE then like_result re s p else \<not> like_result re s p
         | _ \<Rightarrow> False)
      else
        (case (numeric_data d, numeric_literal v) of
           (Some a, Some b) \<Rightarrow> compare_with double_ops op a b
         | _ \<Rightarrow>
           (case (d, v) of
              (D_string s, L_string t) \<Rightarrow> compare_with string_ops op s t
            | _ \<Rightarrow> False)))"

definition eval_comparison_row :: "re2 \<Rightarrow> data list \<Rightarrow> nat \<Rightarrow> comparison_op \<Rightarrow> literal \<Rightarrow> bool res" where
  "eval_comparison_row re record column op v = rbind (at record column) (\<lambda>d. Inr (compare_data re op v d))"

fun eval_row :: "re2 \<Rightarrow> data list \<Rightarrow> statement \<Rightarrow> bool res"
  and eval_all :: "re2 \<Rightarrow> data list \<Rightarrow> statement list \<Rightarrow> bool res"
  and eval_any :: "re2 \<Rightarrow> data list \<Rightarrow> statement list \<Rightarrow> bool res" where
  "eval_row re record (Comparison column op v) = eval_comparison_row re record column op v"
| "eval_row re record (LogicalOperation L_AND children) = eval_all re record children"
| "eval_row re record (LogicalOperation L_OR children) = eval_any re record children"
| "eval_row re record (LogicalOperation L_NOT children) =
     (case children of [c] \<Rightarrow> rbind (eval_row re record c) (\<lambda>b. Inr (\<not> b)) | _ \<Rightarrow> Inr False)"
| "eval_all re record [] = Inr True"
| "eval_all re record (c # cs) = rbind (eval_row re record c) (\<lambda>b. if \<not> b then Inr False else eval_all re record cs)"
| "eval_any re record [] = Inr False"
| "eval_any re record (c # cs) = rbind (eval_row re record c) (\<lambda>b. if b then Inr True else eval_any re record cs)"

section \<open>Evaluation on columns\<close>

datatype any_column =
    Inner_int32 "u32 inner_column"
  | Inner_int64 "u64 inner_column"
  | Inner_fp64 "u64 inner_column"
  | Inner_string string_column

definition bitmap_not :: "nat list \<Rightarrow> u8 list \<Rightarrow> u8 list res" where
  "bitmap_not order bitmap =
     pool_run filter_tp_threads order (\<lambda>begin_i end_i.
         rfold (\<lambda>i bitmap. rbind (at bitmap i) (\<lambda>b. Inr (bitmap[i := NOT b]))) [begin_i..<end_i])
       (length bitmap) bitmap"

text \<open>The two operands are asserted to have the same size.\<close>

definition bitmap_and :: "nat list \<Rightarrow> u8 list \<Rightarrow> u8 list \<Rightarrow> u8 list res" where
  "bitmap_and order lhs rhs =
     (if length lhs \<noteq> length rhs then Inl Undefined
      else pool_run filter_tp_threads order (\<lambda>begin_i end_i.
             rfold (\<lambda>i ret. rbind (at lhs i) (\<lambda>l. rbind (at rhs i) (\<lambda>r. Inr (ret[i := l AND r])))) [begin_i..<end_i])
           (length lhs) (replicate (length lhs) 0))"

definition bitmap_or :: "nat list \<Rightarrow> u8 list \<Rightarrow> u8 list \<Rightarrow> u8 list res" where
  "bitmap_or order lhs rhs =
     (if length lhs \<noteq> length rhs then Inl Undefined
      else pool_run filter_tp_threads order (\<lambda>begin_i end_i.
             rfold (\<lambda>i ret. rbind (at lhs i) (\<lambda>l. rbind (at rhs i) (\<lambda>r. Inr (ret[i := l OR r])))) [begin_i..<end_i])
           (length lhs) (replicate (length lhs) 0))"

definition bad_variant :: "'a res" where
  "bad_variant = Inl (Runtime_error ''std::bad_variant_access'')"

definition compare_numbers :: "'a cmp_ops \<Rightarrow> nat list \<Rightarrow> comparison_op \<Rightarrow> 'a inner_column \<Rightarrow> 'a \<Rightarrow> u8 list res" where
  "compare_numbers ops order op c rhs =
     (case op of
        EQ \<Rightarrow> ic_equal ops order c rhs | NEQ \<Rightarrow> ic_not_equal ops order c rhs
      | LT \<Rightarrow> ic_less ops order c rhs | GT \<Rightarrow> ic_greater ops order c rhs
      | LEQ \<Rightarrow> ic_less_equal ops order c rhs | GEQ \<Rightarrow> ic_greater_equal ops order c rhs
      | _ \<Rightarrow> Inl Undefined)"

definition compare_strings :: "re2 \<Rightarrow> nat list \<Rightarrow> comparison_op \<Rightarrow> string_column \<Rightarrow> bytes \<Rightarrow> u8 list res" where
  "compare_strings re order op c rhs =
     (case op of
        EQ \<Rightarrow> sc_equal order c rhs | NEQ \<Rightarrow> sc_not_equal order c rhs
      | LT \<Rightarrow> sc_less order c rhs | GT \<Rightarrow> sc_greater order c rhs
      | LEQ \<Rightarrow> sc_less_equal order c rhs | GEQ \<Rightarrow> sc_greater_equal order c rhs
      | LIKE \<Rightarrow> sc_like (like_result re) order c rhs | NOT_LIKE \<Rightarrow> sc_not_like (like_result re) order c rhs
      | _ \<Rightarrow> Inl Undefined)"

definition null_or :: "nat list \<Rightarrow> comparison_op \<Rightarrow> u8 list \<Rightarrow> u8 list res \<Rightarrow> u8 list res" where
  "null_or order op bitmap r =
     (if op = IS_NULL then bitmap_not order bitmap else if op = IS_NOT_NULL then Inr bitmap else r)"

definition eval_comparison_bitmap ::
    "re2 \<Rightarrow> nat list \<Rightarrow> any_column list \<Rightarrow> nat \<Rightarrow> comparison_op \<Rightarrow> literal \<Rightarrow> u8 list res" where
  "eval_comparison_bitmap re order table column op v =
     rbind (at table column) (\<lambda>c.
       case c of
         Inner_int32 c \<Rightarrow> null_or order op (ic_bitmap c)
           (case v of L_int64 i \<Rightarrow> compare_numbers signed_ops order op c (ucast i) | _ \<Rightarrow> bad_variant)
       | Inner_int64 c \<Rightarrow> null_or order op (ic_bitmap c)
           (case v of L_int64 i \<Rightarrow> compare_numbers signed_ops order op c i | _ \<Rightarrow> bad_variant)
       | Inner_fp64 c \<Rightarrow> null_or order op (ic_bitmap c)
           (case v of L_fp64 x \<Rightarrow> compare_numbers double_ops order op c x | _ \<Rightarrow> bad_variant)
       | Inner_string c \<Rightarrow> null_or order op (sc_bitmap c)
           (case v of L_string s \<Rightarrow> compare_strings re order op c s | _ \<Rightarrow> bad_variant))"

text \<open>\<open>children[0]\<close> and \<open>children[1]\<close> outside the vector are undefined.\<close>

fun eval_bitmap :: "re2 \<Rightarrow> nat list \<Rightarrow> any_column list \<Rightarrow> statement \<Rightarrow> u8 list res" where
  "eval_bitmap re order table (Comparison column op v) = eval_comparison_bitmap re order table column op v"
| "eval_bitmap re order table (LogicalOperation L_AND (l # r # cs)) =
     rbind (eval_bitmap re order table l) (\<lambda>a. rbind (eval_bitmap re order table r) (\<lambda>b. bitmap_and order a b))"
| "eval_bitmap re order table (LogicalOperation L_OR (l # r # cs)) =
     rbind (eval_bitmap re order table l) (\<lambda>a. rbind (eval_bitmap re order table r) (\<lambda>b. bitmap_or order a b))"
| "eval_bitmap re order table (LogicalOperation L_NOT (l # cs)) =
     rbind (eval_bitmap re order table l) (bitmap_not order)"
| "eval_bitmap re order table (LogicalOperation ty children) = Inl Undefined"

section \<open>Inner tables\<close>

definition new_inner :: "data_type \<Rightarrow> any_column" where
  "new_inner ty =
     (case ty of
        INT32 \<Rightarrow> Inner_int32 \<lparr>ic_data = [], ic_bitmap = []\<rparr>
      | INT64 \<Rightarrow> Inner_int64 \<lparr>ic_data = [], ic_bitmap = []\<rparr>
      | FP64 \<Rightarrow> Inner_fp64 \<lparr>ic_data = [], ic_bitmap = []\<rparr>
      | VARCHAR \<Rightarrow> Inner_string sc_new)"

definition add_field :: "data \<Rightarrow> any_column \<Rightarrow> any_column res" where
  "add_field field c =
     (case c of
        Inner_int32 c \<Rightarrow> rbind (case field of D_int32 v \<Rightarrow> push_back v c | _ \<Rightarrow> push_back_null c) (\<lambda>c. Inr (Inner_int32 c))
      | Inner_int64 c \<Rightarrow> rbind (case field of D_int64 v \<Rightarrow> push_back v c | _ \<Rightarrow> push_back_null c) (\<lambda>c. Inr (Inner_int64 c))
      | Inner_fp64 c \<Rightarrow> rbind (case field of D_fp64 v \<Rightarrow> push_back v c | _ \<Rightarrow> push_back_null c) (\<lambda>c. Inr (Inner_fp64 c))
      | Inner_string c \<Rightarrow> rbind (case field of D_string v \<Rightarrow> sc_push_back v c | _ \<Rightarrow> sc_push_back_null c) (\<lambda>c. Inr (Inner_string c)))"

record inner_table =
  it_rows :: nat
  it_columns :: "any_column list"

definition inner_table_new :: "data_type list \<Rightarrow> inner_table" where
  "inner_table_new types = \<lparr>it_rows = 0, it_columns = map new_inner types\<rparr>"

definition add_record :: "data list \<Rightarrow> inner_table \<Rightarrow> inner_table res" where
  "add_record record t =
     rfold (\<lambda>(idx, field) t.
       rbind (at (it_columns t) idx) (\<lambda>c.
       rbind (add_field field c) (\<lambda>c. Inr (t\<lparr>it_columns := (it_columns t)[idx := c]\<rparr>))))
       (zip [0..<length record] record) (t\<lparr>it_rows := it_rows t + 1\<rparr>)"

section \<open>Bitmap operations\<close>

text \<open>A run in which each task updates its own element.\<close>

lemma pool_update:
  fixes out :: "'a list"
  assumes order: "pool_order filter_tp_threads order" and out: "length out = n"
    and f: "\<And>i s. i < n \<Longrightarrow> length s = n \<Longrightarrow> f i s = Inr (s[i := u i (s ! i)])"
  shows "pool_run filter_tp_threads order (\<lambda>b e. rfold f [b..<e]) n out = Inr (map (\<lambda>i. u i (out ! i)) [0..<n])"
proof -
  let ?g = "\<lambda>i s. s[i := u i (s ! i)]"
  have "pool_run filter_tp_threads order (\<lambda>b e. rfold f [b..<e]) n out = Inr (fold ?g [0..<n] out)"
  proof (rule pool_run_tasks[OF order filter_tp_threads_pos, where P = "\<lambda>s. length s = n"])
    fix b e and s :: "'a list" assume s: "length s = n" and e: "e \<le> n"
    show "rfold f [b..<e] s = Inr (fold ?g [b..<e] s) \<and> length (fold ?g [b..<e] s) = n"
      using s
    proof (rule rfold_pure_invariant[rotated])
      show "f i s = Inr (?g i s) \<and> length (?g i s) = n" if "i \<in> set [b..<e]" "length s = n" for i and s :: "'a list"
        using f[of i s] that e by simp
    qed
  next
    show "?g i \<circ> ?g j = ?g j \<circ> ?g i" for i j
      by (cases "i = j") (auto simp: fun_eq_iff list_update_swap)
  qed (use out in simp)
  moreover have "fold ?g [0..<k] out = map (\<lambda>i. u i (out ! i)) [0..<k] @ drop k out" if "k \<le> n" for k
    using that
  proof (induction k)
    case (Suc k)
    then have "drop k out = out ! k # drop (Suc k) out" using out by (simp add: Cons_nth_drop_Suc)
    with Suc show ?case by (simp add: list_update_append nth_append)
  qed simp
  from this[of n] have "fold ?g [0..<n] out = map (\<lambda>i. u i (out ! i)) [0..<n]" using out by simp
  ultimately show ?thesis by simp
qed

lemma bitmap_not_correct:
  assumes order: "pool_order filter_tp_threads order" and rep: "bitmap_rep bm vs"
  shows "\<exists>bm'. bitmap_not order bm = Inr bm' \<and> bitmap_rep bm' (map Not vs)"
proof -
  have "bitmap_not order bm = Inr (map (\<lambda>i. NOT (bm ! i)) [0..<length bm])"
    unfolding bitmap_not_def by (rule pool_update[OF order]) simp_all
  moreover have "bitmap_rep (map (\<lambda>i. NOT (bm ! i)) [0..<length bm]) (map Not vs)"
    unfolding bitmap_rep_def get_bitmap_bit
  proof (intro conjI allI impI)
    fix i assume i: "i < length (map Not vs)"
    then have "i div 8 < length bm" using bitmap_repD(1)[OF rep] by auto
    then show "bit (map (\<lambda>i. NOT (bm ! i)) [0..<length bm] ! (i div 8)) (i mod 8) = map Not vs ! i"
      using bitmap_repD(2)[OF rep, of i] i by (simp add: get_bitmap_bit bit_not_iff)
  qed (use bitmap_repD(1)[OF rep] in simp)
  ultimately show ?thesis by blast
qed

lemma bitmap_binary_correct:
  assumes order: "pool_order filter_tp_threads order"
    and l: "bitmap_rep bl vl" and r: "bitmap_rep br vr" and len: "length vl = length vr"
  shows "\<exists>bm. bitmap_and order bl br = Inr bm \<and> bitmap_rep bm (map2 (\<and>) vl vr)"
    "\<exists>bm. bitmap_or order bl br = Inr bm \<and> bitmap_rep bm (map2 (\<or>) vl vr)"
proof -
  have lens: "length bl = length br" using bitmap_repD(1)[OF l] bitmap_repD(1)[OF r] len by simp
  have idx: "i div 8 < length bl" if "i < length vl" for i using bitmap_repD(1)[OF l] that by auto
  have "bitmap_and order bl br = Inr (map (\<lambda>i. bl ! i AND br ! i) [0..<length bl])"
    unfolding bitmap_and_def using lens by (subst pool_update[OF order, where u = "\<lambda>i _. bl ! i AND br ! i"]) simp_all
  moreover have "bitmap_rep (map (\<lambda>i. bl ! i AND br ! i) [0..<length bl]) (map2 (\<and>) vl vr)"
    using idx bitmap_repD[OF l] bitmap_repD[OF r] len by (auto simp: bitmap_rep_def get_bitmap_bit bit_and_iff)
  ultimately show "\<exists>bm. bitmap_and order bl br = Inr bm \<and> bitmap_rep bm (map2 (\<and>) vl vr)" by blast
  have "bitmap_or order bl br = Inr (map (\<lambda>i. bl ! i OR br ! i) [0..<length bl])"
    unfolding bitmap_or_def using lens by (subst pool_update[OF order, where u = "\<lambda>i _. bl ! i OR br ! i"]) simp_all
  moreover have "bitmap_rep (map (\<lambda>i. bl ! i OR br ! i) [0..<length bl]) (map2 (\<or>) vl vr)"
    using idx bitmap_repD[OF l] bitmap_repD[OF r] len by (auto simp: bitmap_rep_def get_bitmap_bit bit_or_iff)
  ultimately show "\<exists>bm. bitmap_or order bl br = Inr bm \<and> bitmap_rep bm (map2 (\<or>) vl vr)" by blast
qed

section \<open>What an inner table stores\<close>

definition cell_int32 :: "data \<Rightarrow> u32 option" where
  "cell_int32 d = (case d of D_int32 v \<Rightarrow> Some v | _ \<Rightarrow> None)"

definition cell_int64 :: "data \<Rightarrow> u64 option" where
  "cell_int64 d = (case d of D_int64 v \<Rightarrow> Some v | _ \<Rightarrow> None)"

definition cell_fp64 :: "data \<Rightarrow> u64 option" where
  "cell_fp64 d = (case d of D_fp64 v \<Rightarrow> Some v | _ \<Rightarrow> None)"

lemmas cell_defs = cell_int32_def cell_int64_def cell_fp64_def string_cell_def

definition col_rep :: "data_type \<Rightarrow> any_column \<Rightarrow> data list \<Rightarrow> bool" where
  "col_rep ty c ds \<longleftrightarrow>
     (\<forall>d \<in> set ds. cell_ok ty d) \<and>
     (case c of
        Inner_int32 c \<Rightarrow> ty = INT32 \<and> ic_rep c (map cell_int32 ds)
      | Inner_int64 c \<Rightarrow> ty = INT64 \<and> ic_rep c (map cell_int64 ds)
      | Inner_fp64 c \<Rightarrow> ty = FP64 \<and> ic_rep c (map cell_fp64 ds)
      | Inner_string c \<Rightarrow> ty = VARCHAR \<and> sc_rep c (map string_cell ds))"

lemma col_rep_new: "col_rep ty (new_inner ty) []"
  by (cases ty) (simp_all add: col_rep_def new_inner_def ic_rep_def sc_rep_def sc_new_def bitmap_rep_def)

text \<open>A field of another type is stored as NULL.\<close>

lemma add_field_cells:
  "add_field d (Inner_int32 c1) = rbind (case cell_int32 d of Some v \<Rightarrow> push_back v c1 | None \<Rightarrow> push_back_null c1) (\<lambda>c. Inr (Inner_int32 c))"
  "add_field d (Inner_int64 c2) = rbind (case cell_int64 d of Some v \<Rightarrow> push_back v c2 | None \<Rightarrow> push_back_null c2) (\<lambda>c. Inr (Inner_int64 c))"
  "add_field d (Inner_fp64 c3) = rbind (case cell_fp64 d of Some v \<Rightarrow> push_back v c3 | None \<Rightarrow> push_back_null c3) (\<lambda>c. Inr (Inner_fp64 c))"
  "add_field d (Inner_string c4) = rbind (case string_cell d of Some v \<Rightarrow> sc_push_back v c4 | None \<Rightarrow> sc_push_back_null c4) (\<lambda>c. Inr (Inner_string c))"
  by (cases d; simp add: add_field_def cell_defs)+

lemma push_cell_correct:
  "ic_rep c rows \<Longrightarrow> \<exists>c'. (case x of Some v \<Rightarrow> push_back v c | None \<Rightarrow> push_back_null c) = Inr c' \<and> ic_rep c' (rows @ [x])"
  using push_back_correct[of c rows] push_back_null_correct[of c rows] by (cases x) simp_all

lemma sc_push_cell_correct:
  "sc_rep c rows \<Longrightarrow> \<exists>c'. (case x of Some v \<Rightarrow> sc_push_back v c | None \<Rightarrow> sc_push_back_null c) = Inr c' \<and> sc_rep c' (rows @ [x])"
  using sc_push_back_correct[of c rows] sc_push_back_null_correct[of c rows] by (cases x) simp_all

lemma add_field_correct:
  assumes rep: "col_rep ty c ds" and d: "cell_ok ty d"
  shows "\<exists>c'. add_field d c = Inr c' \<and> col_rep ty c' (ds @ [d])"
proof (cases c)
  case (Inner_int32 c1)
  then show ?thesis
    using rep d push_cell_correct[of c1 "map cell_int32 ds" "cell_int32 d"] by (auto simp: col_rep_def add_field_cells)
next
  case (Inner_int64 c1)
  then show ?thesis
    using rep d push_cell_correct[of c1 "map cell_int64 ds" "cell_int64 d"] by (auto simp: col_rep_def add_field_cells)
next
  case (Inner_fp64 c1)
  then show ?thesis
    using rep d push_cell_correct[of c1 "map cell_fp64 ds" "cell_fp64 d"] by (auto simp: col_rep_def add_field_cells)
next
  case (Inner_string c1)
  then show ?thesis
    using rep d sc_push_cell_correct[of c1 "map string_cell ds" "string_cell d"] by (auto simp: col_rep_def add_field_cells)
qed

definition table_rep :: "data_type list \<Rightarrow> inner_table \<Rightarrow> data list list \<Rightarrow> bool" where
  "table_rep types t rows \<longleftrightarrow>
     it_rows t = length rows \<and> length (it_columns t) = length types \<and>
     (\<forall>c < length types. col_rep (types ! c) (it_columns t ! c) (map (\<lambda>row. row ! c) rows))"

lemma table_rep_new: "table_rep types (inner_table_new types) []"
  by (simp add: table_rep_def inner_table_new_def col_rep_new)

lemma add_record_correct:
  assumes rep: "table_rep types t rows" and row: "list_all2 cell_ok types record"
  shows "\<exists>t'. add_record record t = Inr t' \<and> table_rep types t' (rows @ [record])"
proof -
  let ?f = "\<lambda>(idx, field) t. rbind (at (it_columns t) idx) (\<lambda>c.
       rbind (add_field field c) (\<lambda>c. Inr (t\<lparr>it_columns := (it_columns t)[idx := c]\<rparr>)))"
  let ?n = "length types"
  let ?col = "\<lambda>c rows. map (\<lambda>row. row ! c) rows"
  have len: "length record = ?n" using row by (simp add: list_all2_lengthD)
  let ?P = "\<lambda>k t'. it_rows t' = length rows + 1 \<and> length (it_columns t') = ?n \<and>
      (\<forall>c < ?n. col_rep (types ! c) (it_columns t' ! c) (?col c rows @ (if c < k then [record ! c] else [])))"
  have "\<exists>t'. rfold ?f (zip [0..<length record] record) (t\<lparr>it_rows := it_rows t + 1\<rparr>) = Inr t' \<and>
      ?P (length (zip [0..<length record] record)) t'"
  proof (rule rfold_invariant)
    show "?P 0 (t\<lparr>it_rows := it_rows t + 1\<rparr>)" using rep by (simp add: table_rep_def)
    fix k t' assume k: "k < length (zip [0..<length record] record)" and P: "?P k t'"
    then have k': "k < ?n" using len by simp
    then have "col_rep (types ! k) (it_columns t' ! k) (?col k rows)" "cell_ok (types ! k) (record ! k)"
      using P row by (auto simp: list_all2_conv_all_nth)
    from add_field_correct[OF this] obtain c' where c': "add_field (record ! k) (it_columns t' ! k) = Inr c'"
      "col_rep (types ! k) c' (?col k rows @ [record ! k])" by blast
    let ?t = "t'\<lparr>it_columns := (it_columns t')[k := c']\<rparr>"
    have "col_rep (types ! c) (it_columns ?t ! c) (?col c rows @ (if c < Suc k then [record ! c] else []))" if "c < ?n" for c
      using P c'(2) that k' by (cases "c = k") (auto simp: less_Suc_eq nth_list_update)
    moreover have "?f (zip [0..<length record] record ! k) t' = Inr ?t" using k k' P c'(1) by simp
    ultimately show "\<exists>t''. ?f (zip [0..<length record] record ! k) t' = Inr t'' \<and> ?P (Suc k) t''"
      using P by (intro exI[of _ ?t]) simp
  qed
  then show ?thesis using len by (auto simp: add_record_def table_rep_def)
qed

lemma add_records_correct:
  assumes "table_rep types t rows" "\<forall>row \<in> set new. list_all2 cell_ok types row"
  shows "\<exists>t'. rfold add_record new t = Inr t' \<and> table_rep types t' (rows @ new)"
  using assms
proof (induction new arbitrary: t rows)
  case (Cons rcd new)
  then obtain t1 where "add_record rcd t = Inr t1" "table_rep types t1 (rows @ [rcd])"
    using add_record_correct[of types t rows rcd] by auto
  with Cons.IH[of t1 "rows @ [rcd]"] Cons.prems show ?case by auto
qed auto

section \<open>Both evaluations of a comparison\<close>

text \<open>A literal the column path compares exactly, and cells the record path compares exactly.\<close>

definition comparison_ok :: "data_type \<Rightarrow> comparison_op \<Rightarrow> literal \<Rightarrow> bool" where
  "comparison_ok ty op v \<longleftrightarrow>
     op = IS_NULL \<or> op = IS_NOT_NULL \<or>
     (case (ty, v) of
        (INT32, L_int64 i) \<Rightarrow> op \<noteq> LIKE \<and> op \<noteq> NOT_LIKE \<and> - (2 ^ 31) \<le> sint i \<and> sint i < 2 ^ 31
      | (INT64, L_int64 i) \<Rightarrow> op \<noteq> LIKE \<and> op \<noteq> NOT_LIKE \<and> \<bar>sint i\<bar> < 2 ^ 53
      | (FP64, L_fp64 x) \<Rightarrow> op \<noteq> LIKE \<and> op \<noteq> NOT_LIKE
      | (VARCHAR, L_string s) \<Rightarrow> True
      | _ \<Rightarrow> False)"

definition data_exact :: "data \<Rightarrow> bool" where
  "data_exact d = (case d of D_int64 i \<Rightarrow> \<bar>sint i\<bar> < 2 ^ 53 | _ \<Rightarrow> True)"

lemma sint_bounds: "- (2 ^ 31) \<le> sint (x :: u32)" "sint (x :: u32) < 2 ^ 31"
  using sint_ge[of x] sint_lt[of x] by simp_all

lemma sint_narrow:
  assumes "- (2 ^ 31) \<le> sint (i :: u64)" "sint i < 2 ^ 31"
  shows "sint (ucast i :: u32) = sint i"
proof -
  have "sint (ucast i :: u32) = signed_take_bit 31 (uint i)" by (simp add: signed_ucast_eq)
  also have "\<dots> = signed_take_bit 31 (sint i)" by (simp add: uint_sint signed_take_bit_take_bit)
  also have "\<dots> = sint i" using assms by (intro signed_take_bit_int_eq_self) simp_all
  finally show ?thesis .
qed

text \<open>Signed comparison of integers below 2^53 is comparison of their doubles.\<close>

lemma signed_as_double:
  assumes "\<bar>sint a\<bar> < 2 ^ 53" "\<bar>sint b\<bar> < 2 ^ 53"
  shows "compare_with signed_ops op a b = compare_with double_ops op (double_of_int (sint a)) (double_of_int (sint b))"
  using double_of_int_compare[OF assms] double_of_int_compare[OF assms(2,1)]
  by (cases op) (auto simp: compare_with_def signed_ops_def double_ops_def sint_eq_iff)

lemma compare_numbers_correct:
  assumes "ic_rep c rows" "pool_order filter_tp_threads order" "op \<notin> {LIKE, NOT_LIKE, IS_NULL, IS_NOT_NULL}"
  shows "\<exists>bm. compare_numbers ops order op c rhs = Inr bm \<and>
    bitmap_rep bm (map (selected (\<lambda>v. compare_with ops op v rhs)) rows)"
  using ic_compare_correct[OF assms(1,2), of ops rhs] assms(3)
  by (cases op) (simp_all add: compare_numbers_def compare_with_def)

definition string_test :: "re2 \<Rightarrow> comparison_op \<Rightarrow> bytes \<Rightarrow> bytes \<Rightarrow> bool" where
  "string_test re op v rhs =
     (if op = LIKE then like_result re v rhs else if op = NOT_LIKE then \<not> like_result re v rhs
      else compare_with string_ops op v rhs)"

lemma compare_strings_correct:
  assumes "sc_rep c rows" "pool_order filter_tp_threads order" "op \<notin> {IS_NULL, IS_NOT_NULL}"
  shows "\<exists>bm. compare_strings re order op c rhs = Inr bm \<and>
    bitmap_rep bm (map (selected (\<lambda>v. string_test re op v rhs)) rows)"
  using sc_run_correct[OF assms(1,2)] assms(3)
  by (cases op) (simp_all add: compare_strings_def string_test_def compare_with_def sc_less_def sc_greater_def
      sc_less_equal_def sc_greater_equal_def sc_equal_def sc_not_equal_def sc_like_def sc_not_like_def)

definition col_bitmap :: "any_column \<Rightarrow> u8 list" where
  "col_bitmap c = (case c of Inner_int32 c \<Rightarrow> ic_bitmap c | Inner_int64 c \<Rightarrow> ic_bitmap c | Inner_fp64 c \<Rightarrow> ic_bitmap c
     | Inner_string c \<Rightarrow> sc_bitmap c)"

lemma cell_present:
  "cell_ok INT32 d \<Longrightarrow> cell_int32 d \<noteq> None \<longleftrightarrow> d \<noteq> D_null"
  "cell_ok INT64 d \<Longrightarrow> cell_int64 d \<noteq> None \<longleftrightarrow> d \<noteq> D_null"
  "cell_ok FP64 d \<Longrightarrow> cell_fp64 d \<noteq> None \<longleftrightarrow> d \<noteq> D_null"
  "cell_ok VARCHAR d \<Longrightarrow> string_cell d \<noteq> None \<longleftrightarrow> d \<noteq> D_null"
  by (cases d; simp add: cell_ok_def cell_defs)+

lemma col_bitmap_rep:
  assumes "col_rep ty c ds"
  shows "bitmap_rep (col_bitmap c) (map (\<lambda>d. d \<noteq> D_null) ds)"
proof -
  have eq: "map (\<lambda>r. r \<noteq> None) (map f ds) = map (\<lambda>d. d \<noteq> D_null) ds" if "\<And>d. d \<in> set ds \<Longrightarrow> f d \<noteq> None \<longleftrightarrow> d \<noteq> D_null" for f :: "data \<Rightarrow> 'x option"
    using that by simp
  show ?thesis
  proof (cases c)
    case (Inner_int32 c1)
    then have "map (\<lambda>r. r \<noteq> None) (map cell_int32 ds) = map (\<lambda>d. d \<noteq> D_null) ds"
      using assms cell_present(1) by (intro eq) (auto simp: col_rep_def)
    moreover have "bitmap_rep (ic_bitmap c1) (map (\<lambda>r. r \<noteq> None) (map cell_int32 ds))"
      using assms unfolding Inner_int32 by (simp only: col_rep_def ic_rep_def any_column.case)
    ultimately show ?thesis unfolding Inner_int32 col_bitmap_def by (simp only: any_column.case)
  next
    case (Inner_int64 c1)
    then have "map (\<lambda>r. r \<noteq> None) (map cell_int64 ds) = map (\<lambda>d. d \<noteq> D_null) ds"
      using assms cell_present(2) by (intro eq) (auto simp: col_rep_def)
    moreover have "bitmap_rep (ic_bitmap c1) (map (\<lambda>r. r \<noteq> None) (map cell_int64 ds))"
      using assms unfolding Inner_int64 by (simp only: col_rep_def ic_rep_def any_column.case)
    ultimately show ?thesis unfolding Inner_int64 col_bitmap_def by (simp only: any_column.case)
  next
    case (Inner_fp64 c1)
    then have "map (\<lambda>r. r \<noteq> None) (map cell_fp64 ds) = map (\<lambda>d. d \<noteq> D_null) ds"
      using assms cell_present(3) by (intro eq) (auto simp: col_rep_def)
    moreover have "bitmap_rep (ic_bitmap c1) (map (\<lambda>r. r \<noteq> None) (map cell_fp64 ds))"
      using assms unfolding Inner_fp64 by (simp only: col_rep_def ic_rep_def any_column.case)
    ultimately show ?thesis unfolding Inner_fp64 col_bitmap_def by (simp only: any_column.case)
  next
    case (Inner_string c1)
    then have "map (\<lambda>r. r \<noteq> None) (map string_cell ds) = map (\<lambda>d. d \<noteq> D_null) ds"
      using assms cell_present(4) by (intro eq) (auto simp: col_rep_def)
    moreover have "bitmap_rep (sc_bitmap c1) (map (\<lambda>r. r \<noteq> None) (map string_cell ds))"
      using assms unfolding Inner_string by (simp only: col_rep_def sc_rep_def any_column.case)
    ultimately show ?thesis unfolding Inner_string col_bitmap_def by (simp only: any_column.case)
  qed
qed

lemma map_selected:
  "(\<And>d. d \<in> set ds \<Longrightarrow> selected test (f d) = g d) \<Longrightarrow> map (selected test) (map f ds) = map g ds"
  by simp

text \<open>What a comparison with a constant says of a cell, by type of the column.\<close>

lemma compare_cells:
  assumes "op \<notin> {IS_NULL, IS_NOT_NULL}" "comparison_ok ty op v" "cell_ok ty d" "data_exact d"
  shows "ty = INT32 \<Longrightarrow> v = L_int64 i \<Longrightarrow> selected (\<lambda>x. compare_with signed_ops op x (ucast i)) (cell_int32 d) = compare_data re op v d"
    "ty = INT64 \<Longrightarrow> v = L_int64 i \<Longrightarrow> selected (\<lambda>x. compare_with signed_ops op x i) (cell_int64 d) = compare_data re op v d"
    "ty = FP64 \<Longrightarrow> v = L_fp64 x \<Longrightarrow> selected (\<lambda>y. compare_with double_ops op y x) (cell_fp64 d) = compare_data re op v d"
    "ty = VARCHAR \<Longrightarrow> v = L_string s \<Longrightarrow> selected (\<lambda>y. string_test re op y s) (string_cell d) = compare_data re op v d"
proof -
  show "selected (\<lambda>x. compare_with signed_ops op x (ucast i)) (cell_int32 d) = compare_data re op v d"
    if "ty = INT32" "v = L_int64 i"
  proof (cases d)
    case (D_int32 x)
    have i: "- (2 ^ 31) \<le> sint i" "sint i < 2 ^ 31" "op \<noteq> LIKE" "op \<noteq> NOT_LIKE"
      using assms(1,2) that by (auto simp: comparison_ok_def)
    have "\<bar>sint x\<bar> < 2 ^ 53" using sint_bounds[of x] by simp
    moreover have "\<bar>sint (ucast i :: u32)\<bar> < 2 ^ 53" using i sint_narrow[of i] by simp
    ultimately have "compare_with signed_ops op x (ucast i) = compare_with double_ops op (double_of_int (sint x)) (double_of_int (sint i))"
      using signed_as_double[of x "ucast i"] sint_narrow[OF i(1,2)] by simp
    then show ?thesis
      using D_int32 that i(3,4) assms(1) by (simp add: cell_int32_def compare_data_def numeric_data_def numeric_literal_def)
  qed (use assms that in \<open>auto simp: cell_ok_def cell_int32_def compare_data_def numeric_data_def comparison_ok_def\<close>)
  show "selected (\<lambda>x. compare_with signed_ops op x i) (cell_int64 d) = compare_data re op v d"
    if "ty = INT64" "v = L_int64 i"
  proof (cases d)
    case (D_int64 x)
    have i: "\<bar>sint i\<bar> < 2 ^ 53" "op \<noteq> LIKE" "op \<noteq> NOT_LIKE"
      using assms(1,2) that by (auto simp: comparison_ok_def)
    have "\<bar>sint x\<bar> < 2 ^ 53" using assms(4) D_int64 by (simp add: data_exact_def)
    then show ?thesis
      using D_int64 that i assms(1) signed_as_double[of x i]
      by (simp add: cell_int64_def compare_data_def numeric_data_def numeric_literal_def)
  qed (use assms that in \<open>auto simp: cell_ok_def cell_int64_def compare_data_def numeric_data_def comparison_ok_def\<close>)
  show "selected (\<lambda>y. compare_with double_ops op y x) (cell_fp64 d) = compare_data re op v d" if "ty = FP64" "v = L_fp64 x"
    using assms that by (cases d) (auto simp: cell_ok_def cell_fp64_def compare_data_def numeric_data_def numeric_literal_def comparison_ok_def)
  show "selected (\<lambda>y. string_test re op y s) (string_cell d) = compare_data re op v d" if "ty = VARCHAR" "v = L_string s"
    using assms that by (cases d) (auto simp: cell_ok_def string_cell_def compare_data_def numeric_data_def numeric_literal_def string_test_def)
qed

lemma eval_comparison_correct:
  assumes order: "pool_order filter_tp_threads order"
    and rep: "col_rep ty (table ! column) ds" and column: "column < length table"
    and exact: "\<forall>d \<in> set ds. data_exact d" and ok: "comparison_ok ty op v"
  shows "\<exists>bm. eval_comparison_bitmap re order table column op v = Inr bm \<and> bitmap_rep bm (map (compare_data re op v) ds)"
proof -
  let ?c = "table ! column"
  note bits = col_bitmap_rep[OF rep]
  have cells: "cell_ok ty d \<and> data_exact d" if "d \<in> set ds" for d
    using rep exact that by (auto simp: col_rep_def)
  consider (null) "op = IS_NULL" | (not_null) "op = IS_NOT_NULL" | (other) "op \<notin> {IS_NULL, IS_NOT_NULL}" by auto
  then show ?thesis
  proof cases
    case null
    then have "eval_comparison_bitmap re order table column op v = bitmap_not order (col_bitmap ?c)"
      using column by (cases ?c) (simp_all add: eval_comparison_bitmap_def null_or_def col_bitmap_def)
    moreover have "map Not (map (\<lambda>d. d \<noteq> D_null) ds) = map (compare_data re op v) ds"
      using null by (simp add: compare_data_def)
    ultimately show ?thesis using bitmap_not_correct[OF order bits] by metis
  next
    case not_null
    then have "eval_comparison_bitmap re order table column op v = Inr (col_bitmap ?c)"
      using column by (cases ?c) (simp_all add: eval_comparison_bitmap_def null_or_def col_bitmap_def)
    moreover have "map (\<lambda>d. d \<noteq> D_null) ds = map (compare_data re op v) ds"
      using not_null by (simp add: compare_data_def)
    ultimately show ?thesis using bits by metis
  next
    case other
    then have eval: "null_or order op bm r = r" for bm r by (auto simp: null_or_def)
    note eq = compare_cells[OF other ok]
    show ?thesis
    proof (cases ?c)
      case (Inner_int32 c)
      then have c: "ty = INT32" "ic_rep c (map cell_int32 ds)" using rep by (simp_all add: col_rep_def)
      then obtain i where i: "v = L_int64 i" "op \<notin> {LIKE, NOT_LIKE, IS_NULL, IS_NOT_NULL}"
        using ok other by (cases v) (auto simp: comparison_ok_def)
      have m: "map (selected (\<lambda>x. compare_with signed_ops op x (ucast i))) (map cell_int32 ds) = map (compare_data re op v) ds"
        using cells eq(1)[OF _ _ c(1) i(1)] by (intro map_selected) blast
      show ?thesis
        using compare_numbers_correct[OF c(2) order i(2), of signed_ops "ucast i", unfolded m] Inner_int32 column i(1)
        by (simp add: eval_comparison_bitmap_def eval)
    next
      case (Inner_int64 c)
      then have c: "ty = INT64" "ic_rep c (map cell_int64 ds)" using rep by (simp_all add: col_rep_def)
      then obtain i where i: "v = L_int64 i" "op \<notin> {LIKE, NOT_LIKE, IS_NULL, IS_NOT_NULL}"
        using ok other by (cases v) (auto simp: comparison_ok_def)
      have m: "map (selected (\<lambda>x. compare_with signed_ops op x i)) (map cell_int64 ds) = map (compare_data re op v) ds"
        using cells eq(2)[OF _ _ c(1) i(1)] by (intro map_selected) blast
      show ?thesis
        using compare_numbers_correct[OF c(2) order i(2), of signed_ops i, unfolded m] Inner_int64 column i(1)
        by (simp add: eval_comparison_bitmap_def eval)
    next
      case (Inner_fp64 c)
      then have c: "ty = FP64" "ic_rep c (map cell_fp64 ds)" using rep by (simp_all add: col_rep_def)
      then obtain x where x: "v = L_fp64 x" "op \<notin> {LIKE, NOT_LIKE, IS_NULL, IS_NOT_NULL}"
        using ok other by (cases v) (auto simp: comparison_ok_def)
      have m: "map (selected (\<lambda>y. compare_with double_ops op y x)) (map cell_fp64 ds) = map (compare_data re op v) ds"
        using cells eq(3)[OF _ _ c(1) x(1)] by (intro map_selected) blast
      show ?thesis
        using compare_numbers_correct[OF c(2) order x(2), of double_ops x, unfolded m] Inner_fp64 column x(1)
        by (simp add: eval_comparison_bitmap_def eval)
    next
      case (Inner_string c)
      then have c: "ty = VARCHAR" "sc_rep c (map string_cell ds)" using rep by (simp_all add: col_rep_def)
      then obtain s where s: "v = L_string s" using ok other by (cases v) (auto simp: comparison_ok_def)
      have m: "map (selected (\<lambda>y. string_test re op y s)) (map string_cell ds) = map (compare_data re op v) ds"
        using cells eq(4)[OF _ _ c(1) s] by (intro map_selected) blast
      show ?thesis
        using compare_strings_correct[OF c(2) order other, of re s, unfolded m] Inner_string column s
        by (simp add: eval_comparison_bitmap_def eval)
    qed
  qed
qed

section \<open>Both evaluations of a statement\<close>

fun statement_ok :: "data_type list \<Rightarrow> statement \<Rightarrow> bool" where
  "statement_ok types (Comparison column op v) = (column < length types \<and> comparison_ok (types ! column) op v)"
| "statement_ok types (LogicalOperation L_AND [l, r]) = (statement_ok types l \<and> statement_ok types r)"
| "statement_ok types (LogicalOperation L_OR [l, r]) = (statement_ok types l \<and> statement_ok types r)"
| "statement_ok types (LogicalOperation L_NOT [c]) = statement_ok types c"
| "statement_ok types (LogicalOperation ty children) = False"

definition rows_ok :: "data_type list \<Rightarrow> data list list \<Rightarrow> bool" where
  "rows_ok types rows \<longleftrightarrow> (\<forall>row \<in> set rows. list_all2 cell_ok types row \<and> list_all data_exact row)"

lemma map_rows_eq:
  "map f rows = map Inr ts \<longleftrightarrow> length ts = length rows \<and> (\<forall>i < length rows. f (rows ! i) = Inr (ts ! i))"
  by (auto simp: list_eq_iff_nth_eq)

lemma eval_statement_correct:
  assumes order: "pool_order filter_tp_threads order" and rep: "table_rep types t rows" and rows: "rows_ok types rows"
    and ok: "statement_ok types stmt"
  shows "\<exists>bm ts. eval_bitmap re order (it_columns t) stmt = Inr bm \<and> bitmap_rep bm ts \<and>
    map (\<lambda>row. eval_row re row stmt) rows = map Inr ts"
  using rep rows ok
proof (induction types stmt rule: statement_ok.induct)
  case (1 types column op v)
  then have c: "column < length types" "comparison_ok (types ! column) op v" by simp_all
  let ?ds = "map (\<lambda>row. row ! column) rows"
  have rep: "col_rep (types ! column) (it_columns t ! column) ?ds" "column < length (it_columns t)"
    using "1.prems"(1) c(1) by (simp_all add: table_rep_def)
  have len: "length row = length types \<and> list_all data_exact row" if "row \<in> set rows" for row
    using "1.prems"(2) that by (auto simp: rows_ok_def list_all2_conv_all_nth)
  then have "\<forall>d \<in> set ?ds. data_exact d" using c(1) by (auto simp: list_all_length)
  from eval_comparison_correct[OF order rep this c(2)] obtain bm where
    "eval_comparison_bitmap re order (it_columns t) column op v = Inr bm" "bitmap_rep bm (map (compare_data re op v) ?ds)" by blast
  moreover have "map (\<lambda>row. eval_row re row (Comparison column op v)) rows = map Inr (map (compare_data re op v) ?ds)"
    using len c(1) by (simp add: eval_comparison_row_def)
  ultimately show ?case by auto
next
  case (2 types l r)
  then obtain bl tl br tr where l: "eval_bitmap re order (it_columns t) l = Inr bl" "bitmap_rep bl tl"
      "map (\<lambda>row. eval_row re row l) rows = map Inr tl"
    and r: "eval_bitmap re order (it_columns t) r = Inr br" "bitmap_rep br tr"
      "map (\<lambda>row. eval_row re row r) rows = map Inr tr" by auto
  have len: "length tl = length tr" using l(3) r(3) by (metis length_map)
  obtain bm where bm: "bitmap_and order bl br = Inr bm" "bitmap_rep bm (map2 (\<and>) tl tr)"
    using bitmap_binary_correct(1)[OF order l(2) r(2) len] by blast
  have "map (\<lambda>row. eval_row re row (LogicalOperation L_AND [l, r])) rows = map Inr (map2 (\<and>) tl tr)"
    using l(3) r(3) unfolding map_rows_eq by auto
  moreover have "eval_bitmap re order (it_columns t) (LogicalOperation L_AND [l, r]) = Inr bm"
    using l(1) r(1) bm(1) by simp
  ultimately show ?case using bm(2) by blast
next
  case (3 types l r)
  then obtain bl tl br tr where l: "eval_bitmap re order (it_columns t) l = Inr bl" "bitmap_rep bl tl"
      "map (\<lambda>row. eval_row re row l) rows = map Inr tl"
    and r: "eval_bitmap re order (it_columns t) r = Inr br" "bitmap_rep br tr"
      "map (\<lambda>row. eval_row re row r) rows = map Inr tr" by auto
  have len: "length tl = length tr" using l(3) r(3) by (metis length_map)
  obtain bm where bm: "bitmap_or order bl br = Inr bm" "bitmap_rep bm (map2 (\<or>) tl tr)"
    using bitmap_binary_correct(2)[OF order l(2) r(2) len] by blast
  have "map (\<lambda>row. eval_row re row (LogicalOperation L_OR [l, r])) rows = map Inr (map2 (\<or>) tl tr)"
    using l(3) r(3) unfolding map_rows_eq by auto
  moreover have "eval_bitmap re order (it_columns t) (LogicalOperation L_OR [l, r]) = Inr bm"
    using l(1) r(1) bm(1) by simp
  ultimately show ?case using bm(2) by blast
next
  case (4 types c)
  then obtain bm ts where c: "eval_bitmap re order (it_columns t) c = Inr bm" "bitmap_rep bm ts"
      "map (\<lambda>row. eval_row re row c) rows = map Inr ts" by auto
  have "map (\<lambda>row. eval_row re row (LogicalOperation L_NOT [c])) rows = map Inr (map Not ts)"
    using c(3) unfolding map_rows_eq by auto
  moreover obtain bm' where "bitmap_not order bm = Inr bm'" "bitmap_rep bm' (map Not ts)"
    using bitmap_not_correct[OF order c(2)] by blast
  moreover from this c(1) have "eval_bitmap re order (it_columns t) (LogicalOperation L_NOT [c]) = Inr bm'" by simp
  ultimately show ?case by blast
qed simp_all

section \<open>LIKE patterns\<close>

text \<open>A consistent cache does not change the result.\<close>

definition cache_ok :: "re2 \<Rightarrow> (bytes \<rightharpoonup> bytes) \<Rightarrow> bool" where
  "cache_ok re cache \<longleftrightarrow> (\<forall>p r. cache p = Some r \<longrightarrow> r = like_regex p \<and> re2_ok re r)"

lemma like_cache_transparent:
  assumes "cache_ok re cache"
  shows "fst (like_match re str p cache) = like_result re str p" "cache_ok re (snd (like_match re str p cache))"
  using assms by (auto simp: like_match_def like_result_def cache_ok_def Let_def split: option.splits)

text \<open>The regular expressions \<open>like_match\<close> builds, as RE2 reads them.\<close>

datatype regex_token = Any_sequence | Any_char | Literal_char u8

fun regex_tokens :: "bytes \<Rightarrow> regex_token list option" where
  "regex_tokens [] = Some []"
| "regex_tokens (c # cs) =
     (if c = 92 then (case cs of d # ds \<Rightarrow> map_option ((#) (Literal_char d)) (regex_tokens ds) | [] \<Rightarrow> None)
      else if c = 46 then
        (case cs of
           d # ds \<Rightarrow> if d = 42 then map_option ((#) Any_sequence) (regex_tokens ds) else map_option ((#) Any_char) (regex_tokens cs)
         | [] \<Rightarrow> Some [Any_char])
      else if c \<in> set special_chars then None
      else map_option ((#) (Literal_char c)) (regex_tokens cs))"

definition like_token :: "u8 \<Rightarrow> regex_token" where
  "like_token c = (if c = 37 then Any_sequence else if c = 95 then Any_char else Literal_char c)"

lemma like_regex_concat: "like_regex p = concat (map regex_char p)"
proof -
  have "fold (\<lambda>c regex_str. regex_str @ regex_char c) p acc = acc @ concat (map regex_char p)" for acc
    by (induction p arbitrary: acc) auto
  then show ?thesis by (simp add: like_regex_def)
qed

lemma regex_char_head: "regex_char c @ rest \<noteq> [] \<and> hd (regex_char c @ rest) \<noteq> 42"
  by (auto simp: regex_char_def special_chars_def)

lemma regex_tokens_char: "rest = [] \<or> hd rest \<noteq> 42 \<Longrightarrow> regex_tokens (regex_char c @ rest) = map_option ((#) (like_token c)) (regex_tokens rest)"
  by (cases rest) (auto simp: regex_char_def like_token_def special_chars_def)

section \<open>Properties\<close>

text \<open>\<open>like_match\<close> hands RE2 exactly the pattern: read as a regular expression, the text it builds is
  the pattern's characters one by one, \<open>%\<close> as any sequence, \<open>_\<close> as any character, and every other
  character as itself, metacharacters escaped; so no pattern changes the meaning of its neighbours.\<close>

theorem like_regex_tokens:
  "regex_tokens (like_regex p) = Some (map like_token p)"
proof (induction p)
  case (Cons c p)
  have "like_regex p = [] \<or> hd (like_regex p) \<noteq> 42"
    using regex_char_head by (cases p) (auto simp: like_regex_concat)
  then have "regex_tokens (regex_char c @ like_regex p) = map_option ((#) (like_token c)) (regex_tokens (like_regex p))"
    by (rule regex_tokens_char)
  with Cons show ?case by (simp add: like_regex_concat)
qed (simp add: like_regex_concat)

text \<open>C23. Filters mean the same on columns and on records: for records added to an inner table, the
  bitmap of a statement (comparisons, LIKE, NULL tests, AND, OR, NOT, evaluated on the filter threads
  in any order) has exactly the bits of the records that satisfy it; neither evaluation fails. The
  statement's literals fit the columns (\<open>statement_ok\<close>) and 64-bit cells are below 2^53.\<close>

theorem filter_paths_agree:
  assumes "pool_order filter_tp_threads order" and "rows_ok types rows" and "statement_ok types stmt"
  shows "\<exists>t bm ts. rfold add_record rows (inner_table_new types) = Inr t \<and>
    eval_bitmap re order (it_columns t) stmt = Inr bm \<and>
    map (\<lambda>row. eval_row re row stmt) rows = map Inr ts \<and>
    map (get_bitmap (\<lambda>k. bm ! k)) [0..<length rows] = ts"
proof -
  have "\<forall>row \<in> set rows. list_all2 cell_ok types row" using assms(2) by (simp add: rows_ok_def)
  from add_records_correct[OF table_rep_new this] obtain t where t:
    "rfold add_record rows (inner_table_new types) = Inr t" "table_rep types t rows" by auto
  obtain bm ts where e: "eval_bitmap re order (it_columns t) stmt = Inr bm" "bitmap_rep bm ts"
    "map (\<lambda>row. eval_row re row stmt) rows = map Inr ts"
    using eval_statement_correct[OF assms(1) t(2) assms(2,3)] by blast
  then have len: "length ts = length rows" by (simp add: map_rows_eq)
  have "map (get_bitmap (\<lambda>k. bm ! k)) [0..<length rows] = ts"
    using bitmap_repD(2)[OF e(2)] len by (intro nth_equalityI) simp_all
  with t(1) e(1,3) show ?thesis by blast
qed

definition example_filter :: statement where
  "example_filter = makeAnd (Comparison 0 GT (L_int64 5)) (makeNot (Comparison 1 LIKE (L_string [97, 37])))"

theorem filter_paths_agree_witness:
  "\<exists>t bm ts. rfold add_record [[D_int32 7, D_string [97]], [D_int32 9, D_null]] (inner_table_new [INT32, VARCHAR]) = Inr t \<and>
    eval_bitmap \<lparr>re2_ok = (\<lambda>r. True), re2_full_match = (\<lambda>s r. s = [97])\<rparr> [0..<filter_tp_threads] (it_columns t) example_filter = Inr bm \<and>
    map (\<lambda>row. eval_row \<lparr>re2_ok = (\<lambda>r. True), re2_full_match = (\<lambda>s r. s = [97])\<rparr> row example_filter)
      [[D_int32 7, D_string [97]], [D_int32 9, D_null]] = map Inr ts \<and>
    map (get_bitmap (\<lambda>k. bm ! k)) [0..<length [[D_int32 7, D_string [97]], [D_int32 9, D_null]]] = ts"
  by (rule filter_paths_agree[OF default_pool_order])
    (simp_all add: rows_ok_def cell_ok_def data_exact_def example_filter_def makeAnd_def makeNot_def comparison_ok_def)

text \<open>The six comparisons, of integers.\<close>

definition int_test :: "comparison_op \<Rightarrow> int \<Rightarrow> int \<Rightarrow> bool" where
  "int_test op a b =
     (case op of EQ \<Rightarrow> a = b | NEQ \<Rightarrow> a \<noteq> b | LT \<Rightarrow> a < b | GT \<Rightarrow> a > b | LEQ \<Rightarrow> a \<le> b | GEQ \<Rightarrow> a \<ge> b | _ \<Rightarrow> False)"

lemma sint_low: "sint (ucast (w :: u64) :: u32) = (sint w + 2 ^ 31) mod 2 ^ 32 - 2 ^ 31"
proof -
  have "sint (ucast w :: u32) = signed_take_bit 31 (uint w)" by (simp add: signed_ucast_eq)
  also have "\<dots> = signed_take_bit 31 (sint w)" by (simp add: uint_sint signed_take_bit_take_bit)
  finally show ?thesis by (simp add: signed_take_bit_eq_take_bit_shift take_bit_eq_mod)
qed

lemma signed_test: "compare_with signed_ops op a b = int_test op (sint a) (sint b)"
  by (cases op) (simp_all add: compare_with_def signed_ops_def int_test_def sint_eq_iff)

lemma double_test:
  assumes "\<bar>i\<bar> < 2 ^ 53" "\<bar>j\<bar> < 2 ^ 53"
  shows "compare_with double_ops op (double_of_int i) (double_of_int j) = int_test op i j"
  using double_of_int_compare[OF assms] double_of_int_compare[OF assms(2,1)]
  by (cases op) (auto simp: compare_with_def double_ops_def int_test_def)

lemma int32_row_test:
  assumes "cell_ok INT32 d" "\<bar>sint w\<bar> < 2 ^ 53" "op \<notin> {LIKE, NOT_LIKE, IS_NULL, IS_NOT_NULL}"
  shows "compare_data re op (L_int64 w) d = (case d of D_int32 v \<Rightarrow> int_test op (sint v) (sint w) | _ \<Rightarrow> False)"
proof (cases d)
  case (D_int32 v)
  have "\<bar>sint v\<bar> < 2 ^ 53" using sint_bounds[of v] by simp
  from double_test[OF this assms(2)] show ?thesis
    using D_int32 assms(3) by (simp add: compare_data_def numeric_data_def numeric_literal_def)
qed (use assms in \<open>auto simp: cell_ok_def compare_data_def numeric_data_def\<close>)

text \<open>C24. Where they differ: on an INT32 column each of the six comparisons with an integer literal
  selects the rows that are not NULL and stand in the relation to the low 32 bits of the literal,
  read as a signed integer, whatever the literal; the evaluation on a record compares with the
  whole literal (below 2^53, where doubles are exact). So a row with 0 satisfies \<open>= 4294967296\<close> on
  columns and not on records, and a row with 5 satisfies \<open>< 4294967296\<close> on records and not on
  columns.\<close>

theorem filter_literal_wraps:
  assumes "pool_order filter_tp_threads order" and "\<forall>row \<in> set rows. list_all2 cell_ok types row"
    and "j < length types" "types ! j = INT32" and "op \<notin> {LIKE, NOT_LIKE, IS_NULL, IS_NOT_NULL}"
  shows "\<exists>t bm. rfold add_record rows (inner_table_new types) = Inr t \<and>
    eval_bitmap re order (it_columns t) (Comparison j op (L_int64 w)) = Inr bm \<and>
    (\<forall>i < length rows.
       get_bitmap (\<lambda>k. bm ! k) i =
         (case rows ! i ! j of D_int32 v \<Rightarrow> int_test op (sint v) ((sint w + 2 ^ 31) mod 2 ^ 32 - 2 ^ 31) | _ \<Rightarrow> False) \<and>
       (\<bar>sint w\<bar> < 2 ^ 53 \<longrightarrow>
          eval_row re (rows ! i) (Comparison j op (L_int64 w)) =
            Inr (case rows ! i ! j of D_int32 v \<Rightarrow> int_test op (sint v) (sint w) | _ \<Rightarrow> False)))"
proof -
  obtain t where t: "rfold add_record rows (inner_table_new types) = Inr t" "table_rep types t rows"
    using add_records_correct[OF table_rep_new assms(2)] by auto
  let ?ds = "map (\<lambda>row. row ! j) rows"
  have rep: "col_rep INT32 (it_columns t ! j) ?ds" "j < length (it_columns t)"
    using t(2) assms(3,4) by (auto simp: table_rep_def)
  then obtain c where c: "it_columns t ! j = Inner_int32 c" "ic_rep c (map cell_int32 ?ds)"
    and cells: "\<forall>d \<in> set ?ds. cell_ok INT32 d"
    by (cases "it_columns t ! j") (auto simp: col_rep_def)
  obtain bm where bm: "compare_numbers signed_ops order op c (ucast w) = Inr bm"
    "bitmap_rep bm (map (selected (\<lambda>v. compare_with signed_ops op v (ucast w))) (map cell_int32 ?ds))"
    using compare_numbers_correct[OF c(2) assms(1,5)] by blast
  have "eval_bitmap re order (it_columns t) (Comparison j op (L_int64 w)) = Inr bm"
    unfolding eval_bitmap.simps eval_comparison_bitmap_def at_simps[OF rep(2)] rbind_simps c(1) any_column.case literal.case
    using bm(1) assms(5) by (simp add: null_or_def)
  moreover have "get_bitmap (\<lambda>k. bm ! k) i =
      (case rows ! i ! j of D_int32 v \<Rightarrow> int_test op (sint v) ((sint w + 2 ^ 31) mod 2 ^ 32 - 2 ^ 31) | _ \<Rightarrow> False)"
    if "i < length rows" for i
    using bitmap_repD(2)[OF bm(2), of i] that
    by (simp add: signed_test sint_low cell_int32_def split: data.split)
  moreover have "eval_row re (rows ! i) (Comparison j op (L_int64 w)) =
      Inr (case rows ! i ! j of D_int32 v \<Rightarrow> int_test op (sint v) (sint w) | _ \<Rightarrow> False)"
    if i: "i < length rows" and w: "\<bar>sint w\<bar> < 2 ^ 53" for i
  proof -
    have "j < length (rows ! i)" "cell_ok INT32 (rows ! i ! j)"
      using bspec[OF assms(2) nth_mem[OF i]] assms(3,4) by (auto simp: list_all2_conv_all_nth)
    then show ?thesis using int32_row_test[OF _ w assms(5)] by (simp add: eval_comparison_row_def)
  qed
  ultimately show ?thesis using t(1) by blast
qed

text \<open>The two disagreements, on the rows 0, 5 and NULL.\<close>

definition wrap_rows :: "data list list" where
  "wrap_rows = [[D_int32 0], [D_int32 5], [D_null]]"

lemma all_wrap_rows: "(\<forall>i < length wrap_rows. P i) \<longleftrightarrow> P 0 \<and> P 1 \<and> P 2"
  by (auto simp: wrap_rows_def less_Suc_eq numeral_2_eq_2 numeral_3_eq_3)

definition no_regex :: re2 where
  "no_regex = \<lparr>re2_ok = (\<lambda>r. False), re2_full_match = (\<lambda>s r. False)\<rparr>"

lemma filter_literal_wraps_witness:
  "\<exists>t t' bm bm'. rfold add_record wrap_rows (inner_table_new [INT32]) = Inr t \<and>
    eval_bitmap no_regex [0..<filter_tp_threads] (it_columns t) (Comparison 0 EQ (L_int64 4294967296)) = Inr bm \<and>
    map (get_bitmap (\<lambda>k. bm ! k)) [0, 1, 2] = [True, False, False] \<and>
    map (\<lambda>row. eval_row no_regex row (Comparison 0 EQ (L_int64 4294967296))) wrap_rows = [Inr False, Inr False, Inr False] \<and>
    rfold add_record wrap_rows (inner_table_new [INT32]) = Inr t' \<and>
    eval_bitmap no_regex [0..<filter_tp_threads] (it_columns t') (Comparison 0 LT (L_int64 4294967296)) = Inr bm' \<and>
    map (get_bitmap (\<lambda>k. bm' ! k)) [0, 1, 2] = [False, False, False] \<and>
    map (\<lambda>row. eval_row no_regex row (Comparison 0 LT (L_int64 4294967296))) wrap_rows = [Inr True, Inr True, Inr False]"
proof -
  have ok: "\<forall>row \<in> set wrap_rows. list_all2 cell_ok [INT32] row" by (simp add: wrap_rows_def cell_ok_def)
  have j: "0 < length [INT32]" "[INT32] ! 0 = INT32" by simp_all
  have ops: "EQ \<notin> {LIKE, NOT_LIKE, IS_NULL, IS_NOT_NULL}" "LT \<notin> {LIKE, NOT_LIKE, IS_NULL, IS_NOT_NULL}" by simp_all
  have w: "\<bar>sint (4294967296 :: u64)\<bar> < 2 ^ 53" "(sint (4294967296 :: u64) + 2 ^ 31) mod 2 ^ 32 - 2 ^ 31 = 0"
    "sint (4294967296 :: u64) = 4294967296" by simp_all
  have rows: "wrap_rows ! 0 = [D_int32 0]" "wrap_rows ! 1 = [D_int32 5]" "wrap_rows ! 2 = [D_null]"
    by (simp_all add: wrap_rows_def)
  obtain t bm where eq: "rfold add_record wrap_rows (inner_table_new [INT32]) = Inr t"
    "eval_bitmap no_regex [0..<filter_tp_threads] (it_columns t) (Comparison 0 EQ (L_int64 4294967296)) = Inr bm"
    "get_bitmap (\<lambda>k. bm ! k) 0 \<and> \<not> get_bitmap (\<lambda>k. bm ! k) 1 \<and> \<not> get_bitmap (\<lambda>k. bm ! k) 2"
    "map (\<lambda>row. eval_row no_regex row (Comparison 0 EQ (L_int64 4294967296))) wrap_rows = [Inr False, Inr False, Inr False]"
    using filter_literal_wraps[OF default_pool_order ok j ops(1), of no_regex 4294967296, unfolded all_wrap_rows w(2,3) rows]
    by (auto simp: int_test_def wrap_rows_def simp del: eval_row.simps)
  obtain t' bm' where lt: "rfold add_record wrap_rows (inner_table_new [INT32]) = Inr t'"
    "eval_bitmap no_regex [0..<filter_tp_threads] (it_columns t') (Comparison 0 LT (L_int64 4294967296)) = Inr bm'"
    "\<not> get_bitmap (\<lambda>k. bm' ! k) 0 \<and> \<not> get_bitmap (\<lambda>k. bm' ! k) 1 \<and> \<not> get_bitmap (\<lambda>k. bm' ! k) 2"
    "map (\<lambda>row. eval_row no_regex row (Comparison 0 LT (L_int64 4294967296))) wrap_rows = [Inr True, Inr True, Inr False]"
    using filter_literal_wraps[OF default_pool_order ok j ops(2), of no_regex 4294967296, unfolded all_wrap_rows w(2,3) rows]
    by (auto simp: int_test_def wrap_rows_def simp del: eval_row.simps)
  show ?thesis using eq lt by auto
qed

end
