(* ===== verification/CsvImport.thy ===== *)
theory CsvImport
  imports CsvParser Filters
begin

text \<open>
  Import of CSV files (\<open>src/build_table.cpp\<close>): \<open>TableParser\<close> turns fields into values and records,
  \<open>Table::from_csv\<close> keeps the parsed files in a cache, filters them and writes the selected rows into
  pages, one task of the filter threads per column. The file system is a parameter (what the reads of
  a file return), and so is \<open>std::stod\<close>, as the bits of the double or \<open>None\<close> for an exception; \<open>std::stoi\<close>
  and \<open>std::stoll\<close> are modelled. The path of a file, its attributes and its header flag are fixed for a
  cache entry.

  The main results: a file of quoted fields is imported as the rows it contains, a filtered import as
  the rows that satisfy the filter, on the first call as on later ones that hit a cache.
\<close>

section \<open>Numbers in a field\<close>

definition c_isspace :: "u8 \<Rightarrow> bool" where
  "c_isspace c \<longleftrightarrow> c = 32 \<or> 9 \<le> c \<and> c \<le> 13"

definition c_isdigit :: "u8 \<Rightarrow> bool" where
  "c_isdigit c \<longleftrightarrow> 48 \<le> c \<and> c \<le> 57"

definition digits_value :: "bytes \<Rightarrow> int" where
  "digits_value ds = foldl (\<lambda>n c. n * 10 + (uint c - 48)) 0 ds"

text \<open>
  The text of a number: spaces, a sign, digits; what follows is ignored. \<open>None\<close> is \<open>invalid_argument\<close>
  (no digits) or \<open>out_of_range\<close> for a type of \<open>bits\<close> bits.
\<close>

definition parse_signed :: "nat \<Rightarrow> bytes \<Rightarrow> int option" where
  "parse_signed bits str =
     (let str = dropWhile c_isspace str;
          (negative, str) = (case str of
             [] \<Rightarrow> (False, [])
           | c # rest \<Rightarrow> if c = 45 then (True, rest) else if c = 43 then (False, rest) else (False, str));
          digits = takeWhile c_isdigit str;
          n = (if negative then - digits_value digits else digits_value digits)
      in if digits = [] \<or> n < - (2 ^ (bits - 1)) \<or> 2 ^ (bits - 1) \<le> n then None else Some n)"

definition stoi :: "bytes \<Rightarrow> u32 option" where
  "stoi str = map_option of_int (parse_signed 32 str)"

definition stoll :: "bytes \<Rightarrow> u64 option" where
  "stoll str = map_option of_int (parse_signed 64 str)"

definition parsed :: "string \<Rightarrow> ('a \<Rightarrow> data) \<Rightarrow> 'a option \<Rightarrow> data res" where
  "parsed message mk x = (case x of None \<Rightarrow> Inl (Runtime_error message) | Some v \<Rightarrow> Inr (mk v))"

definition parse_field :: "(bytes \<Rightarrow> u64 option) \<Rightarrow> data_type \<Rightarrow> bytes \<Rightarrow> data res" where
  "parse_field stod ty str =
     (case ty of
        INT32 \<Rightarrow> parsed ''parse integer error'' D_int32 (stoi str)
      | INT64 \<Rightarrow> parsed ''parse integer error'' D_int64 (stoll str)
      | FP64 \<Rightarrow> parsed ''parse float error'' D_fp64 (stod str)
      | VARCHAR \<Rightarrow> Inr (D_string str))"

section \<open>TableParser\<close>

text \<open>\<open>last_record_\<close> and the state of \<open>add_record_fn_\<close> are threaded; an attribute past the end is undefined.\<close>

definition tp_row_off :: "bool \<Rightarrow> u64" where
  "tp_row_off has_header = (if has_header then - 1 else 0)"

definition tp_on_field ::
    "(bytes \<Rightarrow> u64 option) \<Rightarrow> data_type list \<Rightarrow> u64 \<Rightarrow> (data list \<Rightarrow> 's \<Rightarrow> 's res) \<Rightarrow> (data list \<times> 's) on_field" where
  "tp_on_field stod attributes row_off add_record_fn col_idx row_idx field = (\<lambda>(last_record, s).
     if of_nat row_idx + row_off = - 1 then Inr (last_record, s)
     else rbind (if length field = 0 then Inr D_null
                 else rbind (at attributes col_idx) (\<lambda>ty. parse_field stod ty field)) (\<lambda>d.
          let last_record = last_record @ [d]
          in if col_idx + 1 = length attributes then rbind (add_record_fn last_record s) (\<lambda>s. Inr ([], s))
             else Inr (last_record, s)))"

section \<open>From inner columns to pages\<close>

definition select_rows :: "(nat \<Rightarrow> 's \<Rightarrow> 's res) \<Rightarrow> u8 list \<Rightarrow> nat \<Rightarrow> 's \<Rightarrow> (nat \<times> 's) res" where
  "select_rows put results rows s =
     rfold (\<lambda>i (ret, s).
       rbind (bitmap_test results i) (\<lambda>eval_result.
         if eval_result then rbind (put i s) (\<lambda>s. Inr (ret + 1, s)) else Inr (ret, s)))
       [0..<rows] (0, s)"

definition from_inner_numbers ::
    "(nat \<Rightarrow> page) \<Rightarrow> nat \<Rightarrow> ('a \<Rightarrow> bytes) \<Rightarrow> 'a inner_column \<Rightarrow> column \<Rightarrow> u8 list \<Rightarrow> nat \<Rightarrow> (nat \<times> column) res" where
  "from_inner_numbers fresh sz bytes_of c column results rows =
     rbind (select_rows (\<lambda>i s.
         rbind (is_not_null i c) (\<lambda>not_null.
           if not_null then rbind (ic_get i c) (\<lambda>value. inserter_insert fresh sz (bytes_of value) s)
           else inserter_insert_null fresh sz s))
       results rows (inserter_new sz column)) (\<lambda>(ret, s).
     rbind (inserter_finalize fresh sz s) (\<lambda>s. Inr (ret, ins_column s)))"

definition from_inner_strings ::
    "(nat \<Rightarrow> page) \<Rightarrow> string_column \<Rightarrow> column \<Rightarrow> u8 list \<Rightarrow> nat \<Rightarrow> (nat \<times> column) res" where
  "from_inner_strings fresh c column results rows =
     rbind (select_rows (\<lambda>i s.
         rbind (sc_is_not_null i c) (\<lambda>not_null.
           if not_null then rbind (sc_get i c) (\<lambda>value. str_insert fresh value s)
           else str_insert_null fresh s))
       results rows (str_inserter_new column)) (\<lambda>(ret, s).
     rbind (str_finalize fresh s) (\<lambda>s. Inr (ret, si_column s)))"

definition from_inner_to_column ::
    "(nat \<Rightarrow> page) \<Rightarrow> any_column \<Rightarrow> column \<Rightarrow> u8 list \<Rightarrow> nat \<Rightarrow> (nat \<times> column) res" where
  "from_inner_to_column fresh inner column results rows =
     (case inner of
        Inner_int32 c \<Rightarrow> from_inner_numbers fresh 4 bytes32 c column results rows
      | Inner_int64 c \<Rightarrow> from_inner_numbers fresh 8 bytes64 c column results rows
      | Inner_fp64 c \<Rightarrow> from_inner_numbers fresh 8 bytes64 c column results rows
      | Inner_string c \<Rightarrow> from_inner_strings fresh c column results rows)"

definition inner_type :: "any_column \<Rightarrow> data_type" where
  "inner_type c =
     (case c of Inner_int32 _ \<Rightarrow> INT32 | Inner_int64 _ \<Rightarrow> INT64 | Inner_fp64 _ \<Rightarrow> FP64 | Inner_string _ \<Rightarrow> VARCHAR)"

section \<open>from_csv\<close>

text \<open>\<open>copy\<close>: each page is copied over a new page of the copy.\<close>

definition copy_column :: "(nat \<Rightarrow> page) \<Rightarrow> column \<Rightarrow> column" where
  "copy_column fresh column =
     fold (\<lambda>page last_column. put_page (length (col_pages last_column)) page (new_page fresh last_column))
       (col_pages column) (new_column (col_type column))"

definition copy_table :: "(nat \<Rightarrow> nat \<Rightarrow> page) \<Rightarrow> columnar_table \<Rightarrow> columnar_table" where
  "copy_table fresh t =
     \<lparr>tbl_num_rows = tbl_num_rows t,
      tbl_columns = map (\<lambda>(i, column). copy_column (fresh i) column) (enumerate 0 (tbl_columns t))\<rparr>"

text \<open>\<open>reads\<close>: what the calls of \<open>fread\<close> return, the loop ends with the first empty one.\<close>

definition csv_failed :: "'a res" where
  "csv_failed = Inl (Runtime_error ''CSV parse error'')"

definition read_csv :: "(bytes \<Rightarrow> u64 option) \<Rightarrow> data_type list \<Rightarrow> bool \<Rightarrow> bytes list \<Rightarrow> inner_table res" where
  "read_csv stod attributes header reads =
     rbind (csv_parse (tp_on_field stod attributes (tp_row_off header) add_record) (csv_new 92 44 False)
              (takeWhile (\<lambda>bytes_read. bytes_read \<noteq> []) reads) ([], inner_table_new attributes)) (\<lambda>(err, last_record, full_table).
       if err \<noteq> Csv_Ok then csv_failed else Inr full_table)"

text \<open>The tasks write the columns and the number of rows, which is indeterminate before the first store.\<close>

definition import_columns ::
    "(nat \<Rightarrow> nat \<Rightarrow> page) \<Rightarrow> nat list \<Rightarrow> inner_table \<Rightarrow> u8 list \<Rightarrow> (nat option \<times> column list) res" where
  "import_columns fresh order t results =
     pool_run filter_tp_threads order (\<lambda>begin_i end_i.
         rfold (\<lambda>column_idx (ret_rows, columns).
           rbind (at (it_columns t) column_idx) (\<lambda>inner.
           rbind (at columns column_idx) (\<lambda>column.
           rbind (from_inner_to_column (fresh column_idx) inner column results (it_rows t)) (\<lambda>(filtered_rows, column).
             Inr (Some filtered_rows, columns[column_idx := column]))))) [begin_i..<end_i])
       (length (it_columns t)) (None, map (\<lambda>inner. new_column (inner_type inner)) (it_columns t))"

record csv_caches =
  table_cache :: "bytes \<rightharpoonup> inner_table"
  result_cache :: "bytes \<rightharpoonup> columnar_table"

definition select_table ::
    "(nat \<Rightarrow> nat \<Rightarrow> page) \<Rightarrow> nat list \<Rightarrow> re2 \<Rightarrow> statement option \<Rightarrow> inner_table \<Rightarrow> columnar_table res" where
  "select_table fresh order re stmt t =
     rbind (case stmt of
              Some stmt \<Rightarrow> eval_bitmap re order (it_columns t) stmt
            | None \<Rightarrow> Inr (replicate ((it_rows t + 7) div 8) 255)) (\<lambda>results.
     rbind (import_columns fresh order t results) (\<lambda>(ret_rows, columns).
       case ret_rows of
         None \<Rightarrow> Inl Undefined
       | Some n \<Rightarrow> Inr \<lparr>tbl_num_rows = n, tbl_columns = columns\<rparr>))"

definition from_csv ::
    "(nat \<Rightarrow> nat \<Rightarrow> page) \<Rightarrow> nat list \<Rightarrow> re2 \<Rightarrow> (bytes \<Rightarrow> u64 option) \<Rightarrow> (bytes \<Rightarrow> bytes list res) \<Rightarrow>
     data_type list \<Rightarrow> bytes \<Rightarrow> statement option \<Rightarrow> bool \<Rightarrow> csv_caches \<Rightarrow> (columnar_table \<times> csv_caches) res" where
  "from_csv fresh order re stod files attributes path stmt header caches =
     (case (stmt, result_cache caches path) of
        (None, Some t) \<Rightarrow> Inr (copy_table fresh t, caches)
      | _ \<Rightarrow>
        rbind (case table_cache caches path of
                 Some t \<Rightarrow> Inr (t, caches)
               | None \<Rightarrow> rbind (files path) (\<lambda>reads.
                   rbind (read_csv stod attributes header reads) (\<lambda>t.
                     Inr (t, caches\<lparr>table_cache := (table_cache caches)(path \<mapsto> t)\<rparr>)))) (\<lambda>(t, caches).
        rbind (select_table fresh order re stmt t) (\<lambda>ret.
          Inr (ret, if stmt = None then caches\<lparr>result_cache := (result_cache caches)(path \<mapsto> copy_table fresh ret)\<rparr>
                    else caches))))"

section \<open>Selected rows\<close>

definition selection :: "bool list \<Rightarrow> 'a list \<Rightarrow> 'a list" where
  "selection bs xs = map ((!) xs) (filter ((!) bs) [0..<length xs])"

lemma selection_map: "selection bs (map f xs) = map f (selection bs xs)"
  by (simp add: selection_def)

lemma selection_filter: "selection (map P xs) xs = filter P xs"
proof -
  have "filter P (map ((!) xs) [0..<length xs]) = map ((!) xs) (filter (P \<circ> (!) xs) [0..<length xs])"
    by (rule filter_map)
  moreover have "filter (P \<circ> (!) xs) [0..<length xs] = filter ((!) (map P xs)) [0..<length xs]"
    by (rule filter_cong) simp_all
  ultimately show ?thesis by (simp add: selection_def map_nth)
qed

lemma length_selection_eq: "length xs = length ys \<Longrightarrow> length (selection bs xs) = length (selection bs ys)"
  by (simp add: selection_def)

lemma set_selection: "set (selection bs xs) \<subseteq> set xs"
  by (auto simp: selection_def)

lemma page_rows_data_int32: "page_rows data_int32 = (\<lambda>p. map (map_option D_int32) (page_rows page_int32 p))"
  by (simp add: fun_eq_iff page_rows_def data_int32_def page_int32_def)

lemma select_rows_correct:
  assumes bm: "bitmap_rep results bs" "length bs = length xs"
    and put: "\<And>i s. i < length xs \<Longrightarrow> put i s = put' (xs ! i) s"
  shows "select_rows put results (length xs) s =
    rbind (rfold put' (selection bs xs) s) (\<lambda>s. Inr (length (selection bs xs), s))"
proof -
  let ?f = "\<lambda>i (ret, s). rbind (bitmap_test results i) (\<lambda>eval_result.
      if eval_result then rbind (put i s) (\<lambda>s. Inr (ret + 1, s)) else Inr (ret, s))"
  let ?sel = "\<lambda>k. map ((!) xs) (filter ((!) bs) [0..<k])"
  have "rfold ?f [0..<k] (0, s) = rbind (rfold put' (?sel k) s) (\<lambda>s. Inr (length (?sel k), s))" if "k \<le> length xs" for k
    using that
  proof (induction k)
    case (Suc k)
    then have k: "k < length xs" "bitmap_test results k = Inr (bs ! k)" using bitmap_repD(3)[OF bm(1)] bm(2) by simp_all
    have step: "?f k (m, s) = (if bs ! k then rbind (put' (xs ! k) s) (\<lambda>s. Inr (m + 1, s)) else Inr (m, s))" for m s
      using k(2) put[OF k(1)] by simp
    have "rfold ?f [0..<k] (0, s) = rbind (rfold put' (?sel k) s) (\<lambda>s. Inr (length (?sel k), s))"
      using Suc by simp
    then show ?case
      unfolding rfold_upt_Suc
      by (cases "rfold put' (?sel k) s"; cases "bs ! k") (simp_all only: rbind_simps step, simp_all add: rfold_append rfold_one)
  qed simp
  from this[of "length xs"] show ?thesis by (simp add: select_rows_def selection_def)
qed

lemma from_inner_int32_correct:
  assumes c: "ic_rep c rows" and bm: "bitmap_rep results bs" "length bs = length rows"
  shows "from_inner_numbers fresh 4 bytes32 c column results (length rows) =
    rbind (insert_rows fresh (selection bs rows) column) (\<lambda>column. Inr (length (selection bs rows), column))"
proof -
  have "(rbind (is_not_null i c) (\<lambda>not_null.
           if not_null then rbind (ic_get i c) (\<lambda>value. inserter_insert fresh 4 (bytes32 value) s)
           else inserter_insert_null fresh 4 s)) = insert_int32 fresh (rows ! i) s" if "i < length rows" for i s
    using that c bitmap_repD(3)[of "ic_bitmap c" "map (\<lambda>r. r \<noteq> None) rows" i]
    by (cases "rows ! i") (auto simp: is_not_null_def ic_get_def insert_int32_def ic_rep_def)
  then have "select_rows (\<lambda>i s. rbind (is_not_null i c) (\<lambda>not_null.
           if not_null then rbind (ic_get i c) (\<lambda>value. inserter_insert fresh 4 (bytes32 value) s)
           else inserter_insert_null fresh 4 s)) results (length rows) (inserter_new 4 column) =
      rbind (rfold (insert_int32 fresh) (selection bs rows) (inserter_new 4 column)) (\<lambda>s. Inr (length (selection bs rows), s))"
    by (rule select_rows_correct[OF bm])
  then show ?thesis
    unfolding from_inner_numbers_def insert_rows_def by (simp add: rbind_assoc)
qed

lemma from_inner_strings_correct:
  assumes c: "sc_rep c rows" and bm: "bitmap_rep results bs" "length bs = length rows"
  shows "from_inner_strings fresh c column results (length rows) =
    rbind (insert_strings fresh (selection bs rows) column) (\<lambda>column. Inr (length (selection bs rows), column))"
proof -
  have "(rbind (sc_is_not_null i c) (\<lambda>not_null.
           if not_null then rbind (sc_get i c) (\<lambda>value. str_insert fresh value s)
           else str_insert_null fresh s)) = insert_string fresh (rows ! i) s" if "i < length rows" for i s
    using that c bitmap_repD(3)[of "sc_bitmap c" "map (\<lambda>r. r \<noteq> None) rows" i] sc_get_correct[OF c that]
    by (cases "rows ! i") (auto simp: sc_is_not_null_def insert_string_def sc_rep_def)
  then have "select_rows (\<lambda>i s. rbind (sc_is_not_null i c) (\<lambda>not_null.
           if not_null then rbind (sc_get i c) (\<lambda>value. str_insert fresh value s)
           else str_insert_null fresh s)) results (length rows) (str_inserter_new column) =
      rbind (rfold (insert_string fresh) (selection bs rows) (str_inserter_new column)) (\<lambda>s. Inr (length (selection bs rows), s))"
    by (rule select_rows_correct[OF bm])
  then show ?thesis
    unfolding from_inner_strings_def insert_strings_def by (simp add: rbind_assoc)
qed

section \<open>The number of pages\<close>

text \<open>The size of a value: a string counts its characters, and one more. A column has at most twice as
  many pages as the sizes of its values add up to, and one more.\<close>

definition data_size :: "data \<Rightarrow> nat" where
  "data_size d = (case d of D_string s \<Rightarrow> Suc (length s) | _ \<Rightarrow> 1)"

definition few_pages :: "column \<Rightarrow> bool" where
  "few_pages c \<longleftrightarrow> length (col_pages c) \<le> 2 * sum_list (map data_size (column_data c)) + 1"

abbreviation row_size :: "bytes option \<Rightarrow> nat" where
  "row_size x \<equiv> data_size (data_of (map_option D_string x))"

lemma row_size_pos: "0 < row_size x"
  by (cases x) (simp_all add: data_size_def data_of_def)

lemma short_group_length: "rows \<noteq> [] \<Longrightarrow> 1 \<le> sum_list (map row_size rows)"
  using row_size_pos by (cases rows) (auto simp: Suc_le_eq)

lemma chunks_length: "\<forall>q \<in> set g. page_chunk q \<noteq> [] \<Longrightarrow> length g \<le> length (concat (map page_chunk g))"
proof (induction g)
  case (Cons q g)
  then have "1 + length g \<le> length (page_chunk q) + length (concat (map page_chunk g))"
    by (intro add_mono) (auto simp: Suc_le_eq)
  then show ?case by simp
qed simp

lemma group_length: "string_group g rows \<Longrightarrow> length g \<le> sum_list (map row_size rows)"
  unfolding string_group_def
proof (elim disjE exE conjE)
  fix p assume "g = [p]" "rows \<noteq> []"
  then show ?thesis using short_group_length by simp
next
  fix p ps assume "rows = [Some (concat (map page_chunk g))]" "\<forall>q \<in> set g. page_chunk q \<noteq> []"
  then show ?thesis using chunks_length[of g] by (simp add: data_size_def data_of_def)
qed

lemma groups_length:
  "\<forall>(g, rows) \<in> set gs. string_group g rows \<Longrightarrow>
   length (concat (map fst gs)) \<le> sum_list (map row_size (concat (map snd gs)))"
  using group_length by (induction gs) (auto simp: case_prod_unfold intro!: add_mono)

lemma length_put_page [simp]: "length (col_pages (put_page i p c)) = length (col_pages c)"
  by (simp add: put_page_def)

lemma get_page_length: "get_page fresh i c = Inr (p, c') \<Longrightarrow> length (col_pages c') \<le> length (col_pages c) + 1"
  by (auto simp: get_page_def new_page_def Let_def rbind_eq_Inr split: if_splits)

lemma save_page_length:
  "save_page fresh sz s = Inr s' \<Longrightarrow> length (col_pages (ins_column s')) \<le> length (col_pages (ins_column s)) + 1"
  by (auto simp: save_page_def rbind_eq_Inr Let_def dest!: get_page_length)

lemma insert_int32_length:
  assumes "insert_int32 fresh x s = Inr s'"
  shows "length (col_pages (ins_column s')) \<le> length (col_pages (ins_column s)) + 2"
proof -
  have save: "length (col_pages (ins_column s1)) \<le> length (col_pages (ins_column s)) + 1"
    if "(if b then save_page fresh 4 s else Inr s) = Inr s1" for b s1
    using that save_page_length[of fresh 4 s s1] by (cases b) auto
  show ?thesis
  proof (cases x)
    case None
    then show ?thesis using assms save
      by (fastforce simp: insert_int32_def inserter_insert_null_def rbind_eq_Inr)
  next
    case (Some v)
    obtain s1 p c where s1: "(if PAGE_SIZE < ins_data_end s + 4 + unat (ins_num_rows s) div 8 + 1 then save_page fresh 4 s else Inr s) = Inr s1"
      "get_page fresh (ins_last_page_idx s1) (ins_column s1) = Inr (p, c)" "length (col_pages (ins_column s')) = length (col_pages c)"
      using assms Some by (auto simp: insert_int32_def inserter_insert_def rbind_eq_Inr)
    then show ?thesis using save[OF s1(1)] get_page_length[OF s1(2)] by simp
  qed
qed

lemma insert_rows_length:
  assumes "insert_rows fresh rows c = Inr c'"
  shows "length (col_pages c') \<le> length (col_pages c) + 2 * length rows + 1"
proof -
  have all: "length (col_pages (ins_column s')) \<le> length (col_pages (ins_column s)) + 2 * length rows"
    if "rfold (insert_int32 fresh) rows s = Inr s'" for s s'
    using that
  proof (induction rows arbitrary: s)
    case (Cons x rows)
    then obtain s1 where "insert_int32 fresh x s = Inr s1" "rfold (insert_int32 fresh) rows s1 = Inr s'"
      by (auto simp: rbind_eq_Inr)
    then show ?case using Cons.IH[of s1] insert_int32_length[of fresh x s s1] by simp
  qed simp
  obtain s1 s2 where s: "rfold (insert_int32 fresh) rows (inserter_new 4 c) = Inr s1" "inserter_finalize fresh 4 s1 = Inr s2"
    "c' = ins_column s2"
    using assms by (auto simp: insert_rows_def rbind_eq_Inr)
  have "length (col_pages (ins_column s2)) \<le> length (col_pages (ins_column s1)) + 1"
    using s(2) save_page_length[of fresh 4 s1 s2] by (auto simp: inserter_finalize_def split: if_splits)
  then show ?thesis using all[OF s(1)] s(3) by (simp add: inserter_new_def)
qed

lemma data_size_length: "length ds \<le> sum_list (map data_size ds)"
  by (induction ds) (auto simp: data_size_def split: data.split)

text \<open>Columns of the types whose pages the inserter writes without overlap.\<close>

definition importable :: "data_type \<Rightarrow> bool" where
  "importable ty \<longleftrightarrow> ty = INT32 \<or> ty = VARCHAR"

lemma cells_back:
  "cell_ok INT32 d \<Longrightarrow> data_of (map_option D_int32 (cell_int32 d)) = d"
  "cell_ok VARCHAR d \<Longrightarrow> data_of (map_option D_string (string_cell d)) = d"
  by (cases d; simp add: cell_ok_def cell_defs data_of_def)+

lemma from_inner_correct:
  assumes rep: "col_rep ty inner ds" and ty: "importable ty" and bm: "bitmap_rep results bs" "length bs = length ds"
  shows "\<exists>c. from_inner_to_column fresh inner (new_column ty) results (length ds) = Inr (length (selection bs ds), c) \<and>
    col_type c = ty \<and> readable (length (selection bs ds)) c \<and> column_data c = selection bs ds \<and> few_pages c"
proof -
  have ok: "cell_ok ty d" if "d \<in> set (selection bs ds)" for d
    using rep that set_selection[of bs ds] by (auto simp: col_rep_def)
  from ty consider "ty = INT32" | "ty = VARCHAR" by (auto simp: importable_def)
  then show ?thesis
  proof cases
    case 1
    then obtain c where inner: "inner = Inner_int32 c" "ic_rep c (map cell_int32 ds)"
      using rep by (cases inner) (auto simp: col_rep_def)
    obtain c' where c': "insert_rows fresh (selection bs (map cell_int32 ds)) (new_column INT32) = Inr c'"
      "col_type c' = INT32" "column_int32_rows c' = selection bs (map cell_int32 ds)"
      using insert_rows_correct[of "new_column INT32" fresh "selection bs (map cell_int32 ds)"] by (auto simp: new_column_def)
    have "column_rows c' = map (map_option D_int32) (column_int32_rows c')"
      using c'(2) by (simp add: column_rows_def column_int32_rows_def map_concat comp_def page_rows_data_int32)
    then have "column_data c' = selection bs ds"
      using c'(3) ok 1 by (simp add: column_data_def selection_map cells_back(1) map_idI comp_def)
    moreover from this have "few_pages c'"
      using insert_rows_length[OF c'(1)] data_size_length[of "selection bs ds"]
      by (simp add: few_pages_def selection_map new_column_def)
    ultimately show ?thesis
      using c' from_inner_int32_correct[OF inner(2) bm(1), of fresh "new_column INT32"] bm(2) 1 inner(1)
      by (auto simp: from_inner_to_column_def readable_def column_data_def selection_map dest: arg_cong[of _ _ length])
  next
    case 2
    then obtain c where inner: "inner = Inner_string c" "sc_rep c (map string_cell ds)"
      using rep by (cases inner) (auto simp: col_rep_def)
    obtain c' where c': "insert_strings fresh (selection bs (map string_cell ds)) (new_column VARCHAR) = Inr c'"
      "col_type c' = VARCHAR" "string_groups (col_pages c') (selection bs (map string_cell ds))"
      using insert_strings_correct[of "new_column VARCHAR" fresh "selection bs (map string_cell ds)"] by (auto simp: new_column_def)
    have dec: "decode_strings (col_pages c') = selection bs (map string_cell ds)" using string_groups_decode[OF c'(3)] .
    have "column_data c' = selection bs ds"
      using c'(2) ok 2 dec by (simp add: column_data_def column_rows_def selection_map cells_back(2) map_idI comp_def)
    moreover have "few_pages c'"
    proof -
      obtain gs where gs: "col_pages c' = concat (map fst gs)" "decode_strings (col_pages c') = concat (map snd gs)"
        "\<forall>(g, rows) \<in> set gs. string_group g rows"
        using c'(3) dec by (auto simp: string_groups_def)
      have "column_data c' = map (\<lambda>x. data_of (map_option D_string x)) (concat (map snd gs))"
        using c'(2) gs(2) by (simp add: column_data_def column_rows_def)
      then show ?thesis using groups_length[OF gs(3)] gs(1) by (simp add: few_pages_def comp_def)
    qed
    ultimately show ?thesis
      using c' dec from_inner_strings_correct[OF inner(2) bm(1), of fresh "new_column VARCHAR"] bm(2) 2 inner(1)
      by (auto simp: from_inner_to_column_def readable_def column_data_def selection_map dest: arg_cong[of _ _ length])
  qed
qed

section \<open>Import of the columns\<close>

definition stores :: "columnar_table \<Rightarrow> data_type list \<Rightarrow> data list list \<Rightarrow> bool" where
  "stores t types rows \<longleftrightarrow>
     tbl_num_rows t = length rows \<and> map col_type (tbl_columns t) = types \<and>
     (\<forall>c \<in> set (tbl_columns t). readable (length rows) c \<and> few_pages c) \<and>
     map column_data (tbl_columns t) = map (\<lambda>k. map (\<lambda>row. row ! k) rows) [0..<length types]"

lemma col_rep_type: "col_rep ty c ds \<Longrightarrow> inner_type c = ty"
  by (cases c) (simp_all add: col_rep_def inner_type_def)

lemma fold_store:
  "fold (\<lambda>k (r, cols). (Some n, cols[k := col k])) [0..<m] (r, cols) =
   (if m = 0 then r else Some n, fold (\<lambda>k cols. cols[k := col k]) [0..<m] cols)"
  by (induction m) auto

lemma fold_update_all: "length cols = m \<Longrightarrow> fold (\<lambda>k cols. cols[k := col k]) [0..<m] cols = map col [0..<m]"
proof -
  assume len: "length cols = m"
  have "fold (\<lambda>k cols. cols[k := col k]) [0..<k] cols = map col [0..<k] @ drop k cols" if "k \<le> m" for k
    using that
  proof (induction k)
    case (Suc k)
    then have "drop k cols = cols ! k # drop (Suc k) cols" using len by (simp add: Cons_nth_drop_Suc)
    with Suc show ?case by (simp add: list_update_append)
  qed simp
  from this[of m] len show ?thesis by simp
qed

lemma import_columns_correct:
  assumes order: "pool_order filter_tp_threads order" and rep: "table_rep types t rows"
    and types: "types \<noteq> []" "\<forall>ty \<in> set types. importable ty"
    and bm: "bitmap_rep results bs" "length bs = length rows"
  shows "\<exists>columns. import_columns fresh order t results = Inr (Some (length (selection bs rows)), columns) \<and>
    stores \<lparr>tbl_num_rows = length (selection bs rows), tbl_columns = columns\<rparr> types (selection bs rows)"
proof -
  let ?m = "length types" and ?n = "length (selection bs rows)"
  let ?col = "\<lambda>k rows. map (\<lambda>row. row ! k) rows"
  have m: "length (it_columns t) = ?m" "it_rows t = length rows" using rep by (simp_all add: table_rep_def)
  have reps: "col_rep (types ! k) (it_columns t ! k) (?col k rows)" if "k < ?m" for k
    using rep that by (simp add: table_rep_def)
  have "\<exists>c. from_inner_to_column (fresh k) (it_columns t ! k) (new_column (types ! k)) results (it_rows t) = Inr (?n, c) \<and>
      col_type c = types ! k \<and> readable ?n c \<and> column_data c = ?col k (selection bs rows) \<and> few_pages c" if k: "k < ?m" for k
  proof -
    have "importable (types ! k)" using types(2) k by simp
    from from_inner_correct[OF reps[OF k] this bm(1), of "fresh k"] bm(2) show ?thesis
      by (simp add: m(2) selection_map)
  qed
  then obtain c where c: "\<And>k. k < ?m \<Longrightarrow> from_inner_to_column (fresh k) (it_columns t ! k) (new_column (types ! k)) results (it_rows t) = Inr (?n, c k)"
    "\<And>k. k < ?m \<Longrightarrow> col_type (c k) = types ! k \<and> readable ?n (c k) \<and> column_data (c k) = ?col k (selection bs rows) \<and>
      few_pages (c k)" by metis
  let ?g = "\<lambda>k (r, columns). (Some ?n, columns[k := c k])"
  let ?f = "\<lambda>column_idx (ret_rows, columns).
           rbind (at (it_columns t) column_idx) (\<lambda>inner.
           rbind (at columns column_idx) (\<lambda>column.
           rbind (from_inner_to_column (fresh column_idx) inner column results (it_rows t)) (\<lambda>(filtered_rows, column).
             Inr (Some filtered_rows, columns[column_idx := column]))))"
  let ?init = "map (\<lambda>inner. new_column (inner_type inner)) (it_columns t)"
  let ?P = "\<lambda>D (r :: nat option, columns). length columns = ?m \<and> (\<forall>k < ?m. k \<notin> D \<longrightarrow> columns ! k = new_column (types ! k))"
  have "pool_run filter_tp_threads order (\<lambda>b e. rfold ?f [b..<e]) ?m (None, ?init) = Inr (fold ?g [0..<?m] (None, ?init))"
  proof (rule pool_run_once[OF order filter_tp_threads_pos, where P = ?P])
    fix b e D and s :: "nat option \<times> column list"
    assume P: "?P D s" and e: "e \<le> ?m" and D: "D \<inter> {b..<e} = {}"
    have "rfold ?f [b..<k] s = Inr (fold ?g [b..<k] s) \<and> ?P (D \<union> {b..<k}) (fold ?g [b..<k] s)" if "b \<le> k" "k \<le> e" for k
      using that
    proof (induction k rule: dec_induct)
      case base
      then show ?case using P by simp
    next
      case (step k)
      obtain r columns where s: "fold ?g [b..<k] s = (r, columns)" by (cases "fold ?g [b..<k] s")
      have ih: "rfold ?f [b..<k] s = Inr (r, columns)" "?P (D \<union> {b..<k}) (r, columns)" using step.IH step.prems s by auto
      have k: "k < ?m" "k \<notin> D \<union> {b..<k}" using step D e by auto
      then have "columns ! k = new_column (types ! k)" "length columns = ?m" using ih(2) by auto
      then have "?f k (r, columns) = Inr (?g k (r, columns))" using c(1)[OF k(1)] k(1) m(1) by simp
      moreover have "?P (D \<union> {b..<Suc k}) (?g k (r, columns))"
        using ih(2) step.hyps(1) by (auto simp: less_Suc_eq nth_list_update)
      ultimately show ?case using ih(1) s step.hyps by (simp add: rfold_append rfold_one)
    qed
    from this[of e] P show "rfold ?f [b..<e] s = Inr (fold ?g [b..<e] s) \<and> ?P (D \<union> {b..<e}) (fold ?g [b..<e] s)"
      by (cases "b \<le> e") auto
  next
    show "?g i \<circ> ?g j = ?g j \<circ> ?g i" for i j
      by (cases "i = j") (auto simp: fun_eq_iff list_update_swap)
  next
    show "?P {} (None, ?init)" using m col_rep_type[OF reps] by simp
  qed
  moreover have "fold ?g [0..<?m] (None, ?init) = (Some ?n, map c [0..<?m])"
    using types(1) m(1) by (simp add: fold_store fold_update_all)
  ultimately have "import_columns fresh order t results = Inr (Some ?n, map c [0..<?m])"
    by (simp add: import_columns_def m(1))
  moreover have "stores \<lparr>tbl_num_rows = ?n, tbl_columns = map c [0..<?m]\<rparr> types (selection bs rows)"
    using c(2) by (auto simp: stores_def intro: nth_equalityI)
  ultimately show ?thesis by blast
qed

lemma all_ones: "bitmap_rep (replicate ((n + 7) div 8) 255) (replicate n True)"
proof -
  have "bit (255 :: u8) j" if "j < 8" for j
  proof -
    have "(255 :: u8) = - 1" by simp
    then show ?thesis using that by (simp only: bit_minus_1_iff) simp
  qed
  moreover have "i div 8 < (n + 7) div 8" if "i < n" for i using that by linarith
  ultimately show ?thesis by (simp add: bitmap_rep_def get_bitmap_bit)
qed

text \<open>The rows a statement selects.\<close>

definition satisfies :: "re2 \<Rightarrow> statement option \<Rightarrow> data list \<Rightarrow> bool" where
  "satisfies re stmt row = (case stmt of None \<Rightarrow> True | Some stmt \<Rightarrow> eval_row re row stmt = Inr True)"

definition filter_ok :: "data_type list \<Rightarrow> data list list \<Rightarrow> statement option \<Rightarrow> bool" where
  "filter_ok types rows stmt = (case stmt of None \<Rightarrow> True | Some stmt \<Rightarrow> statement_ok types stmt \<and> rows_ok types rows)"

lemma select_table_correct:
  assumes order: "pool_order filter_tp_threads order" and rep: "table_rep types t rows"
    and types: "types \<noteq> []" "\<forall>ty \<in> set types. importable ty" and stmt: "filter_ok types rows stmt"
  shows "\<exists>ret. select_table fresh order re stmt t = Inr ret \<and> stores ret types (filter (satisfies re stmt) rows)"
proof -
  let ?bs = "map (satisfies re stmt) rows"
  have "\<exists>results. (case stmt of
              Some stmt \<Rightarrow> eval_bitmap re order (it_columns t) stmt
            | None \<Rightarrow> Inr (replicate ((it_rows t + 7) div 8) 255)) = Inr results \<and> bitmap_rep results ?bs"
  proof (cases stmt)
    case None
    then have "?bs = replicate (length rows) True" by (simp add: satisfies_def[abs_def] map_replicate_const)
    then show ?thesis using None all_ones[of "length rows"] rep by (simp add: table_rep_def)
  next
    case (Some st)
    then obtain bm ts where ts: "eval_bitmap re order (it_columns t) st = Inr bm" "bitmap_rep bm ts"
      "map (\<lambda>row. eval_row re row st) rows = map Inr ts"
      using eval_statement_correct[OF order rep, of st re] stmt by (auto simp: filter_ok_def)
    have "ts = ?bs"
      using ts(3) Some unfolding map_rows_eq by (intro nth_equalityI) (auto simp: satisfies_def)
    then show ?thesis using ts(1,2) Some by auto
  qed
  then obtain results where results: "(case stmt of
              Some stmt \<Rightarrow> eval_bitmap re order (it_columns t) stmt
            | None \<Rightarrow> Inr (replicate ((it_rows t + 7) div 8) 255)) = Inr results" "bitmap_rep results ?bs" by blast
  obtain columns where "import_columns fresh order t results = Inr (Some (length (selection ?bs rows)), columns)"
    "stores \<lparr>tbl_num_rows = length (selection ?bs rows), tbl_columns = columns\<rparr> types (selection ?bs rows)"
    using import_columns_correct[OF order rep types results(2)] by auto
  then show ?thesis unfolding select_table_def results(1) selection_filter by auto
qed

lemma stores_from_columnar:
  assumes order: "pool_order filter_tp_threads order" and t: "stores t types rows"
    and rows: "\<forall>row \<in> set rows. length row = length types"
  shows "from_columnar order t = Inr \<lparr>tb_types = types, tb_data = rows\<rparr>"
proof -
  have "from_columnar order t = Inr \<lparr>tb_types = map col_type (tbl_columns t),
    tb_data = transpose_rows (tbl_num_rows t) (map column_data (tbl_columns t))\<rparr>"
    using t by (intro from_columnar_correct[OF order]) (simp add: stores_def)
  moreover have "transpose_rows (length rows) (map (\<lambda>k. map (\<lambda>row. row ! k) rows) [0..<length types]) = rows"
    using rows by (auto simp: transpose_rows_def intro!: nth_equalityI)
  ultimately show ?thesis using t by (simp add: stores_def)
qed

lemma copy_table_same: "copy_table fresh t = t"
proof -
  have "fold (\<lambda>page last_column. put_page (length (col_pages last_column)) page (new_page f last_column)) pages c =
      c\<lparr>col_pages := col_pages c @ pages\<rparr>" for f pages c
  proof (induction pages arbitrary: c)
    case (Cons page pages)
    have "put_page (length (col_pages c)) page (new_page f c) = c\<lparr>col_pages := col_pages c @ [page]\<rparr>"
      by (simp add: put_page_def new_page_def)
    with Cons show ?case by simp
  qed simp
  then have "copy_column f c = c" for f c by (simp add: copy_column_def new_column_def)
  moreover have "map snd (enumerate 0 cs) = cs" for cs :: "column list" by simp
  ultimately show ?thesis by (simp add: copy_table_def case_prod_unfold del: map_snd_enumerate)
qed

section \<open>Records of a file\<close>

text \<open>What \<open>on_field\<close> makes of a field of a column.\<close>

definition field_data :: "(bytes \<Rightarrow> u64 option) \<Rightarrow> data_type \<Rightarrow> bytes \<Rightarrow> data res" where
  "field_data stod ty field = (if field = [] then Inr D_null else parse_field stod ty field)"

definition text_record :: "(bytes \<Rightarrow> u64 option) \<Rightarrow> data_type list \<Rightarrow> bytes list \<Rightarrow> data list \<Rightarrow> bool" where
  "text_record stod types flds row \<longleftrightarrow>
     length flds = length types \<and> list_all2 (\<lambda>(ty, field) d. field_data stod ty field = Inr d) (zip types flds) row"

lemma field_data_ok: "field_data stod ty field = Inr d \<Longrightarrow> cell_ok ty d"
  by (cases ty) (auto simp: field_data_def parse_field_def parsed_def cell_ok_def split: if_splits option.splits)

lemma text_record_ok:
  assumes "text_record stod types flds row"
  shows "list_all2 cell_ok types row" "length flds = length types"
  using assms field_data_ok by (auto simp: text_record_def list_all2_conv_all_nth)

lemma list_all2_lens: "list_all2 (text_record stod types) content rows \<Longrightarrow> \<forall>flds \<in> set content. length flds = length types"
  by (induction content rows rule: list_all2_induct) (simp_all add: text_record_ok(2))

text \<open>The fields of one row, from column \<open>k\<close> on.\<close>

lemma tp_fields:
  assumes "flds \<noteq> []" and "k + length flds = length types"
    and "list_all2 (\<lambda>(ty, field) d. field_data stod ty field = Inr d) (zip (drop k types) flds) row"
    and "of_nat r + off \<noteq> (- 1 :: u64)"
  shows "rfold (\<lambda>(i, field). tp_on_field stod types off add i r field) (enumerate k flds) (pre, s) =
    rbind (add (pre @ row) s) (\<lambda>s. Inr ([], s))"
  using assms(1-3)
proof (induction flds arbitrary: k pre row rule: list_nonempty_induct)
  case (single field)
  then have k: "k < length types" "drop k types = [types ! k]" by (auto simp: Cons_nth_drop_Suc[symmetric])
  then obtain d where d: "row = [d]" "field_data stod (types ! k) field = Inr d"
    using single.prems(2) by (auto simp: list_all2_Cons1)
  have "tp_on_field stod types off add k r field (pre, s) = rbind (add (pre @ [d]) s) (\<lambda>s. Inr ([], s))"
    using d(2) k(1) assms(4) single.prems(1) by (simp add: tp_on_field_def field_data_def split: if_splits)
  then show ?case by (simp add: rfold_one d(1))
next
  case (cons field flds)
  then have k: "k < length types" "drop k types = types ! k # drop (Suc k) types" by (auto simp: Cons_nth_drop_Suc)
  then obtain d rest where d: "row = d # rest" "field_data stod (types ! k) field = Inr d"
    "list_all2 (\<lambda>(ty, field) d. field_data stod ty field = Inr d) (zip (drop (Suc k) types) flds) rest"
    using cons.prems(2) by (auto simp: list_all2_Cons1)
  have "k + 1 \<noteq> length types" using cons by (cases flds) auto
  then have "tp_on_field stod types off add k r field (pre, s) = Inr (pre @ [d], s)"
    using d(2) k(1) assms(4) by (simp add: tp_on_field_def field_data_def split: if_splits)
  then show ?case using cons.IH[of "Suc k" rest "pre @ [d]"] cons.prems(1) d by simp
qed

lemma tp_header:
  assumes "of_nat r + off = (- 1 :: u64)"
  shows "rfold (\<lambda>(i, field). tp_on_field stod types off add i r field) flds s = Inr s"
  using assms by (induction flds) (auto simp: tp_on_field_def split: prod.splits)

lemma tp_rows:
  assumes "types \<noteq> []" and "list_all2 (text_record stod types) content rows"
    and "\<And>i. r \<le> i \<Longrightarrow> i < r + length content \<Longrightarrow> of_nat i + off \<noteq> (- 1 :: u64)"
  shows "csv_fields (tp_on_field stod types off add) r content ([], s) = rbind (rfold add rows s) (\<lambda>s. Inr ([], s))"
  using assms(2,3)
proof (induction content arbitrary: r rows s)
  case Nil
  then show ?case by (simp add: csv_fields_def)
next
  case (Cons flds content)
  then obtain row rest where rows: "rows = row # rest" "text_record stod types flds row"
    "list_all2 (text_record stod types) content rest" by (auto simp: list_all2_Cons1)
  have "flds \<noteq> []" using text_record_ok(2)[OF rows(2)] assms(1) by auto
  moreover have "list_all2 (\<lambda>(ty, field) d. field_data stod ty field = Inr d) (zip (drop 0 types) flds) row"
    "0 + length flds = length types" using rows(2) by (simp_all add: text_record_def)
  moreover have "of_nat r + off \<noteq> (- 1 :: u64)" using Cons.prems(2)[of r] by simp
  ultimately have "rfold (\<lambda>(i, field). tp_on_field stod types off add i r field) (enumerate 0 flds) ([], s) =
      rbind (add row s) (\<lambda>s. Inr ([], s))" using tp_fields[of flds 0 types stod row r off add "[]" s] by simp
  moreover have "csv_fields (tp_on_field stod types off add) (Suc r) content ([], s') = rbind (rfold add rest s') (\<lambda>s. Inr ([], s))" for s'
    using Cons.prems(2) by (intro Cons.IH rows(3)) auto
  ultimately show ?case
    using rows(1) by (cases "add row s") (simp_all add: csv_fields_def)
qed

text \<open>A file of quoted fields with the given rows, after a header line if there is one.\<close>

definition csv_source ::
    "(bytes \<Rightarrow> u64 option) \<Rightarrow> data_type list \<Rightarrow> bytes list option \<Rightarrow> bytes list list \<Rightarrow> bytes list \<Rightarrow> data list list \<Rightarrow> bool" where
  "csv_source stod types names content reads rows \<longleftrightarrow>
     (case names of None \<Rightarrow> content \<noteq> [] | Some names \<Rightarrow> length names = length types) \<and>
     length content < 2 ^ 64 - 2 \<and> list_all2 (text_record stod types) content rows \<and>
     concat (takeWhile (\<lambda>bytes_read. bytes_read \<noteq> []) reads) =
       csv_file 92 44 ((case names of None \<Rightarrow> [] | Some names \<Rightarrow> [names]) @ content)"

lemma of_nat_small: "i < 2 ^ 64 - 1 \<Longrightarrow> (of_nat i :: u64) \<noteq> - 1"
proof -
  assume i: "i < 2 ^ 64 - 1"
  have "(- 1 :: u64) = of_nat (2 ^ 64 - 1)" by simp
  then have "unat (- 1 :: u64) = 2 ^ 64 - 1" by (simp only: unat_of_nat) simp
  moreover have "unat (of_nat i :: u64) = i" using i by (simp add: unat_of_nat)
  ultimately show ?thesis using i by (metis less_irrefl)
qed

lemma read_csv_correct:
  assumes types: "types \<noteq> []" and src: "csv_source stod types names content reads rows"
  shows "\<exists>t. read_csv stod types (names \<noteq> None) reads = Inr t \<and> table_rep types t rows"
proof -
  let ?lines = "(case names of None \<Rightarrow> [] | Some names \<Rightarrow> [names]) @ content"
  let ?f = "\<lambda>header. tp_on_field stod types (tp_row_off header) add_record"
  note src = src[unfolded csv_source_def]
  have rows: "list_all2 (text_record stod types) content rows" using src by blast
  have small: "length content < 2 ^ 64 - 2" using src by blast
  have "list_all2 cell_ok types row" if "row \<in> set rows" for row
    using rows that text_record_ok(1) by (metis list_all2_conv_all_nth in_set_conv_nth)
  then obtain t where t: "rfold add_record rows (inner_table_new types) = Inr t" "table_rep types t rows"
    using add_records_correct[OF table_rep_new, of rows types] by auto
  have lens: "\<forall>flds \<in> set ?lines. length flds = length types"
    using src list_all2_lens[OF rows] by (auto split: option.splits)
  have ne: "?lines \<noteq> []" using src by (auto split: option.splits)
  have all: "csv_fields (?f (names \<noteq> None)) 0 ?lines ([], inner_table_new types) = Inr ([], t)"
  proof (cases names)
    case None
    have "of_nat i + tp_row_off False \<noteq> - 1" if "i < length content" for i
      using of_nat_small[of i] that small by (simp add: tp_row_off_def)
    then show ?thesis
      using tp_rows[OF types rows, of 0 "tp_row_off False" add_record "inner_table_new types"] None t(1) by simp
  next
    case (Some ns)
    have "of_nat i + tp_row_off True \<noteq> - 1" if "1 \<le> i" "i < 1 + length content" for i
    proof
      assume "of_nat i + tp_row_off True = - 1"
      then have "(of_nat i :: u64) = 0" by (simp add: tp_row_off_def)
      then have "unat (of_nat i :: u64) = 0" by simp
      then show False using that small by (simp add: unat_of_nat)
    qed
    then have "csv_fields (?f True) 1 content ([], inner_table_new types) = Inr ([], t)"
      using tp_rows[OF types rows, of 1 "tp_row_off True" add_record "inner_table_new types"] t(1) by simp
    then show ?thesis
      using Some tp_header[of 0 "tp_row_off True" stod types add_record "enumerate 0 ns" "([], inner_table_new types)"]
      by (simp add: csv_fields_def tp_row_off_def)
  qed
  have "csv_parse (?f (names \<noteq> None)) (csv_new 92 44 False) (takeWhile (\<lambda>b. b \<noteq> []) reads) ([], inner_table_new types) =
      Inr (Csv_Ok, [], t)"
    using csv_parse_file[of 92 44 "length types" ?lines "takeWhile (\<lambda>b. b \<noteq> []) reads" "?f (names \<noteq> None)" "([], inner_table_new types)"]
      types ne lens src all by (auto simp: csv_config_ok_def dest: set_takeWhileD)
  then show ?thesis using t(2) by (simp add: read_csv_def)
qed

section \<open>Sequences of imports\<close>

text \<open>The caches hold what the files contain.\<close>

definition caches_ok :: "(bytes \<Rightarrow> data_type list) \<Rightarrow> (bytes \<Rightarrow> data list list) \<Rightarrow> csv_caches \<Rightarrow> bool" where
  "caches_ok types rows caches \<longleftrightarrow>
     (\<forall>path t. table_cache caches path = Some t \<longrightarrow> table_rep (types path) t (rows path)) \<and>
     (\<forall>path t. result_cache caches path = Some t \<longrightarrow> stores t (types path) (rows path))"

definition no_caches :: csv_caches where
  "no_caches = \<lparr>table_cache = Map.empty, result_cache = Map.empty\<rparr>"

text \<open>The files: by path, the types, the header line, the fields and what they stand for.\<close>

definition file_ok ::
    "(bytes \<Rightarrow> u64 option) \<Rightarrow> (bytes \<Rightarrow> bytes list res) \<Rightarrow> (bytes \<Rightarrow> data_type list) \<Rightarrow> (bytes \<Rightarrow> bytes list option) \<Rightarrow>
     (bytes \<Rightarrow> bytes list list) \<Rightarrow> (bytes \<Rightarrow> data list list) \<Rightarrow> bytes \<Rightarrow> bool" where
  "file_ok stod files types names content rows path \<longleftrightarrow>
     types path \<noteq> [] \<and> list_all importable (types path) \<and>
     (case files path of Inl e \<Rightarrow> False
      | Inr reads \<Rightarrow> csv_source stod (types path) (names path) (content path) reads (rows path))"

lemma from_csv_miss:
  assumes "\<not> (stmt = None \<and> result_cache caches path \<noteq> None)"
  shows "from_csv fresh order re stod files attributes path stmt header caches =
    rbind (case table_cache caches path of
             Some t \<Rightarrow> Inr (t, caches)
           | None \<Rightarrow> rbind (files path) (\<lambda>reads.
               rbind (read_csv stod attributes header reads) (\<lambda>t.
                 Inr (t, caches\<lparr>table_cache := (table_cache caches)(path \<mapsto> t)\<rparr>)))) (\<lambda>(t, caches).
      rbind (select_table fresh order re stmt t) (\<lambda>ret.
        Inr (ret, if stmt = None then caches\<lparr>result_cache := (result_cache caches)(path \<mapsto> copy_table fresh ret)\<rparr> else caches)))"
  using assms by (cases stmt; cases "result_cache caches path") (simp_all add: from_csv_def)

lemma from_csv_correct:
  assumes order: "pool_order filter_tp_threads order" and src: "file_ok stod files types names content rows path"
    and stmt: "filter_ok (types path) (rows path) stmt" and caches: "caches_ok types rows caches"
  shows "\<exists>t caches'. from_csv fresh order re stod files (types path) path stmt (names path \<noteq> None) caches = Inr (t, caches') \<and>
    stores t (types path) (filter (satisfies re stmt) (rows path)) \<and> caches_ok types rows caches'"
proof -
  obtain reads where reads: "files path = Inr reads" "csv_source stod (types path) (names path) (content path) reads (rows path)"
    using src by (auto simp: file_ok_def split: sum.splits)
  have types: "types path \<noteq> []" "\<forall>ty \<in> set (types path). importable ty" using src by (auto simp: file_ok_def list_all_iff)
  let ?load = "case table_cache caches path of
                 Some t \<Rightarrow> Inr (t, caches)
               | None \<Rightarrow> rbind (files path) (\<lambda>reads.
                   rbind (read_csv stod (types path) (names path \<noteq> None) reads) (\<lambda>t.
                     Inr (t, caches\<lparr>table_cache := (table_cache caches)(path \<mapsto> t)\<rparr>)))"
  obtain t caches1 where t: "?load = Inr (t, caches1)" "table_rep (types path) t (rows path)" "caches_ok types rows caches1"
  proof (cases "table_cache caches path")
    case None
    obtain t where "read_csv stod (types path) (names path \<noteq> None) reads = Inr t" "table_rep (types path) t (rows path)"
      using read_csv_correct[OF types(1) reads(2)] by blast
    then show ?thesis
      using None reads(1) caches
      by (intro that[of t "caches\<lparr>table_cache := (table_cache caches)(path \<mapsto> t)\<rparr>"]) (auto simp: caches_ok_def)
  next
    case (Some t)
    then show ?thesis using caches by (intro that[of t]) (auto simp: caches_ok_def)
  qed
  obtain ret where ret: "select_table fresh order re stmt t = Inr ret" "stores ret (types path) (filter (satisfies re stmt) (rows path))"
    using select_table_correct[OF order t(2) types stmt] by blast
  show ?thesis
  proof (cases "stmt = None \<and> result_cache caches path \<noteq> None")
    case True
    then obtain u where "result_cache caches path = Some u" by auto
    then show ?thesis
      using True caches by (auto simp: from_csv_def copy_table_same satisfies_def caches_ok_def)
  next
    case False
    let ?caches = "if stmt = None then caches1\<lparr>result_cache := (result_cache caches1)(path \<mapsto> copy_table fresh ret)\<rparr> else caches1"
    have "from_csv fresh order re stod files (types path) path stmt (names path \<noteq> None) caches = Inr (ret, ?caches)"
      unfolding from_csv_miss[OF False] t(1) rbind_simps prod.case ret(1) ..
    moreover have "caches_ok types rows ?caches"
      using t(3) ret(2) by (cases stmt) (auto simp: caches_ok_def copy_table_same satisfies_def)
    ultimately show ?thesis using ret(2) by blast
  qed
qed

text \<open>A program calls \<open>from_csv\<close> for one table after the other; the caches are global.\<close>

definition import_all ::
    "(nat \<Rightarrow> nat \<Rightarrow> page) \<Rightarrow> nat list \<Rightarrow> re2 \<Rightarrow> (bytes \<Rightarrow> u64 option) \<Rightarrow> (bytes \<Rightarrow> bytes list res) \<Rightarrow>
     (bytes \<Rightarrow> data_type list) \<Rightarrow> (bytes \<Rightarrow> bytes list option) \<Rightarrow> (bytes \<times> statement option) list \<Rightarrow> csv_caches \<Rightarrow>
     (columnar_table list \<times> csv_caches) res" where
  "import_all fresh order re stod files types names queries caches =
     rfold (\<lambda>(path, stmt) (ts, caches).
         rbind (from_csv fresh order re stod files (types path) path stmt (names path \<noteq> None) caches) (\<lambda>(t, caches).
           Inr (ts @ [t], caches)))
       queries ([], caches)"

lemma stores_rows_length:
  assumes "file_ok stod files types names content rows path"
  shows "\<forall>row \<in> set (rows path). length row = length (types path)"
proof -
  have "list_all2 (text_record stod (types path)) (content path) (rows path)"
    using assms by (auto simp: file_ok_def csv_source_def split: sum.splits)
  then show ?thesis
    by (induction rule: list_all2_induct) (auto dest!: text_record_ok(1) list_all2_lengthD)
qed

lemma import_all_stores:
  assumes order: "pool_order filter_tp_threads order"
    and queries: "\<forall>(path, stmt) \<in> set queries. file_ok stod files types names content rows path \<and> filter_ok (types path) (rows path) stmt"
    and caches: "caches_ok types rows caches"
  shows "\<exists>ts caches'. import_all fresh order re stod files types names queries caches = Inr (ts, caches') \<and>
    list_all2 (\<lambda>t (path, stmt). stores t (types path) (filter (satisfies re stmt) (rows path))) ts queries"
proof -
  let ?f = "\<lambda>(path, stmt) (ts, caches).
         rbind (from_csv fresh order re stod files (types path) path stmt (names path \<noteq> None) caches) (\<lambda>(t, caches).
           Inr (ts @ [t], caches))"
  let ?spec = "\<lambda>t (path, stmt). stores t (types path) (filter (satisfies re stmt) (rows path))"
  have "\<exists>s'. rfold ?f queries ([], caches) = Inr s' \<and>
      (\<lambda>k (ts, caches). caches_ok types rows caches \<and> list_all2 ?spec ts (take k queries)) (length queries) s'"
  proof (rule rfold_invariant)
    fix k s assume k: "k < length queries"
      and inv: "(\<lambda>(ts, caches). caches_ok types rows caches \<and> list_all2 ?spec ts (take k queries)) s"
    obtain ts caches where s: "s = (ts, caches)" by (cases s)
    obtain path stmt where q: "queries ! k = (path, stmt)" by (cases "queries ! k")
    then have "(path, stmt) \<in> set queries" using k by (metis nth_mem)
    with queries have ok: "file_ok stod files types names content rows path" "filter_ok (types path) (rows path) stmt" by auto
    obtain t caches' where t:
      "from_csv fresh order re stod files (types path) path stmt (names path \<noteq> None) caches = Inr (t, caches')"
      "stores t (types path) (filter (satisfies re stmt) (rows path))" "caches_ok types rows caches'"
      using from_csv_correct[OF order ok, of caches fresh re] inv s by auto
    then show "\<exists>s'. ?f (queries ! k) s = Inr s' \<and>
        (\<lambda>(ts, caches). caches_ok types rows caches \<and> list_all2 ?spec ts (take (Suc k) queries)) s'"
      using inv s q k by (simp add: take_Suc_conv_app_nth list_all2_appendI)
  qed (use caches in simp)
  then show ?thesis by (auto simp: import_all_def)
qed

lemma import_all_correct:
  assumes order: "pool_order filter_tp_threads order"
    and queries: "\<forall>(path, stmt) \<in> set queries. file_ok stod files types names content rows path \<and> filter_ok (types path) (rows path) stmt"
    and caches: "caches_ok types rows caches"
  shows "\<exists>ts caches'. import_all fresh order re stod files types names queries caches = Inr (ts, caches') \<and>
    map (from_columnar order) ts =
      map (\<lambda>(path, stmt). Inr \<lparr>tb_types = types path, tb_data = filter (satisfies re stmt) (rows path)\<rparr>) queries"
proof -
  obtain ts caches' where ts: "import_all fresh order re stod files types names queries caches = Inr (ts, caches')"
    "list_all2 (\<lambda>t (path, stmt). stores t (types path) (filter (satisfies re stmt) (rows path))) ts queries"
    using import_all_stores[OF assms, of fresh re] by blast
  have "from_columnar order t = Inr \<lparr>tb_types = types path, tb_data = filter (satisfies re stmt) (rows path)\<rparr>"
    if "(path, stmt) \<in> set queries" "stores t (types path) (filter (satisfies re stmt) (rows path))" for t path stmt
    using stores_from_columnar[OF order that(2)] stores_rows_length[of stod files types names content rows path] that(1) queries by auto
  then have "map (from_columnar order) ts =
      map (\<lambda>(path, stmt). Inr \<lparr>tb_types = types path, tb_data = filter (satisfies re stmt) (rows path)\<rparr>) queries"
    using ts(2) by (intro nth_equalityI) (auto simp: list_all2_conv_all_nth split: prod.splits, metis nth_mem)
  with ts(1) show ?thesis by blast
qed

lemma no_caches_ok: "caches_ok types rows no_caches"
  by (simp add: caches_ok_def no_caches_def)

section \<open>Rows written as text\<close>

fun dec_digits :: "nat \<Rightarrow> bytes" where
  "dec_digits n = (if n < 10 then [of_nat (48 + n)] else dec_digits (n div 10) @ [of_nat (48 + n mod 10)])"

declare dec_digits.simps [simp del]

definition dec_text :: "int \<Rightarrow> bytes" where
  "dec_text i = (if i < 0 then 45 # dec_digits (nat (- i)) else dec_digits (nat i))"

definition field_text :: "data \<Rightarrow> bytes" where
  "field_text d = (case d of D_int32 v \<Rightarrow> dec_text (sint v) | D_int64 v \<Rightarrow> dec_text (sint v) | D_string s \<Rightarrow> s | _ \<Rightarrow> [])"

lemma digit_byte: "d < 10 \<Longrightarrow> uint (of_nat (48 + d) :: u8) = 48 + int d"
  by (simp only: uint_nat unat_of_nat) simp

lemma dec_digits_digits: "\<forall>c \<in> set (dec_digits n). c_isdigit c"
proof (induction n rule: dec_digits.induct)
  case (1 n)
  have "c_isdigit (of_nat (48 + d))" if "d < 10" for d
    using digit_byte[OF that] that by (simp add: c_isdigit_def word_le_def)
  then show ?case using 1 by (simp add: dec_digits.simps[of n] del: of_nat_add)
qed

lemma digits_value_snoc: "digits_value (ds @ [d]) = digits_value ds * 10 + (uint d - 48)"
  by (simp add: digits_value_def)

lemma dec_digits_value: "digits_value (dec_digits n) = int n"
proof (induction n rule: dec_digits.induct)
  case (1 n)
  have one: "digits_value [of_nat (48 + d)] = int d" if "d < 10" for d
    using digit_byte[OF that] by (simp add: digits_value_def del: of_nat_add)
  show ?case
  proof (cases "n < 10")
    case True
    then show ?thesis using one[OF True] by (simp add: dec_digits.simps[of n] del: of_nat_add)
  next
    case False
    then have "digits_value (dec_digits n) = int (n div 10) * 10 + int (n mod 10)"
      using 1 digit_byte[of "n mod 10"] by (simp add: dec_digits.simps[of n] digits_value_snoc del: of_nat_add)
    moreover have "int (n div 10) * 10 + int (n mod 10) = int (n div 10 * 10 + n mod 10)" by (simp only: of_nat_add of_nat_mult of_nat_numeral)
    ultimately show ?thesis by (simp only: div_mult_mod_eq)
  qed
qed

lemma dec_digits_ne: "dec_digits n \<noteq> []"
  by (simp add: dec_digits.simps[of n])

lemma c_isdigit_special: "c_isdigit c \<Longrightarrow> \<not> c_isspace c \<and> c \<noteq> 45 \<and> c \<noteq> 43"
  by (auto simp: c_isdigit_def c_isspace_def word_le_nat_alt)

lemma parse_dec_text:
  assumes "- (2 ^ (bits - 1)) \<le> i" "i < 2 ^ (bits - 1)"
  shows "parse_signed bits (dec_text i) = Some i"
proof -
  have digits: "takeWhile c_isdigit (dec_digits n) = dec_digits n" for n
    using dec_digits_digits by (simp add: takeWhile_eq_all_conv)
  have head: "\<exists>d ds. dec_digits n = d # ds \<and> c_isdigit d" for n
    using dec_digits_ne[of n] dec_digits_digits[of n] by (cases "dec_digits n") auto
  show ?thesis
  proof (cases "i < 0")
    case True
    have "dropWhile c_isspace (45 # dec_digits (nat (- i))) = 45 # dec_digits (nat (- i))"
      by (simp add: c_isspace_def)
    then show ?thesis
      using True assms dec_digits_ne by (simp add: parse_signed_def dec_text_def digits dec_digits_value)
  next
    case False
    obtain d ds where d: "dec_digits (nat i) = d # ds" "c_isdigit d" using head by blast
    have "dropWhile c_isspace (d # ds) = d # ds" using c_isdigit_special[OF d(2)] by simp
    moreover have tw: "takeWhile c_isdigit ds = ds" and "digits_value (d # ds) = i"
      using digits[of "nat i"] dec_digits_value[of "nat i"] False d by simp_all
    moreover have "\<not> i < - (2 ^ (bits - 1))" using assms(1) by simp
    ultimately show ?thesis
      using False assms d c_isdigit_special[OF d(2)] by (simp add: parse_signed_def dec_text_def tw)
  qed
qed

lemma field_text_data:
  assumes "cell_ok ty d" "ty \<noteq> FP64" "d \<noteq> D_string []"
  shows "field_data stod ty (field_text d) = Inr d"
proof -
  have "dec_text i \<noteq> []" for i by (simp add: dec_text_def dec_digits_ne)
  moreover have "stoi (dec_text (sint v)) = Some v" for v
    using parse_dec_text[of 32 "sint v"] sint_bounds[of v] by (simp add: stoi_def)
  moreover have "stoll (dec_text (sint v)) = Some v" for v :: u64
    using parse_dec_text[of 64 "sint v"] sint_ge[of v] sint_lt[of v] by (simp add: stoll_def)
  ultimately show ?thesis
    using assms by (cases d) (simp_all add: cell_ok_def field_text_def field_data_def parse_field_def parsed_def)
qed

lemma text_record_text:
  assumes "list_all2 cell_ok types row" "FP64 \<notin> set types" "D_string [] \<notin> set row"
  shows "text_record stod types (map field_text row) row"
  using assms by (auto simp: text_record_def list_all2_conv_all_nth set_conv_nth intro!: field_text_data)

section \<open>Properties\<close>

definition csv_rows :: "data list list \<Rightarrow> bytes" where
  "csv_rows rows = csv_file 92 44 (map (map field_text) rows)"

lemma file_of_rows:
  assumes "types \<noteq> []" "list_all importable types" "rows \<noteq> []" "length rows < 2 ^ 64 - 2"
    and rows: "\<forall>row \<in> set rows. list_all2 cell_ok types row \<and> D_string [] \<notin> set row"
    and reads: "concat (takeWhile (\<lambda>bytes_read. bytes_read \<noteq> []) reads) = csv_rows rows"
  shows "file_ok stod (\<lambda>_. Inr reads) (\<lambda>_. types) (\<lambda>_. None) (\<lambda>_. map (map field_text) rows) (\<lambda>_. rows) path"
proof -
  have "FP64 \<notin> set types" using assms(2) by (auto simp: list_all_iff importable_def)
  then have "list_all2 (text_record stod types) (map (map field_text) rows) rows"
    using rows by (auto simp: list_all2_conv_all_nth intro: text_record_text)
  then show ?thesis using assms by (simp add: file_ok_def csv_source_def csv_rows_def)
qed

text \<open>C34. A session of imports: the files are quoted CSV texts whose fields parse (numbers in any
  spelling \<open>stoi\<close> accepts, empty fields as NULL), with or without a header line, read in any chunks.
  Then any sequence of calls, filtered and unfiltered, the same file again or not, on any order of the
  filter threads, returns for each call exactly the rows of its file that satisfy its filter, in order,
  whether they come from the file, the table cache or the result cache.\<close>

theorem from_csv_session:
  assumes "pool_order filter_tp_threads order"
    and "\<forall>(path, stmt) \<in> set queries. file_ok stod files types names content rows path \<and> filter_ok (types path) (rows path) stmt"
  shows "\<exists>ts caches. import_all fresh order re stod files types names queries no_caches = Inr (ts, caches) \<and>
    map (from_columnar order) ts =
      map (\<lambda>(path, stmt). Inr \<lparr>tb_types = types path, tb_data = filter (satisfies re stmt) (rows path)\<rparr>) queries"
  by (rule import_all_correct[OF assms no_caches_ok])

definition example_rows :: "data list list" where
  "example_rows = [[D_int32 7, D_string [97, 34]], [D_int32 (- 1), D_null]]"

lemma example_rows_file:
  "file_ok stod (\<lambda>_. Inr [csv_rows example_rows]) (\<lambda>_. [INT32, VARCHAR]) (\<lambda>_. None)
     (\<lambda>_. map (map field_text) example_rows) (\<lambda>_. example_rows) path"
  by (rule file_of_rows)
    (simp_all add: importable_def example_rows_def cell_ok_def csv_rows_def csv_file_def)

lemma example_rows_chunks:
  "concat (takeWhile (\<lambda>bytes_read. bytes_read \<noteq> []) [take 3 (csv_rows example_rows), drop 3 (csv_rows example_rows)]) =
   csv_rows example_rows"
proof -
  have "3 < length (csv_rows example_rows)"
    by (simp add: csv_rows_def csv_file_def csv_field_def example_rows_def)
  then show ?thesis by auto
qed

theorem from_csv_session_witness:
  "\<exists>ts caches. import_all (\<lambda>_ _ _. 0) [0..<filter_tp_threads] \<lparr>re2_ok = (\<lambda>r. True), re2_full_match = (\<lambda>s r. True)\<rparr>
      (\<lambda>_. None) (\<lambda>_. Inr [csv_rows example_rows]) (\<lambda>_. [INT32, VARCHAR]) (\<lambda>_. None)
      [([], None), ([], Some (Comparison 0 GT (L_int64 5))), ([], None)] no_caches = Inr (ts, caches) \<and>
    map (from_columnar [0..<filter_tp_threads]) ts =
      map (\<lambda>(path, stmt). Inr \<lparr>tb_types = [INT32, VARCHAR],
          tb_data = filter (satisfies \<lparr>re2_ok = (\<lambda>r. True), re2_full_match = (\<lambda>s r. True)\<rparr> stmt) example_rows\<rparr>)
        [([] :: bytes, None), ([], Some (Comparison 0 GT (L_int64 5))), ([], None)]"
  by (rule from_csv_session[OF default_pool_order, where content = "\<lambda>_. map (map field_text) example_rows" and rows = "\<lambda>_. example_rows"])
    (use example_rows_file in \<open>auto simp: filter_ok_def comparison_ok_def rows_ok_def example_rows_def cell_ok_def data_exact_def\<close>)

text \<open>Tables survive the way through a text file: rows of integers and strings, integers printed in
  decimal, NULL as an empty field, written as a quoted CSV file and imported in any chunks, are read
  back from the pages unchanged.\<close>

theorem csv_table_roundtrip:
  assumes "pool_order filter_tp_threads order" and "types \<noteq> []" and "list_all importable types" and "rows \<noteq> []"
    and "length rows < 2 ^ 64 - 2"
    and "\<forall>row \<in> set rows. list_all2 cell_ok types row \<and> D_string [] \<notin> set row"
    and "concat (takeWhile (\<lambda>bytes_read. bytes_read \<noteq> []) reads) = csv_rows rows"
  shows "\<exists>t caches. from_csv fresh order re stod (\<lambda>_. Inr reads) types path None False no_caches = Inr (t, caches) \<and>
    from_columnar order t = Inr \<lparr>tb_types = types, tb_data = rows\<rparr>"
proof -
  have src: "file_ok stod (\<lambda>_. Inr reads) (\<lambda>_. types) (\<lambda>_. None) (\<lambda>_. map (map field_text) rows) (\<lambda>_. rows) path"
    using assms(2-7) by (rule file_of_rows)
  have "filter_ok types rows None" by (simp add: filter_ok_def)
  then obtain t caches where
    "from_csv fresh order re stod (\<lambda>_. Inr reads) types path None False no_caches = Inr (t, caches)"
    "stores t types (filter (satisfies re None) rows)"
    using from_csv_correct[OF assms(1) src _ no_caches_ok, of None fresh re] by auto
  then show ?thesis
    using stores_from_columnar[OF assms(1), of t types rows] stores_rows_length[OF src]
    by (auto simp: satisfies_def[abs_def])
qed

theorem csv_table_roundtrip_witness:
  "\<exists>t caches. from_csv (\<lambda>_ _ _. 0) [0..<filter_tp_threads] \<lparr>re2_ok = (\<lambda>r. True), re2_full_match = (\<lambda>s r. True)\<rparr>
      (\<lambda>_. None) (\<lambda>_. Inr [take 3 (csv_rows example_rows), drop 3 (csv_rows example_rows)]) [INT32, VARCHAR] [] None False no_caches =
      Inr (t, caches) \<and>
    from_columnar [0..<filter_tp_threads] t = Inr \<lparr>tb_types = [INT32, VARCHAR], tb_data = example_rows\<rparr>"
  by (rule csv_table_roundtrip[OF default_pool_order])
    (use example_rows_chunks in \<open>simp_all add: importable_def example_rows_def cell_ok_def\<close>)

end
