(* ===== verification/Queries.thy ===== *)
theory Queries
  imports Execute CsvImport
begin

text \<open>
  A query from the text files to the rows of the answer: tables are imported from CSV files
  (\<open>src/build_table.cpp\<close>), a plan over them is executed (\<open>src/execute_default.cpp\<close>) and
  the resulting pages are read back as rows (\<open>Table::from_columnar\<close>), the way
  \<open>tests/read_sql.cpp\<close> runs a query. The specification \<open>eval_rows\<close> knows
  neither pages nor cells: it evaluates the plan on the rows of the files.
\<close>

section \<open>The specification\<close>

definition join_rows :: "nat \<Rightarrow> nat \<Rightarrow> attrs \<Rightarrow> data list list \<Rightarrow> data list list \<Rightarrow> data list list" where
  "join_rows la ra attrs L R =
     concat (map (\<lambda>l. map (\<lambda>r. map (\<lambda>a. (l @ r) ! fst a) attrs)
       (filter (\<lambda>r. l ! la \<noteq> D_null \<and> l ! la = r ! ra) R)) L)"

fun eval_rows :: "nat \<Rightarrow> plan \<Rightarrow> data list list list \<Rightarrow> nat \<Rightarrow> data list list" where
  "eval_rows 0 plan db i = []"
| "eval_rows (Suc fuel) plan db i =
     (let node = pl_nodes plan ! i; attrs = pn_output_attrs node
      in case pn_data node of
           Scan_node s \<Rightarrow> map (\<lambda>row. map (\<lambda>a. row ! fst a) attrs) (db ! sn_base_table_id s)
         | Join_node j \<Rightarrow> join_rows (jn_left_attr j) (jn_right_attr j) attrs
             (eval_rows fuel plan db (jn_left j)) (eval_rows fuel plan db (jn_right j)))"

definition query_rows :: "plan \<Rightarrow> data list list list \<Rightarrow> nat \<Rightarrow> data list list" where
  "query_rows plan db i = eval_rows (Suc i) plan db i"

text \<open>
  What the engine asks of a scanned column, in terms of its values: no INT32 is -1; no two long
  strings follow each other, and the strings have at most 2^32 characters, each counted with one more.
\<close>

definition long_string :: "data \<Rightarrow> bool" where
  "long_string d = (case d of D_string s \<Rightarrow> PAGE_SIZE - 7 < length s | _ \<Rightarrow> False)"

definition scannable :: "data_type \<Rightarrow> data list \<Rightarrow> bool" where
  "scannable ty ds \<longleftrightarrow>
     (case ty of
        INT32 \<Rightarrow> D_int32 (- 1) \<notin> set ds
      | VARCHAR \<Rightarrow> sum_list (map data_size ds) \<le> 2 ^ 32 \<and>
          successively (\<lambda>d e. long_string d \<longrightarrow> \<not> long_string e) ds
      | _ \<Rightarrow> False)"

definition scan_rows_ok :: "data_type list list \<Rightarrow> data list list list \<Rightarrow> scan_node \<Rightarrow> attrs \<Rightarrow> bool" where
  "scan_rows_ok schema db s attrs \<longleftrightarrow>
     (let tid = sn_base_table_id s
      in tid < length db \<and> tid < 255 \<and>
         (\<forall>a \<in> set attrs. fst a < 256 \<and> fst a < length (schema ! tid) \<and> snd a = schema ! tid ! fst a \<and>
            scannable (snd a) (map (\<lambda>row. row ! fst a) (db ! tid))))"

definition query_ok :: "plan \<Rightarrow> data_type list list \<Rightarrow> data list list list \<Rightarrow> bool" where
  "query_ok plan schema db \<longleftrightarrow>
     plan_acyclic plan \<and> pl_root plan < length (pl_nodes plan) \<and> length schema = length db \<and>
     (\<forall>i < length (pl_nodes plan).
        length (query_rows plan db i) < 2 ^ 32 \<and>
        (case pn_data (pl_nodes plan ! i) of
           Scan_node s \<Rightarrow> scan_rows_ok schema db s (pn_output_attrs (pl_nodes plan ! i))
         | Join_node j \<Rightarrow> join_node_ok (pn_output_attrs (pl_nodes plan ! jn_left j))
                           (pn_output_attrs (pl_nodes plan ! jn_right j)) j (pn_output_attrs (pl_nodes plan ! i))))"

section \<open>Cells and values\<close>

primrec cell_data :: "cell \<Rightarrow> data" where
  "cell_data Cell_null = D_null"
| "cell_data (Cell_int v) = D_int32 v"
| "cell_data (Cell_str s) = D_string s"

lemma cell_data_eq: "cell_data x = cell_data y \<longleftrightarrow> x = y" "cell_data x = D_null \<longleftrightarrow> x = Cell_null"
  by (cases x; cases y; simp)+

lemma column_rows_int32: "col_type c = INT32 \<Longrightarrow> column_rows c = map (map_option D_int32) (column_int32_rows c)"
  by (simp add: column_rows_def column_int32_rows_def map_concat comp_def page_rows_data_int32)

lemma column_cells_data:
  assumes "col_type c \<in> {INT32, VARCHAR}"
  shows "map cell_data (column_cells c) = column_data c" "length (column_cells c) = length (column_rows c)"
proof -
  have "cell_data (int32_cell x) = data_of (map_option D_int32 x)" for x
    by (cases x) (simp_all add: int32_cell_def data_of_def)
  moreover have "cell_data (Resolver.string_cell x) = data_of (map_option D_string x)" for x
    by (cases x) (simp_all add: Resolver.string_cell_def data_of_def)
  ultimately show "map cell_data (column_cells c) = column_data c"
  proof (cases "col_type c")
    case INT32
    then show ?thesis
      using \<open>\<And>x. cell_data (int32_cell x) = data_of (map_option D_int32 x)\<close>
      by (simp add: column_cells_def column_data_def column_rows_int32 comp_def)
  next
    case VARCHAR
    then show ?thesis
      using \<open>\<And>x. cell_data (Resolver.string_cell x) = data_of (map_option D_string x)\<close>
      by (simp add: column_cells_def column_data_def column_rows_def comp_def)
  qed (use assms in simp_all)
  then show "length (column_cells c) = length (column_rows c)"
    by (metis column_data_def length_map)
qed

lemma readable_groups: "readable n c \<longleftrightarrow> length (column_rows c) = n \<and> whole_groups c"
  by (simp add: readable_def whole_groups_def)

section \<open>Imported columns are columns the engine can scan\<close>

lemma readable_input:
  assumes "readable n c" "col_type c \<in> {INT32, VARCHAR}"
  shows "input_column_ok n c"
proof -
  have "page_logical_rows INT32 = (\<lambda>p. length (page_rows data_int32 p))"
    by (simp add: fun_eq_iff page_logical_rows_def)
  then show ?thesis
    using assms by (auto simp: input_column_ok_def readable_def column_rows_def decode_length length_concat comp_def)
qed

lemma readable_int:
  assumes "col_type c = INT32" "D_int32 (- 1) \<notin> set (column_data c)"
  shows "int_column_ok c"
proof -
  have "D_int32 (- 1) \<in> set (column_data c)" if "Some (- 1) \<in> set (column_int32_rows c)"
    using that assms(1) unfolding column_data_def column_rows_int32[OF assms(1)]
    by (force simp: data_of_def image_iff)
  then show ?thesis using assms(2) by (auto simp: int_column_ok_def)
qed

abbreviation long_row :: "bytes option \<Rightarrow> bool" where
  "long_row x \<equiv> long_string (data_of (map_option D_string x))"

lemma group_pages:
  assumes "string_group g rows"
  shows "g \<noteq> []" "rows \<noteq> []" "\<forall>p \<in> set g. long_page p \<or> page_offsets_ok p"
    "long_page (last g) \<Longrightarrow> long_row (last rows)" "long_first (hd g) \<Longrightarrow> long_row (hd rows)"
    "successively (\<lambda>p q. long_page p \<longrightarrow> \<not> long_first q) g"
proof -
  have next_ok: "successively (\<lambda>p q. long_page p \<longrightarrow> \<not> long_first q) (p # ps)" if "\<forall>q \<in> set ps. long_next q" for p ps
    using that by (induction ps arbitrary: p) auto
  show "g \<noteq> []" "rows \<noteq> []" "\<forall>p \<in> set g. long_page p \<or> page_offsets_ok p"
    "long_page (last g) \<Longrightarrow> long_row (last rows)" "long_first (hd g) \<Longrightarrow> long_row (hd rows)"
    using assms by (auto simp: string_group_def long_page_def long_string_def data_of_def)
  show "successively (\<lambda>p q. long_page p \<longrightarrow> \<not> long_first q) g"
    using assms next_ok by (auto simp: string_group_def)
qed

lemma groups_adjacent:
  assumes "\<forall>(g, rows) \<in> set gs. string_group g rows"
    and "successively (\<lambda>x y. long_row x \<longrightarrow> \<not> long_row y) (concat (map snd gs))"
  shows "successively (\<lambda>p q. long_page p \<longrightarrow> \<not> long_first q) (concat (map fst gs))"
  using assms
proof (induction gs)
  case (Cons x gs)
  obtain g rows where x: "x = (g, rows)" by (cases x)
  have G: "string_group g rows" using Cons.prems(1) x by simp
  note P = group_pages[OF G]
  have IH: "successively (\<lambda>p q. long_page p \<longrightarrow> \<not> long_first q) (concat (map fst gs))"
    using Cons by (simp add: successively_append_iff)
  show ?case
  proof (cases gs)
    case Nil
    then show ?thesis using P(6) x by simp
  next
    case (Cons y gs')
    obtain g' rows' where y: "y = (g', rows')" by (cases y)
    then have "string_group g' rows'" using Cons.prems(1) Cons by simp
    note Q = group_pages[OF this]
    have "long_row (last rows) \<longrightarrow> \<not> long_row (hd rows')"
      using Cons.prems(2) x y Cons P(2) Q(2) by (simp add: successively_append_iff)
    then have "long_page (last g) \<longrightarrow> \<not> long_first (hd g')" using P(4) Q(5) by blast
    then show ?thesis using IH P(1,6) Q(1) x y Cons by (simp add: successively_append_iff)
  qed
qed simp

lemma readable_string:
  assumes "readable n c" "col_type c = VARCHAR" "scannable VARCHAR (column_data c)"
  shows "string_column_ok c"
proof -
  obtain gs where gs: "col_pages c = concat (map fst gs)" "decode_strings (col_pages c) = concat (map snd gs)"
    "\<forall>(g, rows) \<in> set gs. string_group g rows"
    using assms(1,2) by (auto simp: readable_def string_groups_def)
  have data: "column_data c = map (\<lambda>x. data_of (map_option D_string x)) (concat (map snd gs))"
    using assms(2) gs(2) by (simp add: column_data_def column_rows_def)
  have "sum_list (map row_size (concat (map snd gs))) \<le> 2 ^ 32"
    and "successively (\<lambda>x y. long_row x \<longrightarrow> \<not> long_row y) (concat (map snd gs))"
    using assms(3) unfolding data scannable_def by (simp_all add: successively_map comp_def)
  then have "length (col_pages c) \<le> 2 ^ 32" "successively (\<lambda>p q. long_page p \<longrightarrow> \<not> long_first q) (col_pages c)"
    using groups_length[OF gs(3)] groups_adjacent[OF gs(3)] gs(1) by simp_all
  moreover have "long_page p \<or> page_offsets_ok p" if "p \<in> set (col_pages c)" for p
    using that gs(1,3) group_pages(3) by fastforce
  ultimately show ?thesis
    by (auto simp: string_column_ok_def no_adjacent_long_def successively_conv_nth)
qed

section \<open>Plans over imported tables\<close>

lemma stores_column:
  assumes "stores t types rows" "k < length types"
  shows "k < length (tbl_columns t)" "readable (length rows) (tbl_columns t ! k)"
    "col_type (tbl_columns t ! k) = types ! k" "column_data (tbl_columns t ! k) = map (\<lambda>row. row ! k) rows"
    "tbl_num_rows t = length rows"
proof -
  have S: "map col_type (tbl_columns t) = types" "map column_data (tbl_columns t) = map (\<lambda>k. map (\<lambda>row. row ! k) rows) [0..<length types]"
    using assms(1) by (simp_all add: stores_def)
  show k: "k < length (tbl_columns t)" using S(1) assms(2) by auto
  then show "readable (length rows) (tbl_columns t ! k)" "tbl_num_rows t = length rows" using assms(1) by (simp_all add: stores_def)
  show "col_type (tbl_columns t ! k) = types ! k" using S(1) k by auto
  have "map column_data (tbl_columns t) ! k = map (\<lambda>row. row ! k) rows" unfolding S(2) using assms(2) by simp
  then show "column_data (tbl_columns t ! k) = map (\<lambda>row. row ! k) rows" using k by simp
qed

lemma scan_rows_supported:
  assumes t: "list_all2 (\<lambda>t (types, rows). stores t types rows) ts (zip schema db)" "length schema = length db"
    and ok: "scan_rows_ok schema db s attrs" and inputs: "pl_inputs plan = ts"
  shows "scan_node_ok plan s attrs"
    "map (map cell_data) (table_rows (ts ! sn_base_table_id s) attrs) =
      map (\<lambda>row. map (\<lambda>a. row ! fst a) attrs) (db ! sn_base_table_id s)"
proof -
  let ?tid = "sn_base_table_id s"
  have tid: "?tid < length db" "?tid < length ts" "?tid < 255"
    using ok t by (auto simp: scan_rows_ok_def Let_def list_all2_conv_all_nth)
  have st: "stores (ts ! ?tid) (schema ! ?tid) (db ! ?tid)"
    using t tid by (auto simp: list_all2_conv_all_nth)
  have a: "fst a < 256" "fst a < length (schema ! ?tid)" "snd a = schema ! ?tid ! fst a"
    "scannable (snd a) (map (\<lambda>row. row ! fst a) (db ! ?tid))" if "a \<in> set attrs" for a
    using ok that by (auto simp: scan_rows_ok_def Let_def)
  note C = stores_column[OF st a(2)]
  have ty: "col_type (tbl_columns (ts ! ?tid) ! fst a) = snd a" "snd a \<in> {INT32, VARCHAR}" if "a \<in> set attrs" for a
    using C(3)[OF that] a(3,4)[OF that] by (auto simp: scannable_def split: data_type.splits)
  have n: "tbl_num_rows (ts ! ?tid) = length (db ! ?tid)" using st by (simp add: stores_def)
  have col: "if snd a = INT32 then int_column_ok (tbl_columns (ts ! ?tid) ! fst a)
      else string_column_ok (tbl_columns (ts ! ?tid) ! fst a)" if "a \<in> set attrs" for a
  proof (cases "snd a = INT32")
    case True
    then show ?thesis using readable_int[of "tbl_columns (ts ! ?tid) ! fst a"] ty(1)[OF that] C(4)[OF that] a(4)[OF that]
      by (simp add: scannable_def)
  next
    case False
    then have "snd a = VARCHAR" using ty(2)[OF that] by simp
    then show ?thesis using readable_string[OF C(2)[OF that]] ty(1)[OF that] C(4)[OF that] a(4)[OF that] by simp
  qed
  have "scan_ok plan s attrs"
    unfolding scan_ok_def Let_def inputs
    using tid n C(1) ty a readable_input[OF C(2)] by auto
  then show "scan_node_ok plan s attrs"
    using tid(3) a(1) col by (auto simp: scan_node_ok_def inputs Let_def)
  have "cell_data (column_cells (tbl_columns (ts ! ?tid) ! fst a) ! r) = db ! ?tid ! r ! fst a"
    if "a \<in> set attrs" "r < length (db ! ?tid)" for a r
  proof -
    have "length (column_cells (tbl_columns (ts ! ?tid) ! fst a)) = length (db ! ?tid)"
      using column_cells_data(2) ty[OF that(1)] C(2)[OF that(1)] by (simp add: readable_def)
    then have "cell_data (column_cells (tbl_columns (ts ! ?tid) ! fst a) ! r) =
        map cell_data (column_cells (tbl_columns (ts ! ?tid) ! fst a)) ! r" using that(2) by simp
    then show ?thesis using column_cells_data(1) ty[OF that(1)] C(4)[OF that(1)] that(2) by simp
  qed
  then show "map (map cell_data) (table_rows (ts ! ?tid) attrs) = map (\<lambda>row. map (\<lambda>a. row ! fst a) attrs) (db ! ?tid)"
    using n by (intro nth_equalityI) (auto simp: table_rows_def)
qed

lemma eval_plan_row_length: "row \<in> set (eval_plan f plan i) \<Longrightarrow> length row = length (pn_output_attrs (pl_nodes plan ! i))"
  by (cases f; cases "pn_data (pl_nodes plan ! i)") (auto simp: Let_def table_rows_def equi_join_def)

lemma equi_join_data:
  assumes rows: "\<forall>l \<in> set L. length l = nl" "\<forall>r \<in> set R. length r = nr" and keys: "la < nl" "ra < nr"
    and attrs: "\<forall>a \<in> set attrs. fst a < nl + nr"
  shows "map (map cell_data) (equi_join la ra attrs L R) = join_rows la ra attrs (map (map cell_data) L) (map (map cell_data) R)"
proof -
  have cond: "map cell_data l ! la \<noteq> D_null \<and> map cell_data l ! la = map cell_data r ! ra \<longleftrightarrow> l ! la \<noteq> Cell_null \<and> l ! la = r ! ra"
    if "l \<in> set L" "r \<in> set R" for l r
    using rows keys that by (simp add: cell_data_eq)
  have out: "map (\<lambda>a. (map cell_data l @ map cell_data r) ! fst a) attrs = map cell_data (map (\<lambda>a. (l @ r) ! fst a) attrs)"
    if "l \<in> set L" "r \<in> set R" for l r
    using rows attrs that by (auto simp: nth_append)
  have "map (\<lambda>r. map (\<lambda>a. (map cell_data l @ r) ! fst a) attrs)
        (filter (\<lambda>r. map cell_data l ! la \<noteq> D_null \<and> map cell_data l ! la = r ! ra) (map (map cell_data) R)) =
      map (map cell_data) (map (\<lambda>r. map (\<lambda>a. (l @ r) ! fst a) attrs) (filter (\<lambda>r. l ! la \<noteq> Cell_null \<and> l ! la = r ! ra) R))"
    if l: "l \<in> set L" for l
  proof -
    have "filter (\<lambda>r. map cell_data l ! la \<noteq> D_null \<and> map cell_data l ! la = map cell_data r ! ra) R =
        filter (\<lambda>r. l ! la \<noteq> Cell_null \<and> l ! la = r ! ra) R"
      using cond[OF l] by (rule filter_cong[OF refl])
    then show ?thesis
      using out[OF l] by (simp add: filter_map comp_def)
  qed
  then show ?thesis
    unfolding join_rows_def equi_join_def map_concat map_map comp_def
    by (intro arg_cong[of _ _ concat] map_cong) simp_all
qed

lemma query_nodes:
  assumes "query_ok plan schema db" "i < length (pl_nodes plan)"
  shows "plan_acyclic plan" "length schema = length db" "length (query_rows plan db i) < 2 ^ 32"
    "pn_data (pl_nodes plan ! i) = Scan_node s \<Longrightarrow> scan_rows_ok schema db s (pn_output_attrs (pl_nodes plan ! i))"
    "pn_data (pl_nodes plan ! i) = Join_node j \<Longrightarrow> join_node_ok (pn_output_attrs (pl_nodes plan ! jn_left j))
       (pn_output_attrs (pl_nodes plan ! jn_right j)) j (pn_output_attrs (pl_nodes plan ! i))"
  using assms by (auto simp: query_ok_def split: node_data.splits)

lemma eval_plan_data:
  assumes t: "list_all2 (\<lambda>t (types, rows). stores t types rows) ts (zip schema db)" and ok: "query_ok plan schema db"
  shows "i < length (pl_nodes plan) \<Longrightarrow>
    map (map cell_data) (eval_plan f (plan\<lparr>pl_inputs := ts\<rparr>) i) = eval_rows f plan db i"
proof (induction f arbitrary: i)
  case (Suc f)
  let ?p = "plan\<lparr>pl_inputs := ts\<rparr>" and ?attrs = "pn_output_attrs (pl_nodes plan ! i)"
  note Q = query_nodes[OF ok Suc.prems]
  show ?case
  proof (cases "pn_data (pl_nodes plan ! i)")
    case (Scan_node s)
    have "map (map cell_data) (table_rows (ts ! sn_base_table_id s) ?attrs) =
        map (\<lambda>row. map (\<lambda>a. row ! fst a) ?attrs) (db ! sn_base_table_id s)"
      by (rule scan_rows_supported(2)[OF t Q(2) Q(4)[OF Scan_node], of ?p]) simp
    then show ?thesis by (simp add: Scan_node Let_def)
  next
    case (Join_node j)
    let ?l = "jn_left j" and ?r = "jn_right j"
    note below = acyclic_children[OF Q(1) Suc.prems Join_node]
    have lr: "?l < length (pl_nodes plan)" "?r < length (pl_nodes plan)" using below Suc.prems by simp_all
    have len: "\<forall>row \<in> set (eval_plan f ?p c). length row = length (pn_output_attrs (pl_nodes plan ! c))" for c
      using eval_plan_row_length[of _ f ?p c] by simp
    note J = Q(5)[OF Join_node]
    have "map (map cell_data) (equi_join (jn_left_attr j) (jn_right_attr j) ?attrs (eval_plan f ?p ?l) (eval_plan f ?p ?r)) =
        join_rows (jn_left_attr j) (jn_right_attr j) ?attrs
          (map (map cell_data) (eval_plan f ?p ?l)) (map (map cell_data) (eval_plan f ?p ?r))"
      by (rule equi_join_data[OF len len]) (use J in \<open>auto simp: join_node_ok_def\<close>)
    then show ?thesis
      unfolding Suc.IH[OF lr(1)] Suc.IH[OF lr(2)] by (simp add: Join_node Let_def)
  qed
qed simp

lemma query_plan_ok:
  assumes t: "list_all2 (\<lambda>t (types, rows). stores t types rows) ts (zip schema db)" and ok: "query_ok plan schema db"
  shows "plan_ok (plan\<lparr>pl_inputs := ts\<rparr>)"
proof -
  let ?p = "plan\<lparr>pl_inputs := ts\<rparr>"
  have "node_ok ?p i" if i: "i < length (pl_nodes plan)" for i
  proof -
    note Q = query_nodes[OF ok i]
    have "length (node_rows ?p i) = length (query_rows plan db i)"
      unfolding node_rows_def query_rows_def eval_plan_data[OF t ok i, symmetric] by simp
    then have "length (node_rows ?p i) < 2 ^ 32" using Q(3) by simp
    moreover have "scan_node_ok ?p s (pn_output_attrs (pl_nodes plan ! i))" if "pn_data (pl_nodes plan ! i) = Scan_node s" for s
      by (rule scan_rows_supported(1)[OF t Q(2) Q(4)[OF that]]) simp
    ultimately show ?thesis using Q(5) by (auto simp: node_ok_def Let_def split: node_data.splits)
  qed
  moreover have "plan_acyclic ?p" "pl_root ?p < length (pl_nodes ?p)"
    using ok by (simp_all add: query_ok_def plan_acyclic_def)
  ultimately show ?thesis by (simp add: plan_ok_def)
qed

section \<open>Reading the answer\<close>

lemma output_columns_readable:
  assumes "\<forall>c \<in> set (tbl_columns t). col_type c \<in> {INT32, VARCHAR}"
    and "\<forall>c \<in> set (tbl_columns t). length (column_cells c) = tbl_num_rows t \<and> whole_groups c"
  shows "\<forall>c \<in> set (tbl_columns t). readable (tbl_num_rows t) c"
  using assms column_cells_data(2) by (auto simp: readable_groups)

lemma output_rows_data:
  assumes order: "pool_order filter_tp_threads order"
    and types: "\<forall>c \<in> set (tbl_columns t). col_type c \<in> {INT32, VARCHAR}"
    and cols: "\<forall>c \<in> set (tbl_columns t). length (column_cells c) = tbl_num_rows t \<and> whole_groups c"
  shows "from_columnar order t =
    Inr \<lparr>tb_types = map col_type (tbl_columns t), tb_data = map (map cell_data) (output_rows t)\<rparr>"
proof -
  have "from_columnar order t = Inr \<lparr>tb_types = map col_type (tbl_columns t),
      tb_data = transpose_rows (tbl_num_rows t) (map column_data (tbl_columns t))\<rparr>"
    using output_columns_readable[OF types cols] by (intro from_columnar_correct[OF order]) blast
  moreover have "cell_data (column_cells c ! r) = column_data c ! r" if "c \<in> set (tbl_columns t)" "r < tbl_num_rows t" for c r
  proof -
    have "map cell_data (column_cells c) ! r = cell_data (column_cells c ! r)" using that cols by simp
    then show ?thesis using column_cells_data(1)[of c] types that(1) by simp
  qed
  then have "map (map cell_data) (output_rows t) = transpose_rows (tbl_num_rows t) (map column_data (tbl_columns t))"
    by (auto simp: output_rows_def transpose_rows_def)
  ultimately show ?thesis by simp
qed

lemma query_over_tables:
  assumes order: "pool_order filter_tp_threads order"
    and ts: "list_all2 (\<lambda>t (path, stmt). stores t (types path) (filter (satisfies re stmt) (rows path))) ts queries"
    and query: "query_ok plan (map (\<lambda>(path, stmt). types path) queries)
      (map (\<lambda>(path, stmt). filter (satisfies re stmt) (rows path)) queries)"
    and env: "env_ok env" and fuel: "pl_root plan < fuel"
    and few: "length (pn_output_attrs (pl_nodes plan ! pl_root plan)) \<le> MAX_COLS"
  shows "\<exists>t en' answer.
    execute fuel env fresh' (plan\<lparr>pl_inputs := ts\<rparr>) en = Inr (t, en') \<and>
    map col_type (tbl_columns t) = map snd (pn_output_attrs (pl_nodes plan ! pl_root plan)) \<and>
    (\<forall>c \<in> set (tbl_columns t). col_type c \<in> {INT32, VARCHAR} \<and> readable (tbl_num_rows t) c) \<and>
    from_columnar order t = Inr answer \<and>
    tb_types answer = map snd (pn_output_attrs (pl_nodes plan ! pl_root plan)) \<and>
    mset (tb_data answer) =
      mset (query_rows plan (map (\<lambda>(path, stmt). filter (satisfies re stmt) (rows path)) queries) (pl_root plan))"
proof -
  let ?schema = "map (\<lambda>(path, stmt). types path) queries"
  let ?db = "map (\<lambda>(path, stmt). filter (satisfies re stmt) (rows path)) queries"
  let ?p = "plan\<lparr>pl_inputs := ts\<rparr>" and ?attrs = "pn_output_attrs (pl_nodes plan ! pl_root plan)"
  have stored: "list_all2 (\<lambda>t (types, rows). stores t types rows) ts (zip ?schema ?db)"
    using ts by (auto simp: list_all2_conv_all_nth split: prod.splits)
  have plan: "plan_ok ?p" by (rule query_plan_ok[OF stored query])
  have root: "pl_root plan < length (pl_nodes plan)" using query by (simp add: query_ok_def)
  obtain t en' where t: "execute fuel env fresh' ?p en = Inr (t, en')" "map col_type (tbl_columns t) = map snd ?attrs"
    "\<forall>c \<in> set (tbl_columns t). length (column_cells c) = tbl_num_rows t \<and> whole_groups c"
    "mset (output_rows t) = mset (node_rows ?p (pl_root plan))"
    using execute_correct[OF plan env, of fuel fresh' en] fuel few by auto
  have ac: "plan_acyclic ?p" and ok: "\<forall>i < length (pl_nodes ?p). node_ok ?p i" using plan by (auto simp: plan_ok_def)
  have "snd a \<in> {INT32, VARCHAR}" if "a \<in> set ?attrs" for a
    using node_types[OF ac ok, of "pl_root plan" a] root that by simp
  then have types: "\<forall>c \<in> set (tbl_columns t). col_type c \<in> {INT32, VARCHAR}"
    using t(2) by (metis (no_types, lifting) image_eqI image_iff list.set_map)
  note readable = output_columns_readable[OF types t(3)]
  from output_rows_data[OF order types t(3)] have out: "from_columnar order t =
    Inr \<lparr>tb_types = map snd ?attrs, tb_data = map (map cell_data) (output_rows t)\<rparr>" using t(2) by simp
  have "mset (map (map cell_data) (output_rows t)) = mset (map (map cell_data) (node_rows ?p (pl_root plan)))"
    using t(4) by simp
  also have "map (map cell_data) (node_rows ?p (pl_root plan)) = query_rows plan ?db (pl_root plan)"
    unfolding node_rows_def query_rows_def by (rule eval_plan_data[OF stored query root])
  finally show ?thesis
    using t(1,2) out types readable
    by (intro exI[of _ t] exI[of _ en'] exI[of _ "\<lparr>tb_types = map snd ?attrs, tb_data = map (map cell_data) (output_rows t)\<rparr>"]) simp
qed

section \<open>Properties\<close>

text \<open>C2. A query answers what it asks of the files: tables are imported from quoted CSV texts (any chunks,
  headers or not, filtered or not, through the caches or not, any order of the filter threads), a plan over them is
  executed by any number of threads in any interleaving, and the pages of the result are read back as rows. If the values of
  the scanned columns are ones the engine can represent and no node exceeds 2^32 rows, nothing goes wrong
  at any step, and the rows read are, as a bag, the relational evaluation of the plan on the rows of the
  files that satisfy the filters, with the types of the root.\<close>

theorem csv_query_answers:
  assumes "pool_order filter_tp_threads order"
    and "\<forall>(path, stmt) \<in> set queries. file_ok stod files types names content rows path \<and> filter_ok (types path) (rows path) stmt"
    and "query_ok plan (map (\<lambda>(path, stmt). types path) queries)
      (map (\<lambda>(path, stmt). filter (satisfies re stmt) (rows path)) queries)"
    and "env_ok env" "pl_root plan < fuel" "length (pn_output_attrs (pl_nodes plan ! pl_root plan)) \<le> MAX_COLS"
  shows "\<exists>ts caches t en' answer.
    import_all fresh order re stod files types names queries no_caches = Inr (ts, caches) \<and>
    execute fuel env fresh' (plan\<lparr>pl_inputs := ts\<rparr>) en = Inr (t, en') \<and>
    from_columnar order t = Inr answer \<and>
    tb_types answer = map snd (pn_output_attrs (pl_nodes plan ! pl_root plan)) \<and>
    mset (tb_data answer) =
      mset (query_rows plan (map (\<lambda>(path, stmt). filter (satisfies re stmt) (rows path)) queries) (pl_root plan))"
proof -
  obtain ts caches where ts: "import_all fresh order re stod files types names queries no_caches = Inr (ts, caches)"
    "list_all2 (\<lambda>t (path, stmt). stores t (types path) (filter (satisfies re stmt) (rows path))) ts queries"
    using import_all_stores[OF assms(1,2) no_caches_ok, of fresh re] by blast
  then show ?thesis using query_over_tables[OF assms(1) ts(2) assms(3-6), of fresh' en] by blast
qed

text \<open>A file joined with a selection of its own rows, by the sample plan.\<close>

definition example_csv :: "data list list" where
  "example_csv = [[D_int32 7, D_string [97, 34]], [D_int32 9, D_null], [D_int32 7, D_string [98]]]"

definition example_re :: re2 where
  "example_re = \<lparr>re2_ok = (\<lambda>r. True), re2_full_match = (\<lambda>s r. True)\<rparr>"

definition example_queries :: "(bytes \<times> statement option) list" where
  "example_queries = [([], None), ([], Some (Comparison 1 IS_NOT_NULL L_null))]"

lemma example_db:
  "map (\<lambda>(path :: bytes, stmt). filter (satisfies example_re stmt) example_csv) example_queries =
   [example_csv, [[D_int32 7, D_string [97, 34]], [D_int32 7, D_string [98]]]]"
  by (simp add: example_queries_def example_csv_def satisfies_def eval_comparison_row_def compare_data_def)

lemma example_query_rows:
  "query_rows example_plan [example_csv, [[D_int32 7, D_string [97, 34]], [D_int32 7, D_string [98]]]] 2 = 
   [[D_int32 7, D_string [97, 34]], [D_int32 7, D_string [98]], [D_int32 7, D_string [97, 34]], [D_int32 7, D_string [98]]]"
  by (simp add: query_rows_def example_plan_def example_csv_def join_rows_def numeral_2_eq_2)

lemma example_file:
  "file_ok stod (\<lambda>_. Inr [csv_rows example_csv]) (\<lambda>_. [INT32, VARCHAR]) (\<lambda>_. None)
     (\<lambda>_. map (map field_text) example_csv) (\<lambda>_. example_csv) path"
  by (rule file_of_rows) (simp_all add: importable_def example_csv_def cell_ok_def csv_rows_def csv_file_def)

lemma example_query_ok:
  "query_ok example_plan [[INT32, VARCHAR], [INT32, VARCHAR]]
     [example_csv, [[D_int32 7, D_string [97, 34]], [D_int32 7, D_string [98]]]]"
proof -
  let ?db = "[example_csv, [[D_int32 7, D_string [97, 34]], [D_int32 7, D_string [98]]]]"
  have rows: "length (query_rows example_plan ?db 0) = 3" "length (query_rows example_plan ?db 1) = 2"
    "length (query_rows example_plan ?db 2) = 4"
    unfolding example_query_rows by (simp_all add: query_rows_def example_plan_def example_csv_def)
  have scans: "scan_rows_ok [[INT32, VARCHAR], [INT32, VARCHAR]] ?db \<lparr>sn_base_table_id = 0\<rparr> [(0, INT32)]"
    "scan_rows_ok [[INT32, VARCHAR], [INT32, VARCHAR]] ?db \<lparr>sn_base_table_id = 1\<rparr> [(0, INT32), (1, VARCHAR)]"
    by (simp_all add: scan_rows_ok_def scannable_def example_csv_def data_size_def long_string_def PAGE_SIZE_def)
  let ?P = "\<lambda>i. length (query_rows example_plan ?db i) < 2 ^ 32 \<and>
        (case pn_data (pl_nodes example_plan ! i) of
           Scan_node s \<Rightarrow> scan_rows_ok [[INT32, VARCHAR], [INT32, VARCHAR]] ?db s (pn_output_attrs (pl_nodes example_plan ! i))
         | Join_node j \<Rightarrow> join_node_ok (pn_output_attrs (pl_nodes example_plan ! jn_left j))
                           (pn_output_attrs (pl_nodes example_plan ! jn_right j)) j (pn_output_attrs (pl_nodes example_plan ! i)))"
  have "?P 0" using rows(1) scans(1) by (simp add: example_plan_def)
  moreover have "?P 1" using rows(2) scans(2) by (simp add: example_plan_def)
  moreover have "?P 2" using rows(3) by (simp add: example_plan_def join_node_ok_def)
  moreover have "i = 0 \<or> i = 1 \<or> i = 2" if "i < 3" for i :: nat using that by linarith
  ultimately have "\<forall>i < 3. ?P i" by blast
  moreover have "plan_acyclic example_plan" using example_plan_ok by (simp add: plan_ok_def)
  moreover have "length (pl_nodes example_plan) = 3" "pl_root example_plan < 3" by (simp_all add: example_plan_def)
  moreover have "length [[INT32, VARCHAR], [INT32, VARCHAR]] = length ?db" by simp
  ultimately show ?thesis unfolding query_ok_def by (simp only: simp_thms)
qed

theorem csv_query_answers_witness:
  "\<exists>ts caches t en' answer.
    import_all (\<lambda>_ _ _. 0) [0..<filter_tp_threads] example_re (\<lambda>_. None) (\<lambda>_. Inr [csv_rows example_csv]) (\<lambda>_. [INT32, VARCHAR])
      (\<lambda>_. None) example_queries no_caches = Inr (ts, caches) \<and>
    execute 3 example_parallel_env example_fresh (example_plan\<lparr>pl_inputs := ts\<rparr>) example_engine = Inr (t, en') \<and>
    from_columnar [0..<filter_tp_threads] t = Inr answer \<and> tb_types answer = [INT32, VARCHAR] \<and>
    mset (tb_data answer) = {#[D_int32 7, D_string [97, 34]], [D_int32 7, D_string [98]],
      [D_int32 7, D_string [97, 34]], [D_int32 7, D_string [98]]#}"
proof -
  have files: "\<forall>(path, stmt) \<in> set example_queries.
      file_ok (\<lambda>_. None) (\<lambda>_. Inr [csv_rows example_csv]) (\<lambda>_. [INT32, VARCHAR]) (\<lambda>_. None)
        (\<lambda>_. map (map field_text) example_csv) (\<lambda>_. example_csv) path \<and> filter_ok [INT32, VARCHAR] example_csv stmt"
    using example_file by (auto simp: example_queries_def filter_ok_def comparison_ok_def rows_ok_def example_csv_def cell_ok_def data_exact_def)
  have schema: "map (\<lambda>(path :: bytes, stmt :: statement option). [INT32, VARCHAR]) example_queries = [[INT32, VARCHAR], [INT32, VARCHAR]]"
    by (simp add: example_queries_def)
  have root: "pl_root example_plan = 2" "map snd (pn_output_attrs (pl_nodes example_plan ! 2)) = [INT32, VARCHAR]"
    "length (pn_output_attrs (pl_nodes example_plan ! 2)) \<le> MAX_COLS"
    by (simp_all add: example_plan_def MAX_COLS_def)
  have "2 < (3 :: nat)" by simp
  then show ?thesis
    using csv_query_answers[OF default_pool_order files, of example_plan example_re example_parallel_env 3 "\<lambda>_ _ _. 0"
        example_fresh example_engine]
      example_query_ok example_parallel_env_ok
    unfolding root schema example_db example_query_rows by (simp only: root example_query_rows mset.simps root(3) simp_thms)
qed

end
