(* ===== verification/CachedQueries.thy ===== *)
theory CachedQueries
  imports Queries
begin

text \<open>
  Queries over cached tables. Between the import of the text files and the queries lies a file: the
  build run dumps the imported, filtered tables (\<open>DumpTable::dump\<close>, \<open>include/table.h\<close>), the query run
  maps them into memory (\<open>Table::from_cache\<close>, \<open>src/build_table.cpp\<close>). In memory a page is a function
  on all offsets, of which a file keeps the first 8192; the operations of an import write no byte behind
  them, so an imported table comes back unchanged, and a query over the cached tables answers what
  a query over the imported tables answers.
\<close>

section \<open>Results that satisfy a predicate if there is one\<close>

definition yields :: "('a \<Rightarrow> bool) \<Rightarrow> 'a res \<Rightarrow> bool" where
  "yields P r \<longleftrightarrow> (\<forall>x. r = Inr x \<longrightarrow> P x)"

lemma yields_simps [simp]: "yields P (Inr x) = P x" "yields P (Inl e)"
  by (simp_all add: yields_def)

lemma yieldsD: "yields P r \<Longrightarrow> r = Inr x \<Longrightarrow> P x"
  by (simp add: yields_def)

lemma yields_rbind: "yields Q r \<Longrightarrow> (\<And>x. Q x \<Longrightarrow> yields P (f x)) \<Longrightarrow> yields P (rbind r f)"
  by (cases r) simp_all

lemma yields_mono: "yields Q r \<Longrightarrow> (\<And>x. Q x \<Longrightarrow> P x) \<Longrightarrow> yields P r"
  by (cases r) simp_all

lemma yields_any: "(\<And>x. yields P (f x)) \<Longrightarrow> yields P (rbind r f)"
  by (cases r) simp_all

lemma yields_rfold:
  assumes "P s" "\<And>x s. x \<in> set xs \<Longrightarrow> P s \<Longrightarrow> yields P (f x s)"
  shows "yields P (rfold f xs s)"
  using assms
proof (induction xs arbitrary: s)
  case (Cons x xs)
  have "yields P (f x s)" using Cons.prems by simp
  moreover have "yields P (rfold f xs s1)" if "P s1" for s1 using Cons.IH[OF that] Cons.prems(2) by simp
  ultimately show ?case by (auto intro: yields_rbind)
qed simp

section \<open>Pages end after 8192 bytes\<close>

definition page_sized :: "page \<Rightarrow> bool" where
  "page_sized p \<longleftrightarrow> (\<forall>i \<ge> PAGE_SIZE. p i = 0)"

definition column_sized :: "column \<Rightarrow> bool" where
  "column_sized c \<longleftrightarrow> (\<forall>p \<in> set (col_pages c). page_sized p)"

definition table_sized :: "columnar_table \<Rightarrow> bool" where
  "table_sized t \<longleftrightarrow> (\<forall>c \<in> set (tbl_columns t). column_sized c)"

lemma stored_sized: "table_sized t \<Longrightarrow> stored_table t = t"
proof -
  assume t: "table_sized t"
  have "stored_page p = p" if "page_sized p" for p using that by (auto simp: stored_page_def page_sized_def fun_eq_iff)
  then have "stored_column c = c" if "column_sized c" for c
    using that by (simp add: stored_column_def column_sized_def map_idI)
  then show ?thesis using t by (simp add: stored_table_def table_sized_def map_idI)
qed

lemma store_sized: "page_sized p \<Longrightarrow> yields page_sized (store_bytes p a bs)"
  by (auto simp: store_bytes_def page_sized_def)

lemma put_sized: "page_sized p \<Longrightarrow> column_sized c \<Longrightarrow> column_sized (put_page i p c)"
  by (auto simp: put_page_def column_sized_def dest!: set_update_subset_insert[THEN subsetD])

lemma new_column_sized: "column_sized (new_column ty)"
  by (simp add: column_sized_def new_column_def)

section \<open>The inserters keep pages sized\<close>

text \<open>New pages are sized as well: what lies behind them is not theirs.\<close>

definition sized_source :: "(nat \<Rightarrow> page) \<Rightarrow> bool" where
  "sized_source fresh \<longleftrightarrow> (\<forall>j. page_sized (fresh j))"

lemma get_page_sized:
  assumes "sized_source fresh" "column_sized c"
  shows "yields (\<lambda>(p, c). page_sized p \<and> column_sized c) (get_page fresh i c)"
  using assms by (auto simp: get_page_def new_page_def Let_def yields_def rbind_eq_Inr at_def sized_source_def column_sized_def
      nth_append split: if_splits)

lemma save_page_sized:
  assumes "sized_source fresh" "column_sized (ins_column s)"
  shows "yields (\<lambda>s. column_sized (ins_column s)) (save_page fresh sz s)"
  unfolding save_page_def Let_def
  by (rule yields_rbind[OF get_page_sized[OF assms]])
    (auto intro!: yields_rbind[OF store_sized] put_sized)

lemma inserter_insert_sized:
  assumes "sized_source fresh" "column_sized (ins_column s)"
  shows "yields (\<lambda>s. column_sized (ins_column s)) (inserter_insert fresh sz v s)"
    "yields (\<lambda>s. column_sized (ins_column s)) (inserter_insert_null fresh sz s)"
    "yields (\<lambda>s. column_sized (ins_column s)) (inserter_finalize fresh sz s)"
proof -
  have save: "yields (\<lambda>s. column_sized (ins_column s)) (if b then save_page fresh sz s else Inr s)" for b
    using save_page_sized[OF assms] assms(2) by simp
  show "yields (\<lambda>s. column_sized (ins_column s)) (inserter_insert fresh sz v s)"
    unfolding inserter_insert_def
    by (rule yields_rbind[OF save], rule yields_rbind[OF get_page_sized[OF assms(1)]], assumption)
      (clarsimp, rule yields_rbind[OF store_sized], assumption, rule yields_any, simp add: put_sized)
  show "yields (\<lambda>s. column_sized (ins_column s)) (inserter_insert_null fresh sz s)"
    unfolding inserter_insert_null_def by (rule yields_rbind[OF save]) (auto intro!: yields_any)
  show "yields (\<lambda>s. column_sized (ins_column s)) (inserter_finalize fresh sz s)"
    unfolding inserter_finalize_def by (rule save)
qed

lemma str_save_page_sized:
  assumes "sized_source fresh" "column_sized (si_column s)"
  shows "yields (\<lambda>s. column_sized (si_column s)) (str_save_page fresh s)"
  unfolding str_save_page_def Let_def
  by (rule yields_rbind[OF get_page_sized[OF assms]])
    (auto intro!: yields_rbind[OF store_sized] put_sized)

lemma save_long_string_sized:
  assumes "sized_source fresh"
  shows "column_sized (si_column s) \<Longrightarrow> yields (\<lambda>s. column_sized (si_column s)) (save_long_string fresh v offset first_page s)"
proof (induction "length v - offset" arbitrary: offset first_page s rule: less_induct)
  case (less offset first_page s)
  show ?case
  proof (cases "offset < length v")
    case True
    let ?len = "min (length v - offset) (PAGE_SIZE - 4)"
    have "length v - (offset + ?len) < length v - offset" using True by (auto simp: PAGE_SIZE_def)
    note IH = less.hyps[OF this]
    show ?thesis
      unfolding save_long_string.simps[of fresh v offset] if_P[OF True] Let_def
      by (rule yields_rbind[OF get_page_sized[OF assms less.prems]])
        (auto intro!: yields_rbind[OF store_sized] put_sized IH)
  next
    case False
    then show ?thesis using less.prems by (simp add: save_long_string.simps[of fresh v offset])
  qed
qed

lemma str_insert_sized:
  assumes "sized_source fresh" "column_sized (si_column s)"
  shows "yields (\<lambda>s. column_sized (si_column s)) (str_insert fresh v s)"
    "yields (\<lambda>s. column_sized (si_column s)) (str_insert_null fresh s)"
    "yields (\<lambda>s. column_sized (si_column s)) (str_finalize fresh s)"
proof -
  have save: "yields (\<lambda>s. column_sized (si_column s)) (if b then str_save_page fresh s else Inr s)" for b
    using str_save_page_sized[OF assms] assms(2) by simp
  show "yields (\<lambda>s. column_sized (si_column s)) (str_insert fresh v s)"
  proof (cases "PAGE_SIZE - 7 < length v")
    case True
    then show ?thesis
      unfolding str_insert_def if_P[OF True] using save_long_string_sized[OF assms(1)] by (intro yields_rbind[OF save])
  next
    case False
    have next_sized: "yields (\<lambda>s. column_sized (si_column s))
        (rbind (copy_into (unat (si_data_size s1)) v (si_data s1)) (\<lambda>data.
           let data_size = si_data_size s1 + of_nat (length v)
           in rbind (get_page fresh (si_last_page_idx s1) (si_column s1)) (\<lambda>(page, column).
              rbind (store_bytes page (si_offset_end s1) (bytes16 data_size)) (\<lambda>page.
              rbind (set_bitmap (unat (si_num_rows s1)) (si_bitmap s1)) (\<lambda>bitmap.
                Inr (s1\<lparr>si_data := data, si_data_size := data_size,
                       si_column := put_page (si_last_page_idx s1) page column,
                       si_offset_end := si_offset_end s1 + 2, si_bitmap := bitmap,
                       si_num_rows := si_num_rows s1 + 1\<rparr>))))))" if "column_sized (si_column s1)" for s1
      unfolding Let_def
      by (rule yields_any, rule yields_rbind[OF get_page_sized[OF assms(1) that]])
        (clarsimp, rule yields_rbind[OF store_sized], assumption, rule yields_any, simp add: put_sized)
    show ?thesis
      unfolding str_insert_def if_not_P[OF False] by (rule yields_rbind[OF save next_sized])
  qed
  show "yields (\<lambda>s. column_sized (si_column s)) (str_insert_null fresh s)"
    unfolding str_insert_null_def by (rule yields_rbind[OF save]) (auto intro!: yields_any)
  show "yields (\<lambda>s. column_sized (si_column s)) (str_finalize fresh s)"
    unfolding str_finalize_def by (rule save)
qed

section \<open>Imported tables are sized\<close>

lemma select_rows_sized:
  assumes "P s" "\<And>i s. P s \<Longrightarrow> yields P (put i s)"
  shows "yields (\<lambda>(ret, s). P s) (select_rows put results rows s)"
  unfolding select_rows_def
proof (rule yields_rfold)
  fix i and x :: "nat \<times> 'a" assume "case x of (ret, s) \<Rightarrow> P s"
  then have "P (snd x)" by (simp add: case_prod_beta)
  then have "yields (\<lambda>(ret, s). P s) (rbind (put i (snd x)) (\<lambda>s. Inr (fst x + 1, s)))"
    using assms(2) by (intro yields_rbind[where Q = P]) simp_all
  then show "yields (\<lambda>(ret, s). P s) ((\<lambda>(ret, s). rbind (bitmap_test results i) (\<lambda>eval_result.
      if eval_result then rbind (put i s) (\<lambda>s. Inr (ret + 1, s)) else Inr (ret, s))) x)"
    using \<open>P (snd x)\<close> by (cases x) (auto intro!: yields_any)
qed (simp add: assms(1))

lemma from_inner_numbers_sized:
  assumes "sized_source fresh" "column_sized c"
  shows "yields (\<lambda>(n, c). column_sized c) (from_inner_numbers fresh sz bytes_of inner c results rows)"
proof -
  note ins = inserter_insert_sized[OF assms(1)]
  have "yields (\<lambda>(ret, s). column_sized (ins_column s)) (select_rows (\<lambda>i s.
         rbind (is_not_null i inner) (\<lambda>not_null.
           if not_null then rbind (ic_get i inner) (\<lambda>value. inserter_insert fresh sz (bytes_of value) s)
           else inserter_insert_null fresh sz s)) results rows (inserter_new sz c))"
    by (rule select_rows_sized) (auto simp: assms(2) inserter_new_def intro!: yields_any ins)
  then show ?thesis
    unfolding from_inner_numbers_def by (rule yields_rbind) (auto intro!: yields_rbind[OF ins(3)])
qed

lemma from_inner_strings_sized:
  assumes "sized_source fresh" "column_sized c"
  shows "yields (\<lambda>(n, c). column_sized c) (from_inner_strings fresh inner c results rows)"
proof -
  note ins = str_insert_sized[OF assms(1)]
  have "yields (\<lambda>(ret, s). column_sized (si_column s)) (select_rows (\<lambda>i s.
         rbind (sc_is_not_null i inner) (\<lambda>not_null.
           if not_null then rbind (sc_get i inner) (\<lambda>value. str_insert fresh value s)
           else str_insert_null fresh s)) results rows (str_inserter_new c))"
    by (rule select_rows_sized) (auto simp: assms(2) str_inserter_new_def intro!: yields_any ins)
  then show ?thesis
    unfolding from_inner_strings_def by (rule yields_rbind) (auto intro!: yields_rbind[OF ins(3)])
qed

lemma from_inner_to_column_sized:
  assumes "sized_source fresh" "column_sized c"
  shows "yields (\<lambda>(n, c). column_sized c) (from_inner_to_column fresh inner c results rows)"
  by (cases inner; simp only: from_inner_to_column_def any_column.case;
      rule from_inner_numbers_sized[OF assms] from_inner_strings_sized[OF assms])

lemma import_columns_sized:
  assumes "\<forall>k. sized_source (fresh k)"
  shows "yields (\<lambda>(r, columns). \<forall>c \<in> set columns. column_sized c) (import_columns fresh order t results)"
proof -
  let ?P = "\<lambda>(r :: nat option, columns). \<forall>c \<in> set columns. column_sized c"
  have one: "yields ?P (rbind (at (it_columns t) k) (\<lambda>inner.
           rbind (at columns k) (\<lambda>column.
           rbind (from_inner_to_column (fresh k) inner column results (it_rows t)) (\<lambda>(filtered_rows, column).
             Inr (Some filtered_rows, columns[k := column])))))" if c: "\<forall>c \<in> set columns. column_sized c" for k columns
  proof -
    have at_sized: "yields column_sized (at columns k)" using c by (simp add: yields_def at_def)
    have put: "yields ?P (rbind (from_inner_to_column (fresh k) inner column results (it_rows t)) (\<lambda>(filtered_rows, column).
             Inr (Some filtered_rows, columns[k := column])))" if "column_sized column" for inner column
      by (rule yields_rbind[OF from_inner_to_column_sized]) (use assms that c in \<open>auto dest!: set_update_subset_insert[THEN subsetD]\<close>)
    show ?thesis by (rule yields_any, rule yields_rbind[OF at_sized put])
  qed
  have init: "?P (None, map (\<lambda>inner. new_column (inner_type inner)) (it_columns t))"
    by (auto simp: new_column_sized)
  have part: "yields ?P (rfold (\<lambda>column_idx (ret_rows, columns).
           rbind (at (it_columns t) column_idx) (\<lambda>inner.
           rbind (at columns column_idx) (\<lambda>column.
           rbind (from_inner_to_column (fresh column_idx) inner column results (it_rows t)) (\<lambda>(filtered_rows, column).
             Inr (Some filtered_rows, columns[column_idx := column]))))) [b..<e] s)" if "?P s" for b e s
    using that by (rule yields_rfold) (use one in auto)
  show ?thesis
    unfolding import_columns_def pool_run_def
    using init part by (auto simp: Let_def intro!: yields_rfold)
qed

lemma select_table_sized:
  assumes "\<forall>k. sized_source (fresh k)"
  shows "yields table_sized (select_table fresh order re stmt t)"
  unfolding select_table_def
  by (rule yields_any, rule yields_rbind[OF import_columns_sized[OF assms]])
    (auto simp: table_sized_def split: option.split)

definition caches_sized :: "csv_caches \<Rightarrow> bool" where
  "caches_sized caches \<longleftrightarrow> (\<forall>path t. result_cache caches path = Some t \<longrightarrow> table_sized t)"

lemma from_csv_sized:
  assumes "\<forall>k. sized_source (fresh k)" "caches_sized caches"
  shows "yields (\<lambda>(t, caches). table_sized t \<and> caches_sized caches)
    (from_csv fresh order re stod files attributes path stmt header caches)"
proof (cases "stmt = None \<and> result_cache caches path \<noteq> None")
  case True
  then show ?thesis using assms(2) by (auto simp: from_csv_def copy_table_same caches_sized_def)
next
  case False
  have load: "yields (\<lambda>(t, caches). caches_sized caches) (case table_cache caches path of
             Some t \<Rightarrow> Inr (t, caches)
           | None \<Rightarrow> rbind (files path) (\<lambda>reads.
               rbind (read_csv stod attributes header reads) (\<lambda>t.
                 Inr (t, caches\<lparr>table_cache := (table_cache caches)(path \<mapsto> t)\<rparr>))))"
    using assms(2) by (auto simp: caches_sized_def intro!: yields_any split: option.split)
  show ?thesis
    unfolding from_csv_miss[OF False]
    by (rule yields_rbind[OF load], clarsimp, rule yields_rbind[OF select_table_sized[OF assms(1)]])
      (auto simp: caches_sized_def copy_table_same)
qed

lemma import_all_sized:
  assumes "\<forall>k. sized_source (fresh k)"
  shows "yields (\<lambda>(ts, caches). \<forall>t \<in> set ts. table_sized t) (import_all fresh order re stod files types names queries no_caches)"
proof -
  let ?P = "\<lambda>(ts, caches). (\<forall>t \<in> set ts. table_sized t) \<and> caches_sized caches"
  have step: "yields ?P ((\<lambda>(ts, caches). rbind (from_csv fresh order re stod files (types path) path stmt (names path \<noteq> None) caches)
      (\<lambda>(t, caches). Inr (ts @ [t], caches))) s)" if "?P s" for path stmt s
    using that by (cases s) (auto intro!: yields_rbind[OF from_csv_sized[OF assms]])
  have "yields ?P (import_all fresh order re stod files types names queries no_caches)"
    unfolding import_all_def
    by (rule yields_rfold) (use step in \<open>auto simp: caches_sized_def no_caches_def\<close>)
  then show ?thesis by (auto simp: yields_def)
qed

section \<open>Through the files\<close>

text \<open>The build run dumps each table to a file, the query run loads them.\<close>

definition reload :: "string \<Rightarrow> columnar_table list \<Rightarrow> columnar_table list res" where
  "reload path ts =
     rfold (\<lambda>t loaded.
       rbind (dump t) (\<lambda>contents.
       rbind (from_cache (\<lambda>_. Inr contents) path) (\<lambda>t. Inr (loaded @ [t])))) ts []"

lemma reload_same:
  assumes "\<forall>t \<in> set ts. table_sized t \<and> table_fits t"
  shows "reload path ts = Inr ts"
proof -
  have one: "rbind (dump t) (\<lambda>contents. rbind (from_cache (\<lambda>_. Inr contents) path) (\<lambda>t. Inr (loaded @ [t]))) = Inr (loaded @ [t])"
    if "table_sized t" "table_fits t" for t loaded
    using load_dumped[OF that(2), of path] stored_sized[OF that(1)] by (cases "dump t") auto
  have "rfold (\<lambda>t loaded. rbind (dump t) (\<lambda>contents. rbind (from_cache (\<lambda>_. Inr contents) path) (\<lambda>t. Inr (loaded @ [t])))) us acc =
      Inr (acc @ us)" if "set us \<subseteq> set ts" for us acc
    using that assms one by (induction us arbitrary: acc) auto
  from this[OF subset_refl, of "[]"] show ?thesis by (simp add: reload_def)
qed

text \<open>At most 16 columns, the arrays of the header, and sizes that 64 bits can count.\<close>

definition cacheable :: "data_type list \<Rightarrow> data list list \<Rightarrow> bool" where
  "cacheable types rows \<longleftrightarrow>
     length types \<le> MAX_COLS \<and> (\<forall>k < length types. sum_list (map (\<lambda>row. data_size (row ! k)) rows) < 2 ^ 62)"

lemma cacheable_fits:
  assumes "stores t types rows" "cacheable types rows" "types = [] \<Longrightarrow> length rows < 2 ^ 64"
  shows "table_fits t"
proof -
  have len: "length (tbl_columns t) = length types" using assms(1) by (auto simp: stores_def)
  have size: "sum_list (map data_size (map (\<lambda>row. row ! k) rows)) < 2 ^ 62" if "k < length types" for k
    using assms(2) that by (simp add: cacheable_def comp_def)
  have "length (col_pages c) < 2 ^ 64" if c: "c \<in> set (tbl_columns t)" for c
  proof -
    obtain k where k: "k < length types" "c = tbl_columns t ! k" using c len by (auto simp: in_set_conv_nth)
    have "few_pages c" using assms(1) c by (simp add: stores_def)
    then show ?thesis
      using stores_column(4)[OF assms(1) k(1)] size[OF k(1)] k(2) by (simp add: few_pages_def)
  qed
  moreover have "length rows < 2 ^ 64"
    using data_size_length[of "map (\<lambda>row. row ! 0) rows"] size[of 0] assms(3) by (cases "types = []") simp_all
  ultimately show ?thesis
    using assms(1,2) len by (simp add: table_fits_def stores_def cacheable_def)
qed

section \<open>Imported and loaded again\<close>

lemma import_reload:
  assumes "pool_order filter_tp_threads order" "\<forall>k. sized_source (fresh k)"
    and "\<forall>(path, stmt) \<in> set queries. file_ok stod files types names content rows path \<and> filter_ok (types path) (rows path) stmt \<and>
      cacheable (types path) (filter (satisfies re stmt) (rows path))"
  shows "\<exists>ts caches. import_all fresh order re stod files types names queries no_caches = Inr (ts, caches) \<and>
    reload cache_path ts = Inr ts \<and>
    list_all2 (\<lambda>t (path, stmt). stores t (types path) (filter (satisfies re stmt) (rows path))) ts queries"
proof -
  have files: "\<forall>(path, stmt) \<in> set queries. file_ok stod files types names content rows path \<and> filter_ok (types path) (rows path) stmt"
    using assms(3) by auto
  obtain ts caches where ts: "import_all fresh order re stod files types names queries no_caches = Inr (ts, caches)"
    "list_all2 (\<lambda>t (path, stmt). stores t (types path) (filter (satisfies re stmt) (rows path))) ts queries"
    using import_all_stores[OF assms(1) files no_caches_ok, of fresh re] by blast
  have sized: "\<forall>t \<in> set ts. table_sized t"
    using yieldsD[OF import_all_sized[OF assms(2)] ts(1)] by simp
  have fits: "table_fits t" if t: "t \<in> set ts" for t
  proof -
    obtain i where i: "i < length queries" "t = ts ! i" using t list_all2_lengthD[OF ts(2)] by (auto simp: in_set_conv_nth)
    obtain path stmt where q: "queries ! i = (path, stmt)" by (cases "queries ! i")
    then have "(path, stmt) \<in> set queries" using i(1) by (metis nth_mem)
    then have "file_ok stod files types names content rows path" "cacheable (types path) (filter (satisfies re stmt) (rows path))"
      using assms(3) by auto
    moreover have "stores t (types path) (filter (satisfies re stmt) (rows path))"
      using ts(2) i q by (auto simp: list_all2_conv_all_nth)
    ultimately show ?thesis by (intro cacheable_fits) (auto simp: file_ok_def)
  qed
  have "reload cache_path ts = Inr ts" using sized fits by (intro reload_same) blast
  then show ?thesis using ts by blast
qed

text \<open>The example of \<open>Queries\<close>: its tables fit into files.\<close>

lemma example_cached_files:
  "\<forall>(path, stmt) \<in> set example_queries.
      file_ok (\<lambda>_. None) (\<lambda>_. Inr [csv_rows example_csv]) (\<lambda>_. [INT32, VARCHAR]) (\<lambda>_. None)
        (\<lambda>_. map (map field_text) example_csv) (\<lambda>_. example_csv) path \<and> filter_ok [INT32, VARCHAR] example_csv stmt \<and>
      cacheable [INT32, VARCHAR] (filter (satisfies example_re stmt) example_csv)"
  "\<forall>k :: nat. sized_source (\<lambda>_. \<lambda>_. 0)"
  "map (\<lambda>(path :: bytes, stmt :: statement option). [INT32, VARCHAR]) example_queries = [[INT32, VARCHAR], [INT32, VARCHAR]]"
proof -
  have "cacheable [INT32, VARCHAR] example_csv"
    "cacheable [INT32, VARCHAR] [[D_int32 7, D_string [97, 34]], [D_int32 7, D_string [98]]]"
    by (auto simp: cacheable_def MAX_COLS_def example_csv_def data_size_def less_Suc_eq)
  moreover have "filter (satisfies example_re None) example_csv = example_csv"
    "filter (satisfies example_re (Some (Comparison 1 IS_NOT_NULL L_null))) example_csv =
      [[D_int32 7, D_string [97, 34]], [D_int32 7, D_string [98]]]"
    using example_db by (simp_all add: example_queries_def)
  ultimately show "\<forall>(path, stmt) \<in> set example_queries.
      file_ok (\<lambda>_. None) (\<lambda>_. Inr [csv_rows example_csv]) (\<lambda>_. [INT32, VARCHAR]) (\<lambda>_. None)
        (\<lambda>_. map (map field_text) example_csv) (\<lambda>_. example_csv) path \<and> filter_ok [INT32, VARCHAR] example_csv stmt \<and>
      cacheable [INT32, VARCHAR] (filter (satisfies example_re stmt) example_csv)"
    using example_file by (auto simp: example_queries_def filter_ok_def comparison_ok_def rows_ok_def example_csv_def cell_ok_def data_exact_def)
  show "\<forall>k :: nat. sized_source (\<lambda>_. \<lambda>_. 0)" by (simp add: sized_source_def page_sized_def)
  show "map (\<lambda>(path :: bytes, stmt :: statement option). [INT32, VARCHAR]) example_queries = [[INT32, VARCHAR], [INT32, VARCHAR]]"
    by (simp add: example_queries_def)
qed

section \<open>Properties\<close>

text \<open>C3. Queries over cached tables: tables of at most 16 columns are imported and filtered, dumped to
  files and loaded from them, before a plan over them is executed. The loaded tables are the imported
  ones, nothing goes wrong, and the rows read from the result are, as a bag, the relational
  evaluation of the plan on the rows of the text files that satisfy the filters.\<close>

theorem cached_query_answers:
  assumes "pool_order filter_tp_threads order" "\<forall>k. sized_source (fresh k)"
    and "\<forall>(path, stmt) \<in> set queries. file_ok stod files types names content rows path \<and> filter_ok (types path) (rows path) stmt \<and>
      cacheable (types path) (filter (satisfies re stmt) (rows path))"
    and "query_ok plan (map (\<lambda>(path, stmt). types path) queries)
      (map (\<lambda>(path, stmt). filter (satisfies re stmt) (rows path)) queries)"
    and "env_ok env" "pl_root plan < fuel" "length (pn_output_attrs (pl_nodes plan ! pl_root plan)) \<le> MAX_COLS"
  shows "\<exists>ts caches t en' answer.
    import_all fresh order re stod files types names queries no_caches = Inr (ts, caches) \<and>
    reload cache_path ts = Inr ts \<and>
    execute fuel env fresh' (plan\<lparr>pl_inputs := ts\<rparr>) en = Inr (t, en') \<and>
    from_columnar order t = Inr answer \<and>
    mset (tb_data answer) =
      mset (query_rows plan (map (\<lambda>(path, stmt). filter (satisfies re stmt) (rows path)) queries) (pl_root plan))"
proof -
  obtain ts caches where ts: "import_all fresh order re stod files types names queries no_caches = Inr (ts, caches)"
    "reload cache_path ts = Inr ts"
    "list_all2 (\<lambda>t (path, stmt). stores t (types path) (filter (satisfies re stmt) (rows path))) ts queries"
    using import_reload[OF assms(1-3)] by blast
  then show ?thesis using query_over_tables[OF assms(1) ts(3) assms(4-7), of fresh' en] by blast
qed

theorem cached_query_answers_witness:
  "\<exists>ts caches t en' answer.
    import_all (\<lambda>_ _ _. 0) [0..<filter_tp_threads] example_re (\<lambda>_. None) (\<lambda>_. Inr [csv_rows example_csv]) (\<lambda>_. [INT32, VARCHAR])
      (\<lambda>_. None) example_queries no_caches = Inr (ts, caches) \<and>
    reload ''t'' ts = Inr ts \<and>
    execute 3 example_parallel_env example_fresh (example_plan\<lparr>pl_inputs := ts\<rparr>) example_engine = Inr (t, en') \<and>
    from_columnar [0..<filter_tp_threads] t = Inr answer \<and>
    mset (tb_data answer) = {#[D_int32 7, D_string [97, 34]], [D_int32 7, D_string [98]],
      [D_int32 7, D_string [97, 34]], [D_int32 7, D_string [98]]#}"
proof -
  have root: "pl_root example_plan = 2" "length (pn_output_attrs (pl_nodes example_plan ! 2)) \<le> MAX_COLS"
    by (simp_all add: example_plan_def MAX_COLS_def)
  have "2 < (3 :: nat)" by simp
  then show ?thesis
    using cached_query_answers[OF default_pool_order example_cached_files(2,1), of example_plan example_parallel_env 3 "''t''"
        example_fresh example_engine]
      example_query_ok example_parallel_env_ok
    unfolding root example_cached_files(3) example_db example_query_rows
    by (simp only: root example_query_rows mset.simps root(2) simp_thms)
qed

end
