(* ===== verification/RowOrder.thy ===== *)
theory RowOrder
  imports TableRead Doubles "HOL-Library.List_Lexorder" "HOL-Library.Product_Lexorder"
begin

text \<open>
  The order of rows: \<open>std::sort\<close> on \<open>std::vector<std::vector<Data>>\<close>, with which the expected answers
  are dumped (\<open>DumpTable\<close>, \<open>include/table.h\<close>) and the answers of the engine are sorted before they are
  compared (\<open>sort\<close>, \<open>tests/read_sql.cpp\<close>). The variant \<open>Data\<close> (\<open>include/statement.h\<close>) compares the
  alternative first, then the value; vectors compare lexicographically. Sorting is undefined where
  \<open>operator<\<close> is no strict weak order on the elements, which a NaN can cause. Without NaN the operators
  compare keys in a linear order, and the sorted rows are the sorted keys.
\<close>

section \<open>Comparison and sorting\<close>

text \<open>\<open>std::lexicographical_compare\<close>, the \<open>operator<\<close> of strings and vectors.\<close>

fun lex_less :: "('a \<Rightarrow> 'a \<Rightarrow> bool) \<Rightarrow> 'a list \<Rightarrow> 'a list \<Rightarrow> bool" where
  "lex_less lt xs [] \<longleftrightarrow> False"
| "lex_less lt [] (y # ys) \<longleftrightarrow> True"
| "lex_less lt (x # xs) (y # ys) \<longleftrightarrow> (if lt x y then True else if lt y x then False else lex_less lt xs ys)"

text \<open>The position of the alternative in the variant.\<close>

definition data_index :: "data \<Rightarrow> nat" where
  "data_index d = (case d of D_int32 _ \<Rightarrow> 0 | D_int64 _ \<Rightarrow> 1 | D_fp64 _ \<Rightarrow> 2 | D_string _ \<Rightarrow> 3 | D_null \<Rightarrow> 4)"

text \<open>Characters compare as unsigned bytes, whatever the sign of \<open>char\<close>.\<close>

fun data_less :: "data \<Rightarrow> data \<Rightarrow> bool" where
  "data_less (D_int32 a) (D_int32 b) \<longleftrightarrow> sint a < sint b"
| "data_less (D_int64 a) (D_int64 b) \<longleftrightarrow> sint a < sint b"
| "data_less (D_fp64 a) (D_fp64 b) \<longleftrightarrow> fp_lt a b"
| "data_less (D_string a) (D_string b) \<longleftrightarrow> lex_less (<) a b"
| "data_less a b \<longleftrightarrow> data_index a < data_index b"

fun data_eq :: "data \<Rightarrow> data \<Rightarrow> bool" where
  "data_eq (D_fp64 a) (D_fp64 b) \<longleftrightarrow> fp_eq a b"
| "data_eq a b \<longleftrightarrow> a = b"

definition row_less :: "data list \<Rightarrow> data list \<Rightarrow> bool" where
  "row_less = lex_less data_less"

definition row_eq :: "data list \<Rightarrow> data list \<Rightarrow> bool" where
  "row_eq = list_all2 data_eq"

text \<open>What \<open>std::sort\<close> requires of the comparison, on the elements it is given.\<close>

definition strict_weak_on :: "('a \<Rightarrow> 'a \<Rightarrow> bool) \<Rightarrow> 'a set \<Rightarrow> bool" where
  "strict_weak_on lt A \<longleftrightarrow>
     (\<forall>x \<in> A. \<not> lt x x) \<and>
     (\<forall>x \<in> A. \<forall>y \<in> A. \<forall>z \<in> A. lt x y \<and> lt y z \<longrightarrow> lt x z) \<and>
     (\<forall>x \<in> A. \<forall>y \<in> A. \<forall>z \<in> A. \<not> lt x y \<and> \<not> lt y x \<and> \<not> lt y z \<and> \<not> lt z y \<longrightarrow> \<not> lt x z \<and> \<not> lt z x)"

fun insert_by :: "('a \<Rightarrow> 'a \<Rightarrow> bool) \<Rightarrow> 'a \<Rightarrow> 'a list \<Rightarrow> 'a list" where
  "insert_by lt x [] = [x]"
| "insert_by lt x (y # ys) = (if lt y x then y # insert_by lt x ys else x # y # ys)"

definition std_sort :: "('a \<Rightarrow> 'a \<Rightarrow> bool) \<Rightarrow> 'a list \<Rightarrow> 'a list res" where
  "std_sort lt xs = (if strict_weak_on lt (set xs) then Inr (foldr (insert_by lt) xs []) else Inl Undefined)"

definition sort_rows :: "matrix \<Rightarrow> matrix res" where
  "sort_rows = std_sort row_less"

section \<open>Keys\<close>

type_synonym data_key = "nat \<times> int \<times> bytes"

definition data_key :: "data \<Rightarrow> data_key" where
  "data_key d = (data_index d,
     (case d of D_int32 a \<Rightarrow> sint a | D_int64 a \<Rightarrow> sint a | D_fp64 a \<Rightarrow> fp_key a | _ \<Rightarrow> 0),
     (case d of D_string s \<Rightarrow> s | _ \<Rightarrow> []))"

definition row_key :: "data list \<Rightarrow> data_key list" where
  "row_key = map data_key"

definition not_nan :: "data \<Rightarrow> bool" where
  "not_nan d \<longleftrightarrow> (case d of D_fp64 a \<Rightarrow> \<not> fp_is_nan a | _ \<Rightarrow> True)"

lemma lex_less_key:
  fixes key :: "'a \<Rightarrow> 'k :: linorder"
  assumes "\<And>x y. x \<in> set xs \<Longrightarrow> y \<in> set ys \<Longrightarrow> lt x y = (key x < key y) \<and> lt y x = (key y < key x)"
  shows "lex_less lt xs ys \<longleftrightarrow> map key xs < map key ys"
  using assms
proof (induction lt xs ys rule: lex_less.induct)
  case (3 lt x xs y ys)
  have "lt x y = (key x < key y)" "lt y x = (key y < key x)" using "3.prems"[of x y] by simp_all
  moreover have "lex_less lt xs ys \<longleftrightarrow> map key xs < map key ys" if "\<not> lt x y" "\<not> lt y x"
    using "3.IH"[OF that] "3.prems" by simp
  ultimately show ?case by (cases "key x" "key y" rule: linorder_cases) auto
qed simp_all

lemma bytes_less: "lex_less (<) (a :: bytes) b \<longleftrightarrow> a < b"
  using lex_less_key[of a b "(<)" "\<lambda>x. x"] by simp

lemma data_less_key: "not_nan a \<Longrightarrow> not_nan b \<Longrightarrow> data_less a b \<longleftrightarrow> data_key a < data_key b"
  by (cases a; cases b) (simp_all add: data_key_def data_index_def not_nan_def fp_lt_def bytes_less)

lemma data_eq_key: "not_nan a \<Longrightarrow> not_nan b \<Longrightarrow> data_eq a b \<longleftrightarrow> data_key a = data_key b"
  by (cases a; cases b) (auto simp: data_key_def data_index_def not_nan_def fp_eq_def intro: signed_word_eqI)

lemma list_all2_same_key: "list_all2 (\<lambda>a b. f a = g b) xs ys \<longleftrightarrow> map f xs = map g ys"
  by (simp add: list.rel_eq[symmetric] list_all2_map1 list_all2_map2)

lemma row_less_key: "list_all not_nan r \<Longrightarrow> list_all not_nan s \<Longrightarrow> row_less r s \<longleftrightarrow> row_key r < row_key s"
  unfolding row_less_def row_key_def by (rule lex_less_key) (auto simp: list_all_iff data_less_key)

lemma row_eq_key: "list_all not_nan r \<Longrightarrow> list_all not_nan s \<Longrightarrow> row_eq r s \<longleftrightarrow> row_key r = row_key s"
proof -
  assume n: "list_all not_nan r" "list_all not_nan s"
  have "row_eq r s \<longleftrightarrow> list_all2 (\<lambda>a b. data_key a = data_key b) r s"
    using n unfolding row_eq_def by (intro list.rel_cong) (auto simp: list_all_iff data_eq_key)
  also have "\<dots> \<longleftrightarrow> row_key r = row_key s"
    by (simp add: row_key_def list_all2_same_key)
  finally show ?thesis .
qed

section \<open>Sorting by keys\<close>

lemma insert_by_key:
  assumes "\<And>y. y \<in> set ys \<Longrightarrow> lt y x = (key y < key x)"
  shows "insert_by lt x ys = insort_key key x ys"
  using assms by (induction ys) auto

lemma std_sort_key:
  fixes key :: "'a \<Rightarrow> 'k :: linorder"
  assumes "\<And>x y. x \<in> set xs \<Longrightarrow> y \<in> set xs \<Longrightarrow> lt x y = (key x < key y)"
  shows "std_sort lt xs = Inr (sort_key key xs)"
proof -
  have "strict_weak_on lt (set xs)"
    unfolding strict_weak_on_def using assms by (intro conjI ballI impI) (auto simp: not_less)
  moreover have "foldr (insert_by lt) ys [] = sort_key key ys" if "set ys \<subseteq> set xs" for ys
    using that
  proof (induction ys)
    case (Cons y ys)
    then have "insert_by lt y (sort_key key ys) = insort_key key y (sort_key key ys)"
      using assms by (intro insert_by_key) auto
    then show ?case using Cons by simp
  qed simp
  ultimately show ?thesis by (simp add: std_sort_def)
qed

lemma sort_rows_key:
  assumes "\<forall>row \<in> set rows. list_all not_nan row"
  shows "sort_rows rows = Inr (sort_key row_key rows)"
  unfolding sort_rows_def using assms by (intro std_sort_key) (simp add: row_less_key)

text \<open>Rows without doubles are their keys: the sorted rows are determined by the bag of rows.\<close>

definition no_double :: "data \<Rightarrow> bool" where
  "no_double d \<longleftrightarrow> (case d of D_fp64 _ \<Rightarrow> False | _ \<Rightarrow> True)"

lemma no_double_nan: "no_double d \<Longrightarrow> not_nan d"
  by (cases d) (simp_all add: no_double_def not_nan_def)

lemma data_key_inj: "no_double a \<Longrightarrow> no_double b \<Longrightarrow> data_key a = data_key b \<Longrightarrow> a = b"
  by (cases a; cases b) (auto simp: data_key_def data_index_def no_double_def intro: signed_word_eqI)

lemma row_key_inj: "list_all no_double r \<Longrightarrow> list_all no_double s \<Longrightarrow> row_key r = row_key s \<Longrightarrow> r = s"
proof (induction r arbitrary: s)
  case (Cons a r)
  then show ?case by (cases s) (auto simp: row_key_def dest: data_key_inj)
qed (simp add: row_key_def)

lemma mset_row_keys:
  assumes "\<forall>row \<in> set xs. list_all no_double row" "\<forall>row \<in> set ys. list_all no_double row"
  shows "mset (map row_key xs) = mset (map row_key ys) \<longleftrightarrow> mset xs = mset ys"
proof
  assume eq: "mset (map row_key xs) = mset (map row_key ys)"
  have inj: "inj_on row_key {r. list_all no_double r}" by (auto intro!: inj_onI row_key_inj)
  define g where "g = inv_into {r. list_all no_double r} row_key"
  have g: "map (\<lambda>r. g (row_key r)) zs = zs" if "\<forall>row \<in> set zs. list_all no_double row" for zs
    using that inv_into_f_f[OF inj] by (auto simp: g_def intro!: map_idI)
  have "image_mset g (mset (map row_key xs)) = image_mset g (mset (map row_key ys))" using eq by simp
  then have "mset (map (\<lambda>r. g (row_key r)) xs) = mset (map (\<lambda>r. g (row_key r)) ys)"
    by (simp only: mset_map[symmetric] map_map comp_def)
  then show "mset xs = mset ys" by (simp only: g[OF assms(1)] g[OF assms(2)])
qed simp

text \<open>Equality of sorted rows, element by element, is equality of bags.\<close>

lemma sorted_keys_eq: "map key (sort_key key xs) = sort (map key xs)"
  by (rule properties_for_sort[symmetric]) simp_all

lemma sort_same_bag: "sort xs = sort ys \<longleftrightarrow> mset xs = mset (ys :: 'a :: linorder list)"
proof
  assume "sort xs = sort ys"
  then have "mset (sort xs) = mset (sort ys)" by simp
  then show "mset xs = mset ys" by simp
next
  assume "mset xs = mset ys"
  then show "sort xs = sort ys" by (intro properties_for_sort) simp_all
qed

lemma sorted_rows_eq:
  assumes "\<forall>row \<in> set xs. list_all no_double row" "\<forall>row \<in> set ys. list_all no_double row"
  shows "list_all2 row_eq (sort_key row_key xs) (sort_key row_key ys) \<longleftrightarrow> mset xs = mset ys"
proof -
  have "list_all2 row_eq (sort_key row_key xs) (sort_key row_key ys) \<longleftrightarrow>
      list_all2 (\<lambda>r s. row_key r = row_key s) (sort_key row_key xs) (sort_key row_key ys)"
    using assms by (intro list.rel_cong refl row_eq_key) (auto simp: list_all_iff intro: no_double_nan)
  also have "\<dots> \<longleftrightarrow> map row_key (sort_key row_key xs) = map row_key (sort_key row_key ys)"
    by (rule list_all2_same_key)
  also have "\<dots> \<longleftrightarrow> mset (map row_key xs) = mset (map row_key ys)"
    unfolding sorted_keys_eq by (rule sort_same_bag)
  finally show ?thesis using mset_row_keys[OF assms] by simp
qed

text \<open>A NaN among doubles: its comparisons are all false, so 1, NaN and 2 are no strict weak order.\<close>

lemma sort_nan_undefined:
  "sort_rows [[D_fp64 0x3ff0000000000000], [D_fp64 0x7ff8000000000000], [D_fp64 0x4000000000000000]] = Inl Undefined"
proof -
  let ?one = "[D_fp64 0x3ff0000000000000]" and ?nan = "[D_fp64 0x7ff8000000000000]" and ?two = "[D_fp64 0x4000000000000000]"
  have "row_less ?one ?two" "\<not> row_less ?one ?nan" "\<not> row_less ?nan ?one" "\<not> row_less ?nan ?two" "\<not> row_less ?two ?nan"
    by (simp_all add: row_less_def fp_lt_def fp_key_def fp_is_nan_def fp_exponent_def)
  then have "\<not> strict_weak_on row_less (set [?one, ?nan, ?two])"
    unfolding strict_weak_on_def list.set by blast
  then show ?thesis by (simp only: sort_rows_def std_sort_def if_False)
qed

end
