(* ===== verification/ExpectedAnswers.thy ===== *)
theory ExpectedAnswers
  imports CachedQueries RowOrder
begin

text \<open>
  The expected answers: the constructor \<open>DumpTable(duckdb::MaterializedQueryResult&)\<close> (\<open>include/table.h\<close>)
  turns a result of DuckDB into sorted rows, packs them with \<open>Table::to_columnar\<close> and dumps them to a
  file, and \<open>compare_withcache\<close> (\<open>tests/read_sql.cpp\<close>) compares such a file with the answer of the engine.
  DuckDB is not part of the sources: the functions of its interface are parameters, and \<open>duck_ok\<close>
  says what is documented about them. The main result is that the comparison decides whether both answers
  are the same bag of rows.
\<close>

section \<open>Results of DuckDB\<close>

text \<open>The type ids that the constructor distinguishes.\<close>

datatype logical_id = LT_INTEGER | LT_VARCHAR | LT_other

record ('q, 't, 'r, 'v) duckdb =
  dk_row_count :: "'q \<Rightarrow> u64"
  dk_column_count :: "'q \<Rightarrow> u64"
  dk_types :: "'q \<Rightarrow> 't list"
  dk_id :: "'t \<Rightarrow> logical_id"
  dk_type_string :: "'t \<Rightarrow> string"
  dk_rows :: "'q \<Rightarrow> 'r list"
  dk_value :: "'r \<Rightarrow> nat \<Rightarrow> 'v"
  dk_is_null :: "'v \<Rightarrow> bool"
  dk_integer :: "'v \<Rightarrow> u32"
  dk_string :: "'v \<Rightarrow> bytes"

text \<open>\<open>Setup metadata\<close>: the types of the columns; the header has room for 16.\<close>

definition put_type :: "nat \<Rightarrow> data_type \<Rightarrow> table_meta \<times> data_type list \<Rightarrow> (table_meta \<times> data_type list) res" where
  "put_type i ty = (\<lambda>(m, types).
     rbind (at (tm_types m) i) (\<lambda>_. Inr (m\<lparr>tm_types := (tm_types m)[i := ty]\<rparr>, types @ [ty])))"

definition duck_meta :: "('q, 't, 'r, 'v) duckdb \<Rightarrow> 'q \<Rightarrow> (table_meta \<times> data_type list) res" where
  "duck_meta db q =
     rfold (\<lambda>i s. rbind (at (dk_types db q) i) (\<lambda>ty.
         case dk_id db ty of
           LT_INTEGER \<Rightarrow> put_type i INT32 s
         | LT_VARCHAR \<Rightarrow> put_type i VARCHAR s
         | LT_other \<Rightarrow> Inl (Runtime_error (dk_type_string db ty @ '' in DuckDB is not supported''))))
       [0..<unat (dk_column_count db q)]
       (\<lparr>tm_num_rows = dk_row_count db q, tm_num_cols = dk_column_count db q,
         tm_types = replicate MAX_COLS INT32, tm_num_pages = replicate MAX_COLS 0\<rparr>, [])"

text \<open>\<open>Convert duckdb to ColumnarTable\<close>.\<close>

definition duck_cell :: "('q, 't, 'r, 'v) duckdb \<Rightarrow> data_type list \<Rightarrow> 'r \<Rightarrow> nat \<Rightarrow> data res" where
  "duck_cell db types row col_idx =
     (let val = dk_value db row col_idx
      in if dk_is_null db val then Inr D_null
         else rbind (at types col_idx) (\<lambda>ty.
           case ty of
             INT32 \<Rightarrow> Inr (D_int32 (dk_integer db val))
           | VARCHAR \<Rightarrow> Inr (D_string (dk_string db val))
           | _ \<Rightarrow> Inl (Runtime_error ''DataType not supported'')))"

definition duck_record :: "('q, 't, 'r, 'v) duckdb \<Rightarrow> nat \<Rightarrow> data_type list \<Rightarrow> 'r \<Rightarrow> data list res" where
  "duck_record db cols types row =
     rfold (\<lambda>col_idx cells. rbind (duck_cell db types row col_idx) (\<lambda>d. Inr (cells @ [d]))) [0..<cols] []"

definition duck_data :: "('q, 't, 'r, 'v) duckdb \<Rightarrow> 'q \<Rightarrow> nat \<Rightarrow> data_type list \<Rightarrow> matrix res" where
  "duck_data db q cols types =
     rfold (\<lambda>row data. rbind (duck_record db cols types row) (\<lambda>cells. Inr (data @ [cells]))) (dk_rows db q) []"

definition put_num_pages :: "columnar_table \<Rightarrow> table_meta \<Rightarrow> table_meta res" where
  "put_num_pages table m =
     rfold (\<lambda>i m. rbind (at (tbl_columns table) i) (\<lambda>column. rbind (at (tm_num_pages m) i) (\<lambda>_.
         Inr (m\<lparr>tm_num_pages := (tm_num_pages m)[i := of_nat (length (col_pages column))]\<rparr>))))
       [0..<unat (tm_num_cols m)] m"

definition dump_table_duckdb ::
    "(nat \<Rightarrow> nat \<Rightarrow> page) \<Rightarrow> ('q, 't, 'r, 'v) duckdb \<Rightarrow> 'q \<Rightarrow> (table_meta \<times> columnar_table) res" where
  "dump_table_duckdb fresh db q =
     rbind (duck_meta db q) (\<lambda>(m, types).
     rbind (duck_data db q (unat (tm_num_cols m)) types) (\<lambda>data.
     rbind (sort_rows data) (\<lambda>data.
     rbind (to_columnar fresh \<lparr>tb_types = types, tb_data = data\<rparr>) (\<lambda>table.
     rbind (put_num_pages table m) (\<lambda>m. Inr (m, table))))))"

definition dump_expected :: "(nat \<Rightarrow> nat \<Rightarrow> page) \<Rightarrow> ('q, 't, 'r, 'v) duckdb \<Rightarrow> 'q \<Rightarrow> u8 list res" where
  "dump_expected fresh db q = rbind (dump_table_duckdb fresh db q) (\<lambda>(m, table). dump_file m table)"

section \<open>Comparison of answers\<close>

text \<open>\<open>order k\<close> is the order of the threads in the \<open>k\<close>-th run of the pool; only the answer of the
  engine is sorted.\<close>

definition compare_withcache :: "(nat \<Rightarrow> nat list) \<Rightarrow> columnar_table \<Rightarrow> columnar_table \<Rightarrow> bool res" where
  "compare_withcache order expected results =
     (let num_rows = tbl_num_rows results; num_cols = length (tbl_columns results)
      in if tbl_num_rows expected \<noteq> num_rows then Inr False
         else if length (tbl_columns expected) \<noteq> num_cols then Inr False
         else if list_ex (\<lambda>i. col_type (tbl_columns expected ! i) \<noteq> col_type (tbl_columns results ! i)) [0..<num_cols]
         then Inr False
         else
           rbind (from_columnar (order 0) results) (\<lambda>results_table.
           rbind (from_columnar (order 1) expected) (\<lambda>expected_table.
           rbind (sort_rows (tb_data results_table)) (\<lambda>results_data.
           rbind (pool_run filter_tp_threads (order 2) (\<lambda>begin_i end_i.
               rfold (\<lambda>i booleans.
                 rbind (at results_data i) (\<lambda>r.
                 rbind (at (tb_data expected_table) i) (\<lambda>e.
                 rbind (at booleans i) (\<lambda>_. Inr (booleans[i := if row_eq r e then 1 else 0 :: u8])))))
                 [begin_i..<end_i]) num_rows (replicate num_rows 0)) (\<lambda>booleans.
             Inr (list_all (\<lambda>v. v \<noteq> 0) booleans))))))"

section \<open>Packed pages are sized and few\<close>

text \<open>A column in progress: all pages are sized, and there are at most \<open>n\<close>.\<close>

definition at_most :: "nat \<Rightarrow> column \<Rightarrow> bool" where
  "at_most n c \<longleftrightarrow> column_sized c \<and> length (col_pages c) \<le> n"

lemma at_most_mono: "at_most m c \<Longrightarrow> m \<le> n \<Longrightarrow> at_most n c"
  by (simp add: at_most_def)

lemma at_most_append: "at_most n c \<Longrightarrow> page_sized p \<Longrightarrow> at_most (Suc n) (c\<lparr>col_pages := col_pages c @ [p]\<rparr>)"
  by (auto simp: at_most_def column_sized_def)

lemma fixed_save_page_at_most:
  assumes "sized_source fresh" "at_most n (fp_column s)"
  shows "yields (\<lambda>s. at_most (Suc n) (fp_column s)) (fixed_save_page fresh hdr s)"
  unfolding fixed_save_page_def Let_def
  by (rule yields_rbind[OF store_sized] assms(1)[unfolded sized_source_def, rule_format] | assumption)+
    (simp add: at_most_append assms(2))

lemma fixed_pack_at_most:
  assumes "sized_source fresh" "at_most n (fp_column s)"
  shows "yields (\<lambda>s. at_most (Suc n) (fp_column s)) (fixed_pack fresh hdr sz sel d s)"
proof -
  have save: "yields (\<lambda>s. at_most (Suc n) (fp_column s)) (if b then fixed_save_page fresh hdr s else Inr s)" for b
    using fixed_save_page_at_most[OF assms] at_most_mono[OF assms(2)] by simp
  have packed: "yields (\<lambda>s. at_most (Suc n) (fp_column s))
      (rbind (if b then fixed_save_page fresh hdr s else Inr s) (\<lambda>s. Inr (f s)))"
    if "\<And>s. fp_column (f s) = fp_column s" for b f
    by (rule yields_rbind[OF save]) (simp add: that)
  have same: "yields (\<lambda>s. at_most (Suc n) (fp_column s)) (Inr s)" using at_most_mono[OF assms(2)] by simp
  show ?thesis
    unfolding fixed_pack_def by (split option.split, split if_split) (intro conjI allI impI packed same; simp)
qed

lemma yields_rfold_at_most:
  assumes "\<And>x n s. at_most n (col s) \<Longrightarrow> yields (\<lambda>s. at_most (n + w x) (col s)) (f x s)"
    and "at_most n (col s)"
  shows "yields (\<lambda>s. at_most (n + sum_list (map w xs)) (col s)) (rfold f xs s)"
  using assms(2)
proof (induction xs arbitrary: n s)
  case (Cons x xs)
  show ?case
    unfolding rfold.simps
  proof (rule yields_rbind[OF assms(1)[OF Cons.prems]])
    show "yields (\<lambda>s. at_most (n + sum_list (map w (x # xs))) (col s)) (rfold f xs s1)" if "at_most (n + w x) (col s1)" for s1
      using Cons.IH[OF that] by (simp add: add.assoc)
  qed
qed simp

lemma new_at_most: "at_most 0 (new_column ty)"
  by (simp add: at_most_def column_sized_def new_column_def)

lemma fixed_column_at_most:
  assumes "sized_source fresh"
  shows "yields (at_most (length vals + 1)) (fixed_column fresh hdr sz sel vals (new_column ty))"
proof -
  let ?s = "\<lparr>fp_column = new_column ty, fp_num_rows = 0, fp_values = [], fp_bitmap = []\<rparr>"
  have all: "yields (\<lambda>s. at_most (0 + sum_list (map (\<lambda>_. 1) vals)) (fp_column s)) (rfold (fixed_pack fresh hdr sz sel) vals ?s)"
    by (rule yields_rfold_at_most[where col = fp_column]) (use fixed_pack_at_most[OF assms] new_at_most in simp_all)
  have last: "yields (\<lambda>s. at_most (length vals + 1) (fp_column s)) (if fp_num_rows s \<noteq> 0 then fixed_save_page fresh hdr s else Inr s)"
    if "at_most (0 + sum_list (map (\<lambda>_. 1) vals)) (fp_column s)" for s
    using that fixed_save_page_at_most[OF assms, of "length vals" s] at_most_mono[of "length vals" "fp_column s"]
    by (simp add: sum_list_triv)
  show ?thesis
    unfolding fixed_column_def by (rule yields_rbind[OF all], rule yields_rbind[OF last]) simp_all
qed

lemma string_save_page_at_most:
  assumes "sized_source fresh" "at_most n (sp_column s)"
  shows "yields (\<lambda>s. at_most (Suc n) (sp_column s)) (string_save_page fresh s)"
  unfolding string_save_page_def Let_def
  by (rule yields_rbind[OF store_sized] assms(1)[unfolded sized_source_def, rule_format] | assumption)+
    (simp add: at_most_append assms(2))

lemma pack_long_at_most:
  assumes "sized_source fresh"
  shows "at_most n c \<Longrightarrow> yields (at_most (n + (length v - offset))) (pack_long_string fresh v offset first_page c)"
proof (induction "length v - offset" arbitrary: offset first_page c n rule: less_induct)
  case (less offset first_page c n)
  show ?case
  proof (cases "offset < length v")
    case True
    let ?len = "min (length v - offset) (PAGE_SIZE - 4)"
    have len: "0 < ?len" "?len \<le> length v - offset" using True by (auto simp: PAGE_SIZE_def)
    have next_page: "yields (at_most (n + (length v - offset)))
        (pack_long_string fresh v (offset + ?len) False (c\<lparr>col_pages := col_pages c @ [p]\<rparr>))" if "page_sized p" for p
      by (rule yields_mono[OF less.hyps[OF _ at_most_append[OF less.prems that]]])
        (use len in \<open>auto elim: at_most_mono\<close>)
    show ?thesis
      unfolding pack_long_string.simps[of fresh v offset] if_P[OF True] Let_def
      by (rule yields_rbind[OF store_sized] assms[unfolded sized_source_def, rule_format] next_page | assumption)+
  next
    case False
    then show ?thesis using at_most_mono[OF less.prems] by (simp add: pack_long_string.simps[of fresh v offset])
  qed
qed

lemma string_pack_at_most:
  assumes "sized_source fresh" "at_most n (sp_column s)"
  shows "yields (\<lambda>s. at_most (n + data_size d) (sp_column s)) (string_pack fresh d s)"
proof -
  have save: "yields (\<lambda>s. at_most (Suc n) (sp_column s)) (if b then string_save_page fresh s else Inr s)" for b
    using string_save_page_at_most[OF assms] at_most_mono[OF assms(2)] by simp
  show ?thesis
  proof (cases d)
    case (D_string v)
    have long: "yields (\<lambda>s. at_most (n + data_size d) (sp_column s))
        (rbind (pack_long_string fresh v 0 True (sp_column s1)) (\<lambda>column. Inr (s1\<lparr>sp_column := column\<rparr>)))"
      if "at_most (Suc n) (sp_column s1)" for s1
      by (rule yields_rbind[OF pack_long_at_most[OF assms(1) that]]) (simp add: D_string data_size_def)
    have short: "at_most (n + data_size d) (sp_column s1)" if "at_most (Suc n) (sp_column s1)" for s1
      using that by (rule at_most_mono) (simp add: D_string data_size_def)
    show ?thesis
      unfolding string_pack_def D_string data.case
      by (cases "PAGE_SIZE - 7 < length v"; simp only: if_True if_False; rule yields_rbind[OF save])
        (use long short in \<open>simp_all add: D_string\<close>)
  next
    case D_null
    show ?thesis
      unfolding string_pack_def D_null data.case
      by (rule yields_rbind[OF save]) (auto simp: data_size_def)
  qed (simp_all add: string_pack_def)
qed

lemma pack_varchar_at_most:
  assumes "sized_source fresh"
  shows "yields (at_most (sum_list (map data_size vals) + 1)) (pack_varchar fresh vals (new_column ty))"
proof -
  let ?s = "\<lparr>sp_column = new_column ty, sp_num_rows = 0, sp_chars = [], sp_offsets = [], sp_bitmap = []\<rparr>"
  have all: "yields (\<lambda>s. at_most (0 + sum_list (map data_size vals)) (sp_column s)) (rfold (string_pack fresh) vals ?s)"
    by (rule yields_rfold_at_most[where col = sp_column]) (use string_pack_at_most[OF assms] new_at_most in simp_all)
  have last: "yields (\<lambda>s. at_most (sum_list (map data_size vals) + 1) (sp_column s)) (if sp_num_rows s \<noteq> 0 then string_save_page fresh s else Inr s)"
    if "at_most (0 + sum_list (map data_size vals)) (sp_column s)" for s
    using that string_save_page_at_most[OF assms, of "sum_list (map data_size vals)" s]
      at_most_mono[of "sum_list (map data_size vals)" "sp_column s"] by simp
  show ?thesis
    unfolding pack_varchar_def by (rule yields_rbind[OF all], rule yields_rbind[OF last]) simp_all
qed

lemma pack_column_at_most:
  assumes "sized_source fresh"
  shows "yields (at_most (sum_list (map data_size vals) + 1)) (pack_column fresh ty vals)"
proof -
  have "yields (at_most (sum_list (map data_size vals) + 1)) (fixed_column fresh hdr sz sel vals (new_column ty))" for hdr sz sel
    by (rule yields_mono[OF fixed_column_at_most[OF assms]]) (use data_size_length[of vals] in \<open>auto elim: at_most_mono\<close>)
  then show ?thesis
    using pack_varchar_at_most[OF assms] by (cases ty) (simp_all add: pack_column_def pack_int32_def pack_int64_def pack_fp64_def)
qed

section \<open>The table of sorted rows\<close>

lemma to_columnar_at_most:
  assumes "\<forall>k. sized_source (fresh k)" and ok: "table_ok t"
  shows "yields (\<lambda>ct. \<forall>c < length (tbl_columns ct).
      at_most (sum_list (map (\<lambda>row. data_size (row ! c)) (tb_data t)) + 1) (tbl_columns ct ! c)) (to_columnar fresh t)"
proof -
  let ?bound = "\<lambda>c. sum_list (map (\<lambda>row. data_size (row ! c)) (tb_data t)) + 1"
  let ?P = "\<lambda>k ct. length (tbl_columns ct) = k \<and> (\<forall>c < k. at_most (?bound c) (tbl_columns ct ! c))"
  let ?f = "\<lambda>col_idx ret. rbind (record_cells col_idx (tb_data t)) (\<lambda>vals.
        rbind (pack_column (fresh col_idx) (tb_types t ! col_idx) vals) (\<lambda>column.
          Inr (ret\<lparr>tbl_columns := tbl_columns ret @ [column]\<rparr>)))"
  have step: "yields (?P (Suc k)) (?f k ct)" if "?P k ct" "k < length (tb_types t)" for k ct
  proof -
    have "record_cells k (tb_data t) = Inr (map (\<lambda>row. row ! k) (tb_data t))"
      using table_okD(1)[OF ok] that(2) by (intro record_cells_correct) auto
    moreover have "yields (at_most (?bound k)) (pack_column (fresh k) (tb_types t ! k) (map (\<lambda>row. row ! k) (tb_data t)))"
      using pack_column_at_most[of "fresh k" "map (\<lambda>row. row ! k) (tb_data t)"] assms(1) by (simp add: comp_def)
    ultimately show ?thesis
      using that(1) by (auto intro!: yields_rbind[where Q = "at_most (?bound k)"] simp: nth_append less_Suc_eq)
  qed
  have "yields (?P k) (rfold ?f [0..<k] \<lparr>tbl_num_rows = length (tb_data t), tbl_columns = []\<rparr>)" if "k \<le> length (tb_types t)" for k
    using that
  proof (induction k)
    case (Suc k)
    then have "yields (?P k) (rfold ?f [0..<k] \<lparr>tbl_num_rows = length (tb_data t), tbl_columns = []\<rparr>)" by simp
    then show ?case unfolding rfold_upt_Suc
    proof (rule yields_rbind)
      show "yields (?P (Suc k)) (?f k ct)" if "?P k ct" for ct using step[OF that] Suc.prems by simp
    qed
  qed simp
  from this[of "length (tb_types t)"] show ?thesis
    unfolding to_columnar_def by (rule yields_mono) simp_all
qed

lemma to_columnar_stores:
  assumes "\<forall>k. sized_source (fresh k)" "table_ok t"
  shows "\<exists>ct. to_columnar fresh t = Inr ct \<and> stores ct (tb_types t) (tb_data t) \<and> table_sized ct"
proof -
  obtain ct where ct: "to_columnar fresh t = Inr ct" "tbl_num_rows ct = length (tb_data t)"
    "map col_type (tbl_columns ct) = tb_types t"
    "\<And>c. c < length (tb_types t) \<Longrightarrow> readable (length (tb_data t)) (tbl_columns ct ! c) \<and>
       column_data (tbl_columns ct ! c) = map (\<lambda>row. row ! c) (tb_data t)"
    using to_columnar_correct[OF assms(2), of fresh] by blast
  have len: "length (tbl_columns ct) = length (tb_types t)" using arg_cong[OF ct(3), of length] by simp
  have most: "at_most (sum_list (map (\<lambda>row. data_size (row ! c)) (tb_data t)) + 1) (tbl_columns ct ! c)"
    if "c < length (tb_types t)" for c
    using yieldsD[OF to_columnar_at_most[OF assms] ct(1)] that len by simp
  have "few_pages (tbl_columns ct ! c)" if "c < length (tb_types t)" for c
    using most[OF that] ct(4)[OF that] by (simp add: few_pages_def at_most_def comp_def)
  then have "\<forall>c \<in> set (tbl_columns ct). readable (length (tb_data t)) c \<and> few_pages c"
    using ct(4) len by (auto simp: in_set_conv_nth)
  moreover have "map column_data (tbl_columns ct) = map (\<lambda>k. map (\<lambda>row. row ! k) (tb_data t)) [0..<length (tb_types t)]"
    using ct(4) len by (intro nth_equalityI) auto
  moreover have "table_sized ct" using most len by (auto simp: table_sized_def at_most_def in_set_conv_nth)
  ultimately show ?thesis using ct by (auto simp: stores_def)
qed

text \<open>What a result of DuckDB says, if its functions do what is documented: the counts are the numbers of
  types and rows.\<close>

definition duck_types :: "('q, 't, 'r, 'v) duckdb \<Rightarrow> 'q \<Rightarrow> data_type list" where
  "duck_types db q = map (\<lambda>ty. if dk_id db ty = LT_INTEGER then INT32 else VARCHAR) (dk_types db q)"

definition duck_value :: "('q, 't, 'r, 'v) duckdb \<Rightarrow> data_type \<Rightarrow> 'v \<Rightarrow> data" where
  "duck_value db ty val =
     (if dk_is_null db val then D_null else if ty = INT32 then D_int32 (dk_integer db val) else D_string (dk_string db val))"

definition duck_rows :: "('q, 't, 'r, 'v) duckdb \<Rightarrow> 'q \<Rightarrow> matrix" where
  "duck_rows db q = map (\<lambda>row. map (\<lambda>k. duck_value db (duck_types db q ! k) (dk_value db row k)) [0..<length (dk_types db q)])
     (dk_rows db q)"

definition duck_ok :: "('q, 't, 'r, 'v) duckdb \<Rightarrow> 'q \<Rightarrow> bool" where
  "duck_ok db q \<longleftrightarrow> unat (dk_row_count db q) = length (dk_rows db q) \<and> unat (dk_column_count db q) = length (dk_types db q)"

lemma length_duck_types [simp]: "length (duck_types db q) = length (dk_types db q)"
  by (simp add: duck_types_def)

lemma duck_types_cases: "ty \<in> set (duck_types db q) \<Longrightarrow> ty = INT32 \<or> ty = VARCHAR"
  by (auto simp: duck_types_def)

lemma duck_meta_prefix:
  assumes "k \<le> length (dk_types db q)" "k \<le> MAX_COLS" "\<forall>i < k. dk_id db (dk_types db q ! i) \<noteq> LT_other"
  shows "rfold (\<lambda>i s. rbind (at (dk_types db q) i) (\<lambda>ty.
         case dk_id db ty of
           LT_INTEGER \<Rightarrow> put_type i INT32 s
         | LT_VARCHAR \<Rightarrow> put_type i VARCHAR s
         | LT_other \<Rightarrow> Inl (Runtime_error (dk_type_string db ty @ '' in DuckDB is not supported''))))
       [0..<k] (\<lparr>tm_num_rows = r, tm_num_cols = c, tm_types = replicate MAX_COLS INT32, tm_num_pages = p\<rparr>, []) =
    Inr (\<lparr>tm_num_rows = r, tm_num_cols = c, tm_types = take k (duck_types db q) @ replicate (MAX_COLS - k) INT32, tm_num_pages = p\<rparr>,
      take k (duck_types db q))"
  using assms
proof (induction k)
  case (Suc k)
  let ?ty = "if dk_id db (dk_types db q ! k) = LT_INTEGER then INT32 else VARCHAR"
  have k: "k < length (dk_types db q)" "k < MAX_COLS" using Suc.prems by simp_all
  have ty: "duck_types db q ! k = ?ty" using k(1) by (simp add: duck_types_def)
  have put: "put_type k ?ty (\<lparr>tm_num_rows = r, tm_num_cols = c, tm_types = take k (duck_types db q) @ replicate (MAX_COLS - k) INT32,
        tm_num_pages = p\<rparr>, take k (duck_types db q)) =
      Inr (\<lparr>tm_num_rows = r, tm_num_cols = c, tm_types = take (Suc k) (duck_types db q) @ replicate (MAX_COLS - Suc k) INT32,
        tm_num_pages = p\<rparr>, take (Suc k) (duck_types db q))"
    using k by (simp add: put_type_def take_Suc_conv_app_nth ty list_update_append replicate_step)
  have "dk_id db (dk_types db q ! k) \<noteq> LT_other" using Suc.prems by simp
  then show ?case
    unfolding rfold_upt_Suc using Suc put k(1) by (cases "dk_id db (dk_types db q ! k)") simp_all
qed simp

lemma duck_meta_correct:
  assumes "duck_ok db q" "length (dk_types db q) \<le> MAX_COLS" "\<forall>ty \<in> set (dk_types db q). dk_id db ty \<noteq> LT_other"
  shows "duck_meta db q = Inr (\<lparr>tm_num_rows = dk_row_count db q, tm_num_cols = dk_column_count db q,
      tm_types = duck_types db q @ replicate (MAX_COLS - length (dk_types db q)) INT32, tm_num_pages = replicate MAX_COLS 0\<rparr>,
    duck_types db q)"
  using duck_meta_prefix[of "length (dk_types db q)" db q] assms by (simp add: duck_meta_def duck_ok_def)

lemma rfold_collect:
  assumes "\<And>x. x \<in> set xs \<Longrightarrow> f x = Inr (g x)"
  shows "rfold (\<lambda>x acc. rbind (f x) (\<lambda>y. Inr (acc @ [y]))) xs acc = Inr (acc @ map g xs)"
  using assms by (induction xs arbitrary: acc) auto

lemma duck_data_correct: "duck_data db q (length (dk_types db q)) (duck_types db q) = Inr (duck_rows db q)"
proof -
  have "duck_cell db (duck_types db q) row k = Inr (duck_value db (duck_types db q ! k) (dk_value db row k))"
    if "k < length (dk_types db q)" for row k
    using that duck_types_cases[of "duck_types db q ! k" db q] by (auto simp: duck_cell_def duck_value_def Let_def)
  then have "duck_record db (length (dk_types db q)) (duck_types db q) row =
      Inr (map (\<lambda>k. duck_value db (duck_types db q ! k) (dk_value db row k)) [0..<length (dk_types db q)])" for row
    unfolding duck_record_def
    using rfold_collect[of "[0..<length (dk_types db q)]" "duck_cell db (duck_types db q) row"
        "\<lambda>k. duck_value db (duck_types db q ! k) (dk_value db row k)" "[]"] by simp
  then have "rfold (\<lambda>row data. rbind (duck_record db (length (dk_types db q)) (duck_types db q) row) (\<lambda>cells. Inr (data @ [cells])))
      (dk_rows db q) [] = Inr ([] @ duck_rows db q)"
    unfolding duck_rows_def by (intro rfold_collect) blast
  then show ?thesis by (simp add: duck_data_def)
qed

lemma duck_rows_ok:
  assumes "mset rows = mset (duck_rows db q)"
  shows "table_ok \<lparr>tb_types = duck_types db q, tb_data = rows\<rparr>" "\<forall>row \<in> set rows. list_all no_double row"
proof -
  have "cell_ok ty (duck_value db ty v)" "no_double (duck_value db ty v)" if "ty = INT32 \<or> ty = VARCHAR" for ty v
    using that by (auto simp: duck_value_def cell_ok_def no_double_def)
  then have "list_all2 cell_ok (duck_types db q) row \<and> list_all no_double row" if "row \<in> set (duck_rows db q)" for row
    using that duck_types_cases[of _ db q]
    by (auto simp: duck_rows_def list_all2_conv_all_nth list_all_iff)
  then show "table_ok \<lparr>tb_types = duck_types db q, tb_data = rows\<rparr>" "\<forall>row \<in> set rows. list_all no_double row"
    using mset_eq_setD[OF assms] by (simp_all add: table_ok_def)
qed

lemma put_num_pages_prefix:
  assumes "k \<le> length (tbl_columns t)" "k \<le> MAX_COLS"
  shows "rfold (\<lambda>i m. rbind (at (tbl_columns t) i) (\<lambda>column. rbind (at (tm_num_pages m) i) (\<lambda>_.
         Inr (m\<lparr>tm_num_pages := (tm_num_pages m)[i := of_nat (length (col_pages column))]\<rparr>))))
       [0..<k] \<lparr>tm_num_rows = r, tm_num_cols = c, tm_types = tys, tm_num_pages = replicate MAX_COLS 0\<rparr> =
    Inr \<lparr>tm_num_rows = r, tm_num_cols = c, tm_types = tys,
      tm_num_pages = map (\<lambda>c. of_nat (length (col_pages c))) (take k (tbl_columns t)) @ replicate (MAX_COLS - k) 0\<rparr>"
  using assms
proof (induction k)
  case (Suc k)
  then show ?case
    unfolding rfold_upt_Suc by (simp add: take_Suc_conv_app_nth list_update_append replicate_step)
qed simp

text \<open>The constructor builds the header that \<open>DumpTable(ColumnarTable*)\<close> builds for the packed table.\<close>

lemma dump_table_duckdb_correct:
  assumes "duck_ok db q" "length (dk_types db q) \<le> MAX_COLS" "\<forall>ty \<in> set (dk_types db q). dk_id db ty \<noteq> LT_other"
    and "\<forall>k. sized_source (fresh k)"
  shows "\<exists>t. dump_table_duckdb fresh db q = Inr (meta_of t, t) \<and> table_sized t \<and>
    stores t (duck_types db q) (sort_key row_key (duck_rows db q))"
proof -
  let ?rows = "sort_key row_key (duck_rows db q)" and ?n = "length (dk_types db q)"
  have "sort_rows (duck_rows db q) = Inr ?rows"
    by (rule sort_rows_key) (use duck_rows_ok(2)[OF refl, of db q] in \<open>auto simp: list_all_iff intro: no_double_nan\<close>)
  moreover have ok: "table_ok \<lparr>tb_types = duck_types db q, tb_data = ?rows\<rparr>" by (rule duck_rows_ok) simp
  from to_columnar_stores[OF assms(4) ok] obtain t where
    t: "to_columnar fresh \<lparr>tb_types = duck_types db q, tb_data = ?rows\<rparr> = Inr t" "stores t (duck_types db q) ?rows" "table_sized t"
    by auto
  have types: "map col_type (tbl_columns t) = duck_types db q" "tbl_num_rows t = length (dk_rows db q)"
    using t(2) by (simp_all add: stores_def duck_rows_def)
  have len: "length (tbl_columns t) = ?n" using arg_cong[OF types(1), of length] by simp
  have count: "unat (dk_column_count db q) = ?n" "unat (dk_row_count db q) = length (dk_rows db q)"
    using assms(1) by (simp_all add: duck_ok_def)
  have "of_nat (unat w) = w" for w :: u64 by simp
  from this[of "dk_row_count db q"] this[of "dk_column_count db q"]
  have meta: "of_nat (length (dk_rows db q)) = dk_row_count db q" "of_nat ?n = dk_column_count db q"
    unfolding count by blast+
  have "put_num_pages t \<lparr>tm_num_rows = dk_row_count db q, tm_num_cols = dk_column_count db q,
      tm_types = duck_types db q @ replicate (MAX_COLS - ?n) INT32, tm_num_pages = replicate MAX_COLS 0\<rparr> = Inr (meta_of t)"
    using put_num_pages_prefix[of ?n t] assms(2) len by (simp add: put_num_pages_def meta_of_def count(1) meta types)
  ultimately show ?thesis
    using t count(1) unfolding dump_table_duckdb_def duck_meta_correct[OF assms(1-3)]
    by (simp add: duck_data_correct)
qed

lemma dump_expected_loads:
  assumes "duck_ok db q" "\<forall>ty \<in> set (dk_types db q). dk_id db ty \<noteq> LT_other"
    and "\<forall>k. sized_source (fresh k)" and size: "cacheable (duck_types db q) (duck_rows db q)"
  shows "\<exists>contents t. dump_expected fresh db q = Inr contents \<and> from_cache (\<lambda>_. Inr contents) path = Inr t \<and>
    stores t (duck_types db q) (sort_key row_key (duck_rows db q))"
proof -
  have cols: "length (dk_types db q) \<le> MAX_COLS" using size by (simp add: cacheable_def)
  obtain t where t: "dump_table_duckdb fresh db q = Inr (meta_of t, t)" "table_sized t"
    "stores t (duck_types db q) (sort_key row_key (duck_rows db q))"
    using dump_table_duckdb_correct[OF assms(1) cols assms(2,3)] by blast
  have few: "unat w < 2 ^ 64" for w :: u64 using unsigned_less[of w] by simp
  have "sum_list (map f (sort_key row_key xs)) = sum_list (map f xs)" for f :: "data list \<Rightarrow> nat" and xs
    by (metis mset_map mset_sort sum_mset_sum_list)
  then have "cacheable (duck_types db q) (sort_key row_key (duck_rows db q))"
    using size by (simp add: cacheable_def)
  moreover have "length (duck_rows db q) < 2 ^ 64"
    using assms(1) few[of "dk_row_count db q"] by (simp add: duck_ok_def duck_rows_def)
  ultimately have fits: "table_fits t" by (intro cacheable_fits[OF t(3)]) simp_all
  have "dump t = dump_file (meta_of t) t"
    using fits by (simp add: dump_def dump_table_new_eq table_fits_def)
  then have "rbind (dump_expected fresh db q) (\<lambda>contents. from_cache (\<lambda>_. Inr contents) path) = Inr t"
    using load_dumped[OF fits, of path] stored_sized[OF t(2)] t(1) by (simp add: dump_expected_def)
  then show ?thesis using t(3) by (auto simp: rbind_eq_Inr)
qed

section \<open>The comparison decides equality of bags\<close>

lemma compare_loop:
  assumes "pool_order filter_tp_threads order" "length rs = n" "length es = n"
  shows "pool_run filter_tp_threads order (\<lambda>b e. rfold (\<lambda>i booleans.
       rbind (at rs i) (\<lambda>r. rbind (at es i) (\<lambda>e. rbind (at booleans i) (\<lambda>_. Inr (booleans[i := if row_eq r e then 1 else 0 :: u8])))))
       [b..<e]) n (replicate n 0) = Inr (map (\<lambda>i. if row_eq (rs ! i) (es ! i) then 1 else 0) [0..<n])"
proof -
  let ?g = "\<lambda>i booleans. booleans[i := if row_eq (rs ! i) (es ! i) then 1 else 0 :: u8]"
  let ?f = "\<lambda>i booleans. rbind (at rs i) (\<lambda>r. rbind (at es i) (\<lambda>e.
      rbind (at booleans i) (\<lambda>_. Inr (booleans[i := if row_eq r e then 1 else 0 :: u8]))))"
  have part: "rfold ?f is bs = Inr (fold ?g is bs) \<and> length (fold ?g is bs) = n" if "length bs = n" "set is \<subseteq> {..<n}" for "is" bs
    using that assms(2,3) by (induction "is" arbitrary: bs) auto
  have "pool_run filter_tp_threads order (\<lambda>b e. rfold ?f [b..<e]) n (replicate n 0) = Inr (fold ?g [0..<n] (replicate n 0))"
  proof (rule pool_run_tasks[where P = "\<lambda>bs. length bs = n"])
    show "?g i \<circ> ?g j = ?g j \<circ> ?g i" for i j
      by (cases "i = j") (auto simp: fun_eq_iff list_update_swap)
    show "rfold ?f [b..<e] bs = Inr (fold ?g [b..<e] bs) \<and> length (fold ?g [b..<e] bs) = n" if "length bs = n" "e \<le> n" for b e bs
      using that by (intro part) auto
  qed (use assms(1) in \<open>simp_all add: filter_tp_threads_pos\<close>)
  also have "fold ?g [0..<n] (replicate n 0) = map (\<lambda>i. if row_eq (rs ! i) (es ! i) then 1 else 0) [0..<n]"
    by (rule fold_update_all) simp
  finally show ?thesis .
qed

lemma transposed_no_double:
  assumes "\<forall>c \<in> set cols. col_type c \<in> {INT32, VARCHAR} \<and> readable n c"
  shows "\<forall>row \<in> set (transpose_rows n (map column_data cols)). list_all no_double row"
proof -
  have "no_double (cell_data x)" for x by (cases x) (simp_all add: no_double_def)
  then have "no_double (column_data c ! i)" if "c \<in> set cols" "i < n" for c i
  proof -
    have "column_data c ! i \<in> set (column_data c)" using assms that by (intro nth_mem) (simp add: column_data_def readable_def)
    also have "set (column_data c) = cell_data ` set (column_cells c)"
      using column_cells_data(1)[of c] assms that(1) by (metis list.set_map)
    finally show ?thesis using \<open>\<And>x. no_double (cell_data x)\<close> by auto
  qed
  then show ?thesis by (auto simp: transpose_rows_def list_all_iff)
qed

lemma compare_withcache_correct:
  assumes order: "\<forall>k. pool_order filter_tp_threads (order k)"
    and results: "\<forall>c \<in> set (tbl_columns results). readable (tbl_num_rows results) c"
    and answer: "from_columnar order' results = Inr answer" "pool_order filter_tp_threads order'"
    and expected: "stores expected types (sort_key row_key rows)"
    and types: "set types \<subseteq> {INT32, VARCHAR}"
    and rows: "\<forall>row \<in> set rows. length row = length types \<and> list_all no_double row"
  shows "compare_withcache order expected results =
    Inr (map col_type (tbl_columns results) = types \<and> mset (tb_data answer) = mset rows)"
proof -
  let ?n = "tbl_num_rows results" and ?m = "length (tbl_columns results)"
  let ?types = "map col_type (tbl_columns results)"
  define data where "data = transpose_rows ?n (map column_data (tbl_columns results))"
  have len: "length data = ?n" by (simp add: data_def transpose_rows_def)
  have read: "from_columnar o1 results = Inr \<lparr>tb_types = ?types, tb_data = data\<rparr>" if "pool_order filter_tp_threads o1" for o1
    using results by (simp add: data_def from_columnar_correct[OF that])
  have tb_data: "tb_data answer = data" using read[OF answer(2)] answer(1) by simp
  have E: "tbl_num_rows expected = length rows" "map col_type (tbl_columns expected) = types"
    using expected by (simp_all add: stores_def)
  have load: "from_columnar (order 1) expected = Inr \<lparr>tb_types = types, tb_data = sort_key row_key rows\<rparr>"
    by (rule stores_from_columnar[OF _ expected]) (use order rows in auto)
  have lenE: "length (tbl_columns expected) = length types" using arg_cong[OF E(2), of length] by simp
  have differ: "list_ex (\<lambda>i. col_type (tbl_columns expected ! i) \<noteq> col_type (tbl_columns results ! i)) [0..<?m] \<longleftrightarrow> ?types \<noteq> types"
    if m: "length types = ?m"
  proof -
    have "col_type (tbl_columns expected ! i) = types ! i" if "i < ?m" for i
      using arg_cong[OF E(2), of "\<lambda>xs. xs ! i"] that m lenE by simp
    moreover have "?types = types \<longleftrightarrow> (\<forall>i < ?m. col_type (tbl_columns results ! i) = types ! i)"
      unfolding list_eq_iff_nth_eq using m by simp
    ultimately show ?thesis unfolding list_ex_iff set_upt by (metis atLeastLessThan_iff le0)
  qed
  consider (rows) "length rows \<noteq> ?n" | (types) "length rows = ?n" "?types \<noteq> types" | (same) "length rows = ?n" "?types = types" by blast
  then show ?thesis
  proof cases
    case rows
    then have "mset data \<noteq> mset rows" using len mset_eq_length by metis
    then show ?thesis using rows by (simp add: compare_withcache_def Let_def E(1) tb_data)
  next
    case types
    then show ?thesis
      using differ lenE by (cases "length types = ?m") (simp_all add: compare_withcache_def Let_def E(1))
  next
    case same
    have m: "length types = ?m" using arg_cong[OF same(2), of length] by simp
    have "col_type c \<in> {INT32, VARCHAR}" if "c \<in> set (tbl_columns results)" for c
      using that types same(2) by (metis image_eqI list.set_map subsetD)
    then have nd: "\<forall>row \<in> set data. list_all no_double row"
      unfolding data_def using results by (intro transposed_no_double) blast
    have sort: "sort_rows data = Inr (sort_key row_key data)"
      by (rule sort_rows_key) (use nd in \<open>auto simp: list_all_iff intro: no_double_nan\<close>)
    have loop: "pool_run filter_tp_threads (order 2) (\<lambda>b e. rfold (\<lambda>i booleans.
       rbind (at (sort_key row_key data) i) (\<lambda>r. rbind (at (sort_key row_key rows) i) (\<lambda>e.
       rbind (at booleans i) (\<lambda>_. Inr (booleans[i := if row_eq r e then 1 else 0 :: u8])))))
       [b..<e]) ?n (replicate ?n 0) =
      Inr (map (\<lambda>i. if row_eq (sort_key row_key data ! i) (sort_key row_key rows ! i) then 1 else 0) [0..<?n])"
      by (rule compare_loop) (use order len same(1) in auto)
    have "compare_withcache order expected results =
        Inr (list_all (\<lambda>v. v \<noteq> 0) (map (\<lambda>i. if row_eq (sort_key row_key data ! i) (sort_key row_key rows ! i) then 1 else 0 :: u8) [0..<?n]))"
      unfolding compare_withcache_def Let_def E(1) same(1) lenE m
      using differ[OF m] same(2) order read load sort loop by simp
    also have "list_all (\<lambda>v. v \<noteq> 0) (map (\<lambda>i. if row_eq (sort_key row_key data ! i) (sort_key row_key rows ! i) then 1 else 0 :: u8) [0..<?n])
        \<longleftrightarrow> list_all2 row_eq (sort_key row_key data) (sort_key row_key rows)"
      using len same(1) by (auto simp: list_all_iff list_all2_conv_all_nth split: if_splits)
    also have "\<dots> \<longleftrightarrow> mset data = mset rows"
      using rows by (intro sorted_rows_eq[OF nd]) blast
    finally show ?thesis using same(2) tb_data by simp
  qed
qed

section \<open>Properties\<close>

text \<open>C1. The acceptance test decides correctness: over tables imported from text files, dumped and loaded
  again, a plan is executed, and the answer is compared with the dumped answer of DuckDB. Nothing goes wrong,
  and the comparison is true if and only if DuckDB's answer has the types of the plan's root and is, as a bag, the relational
  evaluation of the plan, whatever order both sides list their rows in.\<close>

theorem acceptance_decides:
  assumes "pool_order filter_tp_threads order" "\<forall>k. sized_source (fresh k)"
    and "\<forall>(path, stmt) \<in> set queries. file_ok stod files types names content rows path \<and> filter_ok (types path) (rows path) stmt \<and>
      cacheable (types path) (filter (satisfies re stmt) (rows path))"
    and "query_ok plan (map (\<lambda>(path, stmt). types path) queries)
      (map (\<lambda>(path, stmt). filter (satisfies re stmt) (rows path)) queries)"
    and "env_ok env" "pl_root plan < fuel" "length (pn_output_attrs (pl_nodes plan ! pl_root plan)) \<le> MAX_COLS"
    and "duck_ok db q" "\<forall>ty \<in> set (dk_types db q). dk_id db ty \<noteq> LT_other" "cacheable (duck_types db q) (duck_rows db q)"
    and "\<forall>k. pool_order filter_tp_threads (orders k)"
  shows "\<exists>ts caches t en' contents expected.
    import_all fresh order re stod files types names queries no_caches = Inr (ts, caches) \<and>
    reload cache_path ts = Inr ts \<and>
    execute fuel env fresh' (plan\<lparr>pl_inputs := ts\<rparr>) en = Inr (t, en') \<and>
    dump_expected fresh db q = Inr contents \<and>
    from_cache (\<lambda>_. Inr contents) answer_path = Inr expected \<and>
    compare_withcache orders expected t = Inr
      (map snd (pn_output_attrs (pl_nodes plan ! pl_root plan)) = duck_types db q \<and>
       mset (query_rows plan (map (\<lambda>(path, stmt). filter (satisfies re stmt) (rows path)) queries) (pl_root plan)) =
         mset (duck_rows db q))"
proof -
  obtain ts caches where ts: "import_all fresh order re stod files types names queries no_caches = Inr (ts, caches)"
    "reload cache_path ts = Inr ts"
    "list_all2 (\<lambda>t (path, stmt). stores t (types path) (filter (satisfies re stmt) (rows path))) ts queries"
    using import_reload[OF assms(1-3)] by blast
  from query_over_tables[OF assms(1) ts(3) assms(4-7), of fresh' en] obtain t en' answer where
    t: "execute fuel env fresh' (plan\<lparr>pl_inputs := ts\<rparr>) en = Inr (t, en')"
    "map col_type (tbl_columns t) = map snd (pn_output_attrs (pl_nodes plan ! pl_root plan))"
    "\<forall>c \<in> set (tbl_columns t). readable (tbl_num_rows t) c" "from_columnar order t = Inr answer"
    "mset (tb_data answer) =
      mset (query_rows plan (map (\<lambda>(path, stmt). filter (satisfies re stmt) (rows path)) queries) (pl_root plan))"
    by blast
  obtain contents expected where e: "dump_expected fresh db q = Inr contents" "from_cache (\<lambda>_. Inr contents) answer_path = Inr expected"
    "stores expected (duck_types db q) (sort_key row_key (duck_rows db q))"
    using dump_expected_loads[OF assms(8,9,2,10), of answer_path] by blast
  have "set (duck_types db q) \<subseteq> {INT32, VARCHAR}" using duck_types_cases[of _ db q] by blast
  moreover have "\<forall>row \<in> set (duck_rows db q). length row = length (duck_types db q) \<and> list_all no_double row"
    using duck_rows_ok(2)[OF refl, of db q] by (simp add: duck_rows_def)
  ultimately have "compare_withcache orders expected t =
      Inr (map col_type (tbl_columns t) = duck_types db q \<and> mset (tb_data answer) = mset (duck_rows db q))"
    by (rule compare_withcache_correct[OF assms(11) t(3,4) assms(1) e(3)])
  then show ?thesis using ts(1,2) t(1) e(1,2) unfolding t(2,5) by blast
qed

definition example_duck :: "(matrix, data_type, data list, data) duckdb" where
  "example_duck = \<lparr>dk_row_count = (\<lambda>q. of_nat (length q)), dk_column_count = (\<lambda>q. 2), dk_types = (\<lambda>q. [INT32, VARCHAR]),
     dk_id = (\<lambda>ty. case ty of INT32 \<Rightarrow> LT_INTEGER | VARCHAR \<Rightarrow> LT_VARCHAR | _ \<Rightarrow> LT_other), dk_type_string = (\<lambda>ty. ''BIGINT''),
     dk_rows = (\<lambda>q. q), dk_value = (!), dk_is_null = (\<lambda>v. v = D_null),
     dk_integer = (\<lambda>v. case v of D_int32 w \<Rightarrow> w | _ \<Rightarrow> 0), dk_string = (\<lambda>v. case v of D_string s \<Rightarrow> s | _ \<Rightarrow> [])\<rparr>"

definition example_answer :: matrix where
  "example_answer = [[D_int32 7, D_string [98]], [D_int32 7, D_string [97, 34]],
     [D_int32 7, D_string [98]], [D_int32 7, D_string [97, 34]]]"

lemma example_duck_ok:
  "duck_ok example_duck example_answer" "\<forall>ty \<in> set (dk_types example_duck example_answer). dk_id example_duck ty \<noteq> LT_other"
  "duck_types example_duck example_answer = [INT32, VARCHAR]" "duck_rows example_duck example_answer = example_answer"
  "cacheable [INT32, VARCHAR] example_answer"
proof -
  show "duck_ok example_duck example_answer" "\<forall>ty \<in> set (dk_types example_duck example_answer). dk_id example_duck ty \<noteq> LT_other"
    by (simp_all add: duck_ok_def example_duck_def example_answer_def)
  show types: "duck_types example_duck example_answer = [INT32, VARCHAR]" by (simp add: duck_types_def example_duck_def)
  show "duck_rows example_duck example_answer = example_answer"
    by (simp add: duck_rows_def types) (simp add: duck_value_def example_duck_def example_answer_def)
  show "cacheable [INT32, VARCHAR] example_answer"
    by (auto simp: cacheable_def MAX_COLS_def example_answer_def data_size_def less_Suc_eq)
qed

theorem acceptance_decides_witness:
  "\<exists>ts caches t en' contents expected.
    import_all (\<lambda>_ _ _. 0) [0..<filter_tp_threads] example_re (\<lambda>_. None) (\<lambda>_. Inr [csv_rows example_csv]) (\<lambda>_. [INT32, VARCHAR])
      (\<lambda>_. None) example_queries no_caches = Inr (ts, caches) \<and>
    reload ''t'' ts = Inr ts \<and>
    execute 3 example_parallel_env example_fresh (example_plan\<lparr>pl_inputs := ts\<rparr>) example_engine = Inr (t, en') \<and>
    dump_expected (\<lambda>_ _ _. 0) example_duck example_answer = Inr contents \<and>
    from_cache (\<lambda>_. Inr contents) ''q'' = Inr expected \<and>
    compare_withcache (\<lambda>_. [0..<filter_tp_threads]) expected t = Inr True"
proof -
  have root: "pl_root example_plan = 2" "length (pn_output_attrs (pl_nodes example_plan ! 2)) \<le> MAX_COLS"
    "map snd (pn_output_attrs (pl_nodes example_plan ! 2)) = [INT32, VARCHAR]"
    by (simp_all add: example_plan_def MAX_COLS_def)
  have fuel: "pl_root example_plan < 3" by (simp add: root(1))
  have len: "length (pn_output_attrs (pl_nodes example_plan ! pl_root example_plan)) \<le> MAX_COLS"
    unfolding root(1) by (rule root(2))
  have query: "query_ok example_plan (map (\<lambda>(path, stmt). [INT32, VARCHAR]) example_queries)
      (map (\<lambda>(path, stmt). filter (satisfies example_re stmt) example_csv) example_queries)"
    unfolding example_cached_files(3) example_db by (rule example_query_ok)
  have bags: "mset example_answer = mset [[D_int32 7, D_string [97, 34]], [D_int32 7, D_string [98]],
      [D_int32 7, D_string [97, 34]], [D_int32 7, D_string [98]]]"
    by (simp add: example_answer_def)
  have size: "cacheable (duck_types example_duck example_answer) (duck_rows example_duck example_answer)"
    unfolding example_duck_ok(3,4) by (rule example_duck_ok(5))
  have orders: "\<forall>k :: nat. pool_order filter_tp_threads [0..<filter_tp_threads]" using default_pool_order by blast
  from acceptance_decides[OF default_pool_order example_cached_files(2,1) query example_parallel_env_ok fuel len
      example_duck_ok(1,2) size orders, of "''t''" example_fresh example_engine "''q''"]
  show ?thesis
    unfolding root(1,3) example_db example_query_rows example_duck_ok(3,4) bags by simp
qed

text \<open>What cannot be dumped is refused before a row is read: a column of a type other than INTEGER or
  VARCHAR, among the first 17, makes the constructor throw an exception that names the type, and a result of more than
  16 columns of these types writes past the arrays of the header.\<close>

theorem dump_expected_rejects:
  assumes "k < length (dk_types db q)" "length (dk_types db q) \<le> unat (dk_column_count db q)"
    and "\<forall>i < k. dk_id db (dk_types db q ! i) \<noteq> LT_other" "k \<le> MAX_COLS"
  shows "(dk_id db (dk_types db q ! k) = LT_other \<longrightarrow> dump_expected fresh db q =
      Inl (Runtime_error (dk_type_string db (dk_types db q ! k) @ '' in DuckDB is not supported''))) \<and>
    (dk_id db (dk_types db q ! k) \<noteq> LT_other \<and> k = MAX_COLS \<longrightarrow> dump_expected fresh db q = Inl Undefined)"
proof -
  let ?f = "\<lambda>i s. rbind (at (dk_types db q) i) (\<lambda>ty.
         case dk_id db ty of
           LT_INTEGER \<Rightarrow> put_type i INT32 s
         | LT_VARCHAR \<Rightarrow> put_type i VARCHAR s
         | LT_other \<Rightarrow> Inl (Runtime_error (dk_type_string db ty @ '' in DuckDB is not supported'')))"
  let ?s = "(\<lparr>tm_num_rows = dk_row_count db q, tm_num_cols = dk_column_count db q,
         tm_types = replicate MAX_COLS INT32, tm_num_pages = replicate MAX_COLS 0\<rparr>, [])"
  have split: "[0..<unat (dk_column_count db q)] = [0..<k] @ k # [Suc k..<unat (dk_column_count db q)]"
    using assms(1,2) upt_add_eq_append[of 0 k "unat (dk_column_count db q) - k"] by (simp add: upt_conv_Cons)
  obtain m where m: "rfold ?f [0..<k] ?s = Inr (m, take k (duck_types db q))" "k = MAX_COLS \<Longrightarrow> length (tm_types m) \<le> k"
    using duck_meta_prefix[of k db q] assms by simp
  show ?thesis
  proof (intro conjI impI)
    assume "dk_id db (dk_types db q ! k) = LT_other"
    then show "dump_expected fresh db q = Inl (Runtime_error (dk_type_string db (dk_types db q ! k) @ '' in DuckDB is not supported''))"
      using m(1) assms(1) unfolding dump_expected_def dump_table_duckdb_def duck_meta_def split rfold_append by simp
  next
    assume "dk_id db (dk_types db q ! k) \<noteq> LT_other \<and> k = MAX_COLS"
    then show "dump_expected fresh db q = Inl Undefined"
      using m assms(1) unfolding dump_expected_def dump_table_duckdb_def duck_meta_def split rfold_append
      by (cases "dk_id db (dk_types db q ! k)") (simp_all add: put_type_def at_def)
  qed
qed

theorem dump_expected_rejects_witness:
  "dump_expected (\<lambda>_ _ _. 0) (example_duck\<lparr>dk_types := (\<lambda>q. [INT32, INT64])\<rparr>) example_answer =
    Inl (Runtime_error ''BIGINT in DuckDB is not supported'')"
  using dump_expected_rejects[of 1 "example_duck\<lparr>dk_types := (\<lambda>q. [INT32, INT64])\<rparr>" example_answer "\<lambda>_ _ _. 0"]
  by (simp add: example_duck_def MAX_COLS_def)

end
