(* ===== verification/FileHandles.thy ===== *)
theory FileHandles
  imports Prelude
begin

text \<open>
  Files (\<open>File\<close> and \<open>read_file\<close> of \<open>include/common.h\<close>): a \<open>File\<close> owns a \<open>FILE*\<close> of the C library and
  closes it when it goes. The library is a table of open streams; closing or using a stream that is not
  open is undefined. The files of a program are a store of objects that are created, moved and destroyed;
  each open stream belongs to exactly one of them, so that every stream is closed once. All
  files are opened in mode \<open>"rb"\<close>.
\<close>

section \<open>The C library\<close>

record stream =
  st_contents :: "u8 list"
  st_position :: nat

text \<open>\<open>io_files\<close> are the files that can be read; \<open>io_next\<close> has not been a stream yet.\<close>

record stdio =
  io_files :: "string \<rightharpoonup> u8 list"
  io_streams :: "nat \<rightharpoonup> stream"
  io_next :: nat

definition fopen_rb :: "string \<Rightarrow> stdio \<Rightarrow> nat option \<times> stdio" where
  "fopen_rb path io =
     (case io_files io path of
        None \<Rightarrow> (None, io)
      | Some contents \<Rightarrow> (Some (io_next io),
          io\<lparr>io_streams := (io_streams io)(io_next io \<mapsto> \<lparr>st_contents = contents, st_position = 0\<rparr>),
             io_next := io_next io + 1\<rparr>))"

definition fclose :: "nat \<Rightarrow> stdio \<Rightarrow> stdio res" where
  "fclose h io =
     (case io_streams io h of None \<Rightarrow> Inl Undefined | Some st \<Rightarrow> Inr (io\<lparr>io_streams := (io_streams io)(h := None)\<rparr>))"

text \<open>\<open>fseek\<close> with \<open>SEEK_END\<close> or \<open>SEEK_SET\<close>, \<open>ftell\<close>, \<open>fread\<close> of bytes.\<close>

definition fseek :: "nat \<Rightarrow> nat \<Rightarrow> bool \<Rightarrow> stdio \<Rightarrow> stdio res" where
  "fseek h off from_end io =
     (case io_streams io h of
        None \<Rightarrow> Inl Undefined
      | Some st \<Rightarrow> Inr (io\<lparr>io_streams := (io_streams io)
          (h \<mapsto> st\<lparr>st_position := (if from_end then length (st_contents st) else 0) + off\<rparr>)\<rparr>))"

definition ftell :: "nat \<Rightarrow> stdio \<Rightarrow> nat res" where
  "ftell h io = (case io_streams io h of None \<Rightarrow> Inl Undefined | Some st \<Rightarrow> Inr (st_position st))"

definition fread :: "nat \<Rightarrow> nat \<Rightarrow> stdio \<Rightarrow> (u8 list \<times> stdio) res" where
  "fread h n io =
     (case io_streams io h of
        None \<Rightarrow> Inl Undefined
      | Some st \<Rightarrow>
          let data = take n (drop (st_position st) (st_contents st))
          in Inr (data, io\<lparr>io_streams := (io_streams io)(h \<mapsto> st\<lparr>st_position := st_position st + length data\<rparr>)\<rparr>))"

section \<open>The class File\<close>

type_synonym file_object = "nat option"

definition file_new :: "string \<Rightarrow> stdio \<Rightarrow> (file_object \<times> stdio) res" where
  "file_new path io =
     (let (handle, io) = fopen_rb path io
      in if handle = None then Inl (Runtime_error (''Failed to open file: '' @ path)) else Inr (handle, io))"

definition file_close :: "file_object \<Rightarrow> stdio \<Rightarrow> (file_object \<times> stdio) res" where
  "file_close this io =
     (case this of
        Some handle \<Rightarrow> rbind (fclose handle io) (\<lambda>io. Inr (None, io))
      | None \<Rightarrow> Inr (None, io))"

text \<open>The new object and what remains in the other one.\<close>

definition file_move :: "file_object \<Rightarrow> file_object \<times> file_object" where
  "file_move other = (other, None)"

definition file_destroy :: "file_object \<Rightarrow> stdio \<Rightarrow> stdio res" where
  "file_destroy this io = rbind (file_close this io) (\<lambda>(this, io). Inr io)"

text \<open>The move assignment works on the store of objects: both sides may be the same object.\<close>

type_synonym file_state = "(nat \<rightharpoonup> file_object) \<times> stdio"

definition file_assign :: "nat \<Rightarrow> nat \<Rightarrow> file_state \<Rightarrow> file_state res" where
  "file_assign this other = (\<lambda>(vars, io).
     if this \<noteq> other
     then rbind (file_close (the (vars this)) io) (\<lambda>(closed, io).
            Inr (vars(this \<mapsto> the (vars other), other \<mapsto> None), io))
     else Inr (vars, io))"

text \<open>The vector behind \<open>result\<close> is as long as the file before it is read.\<close>

definition read_file :: "string \<Rightarrow> stdio \<Rightarrow> (u8 list \<times> stdio) res" where
  "read_file path io =
     rbind (file_new path io) (\<lambda>(f, io).
     rbind (fseek (the f) 0 True io) (\<lambda>io.
     rbind (ftell (the f) io) (\<lambda>size.
     rbind (fseek (the f) 0 False io) (\<lambda>io.
     let result = replicate size 0
     in rbind (fread (the f) size io) (\<lambda>(data, io).
        let result = data @ drop (length data) result
        in rbind (file_destroy f io) (\<lambda>io. Inr (result, io)))))))"

section \<open>Programs with files\<close>

datatype file_op = New_file nat string | Move_new nat nat | Move_assign nat nat | Destroy_file nat | Read_stream nat nat

text \<open>What the language allows: objects are created where there is none, and only live ones are used; a read
  needs an object that has not been moved from.\<close>

fun legal_op :: "file_op \<Rightarrow> (nat \<rightharpoonup> file_object) \<Rightarrow> bool" where
  "legal_op (New_file x path) vars \<longleftrightarrow> vars x = None"
| "legal_op (Move_new x y) vars \<longleftrightarrow> vars x = None \<and> vars y \<noteq> None"
| "legal_op (Move_assign x y) vars \<longleftrightarrow> vars x \<noteq> None \<and> vars y \<noteq> None"
| "legal_op (Destroy_file x) vars \<longleftrightarrow> vars x \<noteq> None"
| "legal_op (Read_stream x n) vars \<longleftrightarrow> vars x \<noteq> None \<and> vars x \<noteq> Some None"

text \<open>A constructor that throws leaves no object behind.\<close>

fun exec_op :: "file_op \<Rightarrow> file_state \<Rightarrow> file_state res" where
  "exec_op (New_file x path) (vars, io) =
     (case file_new path io of Inl e \<Rightarrow> Inr (vars, io) | Inr (f, io') \<Rightarrow> Inr (vars(x \<mapsto> f), io'))"
| "exec_op (Move_new x y) (vars, io) =
     (let (new, rest) = file_move (the (vars y)) in Inr (vars(x \<mapsto> new, y \<mapsto> rest), io))"
| "exec_op (Move_assign x y) (vars, io) = file_assign x y (vars, io)"
| "exec_op (Destroy_file x) (vars, io) = rbind (file_destroy (the (vars x)) io) (\<lambda>io. Inr (vars(x := None), io))"
| "exec_op (Read_stream x n) (vars, io) = rbind (fread (the (the (vars x))) n io) (\<lambda>(data, io). Inr (vars, io))"

inductive files_reachable :: "file_state \<Rightarrow> bool" where
  files_start: "io_streams io = Map.empty \<Longrightarrow> files_reachable (Map.empty, io)"
| files_step: "files_reachable (vars, io) \<Longrightarrow> legal_op op vars \<Longrightarrow> exec_op op (vars, io) = Inr s \<Longrightarrow> files_reachable s"

section \<open>The invariant\<close>

text \<open>The streams that are open and the objects that hold them, one to one.\<close>

definition holds :: "(nat \<rightharpoonup> file_object) \<Rightarrow> nat \<Rightarrow> nat \<Rightarrow> bool" where
  "holds vars x h \<longleftrightarrow> vars x = Some (Some h)"

definition streams_ok :: "file_state \<Rightarrow> bool" where
  "streams_ok = (\<lambda>(vars, io).
     (\<forall>x h. holds vars x h \<longrightarrow> h \<in> dom (io_streams io)) \<and>
     (\<forall>x y h. holds vars x h \<longrightarrow> holds vars y h \<longrightarrow> x = y) \<and>
     (\<forall>h \<in> dom (io_streams io). h < io_next io \<and> (\<exists>x. holds vars x h)))"

lemma streams_okI:
  assumes "\<And>x h. holds vars x h \<Longrightarrow> h \<in> dom (io_streams io)"
    and "\<And>x y h. holds vars x h \<Longrightarrow> holds vars y h \<Longrightarrow> x = y"
    and "\<And>h. h \<in> dom (io_streams io) \<Longrightarrow> h < io_next io"
    and "\<And>h. h \<in> dom (io_streams io) \<Longrightarrow> \<exists>x. holds vars x h"
  shows "streams_ok (vars, io)"
  unfolding streams_ok_def using assms by simp

lemma streams_okD:
  assumes "streams_ok (vars, io)"
  shows "holds vars x h \<Longrightarrow> h \<in> dom (io_streams io)" "holds vars x h \<Longrightarrow> holds vars y h \<Longrightarrow> x = y"
    "h \<in> dom (io_streams io) \<Longrightarrow> h < io_next io" "h \<in> dom (io_streams io) \<Longrightarrow> \<exists>x. holds vars x h"
  using assms by (simp_all add: streams_ok_def)

lemma holds_update: "holds (vars(x := v)) y h \<longleftrightarrow> (if y = x then v = Some (Some h) else holds vars y h)"
  by (simp add: holds_def)

lemma holds_fun: "holds vars x h \<Longrightarrow> holds vars x k \<Longrightarrow> k = h"
  by (simp add: holds_def)

text \<open>Closing what an object holds.\<close>

lemma close_stream_ok:
  assumes ok: "streams_ok (vars, io)" and x: "vars x = Some f" and v: "v = None \<or> v = Some None"
  shows "\<exists>io'. file_close f io = Inr (None, io') \<and> streams_ok (vars(x := v), io')"
proof (cases f)
  case None
  then have "holds (vars(x := v)) y h \<longleftrightarrow> holds vars y h" for y h
    using v x by (auto simp: holds_update) (simp_all add: holds_def)
  then show ?thesis using ok None by (simp add: file_close_def streams_ok_def)
next
  case (Some h)
  let ?io = "io\<lparr>io_streams := (io_streams io)(h := None)\<rparr>"
  have held: "holds vars x h" using x Some by (simp add: holds_def)
  then obtain st where st: "io_streams io h = Some st" using streams_okD(1)[OF ok held] by blast
  have other: "holds (vars(x := v)) y k \<longleftrightarrow> holds vars y k \<and> k \<noteq> h" for y k
  proof (cases "y = x")
    case True
    then show ?thesis using v holds_fun[OF held, of k] by (auto simp: holds_update)
  next
    case False
    then show ?thesis using streams_okD(2)[OF ok held, of y] by (auto simp: holds_update)
  qed
  have "streams_ok (vars(x := v), ?io)"
  proof (rule streams_okI)
    show "k \<in> dom (io_streams ?io)" if "holds (vars(x := v)) y k" for y k
      using that streams_okD(1)[OF ok, of y k] by (auto simp: other)
    show "y = z" if "holds (vars(x := v)) y k" "holds (vars(x := v)) z k" for y z k
      using that streams_okD(2)[OF ok] by (auto simp: other)
    show "k < io_next ?io" if "k \<in> dom (io_streams ?io)" for k
      using that streams_okD(3)[OF ok, of k] by (auto split: if_splits)
    show "\<exists>y. holds (vars(x := v)) y k" if "k \<in> dom (io_streams ?io)" for k
      using that streams_okD(4)[OF ok, of k] by (auto simp: other split: if_splits)
  qed
  then show ?thesis using Some st by (simp add: file_close_def fclose_def)
qed

lemma open_stream_ok:
  assumes ok: "streams_ok (vars, io)" and x: "vars x = None" and f: "file_new path io = Inr (f, io')"
  shows "streams_ok (vars(x \<mapsto> f), io')"
proof -
  obtain contents where c: "io_files io path = Some contents" "f = Some (io_next io)"
    "io' = io\<lparr>io_streams := (io_streams io)(io_next io \<mapsto> \<lparr>st_contents = contents, st_position = 0\<rparr>), io_next := io_next io + 1\<rparr>"
    using f by (auto simp: file_new_def fopen_rb_def split: option.splits)
  have fresh: "\<not> holds vars y (io_next io)" for y
    using streams_okD(1)[OF ok, of y "io_next io"] streams_okD(3)[OF ok, of "io_next io"] by blast
  have new: "holds (vars(x \<mapsto> f)) y h \<longleftrightarrow> holds vars y h \<or> y = x \<and> h = io_next io" for y h
    using x c(2) by (auto simp: holds_update) (simp add: holds_def)
  show ?thesis
  proof (rule streams_okI)
    show "h \<in> dom (io_streams io')" if "holds (vars(x \<mapsto> f)) y h" for y h
      using that streams_okD(1)[OF ok, of y h] unfolding new c(3) by auto
    show "y = z" if "holds (vars(x \<mapsto> f)) y h" "holds (vars(x \<mapsto> f)) z h" for y z h
      using that streams_okD(2)[OF ok] fresh unfolding new by blast
    show "h < io_next io'" if "h \<in> dom (io_streams io')" for h
      using that streams_okD(3)[OF ok, of h] unfolding c(3) by (auto intro: less_SucI split: if_splits)
    show "\<exists>y. holds (vars(x \<mapsto> f)) y h" if "h \<in> dom (io_streams io')" for h
      using that streams_okD(4)[OF ok, of h] unfolding new c(3) by (auto split: if_splits)
  qed
qed

text \<open>Passing a stream on to an object that holds none.\<close>

lemma transfer_stream_ok:
  assumes ok: "streams_ok (vars, io)" and x: "vars x = None \<or> vars x = Some None" and y: "vars y = Some f" "x \<noteq> y"
  shows "streams_ok (vars(x \<mapsto> f, y \<mapsto> None), io)"
proof -
  have held: "holds (vars(x \<mapsto> f, y \<mapsto> None)) z h \<longleftrightarrow> (if z = x then holds vars y h else z \<noteq> y \<and> holds vars z h)" for z h
    using y by (simp add: holds_update) (simp add: holds_def)
  have not: "\<not> holds vars x h" for h using x by (auto simp: holds_def)
  show ?thesis
  proof (rule streams_okI)
    show "h \<in> dom (io_streams io)" if "holds (vars(x \<mapsto> f, y \<mapsto> None)) z h" for z h
      using that streams_okD(1)[OF ok] unfolding held by (meson)
    show "z = w" if "holds (vars(x \<mapsto> f, y \<mapsto> None)) z h" "holds (vars(x \<mapsto> f, y \<mapsto> None)) w h" for z w h
      using that streams_okD(2)[OF ok] unfolding held by (metis)
    show "h < io_next io" if "h \<in> dom (io_streams io)" for h using streams_okD(3)[OF ok that] .
    show "\<exists>z. holds (vars(x \<mapsto> f, y \<mapsto> None)) z h" if h: "h \<in> dom (io_streams io)" for h
    proof -
      obtain z where z: "holds vars z h" using streams_okD(4)[OF ok h] by blast
      show ?thesis
      proof (cases "z = y")
        case True
        then show ?thesis using z by (intro exI[of _ x]) (simp add: held)
      next
        case False
        then show ?thesis using z not[of h] by (intro exI[of _ z]) (auto simp: held)
      qed
    qed
  qed
qed

lemma file_step_ok:
  assumes ok: "streams_ok (vars, io)" and legal: "legal_op op vars"
  shows "\<exists>s. exec_op op (vars, io) = Inr s \<and> streams_ok s"
proof (cases op)
  case (New_file x path)
  then show ?thesis
    using ok open_stream_ok[OF ok, of x path] legal by (cases "file_new path io") auto
next
  case (Move_new x y)
  then obtain f where f: "vars x = None" "vars y = Some f" using legal by auto
  then have "x \<noteq> y" by auto
  with transfer_stream_ok[OF ok _ f(2), of x] f show ?thesis by (simp add: Move_new file_move_def)
next
  case (Move_assign x y)
  then obtain f g where f: "vars x = Some f" "vars y = Some g" using legal by auto
  show ?thesis
  proof (cases "x = y")
    case True
    then show ?thesis using ok by (simp add: Move_assign file_assign_def)
  next
    case False
    obtain io' where io': "file_close f io = Inr (None, io')" "streams_ok (vars(x := Some None), io')"
      using close_stream_ok[OF ok f(1), of "Some None"] by auto
    have "streams_ok (vars(x \<mapsto> None, x \<mapsto> g, y \<mapsto> None), io')"
      by (rule transfer_stream_ok[OF io'(2)]) (use f False in simp_all)
    then show ?thesis using False f io'(1) by (simp add: Move_assign file_assign_def)
  qed
next
  case (Destroy_file x)
  then obtain f where f: "vars x = Some f" using legal by auto
  with close_stream_ok[OF ok f, of None] show ?thesis by (auto simp: Destroy_file file_destroy_def)
next
  case (Read_stream x n)
  then obtain h where h: "vars x = Some (Some h)" using legal by auto
  then have dom: "h \<in> dom (io_streams io)" using streams_okD(1)[OF ok, of x h] by (simp add: holds_def)
  then obtain st where st: "io_streams io h = Some st" by blast
  have "streams_ok (vars, io\<lparr>io_streams := (io_streams io)(h \<mapsto> st')\<rparr>)" for st'
    using ok dom unfolding streams_ok_def by (simp add: insert_absorb)
  then show ?thesis using h st by (simp add: Read_stream fread_def Let_def)
qed

lemma files_reachable_ok: "files_reachable s \<Longrightarrow> streams_ok s"
proof (induction rule: files_reachable.induct)
  case (files_start io)
  then show ?case by (simp add: streams_ok_def holds_def)
next
  case (files_step vars io op s)
  then show ?case using file_step_ok[of vars io op] by auto
qed

section \<open>Properties\<close>

text \<open>C18. Files neither leak nor are closed twice: whatever a program does with \<open>File\<close> objects - open,
  move, assign (also an object to itself), read, destroy - no operation uses a stream that is not open, every open stream
  is held by exactly one object, and once all objects are destroyed no stream is open.\<close>

theorem file_handles_safe:
  assumes "files_reachable (vars, io)"
  shows "(\<forall>op. legal_op op vars \<longrightarrow> (\<exists>s. exec_op op (vars, io) = Inr s)) \<and>
    (\<forall>h \<in> dom (io_streams io). \<exists>!x. vars x = Some (Some h)) \<and>
    (vars = Map.empty \<longrightarrow> io_streams io = Map.empty)"
proof -
  have ok: "streams_ok (vars, io)" using files_reachable_ok[OF assms] .
  have "\<exists>!x. vars x = Some (Some h)" if "h \<in> dom (io_streams io)" for h
    using streams_okD(2,4)[OF ok] that unfolding holds_def by blast
  moreover have "io_streams io = Map.empty" if "vars = Map.empty"
    using streams_okD(4)[OF ok] that by (auto simp: holds_def)
  ultimately show ?thesis using file_step_ok[OF ok] by blast
qed

text \<open>Two files are opened, the second is assigned over the first, which closes the stream of the first.\<close>

theorem file_handles_safe_witness:
  "\<exists>vars io. files_reachable (vars, io) \<and> dom (io_streams io) = {1} \<and> vars = [0 \<mapsto> Some 1, 1 \<mapsto> None] \<and>
    (\<forall>op. legal_op op vars \<longrightarrow> (\<exists>s. exec_op op (vars, io) = Inr s)) \<and>
    (\<forall>h \<in> dom (io_streams io). \<exists>!x. vars x = Some (Some h))"
proof -
  let ?files = "[''a'' \<mapsto> [1], ''b'' \<mapsto> [2, 3]]"
  let ?io0 = "\<lparr>io_files = ?files, io_streams = Map.empty, io_next = 0\<rparr>"
  let ?a = "\<lparr>st_contents = [1], st_position = 0\<rparr>" and ?b = "\<lparr>st_contents = [2, 3], st_position = 0\<rparr>"
  let ?io1 = "\<lparr>io_files = ?files, io_streams = [0 \<mapsto> ?a], io_next = 1\<rparr>"
  let ?io2 = "\<lparr>io_files = ?files, io_streams = [0 \<mapsto> ?a, 1 \<mapsto> ?b], io_next = 2\<rparr>"
  let ?io3 = "\<lparr>io_files = ?files, io_streams = [1 \<mapsto> ?b], io_next = 2\<rparr>"
  have "files_reachable (Map.empty, ?io0)" by (rule files_start) simp
  then have "files_reachable ([0 \<mapsto> Some 0], ?io1)"
    by (rule files_step[where op = "New_file 0 ''a''"]) (simp_all add: file_new_def fopen_rb_def)
  then have "files_reachable ([0 \<mapsto> Some 0, 1 \<mapsto> Some 1], ?io2)"
    by (rule files_step[where op = "New_file 1 ''b''"]) (simp_all add: file_new_def fopen_rb_def numeral_2_eq_2)
  then have r: "files_reachable ([0 \<mapsto> Some 1, 1 \<mapsto> None], ?io3)"
    by (rule files_step[where op = "Move_assign 0 1"]) (auto simp: file_assign_def file_close_def fclose_def fun_eq_iff)
  have "dom (io_streams ?io3) = {1}" by simp
  with r file_handles_safe[OF r] show ?thesis by blast
qed

text \<open>\<open>read_file\<close> returns the whole file and leaves the library as it found it; without the file it throws.\<close>

theorem read_file_contents:
  assumes "\<forall>h \<in> dom (io_streams io). h < io_next io"
  shows "read_file path io =
    (case io_files io path of
       None \<Rightarrow> Inl (Runtime_error (''Failed to open file: '' @ path))
     | Some contents \<Rightarrow> Inr (contents, io\<lparr>io_next := io_next io + 1\<rparr>))"
proof (cases "io_files io path")
  case None
  then show ?thesis by (simp add: read_file_def file_new_def fopen_rb_def)
next
  case (Some contents)
  have "io_streams io (io_next io) = None" using assms by blast
  then have "(io_streams io)(io_next io := None) = io_streams io" by (simp add: fun_upd_idem)
  then show ?thesis
    using Some by (simp add: read_file_def file_new_def fopen_rb_def fseek_def ftell_def fread_def file_destroy_def
        file_close_def fclose_def Let_def)
qed

end
