(* ===== verification/MappedFiles.thy ===== *)
theory MappedFiles
  imports TableCache
begin

text \<open>
  Mapping a table file into memory (the beginning of \<open>Table::from_cache\<close>, \<open>src/build_table.cpp\<close>) and
  the mapping's owner \<open>MappedMemory\<close> (\<open>include/plan.h\<close>), over the system calls they use. The state of the
  operating system is kept on every path, also where an exception leaves the function: the descriptor
  is closed on each of them, and a region stays mapped only on success. The pages are read from the
  region, so the mapping is what \<open>from_cache\<close> of \<open>TableCache\<close> takes as its parameter.
\<close>

section \<open>The operating system\<close>

text \<open>Open descriptors and mapped regions with the bytes behind them; \<open>os_next\<close> has not been used yet.\<close>

record os =
  os_files :: "string \<rightharpoonup> u8 list"
  os_fds :: "nat \<rightharpoonup> u8 list"
  os_regions :: "nat \<rightharpoonup> u8 list"
  os_next :: nat

text \<open>Which calls succeed; a file that is not there cannot be opened in any case.\<close>

record os_env =
  may_open :: "string \<Rightarrow> bool"
  may_stat :: bool
  may_map :: bool

definition os_open :: "os_env \<Rightarrow> string \<Rightarrow> os \<Rightarrow> nat option \<times> os" where
  "os_open env path os =
     (case os_files os path of
        Some contents \<Rightarrow>
          if may_open env path
          then (Some (os_next os), os\<lparr>os_fds := (os_fds os)(os_next os \<mapsto> contents), os_next := os_next os + 1\<rparr>)
          else (None, os)
      | None \<Rightarrow> (None, os))"

definition os_fstat :: "os_env \<Rightarrow> nat \<Rightarrow> os \<Rightarrow> nat option" where
  "os_fstat env fd os = (if may_stat env then map_option length (os_fds os fd) else None)"

definition os_mmap :: "os_env \<Rightarrow> nat \<Rightarrow> os \<Rightarrow> nat option \<times> os" where
  "os_mmap env fd os =
     (case os_fds os fd of
        Some contents \<Rightarrow>
          if may_map env
          then (Some (os_next os), os\<lparr>os_regions := (os_regions os)(os_next os \<mapsto> contents), os_next := os_next os + 1\<rparr>)
          else (None, os)
      | None \<Rightarrow> (None, os))"

definition os_close :: "nat \<Rightarrow> os \<Rightarrow> os" where
  "os_close fd os = os\<lparr>os_fds := (os_fds os)(fd := None)\<rparr>"

text \<open>\<open>munmap\<close> of the null pointer fails and does nothing.\<close>

definition os_munmap :: "nat option \<Rightarrow> os \<Rightarrow> os" where
  "os_munmap addr os = (case addr of None \<Rightarrow> os | Some r \<Rightarrow> os\<lparr>os_regions := (os_regions os)(r := None)\<rparr>)"

section \<open>Mapping a file\<close>

text \<open>The result is an exception or the region and its length, and the state it leaves behind.\<close>

definition map_table_file :: "os_env \<Rightarrow> string \<Rightarrow> os \<Rightarrow> (nat \<times> nat) res \<times> os" where
  "map_table_file env path os =
     (let (fd, os) = os_open env path os
      in case fd of
           None \<Rightarrow> (Inl (Runtime_error (''Failed to open file: '' @ path)), os)
         | Some fd \<Rightarrow>
           (case os_fstat env fd os of
              None \<Rightarrow> (Inl (Runtime_error (''Failed to stat file: '' @ path)), os_close fd os)
            | Some st_size \<Rightarrow>
              if st_size = 0 then (Inl (Runtime_error (''File is empty: '' @ path)), os_close fd os)
              else let (file_in_memory, os) = os_mmap env fd os
                   in case file_in_memory of
                        None \<Rightarrow> (Inl (Runtime_error (''Failed to mmap file: '' @ path)), os_close fd os)
                      | Some region \<Rightarrow> (Inr (region, st_size), os_close fd os)))"

text \<open>What \<open>from_cache\<close> reads through the pointers into the region.\<close>

definition mapped_contents :: "os_env \<Rightarrow> os \<Rightarrow> string \<Rightarrow> u8 list res" where
  "mapped_contents env os path =
     (let (r, os) = map_table_file env path os
      in rbind r (\<lambda>(region, len).
           case os_regions os region of Some contents \<Rightarrow> Inr (take len contents) | None \<Rightarrow> Inl Undefined))"

section \<open>The owner of a mapping\<close>

record mapping =
  mp_addr :: "nat option"
  mp_length :: nat
  mp_refs :: nat

definition mapping_new :: "nat \<Rightarrow> nat \<Rightarrow> mapping" where
  "mapping_new addr len = \<lparr>mp_addr = Some addr, mp_length = len, mp_refs = 0\<rparr>"

definition mapping_cleared :: mapping where
  "mapping_cleared = \<lparr>mp_addr = None, mp_length = 0, mp_refs = 0\<rparr>"

text \<open>The new object and what remains in the other one.\<close>

definition mapping_move :: "mapping \<Rightarrow> mapping \<times> mapping" where
  "mapping_move other = (\<lparr>mp_addr = mp_addr other, mp_length = mp_length other, mp_refs = mp_refs other\<rparr>, mapping_cleared)"

text \<open>The assignment between two different objects; it takes over the members without a look at its own.\<close>

definition mapping_assign :: "mapping \<Rightarrow> mapping \<Rightarrow> mapping \<times> mapping" where
  "mapping_assign this other =
     (this\<lparr>mp_addr := mp_addr other, mp_length := mp_length other, mp_refs := mp_refs other\<rparr>, mapping_cleared)"

definition mapping_destroy :: "mapping \<Rightarrow> os \<Rightarrow> os" where
  "mapping_destroy m os = os_munmap (mp_addr m) os"

section \<open>Properties\<close>

definition os_ok :: "os \<Rightarrow> bool" where
  "os_ok os \<longleftrightarrow> (\<forall>k \<in> dom (os_fds os) \<union> dom (os_regions os). k < os_next os)"

text \<open>Every path through the opening, the four failures included, closes the descriptor; only success
  leaves a region behind, a new one with the bytes of the file.\<close>

theorem map_table_file_cases:
  assumes "os_ok os"
  shows "os_fds (snd (map_table_file env path os)) = os_fds os \<and>
    (case fst (map_table_file env path os) of
       Inl e \<Rightarrow> os_regions (snd (map_table_file env path os)) = os_regions os \<and>
         (os_files os path = None \<or> os_files os path = Some [] \<or> \<not> may_open env path \<or> \<not> may_stat env \<or> \<not> may_map env)
     | Inr (region, len) \<Rightarrow> region \<notin> dom (os_regions os) \<and>
         (\<exists>contents. os_files os path = Some contents \<and> len = length contents \<and>
            os_regions (snd (map_table_file env path os)) = (os_regions os)(region \<mapsto> contents)))"
proof -
  have "k \<notin> dom (os_fds os) \<union> dom (os_regions os)" if "os_next os \<le> k" for k
    using assms that unfolding os_ok_def by (meson not_le)
  from this[of "os_next os"] this[of "Suc (os_next os)"] have "(os_fds os)(os_next os := None) = os_fds os" "os_regions os (Suc (os_next os)) = None"
    by (auto simp: fun_upd_idem domIff)
  then show ?thesis
    by (auto simp: map_table_file_def os_open_def os_fstat_def os_mmap_def os_close_def Let_def split: option.split)
qed

text \<open>Where nothing fails, a table is loaded from the mapped bytes of its file.\<close>

theorem from_cache_mapped:
  assumes "os_files os path = Some contents" "may_open env path" "may_stat env" "may_map env"
  shows "from_cache (mapped_contents env os) path = from_cache (\<lambda>_. Inr contents) path"
  using assms
  by (simp add: from_cache_def mapped_contents_def map_table_file_def os_open_def os_fstat_def os_mmap_def os_close_def Let_def)

text \<open>Moving a mapping into a new owner unmaps it once; assigning over an owner loses the region it had.\<close>

theorem mapping_moved_unmapped:
  assumes "mapping_move m = (m', rest)"
  shows "mapping_destroy rest (mapping_destroy m' os) = mapping_destroy m os"
  using assms by (auto simp: mapping_move_def mapping_destroy_def mapping_cleared_def os_munmap_def)

theorem mapping_assign_leaks:
  assumes "mp_addr this = Some r" "os_regions os r = Some contents" "mp_addr other \<noteq> Some r"
    and "mapping_assign this other = (this', other')"
  shows "os_regions (mapping_destroy other' (mapping_destroy this' os)) r = Some contents"
  using assms by (auto simp: mapping_assign_def mapping_destroy_def mapping_cleared_def os_munmap_def split: option.split)

end
