(* ===== verification/DoubleArith.thy ===== *)
theory DoubleArith
  imports Doubles Complex_Main
begin

text \<open>
  Multiplication and division of \<open>double\<close> values (IEEE 754, rounding to nearest, ties to even): the exact
  result is a rational number that is rounded to 53 bits, to a subnormal number below 2^-1022 and to
  infinity above the largest double. The lemmas bound the results: operations on values between 2^-n and 2^n stay
  finite and do not underflow.
\<close>

section \<open>Values and rounding\<close>

text \<open>The value of the 63 bits without the sign.\<close>

definition mag_value :: "nat \<Rightarrow> rat" where
  "mag_value b =
     (let e = b div 2 ^ 52; m = b mod 2 ^ 52
      in if e = 0 then of_nat m * 2 powi - 1074 else of_nat (2 ^ 52 + m) * 2 powi (int e - 1075))"

definition floor_log2 :: "rat \<Rightarrow> int" where
  "floor_log2 r =
     (let (a, b) = quotient_of r; k = int (top_bit (nat a)) - int (top_bit (nat b))
      in if 2 powi k \<le> r then k else k - 1)"

definition round_even :: "rat \<Rightarrow> nat" where
  "round_even r =
     (let q = \<lfloor>r\<rfloor>; d = r - of_int q
      in nat (if 1 / 2 < d \<or> d = 1 / 2 \<and> odd q then q + 1 else q))"

definition round_mag :: "rat \<Rightarrow> nat" where
  "round_mag r =
     (if r = 0 then 0
      else let e = max (floor_log2 r) (- 1022)
           in min (2047 * 2 ^ 52) (nat (e + 1022) * 2 ^ 52 + round_even (r / 2 powi (e - 52))))"

section \<open>Operations\<close>

definition fp_neg :: "u64 \<Rightarrow> bool" where
  "fp_neg w \<longleftrightarrow> 2 ^ 63 \<le> unat w"

definition fp_mag :: "u64 \<Rightarrow> nat" where
  "fp_mag w = unat w mod 2 ^ 63"

definition fp_is_inf :: "u64 \<Rightarrow> bool" where
  "fp_is_inf w \<longleftrightarrow> fp_mag w = 2047 * 2 ^ 52"

definition fp_nan :: u64 where
  "fp_nan = 0x7ff8000000000000"

definition fp_signed :: "bool \<Rightarrow> nat \<Rightarrow> u64" where
  "fp_signed neg b = of_nat ((if neg then 2 ^ 63 else 0) + b)"

definition fp_mul :: "u64 \<Rightarrow> u64 \<Rightarrow> u64" where
  "fp_mul a b =
     (if fp_is_nan a \<or> fp_is_nan b \<or> fp_is_inf a \<and> fp_mag b = 0 \<or> fp_mag a = 0 \<and> fp_is_inf b then fp_nan
      else fp_signed (fp_neg a \<noteq> fp_neg b)
        (if fp_is_inf a \<or> fp_is_inf b then 2047 * 2 ^ 52 else round_mag (mag_value (fp_mag a) * mag_value (fp_mag b))))"

definition fp_div :: "u64 \<Rightarrow> u64 \<Rightarrow> u64" where
  "fp_div a b =
     (if fp_is_nan a \<or> fp_is_nan b \<or> fp_is_inf a \<and> fp_is_inf b \<or> fp_mag a = 0 \<and> fp_mag b = 0 then fp_nan
      else fp_signed (fp_neg a \<noteq> fp_neg b)
        (if fp_is_inf a \<or> fp_mag b = 0 then 2047 * 2 ^ 52
         else if fp_is_inf b then 0
         else round_mag (mag_value (fp_mag a) / mag_value (fp_mag b))))"

definition fp_is_finite :: "u64 \<Rightarrow> bool" where
  "fp_is_finite w \<longleftrightarrow> fp_exponent w \<noteq> 2 ^ 11 - 1"

lemma floor_log2_bounds:
  assumes "0 < r"
  shows "2 powi floor_log2 r \<le> r" "r < 2 powi (floor_log2 r + 1)"
proof -
  obtain a b where q: "quotient_of r = (a, b)" by (cases "quotient_of r")
  then have b: "0 < b" and r: "r = of_int a / of_int b" by (rule quotient_of_denom_pos, rule quotient_of_div)
  have a: "0 < a" using assms b unfolding r by (simp add: zero_less_divide_iff)
  let ?s = "top_bit (nat a)" and ?t = "top_bit (nat b)"
  let ?k = "int ?s - int ?t"
  have A: "(2 :: rat) ^ ?s \<le> of_int a" "of_int a < (2 :: rat) ^ (?s + 1)"
    using top_bit_bounds[of "nat a"] a
    by (metis (no_types, lifting) of_nat_le_iff of_nat_less_iff of_nat_nat of_nat_numeral of_nat_power order_less_imp_le zero_less_nat_eq)+
  have B: "(2 :: rat) ^ ?t \<le> of_int b" "of_int b < (2 :: rat) ^ (?t + 1)"
    using top_bit_bounds[of "nat b"] b
    by (metis (no_types, lifting) of_nat_le_iff of_nat_less_iff of_nat_nat of_nat_numeral of_nat_power order_less_imp_le zero_less_nat_eq)+
  have pow: "(2 :: rat) powi (int m - int n) = 2 ^ m / 2 ^ n" for m n
    by (simp add: power_int_diff)
  have "r \<le> of_int a / 2 ^ ?t" unfolding r using B(1) a b by (intro divide_left_mono) simp_all
  also have "\<dots> < 2 ^ (?s + 1) / 2 ^ ?t" using A(2) by (intro divide_strict_right_mono) simp_all
  also have "\<dots> = 2 powi (?k + 1)" using pow[of "?s + 1" ?t] by (simp add: algebra_simps)
  finally have upper: "r < 2 powi (?k + 1)" .
  have "2 powi (?k - 1) = 2 ^ ?s / (2 :: rat) ^ (?t + 1)" using pow[of ?s "?t + 1"] by (simp add: algebra_simps)
  also have "\<dots> \<le> of_int a / 2 ^ (?t + 1)" using A(1) by (intro divide_right_mono) simp_all
  also have "\<dots> \<le> r" unfolding r using B(2) a b by (intro divide_left_mono) simp_all
  finally have lower: "2 powi (?k - 1) \<le> r" .
  show "2 powi floor_log2 r \<le> r" "r < 2 powi (floor_log2 r + 1)"
    using lower upper by (auto simp: floor_log2_def q Let_def)
qed

lemma round_even_near: "0 \<le> r \<Longrightarrow> r - 1 / 2 \<le> of_nat (round_even r) \<and> of_nat (round_even r) \<le> r + 1 / 2"
proof -
  assume "0 \<le> r"
  then have q: "0 \<le> \<lfloor>r\<rfloor>" by simp
  have f: "of_int \<lfloor>r\<rfloor> \<le> r" "r < of_int \<lfloor>r\<rfloor> + 1" using floor_correct[of r] by simp_all
  define d where "d = r - of_int \<lfloor>r\<rfloor>"
  have r: "r = of_int \<lfloor>r\<rfloor> + d" by (simp add: d_def)
  have d: "0 \<le> d" "d < 1" using f by (simp_all add: d_def)
  have eq: "round_even r = nat (if 1 / 2 < d \<or> d = 1 / 2 \<and> odd \<lfloor>r\<rfloor> then \<lfloor>r\<rfloor> + 1 else \<lfloor>r\<rfloor>)"
    unfolding round_even_def Let_def d_def ..
  show ?thesis
  proof (cases "1 / 2 < d \<or> d = 1 / 2 \<and> odd \<lfloor>r\<rfloor>")
    case True
    then have "of_nat (round_even r) = of_int \<lfloor>r\<rfloor> + (1 :: rat)" using q unfolding eq if_P[OF True] by (simp add: of_nat_nat)
    moreover have "1 / 2 \<le> d" using True by auto
    ultimately show ?thesis using d r by linarith
  next
    case False
    then have "(of_nat (round_even r) :: rat) = of_int \<lfloor>r\<rfloor>" using q unfolding eq if_not_P[OF False] by (simp add: of_nat_nat)
    moreover have "d \<le> 1 / 2" using False by auto
    ultimately show ?thesis using d r by linarith
  qed
qed

lemma div_mod_split: "b = k * P + d \<Longrightarrow> d < P \<Longrightarrow> b div P = k \<and> b mod P = (d :: nat)"
  by simp

lemma mag_value_bits:
  assumes "2 ^ 52 \<le> m" "m \<le> 2 ^ 53"
  shows "mag_value (E * 2 ^ 52 + m) = of_nat m * 2 powi (int E - 1074)"
proof (cases "m = 2 ^ 53")
  case True
  then have "E * 2 ^ 52 + m = (E + 2) * 2 ^ 52 + 0" by simp
  from div_mod_split[OF this] have split: "(E * 2 ^ 52 + m) div 2 ^ 52 = E + 2" "(E * 2 ^ 52 + m) mod 2 ^ 52 = 0" by simp_all
  have "mag_value (E * 2 ^ 52 + m) = 2 ^ 52 * 2 powi (int (E + 2) - 1075)"
    unfolding mag_value_def Let_def split by simp
  also have "int (E + 2) - 1075 = (int E - 1074) + 1" by simp
  also have "(2 :: rat) ^ 52 * 2 powi ((int E - 1074) + 1) = 2 ^ 53 * 2 powi (int E - 1074)"
    by (subst power_int_add) simp_all
  finally show ?thesis using True by simp
next
  case False
  have "E * 2 ^ 52 + m = (E + 1) * 2 ^ 52 + (m - 2 ^ 52)" using assms by simp
  from div_mod_split[OF this] have split: "(E * 2 ^ 52 + m) div 2 ^ 52 = E + 1" "(E * 2 ^ 52 + m) mod 2 ^ 52 = m - 2 ^ 52"
    using assms False by simp_all
  have "2 ^ 52 + (m - 2 ^ 52) = m" using assms(1) by simp
  moreover have "int (E + 1) - 1075 = int E - 1074" by simp
  ultimately show ?thesis unfolding mag_value_def Let_def split by simp
qed

section \<open>Bounds\<close>

lemma powi2_le: "(2 :: rat) powi m \<le> 2 powi n \<Longrightarrow> m \<le> n"
  using power_int_strict_increasing[of n m "2 :: rat"] by (meson not_le one_less_numeral_iff semiring_norm(76))

lemma powi2_less: "(2 :: rat) powi m < 2 powi n \<Longrightarrow> m < n"
  using power_int_increasing[of n m "2 :: rat"] by (meson not_le one_le_numeral)

text \<open>Rounding to a double changes a number by less than half of it, unless it is very large or small.\<close>

lemma round_mag_bounds:
  assumes r: "2 powi - int n \<le> r" "r \<le> 2 powi int n" and n: "n \<le> 1000"
  shows "round_mag r < 2047 * 2 ^ 52" "r / 2 \<le> mag_value (round_mag r)" "mag_value (round_mag r) \<le> 2 * r"
proof -
  have pos: "0 < r" using r(1) by (rule order.strict_trans2[rotated]) simp
  define e where "e = floor_log2 r"
  have L: "2 powi e \<le> r" "r < 2 powi (e + 1)" using floor_log2_bounds[OF pos] by (simp_all add: e_def)
  have "(2 :: rat) powi - int n < 2 powi (e + 1)" using r(1) L(2) by (rule order.strict_trans1)
  then have "- int n < e + 1" by (rule powi2_less)
  then have e1: "- 1000 \<le> e" using n by simp
  have "(2 :: rat) powi e \<le> 2 powi int n" using L(1) r(2) by (rule order.trans)
  then have "e \<le> int n" by (rule powi2_le)
  then have e2: "e \<le> 1000" using n by simp
  define q where "q = r / 2 powi (e - 52)"
  define m where "m = round_even q"
  have scale: "(2 :: rat) powi e = 2 ^ 52 * 2 powi (e - 52)" "(2 :: rat) powi (e + 1) = 2 ^ 53 * 2 powi (e - 52)"
    using power_int_add[of "2 :: rat" 52 "e - 52"] power_int_add[of "2 :: rat" 53 "e - 52"] by (simp_all add: add.commute)
  have p: "(0 :: rat) < 2 powi (e - 52)" by simp
  have q: "2 ^ 52 \<le> q" "q < 2 ^ 53"
    using L p unfolding scale q_def by (simp_all add: pos_le_divide_eq pos_divide_less_eq)
  have near: "q - 1 / 2 \<le> of_nat m" "of_nat m \<le> q + 1 / 2"
    using round_even_near[of q] q(1) by (simp_all add: m_def)
  have m: "2 ^ 52 \<le> m" "m \<le> 2 ^ 53"
  proof -
    have "of_nat (2 ^ 52) < (of_nat (m + 1) :: rat)" using near(1) q(1) by simp
    then show "2 ^ 52 \<le> m" by (subst (asm) of_nat_less_iff) simp
    have "(of_nat m :: rat) < of_nat (2 ^ 53 + 1)" using near(2) q(2) by simp
    then show "m \<le> 2 ^ 53" by (subst (asm) of_nat_less_iff) simp
  qed
  have "nat (e + 1022) \<le> 2022" using e2 by simp
  then have "nat (e + 1022) * 2 ^ 52 \<le> 2022 * 2 ^ 52" by (rule mult_le_mono1)
  then have small: "nat (e + 1022) * 2 ^ 52 + m < 2047 * 2 ^ 52" using m(2) by simp
  have bits: "round_mag r = nat (e + 1022) * 2 ^ 52 + m"
    using pos e1 small by (simp add: round_mag_def e_def[symmetric] q_def[symmetric] m_def[symmetric] max_def min_def Let_def)
  have val: "mag_value (round_mag r) = of_nat m * 2 powi (e - 52)"
    unfolding bits mag_value_bits[OF m] using e1 by simp
  show "round_mag r < 2047 * 2 ^ 52" using small bits by simp
  have r_eq: "r = q * 2 powi (e - 52)" using p by (simp add: q_def)
  have "q / 2 \<le> of_nat m" "of_nat m \<le> 2 * q" using near q(1) by simp_all
  then have "q / 2 * 2 powi (e - 52) \<le> of_nat m * 2 powi (e - 52)" "of_nat m * 2 powi (e - 52) \<le> 2 * q * 2 powi (e - 52)"
    using p by (intro mult_right_mono; simp)+
  then show "r / 2 \<le> mag_value (round_mag r)" "mag_value (round_mag r) \<le> 2 * r"
    unfolding val by (subst r_eq, simp)+
qed

text \<open>Doubles that are 0 or between 2^-n and 2^n.\<close>

definition fp_between :: "nat \<Rightarrow> u64 \<Rightarrow> bool" where
  "fp_between n w \<longleftrightarrow> unat w < 2047 * 2 ^ 52 \<and>
     (unat w = 0 \<or> 2 powi - int n \<le> mag_value (unat w) \<and> mag_value (unat w) \<le> 2 powi int n)"

lemma fp_small:
  assumes "unat w < 2047 * 2 ^ 52"
  shows "fp_mag w = unat w" "\<not> fp_is_nan w" "\<not> fp_is_inf w" "\<not> fp_neg w" "fp_is_finite w"
proof -
  have "unat w div 2 ^ 52 < 2047" using assms by (simp add: less_mult_imp_div_less)
  then have "fp_exponent w < 2047" unfolding fp_exponent_def by (simp add: le_less_trans[OF mod_less_eq_dividend])
  then show "\<not> fp_is_nan w" "fp_is_finite w" by (simp_all add: fp_is_nan_def fp_is_finite_def)
  show mag: "fp_mag w = unat w" using assms by (simp add: fp_mag_def)
  show "\<not> fp_is_inf w" using assms by (simp add: fp_is_inf_def mag)
  show "\<not> fp_neg w" using assms by (simp add: fp_neg_def)
qed

lemma fp_between_finite: "fp_between n w \<Longrightarrow> fp_is_finite w"
  by (simp add: fp_between_def fp_small)

lemma fp_between_zero [simp]: "fp_between n 0"
  by (simp add: fp_between_def)

lemma fp_between_mono:
  assumes "fp_between n w" "n \<le> k"
  shows "fp_between k w"
proof -
  have "(2 :: rat) powi int n \<le> 2 powi int k" "(2 :: rat) powi - int k \<le> 2 powi - int n"
    using assms(2) by (intro power_int_increasing; simp)+
  then show ?thesis using assms(1) unfolding fp_between_def by (meson order.trans)
qed

lemma powi2_mult: "(2 :: rat) powi a * 2 powi b = 2 powi (a + b)" "(2 :: rat) powi a / 2 powi b = 2 powi (a - b)"
  by (simp_all add: power_int_add power_int_diff)

lemma powi2_pos: "(0 :: rat) < 2 powi a"
  by simp

lemma mag_value_zero: "mag_value 0 = 0"
  by (simp add: mag_value_def)

lemma round_mag_between:
  assumes "2 powi - int n \<le> r" "r \<le> 2 powi int n" "n \<le> 1000"
  shows "fp_between (Suc n) (fp_signed False (round_mag r))" "unat (fp_signed False (round_mag r)) \<noteq> 0"
proof -
  note B = round_mag_bounds[OF assms]
  have u: "unat (fp_signed False (round_mag r)) = round_mag r"
    using B(1) by (simp add: fp_signed_def unat_of_nat)
  have "- int (Suc n) = - int n - 1" by simp
  then have "(2 :: rat) powi - int (Suc n) = 2 powi - int n / 2"
    by (simp only: powi2_mult(2)[symmetric] power_int_1_right)
  moreover have "(2 :: rat) powi int (Suc n) = 2 * 2 powi int n" by (simp only: power_int_of_nat power_Suc)
  ultimately have "2 powi - int (Suc n) \<le> mag_value (round_mag r)" "mag_value (round_mag r) \<le> 2 powi int (Suc n)"
    using B(2,3) assms(1,2) by simp_all
  then show "fp_between (Suc n) (fp_signed False (round_mag r))" using B(1) unfolding fp_between_def u by blast
  have "0 < r" using assms(1) by (rule order.strict_trans2[OF powi2_pos])
  then have "0 < mag_value (round_mag r)" using B(2) by linarith
  then show "unat (fp_signed False (round_mag r)) \<noteq> 0" unfolding u using mag_value_zero by (metis order.irrefl)
qed

lemma round_mag_zero: "round_mag 0 = 0" "fp_signed False 0 = 0"
  by (simp_all add: round_mag_def fp_signed_def)

lemma fp_mul_between:
  assumes a: "fp_between n a" and b: "fp_between k b" and n: "n + k \<le> 1000"
  shows "fp_between (Suc (n + k)) (fp_mul a b) \<and> (unat a \<noteq> 0 \<and> unat b \<noteq> 0 \<longrightarrow> unat (fp_mul a b) \<noteq> 0)"
proof -
  have small: "unat a < 2047 * 2 ^ 52" "unat b < 2047 * 2 ^ 52" using a b by (simp_all add: fp_between_def)
  have eq: "fp_mul a b = fp_signed False (round_mag (mag_value (unat a) * mag_value (unat b)))"
    using fp_small[OF small(1)] fp_small[OF small(2)] by (simp add: fp_mul_def)
  show ?thesis
  proof (cases "unat a = 0 \<or> unat b = 0")
    case True
    then show ?thesis unfolding eq by (auto simp: mag_value_zero round_mag_zero)
  next
    case False
    then have A: "2 powi - int n \<le> mag_value (unat a)" "mag_value (unat a) \<le> 2 powi int n"
      and B: "2 powi - int k \<le> mag_value (unat b)" "mag_value (unat b) \<le> 2 powi int k"
      using a b by (simp_all add: fp_between_def)
    note pos = order.strict_trans2[OF powi2_pos A(1)] order.strict_trans2[OF powi2_pos B(1)]
    have e: "- int (n + k) = - int n + - int k" "int (n + k) = int n + int k" by simp_all
    have low: "2 powi - int (n + k) \<le> mag_value (unat a) * mag_value (unat b)"
      unfolding e(1) powi2_mult(1)[symmetric]
      by (rule mult_mono'[OF A(1) B(1)]) (rule order.strict_implies_order[OF powi2_pos])+
    have up: "mag_value (unat a) * mag_value (unat b) \<le> 2 powi int (n + k)"
      unfolding e(2) powi2_mult(1)[symmetric]
      by (rule mult_mono'[OF A(2) B(2)]) (rule order.strict_implies_order[OF pos(1)] order.strict_implies_order[OF pos(2)])+
    show ?thesis unfolding eq using round_mag_between[OF low up n] by blast
  qed
qed

lemma fp_div_between:
  assumes a: "fp_between n a" and b: "fp_between k b" "unat b \<noteq> 0" and n: "n + k \<le> 1000"
  shows "fp_between (Suc (n + k)) (fp_div a b) \<and> (unat a \<noteq> 0 \<longrightarrow> unat (fp_div a b) \<noteq> 0)"
proof -
  have small: "unat a < 2047 * 2 ^ 52" "unat b < 2047 * 2 ^ 52" using a b by (simp_all add: fp_between_def)
  have eq: "fp_div a b = fp_signed False (round_mag (mag_value (unat a) / mag_value (unat b)))"
    using fp_small[OF small(1)] fp_small[OF small(2)] b(2) by (simp add: fp_div_def)
  show ?thesis
  proof (cases "unat a = 0")
    case True
    then show ?thesis unfolding eq by (simp add: mag_value_zero round_mag_zero)
  next
    case False
    then have A: "2 powi - int n \<le> mag_value (unat a)" "mag_value (unat a) \<le> 2 powi int n"
      and B: "2 powi - int k \<le> mag_value (unat b)" "mag_value (unat b) \<le> 2 powi int k"
      using a b by (simp_all add: fp_between_def)
    note pos = order.strict_trans2[OF powi2_pos A(1)] order.strict_trans2[OF powi2_pos B(1)]
    have e: "- int (n + k) = - int n - int k" "int (n + k) = int n - - int k" by simp_all
    have low: "2 powi - int (n + k) \<le> mag_value (unat a) / mag_value (unat b)"
      unfolding e(1) powi2_mult(2)[symmetric]
      by (rule frac_le[OF order.strict_implies_order[OF pos(1)] A(1) pos(2) B(2)])
    have up: "mag_value (unat a) / mag_value (unat b) \<le> 2 powi int (n + k)"
      unfolding e(2) powi2_mult(2)[symmetric]
      by (rule frac_le[OF order.strict_implies_order[OF powi2_pos] A(2) powi2_pos B(1)])
    show ?thesis unfolding eq using round_mag_between[OF low up n] by blast
  qed
qed

text \<open>Whole numbers: the conversion of 64-bit integers.\<close>

lemma double_of_int_between:
  assumes "m < 2 ^ 64"
  shows "fp_between 65 (double_of_int (int m))" "0 < m \<Longrightarrow> unat (double_of_int (int m)) \<noteq> 0"
proof -
  have zero: "double_of_int 0 = 0" by (simp add: double_of_int_def double_of_nat_def)
  have pos: "fp_between 65 (double_of_int (int m)) \<and> unat (double_of_int (int m)) \<noteq> 0" if m: "0 < m"
  proof -
    define e where "e = top_bit m"
    define k where "k = (if e \<le> 52 then m * 2 ^ (52 - e) else round_shift m (e - 52))"
    have e64: "e < 64" using top_bit_less[OF m assms] by (simp add: e_def)
    note T = top_bit_bounds[OF m, folded e_def]
    have k: "2 ^ 52 \<le> k \<and> k \<le> 2 ^ 53"
    proof (cases "e \<le> 52")
      case True
      have split: "2 ^ e * 2 ^ (52 - e) = (2 ^ 52 :: nat)" using True by (metis le_add_diff_inverse power_add)
      have "2 ^ e * 2 ^ (52 - e) \<le> m * 2 ^ (52 - e)" using T by (intro mult_le_mono1) simp
      then have "2 ^ 52 \<le> m * 2 ^ (52 - e)" unfolding split .
      moreover have "m * 2 ^ (52 - e) \<le> 2 ^ (e + 1) * 2 ^ (52 - e)" using T by (intro mult_le_mono1) simp
      moreover have "2 ^ (e + 1) * 2 ^ (52 - e) = (2 ^ 53 :: nat)" using split by simp
      ultimately show ?thesis unfolding k_def if_P[OF True] by (simp only:)
    next
      case False
      have "52 + (e - 52) = e" using False by simp
      then have split: "2 ^ e = 2 ^ 52 * (2 ^ (e - 52) :: nat)" by (metis power_add)
      then have split': "2 ^ (e + 1) = 2 ^ 53 * (2 ^ (e - 52) :: nat)" by simp
      have "2 ^ 52 \<le> m div 2 ^ (e - 52)" using T unfolding split by (simp add: less_eq_div_iff_mult_less_eq)
      moreover have "m div 2 ^ (e - 52) < 2 ^ 53" using T unfolding split' by (simp add: less_mult_imp_div_less)
      ultimately show ?thesis using False by (auto simp: k_def round_shift_def Let_def)
    qed
    note k = conjunct1[OF this] conjunct2[OF this]
    have d: "double_of_nat m = (e + 1022) * 2 ^ 52 + k"
      using m by (simp add: double_of_nat_def e_def k_def Let_def)
    have "(e + 1022) * 2 ^ 52 \<le> 1085 * 2 ^ 52" using e64 by (intro mult_le_mono1) simp
    then have small: "double_of_nat m < 2047 * 2 ^ 52" using d k(2) by simp
    then have u: "unat (double_of_int (int m)) = double_of_nat m"
      by (simp add: double_of_int_def unat_of_nat)
    have val: "mag_value (double_of_nat m) = of_nat k * 2 powi (int e - 52)"
      unfolding d mag_value_bits[OF k(1,2)] by simp
    have kq: "(2 :: rat) ^ 52 \<le> of_nat k" "of_nat k \<le> (2 :: rat) ^ 53"
      using k(1,2) by (metis of_nat_le_iff of_nat_numeral of_nat_power)+
    have "(2 :: rat) powi - int 65 \<le> 2 ^ 52 * 2 powi (int e - 52)"
    proof -
      have "(2 :: rat) ^ 52 * 2 powi (int e - 52) = 2 powi int e" using powi2_mult(1)[of 52 "int e - 52"] by simp
      then show ?thesis by (simp only:) (intro power_int_increasing; simp)
    qed
    also have "\<dots> \<le> of_nat k * 2 powi (int e - 52)" using kq(1) by (intro mult_right_mono) simp_all
    finally have low: "2 powi - int 65 \<le> mag_value (double_of_nat m)" unfolding val .
    have "of_nat k * 2 powi (int e - 52) \<le> 2 ^ 53 * (2 :: rat) powi (int e - 52)" using kq(2) by (intro mult_right_mono) simp_all
    also have "\<dots> = 2 powi (int e + 1)" using powi2_mult(1)[of 53 "int e - 52"] by (simp add: add.commute)
    also have "\<dots> \<le> 2 powi int 65" using e64 by (intro power_int_increasing) simp_all
    finally have "mag_value (double_of_nat m) \<le> 2 powi int 65" unfolding val .
    then show ?thesis using small low k(1) unfolding fp_between_def u d by simp
  qed
  show "fp_between 65 (double_of_int (int m))" using pos zero by (cases "m = 0") simp_all
  show "unat (double_of_int (int m)) \<noteq> 0" if "0 < m" using pos[OF that] by blast
qed

end
