(* ===== verification/TelemetryReport.thy ===== *)
theory TelemetryReport
  imports Telemetry DoubleArith
begin

text \<open>
  The report at the end of a query (\<open>qt_end_query\<close>, \<open>src/join_telemetry.cpp\<close>): five lines with the
  counters, ratios, data volumes and bandwidths, computed with \<open>double\<close> arithmetic. A line is the list of
  what \<open>fprintf\<close> prints: literal text, counters, and doubles with their number of digits. The main result
  is that every double in the report is finite: the guards exclude every division by zero.
\<close>

section \<open>The report\<close>

datatype report_item = Lit string | Count u64 | Fixed nat u64

text \<open>\<open>static_cast<double>\<close> of an unsigned integer; the double constants are whole numbers.\<close>

definition dbl :: "nat \<Rightarrow> u64" where
  "dbl n = double_of_int (int n)"

text \<open>\<open>duration<double, milli>\<close> of a number of nanoseconds.\<close>

definition milliseconds :: "nat \<Rightarrow> u64" where
  "milliseconds ns = fp_div (dbl ns) (dbl 1000000)"

definition ratio :: "u64 \<Rightarrow> u64 \<Rightarrow> u64" where
  "ratio a b = (if b = 0 then 0 else fp_div (dbl (unat a)) (dbl (unat b)))"

definition safe_div :: "u64 \<Rightarrow> u64 \<Rightarrow> u64" where
  "safe_div bytes seconds =
     (if fp_le seconds 0 then 0 else fp_div (dbl (unat bytes)) (fp_mul seconds (dbl 1000000000)))"

definition bytes_to_gib :: "u64 \<Rightarrow> u64" where
  "bytes_to_gib bytes = fp_div (dbl (unat bytes)) (fp_mul (fp_mul (dbl 1024) (dbl 1024)) (dbl 1024))"

definition ms_at_gbps :: "u64 \<Rightarrow> u64 \<Rightarrow> u64" where
  "ms_at_gbps bytes gb_per_s =
     (let seconds = fp_div (dbl (unat bytes)) (fp_mul gb_per_s (dbl 1000000000))
      in fp_mul seconds (dbl 1000))"

definition bandwidth_line :: "u64 \<Rightarrow> string \<Rightarrow> u64 \<Rightarrow> report_item list" where
  "bandwidth_line query_id name bytes =
     (let bw10 = dbl 10; bw20 = dbl 20; bw40 = dbl 40
      in [Lit ''[telemetry q'', Count query_id, Lit ''] BW LB '', Lit name, Lit '': '',
          Fixed 2 (ms_at_gbps bytes bw10), Lit ''/'', Fixed 2 (ms_at_gbps bytes bw20), Lit ''/'',
          Fixed 2 (ms_at_gbps bytes bw40), Lit '' ms @ '',
          Fixed 0 bw10, Lit ''/'', Fixed 0 bw20, Lit ''/'', Fixed 0 bw40, Lit '' GB/s'', Lit [CHR 0x0A]])"

text \<open>\<open>elapsed\<close> is the time since the start of the query in nanoseconds.\<close>

definition qt_report :: "nat \<Rightarrow> telemetry \<Rightarrow> report_item list list" where
  "qt_report elapsed t =
     (let q = tl_qt t; query_id = tl_query_id t;
          elapsed_ms = milliseconds elapsed;
          elapsed_s = fp_div elapsed_ms (dbl 1000);
          selectivity = ratio (qt_out_rows q) (qt_probe_rows q);
          avg_out_cols = ratio (qt_out_cells q) (qt_out_rows q)
      in [[Lit ''[telemetry q'', Count query_id, Lit ''] joins='', Count (qt_joins q), Lit '' build='', Count (qt_build_rows q),
           Lit '' probe='', Count (qt_probe_rows q), Lit '' out='', Count (qt_out_rows q),
           Lit '' out_cells='', Count (qt_out_cells q), Lit '' sel='', Fixed 4 selectivity,
           Lit '' avg_out_cols='', Fixed 2 avg_out_cols, Lit [CHR 0x0A]],
          [Lit ''[telemetry q'', Count query_id, Lit ''] bytes_baseline_min='', Fixed 3 (bytes_to_gib (qt_bytes_baseline_min q)),
           Lit '' GiB  bytes_likely='', Fixed 3 (bytes_to_gib (qt_bytes_likely q)), Lit '' GiB'', Lit [CHR 0x0A]],
          [Lit ''[telemetry q'', Count query_id, Lit ''] elapsed='', Fixed 3 elapsed_ms,
           Lit '' ms  bw_baseline='', Fixed 2 (safe_div (qt_bytes_baseline_min q) elapsed_s),
           Lit '' GB/s  bw_likely='', Fixed 2 (safe_div (qt_bytes_likely q) elapsed_s), Lit '' GB/s'', Lit [CHR 0x0A]],
          bandwidth_line query_id ''baseline'' (qt_bytes_baseline_min q),
          bandwidth_line query_id ''likely'' (qt_bytes_likely q)])"

section \<open>The values of the report\<close>

lemma dbl_between: "m < 2 ^ 64 \<Longrightarrow> fp_between 65 (dbl m)" "m < 2 ^ 64 \<Longrightarrow> 0 < m \<Longrightarrow> unat (dbl m) \<noteq> 0"
  unfolding dbl_def by (rule double_of_int_between; assumption)+

lemma u64_less: "unat (w :: u64) < 2 ^ 64"
  using unsigned_less[of w] by simp

lemmas dbl_u64 = dbl_between(1)[OF u64_less] dbl_between(2)[OF u64_less]

lemma not_le_zero:
  assumes "fp_between n w" "\<not> fp_le w 0"
  shows "unat w \<noteq> 0"
proof
  assume "unat w = 0"
  then have "w = 0" by (simp add: unat_eq_0)
  then show False using assms(2) by (simp add: fp_le_def fp_is_nan_def fp_exponent_def)
qed

lemmas fp_mul_b = conjunct1[OF fp_mul_between] conjunct2[OF fp_mul_between, rule_format, OF _ _ _ conjI]
lemmas fp_div_b = conjunct1[OF fp_div_between] conjunct2[OF fp_div_between, rule_format]

lemma milliseconds_between: "ns < 2 ^ 64 \<Longrightarrow> fp_between 131 (milliseconds ns)"
  unfolding milliseconds_def using fp_div_b(1)[of 65 "dbl ns" 65 "dbl 1000000"] dbl_between by simp

lemma seconds_between: "ns < 2 ^ 64 \<Longrightarrow> fp_between 197 (fp_div (milliseconds ns) (dbl 1000))"
  using fp_div_b(1)[of 131 "milliseconds ns" 65 "dbl 1000"] dbl_between milliseconds_between by simp

lemma ratio_between: "fp_between 131 (ratio a b)"
proof (cases "b = 0")
  case False
  then have "0 < unat b" by (simp add: unat_gt_0)
  then show ?thesis
    using False fp_div_b(1)[of 65 "dbl (unat a)" 65 "dbl (unat b)"] dbl_u64 by (simp add: ratio_def)
qed (simp add: ratio_def)

lemma gib_between: "fp_between 329 (bytes_to_gib bytes)"
proof -
  have "fp_between 131 (fp_mul (dbl 1024) (dbl 1024))" "unat (fp_mul (dbl 1024) (dbl 1024)) \<noteq> 0"
    using fp_mul_b[of 65 "dbl 1024" 65 "dbl 1024"] dbl_between by simp_all
  then have "fp_between 197 (fp_mul (fp_mul (dbl 1024) (dbl 1024)) (dbl 1024))"
    "unat (fp_mul (fp_mul (dbl 1024) (dbl 1024)) (dbl 1024)) \<noteq> 0"
    using fp_mul_b[of 131 "fp_mul (dbl 1024) (dbl 1024)" 65 "dbl 1024"] dbl_between by simp_all
  then have "fp_between 263 (bytes_to_gib bytes)"
    unfolding bytes_to_gib_def using fp_div_b(1)[OF dbl_u64(1)] by fastforce
  then show ?thesis by (rule fp_between_mono) simp
qed

lemma safe_div_between:
  assumes "fp_between 197 seconds"
  shows "fp_between 329 (safe_div bytes seconds)"
proof (cases "fp_le seconds 0")
  case False
  have "unat seconds \<noteq> 0" using not_le_zero[OF assms False] .
  then have "fp_between 263 (fp_mul seconds (dbl 1000000000))" "unat (fp_mul seconds (dbl 1000000000)) \<noteq> 0"
    using fp_mul_b[OF assms, of 65 "dbl 1000000000"] dbl_between by simp_all
  then show ?thesis
    using False fp_div_b(1)[OF dbl_u64(1), of 263 "fp_mul seconds (dbl 1000000000)"] by (simp add: safe_div_def)
qed (simp add: safe_div_def)

lemma ms_between:
  assumes "0 < g" "g < 2 ^ 64"
  shows "fp_between 329 (ms_at_gbps bytes (dbl g))"
proof -
  have "fp_between 131 (fp_mul (dbl g) (dbl 1000000000))" "unat (fp_mul (dbl g) (dbl 1000000000)) \<noteq> 0"
    using fp_mul_b[of 65 "dbl g" 65 "dbl 1000000000"] dbl_between assms by simp_all
  then have "fp_between 197 (fp_div (dbl (unat bytes)) (fp_mul (dbl g) (dbl 1000000000)))"
    using fp_div_b(1)[OF dbl_u64(1), of 131] by simp
  then have "fp_between 263 (ms_at_gbps bytes (dbl g))"
    unfolding ms_at_gbps_def Let_def using fp_mul_b(1)[of 197 _ 65 "dbl 1000"] dbl_between by simp
  then show ?thesis by (rule fp_between_mono) simp
qed

section \<open>Properties\<close>

text \<open>C17. Every double in the report is finite, whatever the counters and the time are, also 0: no guard is
  missing, and no product overflows or underflows to a divisor 0.\<close>

theorem report_finite:
  assumes "elapsed < 2 ^ 63" "line \<in> set (qt_report elapsed t)" "Fixed digits d \<in> set line"
  shows "fp_is_finite d"
proof -
  have time: "fp_between 329 (milliseconds elapsed)" "fp_between 329 (ratio a b)" "fp_between 329 (bytes_to_gib n)"
    "fp_between 329 (safe_div n (fp_div (milliseconds elapsed) (dbl 1000)))" for a b n
    using assms(1) milliseconds_between[of elapsed] safe_div_between[OF seconds_between[of elapsed]] ratio_between[of a b] gib_between
    by (auto elim: fp_between_mono)
  have widths: "fp_between 329 (ms_at_gbps n (dbl g)) \<and> fp_between 329 (dbl g)" if "0 < g" "g < 64" for n g
    using that ms_between[of g n] fp_between_mono[OF dbl_between(1)[of g]] by simp
  have "fp_between 329 d"
    using assms(2,3) time widths unfolding qt_report_def bandwidth_line_def Let_def by auto
  then show ?thesis by (rule fp_between_finite)
qed

theorem report_finite_witness:
  "fp_is_finite (milliseconds 0) \<and> fp_is_finite (safe_div 8 (fp_div (milliseconds 0) (dbl 1000)))"
proof -
  let ?t = "qt_add_join 0 2 0 3 (qt_begin_query \<lparr>tl_query_seq = 0, tl_qt = qt_empty, tl_query_id = 0\<rparr>)"
  have "qt_bytes_baseline_min (tl_qt ?t) = 8" by (simp add: qt_add_join_def qt_begin_query_def qt_empty_def)
  then have line: "[Lit ''[telemetry q'', Count (tl_query_id ?t), Lit ''] elapsed='', Fixed 3 (milliseconds 0),
      Lit '' ms  bw_baseline='', Fixed 2 (safe_div 8 (fp_div (milliseconds 0) (dbl 1000))),
      Lit '' GB/s  bw_likely='', Fixed 2 (safe_div (qt_bytes_likely (tl_qt ?t)) (fp_div (milliseconds 0) (dbl 1000))),
      Lit '' GB/s'', Lit [CHR 0x0A]] \<in> set (qt_report 0 ?t)"
    by (simp add: qt_report_def Let_def)
  show ?thesis
    using report_finite[OF _ line, of 3 "milliseconds 0"] report_finite[OF _ line, of 2 "safe_div 8 (fp_div (milliseconds 0) (dbl 1000))"]
    by simp
qed

end
