(* ===== verification/TextOutput.thy ===== *)
theory TextOutput
  imports CsvImport
begin

text \<open>
  Text the program prints: rows (\<open>Table::print\<close>, \<open>include/table.h\<close>; the formatter of \<open>Data\<close>,
  \<open>include/statement.h\<close>) and filters (\<open>pretty_print\<close>, \<open>include/statement.h\<close>). The text of a filter
  is more than a message: \<open>tests/read_sql.cpp\<close> names the cache file of a filtered table after it.
  \<open>fmt_double\<close> is what the fmt library prints for a double; it prints integers in decimal.
\<close>

fun join_with :: "'a \<Rightarrow> 'a list list \<Rightarrow> 'a list" where
  "join_with d [] = []"
| "join_with d [x] = x"
| "join_with d (x # y # xs) = x @ d # join_with d (y # xs)"

definition ascii :: "string \<Rightarrow> bytes" where
  "ascii s = map (\<lambda>c. of_nat (of_char c)) s"

section \<open>Rows\<close>

text \<open>\<open>fmt::formatter<Data>\<close>: strings as they are.\<close>

definition format_data :: "(u64 \<Rightarrow> bytes) \<Rightarrow> data \<Rightarrow> bytes" where
  "format_data fmt_double d =
     (case d of D_null \<Rightarrow> ascii ''NULL'' | D_int32 v \<Rightarrow> dec_text (sint v) | D_int64 v \<Rightarrow> dec_text (sint v)
      | D_fp64 x \<Rightarrow> fmt_double x | D_string s \<Rightarrow> s)"

definition escape_char :: "u8 \<Rightarrow> bytes" where
  "escape_char c =
     (if c = 34 then [92, 34] else if c = 92 then [92, 92] else if c = 10 then [92, 110]
      else if c = 13 then [92, 114] else if c = 9 then [92, 116] else [c])"

definition escape_string :: "bytes \<Rightarrow> bytes" where
  "escape_string s = concat (map escape_char s)"

definition print_field :: "(u64 \<Rightarrow> bytes) \<Rightarrow> data \<Rightarrow> bytes" where
  "print_field fmt_double d =
     (case d of D_null \<Rightarrow> ascii ''NULL'' | D_int32 v \<Rightarrow> dec_text (sint v) | D_int64 v \<Rightarrow> dec_text (sint v)
      | D_fp64 x \<Rightarrow> fmt_double x | D_string s \<Rightarrow> 34 # escape_string s @ [34])"

definition print_line :: "(u64 \<Rightarrow> bytes) \<Rightarrow> data list \<Rightarrow> bytes" where
  "print_line fmt_double row = join_with 124 (map (print_field fmt_double) row)"

definition print_rows :: "(u64 \<Rightarrow> bytes) \<Rightarrow> data list list \<Rightarrow> bytes" where
  "print_rows fmt_double rows = concat (map (\<lambda>row. print_line fmt_double row @ [10]) rows)"

lemma format_data_print: "format_data fmt_double d = print_field fmt_double d \<or> (\<exists>s. d = D_string s)"
  by (cases d) (simp_all add: format_data_def print_field_def)

section \<open>Filters\<close>

definition op_to_string :: "comparison_op \<Rightarrow> bytes" where
  "op_to_string op =
     (case op of
        EQ \<Rightarrow> ascii ''='' | NEQ \<Rightarrow> ascii ''!='' | LT \<Rightarrow> ascii ''<'' | GT \<Rightarrow> ascii ''>''
      | LEQ \<Rightarrow> ascii ''<='' | GEQ \<Rightarrow> ascii ''>='' | LIKE \<Rightarrow> ascii ''LIKE'' | NOT_LIKE \<Rightarrow> ascii ''NOT LIKE''
      | IS_NULL \<Rightarrow> ascii ''IS NULL'' | IS_NOT_NULL \<Rightarrow> ascii ''IS NOT NULL'')"

definition value_to_string :: "(u64 \<Rightarrow> bytes) \<Rightarrow> comparison_op \<Rightarrow> literal \<Rightarrow> bytes" where
  "value_to_string fmt_double op v =
     (if op = IS_NULL \<or> op = IS_NOT_NULL then []
      else case v of
        L_string s \<Rightarrow> 39 # s @ [39] | L_null \<Rightarrow> [] | L_int64 i \<Rightarrow> dec_text (sint i) | L_fp64 x \<Rightarrow> fmt_double x)"

fun type_to_string :: "logical_type \<Rightarrow> bytes" where
  "type_to_string L_AND = ascii ''AND''"
| "type_to_string L_OR = ascii ''OR''"
| "type_to_string L_NOT = ascii ''NOT''"

fun pretty_print :: "(u64 \<Rightarrow> bytes) \<Rightarrow> nat \<Rightarrow> statement \<Rightarrow> bytes" where
  "pretty_print fmt_double indent (Comparison column op v) =
     replicate indent 32 @ dec_digits column @ 32 # op_to_string op @ 32 # value_to_string fmt_double op v"
| "pretty_print fmt_double indent (LogicalOperation ty children) =
     (let header = replicate indent 32 @ 91 # type_to_string ty @ [93, 10];
          result = fold (\<lambda>child result. result @ pretty_print fmt_double (indent + 2) child @ [10]) children header
      in if children \<noteq> [] then butlast result else result)"

section \<open>Text that determines what was printed\<close>

lemma split_unique:
  assumes "xs @ c # r = ys @ d # t" "\<forall>x \<in> set xs. P x" "\<forall>y \<in> set ys. P y" "\<not> P c" "\<not> P d"
  shows "xs = ys \<and> c = d \<and> r = t"
  using assms
proof (induction xs arbitrary: ys)
  case Nil
  then show ?case by (cases ys) auto
next
  case (Cons x xs)
  then show ?case by (cases ys) auto
qed

lemma dec_digits_inj: "dec_digits m = dec_digits n \<longleftrightarrow> m = n"
  using dec_digits_value by (metis of_nat_eq_iff)

lemma dec_text_inj: "dec_text i = dec_text j \<longleftrightarrow> i = j"
proof
  have sign: "dec_digits n \<noteq> 45 # xs" for n xs
    using dec_digits_digits[of n] by (auto simp: c_isdigit_def word_le_nat_alt)
  assume eq: "dec_text i = dec_text j"
  show "i = j"
  proof (cases "i < 0"; cases "j < 0")
    assume "i < 0" "j < 0"
    then have "nat (- i) = nat (- j)" using eq by (simp add: dec_text_def dec_digits_inj)
    then show "i = j" using \<open>i < 0\<close> \<open>j < 0\<close> by linarith
  next
    assume "i < 0" "\<not> j < 0"
    then show "i = j" using eq sign[of "nat j"] by (simp add: dec_text_def) metis
  next
    assume "\<not> i < 0" "j < 0"
    then show "i = j" using eq sign[of "nat i"] by (simp add: dec_text_def)
  next
    assume "\<not> i < 0" "\<not> j < 0"
    then have "nat i = nat j" using eq by (simp add: dec_text_def dec_digits_inj)
    then show "i = j" using \<open>\<not> i < 0\<close> \<open>\<not> j < 0\<close> by linarith
  qed
qed simp

definition dec_char :: "u8 \<Rightarrow> bool" where
  "dec_char c \<longleftrightarrow> c_isdigit c \<or> c = 45"

lemma dec_text_chars: "c \<in> set (dec_text i) \<Longrightarrow> dec_char c"
  using dec_digits_digits by (auto simp: dec_text_def dec_char_def split: if_splits)

lemma dec_text_ne: "dec_text i \<noteq> []"
  by (simp add: dec_text_def dec_digits_ne)

section \<open>Printed rows\<close>

lemma ascii_simps [simp]: "ascii [] = []" "ascii (c # cs) = of_nat (of_char c) # ascii cs"
  by (simp_all add: ascii_def)

text \<open>A field shows its value, an integer without its width.\<close>

definition shown :: "data \<Rightarrow> data" where
  "shown d = (case d of D_int32 v \<Rightarrow> D_int64 (word_of_int (sint v)) | _ \<Rightarrow> d)"

lemma escape_parse:
  "escape_string s @ 34 # r = escape_string t @ 34 # u \<Longrightarrow> s = t \<and> r = u"
proof (induction s arbitrary: t)
  case Nil
  then show ?case by (cases t) (auto simp: escape_string_def escape_char_def split: if_splits)
next
  case (Cons c s)
  show ?case
  proof (cases t)
    case Nil
    then show ?thesis using Cons.prems by (auto simp: escape_string_def escape_char_def split: if_splits)
  next
    case (Cons d t')
    then have "c = d \<and> escape_string s @ 34 # r = escape_string t' @ 34 # u"
      using Cons.prems by (auto simp: escape_string_def escape_char_def split: if_splits)
    then show ?thesis using Cons.IH[of t'] Cons by blast
  qed
qed

definition separator :: "u8 \<Rightarrow> bool" where
  "separator c \<longleftrightarrow> c = 124 \<or> c = 10"

lemma dec_char_special: "dec_char c \<Longrightarrow> \<not> separator c \<and> c \<noteq> 34 \<and> c \<noteq> 39 \<and> c \<noteq> 78 \<and> c \<noteq> 32 \<and> c \<noteq> 10 \<and> c \<noteq> 91"
  by (auto simp: dec_char_def c_isdigit_def separator_def word_le_nat_alt)

lemma dec_text_Cons: obtains c cs where "dec_text i = c # cs" "dec_char c"
  using dec_text_ne[of i] dec_text_chars[of _ i] by (cases "dec_text i") auto

text \<open>A printed field that a separator follows can be told from every other one.\<close>

lemma int_field_unique:
  assumes "dec_text i @ c # r = dec_text j @ d # t" "separator c" "separator d"
  shows "i = j \<and> c = d \<and> r = t"
proof -
  have "dec_text i = dec_text j \<and> c = d \<and> r = t"
    using assms dec_text_chars dec_char_special by (intro split_unique[where P = dec_char]) auto
  then show ?thesis by (simp add: dec_text_inj)
qed

lemma print_field_cases:
  assumes "\<forall>x. d \<noteq> D_fp64 x"
  obtains (null) "d = D_null" | (str) s where "d = D_string s"
    | (num) i where "print_field fd d = dec_text i" "shown d = D_int64 (word_of_int i)"
proof (cases d)
  case (D_int64 v)
  have "shown d = D_int64 (word_of_int (sint v))" using D_int64 by (simp add: shown_def)
  then show ?thesis using num[of "sint v"] D_int64 by (simp add: print_field_def)
qed (use assms null str num in \<open>simp_all add: print_field_def shown_def\<close>)

lemma print_field_unique:
  assumes eq: "print_field fd d @ c # r = print_field fd e @ c' # r'" and sep: "separator c" "separator c'"
    and d: "\<forall>x. d \<noteq> D_fp64 x" and e: "\<forall>x. e \<noteq> D_fp64 x"
  shows "shown d = shown e \<and> c = c' \<and> r = r'"
proof -
  have ints: "dec_text i @ xs \<noteq> 34 # ys" "dec_text i @ xs \<noteq> 78 # ys"
    "34 # ys \<noteq> dec_text i @ xs" "78 # ys \<noteq> dec_text i @ xs" for i xs ys
    using dec_char_special by (rule_tac dec_text_Cons[of i], auto)+
  have texts: "print_field fd D_null = [78, 85, 76, 76]" "print_field fd (D_string s) = 34 # escape_string s @ [34]" for s
    by (simp_all add: print_field_def)
  from d show ?thesis
  proof (cases d rule: print_field_cases[where fd = fd])
    case null
    from e show ?thesis
      by (cases e rule: print_field_cases[where fd = fd]) (use eq null ints in \<open>simp_all add: texts\<close>)
  next
    case (str s)
    from e show ?thesis
    proof (cases e rule: print_field_cases[where fd = fd])
      case (str t)
      then show ?thesis using eq \<open>d = D_string s\<close> escape_parse[of s "c # r" t "c' # r'"] by (simp add: texts)
    qed (use eq str ints in \<open>simp_all add: texts\<close>)
  next
    case (num i)
    from e show ?thesis
    proof (cases e rule: print_field_cases[where fd = fd])
      case (num j)
      then show ?thesis using eq \<open>print_field fd d = dec_text i\<close> \<open>shown d = D_int64 (word_of_int i)\<close> int_field_unique[OF _ sep, of i r j r'] by simp
    qed (use eq num ints in \<open>simp_all add: texts\<close>)
  qed
qed

lemma print_field_head:
  assumes "\<forall>x. d \<noteq> D_fp64 x"
  shows "\<exists>x xs. print_field fd d = x # xs \<and> \<not> separator x"
  using assms
proof (cases d rule: print_field_cases[where fd = fd])
  case (num i)
  then show ?thesis using dec_text_Cons[of i] dec_char_special by metis
qed (auto simp: print_field_def separator_def)

lemma print_line_Cons:
  "print_line fd (d # ds) @ 10 # r =
   print_field fd d @ (if ds = [] then 10 else 124) # (if ds = [] then r else print_line fd ds @ 10 # r)"
  by (cases ds) (simp_all add: print_line_def)

definition no_doubles :: "data list \<Rightarrow> bool" where
  "no_doubles row \<longleftrightarrow> (\<forall>d \<in> set row. \<forall>x. d \<noteq> D_fp64 x)"

lemma print_line_unique:
  assumes "print_line fd row @ 10 # r = print_line fd row' @ 10 # r'" "no_doubles row" "no_doubles row'"
  shows "map shown row = map shown row' \<and> r = r'"
  using assms
proof (induction row arbitrary: row')
  case Nil
  show ?case
  proof (cases row')
    case (Cons e es)
    then show ?thesis
      using Nil print_field_head[of e fd] by (auto simp: print_line_Cons no_doubles_def separator_def simp del: append.simps(2))
        (auto simp: print_line_def)
  qed (use Nil in \<open>simp add: print_line_def\<close>)
next
  case (Cons d ds)
  show ?case
  proof (cases row')
    case Nil
    then show ?thesis
      using Cons.prems print_field_head[of d fd] unfolding print_line_Cons by (auto simp: print_line_def no_doubles_def separator_def)
  next
    case (Cons e es)
    have "print_field fd d @ (if ds = [] then 10 else 124) # (if ds = [] then r else print_line fd ds @ 10 # r) =
        print_field fd e @ (if es = [] then 10 else 124) # (if es = [] then r' else print_line fd es @ 10 # r')"
      using Cons.prems(1) unfolding Cons print_line_Cons .
    then have step: "shown d = shown e \<and> (if ds = [] then 10 else 124 :: u8) = (if es = [] then 10 else 124) \<and>
        (if ds = [] then r else print_line fd ds @ 10 # r) = (if es = [] then r' else print_line fd es @ 10 # r')"
      by (rule print_field_unique) (use Cons.prems(2,3) Cons in \<open>auto simp: separator_def no_doubles_def\<close>)
    then show ?thesis
      using Cons.IH[of es] Cons.prems(2,3) Cons by (auto simp: no_doubles_def split: if_splits)
  qed
qed

lemma print_rows_unique:
  assumes "print_rows fd rows = print_rows fd rows'" "\<forall>row \<in> set rows. no_doubles row" "\<forall>row \<in> set rows'. no_doubles row"
  shows "map (map shown) rows = map (map shown) rows'"
  using assms
proof (induction rows arbitrary: rows')
  case Nil
  then show ?case by (cases rows') (auto simp: print_rows_def)
next
  case (Cons row rows)
  show ?case
  proof (cases rows')
    case (Cons row' rs)
    then have "print_line fd row @ 10 # print_rows fd rows = print_line fd row' @ 10 # print_rows fd rs"
      using Cons.prems(1) by (simp add: print_rows_def)
    from print_line_unique[OF this] show ?thesis using Cons.IH[of rs] Cons.prems(2,3) Cons by simp
  qed (use Cons.prems(1) in \<open>simp add: print_rows_def\<close>)
qed

lemma shown_typed:
  assumes "shown d = shown e" "cell_ok ty d" "cell_ok ty e"
  shows "d = e"
proof -
  have "v = w" if "word_of_int (sint v) = (word_of_int (sint w) :: u64)" for v w :: u32
  proof -
    have "sint (word_of_int (sint x) :: u64) = sint x" for x :: u32
      by (simp add: sint_up_scast is_up)
    then have "sint v = sint w" using that by metis
    then show ?thesis by (rule signed_word_eqI)
  qed
  then show ?thesis
    using assms by (cases d; cases e) (auto simp: shown_def cell_ok_def)
qed

lemma typed_rows_determined:
  assumes "map (map shown) rows = map (map shown) rows'"
    and "\<forall>row \<in> set rows. list_all2 cell_ok types row" "\<forall>row \<in> set rows'. list_all2 cell_ok types row"
  shows "rows = rows'"
proof -
  have len: "length rows = length rows'" using arg_cong[OF assms(1), of length] by simp
  have "rows ! i ! k = rows' ! i ! k \<and> length (rows ! i) = length types \<and> length (rows' ! i) = length types"
    if "i < length rows" "k < length types" for i k
  proof -
    have ok: "list_all2 cell_ok types (rows ! i)" "list_all2 cell_ok types (rows' ! i)"
      using assms(2,3) that(1) len by simp_all
    have "map shown (rows ! i) = map shown (rows' ! i)" using arg_cong[OF assms(1), of "\<lambda>x. x ! i"] that(1) len by simp
    then have "map shown (rows ! i) ! k = map shown (rows' ! i) ! k" by simp
    then show ?thesis using ok that(2) shown_typed[of "rows ! i ! k" "rows' ! i ! k" "types ! k"] by (simp add: list_all2_conv_all_nth)
  qed
  moreover have "length (rows ! i) = length types" "length (rows' ! i) = length types" if "i < length rows" for i
    using assms(2,3) that len by (metis list_all2_lengthD nth_mem)+
  ultimately show ?thesis using len by (intro nth_equalityI) simp_all
qed

section \<open>Filters as lines\<close>

fun statement_lines :: "(u64 \<Rightarrow> bytes) \<Rightarrow> nat \<Rightarrow> statement \<Rightarrow> bytes list" where
  "statement_lines fd indent (Comparison column op v) =
     [replicate indent 32 @ dec_digits column @ 32 # op_to_string op @ 32 # value_to_string fd op v]"
| "statement_lines fd indent (LogicalOperation ty children) =
     (replicate indent 32 @ 91 # type_to_string ty @ [93]) #
     (if children = [] then [[]] else concat (map (statement_lines fd (indent + 2)) children))"

lemma join_with_append: "xs \<noteq> [] \<Longrightarrow> ys \<noteq> [] \<Longrightarrow> join_with d (xs @ ys) = join_with d xs @ d # join_with d ys"
proof (induction d xs rule: join_with.induct)
  case (2 d x)
  then show ?case by (cases ys) simp_all
qed simp_all

lemma statement_lines_ne [simp]: "statement_lines fd indent s \<noteq> []"
  by (cases s) simp_all

lemma fold_texts: "fold (\<lambda>child result. result @ f child @ [10]) cs r = r @ concat (map (\<lambda>c. f c @ [10]) cs)"
  by (induction cs arbitrary: r) simp_all

lemma join_with_concat:
  "cs \<noteq> [] \<Longrightarrow> \<forall>c \<in> set cs. g c \<noteq> [] \<Longrightarrow>
   concat (map (\<lambda>c. join_with d (g c) @ [d]) cs) = join_with d (concat (map g cs)) @ [d]"
proof (induction cs)
  case (Cons c cs)
  show ?case
  proof (cases "cs = []")
    case False
    then have "concat (map g cs) \<noteq> []" using Cons.prems(2) by (cases cs) auto
    then show ?thesis using Cons False by (simp add: join_with_append)
  qed simp
qed simp

lemma pretty_print_lines: "pretty_print fd indent s = join_with 10 (statement_lines fd indent s)"
proof (induction fd indent s rule: pretty_print.induct)
  case (2 fd indent ty children)
  let ?header = "replicate indent 32 @ 91 # type_to_string ty @ [93]"
  have texts: "map (\<lambda>c. pretty_print fd (indent + 2) c @ [10]) children =
      map (\<lambda>c. join_with 10 (statement_lines fd (indent + 2) c) @ [10]) children"
    using 2 by (intro map_cong) simp_all
  show ?case
  proof (cases "children = []")
    case False
    then have ne: "concat (map (statement_lines fd (indent + 2)) children) \<noteq> []" by (cases children) auto
    have "pretty_print fd indent (LogicalOperation ty children) =
        butlast ((?header @ [10]) @ concat (map (\<lambda>c. join_with 10 (statement_lines fd (indent + 2) c) @ [10]) children))"
      unfolding pretty_print.simps Let_def fold_texts texts using False by simp
    also have "\<dots> = ?header @ 10 # join_with 10 (concat (map (statement_lines fd (indent + 2)) children))"
      using False by (subst join_with_concat) (simp_all add: butlast_append)
    also have "\<dots> = join_with 10 (statement_lines fd indent (LogicalOperation ty children))"
      using False join_with_append[of "[?header]" "concat (map (statement_lines fd (indent + 2)) children)" 10] ne by simp
    finally show ?thesis .
  qed simp
qed simp

text \<open>Lines without a line break are determined by their text.\<close>

lemma join_with_unique:
  assumes "join_with 10 xs = join_with 10 ys" "xs \<noteq> []" "ys \<noteq> []"
    "\<forall>x \<in> set xs. 10 \<notin> set x" "\<forall>y \<in> set ys. (10 :: u8) \<notin> set y"
  shows "xs = ys"
  using assms
proof (induction "10 :: u8" xs arbitrary: ys rule: join_with.induct)
  case (2 x)
  then show ?case by (cases ys rule: remdups_adj.cases) (auto simp: in_set_conv_decomp)
next
  case (3 x y xs)
  show ?case
  proof (cases ys rule: remdups_adj.cases)
    case (3 z z' zs)
    then have "x @ 10 # join_with 10 (y # xs) = z @ 10 # join_with 10 (z' # zs)" using "3.prems"(1) by simp
    then have "x = z \<and> (10 :: u8) = 10 \<and> join_with 10 (y # xs) = join_with 10 (z' # zs)"
      by (rule split_unique[where P = "\<lambda>c. c \<noteq> 10"]) (use "3.prems" 3 in auto)
    then show ?thesis using "3.hyps"[of "z' # zs"] "3.prems" 3 by simp
  qed (use "3.prems" in \<open>auto simp: in_set_conv_decomp\<close>)
qed simp

section \<open>The text of a filter determines the filter\<close>

text \<open>String literals without a line break, and no doubles, whose text the fmt library chooses.\<close>

fun printable :: "statement \<Rightarrow> bool" where
  "printable (Comparison column op v) \<longleftrightarrow>
     op = IS_NULL \<or> op = IS_NOT_NULL \<or> (case v of L_string s \<Rightarrow> 10 \<notin> set s | L_fp64 x \<Rightarrow> False | _ \<Rightarrow> True)"
| "printable (LogicalOperation ty children) \<longleftrightarrow> (\<forall>c \<in> set children. printable c)"

text \<open>The literal of a test for NULL is neither printed nor used.\<close>

fun relevant :: "statement \<Rightarrow> statement" where
  "relevant (Comparison column op v) = Comparison column op (if op = IS_NULL \<or> op = IS_NOT_NULL then L_null else v)"
| "relevant (LogicalOperation ty children) = LogicalOperation ty (map relevant children)"

lemma op_text_unique:
  "op_to_string op @ 32 # r = op_to_string op' @ 32 # r' \<Longrightarrow> op = op' \<and> r = r'"
  by (cases op; cases op'; simp add: op_to_string_def)

lemma value_text_unique:
  assumes "value_to_string fd op v = value_to_string fd op w" "printable (Comparison c op v)" "printable (Comparison c op w)"
  shows "relevant (Comparison c op v) = relevant (Comparison c op w)"
proof -
  have ints: "dec_text i \<noteq> 39 # xs" "39 # xs \<noteq> dec_text i" for i xs
    using dec_text_Cons[of i] dec_char_special by (metis list.inject)+
  show ?thesis
  proof (cases "op = IS_NULL \<or> op = IS_NOT_NULL")
    case False
    then show ?thesis
      using assms by (cases v; cases w)
        (simp_all add: value_to_string_def dec_text_inj dec_text_ne dec_text_ne[symmetric] ints signed_word_eqI)
  qed auto
qed

lemma comparison_text_unique:
  assumes "dec_digits c @ 32 # op_to_string op @ 32 # value_to_string fd op v =
      dec_digits c' @ 32 # op_to_string op' @ 32 # value_to_string fd op' w"
    and "printable (Comparison c op v)" "printable (Comparison c' op' w)"
  shows "relevant (Comparison c op v) = relevant (Comparison c' op' w)"
proof -
  have "dec_digits c = dec_digits c' \<and> (32 :: u8) = 32 \<and>
      op_to_string op @ 32 # value_to_string fd op v = op_to_string op' @ 32 # value_to_string fd op' w"
    using assms(1) dec_digits_digits
    by (rule split_unique[where P = c_isdigit]) (use dec_digits_digits in \<open>auto simp: c_isdigit_def word_le_nat_alt\<close>)
  then have "c = c'" "op = op'" "value_to_string fd op v = value_to_string fd op' w"
    using op_text_unique[of op _ op'] by (auto simp: dec_digits_inj)
  then show ?thesis using value_text_unique[of fd op v w c] assms(2,3) by simp
qed

lemma lines_no_break:
  "printable s \<Longrightarrow> l \<in> set (statement_lines fd n s) \<Longrightarrow> 10 \<notin> set l"
proof (induction fd n s rule: statement_lines.induct)
  case (1 fd n c op v)
  have "10 \<notin> set (dec_digits c)" using dec_digits_digits[of c] by (auto simp: c_isdigit_def word_le_nat_alt)
  moreover have "10 \<notin> set (dec_text i)" for i using dec_text_chars dec_char_special by blast
  moreover have "10 \<notin> set (op_to_string op)" by (cases op) (simp_all add: op_to_string_def)
  ultimately show ?case
    using 1 by (auto simp: value_to_string_def split: literal.splits if_splits)
next
  case (2 fd n ty children)
  have "10 \<notin> set (type_to_string ty)" by (cases ty) simp_all
  then show ?case using 2 by (auto split: if_splits)
qed

definition starts_at :: "nat \<Rightarrow> bytes \<Rightarrow> bool" where
  "starts_at n l \<longleftrightarrow> (\<exists>x xs. l = replicate n 32 @ x # xs \<and> x \<noteq> 32)"

lemma starts_at_unique: "starts_at m l \<Longrightarrow> starts_at n l \<Longrightarrow> m = n"
  unfolding starts_at_def
proof (elim exE conjE)
  fix x xs y ys assume "l = replicate m 32 @ x # xs" "x \<noteq> 32" "l = replicate n 32 @ y # ys" "y \<noteq> (32 :: u8)"
  then have "replicate m (32 :: u8) = replicate n 32 \<and> x = y \<and> xs = ys"
    by (intro split_unique[where P = "\<lambda>c. c = 32"]) auto
  then show ?thesis by (metis length_replicate)
qed

lemma lines_start: "starts_at n (hd (statement_lines fd n s))"
proof (cases s)
  case (Comparison c op v)
  obtain x xs where "dec_digits c = x # xs" "c_isdigit x"
    using dec_digits_ne[of c] dec_digits_digits[of c] by (cases "dec_digits c") auto
  moreover from this have "x \<noteq> 32" by (auto simp: c_isdigit_def word_le_nat_alt)
  ultimately show ?thesis using Comparison by (auto simp: starts_at_def)
qed (auto simp: starts_at_def)

definition stops :: "nat \<Rightarrow> bytes list \<Rightarrow> bool" where
  "stops n R \<longleftrightarrow> R = [] \<or> (\<exists>m \<le> n. starts_at m (hd R))"

lemma stops_lines: "cs \<noteq> [] \<or> stops n R \<Longrightarrow> n \<le> m \<Longrightarrow> stops m (concat (map (statement_lines fd m) cs) @ R)"
proof (cases cs)
  case (Cons c cs')
  then show ?thesis using lines_start[of m fd c] by (auto simp: stops_def hd_append)
qed (auto simp: stops_def intro: order_trans)

lemma children_unique:
  assumes stop: "stops n R" "stops n R'"
  shows "\<forall>c \<in> set cs. \<forall>d \<in> set ds. \<forall>R R'. statement_lines fd (n + 2) c @ R = statement_lines fd (n + 2) d @ R' \<longrightarrow>
      stops (n + 2) R \<longrightarrow> stops (n + 2) R' \<longrightarrow> relevant c = relevant d \<and> R = R' \<Longrightarrow>
    concat (map (statement_lines fd (n + 2)) cs) @ R = concat (map (statement_lines fd (n + 2)) ds) @ R' \<Longrightarrow>
    map relevant cs = map relevant ds \<and> R = R'"
proof (induction cs arbitrary: ds)
  have first: "R1 \<noteq> statement_lines fd (n + 2) d @ X" if "stops n R1" for d X R1
  proof
    assume R1: "R1 = statement_lines fd (n + 2) d @ X"
    then have "starts_at (n + 2) (hd R1)" using lines_start[of "n + 2" fd d] by simp
    moreover obtain m where "m \<le> n" "starts_at m (hd R1)" using \<open>stops n R1\<close> R1 by (auto simp: stops_def)
    ultimately show False using starts_at_unique by fastforce
  qed
  {
    case Nil
    then show ?case using first[OF stop(1)] by (cases ds) auto
  next
    case (Cons c cs)
    show ?case
    proof (cases ds)
      case Nil
      have "statement_lines fd (n + 2) c @ (concat (map (statement_lines fd (n + 2)) cs) @ R) = R'"
        using Cons.prems(2) by (simp add: Nil)
      then show ?thesis using first[OF stop(2)] by metis
    next
      case ds: (Cons d ds')
      let ?X = "concat (map (statement_lines fd (n + 2)) cs) @ R" and ?Y = "concat (map (statement_lines fd (n + 2)) ds') @ R'"
      have eq: "statement_lines fd (n + 2) c @ ?X = statement_lines fd (n + 2) d @ ?Y"
        using Cons.prems(2) by (simp add: ds)
      have stops: "stops (n + 2) ?X" "stops (n + 2) ?Y" by (rule stops_lines[where n = n]; use stop in simp)+
      have mem: "c \<in> set (c # cs)" "d \<in> set ds" using ds by simp_all
      note step = Cons.prems(1)[rule_format, OF mem eq stops]
      have "map relevant cs = map relevant ds' \<and> R = R'"
        by (rule Cons.IH[OF _ conjunct2[OF step]])
          (rule ballI, rule ballI, rule bspec[OF bspec[OF Cons.prems(1)]], simp_all add: ds)
      then show ?thesis using conjunct1[OF step] ds by simp
    qed
  }
qed

lemma lines_unique:
  "printable s \<Longrightarrow> printable t \<Longrightarrow> statement_lines fd n s @ R = statement_lines fd n t @ R' \<Longrightarrow>
   stops n R \<Longrightarrow> stops n R' \<Longrightarrow> relevant s = relevant t \<and> R = R'"
proof (induction s arbitrary: t n R R')
  case (Comparison c op v)
  have head: "dec_digits c @ xs \<noteq> 91 # ys" for xs ys
    using dec_digits_ne[of c] dec_digits_digits[of c] by (cases "dec_digits c") (auto simp: c_isdigit_def word_le_nat_alt)
  show ?case
  proof (cases t)
    case t: (Comparison c' op' w)
    then have line: "dec_digits c @ 32 # op_to_string op @ 32 # value_to_string fd op v =
        dec_digits c' @ 32 # op_to_string op' @ 32 # value_to_string fd op' w" and R: "R = R'"
      using Comparison.prems(3) by simp_all
    show ?thesis using comparison_text_unique[OF line] Comparison.prems(1,2) R unfolding t by blast
  next
    case (LogicalOperation ty ds)
    then show ?thesis using Comparison.prems(3) head by simp
  qed
next
  case (LogicalOperation ty cs)
  show ?case
  proof (cases t)
    case (Comparison c op v)
    have "91 # ys \<noteq> dec_digits c @ xs" for xs ys
      using dec_digits_ne[of c] dec_digits_digits[of c] by (cases "dec_digits c") (auto simp: c_isdigit_def word_le_nat_alt)
    then show ?thesis using LogicalOperation.prems(3) Comparison by simp
  next
    case t: (LogicalOperation ty' ds)
    let ?L = "statement_lines fd (n + 2)"
    have ty: "ty = ty'" using LogicalOperation.prems(3) t by (cases ty; cases ty'; simp)
    have rest: "(if cs = [] then [[]] else concat (map ?L cs)) @ R = (if ds = [] then [[]] else concat (map ?L ds)) @ R'"
      using LogicalOperation.prems(3) t by simp
    have ne: "?L c @ X \<noteq> [] # Y" for c X Y
    proof
      assume "?L c @ X = [] # Y"
      then have "hd (?L c) = []" by (cases "?L c") simp_all
      then show False using lines_start[of "n + 2" fd c] by (simp add: starts_at_def)
    qed
    have IH: "\<forall>c \<in> set cs. \<forall>d \<in> set ds. \<forall>R R'. ?L c @ R = ?L d @ R' \<longrightarrow> stops (n + 2) R \<longrightarrow> stops (n + 2) R' \<longrightarrow>
        relevant c = relevant d \<and> R = R'"
      using LogicalOperation.IH LogicalOperation.prems(1,2) t by (metis printable.simps(2))
    consider "cs = []" "ds = []" | c cs' where "cs = c # cs'" "ds = []" | d ds' where "cs = []" "ds = d # ds'" | "cs \<noteq> []" "ds \<noteq> []"
      by (cases cs; cases ds) auto
    then have "map relevant cs = map relevant ds \<and> R = R'"
    proof cases
      case 2
      then show ?thesis using rest ne[of c "concat (map ?L cs') @ R" R'] by simp
    next
      case 3
      then have "?L d @ (concat (map ?L ds') @ R') = [] # R" using rest by simp
      then show ?thesis using ne by blast
    next
      case 4
      then show ?thesis using children_unique[OF LogicalOperation.prems(4,5) IH] rest by simp
    qed (use rest in simp)
    then show ?thesis using t ty by simp
  qed
qed

lemma pretty_print_unique:
  assumes "pretty_print fd n s = pretty_print fd n t" "printable s" "printable t"
  shows "relevant s = relevant t"
proof -
  have "statement_lines fd n s = statement_lines fd n t"
    by (rule join_with_unique) (use assms lines_no_break in \<open>auto simp: pretty_print_lines\<close>)
  then show ?thesis using lines_unique[OF assms(2,3), of fd n "[]" "[]"] by (simp add: stops_def)
qed

text \<open>What is not printed does not matter to the rows a filter selects.\<close>

lemma eval_children_relevant:
  assumes "\<forall>c \<in> set cs. eval_row re row (relevant c) = eval_row re row c"
  shows "eval_all re row (map relevant cs) = eval_all re row cs" "eval_any re row (map relevant cs) = eval_any re row cs"
  using assms by (induction cs) (simp_all cong: if_cong)

lemma eval_row_relevant: "eval_row re row (relevant s) = eval_row re row s"
proof (induction s)
  case (Comparison column op v)
  then show ?case by (simp add: eval_comparison_row_def compare_data_def)
next
  case (LogicalOperation ty cs)
  show ?case
  proof (cases ty)
    case L_NOT
    then show ?thesis using LogicalOperation by (auto split: list.split)
  qed (use LogicalOperation in \<open>simp_all add: eval_children_relevant\<close>)
qed

lemma eval_null_bitmap:
  assumes "op = IS_NULL \<or> op = IS_NOT_NULL"
  shows "eval_comparison_bitmap re order table column op v = eval_comparison_bitmap re order table column op L_null"
proof (cases "at table column")
  case (Inr c)
  then show ?thesis using assms by (cases c) (auto simp: eval_comparison_bitmap_def null_or_def)
qed (simp add: eval_comparison_bitmap_def)

lemma eval_bitmap_relevant: "eval_bitmap re order table (relevant s) = eval_bitmap re order table s"
proof (induction re order table s rule: eval_bitmap.induct)
  case (1 re order table column op v)
  show ?case using eval_null_bitmap[of op re order table column v] by simp
qed simp_all

section \<open>Properties\<close>

text \<open>C26. A printed table can be read back: two tables of the same types, none of them FP64, that differ
  in any field are printed differently. Quotes, separators and line breaks inside strings are
  escaped, and a NULL is not taken for the string NULL.\<close>

theorem printed_rows_differ:
  assumes "FP64 \<notin> set types"
    and "\<forall>row \<in> set rows. list_all2 cell_ok types row" "\<forall>row \<in> set rows'. list_all2 cell_ok types row"
    and "rows \<noteq> rows'"
  shows "print_rows fmt_double rows \<noteq> print_rows fmt_double rows'"
proof
  have none: "no_doubles row" if "list_all2 cell_ok types row" for row
    using that assms(1) by (fastforce simp: no_doubles_def list_all2_conv_all_nth in_set_conv_nth cell_ok_def)
  assume "print_rows fmt_double rows = print_rows fmt_double rows'"
  then have "map (map shown) rows = map (map shown) rows'"
    using assms(2,3) none by (intro print_rows_unique) auto
  then show False using typed_rows_determined assms(2-4) by blast
qed

theorem printed_rows_differ_witness:
  "print_rows (\<lambda>x. []) [[D_null, D_int32 7]] \<noteq> print_rows (\<lambda>x. []) [[D_string [78, 85, 76, 76], D_int32 7]]"
  by (rule printed_rows_differ[where types = "[VARCHAR, INT32]"]) (simp_all add: cell_ok_def)

text \<open>C25. The text of a filter determines what it selects, which the cache of filtered tables relies on:
  two filters with the same text, whose string literals have no line break and which compare with no
  doubles, have the same structure, columns, operators and literals (but for the unused literal of a
  test for NULL), and evaluate alike on records and on columns.\<close>

theorem filter_text_determines_filter:
  assumes "pretty_print fmt_double indent s = pretty_print fmt_double indent t" "printable s" "printable t"
  shows "relevant s = relevant t \<and> eval_row re row s = eval_row re row t \<and>
    eval_bitmap re order table s = eval_bitmap re order table t"
  using pretty_print_unique[OF assms] eval_row_relevant eval_bitmap_relevant by metis

definition example_null_filter :: "literal \<Rightarrow> statement" where
  "example_null_filter v = makeAnd (Comparison 1 IS_NOT_NULL v) (makeNot (Comparison 0 EQ (L_string [97, 39, 32])))"

theorem filter_text_determines_filter_witness:
  "\<forall>re row. eval_row re row (example_null_filter (L_int64 3)) = eval_row re row (example_null_filter L_null)"
  using filter_text_determines_filter[of "\<lambda>x. []" 0 "example_null_filter (L_int64 3)" "example_null_filter L_null" _ _ "[]" "[]"]
  by (simp add: example_null_filter_def makeAnd_def makeNot_def value_to_string_def)

text \<open>With a line break in a string the text is ambiguous: a filter on one column has the text of a
  conjunction over two, and selects other rows.\<close>

definition example_break_filter :: statement where
  "example_break_filter = LogicalOperation L_AND [Comparison 0 EQ (L_string ([97, 39, 10, 32, 32, 49] @ ascii '' = '' @ [39, 98]))]"

definition example_two_filter :: statement where
  "example_two_filter = LogicalOperation L_AND [Comparison 0 EQ (L_string [97]), Comparison 1 EQ (L_string [98])]"

theorem filter_text_ambiguous:
  "pretty_print fmt_double 0 example_break_filter = pretty_print fmt_double 0 example_two_filter"
  "eval_row re [D_string [97], D_string [98]] example_break_filter = Inr False"
  "eval_row re [D_string [97], D_string [98]] example_two_filter = Inr True"
proof -
  have "dec_digits 0 = [48]" "dec_digits 1 = [49]" by (simp_all add: dec_digits.simps)
  then show "pretty_print fmt_double 0 example_break_filter = pretty_print fmt_double 0 example_two_filter"
    by (simp add: example_break_filter_def example_two_filter_def value_to_string_def op_to_string_def numeral_2_eq_2)
  show "eval_row re [D_string [97], D_string [98]] example_break_filter = Inr False"
    by (simp add: example_break_filter_def eval_comparison_row_def compare_data_def numeric_data_def compare_with_def string_ops_def)
  show "eval_row re [D_string [97], D_string [98]] example_two_filter = Inr True"
    by (simp add: example_two_filter_def eval_comparison_row_def compare_data_def numeric_data_def compare_with_def string_ops_def)
qed

end
