(* ===== verification/ColumnarJoin.thy ===== *)
theory ColumnarJoin
  imports JoinExec
begin

text \<open>
  \<open>join_columnbuffer_hash\<close> (\<open>src/columnar.cpp\<close>): the sequential hash join of two column buffers over
  \<open>UnchainedHashTable\<close>, the alias of the flat table. \<open>join_numeric\<close> and \<open>join_varchar\<close> differ in the
  type of the key only and are one definition here; VARCHAR keys are packed references, hashed with
  \<open>std::hash<uint64_t>\<close>, which is a parameter. Reading a value moves the page cache of its column, so
  both inputs are part of the state.

  The lemmas show which pairs of rows it emits, in which order, and that on INT32 keys it computes the
  same bag of rows as the parallel join of \<open>execute\<close>.
\<close>

section \<open>Operations\<close>

type_synonym join_buffers = "column_buffer \<times> column_buffer \<times> column_buffer"

definition buffer_get :: "nat \<Rightarrow> nat \<Rightarrow> column_buffer \<Rightarrow> (value_t \<times> column_buffer) res" where
  "buffer_get col row buf =
     rbind (at (cb_columns buf) col) (\<lambda>c.
     rbind (column_get c row) (\<lambda>(v, c). Inr (v, buf\<lparr>cb_columns := (cb_columns buf)[col := c]\<rparr>)))"

definition buffer_append :: "nat \<Rightarrow> value_t \<Rightarrow> column_buffer \<Rightarrow> column_buffer res" where
  "buffer_append col v buf =
     rbind (at (cb_columns buf) col) (\<lambda>c. Inr (buf\<lparr>cb_columns := (cb_columns buf)[col := column_append v c]\<rparr>))"

definition side_get :: "bool \<Rightarrow> nat \<Rightarrow> nat \<Rightarrow> join_buffers \<Rightarrow> (value_t \<times> join_buffers) res" where
  "side_get of_left col row = (\<lambda>(left, right, out).
     if of_left then rbind (buffer_get col row left) (\<lambda>(v, left). Inr (v, left, right, out))
     else rbind (buffer_get col row right) (\<lambda>(v, right). Inr (v, left, right, out)))"

definition emit_column :: "attrs \<Rightarrow> nat \<Rightarrow> nat \<Rightarrow> nat \<Rightarrow> nat \<Rightarrow> join_buffers \<Rightarrow> join_buffers res" where
  "emit_column output_attrs left_cols lidx ridx col_idx bufs =
     rbind (at output_attrs col_idx) (\<lambda>attr.
     let src_idx = fst attr
     in rbind (if src_idx < left_cols then side_get True src_idx lidx bufs
               else side_get False (src_idx - left_cols) ridx bufs) (\<lambda>(v, left, right, out).
        rbind (buffer_append col_idx v out) (\<lambda>out. Inr (left, right, out))))"

definition emit_pair :: "attrs \<Rightarrow> nat \<Rightarrow> nat \<Rightarrow> join_buffers \<Rightarrow> join_buffers res" where
  "emit_pair output_attrs lidx ridx bufs =
     rbind (rfold (emit_column output_attrs (num_cols (fst bufs)) lidx ridx) [0..<length output_attrs] bufs) (\<lambda>(left, right, out).
       Inr (left, right, out\<lparr>cb_num_rows := cb_num_rows out + 1\<rparr>))"

definition join_keys ::
    "('k::zero \<Rightarrow> u64) \<Rightarrow> (value_t \<Rightarrow> 'k) \<Rightarrow> join_node \<Rightarrow> attrs \<Rightarrow> bool \<Rightarrow> join_buffers \<Rightarrow> join_buffers res" where
  "join_keys compute_hash key_of join output_attrs build_left_side bufs =
     (let build_buf = (if build_left_side then fst bufs else fst (snd bufs));
          build_key_idx = (if build_left_side then jn_left_attr join else jn_right_attr join)
      in rbind (rfold (\<lambda>i (entries, bufs).
                  rbind (side_get build_left_side build_key_idx i bufs) (\<lambda>(v, bufs).
                    Inr (if is_null v then entries else entries @ [\<lparr>he_key = key_of v, he_row_id = of_nat i\<rparr>], bufs)))
                [0..<cb_num_rows build_buf] ([], bufs)) (\<lambda>(entries, bufs).
         let ht = flat_build_from_entries compute_hash entries (flat_new 10);
             probe_buf = (if build_left_side then fst (snd bufs) else fst bufs);
             probe_key_idx = (if build_left_side then jn_right_attr join else jn_left_attr join)
         in rfold (\<lambda>j bufs.
              rbind (side_get (\<not> build_left_side) probe_key_idx j bufs) (\<lambda>(v, bufs).
                if is_null v then Inr bufs
                else rfold (\<lambda>e bufs.
                       if he_key e = key_of v
                       then if build_left_side then emit_pair output_attrs (unat (he_row_id e)) j bufs
                            else emit_pair output_attrs j (unat (he_row_id e)) bufs
                       else Inr bufs) (bucket (flat_probe compute_hash (key_of v) ht)) bufs))
            [0..<cb_num_rows probe_buf] bufs))"

definition join_numeric :: "join_node \<Rightarrow> attrs \<Rightarrow> bool \<Rightarrow> join_buffers \<Rightarrow> join_buffers res" where
  "join_numeric = join_keys compute_hash_u32 as_i32"

definition join_varchar :: "(u64 \<Rightarrow> u64) \<Rightarrow> join_node \<Rightarrow> attrs \<Rightarrow> bool \<Rightarrow> join_buffers \<Rightarrow> join_buffers res" where
  "join_varchar std_hash = join_keys std_hash as_ref"

text \<open>The type of the key column on the build side selects the join; another type joins nothing.\<close>

definition join_columnbuffer_hash ::
    "(u64 \<Rightarrow> u64) \<Rightarrow> plan \<Rightarrow> join_node \<Rightarrow> attrs \<Rightarrow> column_buffer \<Rightarrow> column_buffer \<Rightarrow> join_buffers res" where
  "join_columnbuffer_hash std_hash plan join output_attrs left right =
     rbind (if jn_build_left join
            then rbind (at (pl_nodes plan) (jn_left join)) (\<lambda>n. at (pn_output_attrs n) (jn_left_attr join))
            else rbind (at (pl_nodes plan) (jn_right join)) (\<lambda>n. at (pn_output_attrs n) (jn_right_attr join))) (\<lambda>key.
       let bufs = (left, right, fresh_results output_attrs)
       in case snd key of
            INT32 \<Rightarrow> join_numeric join output_attrs (jn_build_left join) bufs
          | VARCHAR \<Rightarrow> join_varchar std_hash join output_attrs (jn_build_left join) bufs
          | _ \<Rightarrow> Inr bufs)"

section \<open>One pair\<close>

text \<open>The inputs up to their page caches, and the output after the pairs \<open>ps\<close>.\<close>

definition same_buffer :: "column_buffer \<Rightarrow> column_buffer \<Rightarrow> bool" where
  "same_buffer b b' \<longleftrightarrow> list_all2 same_but_cache (cb_columns b) (cb_columns b') \<and>
     cb_num_rows b' = cb_num_rows b \<and> cb_types b' = cb_types b"

definition emitted :: "column_t list \<Rightarrow> column_t list \<Rightarrow> attrs \<Rightarrow> (nat \<times> nat) list \<Rightarrow> nat \<Rightarrow> column_t \<Rightarrow> bool" where
  "emitted L R attrs ps k c \<longleftrightarrow>
     column_wf c \<and> \<not> ct_is_zero_copy c \<and> ct_values c = map (join_cell L R (fst (attrs ! k))) ps"

definition emit_inv :: "column_buffer \<Rightarrow> column_buffer \<Rightarrow> attrs \<Rightarrow> (nat \<times> nat) list \<Rightarrow> join_buffers \<Rightarrow> bool" where
  "emit_inv left right attrs ps = (\<lambda>(left', right', out).
     same_buffer left left' \<and> same_buffer right right' \<and>
     length (cb_columns out) = length attrs \<and> cb_num_rows out = length ps \<and> cb_types out = map snd attrs \<and>
     (\<forall>k < length attrs. emitted (cb_columns left) (cb_columns right) attrs ps k (cb_columns out ! k)))"

lemma buffer_get_correct:
  assumes rel: "same_buffer b b'" and wf: "buffer_wf b" and col: "col < num_cols b" and row: "row < cb_num_rows b"
  shows "\<exists>b''. buffer_get col row b' = Inr (ct_values (cb_columns b ! col) ! row, b'') \<and> same_buffer b b''"
proof -
  have r: "list_all2 same_but_cache (cb_columns b) (cb_columns b')" using rel by (simp add: same_buffer_def)
  have w: "columns_wf (cb_num_rows b) (cb_columns b)" "col < length (cb_columns b)"
    using wf col by (simp_all add: buffer_wf_def num_cols_def)
  note get = get_through_cache[OF r w row]
  then obtain c' where "column_get (cb_columns b' ! col) row = Inr (ct_values (cb_columns b ! col) ! row, c')"
    "list_all2 same_but_cache (cb_columns b) ((cb_columns b')[col := c'])" by blast
  then show ?thesis using get(1) rel by (simp add: buffer_get_def same_buffer_def)
qed

lemma emit_column_correct:
  assumes wf: "buffer_wf left" "buffer_wf right" and attr: "fst (attrs ! k) < num_cols left + num_cols right" "k < length attrs"
    and pair: "l < cb_num_rows left" "r < cb_num_rows right"
    and rel: "same_buffer left left'" "same_buffer right right'" and out: "k < length (cb_columns out)"
  shows "\<exists>left'' right''. emit_column attrs (num_cols left) l r k (left', right', out) =
      Inr (left'', right'', out\<lparr>cb_columns := (cb_columns out)[k :=
        column_append (join_cell (cb_columns left) (cb_columns right) (fst (attrs ! k)) (l, r)) (cb_columns out ! k)]\<rparr>) \<and>
    same_buffer left left'' \<and> same_buffer right right''"
proof (cases "fst (attrs ! k) < num_cols left")
  case True
  obtain left'' where "buffer_get (fst (attrs ! k)) l left' = Inr (ct_values (cb_columns left ! fst (attrs ! k)) ! l, left'')"
    "same_buffer left left''" using buffer_get_correct[OF rel(1) wf(1) True pair(1)] by blast
  then show ?thesis
    using True attr(2) out rel(2)
    by (simp add: emit_column_def side_get_def buffer_append_def join_cell_def num_cols_def)
next
  case False
  then have "fst (attrs ! k) - num_cols left < num_cols right" using attr(1) by simp
  from buffer_get_correct[OF rel(2) wf(2) this pair(2)] obtain right'' where
    "buffer_get (fst (attrs ! k) - num_cols left) r right' =
      Inr (ct_values (cb_columns right ! (fst (attrs ! k) - num_cols left)) ! r, right'')" "same_buffer right right''" by blast
  then show ?thesis
    using False attr(2) out rel(1)
    by (simp add: emit_column_def side_get_def buffer_append_def join_cell_def num_cols_def)
qed

lemma emit_pair_correct:
  assumes wf: "buffer_wf left" "buffer_wf right" and attrs: "attrs_in (num_cols left) (num_cols right) attrs"
    and pair: "l < cb_num_rows left" "r < cb_num_rows right" and inv: "emit_inv left right attrs ps bufs"
  shows "\<exists>bufs'. emit_pair attrs l r bufs = Inr bufs' \<and> emit_inv left right attrs (ps @ [(l, r)]) bufs'"
proof -
  obtain left0 right0 out0 where bufs: "bufs = (left0, right0, out0)" by (cases bufs)
  let ?E = "\<lambda>ps k c. emitted (cb_columns left) (cb_columns right) attrs ps k c"
  let ?P = "\<lambda>k (left', right', out). same_buffer left left' \<and> same_buffer right right' \<and>
      length (cb_columns out) = length attrs \<and> cb_num_rows out = length ps \<and> cb_types out = map snd attrs \<and>
      (\<forall>i < length attrs. ?E (if i < k then ps @ [(l, r)] else ps) i (cb_columns out ! i))"
  have cols: "num_cols left0 = num_cols left"
    using inv bufs by (auto simp: emit_inv_def same_buffer_def num_cols_def dest: list_all2_lengthD)
  have "\<exists>s'. rfold (emit_column attrs (num_cols left) l r) [0..<length attrs] (left0, right0, out0) = Inr s' \<and>
      ?P (length [0..<length attrs]) s'"
  proof (rule rfold_invariant[where P = ?P])
    show "?P 0 (left0, right0, out0)" using inv bufs by (simp add: emit_inv_def)
    fix k and s :: join_buffers assume k: "k < length [0..<length attrs]" and P: "?P k s"
    obtain left' right' out where s: "s = (left', right', out)" by (cases s)
    have k': "k < length attrs" using k by simp
    then have attr: "fst (attrs ! k) < num_cols left + num_cols right" using attrs by (simp add: attrs_in_def)
    have rel: "same_buffer left left'" "same_buffer right right'" "k < length (cb_columns out)" using P s k' by auto
    let ?out = "out\<lparr>cb_columns := (cb_columns out)[k :=
        column_append (join_cell (cb_columns left) (cb_columns right) (fst (attrs ! k)) (l, r)) (cb_columns out ! k)]\<rparr>"
    obtain left'' right'' where step: "emit_column attrs (num_cols left) l r k (left', right', out) = Inr (left'', right'', ?out)"
      "same_buffer left left''" "same_buffer right right''"
      using emit_column_correct[OF wf attr k' pair rel] by blast
    have "?E ps k (cb_columns out ! k)" using P s k' by auto
    then have "?E (ps @ [(l, r)]) k (cb_columns ?out ! k)"
      using rel(3) by (simp add: emitted_def column_append_values)
    then have "?P (Suc k) (left'', right'', ?out)"
      using P s step(2,3) rel(3) by (auto simp: nth_list_update less_Suc_eq)
    then show "\<exists>s'. emit_column attrs (num_cols left) l r ([0..<length attrs] ! k) s = Inr s' \<and> ?P (Suc k) s'"
      using step(1) s k' by auto
  qed
  then show ?thesis by (auto simp: emit_pair_def bufs cols emit_inv_def)
qed

section \<open>The pairs\<close>


text \<open>A NULL payload is no key, whatever the representation of the column.\<close>

definition value_keys :: "(value_t \<Rightarrow> 'k) \<Rightarrow> column_t \<Rightarrow> 'k option list" where
  "value_keys key_of c = map (\<lambda>v. if is_null v then None else Some (key_of v)) (ct_values c)"

definition columnar_pairs ::
    "(value_t \<Rightarrow> 'k) \<Rightarrow> bool \<Rightarrow> column_buffer \<Rightarrow> column_buffer \<Rightarrow> nat \<Rightarrow> nat \<Rightarrow> (nat \<times> nat) list" where
  "columnar_pairs key_of build_left left right left_col right_col =
     (let left_keys = value_keys key_of (cb_columns left ! left_col);
          right_keys = value_keys key_of (cb_columns right ! right_col)
      in if build_left then join_pairs True left_keys right_keys else join_pairs False right_keys left_keys)"

lemma side_get_correct:
  assumes inv: "emit_inv left right attrs ps bufs" and wf: "buffer_wf left" "buffer_wf right"
    and col: "col < num_cols (if of_left then left else right)" and row: "row < cb_num_rows (if of_left then left else right)"
  shows "\<exists>bufs'. side_get of_left col row bufs =
      Inr (ct_values (cb_columns (if of_left then left else right) ! col) ! row, bufs') \<and> emit_inv left right attrs ps bufs'"
proof -
  obtain left' right' out where bufs: "bufs = (left', right', out)" by (cases bufs)
  have rel: "same_buffer left left'" "same_buffer right right'" using inv bufs by (simp_all add: emit_inv_def)
  show ?thesis
  proof (cases of_left)
    case True
    then obtain left'' where "buffer_get col row left' = Inr (ct_values (cb_columns left ! col) ! row, left'')" "same_buffer left left''"
      using buffer_get_correct[OF rel(1) wf(1), of col row] col row by auto
    then show ?thesis using True inv bufs by (simp add: side_get_def emit_inv_def)
  next
    case False
    then obtain right'' where "buffer_get col row right' = Inr (ct_values (cb_columns right ! col) ! row, right'')" "same_buffer right right''"
      using buffer_get_correct[OF rel(2) wf(2), of col row] col row by auto
    then show ?thesis using False inv bufs by (simp add: side_get_def emit_inv_def)
  qed
qed

lemma collect_keys_correct:
  fixes key_of :: "value_t \<Rightarrow> 'k"
  assumes inv: "emit_inv left right attrs ps bufs" and wf: "buffer_wf left" "buffer_wf right"
    and buf: "buf = (if of_left then left else right)" and col: "col < num_cols buf"
  shows "\<exists>bufs'. rfold (\<lambda>i (entries, bufs).
        rbind (side_get of_left col i bufs) (\<lambda>(v, bufs).
          Inr (if is_null v then entries else entries @ [\<lparr>he_key = key_of v, he_row_id = of_nat i\<rparr>], bufs)))
      [0..<cb_num_rows buf] ([], bufs) = Inr (key_entries (value_keys key_of (cb_columns buf ! col)), bufs') \<and>
    emit_inv left right attrs ps bufs'"
proof -
  let ?ks = "value_keys key_of (cb_columns buf ! col)"
  let ?es = "\<lambda>k. map (\<lambda>i. \<lparr>he_key = the (?ks ! i), he_row_id = of_nat i\<rparr>) (filter (\<lambda>i. ?ks ! i \<noteq> None) [0..<k])"
  let ?f = "\<lambda>i (entries, bufs).
        rbind (side_get of_left col i bufs) (\<lambda>(v, bufs).
          Inr (if is_null v then entries else entries @ [\<lparr>he_key = key_of v, he_row_id = of_nat i\<rparr>], bufs))"
  let ?P = "\<lambda>k (entries, bufs). entries = ?es k \<and> emit_inv left right attrs ps bufs"
  have rows: "length (ct_values (cb_columns buf ! col)) = cb_num_rows buf"
    using wf buf col by (auto simp: buffer_wf_def columns_wf_def num_cols_def)
  have "\<exists>s. rfold ?f [0..<cb_num_rows buf] ([], bufs) = Inr s \<and> ?P (length [0..<cb_num_rows buf]) s"
  proof (rule rfold_invariant[where P = ?P])
    fix k and s :: "'k hash_entry list \<times> join_buffers"
    assume k: "k < length [0..<cb_num_rows buf]" and P: "?P k s"
    obtain bufs1 where s: "s = (?es k, bufs1)" "emit_inv left right attrs ps bufs1" using P by (cases s) auto
    have "k < cb_num_rows (if of_left then left else right)" "col < num_cols (if of_left then left else right)"
      using k buf col by simp_all
    from side_get_correct[OF s(2) wf this(2,1)] obtain bufs2 where
      get: "side_get of_left col k bufs1 = Inr (ct_values (cb_columns buf ! col) ! k, bufs2)" "emit_inv left right attrs ps bufs2"
      using buf by auto
    have "?ks ! k = (if is_null (ct_values (cb_columns buf ! col) ! k) then None else Some (key_of (ct_values (cb_columns buf ! col) ! k)))"
      using k rows by (simp add: value_keys_def)
    then show "\<exists>s'. ?f ([0..<cb_num_rows buf] ! k) s = Inr s' \<and> ?P (Suc k) s'"
      using k s get by simp
  qed (use inv in simp)
  moreover have "?es (cb_num_rows buf) = key_entries ?ks"
    using rows by (simp add: key_entries_def value_keys_def)
  ultimately show ?thesis by auto
qed

lemma rfold_filter: "rfold (\<lambda>x s. if P x then f x s else Inr s) xs s = rfold f (filter P xs) s"
proof (induction xs arbitrary: s)
  case (Cons x xs)
  then show ?case by (cases "f x s") simp_all
qed simp

lemma emit_pairs_correct:
  assumes wf: "buffer_wf left" "buffer_wf right" and attrs: "attrs_in (num_cols left) (num_cols right) attrs"
    and pairs: "\<And>x. x \<in> set xs \<Longrightarrow> fst (p x) < cb_num_rows left \<and> snd (p x) < cb_num_rows right"
    and inv: "emit_inv left right attrs ps bufs"
  shows "\<exists>bufs'. rfold (\<lambda>x. emit_pair attrs (fst (p x)) (snd (p x))) xs bufs = Inr bufs' \<and>
    emit_inv left right attrs (ps @ map p xs) bufs'"
  using pairs inv
proof (induction xs arbitrary: ps bufs)
  case (Cons x xs)
  obtain bufs1 where step: "emit_pair attrs (fst (p x)) (snd (p x)) bufs = Inr bufs1"
    "emit_inv left right attrs (ps @ [p x]) bufs1"
    using emit_pair_correct[OF wf attrs _ _ Cons.prems(2), of "fst (p x)" "snd (p x)"] Cons.prems(1)[of x] by auto
  from Cons.IH[OF _ step(2)] Cons.prems(1) step(1) show ?case by auto
qed simp

lemma join_keys_correct:
  fixes key_of :: "value_t \<Rightarrow> 'k::zero"
  assumes ok: "join_inputs_ok left right (jn_left_attr join) (jn_right_attr join) attrs"
  shows "\<exists>bufs. join_keys ch key_of join attrs bl (left, right, fresh_results attrs) = Inr bufs \<and>
    emit_inv left right attrs (columnar_pairs key_of bl left right (jn_left_attr join) (jn_right_attr join)) bufs"
proof -
  let ?L = "value_keys key_of (cb_columns left ! jn_left_attr join)" and ?R = "value_keys key_of (cb_columns right ! jn_right_attr join)"
  let ?build = "if bl then left else right" and ?probe = "if bl then right else left"
  let ?bcol = "if bl then jn_left_attr join else jn_right_attr join" and ?pcol = "if bl then jn_right_attr join else jn_left_attr join"
  let ?bks = "if bl then ?L else ?R" and ?pks = "if bl then ?R else ?L"
  have wf: "buffer_wf left" "buffer_wf right" and rows: "cb_num_rows left < 2 ^ 32" "cb_num_rows right < 2 ^ 32"
    and cols: "jn_left_attr join < num_cols left" "jn_right_attr join < num_cols right"
    and attrs: "attrs_in (num_cols left) (num_cols right) attrs" using ok by (simp_all add: join_inputs_ok_def)
  have init: "emit_inv left right attrs [] (left, right, fresh_results attrs)"
    using column_new_wf[of 1024]
    by (simp add: emit_inv_def same_buffer_def fresh_results_def buffer_new_def emitted_def list.rel_refl column_new_def)
  have len: "length ?L = cb_num_rows left" "length ?R = cb_num_rows right"
    using wf cols by (auto simp: value_keys_def buffer_wf_def columns_wf_def num_cols_def)
  obtain bufs1 where build: "rfold (\<lambda>i (entries, bufs).
        rbind (side_get bl ?bcol i bufs) (\<lambda>(v, bufs).
          Inr (if is_null v then entries else entries @ [\<lparr>he_key = key_of v, he_row_id = of_nat i\<rparr>], bufs)))
      [0..<cb_num_rows ?build] ([], (left, right, fresh_results attrs)) = Inr (key_entries ?bks, bufs1)"
    "emit_inv left right attrs [] bufs1"
    using collect_keys_correct[OF init wf refl, where of_left = bl and col = ?bcol and key_of = key_of] cols
    by (cases bl) auto
  let ?ht = "flat_build_from_entries ch (key_entries ?bks) (flat_new 10)"
  have "length (key_entries ?bks) < 2 ^ 32"
    using length_key_entries[of ?bks] len rows by (auto split: if_splits)
  then have ht: "with_key k (bucket (flat_probe ch k ?ht)) = with_key k (key_entries ?bks)" for k
    using flat_wf_new[of 10] by (intro flat.build_probe[OF _ _ refl]) simp_all
  let ?emit = "\<lambda>j e bufs. if bl then emit_pair attrs (unat (he_row_id e)) j bufs else emit_pair attrs j (unat (he_row_id e)) bufs"
  let ?body = "\<lambda>j bufs.
              rbind (side_get (\<not> bl) ?pcol j bufs) (\<lambda>(v, bufs).
                if is_null v then Inr bufs
                else rfold (\<lambda>e bufs. if he_key e = key_of v then ?emit j e bufs else Inr bufs)
                       (bucket (flat_probe ch (key_of v) ?ht)) bufs)"
  let ?P = "\<lambda>j bufs. emit_inv left right attrs (concat (map (row_pairs bl ?bks ?pks) [0..<j])) bufs"
  have "\<exists>bufs. rfold ?body [0..<cb_num_rows ?probe] bufs1 = Inr bufs \<and> ?P (length [0..<cb_num_rows ?probe]) bufs"
  proof (rule rfold_invariant[where P = ?P])
    show "?P 0 bufs1" using build(2) by simp
    fix j bufs assume j: "j < length [0..<cb_num_rows ?probe]" and P: "?P j bufs"
    let ?v = "ct_values (cb_columns ?probe ! ?pcol) ! j"
    let ?ps = "concat (map (row_pairs bl ?bks ?pks) [0..<j])"
    have side: "?pcol < num_cols (if \<not> bl then left else right)" "j < cb_num_rows (if \<not> bl then left else right)"
      using j cols by (auto split: if_splits)
    have probe_side: "(if \<not> bl then left else right) = ?probe" by simp
    from side_get_correct[OF P wf side] obtain bufs2 where
      get: "side_get (\<not> bl) ?pcol j bufs = Inr (?v, bufs2)" "emit_inv left right attrs ?ps bufs2"
      unfolding probe_side by blast
    have key: "?pks ! j = (if is_null ?v then None else Some (key_of ?v))"
      using j len by (cases bl) (simp_all add: value_keys_def)
    have "\<exists>bufs'. ?body j bufs = Inr bufs' \<and> emit_inv left right attrs (?ps @ row_pairs bl ?bks ?pks j) bufs'"
    proof (cases "is_null ?v")
      case True
      then show ?thesis using get key by (simp add: row_pairs_def)
    next
      case False
      let ?is = "rows_with_key ?bks (key_of ?v)"
      let ?p = "\<lambda>i. if bl then (i, j) else (j, i)"
      have range: "i < cb_num_rows ?build" if "i \<in> set ?is" for i
        using that len by (auto simp: rows_with_key_def split: if_splits)
      have small: "unat (of_nat i :: u32) = i" if "i \<in> set ?is" for i
        using range[OF that] rows by (intro unat_of_nat_u32) (auto split: if_splits)
      have "rfold (\<lambda>e bufs. if he_key e = key_of ?v then ?emit j e bufs else Inr bufs)
               (bucket (flat_probe ch (key_of ?v) ?ht)) bufs2 =
          rfold (?emit j) (map (\<lambda>i. \<lparr>he_key = key_of ?v, he_row_id = of_nat i\<rparr>) ?is) bufs2"
        unfolding rfold_filter ht with_key_key_entries ..
      also have "\<dots> = rfold (\<lambda>i. emit_pair attrs (fst (?p i)) (snd (?p i))) ?is bufs2"
        unfolding rfold_map
      proof (rule rfold_cong)
        fix i s assume "i \<in> set ?is"
        from small[OF this] show "?emit j \<lparr>he_key = key_of ?v, he_row_id = of_nat i\<rparr> s = emit_pair attrs (fst (?p i)) (snd (?p i)) s"
          by simp
      qed
      finally have run: "?body j bufs = rfold (\<lambda>i. emit_pair attrs (fst (?p i)) (snd (?p i))) ?is bufs2"
        using get(1) False by simp
      have "\<exists>bufs'. rfold (\<lambda>i. emit_pair attrs (fst (?p i)) (snd (?p i))) ?is bufs2 = Inr bufs' \<and>
          emit_inv left right attrs (?ps @ map ?p ?is) bufs'"
        using range j by (intro emit_pairs_correct[OF wf attrs _ get(2)]) (auto split: if_splits)
      then show ?thesis using run key False by (simp add: row_pairs_def)
    qed
    moreover have "[0..<cb_num_rows ?probe] ! j = j"
      "concat (map (row_pairs bl ?bks ?pks) [0..<Suc j]) = ?ps @ row_pairs bl ?bks ?pks j" using j by simp_all
    ultimately show "\<exists>bufs'. ?body ([0..<cb_num_rows ?probe] ! j) bufs = Inr bufs' \<and> ?P (Suc j) bufs'"
      by (simp only:)
  qed
  then obtain bufs where run: "rfold ?body [0..<cb_num_rows ?probe] bufs1 = Inr bufs" "?P (cb_num_rows ?probe) bufs" by auto
  have sizes: "cb_num_rows (fst bufs1) = cb_num_rows left" "cb_num_rows (fst (snd bufs1)) = cb_num_rows right"
    using build(2) by (auto simp: emit_inv_def same_buffer_def)
  have "join_keys ch key_of join attrs bl (left, right, fresh_results attrs) = Inr bufs"
    using build(1) run(1) sizes unfolding join_keys_def by (cases bl) (simp_all add: Let_def cong: if_cong)
  moreover have "concat (map (row_pairs bl ?bks ?pks) [0..<cb_num_rows ?probe]) =
      columnar_pairs key_of bl left right (jn_left_attr join) (jn_right_attr join)"
    using len by (cases bl) (simp_all add: columnar_pairs_def join_pairs_def)
  ultimately show ?thesis using run(2) by auto
qed

text \<open>The output as rows.\<close>

lemma emit_inv_rows:
  assumes inv: "emit_inv left right attrs ps (left', right', out)" and attrs: "attrs_in (num_cols left) (num_cols right) attrs"
    and ps: "\<forall>p \<in> set ps. fst p < cb_num_rows left \<and> snd p < cb_num_rows right"
  shows "buffer_wf out" "cb_types out = map snd attrs" "buffer_rows out = map (join_row left right attrs) ps"
proof -
  have out: "length (cb_columns out) = length attrs" "cb_num_rows out = length ps" "cb_types out = map snd attrs"
    "\<And>k. k < length attrs \<Longrightarrow> emitted (cb_columns left) (cb_columns right) attrs ps k (cb_columns out ! k)"
    using inv by (auto simp: emit_inv_def)
  show "cb_types out = map snd attrs" by (rule out)
  show "buffer_wf out" using out(1,2,4) by (auto simp: buffer_wf_def columns_wf_def in_set_conv_nth emitted_def)
  have cells: "join_row left right attrs p = map (\<lambda>a. join_cell (cb_columns left) (cb_columns right) (fst a) p) attrs"
    if "p \<in> set ps" for p
    using that ps attrs by (intro join_row_cells) (auto simp: attrs_in_def)
  have "map (\<lambda>c. ct_values c ! i) (cb_columns out) = join_row left right attrs (ps ! i)" if "i < length ps" for i
    using that out(1,4) unfolding cells[OF nth_mem[OF that]] by (intro nth_equalityI) (auto simp: emitted_def)
  then show "buffer_rows out = map (join_row left right attrs) ps"
    unfolding buffer_rows_def out(2) by (intro nth_equalityI) simp_all
qed

lemma columnar_pairs_range:
  assumes "join_inputs_ok left right lc rc attrs" "p \<in> set (columnar_pairs key_of bl left right lc rc)"
  shows "fst p < cb_num_rows left \<and> snd p < cb_num_rows right"
proof -
  have "length (value_keys key_of (cb_columns left ! lc)) = cb_num_rows left"
    "length (value_keys key_of (cb_columns right ! rc)) = cb_num_rows right"
    using assms(1) by (auto simp: join_inputs_ok_def value_keys_def buffer_wf_def columns_wf_def num_cols_def)
  then show ?thesis
    using assms(2) by (auto simp: columnar_pairs_def Let_def join_pairs_def row_pairs_def rows_with_key_def split: option.splits if_splits)
qed

definition columnar_key :: "plan \<Rightarrow> join_node \<Rightarrow> data_type res" where
  "columnar_key plan join =
     rbind (if jn_build_left join
            then rbind (at (pl_nodes plan) (jn_left join)) (\<lambda>n. at (pn_output_attrs n) (jn_left_attr join))
            else rbind (at (pl_nodes plan) (jn_right join)) (\<lambda>n. at (pn_output_attrs n) (jn_right_attr join))) (\<lambda>key. Inr (snd key))"

lemma join_columnbuffer_hash_key:
  "join_columnbuffer_hash std_hash plan join attrs left right = rbind (columnar_key plan join) (\<lambda>ty.
     case ty of INT32 \<Rightarrow> join_numeric join attrs (jn_build_left join) (left, right, fresh_results attrs)
     | VARCHAR \<Rightarrow> join_varchar std_hash join attrs (jn_build_left join) (left, right, fresh_results attrs)
     | _ \<Rightarrow> Inr (left, right, fresh_results attrs))"
  unfolding join_columnbuffer_hash_def columnar_key_def rbind_assoc rbind_simps Let_def ..

text \<open>Which pairs of rows a join node joins, by the type of its key; none for INT64 and FP64.\<close>

definition node_pairs :: "data_type \<Rightarrow> join_node \<Rightarrow> column_buffer \<Rightarrow> column_buffer \<Rightarrow> (nat \<times> nat) list" where
  "node_pairs ty join left right =
     (case ty of
        INT32 \<Rightarrow> columnar_pairs as_i32 (jn_build_left join) left right (jn_left_attr join) (jn_right_attr join)
      | VARCHAR \<Rightarrow> columnar_pairs as_ref (jn_build_left join) left right (jn_left_attr join) (jn_right_attr join)
      | _ \<Rightarrow> [])"

lemma join_columnbuffer_hash_correct:
  assumes ok: "join_inputs_ok left right (jn_left_attr join) (jn_right_attr join) attrs"
    and key: "columnar_key plan join = Inr ty"
  shows "\<exists>left' right' out. join_columnbuffer_hash std_hash plan join attrs left right = Inr (left', right', out) \<and>
    same_buffer left left' \<and> same_buffer right right' \<and> buffer_wf out \<and> cb_types out = map snd attrs \<and>
    buffer_rows out = map (join_row left right attrs) (node_pairs ty join left right)"
proof -
  have attrs: "attrs_in (num_cols left) (num_cols right) attrs" using ok by (simp add: join_inputs_ok_def)
  have "\<exists>bufs. join_columnbuffer_hash std_hash plan join attrs left right = Inr bufs \<and>
      emit_inv left right attrs (node_pairs ty join left right) bufs"
  proof -
    have none: "emit_inv left right attrs [] (left, right, fresh_results attrs)"
      using column_new_wf[of 1024]
      by (simp add: emit_inv_def same_buffer_def fresh_results_def buffer_new_def emitted_def list.rel_refl column_new_def)
    show ?thesis
      unfolding join_columnbuffer_hash_key key rbind_simps node_pairs_def join_numeric_def join_varchar_def
      using none join_keys_correct[OF ok, of compute_hash_u32 as_i32 "jn_build_left join"]
        join_keys_correct[OF ok, of std_hash as_ref "jn_build_left join"]
      by (cases ty) simp_all
  qed
  then obtain left' right' out where run: "join_columnbuffer_hash std_hash plan join attrs left right = Inr (left', right', out)"
    "emit_inv left right attrs (node_pairs ty join left right) (left', right', out)" by auto
  have "\<forall>p \<in> set (node_pairs ty join left right). fst p < cb_num_rows left \<and> snd p < cb_num_rows right"
    using columnar_pairs_range[OF ok, where key_of = as_i32] columnar_pairs_range[OF ok, where key_of = as_ref]
    by (cases ty) (auto simp: node_pairs_def)
  with emit_inv_rows[OF run(2) attrs] run show ?thesis by (auto simp: emit_inv_def)
qed

text \<open>The same without reference to the join: which keys match, and which pair is emitted first.\<close>

definition same_key :: "data_type \<Rightarrow> value_t \<Rightarrow> value_t \<Rightarrow> bool" where
  "same_key ty v w \<longleftrightarrow> \<not> is_null v \<and> \<not> is_null w \<and>
     (case ty of INT32 \<Rightarrow> as_i32 v = as_i32 w | VARCHAR \<Rightarrow> as_ref v = as_ref w | _ \<Rightarrow> False)"

definition emitted_before :: "bool \<Rightarrow> nat \<times> nat \<Rightarrow> nat \<times> nat \<Rightarrow> bool" where
  "emitted_before build_left p q \<longleftrightarrow>
     (let probe = (if build_left then snd else fst); build = (if build_left then fst else snd)
      in probe p < probe q \<or> probe p = probe q \<and> build p < build q)"

lemma columnar_pairs_set:
  fixes key_of :: "value_t \<Rightarrow> 'k"
  assumes "join_inputs_ok left right lc rc attrs"
  shows "set (columnar_pairs key_of bl left right lc rc) = {(i, j). i < cb_num_rows left \<and> j < cb_num_rows right \<and>
    \<not> is_null (ct_values (cb_columns left ! lc) ! i) \<and> \<not> is_null (ct_values (cb_columns right ! rc) ! j) \<and>
    key_of (ct_values (cb_columns left ! lc) ! i) = key_of (ct_values (cb_columns right ! rc) ! j)}"
proof -
  have len: "length (ct_values (cb_columns left ! lc)) = cb_num_rows left" "length (ct_values (cb_columns right ! rc)) = cb_num_rows right"
    using assms by (auto simp: join_inputs_ok_def buffer_wf_def columns_wf_def num_cols_def)
  have keys: "set (join_pairs True bks pks) = {(i, j). i < length bks \<and> j < length pks \<and> pks ! j \<noteq> None \<and> bks ! i = pks ! j}"
    "set (join_pairs False bks pks) = {(j, i). i < length bks \<and> j < length pks \<and> pks ! j \<noteq> None \<and> bks ! i = pks ! j}"
    for bks pks :: "'k option list"
    by (auto 4 4 simp: join_pairs_def row_pairs_def rows_with_key_def split: option.splits intro: sym)
  show ?thesis
    by (auto simp: columnar_pairs_def Let_def keys value_keys_def len split: if_splits)
qed

lemma columnar_pairs_sorted:
  fixes key_of :: "value_t \<Rightarrow> 'k"
  shows "sorted_wrt (emitted_before bl) (columnar_pairs key_of bl left right lc rc)"
proof -
  have row: "sorted_wrt (emitted_before b) (row_pairs b bks pks j)" for b j and bks pks :: "'k option list"
    by (cases b; cases "pks ! j")
      (auto simp: row_pairs_def rows_with_key_def sorted_wrt_map emitted_before_def intro!: sorted_wrt_filter sorted_wrt_upt)
  have probe: "(if b then snd else fst) p = j" if "p \<in> set (row_pairs b bks pks j)" for b p j and bks pks :: "'k option list"
    using that by (auto simp: row_pairs_def split: option.splits)
  have "sorted_wrt (emitted_before b) (concat (map (row_pairs b bks pks) [0..<n]))" for b n and bks pks :: "'k option list"
  proof (induction n)
    case (Suc n)
    have "emitted_before b p q" if pq: "p \<in> set (concat (map (row_pairs b bks pks) [0..<n]))" "q \<in> set (row_pairs b bks pks n)" for p q
    proof -
      obtain j where "j < n" "p \<in> set (row_pairs b bks pks j)" using pq(1) by auto
      then show ?thesis using probe[of p b bks pks j] probe[OF pq(2)] by (simp add: emitted_before_def Let_def)
    qed
    with Suc row show ?case by (simp add: sorted_wrt_append)
  qed simp
  then show ?thesis unfolding columnar_pairs_def join_pairs_def Let_def by (cases bl) simp_all
qed

lemma node_pairs_sorted: "sorted_wrt (emitted_before (jn_build_left join)) (node_pairs ty join left right)"
  by (cases ty) (simp_all add: node_pairs_def columnar_pairs_sorted)

lemma node_pairs_set:
  assumes "join_inputs_ok left right (jn_left_attr join) (jn_right_attr join) attrs"
  shows "set (node_pairs ty join left right) = {(i, j). i < cb_num_rows left \<and> j < cb_num_rows right \<and>
    same_key ty (ct_values (cb_columns left ! jn_left_attr join) ! i) (ct_values (cb_columns right ! jn_right_attr join) ! j)}"
  unfolding node_pairs_def same_key_def by (cases ty) (simp_all add: columnar_pairs_set[OF assms])

text \<open>Zero-copy columns in which the key -1, which reads as NULL, does not occur.\<close>

definition no_null_keys :: "column_t \<Rightarrow> bool" where
  "no_null_keys c \<longleftrightarrow> \<not> can_build_from_pages c \<or> list_all (\<lambda>v. \<not> is_null v) (ct_values c)"

lemma value_keys_row_keys: "no_null_keys c \<Longrightarrow> value_keys as_i32 c = row_keys c"
  by (auto simp: no_null_keys_def value_keys_def row_keys_def list_all_iff)

section \<open>Properties\<close>

text \<open>C36. The two hash joins agree: on INT32 keys, if the key -1 does not occur in a zero-copy key column
  (the sequential join takes its payload for NULL, the parallel one does not), the sequential
  \<open>join_columnbuffer_hash\<close> and the parallel \<open>run_int32\<close>, with any number of threads in any complete
  interleaving, return the same bag of rows under the same types.\<close>

theorem columnar_join_agrees:
  assumes "join_inputs_ok left right (jn_left_attr join) (jn_right_attr join) attrs"
    and "threads_ok env en (cb_num_rows (if jn_build_left join then right else left))"
    and "columnar_key plan join = Inr INT32"
    and "no_null_keys (cb_columns left ! jn_left_attr join)" and "no_null_keys (cb_columns right ! jn_right_attr join)"
  shows "\<exists>left' right' out res en'.
    join_columnbuffer_hash std_hash plan join attrs left right = Inr (left', right', out) \<and>
    run_int32 unchained_wrapper env (jn_build_left join) left right (fresh_results attrs)
      (jn_left_attr join) (jn_right_attr join) attrs en = Inr (res, en') \<and>
    cb_types out = cb_types res \<and> mset (buffer_rows out) = mset (buffer_rows res)"
proof -
  let ?ks = "if jn_build_left join then key_column left (jn_left_attr join) else key_column right (jn_right_attr join)"
  have wf: "buffer_wf left" "buffer_wf right" "jn_left_attr join < num_cols left" "jn_right_attr join < num_cols right"
    "cb_num_rows left < 2 ^ 32" "cb_num_rows right < 2 ^ 32"
    using assms(1) by (auto simp: join_inputs_ok_def)
  have "length (key_entries ?ks) < 2 ^ 32"
    using length_key_entries[of ?ks] wf by (auto simp: length_key_column split: if_splits)
  then obtain res en' where res: "run_int32 unchained_wrapper env (jn_build_left join) left right (fresh_results attrs)
      (jn_left_attr join) (jn_right_attr join) attrs en = Inr (res, en')" "cb_types res = map snd attrs"
    "join_result env (jn_build_left join) left right (jn_left_attr join) (jn_right_attr join) attrs res"
    using unchained.run_int32_correct[OF assms(1,2), of "fresh_results attrs"] by (auto simp: fresh_results_def buffer_new_def)
  obtain left' right' out where out: "join_columnbuffer_hash std_hash plan join attrs left right = Inr (left', right', out)"
    "cb_types out = map snd attrs" "buffer_rows out = map (join_row left right attrs) (node_pairs INT32 join left right)"
    using join_columnbuffer_hash_correct[OF assms(1,3)] by blast
  have "node_pairs INT32 join left right =
      buffer_join_pairs (jn_build_left join) left right (jn_left_attr join) (jn_right_attr join)"
    using assms(4,5) by (simp add: node_pairs_def columnar_pairs_def buffer_join_pairs_def key_column_def value_keys_row_keys)
  then show ?thesis using res out by (auto simp: join_result_def Let_def)
qed

definition example_join :: "bool \<Rightarrow> join_node" where
  "example_join bl = \<lparr>jn_build_left = bl, jn_left = 0, jn_right = 1, jn_left_attr = 0, jn_right_attr = 0\<rparr>"

definition keys_plan :: "data_type \<Rightarrow> plan" where
  "keys_plan ty =
     \<lparr>pl_nodes = replicate 2 \<lparr>pn_data = Scan_node \<lparr>sn_base_table_id = 0\<rparr>, pn_output_attrs = [(0, ty)]\<rparr>,
      pl_inputs = [], pl_root = 0\<rparr>"

theorem columnar_join_agrees_witness:
  "\<exists>left' right' out res en'.
    join_columnbuffer_hash id (keys_plan INT32) (example_join True) example_attrs example_left example_right = Inr (left', right', out) \<and>
    run_int32 unchained_wrapper example_env True example_left example_right (fresh_results example_attrs)
      0 0 example_attrs example_engine = Inr (res, en') \<and>
    cb_types out = cb_types res \<and> mset (buffer_rows out) = mset (buffer_rows res)"
proof -
  have "columnar_key (keys_plan INT32) (example_join True) = Inr INT32"
    by (simp add: columnar_key_def keys_plan_def example_join_def numeral_2_eq_2)
  moreover have "no_null_keys (cb_columns example_left ! 0)" "no_null_keys (cb_columns example_right ! 0)"
    by (simp_all add: no_null_keys_def can_build_from_pages_def example_left_def example_right_def example_column_def column_new_def)
  moreover have "cb_num_rows example_right = 3" by (simp add: example_right_def)
  ultimately show ?thesis
    using columnar_join_agrees[of example_left example_right "example_join True" example_attrs example_env example_engine "keys_plan INT32" id]
      example_inputs example_threads
    by (simp add: example_join_def)
qed

text \<open>C35. The sequential join in general: on well-formed inputs it succeeds for every build side and every
  declared type of the build key, leaves both inputs as they were up to their page caches, and its rows
  stand for a list of pairs of rows, in the order of the probe side and for one probe row in that of the
  build side, without repetition. For INT32 the pairs are those whose keys are not NULL and hold the same
  integer; for VARCHAR those whose keys are not NULL and are the same packed reference (equal strings
  stored at two places do not join); for INT64 and FP64 there are none: the \<open>switch\<close> falls through to its
  default, and the join silently returns no row, whatever the keys.\<close>

theorem columnar_join_rows:
  assumes "join_inputs_ok left right (jn_left_attr join) (jn_right_attr join) attrs"
    and "columnar_key plan join = Inr ty"
  shows "\<exists>left' right' out ps. join_columnbuffer_hash std_hash plan join attrs left right = Inr (left', right', out) \<and>
    same_buffer left left' \<and> same_buffer right right' \<and> buffer_wf out \<and> cb_types out = map snd attrs \<and>
    buffer_rows out = map (join_row left right attrs) ps \<and>
    sorted_wrt (emitted_before (jn_build_left join)) ps \<and>
    set ps = {(i, j). i < cb_num_rows left \<and> j < cb_num_rows right \<and>
      same_key ty (ct_values (cb_columns left ! jn_left_attr join) ! i) (ct_values (cb_columns right ! jn_right_attr join) ! j)}"
  using join_columnbuffer_hash_correct[OF assms, of std_hash] node_pairs_sorted[of join ty left right] node_pairs_set[OF assms(1), of ty] by blast

text \<open>With integer keys the example has three pairs, in the order of the probe side; declared INT64, the same
  keys join nothing.\<close>

theorem columnar_join_rows_witness:
  "(\<exists>left' right' out ps.
     join_columnbuffer_hash id (keys_plan INT32) (example_join False) example_attrs example_left example_right = Inr (left', right', out) \<and>
     buffer_rows out = map (join_row example_left example_right example_attrs) ps \<and>
     set ps = {(0, 1), (2, 0), (2, 2)} \<and> sorted_wrt (emitted_before False) ps) \<and>
   (\<exists>left' right' out.
     join_columnbuffer_hash id (keys_plan INT64) (example_join False) example_attrs example_left example_right = Inr (left', right', out) \<and>
     buffer_rows out = [])"
proof -
  have key: "columnar_key (keys_plan ty) (example_join False) = Inr ty" for ty
    by (simp add: columnar_key_def keys_plan_def example_join_def numeral_2_eq_2)
  have attr: "jn_left_attr (example_join False) = 0" "jn_right_attr (example_join False) = 0" "jn_build_left (example_join False) = False"
    by (simp_all add: example_join_def)
  have rows: "cb_num_rows example_left = 3" "cb_num_rows example_right = 3" by (simp_all add: example_left_def example_right_def)
  have vals: "ct_values (cb_columns example_left ! 0) = [make_i32 7, make_null, make_i32 9]"
    "ct_values (cb_columns example_right ! 0) = [make_i32 9, make_i32 7, make_i32 9]"
    using example_column_wf by (simp_all add: example_left_def example_right_def)
  have "{(i, j). i < 3 \<and> j < 3 \<and> same_key INT32 ([make_i32 7, make_null, make_i32 9] ! i) ([make_i32 9, make_i32 7, make_i32 9] ! j)} =
      {(0, 1), (2, 0), (2, 2)}"
    by (auto simp: same_key_def less_Suc_eq numeral_3_eq_3 is_null_make_i32)
  note int = columnar_join_rows[OF _ key[of INT32], unfolded attr, OF example_inputs, of id, unfolded rows vals this]
  have "same_key INT64 v w = False" for v w by (simp add: same_key_def)
  then have "{(i, j). i < 3 \<and> j < 3 \<and> same_key INT64 ([make_i32 7, make_null, make_i32 9] ! i) ([make_i32 9, make_i32 7, make_i32 9] ! j)} = {}"
    by simp
  note none = columnar_join_rows[OF _ key[of INT64], unfolded attr, OF example_inputs, of id, unfolded rows vals this set_empty]
  show ?thesis using int none by fastforce
qed

end
