(* ===== verification/KeyGroups.thy ===== *)
theory KeyGroups
  imports HashTables
begin

text \<open>
  What the Robin Hood, cuckoo and hopscotch tables share: their builds group the entries by key with
  a \<open>std::map\<close> (ordered by signed key), store the row ids of a key next to each other and describe
  each group by an index record (\<open>include/robinhood.h\<close>, \<open>include/cuckoo.h\<close>, \<open>include/hopscotch.h\<close>);
  their wrappers (\<open>include/robinhood_wrapper.h\<close> and its two siblings) collect the entries of
  zero-copy pages and call the ordinary build. The lemmas show that the record of a key delimits
  exactly its entries.
\<close>

section \<open>Operations\<close>

type_synonym index_info = "u32 key_index_info"

definition empty_info :: index_info where
  "empty_info = \<lparr>kii_key = 0, kii_start_index = 0, kii_count = 0, kii_is_valid = False\<rparr>"

text \<open>\<open>grouped_entries[key].push_back(row)\<close> on the map as a list in the order of its keys.\<close>

fun map_push :: "u32 \<Rightarrow> nat \<Rightarrow> (u32 \<times> nat list) list \<Rightarrow> (u32 \<times> nat list) list" where
  "map_push k row [] = [(k, [row])]"
| "map_push k row ((k', rows) # m) =
     (if k = k' then (k', rows @ [row]) # m
      else if sint k < sint k' then (k, [row]) # (k', rows) # m
      else (k', rows) # map_push k row m)"

definition group_entries :: "(u32 \<times> nat) list \<Rightarrow> (u32 \<times> nat list) list" where
  "group_entries entries = fold (\<lambda>(k, row). map_push k row) entries []"

definition store_group ::
    "u32 \<times> nat list \<Rightarrow> nat \<times> index_info list \<times> u32 hash_entry list \<Rightarrow> nat \<times> index_info list \<times> u32 hash_entry list" where
  "store_group = (\<lambda>(key, row_ids) (storage_index, infos, storage).
     (storage_index + length row_ids,
      infos @ [\<lparr>kii_key = key, kii_start_index = storage_index, kii_count = length row_ids, kii_is_valid = True\<rparr>],
      storage @ map (\<lambda>row_id. \<lparr>he_key = key, he_row_id = of_nat row_id\<rparr>) row_ids))"

definition store_groups :: "(u32 \<times> nat list) list \<Rightarrow> u32 hash_entry list \<Rightarrow> index_info list \<times> u32 hash_entry list" where
  "store_groups groups storage =
     (let (storage_index, infos, storage) = fold store_group groups (0, [], storage) in (infos, storage))"

text \<open>\<open>&_storage[start]\<close> with \<open>count\<close> entries behind it.\<close>

definition info_entries :: "u32 hash_entry list \<Rightarrow> index_info \<Rightarrow> u32 hash_entry list" where
  "info_entries storage info = take (kii_count info) (drop (kii_start_index info) storage)"

text \<open>The adapters of the wrappers.\<close>

definition entry_pairs :: "u32 hash_entry list \<Rightarrow> (u32 \<times> nat) list" where
  "entry_pairs entries = map (\<lambda>e. (he_key e, unat (he_row_id e))) entries"

definition wrapper_build_from_entries ::
    "((u32 \<times> nat) list \<Rightarrow> 't \<Rightarrow> 't res) \<Rightarrow> u32 hash_entry list \<Rightarrow> 't \<Rightarrow> 't res" where
  "wrapper_build_from_entries backend_build entries t = backend_build (entry_pairs entries) t"

definition wrapper_build_from_zero_copy ::
    "((u32 \<times> nat) list \<Rightarrow> 't \<Rightarrow> 't res) \<Rightarrow> column option \<Rightarrow> nat list \<Rightarrow> nat \<Rightarrow> 't \<Rightarrow> ('t \<times> bool) res" where
  "wrapper_build_from_zero_copy backend_build src_column page_offsets num_rows t =
     (case src_column of
        None \<Rightarrow> Inr (t, False)
      | Some src \<Rightarrow>
          if num_rows = 0 \<or> length page_offsets < 2 then Inr (t, False)
          else rbind (zero_copy_entries src page_offsets) (\<lambda>entries.
               rbind (wrapper_build_from_entries backend_build entries t) (\<lambda>t. Inr (t, True))))"

section \<open>Grouping\<close>

text \<open>The map holds the rows of every key in the order of the entries.\<close>

definition rows_of :: "u32 \<Rightarrow> (u32 \<times> nat) list \<Rightarrow> nat list" where
  "rows_of k entries = map snd (filter (\<lambda>e. fst e = k) entries)"

definition groups_ok :: "(u32 \<times> nat) list \<Rightarrow> (u32 \<times> nat list) list \<Rightarrow> bool" where
  "groups_ok entries m \<longleftrightarrow>
     sorted_wrt (\<lambda>a b. sint a < sint b) (map fst m) \<and>
     (\<forall>k. map_of m k = (if rows_of k entries = [] then None else Some (rows_of k entries)))"

lemma map_push_keys: "fst ` set (map_push k row m) = insert k (fst ` set m)"
  by (induction k row m rule: map_push.induct) auto

lemma map_push_sorted:
  "sorted_wrt (\<lambda>a b. sint a < sint b) (map fst m) \<Longrightarrow> sorted_wrt (\<lambda>a b. sint a < sint b) (map fst (map_push k row m))"
proof (induction k row m rule: map_push.induct)
  case (2 k row k' rows m)
  have "sint k' < sint k" if "k \<noteq> k'" "\<not> sint k < sint k'"
    using that sint_eq_iff[of k k'] by linarith
  moreover have "sint k' < sint a" if "(a, b) \<in> set m" for a b
    using 2(2) that by auto
  ultimately show ?case
    using 2 map_push_keys[of k row m] by (auto intro: order_less_trans)
qed simp

lemma map_of_map_push:
  assumes "sorted_wrt (\<lambda>a b. sint a < sint b) (map fst m)"
  shows "map_of (map_push k row m) j =
    (if j = k then Some ((case map_of m k of None \<Rightarrow> [] | Some rows \<Rightarrow> rows) @ [row]) else map_of m j)"
  using assms
proof (induction k row m rule: map_push.induct)
  case (2 k row k' rows m)
  have "map_of m k = None" if "sint k < sint k'"
  proof -
    have "k \<notin> fst ` set m" using 2(2) that by fastforce
    then show ?thesis by (simp add: map_of_eq_None_iff)
  qed
  with 2 show ?case by (auto split: option.split)
qed simp

lemma groups_ok_group: "groups_ok entries (group_entries entries)"
proof (induction entries rule: rev_induct)
  case Nil
  then show ?case by (simp add: groups_ok_def group_entries_def rows_of_def)
next
  case (snoc e entries)
  obtain k row where e: "e = (k, row)" by (cases e)
  have eq: "group_entries (entries @ [e]) = map_push k row (group_entries entries)"
    by (simp add: group_entries_def e)
  show ?case
    unfolding groups_ok_def eq
  proof (intro conjI allI)
    show "sorted_wrt (\<lambda>a b. sint a < sint b) (map fst (map_push k row (group_entries entries)))"
      using snoc by (intro map_push_sorted) (simp add: groups_ok_def)
    fix j
    show "map_of (map_push k row (group_entries entries)) j =
        (if rows_of j (entries @ [e]) = [] then None else Some (rows_of j (entries @ [e])))"
      using snoc by (subst map_of_map_push) (auto simp: groups_ok_def rows_of_def e)
  qed
qed

lemma groups_distinct:
  assumes "groups_ok entries m"
  shows "distinct (map fst m)"
  using assms unfolding groups_ok_def by (auto simp: sorted_wrt_iff_nth_less distinct_conv_nth)
    (metis length_map linorder_neqE_nat nth_map order_less_irrefl)

section \<open>Index records\<close>

definition infos_ok :: "u32 hash_entry list \<Rightarrow> index_info list \<Rightarrow> u32 hash_entry list \<Rightarrow> bool" where
  "infos_ok entries infos storage \<longleftrightarrow>
     distinct (map kii_key infos) \<and>
     (\<forall>i \<in> set infos. kii_is_valid i \<and> info_entries storage i = with_key (kii_key i) entries) \<and>
     (\<forall>k. k \<notin> kii_key ` set infos \<longrightarrow> with_key k entries = []) \<and>
     length infos = card (he_key ` set entries)"

lemma fold_store_group:
  fixes start :: nat
  assumes "length storage = start"
  shows "\<exists>infos'. fold store_group groups (start, infos, storage) =
      (start + sum_list (map (length \<circ> snd) groups), infos @ infos',
       storage @ concat (map (\<lambda>(k, rows). map (\<lambda>r. \<lparr>he_key = k, he_row_id = of_nat r\<rparr>) rows) groups)) \<and>
    map kii_key infos' = map fst groups \<and>
    (\<forall>i \<in> set infos'. kii_is_valid i \<and> (\<exists>rows. (kii_key i, rows) \<in> set groups \<and>
       info_entries (storage @ concat (map (\<lambda>(k, rows). map (\<lambda>r. \<lparr>he_key = k, he_row_id = of_nat r\<rparr>) rows) groups)) i =
         map (\<lambda>r. \<lparr>he_key = kii_key i, he_row_id = of_nat r\<rparr>) rows))"
  using assms
proof (induction groups arbitrary: start infos storage)
  case (Cons g groups)
  obtain k rows where g: "g = (k, rows)" by (cases g)
  let ?info = "\<lparr>kii_key = k, kii_start_index = start, kii_count = length rows, kii_is_valid = True\<rparr>"
  let ?new = "map (\<lambda>r. \<lparr>he_key = k, he_row_id = of_nat r\<rparr>) rows :: u32 hash_entry list"
  let ?rest = "concat (map (\<lambda>(k, rows). map (\<lambda>r. \<lparr>he_key = k, he_row_id = of_nat r\<rparr>) rows) groups) :: u32 hash_entry list"
  have len: "length (storage @ ?new) = start + length rows" using Cons.prems by simp
  obtain infos' where IH:
    "fold store_group groups (start + length rows, infos @ [?info], storage @ ?new) =
      (start + length rows + sum_list (map (length \<circ> snd) groups), (infos @ [?info]) @ infos', (storage @ ?new) @ ?rest)"
    "map kii_key infos' = map fst groups"
    "\<forall>i \<in> set infos'. kii_is_valid i \<and> (\<exists>rows. (kii_key i, rows) \<in> set groups \<and>
       info_entries ((storage @ ?new) @ ?rest) i = map (\<lambda>r. \<lparr>he_key = kii_key i, he_row_id = of_nat r\<rparr>) rows)"
    using Cons.IH[OF len, of "infos @ [?info]"] by blast
  have "info_entries (storage @ ?new @ ?rest) ?info = ?new"
    using Cons.prems by (simp add: info_entries_def)
  with IH show ?case
    by (intro exI[of _ "?info # infos'"]) (auto simp: g store_group_def comp_def)
qed simp

lemma rows_of_entry_pairs:
  "map (\<lambda>r. \<lparr>he_key = k, he_row_id = of_nat r\<rparr>) (rows_of k (entry_pairs entries)) = with_key k entries"
  by (induction entries) (auto simp: rows_of_def entry_pairs_def)

text \<open>From an empty storage, the records describe the entries.\<close>

lemma store_groups_ok:
  assumes "store_groups (group_entries (entry_pairs entries)) [] = (infos, storage)"
  shows "infos_ok entries infos storage"
proof -
  let ?m = "group_entries (entry_pairs entries)"
  note ok = groups_ok_group[of "entry_pairs entries"]
  obtain infos' where f: "fold store_group ?m (0, [], []) = (sum_list (map (length \<circ> snd) ?m), infos', storage)"
    "map kii_key infos' = map fst ?m"
    "\<forall>i \<in> set infos'. kii_is_valid i \<and> (\<exists>rows. (kii_key i, rows) \<in> set ?m \<and>
       info_entries storage i = map (\<lambda>r. \<lparr>he_key = kii_key i, he_row_id = of_nat r\<rparr>) rows)" "infos' = infos"
    using fold_store_group[of "[]" 0 ?m "[]"] assms by (auto simp: store_groups_def)
  have rows: "rows = rows_of k (entry_pairs entries) \<and> rows \<noteq> []" if "(k, rows) \<in> set ?m" for k rows
    using map_of_is_SomeI[OF groups_distinct[OF ok] that] ok by (auto simp: groups_ok_def split: if_splits)
  have keys: "kii_key ` set infos = fst ` set ?m"
    using arg_cong[OF f(2), of set] f(4) by simp
  have "with_key k entries = []" if "k \<notin> kii_key ` set infos" for k
  proof -
    have "map_of ?m k = None" using that keys by (simp add: map_of_eq_None_iff)
    then have "rows_of k (entry_pairs entries) = []" using ok by (auto simp: groups_ok_def split: if_splits)
    then show ?thesis using rows_of_entry_pairs[of k entries] by simp
  qed
  moreover have "length infos = card (he_key ` set entries)"
  proof -
    have "kii_key ` set infos = he_key ` set entries"
    proof (intro equalityI subsetI)
      fix k assume "k \<in> kii_key ` set infos"
      then obtain rows where "(k, rows) \<in> set ?m" using keys by auto
      then have "with_key k entries \<noteq> []" using rows[of k rows] rows_of_entry_pairs[of k entries] by auto
      then show "k \<in> he_key ` set entries" by (auto simp: filter_empty_conv)
    next
      fix k assume "k \<in> he_key ` set entries"
      then have "with_key k entries \<noteq> []" by (auto simp: filter_empty_conv)
      then show "k \<in> kii_key ` set infos" using calculation by blast
    qed
    moreover have "distinct (map kii_key infos)" using groups_distinct[OF ok] f(2,4) by simp
    ultimately show ?thesis using distinct_card[of "map kii_key infos"] by simp
  qed
  moreover have "kii_is_valid i \<and> info_entries storage i = with_key (kii_key i) entries" if i: "i \<in> set infos" for i
  proof -
    obtain rows where r: "kii_is_valid i" "(kii_key i, rows) \<in> set ?m"
      "info_entries storage i = map (\<lambda>r. \<lparr>he_key = kii_key i, he_row_id = of_nat r\<rparr>) rows"
      using f(3,4) i by blast
    then show ?thesis using rows[OF r(2)] rows_of_entry_pairs[of "kii_key i" entries] by simp
  qed
  moreover have "distinct (map kii_key infos)" using groups_distinct[OF ok] f(2,4) by simp
  ultimately show ?thesis unfolding infos_ok_def by blast
qed

lemma infos_ok_find:
  assumes "infos_ok entries infos storage" "i \<in> set infos" "kii_key i = k"
  shows "info_entries storage i = with_key k entries"
  using assms by (auto simp: infos_ok_def)

lemma infos_ok_unique:
  "infos_ok entries infos storage \<Longrightarrow> i \<in> set infos \<Longrightarrow> j \<in> set infos \<Longrightarrow> kii_key i = kii_key j \<Longrightarrow> i = j"
  by (auto simp: infos_ok_def distinct_map dest: inj_onD)

text \<open>A search that ends at the record of the key, or nowhere when no record has the key.\<close>

lemma infos_ok_bucket:
  assumes "infos_ok entries infos storage"
    and "(\<exists>i \<in> set infos. kii_key i = k \<and> r = Some (info_entries storage i)) \<or>
      (r = None \<and> (\<forall>i \<in> set infos. kii_key i \<noteq> k))"
  shows "bucket r = with_key k entries"
  using assms(2)
proof
  assume "\<exists>i \<in> set infos. kii_key i = k \<and> r = Some (info_entries storage i)"
  then show ?thesis using infos_ok_find[OF assms(1)] by auto
next
  assume none: "r = None \<and> (\<forall>i \<in> set infos. kii_key i \<noteq> k)"
  then have "k \<notin> kii_key ` set infos" by auto
  then have "with_key k entries = []" using assms(1) unfolding infos_ok_def by blast
  then show ?thesis using none by simp
qed

section \<open>Tables of index records\<close>

definition valid_slots :: "index_info list \<Rightarrow> nat set" where
  "valid_slots T = {s. s < length T \<and> kii_is_valid (T ! s)}"

definition contents :: "index_info list \<Rightarrow> index_info set" where
  "contents T = (\<lambda>s. T ! s) ` valid_slots T"

lemma contents_update:
  assumes "c < length T" "kii_is_valid x"
  shows "kii_is_valid (T ! c) \<Longrightarrow> insert (T ! c) (contents (T[c := x])) = insert x (contents T)"
    "kii_is_valid (T ! c) \<Longrightarrow> valid_slots (T[c := x]) = valid_slots T"
    "\<not> kii_is_valid (T ! c) \<Longrightarrow> contents (T[c := x]) = insert x (contents T)"
    "\<not> kii_is_valid (T ! c) \<Longrightarrow> valid_slots (T[c := x]) = insert c (valid_slots T)"
  using assms by (auto simp: contents_def valid_slots_def nth_list_update image_iff)

lemma valid_slots_empty: "valid_slots (replicate cap empty_info) = {}"
  by (auto simp: valid_slots_def empty_info_def)

lemma contents_slot: "i \<in> contents T \<longleftrightarrow> (\<exists>s < length T. kii_is_valid (T ! s) \<and> i = T ! s)"
  by (auto simp: contents_def valid_slots_def)

lemma contents_nth: "s < length T \<Longrightarrow> kii_is_valid (T ! s) \<Longrightarrow> T ! s \<in> contents T"
  by (auto simp: contents_slot)

section \<open>Distances on the ring\<close>

text \<open>How far a slot lies behind the home slot, going round.\<close>

definition psl :: "nat \<Rightarrow> nat \<Rightarrow> nat \<Rightarrow> nat" where
  "psl capacity current_slot_idx home_slot_idx =
     (if home_slot_idx \<le> current_slot_idx then current_slot_idx - home_slot_idx
      else current_slot_idx + (capacity - home_slot_idx))"

lemma psl_add: "h < cap \<Longrightarrow> d < cap \<Longrightarrow> psl cap ((h + d) mod cap) h = d"
  by (cases "h + d < cap") (auto simp: psl_def mod_if)

lemma psl_less: "s < cap \<Longrightarrow> h < cap \<Longrightarrow> psl cap s h < cap"
  by (auto simp: psl_def)

lemma psl_slot: "s < cap \<Longrightarrow> h < cap \<Longrightarrow> (h + psl cap s h) mod cap = s"
  by (auto simp: psl_def mod_if)

lemma psl_self [simp]: "psl cap h h = 0"
  by (simp add: psl_def)

lemma psl_next:
  assumes "s < cap" "h < cap" "Suc (psl cap s h) < cap"
  shows "psl cap ((s + 1) mod cap) h = Suc (psl cap s h)"
proof -
  have "(s + 1) mod cap = (h + Suc (psl cap s h)) mod cap"
    using psl_slot[OF assms(1,2)] by (metis Suc_eq_plus1 add_Suc_right mod_Suc_eq)
  then show ?thesis using psl_add[OF assms(2,3)] by simp
qed

section \<open>The contract of a wrapped table\<close>

text \<open>
  A wrapper around a backend meets the contract of the join if the backend's build and probe fit
  together: the build from pages is the build from the entries of the pages, and it is only refused
  when there are none.
\<close>

lemma wrapper_join_table:
  assumes vt: "iht_build_from_entries vt = wrapper_build_from_entries backend_build"
      "iht_build_from_zero_copy_int32 vt = wrapper_build_from_zero_copy backend_build"
    and new: "ready (iht_new vt)" and reserve: "\<And>n t. ready t \<Longrightarrow> ready (iht_reserve vt n t)"
    and fails: "\<And>t es e. ready t \<Longrightarrow> backend_build (entry_pairs es) t = Inl e \<Longrightarrow> e \<in> failures"
    and probe: "\<And>t es t' k. ready t \<Longrightarrow> backend_build (entry_pairs es) t = Inr t' \<Longrightarrow>
      with_key k (bucket (iht_probe vt k t')) = with_key k es"
  shows "join_table vt ready (\<lambda>es. True) failures"
proof unfold_locales
  show "with_key k (bucket (iht_probe vt k t')) = with_key k es"
    if "ready t" "True" "iht_build_from_entries vt es t = Inr t'" for t es t' k
    using that probe by (simp add: vt wrapper_build_from_entries_def)
  show "e \<in> failures" if "ready t" "True" "iht_build_from_entries vt es t = Inl e" for t es e
    using that fails by (simp add: vt wrapper_build_from_entries_def)
  show "case iht_build_from_zero_copy_int32 vt (Some src) offs n t of
        Inl e \<Rightarrow> e \<in> failures
      | Inr (t', built) \<Rightarrow> if built then \<forall>k. with_key k (bucket (iht_probe vt k t')) = with_key k es else n = 0"
    if t: "ready t" and es: "zero_copy_entries src offs = Inr es" and "2 \<le> length offs" for t src offs es n
  proof (cases "n = 0")
    case True
    then show ?thesis by (simp add: vt wrapper_build_from_zero_copy_def)
  next
    case False
    then show ?thesis
      using es that(3) fails[OF t, of es] probe[OF t, of es]
      by (cases "backend_build (entry_pairs es) t")
        (simp_all add: vt wrapper_build_from_zero_copy_def wrapper_build_from_entries_def)
  qed
qed (use new reserve in simp_all)

end
