(* ===== verification/RobinHood.thy ===== *)
theory RobinHood
  imports KeyGroups
begin

text \<open>
  \<open>RobinHoodBackend\<close> (\<open>include/robinhood.h\<close>) and its wrapper: open addressing in which an element
  takes the slot of one that is closer to its home. The invariant \<open>rh_inv\<close> says that on the way from
  an element's home to its slot there is no free slot and no element closer to its own home; with it
  insertion into a table with a free slot succeeds, and the early exits of \<open>probe\<close> are right.

  \<open>ceil(n / 0.75)\<close> is computed in doubles; below 2^50 keys it is the integer \<open>ceil(4 n / 3)\<close>.
\<close>

section \<open>Operations\<close>

record robin_hood =
  rh_storage :: "u32 hash_entry list"
  rh_table :: "index_info list"
  rh_capacity :: nat

definition rh_new :: robin_hood where
  "rh_new = \<lparr>rh_storage = [], rh_table = [], rh_capacity = 0\<rparr>"

definition rh_hash :: "nat \<Rightarrow> u32 \<Rightarrow> nat" where
  "rh_hash capacity k = unat ((2166136261 XOR k) * 16777619) mod capacity"

definition rh_home :: "nat \<Rightarrow> u32 \<Rightarrow> nat" where
  "rh_home capacity k = (if capacity = 0 then 0 else rh_hash capacity k)"

text \<open>The loop of \<open>insert_index_info\<close>; \<open>None\<close> is the result \<open>false\<close>, after which the table is discarded.\<close>

function rh_insert_from :: "nat \<Rightarrow> nat \<Rightarrow> nat \<Rightarrow> index_info \<Rightarrow> index_info list \<Rightarrow> index_info list option" where
  "rh_insert_from capacity attempts current_slot current_info table =
     (if kii_is_valid (table ! current_slot)
      then if capacity \<le> attempts then None
           else let insert_psl = psl capacity current_slot (rh_home capacity (kii_key current_info));
                    displaced_psl = psl capacity current_slot (rh_home capacity (kii_key (table ! current_slot)));
                    (current_info, table) =
                      (if displaced_psl < insert_psl then (table ! current_slot, table[current_slot := current_info])
                       else (current_info, table))
                in rh_insert_from capacity (attempts + 1) ((current_slot + 1) mod capacity) current_info table
      else Some (table[current_slot := current_info\<lparr>kii_is_valid := True\<rparr>]))"
  by pat_completeness auto
termination
  by (relation "measure (\<lambda>(capacity, attempts, current_slot, current_info, table). capacity - attempts)") auto

declare rh_insert_from.simps [simp del]

definition rh_insert :: "nat \<Rightarrow> index_info \<Rightarrow> index_info list \<Rightarrow> index_info list option" where
  "rh_insert capacity info = rh_insert_from capacity 0 (rh_home capacity (kii_key info)) info"

fun rh_insert_all :: "nat \<Rightarrow> index_info list \<Rightarrow> index_info list \<Rightarrow> index_info list option" where
  "rh_insert_all capacity [] table = Some table"
| "rh_insert_all capacity (info # infos) table =
     (case rh_insert capacity info table of None \<Rightarrow> None | Some table \<Rightarrow> rh_insert_all capacity infos table)"

text \<open>The rehash loop, by the attempts left of \<open>MAX_REHASH_ATTEMPTS\<close>.\<close>

fun rh_build_attempts :: "nat \<Rightarrow> nat \<Rightarrow> index_info list \<Rightarrow> (nat \<times> index_info list) res" where
  "rh_build_attempts 0 capacity infos =
     Inl (Runtime_error ''Robin Hood Hashing failed to find a valid placement after multiple rehash attempts.'')"
| "rh_build_attempts (Suc attempts) capacity infos =
     (case rh_insert_all capacity infos (replicate capacity empty_info) of
        Some table \<Rightarrow> Inr (capacity, table)
      | None \<Rightarrow> rh_build_attempts attempts (capacity * 2 + 1) infos)"

definition rh_initial_capacity :: "nat \<Rightarrow> nat" where
  "rh_initial_capacity n = (let c = (4 * n + 2) div 3 in if c = 0 then 1 else c)"

definition rh_build :: "(u32 \<times> nat) list \<Rightarrow> robin_hood \<Rightarrow> robin_hood res" where
  "rh_build entries t =
     (if entries = [] then Inr \<lparr>rh_storage = [], rh_table = [], rh_capacity = 0\<rparr>
      else let (infos, storage) = store_groups (group_entries entries) (rh_storage t)
           in rbind (rh_build_attempts 5 (rh_initial_capacity (length infos)) infos) (\<lambda>(capacity, table).
                Inr \<lparr>rh_storage = storage, rh_table = table, rh_capacity = capacity\<rparr>))"

text \<open>The loop of \<open>probe\<close>: one lap from \<open>home\<close>, so at most \<open>capacity\<close> rounds.\<close>

fun rh_probe_from :: "nat \<Rightarrow> robin_hood \<Rightarrow> u32 \<Rightarrow> nat \<Rightarrow> nat \<Rightarrow> u32 hash_entry list option" where
  "rh_probe_from 0 t k home current_slot = None"
| "rh_probe_from (Suc rounds) t k home current_slot =
     (let info = rh_table t ! current_slot; capacity = rh_capacity t
      in if \<not> kii_is_valid info then None
         else if psl capacity current_slot (rh_home capacity (kii_key info)) < psl capacity current_slot home then None
         else if kii_key info = k then Some (info_entries (rh_storage t) info)
         else let current_slot = (current_slot + 1) mod capacity
              in if current_slot \<noteq> home then rh_probe_from rounds t k home current_slot else None)"

definition rh_probe :: "u32 \<Rightarrow> robin_hood \<Rightarrow> u32 hash_entry list option" where
  "rh_probe k t =
     (if rh_capacity t = 0 \<or> rh_table t = [] then None
      else let home = rh_home (rh_capacity t) k in rh_probe_from (rh_capacity t) t k home home)"

definition robin_hood_wrapper :: "(u32, robin_hood) ihash_table" where
  "robin_hood_wrapper =
     \<lparr>iht_new = rh_new, iht_reserve = (\<lambda>n t. t),
      iht_build_from_entries = wrapper_build_from_entries rh_build,
      iht_build_from_zero_copy_int32 = wrapper_build_from_zero_copy rh_build,
      iht_probe = rh_probe\<rparr>"

section \<open>The invariant\<close>

lemma rh_home_less [simp]: "0 < capacity \<Longrightarrow> rh_home capacity k < capacity"
  by (simp add: rh_home_def rh_hash_def)

abbreviation rh_dist :: "nat \<Rightarrow> index_info list \<Rightarrow> nat \<Rightarrow> nat" where
  "rh_dist cap T s \<equiv> psl cap s (rh_home cap (kii_key (T ! s)))"

text \<open>An element with key \<open>k\<close> may sit in, or pass on to, slot \<open>s\<close>.\<close>

definition reach :: "nat \<Rightarrow> index_info list \<Rightarrow> u32 \<Rightarrow> nat \<Rightarrow> bool" where
  "reach cap T k s \<longleftrightarrow>
     (\<forall>d < psl cap s (rh_home cap k). kii_is_valid (T ! ((rh_home cap k + d) mod cap)) \<and>
        d \<le> rh_dist cap T ((rh_home cap k + d) mod cap))"

definition rh_inv :: "nat \<Rightarrow> index_info list \<Rightarrow> bool" where
  "rh_inv cap T \<longleftrightarrow> length T = cap \<and> (\<forall>s < cap. kii_is_valid (T ! s) \<longrightarrow> reach cap T (kii_key (T ! s)) s)"

lemma reach_home: "reach cap T k (rh_home cap k)"
  by (simp add: reach_def)

text \<open>Replacing an element by one farther from home, or filling a free slot, keeps what is reachable.\<close>

lemma reach_update:
  assumes "reach cap T k s" "c < cap" "length T = cap"
    and "kii_is_valid (T ! c) \<Longrightarrow> rh_dist cap T c \<le> psl cap c (rh_home cap (kii_key x))" "kii_is_valid x"
  shows "reach cap (T[c := x]) k s"
  unfolding reach_def
proof (intro allI impI)
  fix d assume d: "d < psl cap s (rh_home cap k)"
  let ?s = "(rh_home cap k + d) mod cap"
  have "kii_is_valid (T ! ?s)" "d \<le> rh_dist cap T ?s" using assms(1) d by (auto simp: reach_def)
  then show "kii_is_valid (T[c := x] ! ?s) \<and> d \<le> rh_dist cap (T[c := x]) ?s"
    using assms(2-5) by (cases "?s = c") auto
qed

lemma rh_inv_update:
  assumes inv: "rh_inv cap T" and c: "c < cap" and x: "reach cap T (kii_key x) c" "kii_is_valid x"
    and far: "kii_is_valid (T ! c) \<Longrightarrow> rh_dist cap T c \<le> psl cap c (rh_home cap (kii_key x))"
  shows "rh_inv cap (T[c := x])"
proof -
  have "reach cap (T[c := x]) (kii_key (T[c := x] ! s)) s" if "s < cap" "kii_is_valid (T[c := x] ! s)" for s
  proof (cases "s = c")
    case True
    then show ?thesis using reach_update[OF x(1) c _ far x(2)] inv c by (auto simp: rh_inv_def)
  next
    case False
    then have "reach cap T (kii_key (T ! s)) s" using inv that by (auto simp: rh_inv_def)
    from reach_update[OF this c _ far x(2)] False inv show ?thesis by (auto simp: rh_inv_def)
  qed
  then show ?thesis using inv by (simp add: rh_inv_def)
qed

text \<open>Past an element that is at least as far from home, the way goes on.\<close>

lemma reach_next:
  assumes r: "reach cap T k c" and c: "c < cap" "kii_is_valid (T ! c)"
    and far: "psl cap c (rh_home cap k) \<le> rh_dist cap T c" and free: "e < cap" "\<not> kii_is_valid (T ! e)"
  shows "reach cap T k ((c + 1) mod cap)"
proof -
  let ?h = "rh_home cap k" and ?D = "psl cap c (rh_home cap k)"
  have h: "?h < cap" using c by simp
  have way: "kii_is_valid (T ! ((?h + d) mod cap)) \<and> d \<le> rh_dist cap T ((?h + d) mod cap)" if "d \<le> ?D" for d
    using r far c that psl_slot[OF c(1) h] by (cases "d = ?D") (auto simp: reach_def)
  have "psl cap e ?h < cap" by (rule psl_less[OF free(1) h])
  have "Suc ?D < cap"
  proof (rule ccontr)
    assume "\<not> Suc ?D < cap"
    then have "psl cap e ?h \<le> ?D" using \<open>psl cap e ?h < cap\<close> by simp
    then show False using way[of "psl cap e ?h"] psl_slot[OF free(1) h] free(2) by simp
  qed
  from psl_next[OF c(1) h this] show ?thesis using way by (simp add: reach_def)
qed

section \<open>Insertion\<close>

lemma rh_insert_from_correct:
  assumes "rh_inv cap T" "kii_is_valid cur" "c < cap" "reach cap T (kii_key cur) c"
    and "\<forall>i < attempts. kii_is_valid (T ! ((start + i) mod cap))" "c = (start + attempts) mod cap" "start < cap"
    and "\<exists>e < cap. \<not> kii_is_valid (T ! e)"
  shows "\<exists>T'. rh_insert_from cap attempts c cur T = Some T' \<and> rh_inv cap T' \<and>
    contents T' = insert cur (contents T) \<and> card (valid_slots T') = Suc (card (valid_slots T))"
  using assms
proof (induction cap attempts c cur T rule: rh_insert_from.induct)
  case (1 cap attempts c cur T)
  have len: "length T = cap" using "1.prems"(1) by (simp add: rh_inv_def)
  show ?case
  proof (cases "kii_is_valid (T ! c)")
    case False
    have upd: "cur\<lparr>kii_is_valid := True\<rparr> = cur" using "1.prems"(2) by (cases cur) simp
    have "rh_inv cap (T[c := cur])"
      using False by (intro rh_inv_update[OF "1.prems"(1,3,4,2)]) simp
    moreover have "c \<notin> valid_slots T" "finite (valid_slots T)" using False by (simp_all add: valid_slots_def)
    ultimately show ?thesis
      using False contents_update(3,4)[of c T cur] len "1.prems"(2,3)
      by (intro exI[of _ "T[c := cur]"]) (simp add: rh_insert_from.simps upd)
  next
    case True
    let ?D = "psl cap c (rh_home cap (kii_key cur))" and ?E = "rh_dist cap T c"
    obtain e where e: "e < cap" "\<not> kii_is_valid (T ! e)" using "1.prems"(8) by blast
    have att: "attempts < cap"
    proof (rule ccontr)
      assume "\<not> attempts < cap"
      then have "psl cap e start < attempts" using psl_less[OF e(1) "1.prems"(7)] by simp
      then show False using "1.prems"(5) psl_slot[OF e(1) "1.prems"(7)] e(2) by metis
    qed
    have c': "(c + 1) mod cap = (start + (attempts + 1)) mod cap" using "1.prems"(6) by (simp add: mod_Suc_eq)
    have vis: "\<forall>i < attempts + 1. kii_is_valid (T ! ((start + i) mod cap))"
      using "1.prems"(5,6) True by (auto simp: less_Suc_eq)
    have next_c: "(c + 1) mod cap < cap" using "1.prems"(3) by simp
    show ?thesis
    proof (cases "?E < ?D")
      case swap: True
      let ?T = "T[c := cur]" and ?y = "T ! c"
      have inv: "rh_inv cap ?T" using swap by (intro rh_inv_update[OF "1.prems"(1,3,4,2)]) simp
      have c: "c < length T" using "1.prems"(3) len by simp
      have slots: "valid_slots ?T = valid_slots T" by (rule contents_update(2)[OF c "1.prems"(2) True])
      have valid: "kii_is_valid (?T ! s) = kii_is_valid (T ! s)" if "s < cap" for s
        using True "1.prems"(2) c that by (cases "s = c") auto
      have "reach cap T (kii_key ?y) c" using "1.prems"(1,3) True by (simp add: rh_inv_def)
      then have "reach cap ?T (kii_key ?y) c" using swap by (intro reach_update) (simp_all add: len "1.prems"(2,3))
      moreover have "psl cap c (rh_home cap (kii_key ?y)) \<le> rh_dist cap ?T c" using swap c by simp
      ultimately have r: "reach cap ?T (kii_key ?y) ((c + 1) mod cap)"
        using reach_next[of cap ?T "kii_key ?y" c e] "1.prems"(2,3) c e valid by simp
      have vis': "\<forall>i < attempts + 1. kii_is_valid (?T ! ((start + i) mod cap))"
        using vis valid "1.prems"(3) by simp
      have free: "\<exists>e < cap. \<not> kii_is_valid (?T ! e)" using e valid by auto
      have "\<exists>T'. rh_insert_from cap (attempts + 1) ((c + 1) mod cap) ?y ?T = Some T' \<and> rh_inv cap T' \<and>
          contents T' = insert ?y (contents ?T) \<and> card (valid_slots T') = Suc (card (valid_slots ?T))"
        using "1.IH"[OF True _ refl refl, of "(?y, ?T)" ?y ?T] att swap inv True next_c r vis' c' "1.prems"(7) free by auto
      moreover have "rh_insert_from cap attempts c cur T = rh_insert_from cap (attempts + 1) ((c + 1) mod cap) ?y ?T"
        using True att swap by (subst rh_insert_from.simps) (simp add: Let_def)
      ultimately show ?thesis using contents_update(1)[OF c "1.prems"(2) True] slots by auto
    next
      case keep: False
      then have "?D \<le> ?E" by simp
      from reach_next[OF "1.prems"(4,3) True this e] have r: "reach cap T (kii_key cur) ((c + 1) mod cap)" .
      have "\<exists>T'. rh_insert_from cap (attempts + 1) ((c + 1) mod cap) cur T = Some T' \<and> rh_inv cap T' \<and>
          contents T' = insert cur (contents T) \<and> card (valid_slots T') = Suc (card (valid_slots T))"
        using "1.IH"[OF True _ refl refl, of "(cur, T)" cur T] att keep "1.prems"(1,2,7,8) next_c r vis c' by auto
      moreover have "rh_insert_from cap attempts c cur T = rh_insert_from cap (attempts + 1) ((c + 1) mod cap) cur T"
        using True att keep by (subst rh_insert_from.simps) (simp add: Let_def)
      ultimately show ?thesis by simp
    qed
  qed
qed


lemma rh_insert_correct:
  assumes "rh_inv cap T" "kii_is_valid info" "card (valid_slots T) < cap"
  shows "\<exists>T'. rh_insert cap info T = Some T' \<and> rh_inv cap T' \<and>
    contents T' = insert info (contents T) \<and> card (valid_slots T') = Suc (card (valid_slots T))"
proof -
  have len: "length T = cap" using assms(1) by (simp add: rh_inv_def)
  have "\<exists>e < cap. \<not> kii_is_valid (T ! e)"
  proof (rule ccontr)
    assume "\<not> ?thesis"
    then have "valid_slots T = {..<cap}" using len by (auto simp: valid_slots_def)
    then show False using assms(3) by simp
  qed
  then show ?thesis
    using assms reach_home unfolding rh_insert_def by (intro rh_insert_from_correct[where start = "rh_home cap (kii_key info)"]) auto
qed

text \<open>With a slot for every record, the insertion of all of them succeeds.\<close>

lemma rh_insert_all_correct:
  assumes "rh_inv cap T" "\<forall>i \<in> set infos. kii_is_valid i" "card (valid_slots T) + length infos \<le> cap"
  shows "\<exists>T'. rh_insert_all cap infos T = Some T' \<and> rh_inv cap T' \<and> contents T' = set infos \<union> contents T"
  using assms
proof (induction infos arbitrary: T)
  case (Cons i infos)
  obtain T' where T': "rh_insert cap i T = Some T'" "rh_inv cap T'" "contents T' = insert i (contents T)"
    "card (valid_slots T') = Suc (card (valid_slots T))"
    using rh_insert_correct[of cap T i] Cons.prems by auto
  from Cons.IH[of T'] T' Cons.prems show ?case by auto
qed simp

lemma rh_inv_empty: "rh_inv cap (replicate cap empty_info)"
  by (simp add: rh_inv_def empty_info_def)

lemma rh_initial_capacity: "n \<le> rh_initial_capacity n" "0 < rh_initial_capacity n"
  by (auto simp: rh_initial_capacity_def Let_def)

section \<open>The build\<close>

definition rh_holds :: "u32 hash_entry list \<Rightarrow> robin_hood \<Rightarrow> bool" where
  "rh_holds entries t \<longleftrightarrow>
     entries = [] \<and> rh_capacity t = 0 \<or>
     entries \<noteq> [] \<and>
     (\<exists>infos. infos_ok entries infos (rh_storage t) \<and> rh_capacity t = rh_initial_capacity (length infos) \<and>
        rh_inv (rh_capacity t) (rh_table t) \<and> contents (rh_table t) = set infos)"

text \<open>The first capacity has a slot for every key, so no attempt beyond the first is made.\<close>

lemma rh_build_correct:
  assumes "rh_storage t = []"
  shows "\<exists>t'. rh_build (entry_pairs entries) t = Inr t' \<and> rh_holds entries t'"
proof (cases "entries = []")
  case True
  then show ?thesis by (simp add: rh_build_def entry_pairs_def rh_holds_def)
next
  case False
  obtain infos storage where s: "store_groups (group_entries (entry_pairs entries)) [] = (infos, storage)"
    by (cases "store_groups (group_entries (entry_pairs entries)) []")
  note ok = store_groups_ok[OF s]
  let ?cap = "rh_initial_capacity (length infos)"
  have "\<forall>i \<in> set infos. kii_is_valid i" using ok by (simp add: infos_ok_def)
  then obtain T where T: "rh_insert_all ?cap infos (replicate ?cap empty_info) = Some T" "rh_inv ?cap T"
    "contents T = set infos"
    using rh_insert_all_correct[OF rh_inv_empty, of infos ?cap] rh_initial_capacity(1)
    by (auto simp: valid_slots_empty contents_def)
  have "rh_build_attempts 5 ?cap infos = Inr (?cap, T)"
    using T(1) by (simp add: eval_nat_numeral)
  moreover have "entry_pairs entries \<noteq> []" using False by (simp add: entry_pairs_def)
  ultimately have "rh_build (entry_pairs entries) t = Inr \<lparr>rh_storage = storage, rh_table = T, rh_capacity = ?cap\<rparr>"
    using s assms by (simp add: rh_build_def)
  then show ?thesis using ok T(2,3) False by (auto simp: rh_holds_def)
qed

lemma rh_holds_capacity:
  assumes "rh_holds entries t"
  shows "rh_capacity t = (4 * card (he_key ` set entries) + 2) div 3"
proof (cases "entries = []")
  case True
  then show ?thesis using assms by (simp add: rh_holds_def)
next
  case False
  then obtain infos where infos: "infos_ok entries infos (rh_storage t)" "rh_capacity t = rh_initial_capacity (length infos)"
    using assms by (auto simp: rh_holds_def)
  have "0 < card (he_key ` set entries)" using False by (simp add: card_gt_0_iff)
  then show ?thesis using infos by (simp add: infos_ok_def rh_initial_capacity_def Let_def)
qed

section \<open>The probe\<close>

text \<open>The rounds before distance \<open>d\<close> met elements with other keys; the rest of the lap decides.\<close>

lemma rh_probe_from_correct:
  assumes inv: "rh_inv (rh_capacity t) (rh_table t)" and home: "home = rh_home (rh_capacity t) k" "0 < rh_capacity t"
    and lap: "d + rounds = rh_capacity t" "slot = (home + d) mod rh_capacity t" "0 < rounds"
    and before: "\<forall>s < rh_capacity t. psl (rh_capacity t) s home < d \<longrightarrow> kii_is_valid (rh_table t ! s) \<longrightarrow> kii_key (rh_table t ! s) \<noteq> k"
  shows "(\<exists>i \<in> contents (rh_table t). kii_key i = k \<and> rh_probe_from rounds t k home slot = Some (info_entries (rh_storage t) i)) \<or>
    (rh_probe_from rounds t k home slot = None \<and> (\<forall>i \<in> contents (rh_table t). kii_key i \<noteq> k))"
  using lap before
proof (induction rounds arbitrary: d slot)
  case (Suc rounds)
  let ?cap = "rh_capacity t" and ?T = "rh_table t"
  let ?stop = "\<not> kii_is_valid (?T ! slot) \<or> psl ?cap slot (rh_home ?cap (kii_key (?T ! slot))) < psl ?cap slot home"
  have d: "d < ?cap" and h: "home < ?cap" using Suc.prems(1) home by auto
  have slot: "slot < ?cap" "psl ?cap slot home = d" using Suc.prems(2) psl_add[OF h d] d by auto
  have at_d: "s = slot" if "s < ?cap" "psl ?cap s home = d" for s
    using psl_slot[OF that(1) h] that(2) Suc.prems(2) by simp
  have none: "\<forall>i \<in> contents ?T. kii_key i \<noteq> k" if stop: ?stop
  proof
    fix i assume "i \<in> contents ?T"
    then obtain s where s: "s < ?cap" "kii_is_valid (?T ! s)" "i = ?T ! s"
      using inv by (auto simp: contents_def valid_slots_def rh_inv_def)
    show "kii_key i \<noteq> k"
    proof
      assume k: "kii_key i = k"
      then have r: "reach ?cap ?T k s" using inv s by (auto simp: rh_inv_def)
      have "\<not> psl ?cap s home < d" using Suc.prems(4) s k by blast
      moreover have "psl ?cap s home \<noteq> d" using at_d[OF s(1)] stop s k home slot by auto
      moreover have "\<not> d < psl ?cap s home"
      proof
        assume "d < psl ?cap s home"
        then have "kii_is_valid (?T ! slot) \<and> d \<le> psl ?cap slot (rh_home ?cap (kii_key (?T ! slot)))"
          using r home Suc.prems(2) by (auto simp: reach_def)
        then show False using stop slot by simp
      qed
      ultimately show False by simp
    qed
  qed
  show ?case
  proof (cases ?stop)
    case True
    then show ?thesis using none by (simp add: Let_def)
  next
    case go: False
    show ?thesis
    proof (cases "kii_key (?T ! slot) = k")
      case True
      have "?T ! slot \<in> contents ?T" using go slot inv by (auto simp: contents_def valid_slots_def rh_inv_def)
      then show ?thesis using True go by (auto simp: Let_def)
    next
      case False
      have before: "kii_key (?T ! s) \<noteq> k"
        if "s < ?cap" "psl ?cap s home < Suc d" "kii_is_valid (?T ! s)" for s
        using that Suc.prems(4) at_d False by (metis less_Suc_eq)
      have next_slot: "(slot + 1) mod ?cap = (home + Suc d) mod ?cap" using Suc.prems(2) by (simp add: mod_Suc_eq)
      show ?thesis
      proof (cases rounds)
        case 0
        then have "Suc d = ?cap" using Suc.prems(1) by simp
        then have "(slot + 1) mod ?cap = home" using next_slot h by simp
        moreover have "\<forall>i \<in> contents ?T. kii_key i \<noteq> k"
          using before \<open>Suc d = ?cap\<close> psl_less[OF _ h] inv by (auto simp: contents_def valid_slots_def rh_inv_def)
        ultimately show ?thesis using go False by (simp add: Let_def)
      next
        case (Suc n)
        then have "Suc d < ?cap" using Suc.prems(1) by simp
        then have "psl ?cap ((slot + 1) mod ?cap) home = Suc d" unfolding next_slot by (rule psl_add[OF h])
        then have "(slot + 1) mod ?cap \<noteq> home" by auto
        moreover have "rh_probe_from (Suc rounds) t k home slot = rh_probe_from rounds t k home ((slot + 1) mod ?cap)"
          using go False calculation by (simp add: Let_def)
        ultimately have step: "rh_probe_from (Suc rounds) t k home slot = rh_probe_from rounds t k home ((slot + 1) mod ?cap)"
          by blast
        show ?thesis
          unfolding step by (rule Suc.IH[of "Suc d"]) (use Suc Suc.prems(1) next_slot before in auto)
      qed
    qed
  qed
qed simp

lemma rh_probe_correct:
  assumes "rh_holds entries t"
  shows "bucket (rh_probe k t) = with_key k entries"
proof (cases "rh_capacity t = 0 \<or> rh_table t = []")
  case True
  then have "entries = []" using assms rh_initial_capacity(2) by (auto simp: rh_holds_def rh_inv_def) (metis less_irrefl)+
  then show ?thesis using True by (auto simp: rh_probe_def)
next
  case False
  then obtain infos where ok: "infos_ok entries infos (rh_storage t)" "rh_inv (rh_capacity t) (rh_table t)"
    "contents (rh_table t) = set infos"
    using assms by (auto simp: rh_holds_def)
  let ?home = "rh_home (rh_capacity t) k"
  have "?home < rh_capacity t" using False by simp
  then have "(\<exists>i \<in> set infos. kii_key i = k \<and> rh_probe k t = Some (info_entries (rh_storage t) i)) \<or>
    (rh_probe k t = None \<and> (\<forall>i \<in> set infos. kii_key i \<noteq> k))"
    using rh_probe_from_correct[of t ?home k 0 "rh_capacity t" ?home] ok False by (simp add: rh_probe_def Let_def)
  then show ?thesis by (rule infos_ok_bucket[OF ok(1)])
qed

interpretation robin_hood: join_table robin_hood_wrapper "\<lambda>t. rh_storage t = []" "\<lambda>es. True" "{}"
proof (rule wrapper_join_table[where backend_build = rh_build])
  show "e \<in> {}" if "rh_storage t = []" "rh_build (entry_pairs es) t = Inl e" for t es e
    using rh_build_correct[OF that(1), of es] that(2) by simp
  show "with_key k (bucket (iht_probe robin_hood_wrapper k t')) = with_key k es"
    if "rh_storage t = []" "rh_build (entry_pairs es) t = Inr t'" for t es t' k
    using rh_build_correct[OF that(1), of es] that(2) by (auto simp: robin_hood_wrapper_def rh_probe_correct)
qed (simp_all add: robin_hood_wrapper_def rh_new_def)

text \<open>C27. A Robin Hood table is always built at the first attempt: its capacity is the initial one,
  4/3 of the number of distinct keys, rounded up (each rehash would more than double it), so no rehash
  is made and the exception of \<open>build_from_entries\<close> is never thrown. Probing the result returns, for every key, exactly the row ids
  of that key, in the order of the build side: the two early exits of the probing loop (a free slot; an element closer
  to its home than the key would be) never miss a key that is present.\<close>

theorem robin_hood_build_probe:
  "\<exists>t. iht_build_from_entries robin_hood_wrapper entries (iht_new robin_hood_wrapper) = Inr t \<and>
       rh_capacity t = (4 * card (he_key ` set entries) + 2) div 3 \<and>
       (\<forall>k. bucket (iht_probe robin_hood_wrapper k t) = with_key k entries)"
proof -
  have new: "rh_storage (iht_new robin_hood_wrapper) = []" by (simp add: robin_hood_wrapper_def rh_new_def)
  from rh_build_correct[OF new, of entries]
  obtain t where "rh_build (entry_pairs entries) (iht_new robin_hood_wrapper) = Inr t" "rh_holds entries t" by blast
  then show ?thesis
    by (intro exI[of _ t]) (simp add: robin_hood_wrapper_def wrapper_build_from_entries_def rh_probe_correct rh_holds_capacity)
qed

end
