(* ===== verification/Cuckoo.thy ===== *)
theory Cuckoo
  imports KeyGroups
begin

text \<open>
  \<open>CuckooBackend\<close> (\<open>include/cuckoo.h\<close>) and its wrapper: a record sits at one of two positions, one per
  table; an insertion that finds both taken pushes the occupants on, for at most 200 rounds, and after
  that the tables are rebuilt with a larger capacity, at most five times. \<open>std_hash\<close> stands for
  \<open>std::hash<int32_t>\<close>, which the standard leaves to the implementation. Whatever it is, a build either
  throws or yields a table whose probe is exact.

  \<open>ceil(n / 0.45)\<close> is computed in doubles; below 2^48 keys it is the integer \<open>ceil(20 n / 9)\<close>.
\<close>

section \<open>Operations\<close>

record cuckoo =
  ck_storage :: "u32 hash_entry list"
  ck_table1 :: "index_info list"
  ck_table2 :: "index_info list"
  ck_capacity :: nat

definition ck_new :: cuckoo where
  "ck_new = \<lparr>ck_storage = [], ck_table1 = [], ck_table2 = [], ck_capacity = 0\<rparr>"

definition ck_hash_fn1 :: "(u32 \<Rightarrow> u64) \<Rightarrow> nat \<Rightarrow> u32 \<Rightarrow> nat" where
  "ck_hash_fn1 std_hash capacity k = unat (std_hash k) mod capacity"

definition ck_hash_fn2 :: "(u32 \<Rightarrow> u64) \<Rightarrow> nat \<Rightarrow> u32 \<Rightarrow> nat" where
  "ck_hash_fn2 std_hash capacity k =
     (let h = std_hash k in unat ((h * 0x9e3779b9) XOR drop_bit 16 h) mod capacity)"

definition find_home1 :: "(u32 \<Rightarrow> u64) \<Rightarrow> nat \<Rightarrow> u32 \<Rightarrow> nat" where
  "find_home1 std_hash capacity k = (if capacity = 0 then 0 else ck_hash_fn1 std_hash capacity k)"

definition find_home2 :: "(u32 \<Rightarrow> u64) \<Rightarrow> nat \<Rightarrow> u32 \<Rightarrow> nat" where
  "find_home2 std_hash capacity k = (if capacity = 0 then 0 else ck_hash_fn2 std_hash capacity k)"

text \<open>
  \<open>insert_key_info\<close> by the displacements left; \<open>None\<close> is the result \<open>false\<close>, after which the tables
  are assigned anew or the exception leaves the build.
\<close>

fun ck_insert_rounds ::
    "(u32 \<Rightarrow> u64) \<Rightarrow> nat \<Rightarrow> nat \<Rightarrow> index_info \<Rightarrow> index_info list \<Rightarrow> index_info list \<Rightarrow>
     (index_info list \<times> index_info list) option" where
  "ck_insert_rounds std_hash capacity 0 current_info table1 table2 = None"
| "ck_insert_rounds std_hash capacity (Suc displacements) current_info table1 table2 =
     (let pos1 = find_home1 std_hash capacity (kii_key current_info)
      in if \<not> kii_is_valid (table1 ! pos1)
         then Some (table1[pos1 := current_info\<lparr>kii_is_valid := True\<rparr>], table2)
         else let (current_info, table1) = (table1 ! pos1, table1[pos1 := current_info]);
                  pos2 = find_home2 std_hash capacity (kii_key current_info)
              in if \<not> kii_is_valid (table2 ! pos2)
                 then Some (table1, table2[pos2 := current_info\<lparr>kii_is_valid := True\<rparr>])
                 else let (current_info, table2) = (table2 ! pos2, table2[pos2 := current_info])
                      in ck_insert_rounds std_hash capacity displacements current_info table1 table2)"

definition insert_key_info ::
    "(u32 \<Rightarrow> u64) \<Rightarrow> nat \<Rightarrow> index_info \<Rightarrow> index_info list \<times> index_info list \<Rightarrow>
     (index_info list \<times> index_info list) option" where
  "insert_key_info std_hash capacity info = (\<lambda>(table1, table2). ck_insert_rounds std_hash capacity 200 info table1 table2)"

fun ck_insert_all ::
    "(u32 \<Rightarrow> u64) \<Rightarrow> nat \<Rightarrow> index_info list \<Rightarrow> index_info list \<times> index_info list \<Rightarrow>
     (index_info list \<times> index_info list) option" where
  "ck_insert_all std_hash capacity [] tables = Some tables"
| "ck_insert_all std_hash capacity (info # infos) tables =
     (case insert_key_info std_hash capacity info tables of
        None \<Rightarrow> None
      | Some tables \<Rightarrow> ck_insert_all std_hash capacity infos tables)"

text \<open>The rehash loop, by the attempts left of \<open>MAX_REHASH_ATTEMPTS\<close>.\<close>

definition ck_failure :: exn where
  "ck_failure = Runtime_error ''Cuckoo Hashing failed to find a valid placement after multiple rehash attempts.''"

fun ck_build_attempts ::
    "(u32 \<Rightarrow> u64) \<Rightarrow> nat \<Rightarrow> nat \<Rightarrow> index_info list \<Rightarrow> (nat \<times> index_info list \<times> index_info list) res" where
  "ck_build_attempts std_hash 0 capacity infos = Inl ck_failure"
| "ck_build_attempts std_hash (Suc attempts) capacity infos =
     (case ck_insert_all std_hash capacity infos (replicate capacity empty_info, replicate capacity empty_info) of
        Some tables \<Rightarrow> Inr (capacity, tables)
      | None \<Rightarrow> ck_build_attempts std_hash attempts (capacity * 2 + 1) infos)"

text \<open>\<open>prepare_rehash\<close>, which nothing calls: the new capacity and the empty tables.\<close>

definition prepare_rehash :: "nat \<Rightarrow> cuckoo \<Rightarrow> cuckoo" where
  "prepare_rehash current_capacity t =
     (let capacity = current_capacity * 2 + 1
      in t\<lparr>ck_capacity := capacity, ck_table1 := replicate capacity empty_info, ck_table2 := replicate capacity empty_info\<rparr>)"

definition ck_initial_capacity :: "nat \<Rightarrow> nat" where
  "ck_initial_capacity n = (let c = (20 * n + 8) div 9 in if c = 0 then 1 else c)"

definition ck_build :: "(u32 \<Rightarrow> u64) \<Rightarrow> (u32 \<times> nat) list \<Rightarrow> cuckoo \<Rightarrow> cuckoo res" where
  "ck_build std_hash entries t =
     (if entries = [] then Inr \<lparr>ck_storage = [], ck_table1 = [], ck_table2 = [], ck_capacity = 0\<rparr>
      else let (infos, storage) = store_groups (group_entries entries) (ck_storage t)
           in rbind (ck_build_attempts std_hash 5 (ck_initial_capacity (length infos)) infos) (\<lambda>(capacity, table1, table2).
                Inr \<lparr>ck_storage = storage, ck_table1 = table1, ck_table2 = table2, ck_capacity = capacity\<rparr>))"

definition ck_probe :: "(u32 \<Rightarrow> u64) \<Rightarrow> u32 \<Rightarrow> cuckoo \<Rightarrow> u32 hash_entry list option" where
  "ck_probe std_hash k t =
     (if ck_capacity t = 0 then None
      else let info1 = ck_table1 t ! find_home1 std_hash (ck_capacity t) k
           in if kii_is_valid info1 \<and> kii_key info1 = k then Some (info_entries (ck_storage t) info1)
              else let info2 = ck_table2 t ! find_home2 std_hash (ck_capacity t) k
                   in if kii_is_valid info2 \<and> kii_key info2 = k then Some (info_entries (ck_storage t) info2)
                      else None)"

definition cuckoo_wrapper :: "(u32 \<Rightarrow> u64) \<Rightarrow> (u32, cuckoo) ihash_table" where
  "cuckoo_wrapper std_hash =
     \<lparr>iht_new = ck_new, iht_reserve = (\<lambda>n t. t),
      iht_build_from_entries = wrapper_build_from_entries (ck_build std_hash),
      iht_build_from_zero_copy_int32 = wrapper_build_from_zero_copy (ck_build std_hash),
      iht_probe = ck_probe std_hash\<rparr>"

section \<open>The invariant\<close>

text \<open>Every record of a table sits at its position in that table.\<close>

definition at_home :: "(nat \<Rightarrow> u32 \<Rightarrow> nat) \<Rightarrow> nat \<Rightarrow> index_info list \<Rightarrow> bool" where
  "at_home home cap T \<longleftrightarrow> length T = cap \<and> (\<forall>s < cap. kii_is_valid (T ! s) \<longrightarrow> home cap (kii_key (T ! s)) = s)"

lemma find_home_less [simp]:
  "0 < cap \<Longrightarrow> find_home1 std_hash cap k < cap" "0 < cap \<Longrightarrow> find_home2 std_hash cap k < cap"
  by (simp_all add: find_home1_def find_home2_def ck_hash_fn1_def ck_hash_fn2_def Let_def)

lemma at_home_update: "at_home home cap T \<Longrightarrow> s = home cap (kii_key x) \<Longrightarrow> at_home home cap (T[s := x])"
  unfolding at_home_def by (metis length_list_update nth_list_update_eq nth_list_update_neq)

lemma at_home_empty: "at_home home cap (replicate cap empty_info)"
  by (simp add: at_home_def empty_info_def)

lemma at_home_lookup:
  assumes "at_home home cap T" "home cap k < cap"
  shows "(\<exists>i \<in> contents T. kii_key i = k) \<longleftrightarrow> kii_is_valid (T ! home cap k) \<and> kii_key (T ! home cap k) = k"
  using assms contents_nth[of "home cap k" T] by (auto simp: at_home_def contents_slot)

lemma valid_update [simp]: "kii_is_valid i \<Longrightarrow> i\<lparr>kii_is_valid := True\<rparr> = i"
  by (cases i) simp

text \<open>Displacement moves records between the tables; none is lost.\<close>

lemma ck_insert_rounds_correct:
  assumes "ck_insert_rounds std_hash cap n cur T1 T2 = Some (U1, U2)" "0 < cap" "kii_is_valid cur"
    and "at_home (find_home1 std_hash) cap T1" "at_home (find_home2 std_hash) cap T2"
  shows "at_home (find_home1 std_hash) cap U1 \<and> at_home (find_home2 std_hash) cap U2 \<and>
    contents U1 \<union> contents U2 = insert cur (contents T1 \<union> contents T2)"
  using assms
proof (induction std_hash cap n cur T1 T2 rule: ck_insert_rounds.induct)
  case (2 std_hash cap n cur T1 T2)
  let ?p1 = "find_home1 std_hash cap (kii_key cur)"
  let ?y = "T1 ! ?p1"
  let ?T1 = "T1[?p1 := cur]" and ?p2 = "find_home2 std_hash cap (kii_key ?y)"
  let ?z = "T2 ! ?p2"
  let ?T2 = "T2[?p2 := ?y]"
  have p: "?p1 < length T1" "?p2 < length T2" using "2.prems" by (simp_all add: at_home_def)
  note c1 = contents_update[OF p(1) "2.prems"(3)]
  have h1: "at_home (find_home1 std_hash) cap ?T1" using "2.prems"(4) by (rule at_home_update) simp
  have h2: "at_home (find_home2 std_hash) cap ?T2" using "2.prems"(5) by (rule at_home_update) simp
  show ?case
  proof (cases "kii_is_valid ?y")
    case False
    then show ?thesis using "2.prems" h1 c1(3) by (auto simp: Let_def)
  next
    case y: True
    note c2 = contents_update[OF p(2) y]
    show ?thesis
    proof (cases "kii_is_valid ?z")
      case False
      then show ?thesis using "2.prems" h1 h2 c1(1) c2(3) y by (auto simp: Let_def)
    next
      case z: True
      have step: "ck_insert_rounds std_hash cap n ?z ?T1 ?T2 = Some (U1, U2)"
        using "2.prems"(1) y z by (simp add: Let_def)
      have "at_home (find_home1 std_hash) cap U1 \<and> at_home (find_home2 std_hash) cap U2 \<and>
        contents U1 \<union> contents U2 = insert ?z (contents ?T1 \<union> contents ?T2)"
        by (rule "2.IH") (use y z step "2.prems"(2) h1 h2 in \<open>simp_all\<close>)
      then show ?thesis using c1(1)[OF y] c2(1)[OF z] by blast
    qed
  qed
qed simp

lemma ck_insert_all_correct:
  assumes "ck_insert_all std_hash cap infos (T1, T2) = Some (U1, U2)" "0 < cap" "\<forall>i \<in> set infos. kii_is_valid i"
    and "at_home (find_home1 std_hash) cap T1" "at_home (find_home2 std_hash) cap T2"
  shows "at_home (find_home1 std_hash) cap U1 \<and> at_home (find_home2 std_hash) cap U2 \<and>
    contents U1 \<union> contents U2 = set infos \<union> contents T1 \<union> contents T2"
  using assms
proof (induction infos arbitrary: T1 T2)
  case (Cons i infos)
  obtain V1 V2 where V: "insert_key_info std_hash cap i (T1, T2) = Some (V1, V2)"
    "ck_insert_all std_hash cap infos (V1, V2) = Some (U1, U2)"
    using Cons.prems(1) by (auto split: option.splits)
  have "at_home (find_home1 std_hash) cap V1 \<and> at_home (find_home2 std_hash) cap V2 \<and>
    contents V1 \<union> contents V2 = insert i (contents T1 \<union> contents T2)"
    using V(1) Cons.prems unfolding insert_key_info_def by (intro ck_insert_rounds_correct) auto
  then show ?case using Cons.IH[OF V(2)] Cons.prems by auto
qed simp

definition ck_holds :: "(u32 \<Rightarrow> u64) \<Rightarrow> u32 hash_entry list \<Rightarrow> cuckoo \<Rightarrow> bool" where
  "ck_holds std_hash entries t \<longleftrightarrow>
     entries = [] \<and> ck_capacity t = 0 \<or>
     (\<exists>infos. infos_ok entries infos (ck_storage t) \<and> 0 < ck_capacity t \<and>
        at_home (find_home1 std_hash) (ck_capacity t) (ck_table1 t) \<and>
        at_home (find_home2 std_hash) (ck_capacity t) (ck_table2 t) \<and>
        contents (ck_table1 t) \<union> contents (ck_table2 t) = set infos)"

lemma ck_build_attempts_correct:
  assumes "0 < cap" "\<forall>i \<in> set infos. kii_is_valid i"
  shows "case ck_build_attempts std_hash n cap infos of
    Inl e \<Rightarrow> e = ck_failure
  | Inr (c, U1, U2) \<Rightarrow> 0 < c \<and> at_home (find_home1 std_hash) c U1 \<and> at_home (find_home2 std_hash) c U2 \<and>
      contents U1 \<union> contents U2 = set infos"
  using assms
proof (induction std_hash n cap infos rule: ck_build_attempts.induct)
  case (2 std_hash n cap infos)
  show ?case
  proof (cases "ck_insert_all std_hash cap infos (replicate cap empty_info, replicate cap empty_info)")
    case None
    then show ?thesis using 2 by simp
  next
    case (Some U)
    obtain U1 U2 where U: "U = (U1, U2)" by (cases U)
    from ck_insert_all_correct[OF Some[unfolded U]] show ?thesis
      using 2 Some U by (simp add: at_home_empty valid_slots_empty contents_def)
  qed
qed simp

lemma ck_build_correct:
  assumes "ck_storage t = []"
  shows "case ck_build std_hash (entry_pairs entries) t of Inl e \<Rightarrow> e = ck_failure | Inr t' \<Rightarrow> ck_holds std_hash entries t'"
proof (cases "entries = []")
  case True
  then show ?thesis by (simp add: ck_build_def entry_pairs_def ck_holds_def)
next
  case False
  obtain infos storage where s: "store_groups (group_entries (entry_pairs entries)) [] = (infos, storage)"
    by (cases "store_groups (group_entries (entry_pairs entries)) []")
  note ok = store_groups_ok[OF s]
  let ?cap = "ck_initial_capacity (length infos)"
  have cap: "0 < ?cap" by (simp add: ck_initial_capacity_def Let_def)
  have valid: "\<forall>i \<in> set infos. kii_is_valid i" using ok by (simp add: infos_ok_def)
  have "entry_pairs entries \<noteq> []" using False by (simp add: entry_pairs_def)
  then show ?thesis
    using ck_build_attempts_correct[OF cap valid, of std_hash 5] s assms ok
    by (auto simp: ck_build_def ck_holds_def split: sum.splits)
qed

lemma ck_probe_correct:
  assumes "ck_holds std_hash entries t"
  shows "bucket (ck_probe std_hash k t) = with_key k entries"
proof (cases "ck_capacity t = 0")
  case True
  then show ?thesis using assms by (auto simp: ck_probe_def ck_holds_def)
next
  case False
  then obtain infos where ok: "infos_ok entries infos (ck_storage t)"
    "at_home (find_home1 std_hash) (ck_capacity t) (ck_table1 t)" "at_home (find_home2 std_hash) (ck_capacity t) (ck_table2 t)"
    "contents (ck_table1 t) \<union> contents (ck_table2 t) = set infos"
    using assms by (auto simp: ck_holds_def)
  let ?p1 = "find_home1 std_hash (ck_capacity t) k" and ?p2 = "find_home2 std_hash (ck_capacity t) k"
  have p: "?p1 < ck_capacity t" "?p2 < ck_capacity t" using False by simp_all
  then have at: "ck_table1 t ! ?p1 \<in> contents (ck_table1 t)" if "kii_is_valid (ck_table1 t ! ?p1)"
    using that ok(2) by (intro contents_nth) (simp_all add: at_home_def)
  from p have at': "ck_table2 t ! ?p2 \<in> contents (ck_table2 t)" if "kii_is_valid (ck_table2 t ! ?p2)"
    using that ok(3) by (intro contents_nth) (simp_all add: at_home_def)
  note l = at_home_lookup[OF ok(2) p(1)] at_home_lookup[OF ok(3) p(2)]
  show ?thesis
    by (rule infos_ok_bucket[OF ok(1)])
      (use l at at' ok(4)[symmetric] False in \<open>auto simp: ck_probe_def Let_def\<close>)
qed

interpretation cuckoo: join_table "cuckoo_wrapper std_hash" "\<lambda>t. ck_storage t = []" "\<lambda>es. True" "{ck_failure}" for std_hash
proof (rule wrapper_join_table[where backend_build = "ck_build std_hash"])
  show "e \<in> {ck_failure}" if "ck_storage t = []" "ck_build std_hash (entry_pairs es) t = Inl e" for t es e
    using ck_build_correct[OF that(1), of std_hash es] that(2) by simp
  show "with_key k (bucket (iht_probe (cuckoo_wrapper std_hash) k t')) = with_key k es"
    if "ck_storage t = []" "ck_build std_hash (entry_pairs es) t = Inr t'" for t es t' k
    using ck_build_correct[OF that(1), of std_hash es] that(2) by (simp add: cuckoo_wrapper_def ck_probe_correct)
qed (simp_all add: cuckoo_wrapper_def ck_new_def)

section \<open>Keys that cannot be placed\<close>

text \<open>Three records that share both positions push one another on until the rounds are used up.\<close>

lemma ck_insert_rounds_cycle:
  assumes "find_home1 std_hash cap (kii_key cur) = p" "find_home2 std_hash cap (kii_key cur) = q"
    and "kii_is_valid (T1 ! p)" "find_home1 std_hash cap (kii_key (T1 ! p)) = p" "find_home2 std_hash cap (kii_key (T1 ! p)) = q"
    and "kii_is_valid (T2 ! q)" "find_home1 std_hash cap (kii_key (T2 ! q)) = p" "find_home2 std_hash cap (kii_key (T2 ! q)) = q"
    and "p < length T1" "q < length T2" "kii_is_valid cur"
  shows "ck_insert_rounds std_hash cap n cur T1 T2 = None"
  using assms by (induction n arbitrary: cur T1 T2) (simp_all add: Let_def)

lemma ck_insert_all_cycle:
  assumes "find_home1 std_hash cap (kii_key a) = find_home1 std_hash cap (kii_key c)"
    "find_home1 std_hash cap (kii_key b) = find_home1 std_hash cap (kii_key c)"
    "find_home2 std_hash cap (kii_key a) = find_home2 std_hash cap (kii_key c)"
    "find_home2 std_hash cap (kii_key b) = find_home2 std_hash cap (kii_key c)"
    and "kii_is_valid a" "kii_is_valid b" "kii_is_valid c" "0 < cap"
  shows "ck_insert_all std_hash cap [a, b, c] (replicate cap empty_info, replicate cap empty_info) = None"
proof -
  let ?E = "replicate cap empty_info" and ?p = "find_home1 std_hash cap (kii_key c)" and ?q = "find_home2 std_hash cap (kii_key c)"
  have p: "?p < cap" "?q < cap" using assms by simp_all
  have first: "insert_key_info std_hash cap a (?E, ?E) = Some (?E[?p := a], ?E)"
    using assms p by (simp add: insert_key_info_def eval_nat_numeral Let_def empty_info_def)
  have second: "insert_key_info std_hash cap b (?E[?p := a], ?E) = Some (?E[?p := b], ?E[?q := a])"
    using assms p by (simp add: insert_key_info_def eval_nat_numeral Let_def empty_info_def)
  have third: "insert_key_info std_hash cap c (?E[?p := b], ?E[?q := a]) = None"
    unfolding insert_key_info_def case_prod_conv
    by (rule ck_insert_rounds_cycle[where p = ?p and q = ?q]) (use assms p in simp_all)
  show ?thesis using first second third by simp
qed

definition cuckoo_cycle_entries :: "u32 hash_entry list" where
  "cuckoo_cycle_entries =
     [\<lparr>he_key = 255471934, he_row_id = 0\<rparr>, \<lparr>he_key = 452656579, he_row_id = 1\<rparr>, \<lparr>he_key = 2061137614, he_row_id = 2\<rparr>]"

text \<open>C30. A cuckoo table, whatever the implementation's \<open>std::hash\<close>, either throws the exception of
  \<open>build_from_entries\<close> or is built right: probing returns exactly the row ids of the key in the order
  of the build side, for every key. Displacements never lose a record.\<close>

theorem cuckoo_build_probe:
  "case iht_build_from_entries (cuckoo_wrapper std_hash) entries (iht_new (cuckoo_wrapper std_hash)) of
     Inl e \<Rightarrow> e = ck_failure
   | Inr t \<Rightarrow> (\<forall>k. bucket (iht_probe (cuckoo_wrapper std_hash) k t) = with_key k entries)"
proof -
  have new: "ck_storage (iht_new (cuckoo_wrapper std_hash)) = []" by (simp add: cuckoo_wrapper_def ck_new_def)
  from ck_build_correct[OF new, of std_hash entries] show ?thesis
    by (auto simp: cuckoo_wrapper_def wrapper_build_from_entries_def ck_probe_correct split: sum.splits)
qed

text \<open>C31. The exception is real: with the identity as \<open>std::hash<int32_t>\<close> (libstdc++), there are three
  keys whose positions coincide in both tables at all five capacities the build tries, so the build of
  these three rows throws although the tables are nearly empty.\<close>

theorem cuckoo_three_keys_throw:
  "iht_build_from_entries (cuckoo_wrapper scast) cuckoo_cycle_entries (iht_new (cuckoo_wrapper scast)) = Inl ck_failure"
proof -
  let ?i = "\<lambda>k n. \<lparr>kii_key = k, kii_start_index = n, kii_count = 1, kii_is_valid = True\<rparr> :: index_info"
  have infos: "store_groups (group_entries (entry_pairs cuckoo_cycle_entries)) [] =
      ([?i 255471934 0, ?i 452656579 1, ?i 2061137614 2], cuckoo_cycle_entries)"
    by code_simp
  have cycle: "ck_insert_all scast cap [?i 255471934 0, ?i 452656579 1, ?i 2061137614 2]
      (replicate cap empty_info, replicate cap empty_info) = None" if "cap \<in> {7, 15, 31, 63, 127}" for cap
    by (rule ck_insert_all_cycle)
      (use that in \<open>auto simp: find_home1_def find_home2_def ck_hash_fn1_def ck_hash_fn2_def Let_def\<close>)
  let ?is = "[?i 255471934 0, ?i 452656579 1, ?i 2061137614 2]"
  have fail: "ck_build_attempts scast 5 7 ?is = Inl ck_failure"
    using cycle[of 7] cycle[of 15] cycle[of 31] cycle[of 63] cycle[of 127] by (simp add: eval_nat_numeral)
  have cap: "ck_initial_capacity (length ?is) = 7" by code_simp
  have "entry_pairs cuckoo_cycle_entries \<noteq> []" by (simp add: entry_pairs_def cuckoo_cycle_entries_def)
  then have "ck_build scast (entry_pairs cuckoo_cycle_entries) ck_new = rbind (Inl ck_failure) (\<lambda>(capacity, table1, table2).
      Inr \<lparr>ck_storage = cuckoo_cycle_entries, ck_table1 = table1, ck_table2 = table2, ck_capacity = capacity\<rparr>)"
    unfolding ck_build_def ck_new_def cuckoo.simps infos Let_def prod.case cap fail by (rule if_not_P)
  then show ?thesis by (simp add: cuckoo_wrapper_def wrapper_build_from_entries_def)
qed

end
