(* ===== verification/Hopscotch.thy ===== *)
theory Hopscotch
  imports KeyGroups
begin

text \<open>
  \<open>HopscotchBackend\<close> (\<open>include/hopscotch.h\<close>) and its wrapper: a slot lies within 8 places of its home
  and a bitmap at the home says where; an insertion moves the free slot towards the home by moving
  other slots within their own neighbourhoods, and a failed insertion doubles the table. The type tag
  of the composite key (a \<open>std::hash\<close> of a type name, cut to 16 bits) is the parameter \<open>tid\<close>, the
  number of slots that can be allocated is the parameter \<open>max_slots\<close>: the doubling ends only by
  success or when memory runs out.

  \<open>ceil(n / 0.45)\<close> is computed in doubles; below 2^48 keys it is the integer \<open>ceil(20 n / 9)\<close>.
\<close>

section \<open>Operations\<close>

record hopscotch_slot =
  hs_ckey :: u64
  hs_start_index :: nat
  hs_count :: nat
  hs_is_valid :: bool

definition empty_slot :: hopscotch_slot where
  "empty_slot = \<lparr>hs_ckey = 0, hs_start_index = 0, hs_count = 0, hs_is_valid = False\<rparr>"

record hopscotch =
  hs_storage :: "u32 hash_entry list"
  hs_table :: "hopscotch_slot list"
  hs_hop_map :: "u32 list"
  hs_capacity :: nat

definition hs_new :: hopscotch where
  "hs_new = \<lparr>hs_storage = [], hs_table = [], hs_hop_map = [], hs_capacity = 0\<rparr>"

definition make_ckey :: "u64 \<Rightarrow> u32 \<Rightarrow> u64" where
  "make_ckey tid k = push_bit 48 tid OR scast k"

definition hash_ckey :: "nat \<Rightarrow> u64 \<Rightarrow> nat" where
  "hash_ckey capacity ck = unat ck mod capacity"

definition hs_distance :: "nat \<Rightarrow> nat \<Rightarrow> nat \<Rightarrow> nat" where
  "hs_distance capacity i j = (if i \<le> j then j - i else j + (capacity - i))"

abbreviation neighborhood_size :: nat where
  "neighborhood_size \<equiv> 8"

type_synonym hop_tables = "hopscotch_slot list \<times> u32 list"

text \<open>\<open>move_slot_closer\<close>: one round of its loop (\<open>None\<close> is \<open>continue\<close>), and the loop (\<open>None\<close> is the result -1,
  with the tables unchanged).\<close>

definition hs_try_move :: "nat \<Rightarrow> nat \<Rightarrow> nat \<Rightarrow> hop_tables \<Rightarrow> (nat \<times> hop_tables) option" where
  "hs_try_move capacity offset free_slot = (\<lambda>(table, hop_map).
     let candidate_slot = (free_slot + capacity - offset) mod capacity;
         cand = table ! candidate_slot;
         cand_home = hash_ckey capacity (hs_ckey cand);
         hop_off = hs_distance capacity cand_home candidate_slot;
         mask = push_bit hop_off 1;
         new_hop_offset = hs_distance capacity cand_home free_slot
     in if \<not> hs_is_valid cand then None
        else if neighborhood_size \<le> hop_off then None
        else if (hop_map ! cand_home) AND mask = 0 then None
        else if new_hop_offset < neighborhood_size
        then let hop_map = hop_map[cand_home := (hop_map ! cand_home) AND NOT mask];
                 table = table[free_slot := cand\<lparr>hs_is_valid := True\<rparr>];
                 hop_map = hop_map[cand_home := (hop_map ! cand_home) OR push_bit new_hop_offset 1];
                 table = table[candidate_slot := empty_slot\<lparr>hs_is_valid := False\<rparr>]
             in Some (candidate_slot, table, hop_map)
        else None)"

fun hs_move_from :: "nat \<Rightarrow> nat list \<Rightarrow> nat \<Rightarrow> hop_tables \<Rightarrow> (nat \<times> hop_tables) option" where
  "hs_move_from capacity [] free_slot tables = None"
| "hs_move_from capacity (offset # offsets) free_slot tables =
     (case hs_try_move capacity offset free_slot tables of
        None \<Rightarrow> hs_move_from capacity offsets free_slot tables
      | Some r \<Rightarrow> Some r)"

definition move_slot_closer :: "nat \<Rightarrow> nat \<Rightarrow> hop_tables \<Rightarrow> (nat \<times> hop_tables) option" where
  "move_slot_closer capacity = hs_move_from capacity [1..<neighborhood_size]"

text \<open>The first loop of \<open>insert_slot\<close>, by the rounds left of \<open>_capacity\<close>: the first free slot.\<close>

fun scan_free :: "hopscotch_slot list \<Rightarrow> nat \<Rightarrow> nat \<Rightarrow> nat \<Rightarrow> nat option" where
  "scan_free table capacity 0 slot = None"
| "scan_free table capacity (Suc rounds) slot =
     (if hs_is_valid (table ! slot) then scan_free table capacity rounds ((slot + 1) mod capacity) else Some slot)"

text \<open>The second loop. It has no bound in the code; the fuel is the capacity, shown to be enough.\<close>

fun hop_closer :: "nat \<Rightarrow> nat \<Rightarrow> nat \<Rightarrow> nat \<Rightarrow> hop_tables \<Rightarrow> (nat \<times> hop_tables) option res" where
  "hop_closer 0 capacity home free_slot tables = Inl No_return"
| "hop_closer (Suc fuel) capacity home free_slot tables =
     (if neighborhood_size \<le> hs_distance capacity home free_slot
      then case move_slot_closer capacity free_slot tables of
             None \<Rightarrow> Inr None
           | Some (free_slot, tables) \<Rightarrow> hop_closer fuel capacity home free_slot tables
      else Inr (Some (free_slot, tables)))"

definition insert_slot :: "nat \<Rightarrow> hopscotch_slot \<Rightarrow> hop_tables \<Rightarrow> hop_tables option res" where
  "insert_slot capacity info tables =
     (let home = hash_ckey capacity (hs_ckey info)
      in case scan_free (fst tables) capacity capacity home of
           None \<Rightarrow> Inr None
         | Some free_slot \<Rightarrow>
             rbind (hop_closer capacity capacity home free_slot tables) (\<lambda>r. case r of
               None \<Rightarrow> Inr None
             | Some (free_slot, table, hop_map) \<Rightarrow>
                 let table = table[free_slot := info\<lparr>hs_is_valid := True\<rparr>];
                     off = hs_distance capacity home free_slot
                 in Inr (Some (table, hop_map[home := (hop_map ! home) OR push_bit off 1]))))"

fun insert_slots :: "nat \<Rightarrow> hopscotch_slot list \<Rightarrow> hop_tables \<Rightarrow> hop_tables option res" where
  "insert_slots capacity [] tables = Inr (Some tables)"
| "insert_slots capacity (s # slots) tables =
     rbind (insert_slot capacity s tables) (\<lambda>r. case r of
       None \<Rightarrow> Inr None
     | Some tables \<Rightarrow> insert_slots capacity slots tables)"

text \<open>The doubling loop; a capacity of 0 would divide by zero.\<close>

function hs_grow :: "nat \<Rightarrow> nat \<Rightarrow> hopscotch_slot list \<Rightarrow> (nat \<times> hop_tables) res" where
  "hs_grow max_slots capacity slots =
     (if capacity = 0 then Inl Undefined
      else if max_slots < capacity then Inl Bad_alloc
      else rbind (insert_slots capacity slots (replicate capacity empty_slot, replicate capacity 0)) (\<lambda>r. case r of
             Some tables \<Rightarrow> Inr (capacity, tables)
           | None \<Rightarrow> hs_grow max_slots (capacity * 2) slots))"
  by pat_completeness auto
termination
  by (relation "measure (\<lambda>(max_slots, capacity, slots). Suc max_slots - capacity)") auto

declare hs_grow.simps [simp del]

definition hs_initial_capacity :: "nat \<Rightarrow> nat" where
  "hs_initial_capacity n = (let c = (20 * n + 8) div 9 in if c < 16 then 16 else c)"

definition make_slot :: "u64 \<Rightarrow> index_info \<Rightarrow> hopscotch_slot" where
  "make_slot tid info =
     \<lparr>hs_ckey = make_ckey tid (kii_key info), hs_start_index = kii_start_index info, hs_count = kii_count info,
      hs_is_valid = True\<rparr>"

definition hs_build :: "nat \<Rightarrow> u64 \<Rightarrow> (u32 \<times> nat) list \<Rightarrow> hopscotch \<Rightarrow> hopscotch res" where
  "hs_build max_slots tid entries t =
     (if entries = [] then Inr \<lparr>hs_storage = [], hs_table = [], hs_hop_map = [], hs_capacity = 0\<rparr>
      else let (infos, storage) = store_groups (group_entries entries) [];
               slots = map (make_slot tid) infos
           in rbind (hs_grow max_slots (hs_initial_capacity (length slots)) slots) (\<lambda>(capacity, table, hop_map).
                Inr \<lparr>hs_storage = storage, hs_table = table, hs_hop_map = hop_map, hs_capacity = capacity\<rparr>))"

definition slot_entries :: "u32 hash_entry list \<Rightarrow> hopscotch_slot \<Rightarrow> u32 hash_entry list" where
  "slot_entries storage s = take (hs_count s) (drop (hs_start_index s) storage)"

fun hs_probe_from :: "hopscotch \<Rightarrow> u64 \<Rightarrow> nat \<Rightarrow> u32 \<Rightarrow> nat list \<Rightarrow> u32 hash_entry list option" where
  "hs_probe_from t ck home bitmap [] = None"
| "hs_probe_from t ck home bitmap (off # offs) =
     (if bitmap AND push_bit off 1 \<noteq> 0
      then let s = hs_table t ! ((home + off) mod hs_capacity t)
           in if hs_is_valid s \<and> hs_ckey s = ck then Some (slot_entries (hs_storage t) s)
              else hs_probe_from t ck home bitmap offs
      else hs_probe_from t ck home bitmap offs)"

definition hs_probe :: "u64 \<Rightarrow> u32 \<Rightarrow> hopscotch \<Rightarrow> u32 hash_entry list option" where
  "hs_probe tid k t =
     (if hs_capacity t = 0 then None
      else let ck = make_ckey tid k; home = hash_ckey (hs_capacity t) ck
           in hs_probe_from t ck home (hs_hop_map t ! home) [0..<neighborhood_size])"

definition hopscotch_wrapper :: "nat \<Rightarrow> u64 \<Rightarrow> (u32, hopscotch) ihash_table" where
  "hopscotch_wrapper max_slots tid =
     \<lparr>iht_new = hs_new, iht_reserve = (\<lambda>n t. t),
      iht_build_from_entries = wrapper_build_from_entries (hs_build max_slots tid),
      iht_build_from_zero_copy_int32 = wrapper_build_from_zero_copy (hs_build max_slots tid),
      iht_probe = hs_probe tid\<rparr>"

section \<open>Composite keys and neighbourhoods\<close>

lemma make_ckey_inj: "make_ckey tid j = make_ckey tid k \<longleftrightarrow> j = k"
proof
  assume eq: "make_ckey tid j = make_ckey tid k"
  show "j = k"
  proof (rule bit_word_eqI)
    fix n assume n: "n < LENGTH(32)"
    have "bit (make_ckey tid x) n = bit x n" for x
      using n by (cases "n = 31") (simp_all add: make_ckey_def bit_or_iff bit_push_bit_iff bit_signed_iff min_def)
    then show "bit j n = bit k n" using arg_cong[OF eq, of "\<lambda>x. bit x n"] by simp
  qed
qed simp

lemma hs_distance_psl: "hs_distance cap i j = psl cap j i"
  by (simp add: hs_distance_def psl_def)

lemma mask_bit: "(w :: u32) AND push_bit n 1 = 0 \<longleftrightarrow> \<not> bit w n"
  using bit_iff_and_push_bit_not_eq_0[of w n] by simp

lemma bit_mask: "b < 32 \<Longrightarrow> bit (push_bit b 1 :: u32) n \<longleftrightarrow> n = b"
  by (auto simp: bit_push_bit_iff bit_1_iff simp del: push_bit_of_1)

lemma bit_set: "b < 32 \<Longrightarrow> bit ((w :: u32) OR push_bit b 1) n \<longleftrightarrow> n = b \<or> bit w n"
  using bit_mask[of b n] by (auto simp: bit_or_iff simp del: push_bit_of_1)

lemma bit_clear: "a < 32 \<Longrightarrow> bit ((w :: u32) AND NOT (push_bit a 1)) n \<longleftrightarrow> bit w n \<and> n \<noteq> a"
  using bit_mask[of a n] bit_imp_le_length[of w n]
  by (auto simp: bit_and_iff bit_not_iff_eq simp del: push_bit_of_1)

lemmas hop_bits = bit_set bit_clear mask_bit

text \<open>Going back from a slot reduces its distance.\<close>

lemma psl_back:
  assumes "h < cap" "s < cap" "k \<le> psl cap s h" "0 < k"
  shows "psl cap ((s + cap - k) mod cap) h = psl cap s h - k"
proof -
  have d: "psl cap s h < cap" by (rule psl_less[OF assms(2,1)])
  have "(s + cap - k) mod cap = (h + (psl cap s h - k)) mod cap"
    using assms d by (auto simp: psl_def mod_if split: if_splits)
  then show ?thesis using psl_add[OF assms(1), of "psl cap s h - k"] d by simp
qed

section \<open>The invariant\<close>

text \<open>Every slot in use lies in the neighbourhood of its home, and the bitmap there has its bit.\<close>

abbreviation hs_home :: "nat \<Rightarrow> hopscotch_slot \<Rightarrow> nat" where
  "hs_home cap s \<equiv> hash_ckey cap (hs_ckey s)"

definition hop_near :: "nat \<Rightarrow> u32 list \<Rightarrow> nat \<Rightarrow> nat \<Rightarrow> bool" where
  "hop_near cap M h s \<longleftrightarrow> psl cap s h < 8 \<and> bit (M ! h) (psl cap s h)"

definition hs_inv :: "nat \<Rightarrow> hop_tables \<Rightarrow> bool" where
  "hs_inv cap = (\<lambda>(T, M). length T = cap \<and> length M = cap \<and> 8 \<le> cap \<and>
     (\<forall>s < cap. hs_is_valid (T ! s) \<longrightarrow> hop_near cap M (hs_home cap (T ! s)) s))"

definition hs_contents :: "hopscotch_slot list \<Rightarrow> hopscotch_slot set" where
  "hs_contents T = {T ! s |s. s < length T \<and> hs_is_valid (T ! s)}"

lemma hash_ckey_less [simp]: "0 < cap \<Longrightarrow> hash_ckey cap ck < cap"
  by (simp add: hash_ckey_def)

lemma hs_valid_update [simp]: "hs_is_valid s \<Longrightarrow> s\<lparr>hs_is_valid := True\<rparr> = s"
  by (cases s) simp

lemma empty_slot_simps [simp]: "\<not> hs_is_valid empty_slot" "empty_slot\<lparr>hs_is_valid := False\<rparr> = empty_slot"
  by (simp_all add: empty_slot_def)

text \<open>Slots at the same distance from one home are the same slot.\<close>

lemma psl_inj: "psl cap s h = psl cap s' h \<Longrightarrow> s < cap \<Longrightarrow> s' < cap \<Longrightarrow> h < cap \<Longrightarrow> s = s'"
  by (metis psl_slot)

lemma hop_near_set:
  assumes "hop_near cap M h s \<or> h = h' \<and> psl cap s h = d" "d < 8" "h' < length M"
  shows "hop_near cap (M[h' := (M ! h') OR push_bit d 1]) h s"
proof -
  have "bit (M[h' := (M ! h') OR push_bit d 1] ! h) n \<longleftrightarrow> h = h' \<and> n = d \<or> bit (M ! h) n" for n
    using assms(2,3) bit_set[of d "M ! h'" n] by (cases "h = h'") (simp_all del: push_bit_of_1)
  then show ?thesis using assms(1,2) by (auto simp: hop_near_def simp del: push_bit_of_1)
qed

lemma hop_near_clear:
  assumes "hop_near cap M h s" "\<not> (h = h' \<and> psl cap s h = d)" "d < 8" "h' < length M"
  shows "hop_near cap (M[h' := (M ! h') AND NOT (push_bit d 1)]) h s"
proof -
  have "bit (M[h' := (M ! h') AND NOT (push_bit d 1)] ! h) n \<longleftrightarrow> bit (M ! h) n \<and> \<not> (h = h' \<and> n = d)" for n
    using assms(3,4) bit_clear[of d "M ! h'" n] by (cases "h = h'") (simp_all del: push_bit_of_1)
  then show ?thesis using assms(1,2) by (auto simp: hop_near_def simp del: push_bit_of_1)
qed

lemma hs_inv_place:
  assumes inv: "hs_inv cap (T, M)" and s: "s < cap" "\<not> hs_is_valid (T ! s)"
    and x: "psl cap s (hs_home cap x) < 8" "hs_is_valid x"
  shows "hs_inv cap (T[s := x], M[hs_home cap x := (M ! hs_home cap x) OR push_bit (psl cap s (hs_home cap x)) 1])" (is ?inv)
    and "hs_contents (T[s := x]) = insert x (hs_contents T)" (is ?cont)
proof -
  let ?M = "M[hs_home cap x := (M ! hs_home cap x) OR push_bit (psl cap s (hs_home cap x)) 1]"
  have len: "length T = cap" "length M = cap" "8 \<le> cap" and h: "hs_home cap x < length M"
    using inv s by (auto simp: hs_inv_def)
  have "hop_near cap ?M (hs_home cap (T[s := x] ! j)) j" if j: "j < cap" "hs_is_valid (T[s := x] ! j)" for j
  proof (rule hop_near_set[OF _ x(1) h], cases "j = s")
    case False
    then show "hop_near cap M (hs_home cap (T[s := x] ! j)) j \<or>
        hs_home cap (T[s := x] ! j) = hs_home cap x \<and> psl cap j (hs_home cap (T[s := x] ! j)) = psl cap s (hs_home cap x)"
      using inv j by (simp add: hs_inv_def)
  qed (use s len in simp)
  then show ?inv using len by (simp add: hs_inv_def del: push_bit_of_1)
  show ?cont using len s x(2) by (auto simp: hs_contents_def nth_list_update)
qed

text \<open>Taking a slot out, with its bit.\<close>

lemma hs_inv_remove:
  assumes inv: "hs_inv cap (T, M)" and s: "s < cap" "hs_is_valid (T ! s)"
  shows "hs_inv cap (T[s := empty_slot],
      M[hs_home cap (T ! s) := (M ! hs_home cap (T ! s)) AND NOT (push_bit (psl cap s (hs_home cap (T ! s))) 1)])" (is ?inv)
    and "insert (T ! s) (hs_contents (T[s := empty_slot])) = hs_contents T" (is ?cont)
proof -
  let ?h = "hs_home cap (T ! s)"
  let ?M = "M[?h := (M ! ?h) AND NOT (push_bit (psl cap s ?h) 1)]"
  have len: "length T = cap" "length M = cap" "8 \<le> cap" and h: "?h < cap" and near: "psl cap s ?h < 8"
    using inv s by (auto simp: hs_inv_def hop_near_def)
  have "hop_near cap ?M (hs_home cap (T[s := empty_slot] ! j)) j" if j: "j < cap" "hs_is_valid (T[s := empty_slot] ! j)" for j
  proof (rule hop_near_clear)
    have js: "j \<noteq> s" using j len by auto
    then show "hop_near cap M (hs_home cap (T[s := empty_slot] ! j)) j" using inv j by (simp add: hs_inv_def)
    show "\<not> (hs_home cap (T[s := empty_slot] ! j) = ?h \<and> psl cap j (hs_home cap (T[s := empty_slot] ! j)) = psl cap s ?h)"
      using psl_inj[of cap j ?h s] js s j h by auto
  qed (use near h len in simp_all)
  then show ?inv using len by (simp add: hs_inv_def del: push_bit_of_1)
  show ?cont using s len by (auto simp: hs_contents_def nth_list_update)
qed

section \<open>Moving the free slot\<close>

text \<open>A move places the candidate in the free slot and takes it out of its own: order does not matter.\<close>

lemma hs_move_from_correct:
  assumes "hs_inv cap (T, M)" "free < cap" "\<not> hs_is_valid (T ! free)"
    and "hs_move_from cap offs free (T, M) = Some (free', T', M')" "\<forall>k \<in> set offs. 1 \<le> k \<and> k < 8"
  shows "hs_inv cap (T', M') \<and> \<not> hs_is_valid (T' ! free') \<and> hs_contents T' = hs_contents T \<and>
    (\<exists>k \<in> set offs. free' = (free + cap - k) mod cap)"
  using assms(4,5)
proof (induction offs)
  case (Cons k offs)
  let ?c = "(free + cap - k) mod cap"
  let ?x = "T ! ?c"
  let ?h = "hs_home cap ?x"
  let ?d = "psl cap ?c ?h" and ?d' = "psl cap free ?h"
  show ?case
  proof (cases "hs_is_valid ?x \<and> ?d < 8 \<and> bit (M ! ?h) ?d \<and> ?d' < 8")
    case False
    then have "hs_move_from cap (k # offs) free (T, M) = hs_move_from cap offs free (T, M)"
      by (auto simp: hs_try_move_def Let_def hs_distance_psl mask_bit simp del: push_bit_of_1)
    then show ?thesis using Cons by auto
  next
    case True
    let ?M = "M[?h := (M ! ?h) AND NOT (push_bit ?d 1)]"
    let ?M' = "?M[?h := (?M ! ?h) OR push_bit ?d' 1]"
    have "hs_move_from cap (k # offs) free (T, M) = Some (?c, T[free := ?x, ?c := empty_slot], ?M')"
      using True by (simp add: hs_try_move_def Let_def hs_distance_psl mask_bit del: push_bit_of_1)
    with Cons.prems(1) have "Some (?c, T[free := ?x, ?c := empty_slot], ?M') = Some (free', T', M')" by (simp only:)
    note eqs = this[unfolded option.inject prod.inject]
    note r = eqs[THEN conjunct1, symmetric] eqs[THEN conjunct2, THEN conjunct1, symmetric]
      eqs[THEN conjunct2, THEN conjunct2, symmetric]
    have len: "length T = cap" using assms(1) by (simp add: hs_inv_def)
    have c: "?c < cap" "?c \<noteq> free" using True assms(2,3) by auto
    then have swap: "T' = T[?c := empty_slot, free := ?x]" using r(2) by (simp add: list_update_swap)
    note remove = hs_inv_remove[OF assms(1) c(1) conjunct1[OF True]]
    have fr: "\<not> hs_is_valid (T[?c := empty_slot] ! free)" using assms(3) c len by simp
    have "?d' < 8" "hs_is_valid ?x" using True by simp_all
    note place = hs_inv_place[OF remove(1) assms(2) fr this]
    have "hs_contents T' = hs_contents T" using place(2) remove(2) swap by simp
    moreover have "hs_inv cap (T', M')" using place(1) swap r(3) by simp
    moreover have "\<not> hs_is_valid (T' ! free')" using r(1,2) c len by simp
    ultimately show ?thesis using r(1) by auto
  qed
qed simp

text \<open>Every move brings the free slot closer to the home, so the loop ends within the capacity.\<close>

lemma move_slot_closer_correct:
  assumes "hs_inv cap (T, M)" "free < cap" "\<not> hs_is_valid (T ! free)"
    and "move_slot_closer cap free (T, M) = Some (free', T', M')"
  shows "hs_inv cap (T', M')" "\<not> hs_is_valid (T' ! free')" "hs_contents T' = hs_contents T" "free' < cap"
    "home < cap \<Longrightarrow> 8 \<le> psl cap free home \<Longrightarrow> psl cap free' home < psl cap free home"
proof -
  have *: "hs_inv cap (T', M') \<and> \<not> hs_is_valid (T' ! free') \<and> hs_contents T' = hs_contents T \<and>
    (\<exists>k \<in> set [1..<8]. free' = (free + cap - k) mod cap)"
    using hs_move_from_correct[OF assms(1-3), of "[1..<8]"] assms(4) by (simp add: move_slot_closer_def)
  then show "hs_inv cap (T', M')" "\<not> hs_is_valid (T' ! free')" "hs_contents T' = hs_contents T" by blast+
  from * obtain k where k: "1 \<le> k" "k < 8" "free' = (free + cap - k) mod cap" by auto
  then show "free' < cap" using assms(2) by simp
  assume "home < cap" "8 \<le> psl cap free home"
  then show "psl cap free' home < psl cap free home"
    using psl_back[of home cap free k] assms(2) k by simp
qed

lemma hop_closer_correct:
  assumes "hs_inv cap (T, M)" "free < cap" "\<not> hs_is_valid (T ! free)" "home < cap" "psl cap free home < fuel"
  shows "\<exists>r. hop_closer fuel cap home free (T, M) = Inr r \<and>
    (case r of None \<Rightarrow> True
     | Some (free', T', M') \<Rightarrow> hs_inv cap (T', M') \<and> free' < cap \<and> \<not> hs_is_valid (T' ! free') \<and>
         psl cap free' home < 8 \<and> hs_contents T' = hs_contents T)"
  using assms
proof (induction fuel arbitrary: free T M)
  case (Suc fuel)
  show ?case
  proof (cases "8 \<le> psl cap free home")
    case False
    then show ?thesis using Suc.prems by (simp add: hs_distance_psl)
  next
    case far: True
    show ?thesis
    proof (cases "move_slot_closer cap free (T, M)")
      case None
      then show ?thesis using far by (simp add: hs_distance_psl)
    next
      case (Some m)
      obtain free' T' M' where m: "m = (free', T', M')" by (cases m)
      note step = move_slot_closer_correct[OF Suc.prems(1-3) Some[unfolded m]]
      have eq: "hop_closer (Suc fuel) cap home free (T, M) = hop_closer fuel cap home free' (T', M')"
        using far Some m by (simp add: hs_distance_psl)
      have lt: "psl cap free' home < fuel" using step(5)[OF Suc.prems(4) far] Suc.prems(5) by simp
      show ?thesis unfolding eq by (rule Suc.IH[OF step(1,4,2) Suc.prems(4) lt, unfolded step(3)])
    qed
  qed
qed simp

lemma scan_free_correct:
  assumes "scan_free T cap rounds slot = Some free" "0 < cap" "slot < cap"
  shows "free < cap" "\<not> hs_is_valid (T ! free)"
  using assms by (induction T cap rounds slot rule: scan_free.induct) (auto split: if_splits)

lemma insert_slot_correct:
  assumes "hs_inv cap (T, M)" "hs_is_valid x"
  shows "\<exists>r. insert_slot cap x (T, M) = Inr r \<and>
    (case r of None \<Rightarrow> True | Some (T', M') \<Rightarrow> hs_inv cap (T', M') \<and> hs_contents T' = insert x (hs_contents T))"
proof (cases "scan_free T cap cap (hs_home cap x)")
  case None
  then show ?thesis by (simp add: insert_slot_def Let_def)
next
  case (Some free)
  have cap: "0 < cap" using assms by (auto simp: hs_inv_def)
  note fr = scan_free_correct[OF Some cap hash_ckey_less[OF cap]]
  from hop_closer_correct[OF assms(1) fr hash_ckey_less[OF cap] psl_less[OF fr(1) hash_ckey_less[OF cap]]]
  obtain r where r: "hop_closer cap cap (hs_home cap x) free (T, M) = Inr r"
    "case r of None \<Rightarrow> True | Some (free', T', M') \<Rightarrow> hs_inv cap (T', M') \<and> free' < cap \<and> \<not> hs_is_valid (T' ! free') \<and>
         psl cap free' (hs_home cap x) < 8 \<and> hs_contents T' = hs_contents T" by blast
  show ?thesis
  proof (cases r)
    case None
    then show ?thesis using Some r(1) by (simp add: insert_slot_def Let_def)
  next
    case r': (Some m)
    obtain free' T' M' where m: "m = (free', T', M')" by (cases m)
    have ok: "hs_inv cap (T', M')" "free' < cap" "\<not> hs_is_valid (T' ! free')" "psl cap free' (hs_home cap x) < 8"
      "hs_contents T' = hs_contents T" using r(2) r' m by simp_all
    note place = hs_inv_place[OF ok(1-4) assms(2)]
    show ?thesis
      using Some r(1) r' m place ok(5) assms(2) by (simp add: insert_slot_def Let_def hs_distance_psl del: push_bit_of_1)
  qed
qed

lemma insert_slots_correct:
  assumes "hs_inv cap (T, M)" "\<forall>s \<in> set slots. hs_is_valid s"
  shows "\<exists>r. insert_slots cap slots (T, M) = Inr r \<and>
    (case r of None \<Rightarrow> True | Some (T', M') \<Rightarrow> hs_inv cap (T', M') \<and> hs_contents T' = set slots \<union> hs_contents T)"
  using assms
proof (induction slots arbitrary: T M)
  case (Cons s slots)
  obtain r where r: "insert_slot cap s (T, M) = Inr r"
    "case r of None \<Rightarrow> True | Some (T', M') \<Rightarrow> hs_inv cap (T', M') \<and> hs_contents T' = insert s (hs_contents T)"
    using insert_slot_correct[OF Cons.prems(1), of s] Cons.prems(2) by auto
  show ?case
  proof (cases r)
    case (Some m)
    obtain T' M' where m: "m = (T', M')" by (cases m)
    then have ok: "hs_inv cap (T', M')" "hs_contents T' = insert s (hs_contents T)" using r(2) Some by simp_all
    from Cons.IH[OF ok(1)] Cons.prems(2) show ?thesis using r(1) Some m ok(2) by (auto split: option.splits)
  qed (use r(1) in simp)
qed simp

section \<open>Build and probe\<close>

lemma hs_grow_correct:
  assumes "16 \<le> cap" "\<forall>s \<in> set slots. hs_is_valid s"
  shows "case hs_grow max_slots cap slots of
    Inl e \<Rightarrow> e = Bad_alloc
  | Inr (c, T, M) \<Rightarrow> cap \<le> c \<and> c \<le> max_slots \<and> hs_inv c (T, M) \<and> hs_contents T = set slots \<and> (\<exists>j. c = cap * 2 ^ j)"
  using assms
proof (induction max_slots cap slots rule: hs_grow.induct)
  case (1 max_slots cap slots)
  show ?case
  proof (cases "max_slots < cap")
    case True
    then show ?thesis using "1.prems" by (subst hs_grow.simps) simp
  next
    case False
    have "hs_inv cap (replicate cap empty_slot, replicate cap 0)" using "1.prems" by (simp add: hs_inv_def)
    from insert_slots_correct[OF this "1.prems"(2)]
    obtain r where r: "insert_slots cap slots (replicate cap empty_slot, replicate cap 0) = Inr r"
      "case r of None \<Rightarrow> True | Some (T', M') \<Rightarrow> hs_inv cap (T', M') \<and> hs_contents T' = set slots \<union> hs_contents (replicate cap empty_slot)"
      by blast
    have none: "hs_contents (replicate cap empty_slot) = {}" by (auto simp: hs_contents_def)
    have step: "hs_grow max_slots cap slots =
        (case r of Some tables \<Rightarrow> Inr (cap, tables) | None \<Rightarrow> hs_grow max_slots (cap * 2) slots)"
      using False "1.prems" r(1) by (subst hs_grow.simps) simp
    show ?thesis
    proof (cases r)
      case None
      have "case hs_grow max_slots (cap * 2) slots of
          Inl e \<Rightarrow> e = Bad_alloc
        | Inr (c, T, M) \<Rightarrow> cap * 2 \<le> c \<and> c \<le> max_slots \<and> hs_inv c (T, M) \<and> hs_contents T = set slots \<and> (\<exists>j. c = cap * 2 * 2 ^ j)"
        by (rule "1.IH") (use "1.prems" False None r(1) in auto)
      moreover have "\<exists>j. c = cap * 2 ^ j" if "c = cap * 2 * 2 ^ j" for c j
        using that by (intro exI[of _ "Suc j"]) simp
      ultimately show ?thesis unfolding step None by (fastforce split: sum.splits)
    next
      case (Some m)
      then show ?thesis
        unfolding step using r(2) False none by (cases m) (auto intro: exI[of _ 0])
    qed
  qed
qed

definition hs_holds :: "u64 \<Rightarrow> u32 hash_entry list \<Rightarrow> hopscotch \<Rightarrow> bool" where
  "hs_holds tid entries t \<longleftrightarrow>
     entries = [] \<and> hs_capacity t = 0 \<or>
     (\<exists>infos. infos_ok entries infos (hs_storage t) \<and> hs_inv (hs_capacity t) (hs_table t, hs_hop_map t) \<and>
        hs_contents (hs_table t) = make_slot tid ` set infos)"

lemma hs_build_correct:
  "case hs_build max_slots tid (entry_pairs entries) t of Inl e \<Rightarrow> e = Bad_alloc | Inr t' \<Rightarrow> hs_holds tid entries t'"
proof (cases "entries = []")
  case True
  then show ?thesis by (simp add: hs_build_def entry_pairs_def hs_holds_def)
next
  case False
  obtain infos storage where s: "store_groups (group_entries (entry_pairs entries)) [] = (infos, storage)"
    by (cases "store_groups (group_entries (entry_pairs entries)) []")
  let ?slots = "map (make_slot tid) infos"
  have cap: "16 \<le> hs_initial_capacity (length ?slots)" by (simp add: hs_initial_capacity_def Let_def)
  have valid: "\<forall>s \<in> set ?slots. hs_is_valid s" by (auto simp: make_slot_def)
  have "entry_pairs entries \<noteq> []" using False by (simp add: entry_pairs_def)
  then show ?thesis
    using hs_grow_correct[OF cap valid, where max_slots = max_slots] s store_groups_ok[OF s]
    by (auto simp: hs_build_def hs_holds_def split: sum.splits)
qed

text \<open>The loop over the set bits finds the slot of the key, or there is none.\<close>

lemma hs_probe_from_correct:
  "(\<exists>off \<in> set offs. bit bitmap off \<and> hs_is_valid (hs_table t ! ((home + off) mod hs_capacity t)) \<and>
      hs_ckey (hs_table t ! ((home + off) mod hs_capacity t)) = ck \<and>
      hs_probe_from t ck home bitmap offs =
        Some (slot_entries (hs_storage t) (hs_table t ! ((home + off) mod hs_capacity t)))) \<or>
   (hs_probe_from t ck home bitmap offs = None \<and>
     (\<forall>off \<in> set offs. bit bitmap off \<longrightarrow> hs_is_valid (hs_table t ! ((home + off) mod hs_capacity t)) \<longrightarrow>
        hs_ckey (hs_table t ! ((home + off) mod hs_capacity t)) \<noteq> ck))"
  by (induction offs) (auto simp: Let_def mask_bit simp del: push_bit_of_1)

lemma hs_probe_correct:
  assumes "hs_holds tid entries t"
  shows "bucket (hs_probe tid k t) = with_key k entries"
proof (cases "hs_capacity t = 0")
  case True
  then show ?thesis using assms by (auto simp: hs_probe_def hs_holds_def hs_inv_def)
next
  case False
  then obtain infos where ok: "infos_ok entries infos (hs_storage t)"
    "hs_inv (hs_capacity t) (hs_table t, hs_hop_map t)" "hs_contents (hs_table t) = make_slot tid ` set infos"
    using assms by (auto simp: hs_holds_def)
  let ?cap = "hs_capacity t" and ?T = "hs_table t" and ?ck = "make_ckey tid k"
  let ?home = "hash_ckey ?cap ?ck"
  let ?at = "\<lambda>off. ?T ! ((?home + off) mod ?cap)"
  have len: "length ?T = ?cap" "0 < ?cap" using ok(2) False by (auto simp: hs_inv_def)
  have probe: "hs_probe tid k t = hs_probe_from t ?ck ?home (hs_hop_map t ! ?home) [0..<8]"
    using False by (simp add: hs_probe_def Let_def)
  have "(\<exists>i \<in> set infos. kii_key i = k \<and> hs_probe tid k t = Some (info_entries (hs_storage t) i)) \<or>
      (hs_probe tid k t = None \<and> (\<forall>i \<in> set infos. kii_key i \<noteq> k))"
    using hs_probe_from_correct[of "[0..<8]" "hs_hop_map t ! ?home" t ?home ?ck, folded probe]
  proof (elim disjE bexE conjE)
    fix off
    assume "hs_is_valid (?at off)" "hs_ckey (?at off) = ?ck" and p: "hs_probe tid k t = Some (slot_entries (hs_storage t) (?at off))"
    then have "?at off \<in> make_slot tid ` set infos" using len unfolding ok(3)[symmetric] hs_contents_def by auto
    then obtain i where i: "i \<in> set infos" "?at off = make_slot tid i" by blast
    have "kii_key i = k" using \<open>hs_ckey (?at off) = ?ck\<close> unfolding i(2) by (simp add: make_slot_def make_ckey_inj)
    moreover have "slot_entries (hs_storage t) (?at off) = info_entries (hs_storage t) i"
      unfolding i(2) by (simp add: slot_entries_def info_entries_def make_slot_def)
    ultimately show ?thesis using i(1) p by auto
  next
    assume p: "hs_probe tid k t = None" and none: "\<forall>off \<in> set [0..<8]. bit (hs_hop_map t ! ?home) off \<longrightarrow>
      hs_is_valid (?at off) \<longrightarrow> hs_ckey (?at off) \<noteq> ?ck"
    have "kii_key i \<noteq> k" if "i \<in> set infos" for i
    proof
      assume "kii_key i = k"
      then have ck: "hs_ckey (make_slot tid i) = ?ck" by (simp add: make_slot_def)
      have "make_slot tid i \<in> hs_contents ?T" using that ok(3) by simp
      then obtain s where s: "s < ?cap" "hs_is_valid (?T ! s)" "?T ! s = make_slot tid i"
        using len by (auto simp: hs_contents_def)
      then have "hop_near ?cap (hs_hop_map t) ?home s" using ok(2) ck by (auto simp: hs_inv_def)
      moreover have "?at (psl ?cap s ?home) = ?T ! s" using psl_slot[OF s(1), of ?home] len by simp
      ultimately show False using none s ck by (auto simp: hop_near_def)
    qed
    then show ?thesis using p by blast
  qed
  then show ?thesis by (rule infos_ok_bucket[OF ok(1)])
qed

interpretation hopscotch: join_table "hopscotch_wrapper max_slots tid" "\<lambda>t. True" "\<lambda>es. True" "{Bad_alloc}" for max_slots tid
proof (rule wrapper_join_table[where backend_build = "hs_build max_slots tid"])
  show "e \<in> {Bad_alloc}" if "hs_build max_slots tid (entry_pairs es) t = Inl e" for t es e
    using hs_build_correct[of tid es max_slots t] that by simp
  show "with_key k (bucket (iht_probe (hopscotch_wrapper max_slots tid) k t')) = with_key k es"
    if "hs_build max_slots tid (entry_pairs es) t = Inr t'" for t es t' k
    using hs_build_correct[of tid es max_slots t] that by (simp add: hopscotch_wrapper_def hs_probe_correct)
qed (simp_all add: hopscotch_wrapper_def)

section \<open>Colliding keys\<close>

text \<open>No two slots of one home share a distance, so nine slots cannot have one home.\<close>

lemma hs_inv_home_card:
  assumes "hs_inv cap (T, M)" "h < cap"
  shows "card {x \<in> hs_contents T. hs_home cap x = h} \<le> 8"
proof -
  let ?X = "{x \<in> hs_contents T. hs_home cap x = h}"
  have "?X \<subseteq> (\<lambda>d. T ! ((h + d) mod cap)) ` {..<8}"
  proof
    fix x assume "x \<in> ?X"
    then obtain s where s: "s < cap" "hs_is_valid (T ! s)" "x = T ! s" "hs_home cap x = h"
      using assms(1) by (auto simp: hs_contents_def hs_inv_def)
    then have "psl cap s h < 8" using assms(1) by (auto simp: hs_inv_def hop_near_def)
    moreover have "x = T ! ((h + psl cap s h) mod cap)" using psl_slot[OF s(1) assms(2)] s(3) by simp
    ultimately show "x \<in> (\<lambda>d. T ! ((h + d) mod cap)) ` {..<8}" by blast
  qed
  then show ?thesis using card_mono[of "(\<lambda>d. T ! ((h + d) mod cap)) ` {..<8}" ?X]
      card_image_le[of "{..<8 :: nat}" "\<lambda>d. T ! ((h + d) mod cap)"] by simp
qed

text \<open>The composite key of a key that is not negative, as a number.\<close>

lemma unat_make_ckey:
  assumes "\<not> bit k 31"
  shows "unat (make_ckey tid k) = unat (push_bit 48 tid) + unat k"
proof -
  have k: "bit (scast k :: u64) n \<longleftrightarrow> bit k n" for n
    using assms bit_imp_le_length[of k n] by (cases "n < 31"; cases "n = 31") (auto simp: bit_signed_iff min_def)
  have "unat (push_bit 48 tid :: u64) AND unat (scast k :: u64) = 0"
    by (rule bit_eqI) (use k bit_imp_le_length[of k] in \<open>fastforce simp: bit_and_iff bit_unsigned_iff bit_push_bit_iff\<close>)
  moreover have "unat (scast k :: u64) = unat k"
    by (rule bit_eqI) (use k bit_imp_le_length[of k] in \<open>auto simp: bit_unsigned_iff\<close>)
  ultimately show ?thesis
    by (simp add: make_ckey_def unsigned_or_eq flip: disjunctive_add_eq_or)
qed

definition hop_clash_entries :: "u32 hash_entry list" where
  "hop_clash_entries = map (\<lambda>i. \<lparr>he_key = of_nat (i * 20971520), he_row_id = of_nat i\<rparr>) [0..<9]"

text \<open>C28. A hopscotch table, whatever the type tag and the memory, is either built right, probing
  to exactly the row ids of the key in the order of the build side, or the allocation of a doubled
  table has failed. Both inner loops of the insertion end: every \<open>move_slot_closer\<close> brings the free slot nearer to
  the home. No state left by an earlier build matters.\<close>

theorem hopscotch_build_probe:
  "case iht_build_from_entries (hopscotch_wrapper max_slots tid) entries t of
     Inl e \<Rightarrow> e = Bad_alloc
   | Inr t' \<Rightarrow> (\<forall>k. bucket (iht_probe (hopscotch_wrapper max_slots tid) k t') = with_key k entries)"
  using hs_build_correct[of tid entries max_slots t]
  by (auto simp: hopscotch_wrapper_def wrapper_build_from_entries_def hs_probe_correct split: sum.splits)

lemma hop_clash_home:
  assumes "i < 9" "j < 21"
  shows "hash_ckey (20 * 2 ^ j) (make_ckey tid (of_nat (i * 20971520))) = hash_ckey (20 * 2 ^ j) (push_bit 48 tid)"
proof -
  let ?k = "of_nat (i * 20971520) :: u32"
  have u: "unat ?k = i * 20971520" unfolding unat_of_nat using assms(1) by simp
  have "\<not> bit (unat ?k) 31" unfolding u using assms(1) by (simp add: bit_iff_odd)
  then have "\<not> bit ?k 31" by (simp add: bit_unsigned_iff del: of_nat_mult)
  have "(20 :: nat) * 2 ^ j dvd 20971520"
    using mult_dvd_mono[of 20 20 "2 ^ j" "2 ^ 20 :: nat"] le_imp_power_dvd[of j 20 "2 :: nat"] assms(2) by simp
  then have "(unat (push_bit 48 tid :: u64) + i * 20971520) mod (20 * 2 ^ j) = unat (push_bit 48 tid :: u64) mod (20 * 2 ^ j)"
    by (metis dvd_imp_mod_0 dvd_mult mod_add_right_eq add.right_neutral)
  then show ?thesis using unat_make_ckey[OF \<open>\<not> bit ?k 31\<close>, of tid] u by (simp add: hash_ckey_def)
qed

lemma hop_clash_infos:
  "map kii_key (fst (store_groups (group_entries (entry_pairs hop_clash_entries)) [])) = map (\<lambda>i. of_nat (i * 20971520)) [0..<9]"
  by (simp add: hop_clash_entries_def upt_rec entry_pairs_def group_entries_def store_groups_def store_group_def)

text \<open>C29. Nine rows can take 41,943,040 slots (over a gigabyte): the keys 0, 20971520, 2 * 20971520, ..., 8 * 20971520 share
  a home at every capacity below that, a neighbourhood has eight places, and nothing but memory
  stops the doubling. The bound \<open>HARD_CAP\<close> that the build computes (101,152 for nine keys) is never
  consulted.\<close>

theorem hopscotch_nine_keys_exhaust:
  "iht_build_from_entries (hopscotch_wrapper 41943039 tid) hop_clash_entries (iht_new (hopscotch_wrapper 41943039 tid)) = Inl Bad_alloc"
proof -
  obtain infos storage where st: "store_groups (group_entries (entry_pairs hop_clash_entries)) [] = (infos, storage)"
    by (cases "store_groups (group_entries (entry_pairs hop_clash_entries)) []")
  then have kk: "map kii_key infos = map (\<lambda>i. of_nat (i * 20971520)) [0..<9]" using hop_clash_infos by simp
  then have "length infos = 9" using arg_cong[OF kk, of length] unfolding length_map by simp
  note s = st this kk
  let ?slots = "map (make_slot tid) infos"
  have keys: "kii_key ` set infos = (\<lambda>i. of_nat (i * 20971520)) ` {..<9}"
    using arg_cong[OF s(3), of set] by (simp add: atLeast0LessThan)
  have dist: "distinct ?slots"
    using store_groups_ok[OF s(1)] by (auto simp: infos_ok_def distinct_map inj_on_def make_slot_def make_ckey_inj)
  have "hs_grow 41943039 20 ?slots = Inl Bad_alloc"
  proof (cases "hs_grow 41943039 20 ?slots")
    case (Inl e)
    then show ?thesis using hs_grow_correct[of 20 ?slots 41943039] by (auto simp: make_slot_def)
  next
    case (Inr r)
    obtain c T M where r: "r = (c, T, M)" by (cases r)
    obtain j where j: "c \<le> 41943039" "hs_inv c (T, M)" "hs_contents T = set ?slots" "c = 20 * 2 ^ j"
      using hs_grow_correct[of 20 ?slots 41943039] Inr r by (auto simp: make_slot_def)
    have "j < 21"
    proof (rule ccontr)
      assume "\<not> j < 21"
      then have "(2 :: nat) ^ 21 \<le> 2 ^ j" by (intro power_increasing) simp_all
      then show False using j(1,4) by simp
    qed
    let ?h = "hash_ckey c (push_bit 48 tid)"
    have "hs_home c x = ?h" if x: "x \<in> set ?slots" for x
    proof -
      obtain i where "i \<in> set infos" "x = make_slot tid i" using x by auto
      moreover obtain n :: nat where "n < 9" "kii_key i = of_nat (n * 20971520)"
        using keys calculation(1) by (metis (no_types, lifting) imageE imageI lessThan_iff)
      ultimately show ?thesis using hop_clash_home[OF _ \<open>j < 21\<close>, of n tid] j(4) by (simp add: make_slot_def)
    qed
    then have "{x \<in> hs_contents T. hs_home c x = ?h} = set ?slots" using j(3) by auto
    then have "card (set ?slots) \<le> 8" using hs_inv_home_card[OF j(2), of ?h] j(4) by simp
    then show ?thesis using distinct_card[OF dist] s(2) by simp
  qed
  moreover have "hs_initial_capacity (length ?slots) = 20" using s(2) by (simp add: hs_initial_capacity_def Let_def)
  moreover have "entry_pairs hop_clash_entries \<noteq> []" by (simp add: entry_pairs_def hop_clash_entries_def)
  ultimately have "hs_build 41943039 tid (entry_pairs hop_clash_entries) hs_new = Inl Bad_alloc"
    using s(1) by (simp add: hs_build_def)
  then show ?thesis by (simp add: hopscotch_wrapper_def wrapper_build_from_entries_def)
qed

end
