(* ===== verification/TableChoice.thy ===== *)
theory TableChoice
  imports JoinExec RobinHood Cuckoo Hopscotch
begin

text \<open>
  The engine is compiled with one of four hash tables behind the interface of
  \<open>include/hashtable_interface.h\<close>: each wrapper header defines the \<open>create_hashtable\<close> that
  \<open>run_int32\<close> calls. All four meet the contract \<open>join_table\<close>, so the correctness of the join, proved once
  for the contract, holds for each of them.
\<close>

text \<open>What every table guarantees: the join either ends with one of the exceptions of the table's build, or it
  computes the projected pairs.\<close>

context join_table begin

lemma table_outcome:
  assumes ok: "join_inputs_ok left right left_col right_col attrs"
    and threads: "threads_ok env en (cb_num_rows (if bl then right else left))"
    and fits: "fits (key_entries (if bl then key_column left left_col else key_column right right_col))"
  shows "case run_int32 vt env bl left right (fresh_results attrs) left_col right_col attrs en of
      Inl e \<Rightarrow> e \<in> failures
    | Inr (res, en') \<Rightarrow>
        mset (buffer_rows res) = mset (map (join_row left right attrs) (buffer_join_pairs bl left right left_col right_col))"
  using run_int32_correct[OF ok threads fits, of "fresh_results attrs"]
  by (auto simp: fresh_results_def buffer_new_def join_result_def Let_def)

end

section \<open>Properties\<close>

text \<open>C7. The hash table the engine is compiled with does not change what a join computes: with the Robin Hood
  table it returns the same rows as with the default table; with the cuckoo and the hopscotch table
  it returns them unless the build throws, the cuckoo table its own exception, the hopscotch table for
  lack of memory. This holds for every hash function and for every schedule of the probing threads.\<close>

theorem join_with_any_table:
  assumes "join_inputs_ok left right left_col right_col attrs"
    and "threads_ok env en (cb_num_rows (if bl then right else left))"
  shows "\<exists>res en' res1 en1.
    run_int32 unchained_wrapper env bl left right (fresh_results attrs) left_col right_col attrs en = Inr (res, en') \<and>
    run_int32 robin_hood_wrapper env bl left right (fresh_results attrs) left_col right_col attrs en = Inr (res1, en1) \<and>
    mset (buffer_rows res1) = mset (buffer_rows res) \<and>
    (case run_int32 (cuckoo_wrapper std_hash) env bl left right (fresh_results attrs) left_col right_col attrs en of
       Inl e \<Rightarrow> e = ck_failure
     | Inr (res2, en2) \<Rightarrow> mset (buffer_rows res2) = mset (buffer_rows res)) \<and>
    (case run_int32 (hopscotch_wrapper max_slots tid) env bl left right (fresh_results attrs) left_col right_col attrs en of
       Inl e \<Rightarrow> e = Bad_alloc
     | Inr (res3, en3) \<Rightarrow> mset (buffer_rows res3) = mset (buffer_rows res))"
proof -
  let ?rows = "mset (map (join_row left right attrs) (buffer_join_pairs bl left right left_col right_col))"
  have ks: "length (key_entries (if bl then key_column left left_col else key_column right right_col)) < 2 ^ 32"
    using assms(1) length_key_entries[of "key_column left left_col"] length_key_entries[of "key_column right right_col"]
    by (auto simp: join_inputs_ok_def length_key_column)
  obtain res en' where default:
    "run_int32 unchained_wrapper env bl left right (fresh_results attrs) left_col right_col attrs en = Inr (res, en')"
    "mset (buffer_rows res) = ?rows"
    using unchained.table_outcome[OF assms ks] by (auto split: sum.splits)
  obtain res1 en1 where robin_hood:
    "run_int32 robin_hood_wrapper env bl left right (fresh_results attrs) left_col right_col attrs en = Inr (res1, en1)"
    "mset (buffer_rows res1) = ?rows"
    using robin_hood.table_outcome[OF assms TrueI] by (auto split: sum.splits)
  have "case run_int32 (cuckoo_wrapper std_hash) env bl left right (fresh_results attrs) left_col right_col attrs en of
       Inl e \<Rightarrow> e = ck_failure
     | Inr (res2, en2) \<Rightarrow> mset (buffer_rows res2) = mset (buffer_rows res)"
    using cuckoo.table_outcome[OF assms TrueI, of std_hash] default(2) by (auto split: sum.splits)
  moreover have "case run_int32 (hopscotch_wrapper max_slots tid) env bl left right (fresh_results attrs) left_col right_col attrs en of
       Inl e \<Rightarrow> e = Bad_alloc
     | Inr (res3, en3) \<Rightarrow> mset (buffer_rows res3) = mset (buffer_rows res)"
    using hopscotch.table_outcome[OF assms TrueI, of max_slots tid] default(2) by (auto split: sum.splits)
  ultimately show ?thesis using default robin_hood by (intro exI[of _ res] exI[of _ en'] exI[of _ res1] exI[of _ en1]) simp
qed

lemma join_with_any_table_witness:
  "\<exists>res en' res1 en1.
    run_int32 unchained_wrapper example_env True example_left example_right (fresh_results example_attrs) 0 0
      example_attrs example_engine = Inr (res, en') \<and>
    run_int32 robin_hood_wrapper example_env True example_left example_right (fresh_results example_attrs) 0 0
      example_attrs example_engine = Inr (res1, en1) \<and>
    mset (buffer_rows res1) = mset (buffer_rows res)"
proof -
  have "cb_num_rows example_right = 3" by (simp add: example_right_def)
  then have "threads_ok example_env example_engine (cb_num_rows (if True then example_right else example_left))"
    using example_threads by simp
  from join_with_any_table[OF example_inputs this] show ?thesis by blast
qed

end
