(* ===== verification/CuckooMap.thy ===== *)
theory CuckooMap
  imports Prelude
begin

text \<open>
  \<open>CuckooMap<Key, Value, Hash>\<close> (\<open>include/cuckoo_map.h\<close>), a map with insertion, lookup and update. A
  bucket is an option: an unoccupied bucket's key and value are never read. \<open>std::move\<close> of a key or value is
  taken to leave it as it is, as it does for the trivially copyable types of the engine. The hasher and
  the number \<open>max_slots\<close> of buckets that can be allocated per table are parameters: \<open>insert\<close> rehashes until
  it succeeds, so what ends a hopeless insertion is the exception of \<open>rehash\<close> or the memory.

  The map refines a finite map: \<open>find\<close> is its lookup, \<open>upsert\<close> its update.
\<close>

section \<open>Operations\<close>

type_synonym ('k, 'v) buckets = "('k \<times> 'v) option list"

record ('k, 'v) cuckoo_map =
  cm_table1 :: "('k, 'v) buckets"
  cm_table2 :: "('k, 'v) buckets"
  cm_table_size :: nat
  cm_num_elements :: nat

definition cm_new :: "nat \<Rightarrow> ('k, 'v) cuckoo_map" where
  "cm_new n = \<lparr>cm_table1 = replicate n None, cm_table2 = replicate n None, cm_table_size = n, cm_num_elements = 0\<rparr>"

definition cm_hash1 :: "('k \<Rightarrow> u64) \<Rightarrow> nat \<Rightarrow> 'k \<Rightarrow> nat" where
  "cm_hash1 hasher table_size key = unat (hasher key) mod table_size"

definition cm_hash2 :: "('k \<Rightarrow> u64) \<Rightarrow> nat \<Rightarrow> 'k \<Rightarrow> nat" where
  "cm_hash2 hasher table_size key = unat (drop_bit 16 (hasher key)) mod table_size"

text \<open>\<open>insert_core\<close> by the iterations left: the map and, on failure, the element that was displaced last.\<close>

fun cm_insert_rounds ::
    "('k \<Rightarrow> u64) \<Rightarrow> nat \<Rightarrow> 'k \<times> 'v \<Rightarrow> ('k, 'v) cuckoo_map \<Rightarrow> ('k, 'v) cuckoo_map \<times> ('k \<times> 'v) option" where
  "cm_insert_rounds hasher 0 kv m = (m, Some kv)"
| "cm_insert_rounds hasher (Suc i) kv m =
     (let h1 = cm_hash1 hasher (cm_table_size m) (fst kv)
      in case cm_table1 m ! h1 of
           None \<Rightarrow> (m\<lparr>cm_table1 := (cm_table1 m)[h1 := Some kv], cm_num_elements := cm_num_elements m + 1\<rparr>, None)
         | Some kv1 \<Rightarrow>
             let m = m\<lparr>cm_table1 := (cm_table1 m)[h1 := Some kv]\<rparr>;
                 h2 = cm_hash2 hasher (cm_table_size m) (fst kv1)
             in case cm_table2 m ! h2 of
                  None \<Rightarrow> (m\<lparr>cm_table2 := (cm_table2 m)[h2 := Some kv1], cm_num_elements := cm_num_elements m + 1\<rparr>, None)
                | Some kv2 \<Rightarrow> cm_insert_rounds hasher i kv2 (m\<lparr>cm_table2 := (cm_table2 m)[h2 := Some kv1]\<rparr>))"

definition cm_insert_core ::
    "('k \<Rightarrow> u64) \<Rightarrow> 'k \<times> 'v \<Rightarrow> ('k, 'v) cuckoo_map \<Rightarrow> ('k, 'v) cuckoo_map \<times> ('k \<times> 'v) option" where
  "cm_insert_core hasher = cm_insert_rounds hasher 100"

fun cm_insert_elements :: "('k \<Rightarrow> u64) \<Rightarrow> ('k \<times> 'v) list \<Rightarrow> ('k, 'v) cuckoo_map \<Rightarrow> ('k, 'v) cuckoo_map option" where
  "cm_insert_elements hasher [] m = Some m"
| "cm_insert_elements hasher (kv # elements) m =
     (case cm_insert_core hasher kv m of
        (m, None) \<Rightarrow> cm_insert_elements hasher elements m
      | (m, Some displaced) \<Rightarrow> None)"

definition cm_elements :: "('k, 'v) cuckoo_map \<Rightarrow> ('k \<times> 'v) list" where
  "cm_elements m = List.map_filter (\<lambda>b. b) (cm_table1 m) @ List.map_filter (\<lambda>b. b) (cm_table2 m)"

text \<open>\<open>rehash\<close>, by the attempts left of five.\<close>

definition cm_failure :: exn where
  "cm_failure = Runtime_error ''CuckooMap: Failed to rehash. Check hash functions.''"

fun cm_rehash_attempts ::
    "('k \<Rightarrow> u64) \<Rightarrow> nat \<Rightarrow> nat \<Rightarrow> nat \<Rightarrow> ('k \<times> 'v) list \<Rightarrow> ('k, 'v) cuckoo_map res" where
  "cm_rehash_attempts hasher max_slots 0 table_size elements = Inl cm_failure"
| "cm_rehash_attempts hasher max_slots (Suc attempts) table_size elements =
     (if max_slots < table_size * 2 then Inl Bad_alloc
      else case cm_insert_elements hasher elements (cm_new (table_size * 2)) of
             Some m \<Rightarrow> Inr m
           | None \<Rightarrow> cm_rehash_attempts hasher max_slots attempts (table_size * 2) elements)"

definition cm_rehash :: "('k \<Rightarrow> u64) \<Rightarrow> nat \<Rightarrow> ('k, 'v) cuckoo_map \<Rightarrow> ('k, 'v) cuckoo_map res" where
  "cm_rehash hasher max_slots m = cm_rehash_attempts hasher max_slots 5 (cm_table_size m) (cm_elements m)"

definition cm_find :: "('k \<Rightarrow> u64) \<Rightarrow> 'k \<Rightarrow> ('k, 'v) cuckoo_map \<Rightarrow> 'v option" where
  "cm_find hasher key m =
     (let b1 = cm_table1 m ! cm_hash1 hasher (cm_table_size m) key;
          b2 = cm_table2 m ! cm_hash2 hasher (cm_table_size m) key
      in if b1 \<noteq> None \<and> fst (the b1) = key then Some (snd (the b1))
         else if b2 \<noteq> None \<and> fst (the b2) = key then Some (snd (the b2))
         else None)"

lemma cm_insert_rounds_size: "cm_table_size (fst (cm_insert_rounds hasher i kv m)) = cm_table_size m"
  by (induction i arbitrary: kv m) (simp_all add: Let_def split: option.split)

lemma cm_insert_elements_size: "cm_insert_elements hasher es m = Some m' \<Longrightarrow> cm_table_size m' = cm_table_size m"
proof (induction es arbitrary: m)
  case (Cons kv es)
  obtain m1 d where m1: "cm_insert_core hasher kv m = (m1, d)" by (cases "cm_insert_core hasher kv m")
  then have "cm_table_size m1 = cm_table_size m"
    using cm_insert_rounds_size[of hasher 100 kv m] by (simp add: cm_insert_core_def)
  then show ?case using Cons.IH[of m1] Cons.prems m1 by (simp split: option.splits)
qed simp

lemma cm_rehash_size:
  "cm_rehash_attempts hasher max_slots n table_size es = Inr m \<Longrightarrow>
   table_size * 2 \<le> cm_table_size m \<and> cm_table_size m \<le> max_slots"
proof (induction hasher max_slots n table_size es rule: cm_rehash_attempts.induct)
  case (2 hasher max_slots n table_size es)
  then show ?case
    by (auto simp: cm_new_def dest!: cm_insert_elements_size split: if_splits option.splits)
qed simp

lemma cm_retry_decreases:
  assumes "cm_table_size m \<noteq> 0" "cm_rehash hasher max_slots m = Inr m'" "cm_insert_core hasher kv m' = (m'', d)"
  shows "Suc max_slots - cm_table_size m'' < Suc max_slots - cm_table_size m"
proof -
  have "cm_table_size m * 2 \<le> cm_table_size m'" "cm_table_size m' \<le> max_slots"
    using cm_rehash_size[OF assms(2)[unfolded cm_rehash_def]] by simp_all
  moreover have "cm_table_size m'' = cm_table_size m'"
    using assms(3) cm_insert_rounds_size[of hasher 100 kv m'] by (simp add: cm_insert_core_def)
  ultimately show ?thesis using assms(1) by simp
qed

text \<open>The retry loop of \<open>insert\<close>, with the element displaced last. A map of size 0 would hash modulo zero.\<close>

function cm_retry :: "('k \<Rightarrow> u64) \<Rightarrow> nat \<Rightarrow> 'k \<times> 'v \<Rightarrow> ('k, 'v) cuckoo_map \<Rightarrow> ('k, 'v) cuckoo_map res" where
  "cm_retry hasher max_slots kv m =
     (if cm_table_size m = 0 then Inl Undefined
      else case cm_rehash hasher max_slots m of
             Inl e \<Rightarrow> Inl e
           | Inr m' \<Rightarrow> (case cm_insert_core hasher kv m' of
                 (m'', None) \<Rightarrow> Inr m''
               | (m'', Some displaced) \<Rightarrow> cm_retry hasher max_slots displaced m''))"
  by pat_completeness auto
termination
  by (relation "measure (\<lambda>(hasher, max_slots, kv, m). Suc max_slots - cm_table_size m)")
    (auto intro: cm_retry_decreases dest: sym)

declare cm_retry.simps [simp del]

definition cm_insert :: "('k \<Rightarrow> u64) \<Rightarrow> nat \<Rightarrow> 'k \<Rightarrow> 'v \<Rightarrow> ('k, 'v) cuckoo_map \<Rightarrow> ('k, 'v) cuckoo_map res" where
  "cm_insert hasher max_slots key v m =
     rbind (if cm_table_size m \<le> cm_num_elements m then cm_rehash hasher max_slots m else Inr m) (\<lambda>m.
       case cm_insert_core hasher (key, v) m of
         (m, None) \<Rightarrow> Inr m
       | (m, Some displaced) \<Rightarrow> cm_retry hasher max_slots displaced m)"

definition cm_upsert :: "('k \<Rightarrow> u64) \<Rightarrow> nat \<Rightarrow> 'k \<Rightarrow> 'v \<Rightarrow> ('k, 'v) cuckoo_map \<Rightarrow> ('k, 'v) cuckoo_map res" where
  "cm_upsert hasher max_slots key v m =
     (let h1 = cm_hash1 hasher (cm_table_size m) key; h2 = cm_hash2 hasher (cm_table_size m) key
      in case cm_table1 m ! h1 of
           Some (k1, v1) \<Rightarrow>
             if k1 = key then Inr (m\<lparr>cm_table1 := (cm_table1 m)[h1 := Some (k1, v)]\<rparr>)
             else (case cm_table2 m ! h2 of
                 Some (k2, v2) \<Rightarrow> if k2 = key then Inr (m\<lparr>cm_table2 := (cm_table2 m)[h2 := Some (k2, v)]\<rparr>)
                                  else cm_insert hasher max_slots key v m
               | None \<Rightarrow> cm_insert hasher max_slots key v m)
         | None \<Rightarrow> (case cm_table2 m ! h2 of
                 Some (k2, v2) \<Rightarrow> if k2 = key then Inr (m\<lparr>cm_table2 := (cm_table2 m)[h2 := Some (k2, v)]\<rparr>)
                                  else cm_insert hasher max_slots key v m
               | None \<Rightarrow> cm_insert hasher max_slots key v m))"

section \<open>The invariant\<close>

abbreviation occupied :: "('k, 'v) buckets \<Rightarrow> ('k \<times> 'v) list" where
  "occupied T \<equiv> List.map_filter (\<lambda>b. b) T"

lemma occupied_split:
  assumes "i < length T"
  obtains xs ys where "occupied T = xs @ (case T ! i of None \<Rightarrow> [] | Some x \<Rightarrow> [x]) @ ys"
    "\<And>x. occupied (T[i := Some x]) = xs @ x # ys"
proof -
  have split: "occupied (xs @ b # ys) = occupied xs @ (case b of None \<Rightarrow> [] | Some x \<Rightarrow> [x]) @ occupied ys" for xs ys :: "('a, 'b) buckets" and b
    by (simp add: List.map_filter_def split: option.split)
  have "T = take i T @ T ! i # drop (Suc i) T" using assms by (rule id_take_nth_drop)
  then have "occupied T = occupied (take i T) @ (case T ! i of None \<Rightarrow> [] | Some x \<Rightarrow> [x]) @ occupied (drop (Suc i) T)"
    using split by metis
  moreover have "occupied (T[i := Some x]) = occupied (take i T) @ x # occupied (drop (Suc i) T)" for x
    using assms by (simp add: upd_conv_take_nth_drop split)
  ultimately show ?thesis by (rule that)
qed

lemma occupied_update:
  assumes "i < length T"
  shows "T ! i = None \<Longrightarrow> mset (occupied (T[i := Some x])) = add_mset x (mset (occupied T))"
    "T ! i = Some y \<Longrightarrow> add_mset y (mset (occupied (T[i := Some x]))) = add_mset x (mset (occupied T))"
  by (rule occupied_split[OF assms]; simp)+

lemma occupied_set: "kv \<in> set (occupied T) \<longleftrightarrow> (\<exists>i < length T. T ! i = Some kv)"
  by (auto simp: List.map_filter_def in_set_conv_nth image_iff)

definition cm_at :: "(nat \<Rightarrow> 'k \<Rightarrow> nat) \<Rightarrow> nat \<Rightarrow> ('k, 'v) buckets \<Rightarrow> bool" where
  "cm_at h n T \<longleftrightarrow> length T = n \<and> (\<forall>s < n. \<forall>kv. T ! s = Some kv \<longrightarrow> h n (fst kv) = s)"

definition cm_home :: "('k \<Rightarrow> u64) \<Rightarrow> ('k, 'v) cuckoo_map \<Rightarrow> bool" where
  "cm_home hasher m \<longleftrightarrow> 0 < cm_table_size m \<and>
     cm_at (cm_hash1 hasher) (cm_table_size m) (cm_table1 m) \<and> cm_at (cm_hash2 hasher) (cm_table_size m) (cm_table2 m)"

definition cm_inv :: "('k \<Rightarrow> u64) \<Rightarrow> ('k, 'v) cuckoo_map \<Rightarrow> bool" where
  "cm_inv hasher m \<longleftrightarrow> cm_home hasher m \<and> distinct (map fst (cm_elements m)) \<and>
     cm_num_elements m = length (cm_elements m)"

lemma cm_hash_less [simp]:
  "0 < n \<Longrightarrow> cm_hash1 hasher n k < n" "0 < n \<Longrightarrow> cm_hash2 hasher n k < n"
  by (simp_all add: cm_hash1_def cm_hash2_def)

lemma cm_at_update: "cm_at h n T \<Longrightarrow> s = h n (fst kv) \<Longrightarrow> cm_at h n (T[s := Some kv])"
  unfolding cm_at_def by (metis length_list_update nth_list_update_eq nth_list_update_neq option.inject)

lemma cm_at_lookup:
  assumes "cm_at h n T" "h n k < n"
  shows "(k, v) \<in> set (occupied T) \<longleftrightarrow> T ! h n k = Some (k, v)"
  using assms by (auto simp: cm_at_def occupied_set)

lemma multiset_displace:
  "add_mset z A = add_mset y B \<Longrightarrow> add_mset y C = add_mset x D \<Longrightarrow> add_mset z (C + A) = add_mset x (D + B)"
  by (metis union_mset_add_mset_left union_mset_add_mset_right)

text \<open>An insertion adds its element, and puts back on failure what it displaced.\<close>

definition cm_added :: "('k \<Rightarrow> u64) \<Rightarrow> 'k \<times> 'v \<Rightarrow> ('k, 'v) cuckoo_map \<Rightarrow> ('k, 'v) cuckoo_map \<times> ('k \<times> 'v) option \<Rightarrow> bool" where
  "cm_added hasher kv m r \<longleftrightarrow> cm_home hasher (fst r) \<and>
     (case snd r of
        None \<Rightarrow> mset (cm_elements (fst r)) = add_mset kv (mset (cm_elements m)) \<and>
                cm_num_elements (fst r) = Suc (cm_num_elements m)
      | Some kv' \<Rightarrow> add_mset kv' (mset (cm_elements (fst r))) = add_mset kv (mset (cm_elements m)) \<and>
                cm_num_elements (fst r) = cm_num_elements m)"

lemma cm_added_trans:
  assumes "cm_added hasher kv2 m2 r" "add_mset kv2 (mset (cm_elements m2)) = add_mset kv (mset (cm_elements m))"
    and "cm_num_elements m2 = cm_num_elements m"
  shows "cm_added hasher kv m r"
  using assms by (auto simp: cm_added_def split: option.splits)

lemma cm_insert_rounds_correct:
  assumes "cm_home hasher m"
  shows "cm_added hasher kv m (cm_insert_rounds hasher i kv m)"
  using assms
proof (induction i arbitrary: kv m)
  case 0
  then show ?case by (simp add: cm_added_def)
next
  case (Suc i)
  let ?n = "cm_table_size m" and ?T1 = "cm_table1 m" and ?T2 = "cm_table2 m"
  let ?h1 = "cm_hash1 hasher ?n (fst kv)"
  let ?m1 = "m\<lparr>cm_table1 := ?T1[?h1 := Some kv]\<rparr>"
  have at: "cm_at (cm_hash1 hasher) ?n ?T1" "cm_at (cm_hash2 hasher) ?n ?T2" "0 < ?n"
    using Suc.prems by (auto simp: cm_home_def)
  have h1: "?h1 < length ?T1" using at by (simp add: cm_at_def)
  have home1: "cm_home hasher ?m1" using at cm_at_update[OF at(1)] by (simp add: cm_home_def)
  note upd1 = occupied_update[OF h1, where x = kv]
  show ?case
  proof (cases "?T1 ! ?h1")
    case None
    then show ?thesis using home1 upd1(1) by (simp add: cm_added_def cm_elements_def cm_home_def Let_def)
  next
    case kv1: (Some kv1)
    let ?h2 = "cm_hash2 hasher ?n (fst kv1)"
    let ?m2 = "?m1\<lparr>cm_table2 := ?T2[?h2 := Some kv1]\<rparr>"
    have h2: "?h2 < length ?T2" using at by (simp add: cm_at_def)
    have home2: "cm_home hasher ?m2" using home1 cm_at_update[OF at(2)] by (simp add: cm_home_def)
    note upd2 = occupied_update[OF h2, where x = kv1]
    have one: "add_mset kv1 (mset (occupied (?T1[?h1 := Some kv]))) = add_mset kv (mset (occupied ?T1))"
      using upd1(2)[OF kv1] .
    show ?thesis
    proof (cases "?T2 ! ?h2")
      case None
      then show ?thesis
        using kv1 home2 upd2(1) one by (simp add: cm_added_def cm_elements_def cm_home_def Let_def)
    next
      case kv2: (Some kv2)
      have two: "add_mset kv2 (mset (cm_elements ?m2)) = add_mset kv (mset (cm_elements m))"
        using multiset_displace[OF upd2(2)[OF kv2] one] by (simp add: cm_elements_def)
      have "cm_added hasher kv2 ?m2 (cm_insert_rounds hasher i kv2 ?m2)" by (rule Suc.IH[OF home2])
      then have "cm_added hasher kv m (cm_insert_rounds hasher i kv2 ?m2)"
        using two by (rule cm_added_trans) simp
      then show ?thesis using kv1 kv2 by (simp add: Let_def)
    qed
  qed
qed

section \<open>Insertion keeps the elements\<close>

definition cm_good :: "('k \<Rightarrow> u64) \<Rightarrow> ('k, 'v) cuckoo_map \<Rightarrow> bool" where
  "cm_good hasher m \<longleftrightarrow> cm_home hasher m \<and> cm_num_elements m = length (cm_elements m)"

text \<open>An exception, or a good map with the elements \<open>M\<close>.\<close>

definition cm_result :: "('k \<Rightarrow> u64) \<Rightarrow> ('k \<times> 'v) multiset \<Rightarrow> ('k, 'v) cuckoo_map res \<Rightarrow> bool" where
  "cm_result hasher M r \<longleftrightarrow>
     (case r of Inl e \<Rightarrow> e = Bad_alloc \<or> e = cm_failure
      | Inr m \<Rightarrow> cm_good hasher m \<and> mset (cm_elements m) = M)"

lemma cm_insert_core_correct:
  assumes "cm_good hasher m" "cm_insert_core hasher kv m = (m', d)"
  shows "cm_good hasher m'"
    "d = None \<Longrightarrow> mset (cm_elements m') = add_mset kv (mset (cm_elements m))"
    "d = Some kv' \<Longrightarrow> add_mset kv' (mset (cm_elements m')) = add_mset kv (mset (cm_elements m))"
proof -
  have added: "cm_added hasher kv m (m', d)"
    using cm_insert_rounds_correct[of hasher m kv 100] assms by (simp add: cm_good_def cm_insert_core_def)
  then show "d = None \<Longrightarrow> mset (cm_elements m') = add_mset kv (mset (cm_elements m))"
    "d = Some kv' \<Longrightarrow> add_mset kv' (mset (cm_elements m')) = add_mset kv (mset (cm_elements m))"
    by (auto simp: cm_added_def)
  have "length (cm_elements m') = cm_num_elements m'"
  proof (cases d)
    case None
    then have "mset (cm_elements m') = add_mset kv (mset (cm_elements m))" using added by (simp add: cm_added_def)
    from arg_cong[OF this, of size] show ?thesis using added assms(1) None by (simp add: cm_added_def cm_good_def)
  next
    case (Some kv')
    then have "size (add_mset kv' (mset (cm_elements m'))) = size (add_mset kv (mset (cm_elements m)))"
      using added by (simp add: cm_added_def)
    then show ?thesis using added assms(1) Some by (simp add: cm_added_def cm_good_def)
  qed
  then show "cm_good hasher m'" using added by (simp add: cm_good_def cm_added_def)
qed

lemma cm_insert_elements_correct:
  assumes "cm_insert_elements hasher es m = Some m'" "cm_good hasher m"
  shows "cm_good hasher m' \<and> mset (cm_elements m') = mset es + mset (cm_elements m)"
  using assms
proof (induction es arbitrary: m)
  case (Cons kv es)
  obtain m1 where m1: "cm_insert_core hasher kv m = (m1, None)" "cm_insert_elements hasher es m1 = Some m'"
    using Cons.prems(1) by (auto split: prod.splits option.splits)
  from Cons.IH[OF m1(2) cm_insert_core_correct(1)[OF Cons.prems(2) m1(1)]] show ?case
    using cm_insert_core_correct(2)[OF Cons.prems(2) m1(1)] by simp
qed simp

lemma cm_good_new: "0 < n \<Longrightarrow> cm_good hasher (cm_new n)" "cm_elements (cm_new n) = []"
  by (simp_all add: cm_good_def cm_home_def cm_new_def cm_at_def cm_elements_def List.map_filter_def)

lemma cm_rehash_correct:
  assumes "0 < cm_table_size m"
  shows "cm_result hasher (mset (cm_elements m)) (cm_rehash hasher max_slots m)"
proof -
  have "cm_result hasher (mset es) (cm_rehash_attempts hasher max_slots n table_size es)" if "0 < table_size" for n table_size es
    using that
  proof (induction n arbitrary: table_size)
    case (Suc n)
    show ?case
    proof (cases "cm_insert_elements hasher es (cm_new (table_size * 2))")
      case None
      then show ?thesis using Suc by (simp add: cm_result_def)
    next
      case (Some m')
      from cm_insert_elements_correct[OF this cm_good_new(1)] show ?thesis
        using Some Suc.prems by (simp add: cm_result_def cm_good_new(2))
    qed
  qed (simp add: cm_result_def)
  from this[OF assms] show ?thesis by (simp add: cm_rehash_def)
qed

lemma cm_retry_correct:
  "cm_good hasher m \<Longrightarrow> cm_result hasher (add_mset kv (mset (cm_elements m))) (cm_retry hasher max_slots kv m)"
proof (induction hasher max_slots kv m rule: cm_retry.induct)
  case (1 hasher max_slots kv m)
  have size: "0 < cm_table_size m" using "1.prems" by (auto simp: cm_good_def cm_home_def)
  show ?case
  proof (cases "cm_rehash hasher max_slots m")
    case (Inl e)
    then show ?thesis
      using cm_rehash_correct[OF size, of hasher max_slots] size by (simp add: cm_retry.simps[of hasher] cm_result_def)
  next
    case (Inr m1)
    have m1: "cm_good hasher m1" "mset (cm_elements m1) = mset (cm_elements m)"
      using cm_rehash_correct[OF size, of hasher max_slots] Inr by (simp_all add: cm_result_def)
    obtain m2 d where m2: "cm_insert_core hasher kv m1 = (m2, d)" by (cases "cm_insert_core hasher kv m1")
    note core = cm_insert_core_correct[OF m1(1) m2]
    show ?thesis
    proof (cases d)
      case None
      then show ?thesis
        using core(1,2) m1(2) m2 Inr size by (simp add: cm_retry.simps[of hasher] cm_result_def)
    next
      case (Some kv')
      have "cm_result hasher (add_mset kv' (mset (cm_elements m2))) (cm_retry hasher max_slots kv' m2)"
        by (rule "1.IH"[OF _ Inr m2[symmetric] Some core(1)]) (use size in simp)
      then show ?thesis
        using core(3)[OF Some] m1(2) m2 Some Inr size by (subst cm_retry.simps) simp
    qed
  qed
qed

lemma cm_insert_correct:
  assumes "cm_good hasher m"
  shows "cm_result hasher (add_mset (key, v) (mset (cm_elements m))) (cm_insert hasher max_slots key v m)"
proof -
  have size: "0 < cm_table_size m" using assms by (auto simp: cm_good_def cm_home_def)
  let ?r = "if cm_table_size m \<le> cm_num_elements m then cm_rehash hasher max_slots m else Inr m"
  have r: "cm_result hasher (mset (cm_elements m)) ?r"
    using cm_rehash_correct[OF size] assms by (simp add: cm_result_def)
  show ?thesis
  proof (cases ?r)
    case (Inl e)
    then show ?thesis using r by (simp add: cm_insert_def cm_result_def)
  next
    case (Inr m1)
    have m1: "cm_good hasher m1" "mset (cm_elements m1) = mset (cm_elements m)"
      using r unfolding Inr by (simp_all add: cm_result_def)
    obtain m2 d where m2: "cm_insert_core hasher (key, v) m1 = (m2, d)" by (cases "cm_insert_core hasher (key, v) m1")
    note core = cm_insert_core_correct[OF m1(1) m2]
    show ?thesis
    proof (cases d)
      case None
      then show ?thesis using core(1,2) m1(2) m2 unfolding cm_insert_def Inr by (simp add: cm_result_def)
    next
      case (Some kv')
      then show ?thesis
        using cm_retry_correct[OF core(1), of kv' max_slots] core(3)[OF Some] m1(2) m2 unfolding cm_insert_def Inr by simp
    qed
  qed
qed

section \<open>The map it refines\<close>

abbreviation cm_lookup :: "('k, 'v) cuckoo_map \<Rightarrow> 'k \<Rightarrow> 'v option" where
  "cm_lookup m \<equiv> map_of (cm_elements m)"

lemma cm_find_correct:
  assumes "cm_inv hasher m"
  shows "cm_find hasher k m = cm_lookup m k"
proof -
  have at: "cm_at (cm_hash1 hasher) (cm_table_size m) (cm_table1 m)" "cm_at (cm_hash2 hasher) (cm_table_size m) (cm_table2 m)"
    "0 < cm_table_size m" and dist: "distinct (map fst (cm_elements m))"
    using assms by (auto simp: cm_inv_def cm_home_def)
  note slot = cm_at_lookup[OF at(1) cm_hash_less(1)[OF at(3)]] cm_at_lookup[OF at(2) cm_hash_less(2)[OF at(3)]]
  have mem: "cm_lookup m k = Some v \<longleftrightarrow>
      cm_table1 m ! cm_hash1 hasher (cm_table_size m) k = Some (k, v) \<or>
      cm_table2 m ! cm_hash2 hasher (cm_table_size m) k = Some (k, v)" for v
    using slot unfolding map_of_eq_Some_iff[OF dist] by (simp add: cm_elements_def)
  show ?thesis
  proof (cases "cm_lookup m k")
    case None
    then have "\<forall>v. cm_table1 m ! cm_hash1 hasher (cm_table_size m) k \<noteq> Some (k, v) \<and>
        cm_table2 m ! cm_hash2 hasher (cm_table_size m) k \<noteq> Some (k, v)" using mem by auto
    then show ?thesis using None by (auto simp: cm_find_def Let_def)
  next
    case (Some v)
    have "v' = v" if "cm_table1 m ! cm_hash1 hasher (cm_table_size m) k = Some (k, v')" for v'
      using mem[of v'] Some that by simp
    then show ?thesis
      using mem[of v] Some by (auto simp: cm_find_def Let_def)
  qed
qed

lemma cm_result_map:
  assumes "cm_result hasher M r" "M = add_mset (k, v) (mset (cm_elements m))" "cm_inv hasher m" "cm_lookup m k = None"
  shows "case r of Inl e \<Rightarrow> e = Bad_alloc \<or> e = cm_failure | Inr m' \<Rightarrow> cm_inv hasher m' \<and> cm_lookup m' = (cm_lookup m)(k \<mapsto> v)"
proof (cases r)
  case (Inr m')
  have m': "cm_good hasher m'" "mset (cm_elements m') = mset ((k, v) # cm_elements m)"
    using assms(1,2) Inr by (simp_all add: cm_result_def)
  have dist: "distinct (map fst ((k, v) # cm_elements m))"
    using assms(3,4) by (simp add: cm_inv_def map_of_eq_None_iff)
  have "mset (map fst (cm_elements m')) = mset (map fst ((k, v) # cm_elements m))"
    using m'(2) by (metis mset_map)
  then have dist': "distinct (map fst (cm_elements m'))"
    using dist by (metis mset_eq_imp_distinct_iff)
  have "cm_lookup m' = map_of ((k, v) # cm_elements m)"
    using map_of_inject_set[OF dist' dist] mset_eq_setD[OF m'(2)] by simp
  then show ?thesis using Inr m'(1) dist' by (simp add: cm_inv_def cm_good_def fun_upd_def)
qed (use assms(1) in \<open>simp add: cm_result_def\<close>)

text \<open>Overwriting the value in place.\<close>

lemma cm_replace:
  assumes "cm_inv hasher m" "cm_home hasher m'" "cm_num_elements m' = cm_num_elements m"
    and "cm_elements m = xs @ (k, u) # ys" "cm_elements m' = xs @ (k, v) # ys"
  shows "cm_inv hasher m' \<and> cm_lookup m' = (cm_lookup m)(k \<mapsto> v)"
proof -
  have k: "k \<notin> fst ` set xs" using assms(1,4) by (auto simp: cm_inv_def)
  then have "map_of xs k = None" by (simp add: map_of_eq_None_iff)
  then have "cm_lookup m' = (cm_lookup m)(k \<mapsto> v)"
    by (auto simp: assms(4,5) map_add_def fun_eq_iff split: option.split)
  moreover have "cm_inv hasher m'" using assms by (simp add: cm_inv_def)
  ultimately show ?thesis by simp
qed

lemma cm_upsert_correct:
  assumes inv: "cm_inv hasher m"
  shows "case cm_upsert hasher max_slots k v m of
      Inl e \<Rightarrow> e = Bad_alloc \<or> e = cm_failure
    | Inr m' \<Rightarrow> cm_inv hasher m' \<and> cm_lookup m' = (cm_lookup m)(k \<mapsto> v)"
proof -
  let ?n = "cm_table_size m"
  let ?h1 = "cm_hash1 hasher ?n k" and ?h2 = "cm_hash2 hasher ?n k"
  have at: "cm_at (cm_hash1 hasher) ?n (cm_table1 m)" "cm_at (cm_hash2 hasher) ?n (cm_table2 m)" "0 < ?n"
    using inv by (auto simp: cm_inv_def cm_home_def)
  then have len: "?h1 < length (cm_table1 m)" "?h2 < length (cm_table2 m)" by (simp_all add: cm_at_def)
  have find: "cm_lookup m k = cm_find hasher k m" using cm_find_correct[OF inv] by simp
  consider (one) u where "cm_table1 m ! ?h1 = Some (k, u)"
    | (two) u where "cm_table2 m ! ?h2 = Some (k, u)" "\<forall>w. cm_table1 m ! ?h1 \<noteq> Some (k, w)"
    | (none) "\<forall>w. cm_table1 m ! ?h1 \<noteq> Some (k, w)" "\<forall>w. cm_table2 m ! ?h2 \<noteq> Some (k, w)"
    by blast
  then show ?thesis
  proof cases
    case one
    let ?m = "m\<lparr>cm_table1 := (cm_table1 m)[?h1 := Some (k, v)]\<rparr>"
    obtain xs ys where "occupied (cm_table1 m) = xs @ (k, u) # ys" "occupied ((cm_table1 m)[?h1 := Some (k, v)]) = xs @ (k, v) # ys"
      by (rule occupied_split[OF len(1)]) (use one in simp)
    then have "cm_inv hasher ?m \<and> cm_lookup ?m = (cm_lookup m)(k \<mapsto> v)"
      using at cm_at_update[OF at(1), of ?h1 "(k, v)"]
      by (intro cm_replace[OF inv, of _ xs _ u "ys @ occupied (cm_table2 m)"]) (simp_all add: cm_home_def cm_elements_def)
    then show ?thesis using one by (simp add: cm_upsert_def Let_def)
  next
    case two
    let ?m = "m\<lparr>cm_table2 := (cm_table2 m)[?h2 := Some (k, v)]\<rparr>"
    obtain xs ys where "occupied (cm_table2 m) = xs @ (k, u) # ys" "occupied ((cm_table2 m)[?h2 := Some (k, v)]) = xs @ (k, v) # ys"
      by (rule occupied_split[OF len(2)]) (use two in simp)
    then have "cm_inv hasher ?m \<and> cm_lookup ?m = (cm_lookup m)(k \<mapsto> v)"
      using at cm_at_update[OF at(2), of ?h2 "(k, v)"]
      by (intro cm_replace[OF inv, of _ "occupied (cm_table1 m) @ xs" _ u ys]) (simp_all add: cm_home_def cm_elements_def)
    then show ?thesis using two by (auto simp: cm_upsert_def Let_def split: option.split)
  next
    case none
    then have "cm_lookup m k = None" unfolding find by (auto simp: cm_find_def Let_def)
    moreover have "cm_upsert hasher max_slots k v m = cm_insert hasher max_slots k v m"
      using none by (auto simp: cm_upsert_def Let_def split: option.split)
    moreover have "cm_good hasher m" using inv by (simp add: cm_good_def cm_inv_def)
    ultimately show ?thesis
      using cm_result_map[OF cm_insert_correct refl inv] by simp
  qed
qed

lemma cm_inv_new: "0 < n \<Longrightarrow> cm_inv hasher (cm_new n)"
  using cm_good_new(1)[of n hasher] by (simp add: cm_inv_def cm_good_def cm_good_new(2))

lemma cm_upserts_correct:
  assumes "cm_inv hasher m"
  shows "case rfold (\<lambda>(k, v). cm_upsert hasher max_slots k v) kvs m of
      Inl e \<Rightarrow> e = Bad_alloc \<or> e = cm_failure
    | Inr m' \<Rightarrow> cm_inv hasher m' \<and> cm_lookup m' = cm_lookup m ++ map_of (rev kvs)"
  using assms
proof (induction kvs arbitrary: m)
  case (Cons kv kvs)
  obtain k v where kv: "kv = (k, v)" by (cases kv)
  show ?case
  proof (cases "cm_upsert hasher max_slots k v m")
    case (Inl e)
    then show ?thesis using cm_upsert_correct[OF Cons.prems, where max_slots = max_slots and k = k and v = v] kv by simp
  next
    case (Inr m')
    then have m': "cm_inv hasher m'" "cm_lookup m' = (cm_lookup m)(k \<mapsto> v)"
      using cm_upsert_correct[OF Cons.prems, where max_slots = max_slots and k = k and v = v] by simp_all
    show ?thesis using Cons.IH[OF m'(1)] Inr m'(2) kv by (simp add: map_add_def fun_eq_iff split: sum.splits option.splits)
  qed
qed simp

text \<open>C32. The cuckoo map refines a finite map: after any sequence of \<open>upsert\<close>s on a new map (of the default 1024
  buckets per table), for any hasher, either one of the two exceptions has been thrown (five failed
  rehashes, or memory) or \<open>find\<close> returns, for every key, the value of its last \<open>upsert\<close> and nothing for a key that had
  none. Displacements, rehashes and retries lose and duplicate no element.\<close>

theorem cuckoo_map_refines:
  "case rfold (\<lambda>(k, v). cm_upsert hasher max_slots k v) kvs (cm_new 1024) of
     Inl e \<Rightarrow> e = Bad_alloc \<or> e = cm_failure
   | Inr m \<Rightarrow> (\<forall>k. cm_find hasher k m = map_of (rev kvs) k)"
  using cm_upserts_correct[OF cm_inv_new[of 1024 hasher], where max_slots = max_slots and kvs = kvs]
  by (auto simp: cm_good_new(2) cm_find_correct split: sum.splits)

end
