(* ===== verification/UnchainedTable.thy ===== *)
theory UnchainedTable
  imports FlatTable KeyGroups
begin

text \<open>
  The older \<open>UnchainedHashTable\<close> (\<open>include/unchained_hashtable.h\<close>), which the wrapper no longer includes:
  one contiguous buffer of tuples grouped by hash prefix and a directory of ranges, each with a
  16-bit Bloom filter. \<open>TupleEntry\<close> has the layout of \<open>HashEntry\<close> and is that record here. The hash of a key,
  \<open>compute_hash\<close>, is an argument: the \<open>Hasher\<close> for 32-bit keys, \<open>std::hash\<close> otherwise.
\<close>

section \<open>Operations\<close>

record directory_entry =
  de_begin_idx :: nat
  de_end_idx :: nat
  de_bloom :: u16

definition empty_dir :: directory_entry where
  "empty_dir = \<lparr>de_begin_idx = 0, de_end_idx = 0, de_bloom = 0\<rparr>"

record 'k unchained_table =
  ut_tuples :: "'k hash_entry list"
  ut_directory :: "directory_entry list"
  ut_dir_size :: nat
  ut_dir_mask :: u64

definition ut_new :: "nat \<Rightarrow> 'k unchained_table" where
  "ut_new directory_power =
     (let dir_size = 2 ^ directory_power
      in \<lparr>ut_tuples = [], ut_directory = replicate dir_size empty_dir, ut_dir_size = dir_size,
          ut_dir_mask = of_nat dir_size - 1\<rparr>)"

text \<open>\<open>reserve\<close> sizes the directory as the flat table does.\<close>

definition ut_reserve :: "nat \<Rightarrow> 'k unchained_table \<Rightarrow> 'k unchained_table" where
  "ut_reserve tuples_capacity t =
     (let desired = desired_dir_size tuples_capacity
      in if desired \<noteq> ut_dir_size t
         then t\<lparr>ut_dir_size := desired, ut_dir_mask := of_nat desired - 1,
                ut_directory := replicate desired empty_dir\<rparr>
         else t)"

definition ut_prefix :: "'k unchained_table \<Rightarrow> u64 \<Rightarrow> nat" where
  "ut_prefix t h = unat (drop_bit 16 h AND ut_dir_mask t)"

definition ut_clear :: "'k unchained_table \<Rightarrow> 'k unchained_table" where
  "ut_clear t = t\<lparr>ut_directory := map (\<lambda>d. empty_dir) (ut_directory t), ut_tuples := []\<rparr>"

definition ut_reset_blooms :: "directory_entry list \<Rightarrow> directory_entry list" where
  "ut_reset_blooms directory = map (\<lambda>d. d\<lparr>de_bloom := 0\<rparr>) directory"

text \<open>The bodies of the loops over the tuples.\<close>

definition ut_count :: "'k unchained_table \<Rightarrow> u64 \<Rightarrow> nat list \<Rightarrow> nat list" where
  "ut_count t h counts = (let prefix = ut_prefix t h in counts[prefix := counts ! prefix + 1])"

definition ut_add_bloom :: "'k unchained_table \<Rightarrow> u64 \<Rightarrow> directory_entry list \<Rightarrow> directory_entry list" where
  "ut_add_bloom t h directory =
     (let prefix = ut_prefix t h; d = directory ! prefix
      in directory[prefix := d\<lparr>de_bloom := de_bloom d OR make_tag_from_hash h\<rparr>])"

definition ut_place ::
    "'k unchained_table \<Rightarrow> u64 \<Rightarrow> 'k hash_entry \<Rightarrow> nat list \<times> 'k hash_entry list \<Rightarrow> nat list \<times> 'k hash_entry list" where
  "ut_place t h e = (\<lambda>(write_ptr, tuples).
     let prefix = ut_prefix t h; pos = write_ptr ! prefix
     in (write_ptr[prefix := pos + 1], tuples[pos := e]))"

definition ut_prefix_sums :: "nat \<Rightarrow> nat list \<Rightarrow> nat list \<times> nat" where
  "ut_prefix_sums n counts =
     fold (\<lambda>i (offsets, total). (offsets[i := total], total + counts ! i)) [0..<n] (replicate n 0, 0)"

definition ut_set_ranges :: "nat \<Rightarrow> nat list \<Rightarrow> nat \<Rightarrow> directory_entry list \<Rightarrow> directory_entry list" where
  "ut_set_ranges n offsets total_tuples directory =
     fold (\<lambda>i directory.
         directory[i := (directory ! i)\<lparr>de_begin_idx := offsets ! i,
                          de_end_idx := (if i + 1 < n then offsets ! (i + 1) else total_tuples)\<rparr>])
       [0..<n] directory"

definition ut_build_from_entries ::
    "('k::zero \<Rightarrow> u64) \<Rightarrow> ('k \<times> nat) list \<Rightarrow> 'k unchained_table \<Rightarrow> 'k unchained_table" where
  "ut_build_from_entries compute_hash entries t =
     (if entries = [] then ut_clear t
      else let n = ut_dir_size t;
               directory = ut_reset_blooms (ut_directory t);
               hashes = map (\<lambda>e. compute_hash (fst e)) entries;
               counts = fold (ut_count t) hashes (replicate n 0);
               (offsets, total_tuples) = ut_prefix_sums n counts;
               tuples = replicate total_tuples empty_entry;
               (wt, directory) =
                 fold (\<lambda>((key, row_id), h) (wt, directory).
                     (ut_place t h \<lparr>he_key = key, he_row_id = of_nat row_id\<rparr> wt, ut_add_bloom t h directory))
                   (zip entries hashes) ((offsets, tuples), directory)
           in t\<lparr>ut_tuples := snd wt, ut_directory := ut_set_ranges n offsets total_tuples directory\<rparr>)"

text \<open>The overload for \<open>HashEntry\<close>, and the row-store adapter.\<close>

definition ut_build_from_hash_entries ::
    "('k::zero \<Rightarrow> u64) \<Rightarrow> 'k hash_entry list \<Rightarrow> 'k unchained_table \<Rightarrow> 'k unchained_table" where
  "ut_build_from_hash_entries compute_hash entries t =
     ut_build_from_entries compute_hash (map (\<lambda>e. (he_key e, unat (he_row_id e))) entries) t"

definition ut_build_from_rows ::
    "('k::zero \<Rightarrow> u64) \<Rightarrow> 'k list list \<Rightarrow> nat \<Rightarrow> 'k unchained_table \<Rightarrow> 'k unchained_table res" where
  "ut_build_from_rows compute_hash rows key_col t =
     rbind (rfold (\<lambda>r entries. rbind (at (rows ! r) key_col) (\<lambda>k. Inr (entries @ [(k, r)]))) [0..<length rows] [])
       (\<lambda>entries. Inr (ut_build_from_entries compute_hash entries t))"

definition ut_build_from_zero_copy_int32 ::
    "column option \<Rightarrow> nat list \<Rightarrow> nat \<Rightarrow> u32 unchained_table \<Rightarrow> u32 unchained_table res" where
  "ut_build_from_zero_copy_int32 src_column page_offsets num_rows t =
     (case src_column of
        None \<Rightarrow> Inr (ut_clear t)
      | Some src \<Rightarrow>
          if num_rows = 0 \<or> length page_offsets < 2 then Inr (ut_clear t)
          else let n = ut_dir_size t; directory = ut_reset_blooms (ut_directory t)
               in rbind (for_each_row src page_offsets (\<lambda>e (counts, directory).
                    let h = compute_hash_u32 (he_key e) in (ut_count t h counts, ut_add_bloom t h directory))
                  (replicate n 0, directory)) (\<lambda>(counts, directory).
                  let (offsets, total_tuples) = ut_prefix_sums n counts;
                      tuples = replicate total_tuples empty_entry
                  in rbind (for_each_row src page_offsets (\<lambda>e. ut_place t (compute_hash_u32 (he_key e)) e) (offsets, tuples)) (\<lambda>wt.
                     Inr (t\<lparr>ut_tuples := snd wt, ut_directory := ut_set_ranges n offsets total_tuples directory\<rparr>))))"

definition ut_probe :: "('k \<Rightarrow> u64) \<Rightarrow> 'k \<Rightarrow> 'k unchained_table \<Rightarrow> 'k hash_entry list option" where
  "ut_probe compute_hash key t =
     (let h = compute_hash key; d = ut_directory t ! ut_prefix t h
      in if de_end_idx d \<le> de_begin_idx d then None
         else if \<not> maybe_contains (de_bloom d) (make_tag_from_hash h) then None
         else let len = de_end_idx d - de_begin_idx d
              in if len = 0 then None else Some (take len (drop (de_begin_idx d) (ut_tuples t))))"

definition ut_size :: "'k unchained_table \<Rightarrow> nat" where
  "ut_size t = length (ut_tuples t)"

section \<open>Well-formed tables\<close>

definition ut_wf :: "'k unchained_table \<Rightarrow> bool" where
  "ut_wf t \<longleftrightarrow> (\<exists>p < 64. ut_dir_size t = 2 ^ p) \<and> ut_dir_mask t = of_nat (ut_dir_size t) - 1 \<and>
     length (ut_directory t) = ut_dir_size t"

lemma ut_wf_new: "p < 64 \<Longrightarrow> ut_wf (ut_new p)"
  by (auto simp: ut_wf_def ut_new_def Let_def)

lemma ut_wf_reserve:
  assumes "ut_wf t"
  shows "ut_wf (ut_reserve n t)"
proof -
  obtain i where "i \<in> {10..18}" "desired_dir_size n = 2 ^ i" using desired_dir_size_cases by blast
  then show ?thesis using assms by (auto simp: ut_reserve_def Let_def ut_wf_def intro!: exI[of _ i])
qed

lemma ut_prefix_less: "ut_wf t \<Longrightarrow> ut_prefix t h < ut_dir_size t"
  unfolding ut_prefix_def ut_wf_def using and_mask_less by auto

section \<open>The loops compute the slot layout\<close>

abbreviation ut_slot :: "('k \<Rightarrow> u64) \<Rightarrow> 'k unchained_table \<Rightarrow> 'k hash_entry \<Rightarrow> nat" where
  "ut_slot ch t e \<equiv> ut_prefix t (ch (he_key e))"

lemma ut_count_step: "ut_count t (ch (he_key e)) = count_step (ut_slot ch t) e"
  by (simp add: ut_count_def count_step_def Let_def fun_eq_iff)

lemma ut_place_step: "ut_place t (ch (he_key e)) e = scatter_step (\<lambda>n. n) (ut_slot ch t) (\<lambda>e. e) e"
  by (auto simp: ut_place_def scatter_step_def Let_def fun_eq_iff)

lemma ut_prefix_sums_eq:
  assumes "length counts = n"
  shows "ut_prefix_sums n counts = (map (\<lambda>i. sum_list (take i counts)) [0..<n], sum_list counts)"
proof -
  have "fold (\<lambda>i (offsets, total). (offsets[i := total], total + counts ! i)) [0..<m] (replicate n 0, 0) =
      (map (\<lambda>i. sum_list (take i counts)) [0..<m] @ replicate (n - m) 0, sum_list (take m counts))" if "m \<le> n" for m
    using that
  proof (induction m)
    case (Suc m)
    then have "replicate (n - m) (0::nat) = 0 # replicate (n - Suc m) 0"
      by (metis Suc_diff_le diff_Suc_Suc replicate_Suc)
    with Suc show ?case
      using assms by (simp add: take_Suc_conv_app_nth list_update_append)
  qed simp
  from this[of n] show ?thesis using assms by (simp add: ut_prefix_sums_def)
qed

lemma length_ut_add_bloom [simp]: "length (ut_add_bloom t h d) = length d"
  by (simp add: ut_add_bloom_def Let_def)

lemma length_fold_add_bloom [simp]: "length (fold (\<lambda>e. ut_add_bloom t (ch e)) es d) = length d"
  by (induction es arbitrary: d) simp_all

lemma ut_add_bloom_keeps:
  "maybe_contains (de_bloom (d ! s)) tag \<Longrightarrow> maybe_contains (de_bloom (ut_add_bloom t h d ! s)) tag"
  by (cases "ut_prefix t h < length d")
    (auto simp: ut_add_bloom_def Let_def nth_list_update list_update_beyond)

lemma ut_blooms_keep:
  "maybe_contains (de_bloom (d ! s)) tag \<Longrightarrow>
   maybe_contains (de_bloom (fold (\<lambda>e. ut_add_bloom t (ch e)) es d ! s)) tag"
  by (induction es arbitrary: d) (simp_all add: ut_add_bloom_keeps)

lemma ut_blooms_member:
  "e \<in> set es \<Longrightarrow> ut_prefix t (ch e) < length d \<Longrightarrow>
   maybe_contains (de_bloom (fold (\<lambda>e. ut_add_bloom t (ch e)) es d ! ut_prefix t (ch e))) (make_tag_from_hash (ch e))"
proof (induction es arbitrary: d)
  case (Cons e' es)
  have "maybe_contains (de_bloom (ut_add_bloom t (ch e') d ! ut_prefix t (ch e'))) (make_tag_from_hash (ch e'))"
    if "ut_prefix t (ch e') < length d"
    using that by (simp add: ut_add_bloom_def Let_def)
  from ut_blooms_keep[OF this] Cons show ?case by (cases "e = e'") auto
qed simp

lemma ut_set_ranges_nth:
  assumes "length directory = n"
  shows "length (ut_set_ranges n offs m directory) = n"
    "i < n \<Longrightarrow> ut_set_ranges n offs m directory ! i =
      (directory ! i)\<lparr>de_begin_idx := offs ! i, de_end_idx := (if i + 1 < n then offs ! (i + 1) else m)\<rparr>"
proof -
  let ?f = "\<lambda>i d. (d :: directory_entry)\<lparr>de_begin_idx := offs ! i, de_end_idx := (if i + 1 < n then offs ! (i + 1) else m)\<rparr>"
  have "length (fold (\<lambda>i d. d[i := ?f i (d ! i)]) [0..<k] directory) = n \<and>
      (\<forall>i < n. fold (\<lambda>i d. d[i := ?f i (d ! i)]) [0..<k] directory ! i =
        (if i < k then ?f i (directory ! i) else directory ! i))" if "k \<le> n" for k
    using that assms by (induction k) (auto simp: nth_list_update less_Suc_eq)
  from this[of n] show "length (ut_set_ranges n offs m directory) = n"
    "i < n \<Longrightarrow> ut_set_ranges n offs m directory ! i = ?f i (directory ! i)"
    by (simp_all add: ut_set_ranges_def)
qed

text \<open>
  \<open>ut_holds ch es t\<close>: the directory delimits every slot, the tuples of a slot are its entries in
  input order, and the filter of a slot has the tags of its entries.
\<close>

definition ut_holds :: "('k \<Rightarrow> u64) \<Rightarrow> 'k hash_entry list \<Rightarrow> 'k unchained_table \<Rightarrow> bool" where
  "ut_holds ch es t \<longleftrightarrow>
     ut_wf t \<and>
     (\<forall>s < ut_dir_size t.
        de_begin_idx (ut_directory t ! s) = slot_begin (ut_slot ch t) es s \<and>
        de_end_idx (ut_directory t ! s) = slot_begin (ut_slot ch t) es (Suc s) \<and>
        take (length (slot_of_list (ut_slot ch t) es s)) (drop (slot_begin (ut_slot ch t) es s) (ut_tuples t)) =
          slot_of_list (ut_slot ch t) es s) \<and>
     (\<forall>e \<in> set es. maybe_contains (de_bloom (ut_directory t ! ut_slot ch t e)) (make_tag_from_hash (ch (he_key e))))"

text \<open>Both builds run these loops, over the entries \<open>es\<close> they see.\<close>

definition ut_build :: "('k::zero \<Rightarrow> u64) \<Rightarrow> 'k hash_entry list \<Rightarrow> 'k unchained_table \<Rightarrow> 'k unchained_table" where
  "ut_build ch es t =
     (let counts = fold (count_step (ut_slot ch t)) es (replicate (ut_dir_size t) 0);
          (offsets, total_tuples) = ut_prefix_sums (ut_dir_size t) counts;
          wt = fold (scatter_step (\<lambda>n. n) (ut_slot ch t) (\<lambda>e. e)) es (offsets, replicate total_tuples empty_entry)
      in t\<lparr>ut_tuples := snd wt,
           ut_directory := ut_set_ranges (ut_dir_size t) offsets total_tuples
             (fold (\<lambda>e. ut_add_bloom t (ch (he_key e))) es (ut_reset_blooms (ut_directory t)))\<rparr>)"

lemma fold_pair: "fold (\<lambda>x (a, b). (f x a, g x b)) xs (a, b) = (fold f xs a, fold g xs b)"
  by (induction xs arbitrary: a b) simp_all

lemma ut_build_from_hash_entries_eq:
  "ut_build_from_hash_entries ch es t = (if es = [] then ut_clear t else ut_build ch es t)"
proof (cases "es = []")
  case True
  then show ?thesis by (simp add: ut_build_from_hash_entries_def ut_build_from_entries_def)
next
  case False
  let ?entries = "map (\<lambda>e. (he_key e, unat (he_row_id e))) es"
  have zip: "zip ?entries (map (\<lambda>e. ch (fst e)) ?entries) =
      map (\<lambda>e. ((he_key e, unat (he_row_id e)), ch (he_key e))) es"
    by (induction es) simp_all
  have body: "fold (\<lambda>((key, row_id), h) (wt, directory).
        (ut_place t h \<lparr>he_key = key, he_row_id = of_nat row_id\<rparr> wt, ut_add_bloom t h directory))
      (zip ?entries (map (\<lambda>e. ch (fst e)) ?entries)) (wt, d) =
    (fold (scatter_step (\<lambda>n. n) (ut_slot ch t) (\<lambda>e. e)) es wt, fold (\<lambda>e. ut_add_bloom t (ch (he_key e))) es d)" for wt d
    unfolding zip fold_map by (simp add: comp_def fold_pair ut_place_step)
  have counts: "fold (ut_count t) (map (\<lambda>e. ch (fst e)) ?entries) c = fold (count_step (ut_slot ch t)) es c" for c
    by (simp add: fold_map comp_def ut_count_step)
  show ?thesis
    unfolding ut_build_from_hash_entries_def ut_build_from_entries_def ut_build_def Let_def body counts
    using False by (simp split: prod.split)
qed

lemma ut_build_zero_copy_eq:
  assumes "zero_copy_entries src offs = Inr es" "0 < n" "2 \<le> length offs"
  shows "ut_build_from_zero_copy_int32 (Some src) offs n t = Inr (ut_build compute_hash_u32 es t)"
  using assms
  by (simp add: ut_build_from_zero_copy_int32_def ut_build_def Let_def for_each_row_eq fold_pair
      ut_count_step ut_place_step split: prod.split)

lemma ut_build_holds:
  fixes t :: "'k::zero unchained_table"
  assumes wf: "ut_wf t"
  shows "ut_holds ch es (ut_build ch es t)"
proof -
  let ?n = "ut_dir_size t" and ?slot = "ut_slot ch t"
  let ?cs = "fold (count_step ?slot) es (replicate ?n 0) :: nat list"
  have slots: "?slot e < ?n" for e using ut_prefix_less[OF wf] .
  have len: "length ?cs = ?n" "length (ut_directory t) = ?n" using wf by (simp_all add: ut_wf_def)
  have lim: "length es < Suc (length es)" by simp
  have counts: "?cs ! s = length (slot_of_list ?slot es s)" if "s < ?n" for s
    by (rule size_counter.counts_read[OF lim slots that])
  have sums: "sum_list (take s ?cs) = slot_begin ?slot es s" if "s \<le> ?n" for s
    using that len(1) by (induction s) (simp_all add: take_Suc_conv_app_nth counts slot_begin_Suc)
  let ?offs = "map (\<lambda>i. sum_list (take i ?cs)) [0..<?n]"
  have total_es: "sum_list ?cs = length es"
    using sums[of ?n] len(1) slot_begin_all[of es ?slot ?n] slots by simp
  obtain wp ts where scat: "fold (scatter_step (\<lambda>n. n) ?slot (\<lambda>e. e)) es (?offs, replicate (sum_list ?cs) empty_entry) = (wp, ts)"
    by (cases "fold (scatter_step (\<lambda>n. n) ?slot (\<lambda>e. e)) es (?offs, replicate (sum_list ?cs) empty_entry)")
  let ?D = "fold (\<lambda>e. ut_add_bloom t (ch (he_key e))) es (ut_reset_blooms (ut_directory t))"
  have R: "length (ut_reset_blooms (ut_directory t)) = ?n" using len(2) by (simp add: ut_reset_blooms_def)
  then have D: "length ?D = ?n" by simp
  have build: "ut_build ch es t = t\<lparr>ut_tuples := ts, ut_directory := ut_set_ranges ?n ?offs (sum_list ?cs) ?D\<rparr>" (is "_ = ?t")
    using scat by (simp add: ut_build_def ut_prefix_sums_eq[OF len(1)])
  have same: "ut_prefix ?t = ut_prefix t" by (simp add: ut_prefix_def fun_eq_iff)
  have slices: "take (length (slot_of_list ?slot es s)) (drop (slot_begin ?slot es s) ts) = slot_of_list ?slot es s" if "s < ?n" for s
    using size_counter.scatter_correct[OF lim slots _ _ _ scat that] total_es sums by simp
  have ranges: "?offs ! s = slot_begin ?slot es s"
    "(if s + 1 < ?n then ?offs ! (s + 1) else sum_list ?cs) = slot_begin ?slot es (Suc s)" if "s < ?n" for s
    using that sums[of s] sums[of "Suc s"] len(1) by (cases "s + 1 < ?n"; simp)+
  have bloom: "maybe_contains (de_bloom (ut_directory ?t ! ?slot e)) (make_tag_from_hash (ch (he_key e)))" if "e \<in> set es" for e
    using ut_blooms_member[OF that, of t "\<lambda>e. ch (he_key e)" "ut_reset_blooms (ut_directory t)"] slots[of e] R
    by (simp add: ut_set_ranges_nth(2)[OF D])
  have "ut_wf ?t" using wf D by (simp add: ut_wf_def ut_set_ranges_nth(1))
  then show ?thesis
    unfolding build using slices ranges bloom same
    by (simp add: ut_holds_def ut_set_ranges_nth(2)[OF D])
qed

lemma ut_clear_holds:
  assumes "ut_wf t"
  shows "ut_holds ch [] (ut_clear t)"
  using assms by (auto simp: ut_holds_def ut_wf_def ut_clear_def empty_dir_def)

section \<open>Probing a built table\<close>

lemma ut_probe_bucket:
  assumes "ut_holds ch es t"
  shows "bucket (ut_probe ch k t) =
    (if maybe_contains (de_bloom (ut_directory t ! ut_prefix t (ch k))) (make_tag_from_hash (ch k))
     then slot_of_list (ut_slot ch t) es (ut_prefix t (ch k)) else [])"
proof -
  let ?s = "ut_prefix t (ch k)"
  have "?s < ut_dir_size t" using assms ut_prefix_less by (auto simp: ut_holds_def)
  then have "de_begin_idx (ut_directory t ! ?s) = slot_begin (ut_slot ch t) es ?s"
    "de_end_idx (ut_directory t ! ?s) = slot_begin (ut_slot ch t) es ?s + length (slot_of_list (ut_slot ch t) es ?s)"
    "take (length (slot_of_list (ut_slot ch t) es ?s)) (drop (slot_begin (ut_slot ch t) es ?s) (ut_tuples t)) =
      slot_of_list (ut_slot ch t) es ?s"
    using assms by (auto simp: ut_holds_def slot_begin_Suc)
  then show ?thesis by (simp add: ut_probe_def Let_def)
qed

lemma ut_probe_with_key:
  assumes "ut_holds ch es t"
  shows "with_key k (bucket (ut_probe ch k t)) = with_key k es"
proof (cases "maybe_contains (de_bloom (ut_directory t ! ut_prefix t (ch k))) (make_tag_from_hash (ch k))")
  case True
  have "with_key k (slot_of_list (ut_slot ch t) es (ut_prefix t (ch k))) = with_key k es"
    by (induction es) auto
  with True show ?thesis by (simp add: ut_probe_bucket[OF assms])
next
  case False
  have "he_key e \<noteq> k" if "e \<in> set es" for e
    using assms that False by (auto simp: ut_holds_def)
  with False show ?thesis by (simp add: ut_probe_bucket[OF assms])
qed

lemma ut_build_from_hash_entries_holds: "ut_wf t \<Longrightarrow> ut_holds ch es (ut_build_from_hash_entries ch es t)"
  by (cases "es = []") (simp_all add: ut_build_from_hash_entries_eq ut_clear_holds ut_build_holds)

interpretation old_unchained: hash_index "\<lambda>es t. Inr (ut_build_from_hash_entries ch es t)" "ut_probe ch" ut_wf "\<lambda>es. True"
  for ch :: "'k::zero \<Rightarrow> u64"
  by unfold_locales (auto intro!: ut_probe_with_key ut_build_from_hash_entries_holds)

text \<open>C33. The older unchained table agrees with the one that replaced it: built from the same entries (fewer than 2^32)
  after the same \<open>reserve\<close>, whatever the two tables held before, a probe of either returns the same entries of the key, namely those of the
  input in their order; the prefix bits they group by differ, and so may the other entries of the
  two buckets.\<close>

theorem unchained_tables_agree:
  fixes t :: "'k::zero unchained_table" and t' :: "'k flat_table"
  assumes "ut_wf t" "flat_wf t'" "length es < 2 ^ 32"
  shows "filter (\<lambda>e. he_key e = k) (bucket (ut_probe ch k (ut_build_from_hash_entries ch es (ut_reserve n t)))) =
      filter (\<lambda>e. he_key e = k) (bucket (flat_probe ch k (flat_build_from_entries ch es (flat_reserve n t'))))"
  using old_unchained.build_probe[OF ut_wf_reserve[OF assms(1)] TrueI refl]
    flat.build_probe[OF flat_wf_reserve[OF assms(2)] assms(3) refl] by simp

lemma unchained_tables_agree_witness:
  "filter (\<lambda>e. he_key e = 7)
      (bucket (ut_probe compute_hash_u32 7 (ut_build_from_hash_entries compute_hash_u32 example_entries (ut_reserve 3 (ut_new 10))))) =
    filter (\<lambda>e. he_key e = 7)
      (bucket (flat_probe compute_hash_u32 7 (flat_build_from_entries compute_hash_u32 example_entries (flat_reserve 3 (flat_new 10)))))"
  by (rule unchained_tables_agree) (simp_all add: ut_wf_new flat_wf_new example_entries_def)

end
