(* ===== verification/DisjointSets.thy ===== *)
theory DisjointSets
  imports Prelude
begin

text \<open>
  The disjoint-set forest \<open>DSU\<close> of \<open>src/include/common.h\<close>: a vector of parents, \<open>find\<close> with
  path compression, \<open>unite\<close> without ranks. The recursion of \<open>find\<close> runs on fuel, one unit per
  call; a vector of \<open>n\<close> parents without a cycle needs at most \<open>n\<close>, so running out stands for
  the endless recursion on a cycle. The main result is that every sequence of calls returns and
  that \<open>find\<close> then decides the equivalence generated by the united pairs.
\<close>

section \<open>The structure and its operations\<close>

record dsu =
  dsu_pa :: "nat list"

definition dsu_new :: "nat \<Rightarrow> dsu" where
  "dsu_new n = \<lparr>dsu_pa = [0..<n]\<rparr>"

fun find_rec :: "nat \<Rightarrow> nat \<Rightarrow> nat list \<Rightarrow> (nat \<times> nat list) res" where
  "find_rec 0 x pa = Inl No_return"
| "find_rec (Suc fuel) x pa =
     rbind (at pa x) (\<lambda>p.
       if p = x then Inr (x, pa)
       else rbind (find_rec fuel p pa) (\<lambda>(r, pa'). Inr (r, pa'[x := r])))"

definition dsu_find :: "nat \<Rightarrow> dsu \<Rightarrow> (nat \<times> dsu) res" where
  "dsu_find x d = rbind (find_rec (length (dsu_pa d)) x (dsu_pa d)) (\<lambda>(r, pa). Inr (r, d\<lparr>dsu_pa := pa\<rparr>))"

text \<open>In \<open>pa[find(x)] = find(y)\<close> the right operand is evaluated first (C++17).\<close>

definition dsu_unite :: "nat \<Rightarrow> nat \<Rightarrow> dsu \<Rightarrow> dsu res" where
  "dsu_unite x y d =
     rbind (dsu_find y d) (\<lambda>(b, d1). rbind (dsu_find x d1) (\<lambda>(a, d2).
       Inr (d2\<lparr>dsu_pa := (dsu_pa d2)[a := b]\<rparr>)))"

section \<open>Forests\<close>

text \<open>
  \<open>root\<close> is the representative of every element and \<open>depth\<close> decreases along the parents:
  the vector has no cycle besides the roots.
\<close>

definition forest :: "nat list \<Rightarrow> (nat \<Rightarrow> nat) \<Rightarrow> (nat \<Rightarrow> nat) \<Rightarrow> bool" where
  "forest pa root depth \<longleftrightarrow> (\<forall>x < length pa.
     pa ! x < length pa \<and> root x < length pa \<and> root (pa ! x) = root x \<and> root (root x) = root x \<and>
     (pa ! x = x \<longleftrightarrow> root x = x) \<and>
     (pa ! x \<noteq> x \<longrightarrow> depth (pa ! x) < depth x) \<and> (root x \<noteq> x \<longrightarrow> depth (root x) < depth x))"

lemma forestD:
  assumes "forest pa root depth" "x < length pa"
  shows "pa ! x < length pa" "root x < length pa" "root (pa ! x) = root x" "root (root x) = root x"
    "pa ! x = x \<longleftrightarrow> root x = x" "pa ! x \<noteq> x \<Longrightarrow> depth (pa ! x) < depth x"
    "root x \<noteq> x \<Longrightarrow> depth (root x) < depth x"
  using assms by (simp_all add: forest_def)

lemma forest_new: "forest [0..<n] (\<lambda>x. x) (\<lambda>x. 0)"
  by (simp add: forest_def)

lemma forest_compress:
  assumes "forest pa root depth" "x < length pa"
  shows "forest (pa[x := root x]) root depth"
  unfolding forest_def
proof (intro allI impI)
  fix z assume "z < length (pa[x := root x])"
  then have "z < length pa" by simp
  then show "pa[x := root x] ! z < length (pa[x := root x]) \<and> root z < length (pa[x := root x]) \<and>
      root (pa[x := root x] ! z) = root z \<and> root (root z) = root z \<and>
      (pa[x := root x] ! z = z \<longleftrightarrow> root z = z) \<and>
      (pa[x := root x] ! z \<noteq> z \<longrightarrow> depth (pa[x := root x] ! z) < depth z) \<and>
      (root z \<noteq> z \<longrightarrow> depth (root z) < depth z)"
    using forestD[OF assms(1), of z] forestD[OF assms(1,2)] by (cases "z = x") simp_all
qed

lemma forest_link:
  assumes f: "forest pa root depth" and a: "a < length pa" "root a = a" and b: "b < length pa" "root b = b"
    and ne: "a \<noteq> b"
  shows "forest (pa[a := b]) (\<lambda>z. if root z = a then b else root z)
    (\<lambda>z. if root z = a then depth z + depth b + 1 else depth z)"
  unfolding forest_def
proof (intro allI impI)
  fix z assume "z < length (pa[a := b])"
  then have z: "z < length pa" by simp
  note fz = forestD[OF f z]
  let ?pa = "pa[a := b]" and ?root = "\<lambda>z. if root z = a then b else root z"
    and ?depth = "\<lambda>z. if root z = a then depth z + depth b + 1 else depth z"
  show "?pa ! z < length ?pa \<and> ?root z < length ?pa \<and> ?root (?pa ! z) = ?root z \<and>
      ?root (?root z) = ?root z \<and> (?pa ! z = z \<longleftrightarrow> ?root z = z) \<and>
      (?pa ! z \<noteq> z \<longrightarrow> ?depth (?pa ! z) < ?depth z) \<and> (?root z \<noteq> z \<longrightarrow> ?depth (?root z) < ?depth z)"
  proof (cases "z = a")
    case True
    then show ?thesis using a b ne by simp
  next
    case False
    then have nth: "?pa ! z = pa ! z" by simp
    show ?thesis
    proof (cases "root z = a")
      case True
      have "root z \<noteq> z" using True False by simp
      then have "pa ! z \<noteq> z" using fz(5) by blast
      moreover have "z \<noteq> b" using True b(2) ne by auto
      ultimately show ?thesis using True fz(1-3) fz(6) b ne nth by simp
    next
      case r: False
      show ?thesis
      proof (cases "pa ! z = z")
        case True
        then show ?thesis using fz(5) r z nth by simp
      next
        case False
        then have "root z \<noteq> z" "depth (pa ! z) < depth z" "depth (root z) < depth z" using fz(5-7) by auto
        then show ?thesis using False fz(1-4) r nth by simp
      qed
    qed
  qed
qed

lemma forest_link_roots:
  assumes "forest pa root depth" "a < length pa" "root a = a" "b < length pa" "root b = b"
  shows "\<exists>depth'. forest (pa[a := b]) (\<lambda>z. if root z = a then b else root z) depth'"
proof (cases "a = b")
  case True
  have "pa ! a = a" using forestD(5)[OF assms(1,2)] assms(3) by simp
  then have "pa[a := b] = pa" using True by (metis list_update_id)
  moreover have "(\<lambda>z. if root z = a then b else root z) = root" using True by auto
  ultimately show ?thesis using assms(1) by auto
next
  case False
  then show ?thesis using forest_link[OF assms] by blast
qed

section \<open>Correctness of the operations\<close>

text \<open>Fuel: every step of \<open>find\<close> leaves fewer elements of smaller depth.\<close>

definition below :: "nat list \<Rightarrow> (nat \<Rightarrow> nat) \<Rightarrow> nat \<Rightarrow> nat set" where
  "below pa depth x = {y. y < length pa \<and> depth y < depth x}"

lemma below_finite [simp]: "finite (below pa depth x)"
  by (simp add: below_def)

lemma below_parent:
  assumes "y < length pa" "depth y < depth x"
  shows "card (below pa depth y) < card (below pa depth x)"
proof (rule psubset_card_mono)
  show "below pa depth y \<subset> below pa depth x" using assms by (auto simp: below_def)
qed simp

lemma below_length:
  assumes "x < length pa"
  shows "card (below pa depth x) < length pa"
proof -
  have "below pa depth x \<subset> {..<length pa}" using assms by (auto simp: below_def)
  from psubset_card_mono[OF finite_lessThan this] show ?thesis by simp
qed

lemma find_rec_correct:
  assumes "forest pa root depth" "x < length pa" "card (below pa depth x) < fuel"
  shows "\<exists>pa'. find_rec fuel x pa = Inr (root x, pa') \<and> forest pa' root depth \<and> length pa' = length pa"
  using assms
proof (induction fuel arbitrary: x)
  case (Suc fuel)
  note f = forestD[OF Suc.prems(1,2)]
  show ?case
  proof (cases "pa ! x = x")
    case True
    then show ?thesis using Suc.prems f(5) by simp
  next
    case False
    have "card (below pa depth (pa ! x)) < fuel"
      using below_parent[OF f(1) f(6)[OF False]] Suc.prems(3) by simp
    from Suc.IH[OF Suc.prems(1) f(1) this] obtain pa' where
      pa': "find_rec fuel (pa ! x) pa = Inr (root x, pa')" "forest pa' root depth" "length pa' = length pa"
      using f(3) by auto
    then show ?thesis using Suc.prems False forest_compress[OF pa'(2), of x] by simp
  qed
qed simp

lemma dsu_find_correct:
  assumes "forest (dsu_pa d) root depth" "x < length (dsu_pa d)"
  shows "\<exists>d'. dsu_find x d = Inr (root x, d') \<and> forest (dsu_pa d') root depth \<and>
    length (dsu_pa d') = length (dsu_pa d)"
  using find_rec_correct[OF assms below_length[OF assms(2)]] by (auto simp: dsu_find_def)

lemma dsu_unite_correct:
  assumes "forest (dsu_pa d) root depth" "x < length (dsu_pa d)" "y < length (dsu_pa d)"
  shows "\<exists>d' depth'. dsu_unite x y d = Inr d' \<and>
    forest (dsu_pa d') (\<lambda>z. if root z = root x then root y else root z) depth' \<and>
    length (dsu_pa d') = length (dsu_pa d)"
proof -
  from dsu_find_correct[OF assms(1,3)] obtain d1 where
    d1: "dsu_find y d = Inr (root y, d1)" "forest (dsu_pa d1) root depth" "length (dsu_pa d1) = length (dsu_pa d)" by blast
  from dsu_find_correct[OF d1(2), of x] obtain d2 where
    d2: "dsu_find x d1 = Inr (root x, d2)" "forest (dsu_pa d2) root depth" "length (dsu_pa d2) = length (dsu_pa d)"
    using assms(2) d1(3) by auto
  show ?thesis
    using forest_link_roots[OF d2(2), of "root x" "root y"] forestD(2,4)[OF assms(1,2)] forestD(2,4)[OF assms(1,3)]
      d1(1) d2(1,3) by (auto simp: dsu_unite_def)
qed

section \<open>Sequences of calls\<close>

datatype dsu_op = Find nat | Unite nat nat

fun dsu_call :: "dsu_op \<Rightarrow> dsu \<Rightarrow> dsu res" where
  "dsu_call (Find x) d = rbind (dsu_find x d) (\<lambda>(r, d'). Inr d')"
| "dsu_call (Unite x y) d = dsu_unite x y d"

fun in_range :: "nat \<Rightarrow> dsu_op \<Rightarrow> bool" where
  "in_range n (Find x) = (x < n)"
| "in_range n (Unite x y) = (x < n \<and> y < n)"

fun united :: "dsu_op list \<Rightarrow> (nat \<times> nat) set" where
  "united [] = {}"
| "united (Find x # cs) = united cs"
| "united (Unite x y # cs) = insert (x, y) (united cs)"

lemma united_append: "united (cs @ ds) = united cs \<union> united ds"
  by (induction cs rule: united.induct) auto

text \<open>The specification: the least equivalence that contains the united pairs.\<close>

definition same_set :: "(nat \<times> nat) set \<Rightarrow> nat \<Rightarrow> nat \<Rightarrow> bool" where
  "same_set E x y \<longleftrightarrow> (x, y) \<in> (E \<union> E\<inverse>)\<^sup>*"

lemma same_set_refl: "same_set E x x"
  by (simp add: same_set_def)

lemma same_set_sym: "same_set E x y \<Longrightarrow> same_set E y x"
  unfolding same_set_def by (metis Un_commute converse_Un converse_converse rtrancl_converseI)

lemma same_set_trans: "same_set E x y \<Longrightarrow> same_set E y z \<Longrightarrow> same_set E x z"
  unfolding same_set_def by (rule rtrancl_trans)

lemma same_set_pair: "(x, y) \<in> E \<Longrightarrow> same_set E x y"
  by (auto simp: same_set_def)

lemma same_set_mono: "same_set E x y \<Longrightarrow> E \<subseteq> F \<Longrightarrow> same_set F x y"
  unfolding same_set_def by (erule rtrancl_mono[THEN subsetD, rotated]) auto

definition decides :: "nat \<Rightarrow> (nat \<Rightarrow> nat) \<Rightarrow> (nat \<times> nat) set \<Rightarrow> bool" where
  "decides n root E \<longleftrightarrow> (\<forall>x < n. same_set E x (root x)) \<and> (\<forall>(x, y) \<in> E. root x = root y)"

lemma decides_iff:
  assumes "decides n root E" "x < n" "y < n"
  shows "root x = root y \<longleftrightarrow> same_set E x y"
proof
  assume "root x = root y"
  then show "same_set E x y"
    using assms same_set_trans same_set_sym unfolding decides_def by metis
next
  assume "same_set E x y"
  then have "(x, y) \<in> (E \<union> E\<inverse>)\<^sup>*" by (simp add: same_set_def)
  then show "root x = root y"
    by (induction rule: rtrancl_induct) (use assms(1) in \<open>auto simp: decides_def\<close>)
qed

lemma decides_unite:
  assumes "decides n root E" "x < n" "y < n"
  shows "decides n (\<lambda>z. if root z = root x then root y else root z) (insert (x, y) E)"
proof -
  have "same_set (insert (x, y) E) z (if root z = root x then root y else root z)" if z: "z < n" for z
  proof -
    have *: "same_set (insert (x, y) E) u (root u)" if "u < n" for u
      using same_set_mono[of E u "root u"] that assms(1) by (auto simp: decides_def)
    have "same_set (insert (x, y) E) x y" by (rule same_set_pair) simp
    then show ?thesis using *[OF z] *[OF assms(2)] *[OF assms(3)] same_set_trans same_set_sym by (metis (full_types))
  qed
  moreover have "\<forall>(u, v) \<in> insert (x, y) E. (if root u = root x then root y else root u) =
      (if root v = root x then root y else root v)"
    using assms(1) by (auto simp: decides_def)
  ultimately show ?thesis by (simp add: decides_def)
qed

lemma dsu_calls:
  assumes "list_all (in_range n) cs"
  shows "\<exists>d root depth. rfold dsu_call cs (dsu_new n) = Inr d \<and> forest (dsu_pa d) root depth \<and>
    length (dsu_pa d) = n \<and> decides n root (united cs)"
  using assms
proof (induction cs rule: rev_induct)
  case Nil
  show ?case using forest_new[of n] by (auto simp: dsu_new_def decides_def same_set_refl)
next
  case (snoc c cs)
  then obtain d root depth where d: "rfold dsu_call cs (dsu_new n) = Inr d" "forest (dsu_pa d) root depth"
    "length (dsu_pa d) = n" "decides n root (united cs)" by auto
  show ?case
  proof (cases c)
    case (Find x)
    then show ?thesis using dsu_find_correct[OF d(2), of x] d snoc.prems
      by (fastforce simp: rfold_append rfold_one united_append)
  next
    case (Unite x y)
    have xy: "x < n" "y < n" using snoc.prems Unite by simp_all
    from dsu_unite_correct[OF d(2), of x y] xy d(3) obtain d' depth' where
      d': "dsu_unite x y d = Inr d'" "forest (dsu_pa d') (\<lambda>z. if root z = root x then root y else root z) depth'"
      "length (dsu_pa d') = n" by auto
    have "rfold dsu_call (cs @ [c]) (dsu_new n) = Inr d'"
      using d(1) d'(1) Unite by (simp add: rfold_append rfold_one)
    moreover have "united (cs @ [c]) = insert (x, y) (united cs)" using Unite by (simp add: united_append)
    ultimately show ?thesis using d'(2,3) decides_unite[OF d(4) xy] by auto
  qed
qed

section \<open>Properties\<close>

text \<open>C37. Every sequence of calls of \<open>find\<close> and \<open>unite\<close> on elements of the structure returns, and
  afterwards \<open>find\<close> gives two elements the same representative exactly if the equivalence
  generated by the united pairs relates them; asking does not change the answers.\<close>

theorem dsu_decides_equivalence:
  assumes "list_all (in_range n) cs" "x < n" "y < n"
  shows "\<exists>d r s d1 d2. rfold dsu_call cs (dsu_new n) = Inr d \<and>
    dsu_find x d = Inr (r, d1) \<and> dsu_find y d1 = Inr (s, d2) \<and>
    (r = s \<longleftrightarrow> same_set (united cs) x y)"
proof -
  from dsu_calls[OF assms(1)] obtain d root depth where d: "rfold dsu_call cs (dsu_new n) = Inr d"
    "forest (dsu_pa d) root depth" "length (dsu_pa d) = n" "decides n root (united cs)" by blast
  from dsu_find_correct[OF d(2), of x] obtain d1 where
    d1: "dsu_find x d = Inr (root x, d1)" "forest (dsu_pa d1) root depth" "length (dsu_pa d1) = n"
    using assms(2) d(3) by auto
  from dsu_find_correct[OF d1(2), of y] obtain d2 where "dsu_find y d1 = Inr (root y, d2)"
    using assms(3) d1(3) by auto
  with d(1) d1(1) decides_iff[OF d(4) assms(2,3)] show ?thesis by blast
qed

lemma dsu_decides_equivalence_witness:
  "\<exists>d r s d1 d2. rfold dsu_call [Unite 0 1, Unite 3 2, Find 0, Unite 1 2] (dsu_new 5) = Inr d \<and>
    dsu_find 0 d = Inr (r, d1) \<and> dsu_find 3 d1 = Inr (s, d2) \<and> r = s"
proof -
  have range: "list_all (in_range 5) [Unite 0 1, Unite 3 2, Find 0, Unite 1 2]" by simp
  have "same_set (united [Unite 0 1, Unite 3 2, Find 0, Unite 1 2]) 0 3"
    using same_set_trans[OF same_set_trans[OF same_set_pair[of 0 1] same_set_pair[of 1 2]]
      same_set_sym[OF same_set_pair[of 3 2]]] by simp
  then show ?thesis using dsu_decides_equivalence[OF range, of 0 3] by simp
qed

end
