(* ===== verification/TableEntities.thy ===== *)
theory TableEntities
  imports InnerColumns
begin

text \<open>
  Hash mixing and table entities: \<open>rotl32\<close> and \<open>hash_combine\<close> of \<open>src/include/common.h\<close>, the
  FNV-1a hash of \<open>src/include/table.h\<close> and the comparison and hash of \<open>TableEntity\<close> in
  \<open>src/include/table_entity.h\<close>. The two instances of \<open>std::hash\<close> are parameters. The lemmas show
  that every mixing step is a bijection, so no step loses what the ingredients distinguish, and
  that \<open>operator<\<close> is a strict total order.
\<close>

section \<open>Mixing\<close>

text \<open>Shifting a 32-bit value by 32 bits or more, or by a negative number of bits, is undefined.\<close>

definition rotl32 :: "u32 \<Rightarrow> u8 \<Rightarrow> u32 res" where
  "rotl32 x bits =
     (if 0 < bits \<and> bits < 32 then Inr (push_bit (unat bits) x OR drop_bit (32 - unat bits) x)
      else Inl Undefined)"

definition hash_combine_impl32 :: "u32 \<Rightarrow> u32 \<Rightarrow> u32 res" where
  "hash_combine_impl32 h1 k1 =
     rbind (rotl32 (k1 * 0xcc9e2d51) 15) (\<lambda>k1.
     rbind (rotl32 (h1 XOR k1 * 0x1b873593) 13) (\<lambda>h1. Inr (h1 * 5 + 0xe6546b64)))"

definition hash_combine_impl64 :: "u64 \<Rightarrow> u64 \<Rightarrow> u64" where
  "hash_combine_impl64 h k =
     (let m = 0xc6a4a7935bd1e995;
          k = k * m;
          k = k XOR drop_bit 47 k;
          k = k * m
      in (h XOR k) * m + 0xe6546b64)"

text \<open>The platform has a \<open>std::size_t\<close> of 8 bytes.\<close>

definition hash_combine :: "u64 \<Rightarrow> u64 \<Rightarrow> u64" where
  "hash_combine seed k = hash_combine_impl64 seed k"

section \<open>FNV-1a\<close>

definition FNV_prime :: u64 where
  "FNV_prime = 1099511628211"

definition offset_basis :: u64 where
  "offset_basis = 14695981039346656037"

definition fnv_step :: "u8 \<Rightarrow> u64 \<Rightarrow> u64" where
  "fnv_step b h = (h XOR ucast b) * FNV_prime"

definition fnv_hash :: "bytes \<Rightarrow> nat \<Rightarrow> u64 res" where
  "fnv_hash key len = rfold (\<lambda>i h. rbind (at key i) (\<lambda>b. Inr (fnv_step b h))) [0..<len] offset_basis"

section \<open>Table entities\<close>

datatype table_entity = TableEntity (te_table: bytes) (te_id: int)

definition te_equal :: "table_entity \<Rightarrow> table_entity \<Rightarrow> bool" where
  "te_equal left right \<longleftrightarrow> te_table left = te_table right \<and> te_id left = te_id right"

definition te_not_equal :: "table_entity \<Rightarrow> table_entity \<Rightarrow> bool" where
  "te_not_equal left right \<longleftrightarrow> \<not> te_equal left right"

definition te_less :: "table_entity \<Rightarrow> table_entity \<Rightarrow> bool" where
  "te_less left right =
     (if bytes_less (te_table left) (te_table right) then True
      else if bytes_less (te_table right) (te_table left) then False
      else te_id left < te_id right)"

definition te_hash :: "(bytes \<Rightarrow> u64) \<Rightarrow> (int \<Rightarrow> u64) \<Rightarrow> table_entity \<Rightarrow> u64" where
  "te_hash hash_string hash_int te = hash_combine (hash_combine 0 (hash_string (te_table te))) (hash_int (te_id te))"

section \<open>Every mixing step is a bijection\<close>

lemma rotl32_word_rotl: "0 < bits \<Longrightarrow> bits < 32 \<Longrightarrow> rotl32 x bits = Inr (word_rotl (unat bits) x)"
proof -
  assume "0 < bits" "bits < 32"
  then have n: "0 < unat bits" "unat bits < 32" by (simp_all add: word_less_nat_alt)
  have "push_bit (unat bits) x OR drop_bit (32 - unat bits) x = word_rotl (unat bits) x"
  proof (rule word_eq_bitsI)
    fix i assume "i < LENGTH(32)"
    then have i: "i < 32" by simp
    show "bit (push_bit (unat bits) x OR drop_bit (32 - unat bits) x) i = bit (word_rotl (unat bits) x) i"
    proof (cases "i < unat bits")
      case True
      then have "i + (32 - unat bits) < 32" "i + (32 - unat bits) = 32 - unat bits + i" using n by auto
      then show ?thesis using True n i
        by (simp only: bit_word_rotl_iff bit_or_iff bit_push_bit_iff bit_drop_bit_eq comp_def) simp
    next
      case False
      then have "\<not> bit x (32 - unat bits + i)" using n bit_imp_le_length[of x "32 - unat bits + i"] by auto
      have "(i + (32 - unat bits)) mod 32 = (i - unat bits + 32) mod 32" using False n by simp
      also have "\<dots> = i - unat bits" by (simp only: mod_add_self2 mod_less less_imp_diff_less[OF i])
      finally have "(i + (32 - unat bits)) mod 32 = i - unat bits" .
      moreover have "\<not> bit x (32 - unat bits + i)" by fact
      moreover have "unat bits mod 32 = unat bits" using n by simp
      ultimately show ?thesis using False i
        by (simp only: bit_word_rotl_iff bit_or_iff bit_push_bit_iff bit_drop_bit_eq comp_def) simp
    qed
  qed
  with \<open>0 < bits\<close> \<open>bits < 32\<close> show ?thesis by (simp add: rotl32_def)
qed

text \<open>Multiplying by an odd constant is undone by its inverse.\<close>

lemma mult_cancel_by: "m * i = 1 \<Longrightarrow> x * m = y * m \<longleftrightarrow> x = (y :: 'a::len word)"
  by (metis mult.assoc mult_1_right)

lemma mixing_constant: "x * 0xc6a4a7935bd1e995 = y * 0xc6a4a7935bd1e995 \<longleftrightarrow> x = (y :: u64)"
  by (rule mult_cancel_by[where i = 6879827495036328381]) simp

lemma FNV_prime_cancel: "x * FNV_prime = y * FNV_prime \<longleftrightarrow> x = y"
  unfolding FNV_prime_def by (rule mult_cancel_by[where i = 14886173955864302971]) simp

lemma xorshift_involution: "(k XOR drop_bit 47 k) XOR drop_bit 47 (k XOR drop_bit 47 k) = (k :: u64)"
proof (rule word_eq_bitsI)
  fix i assume "i < LENGTH(64)"
  have "\<not> bit k (47 + (47 + i))" using bit_imp_le_length[of k "47 + (47 + i)"] by auto
  then show "bit ((k XOR drop_bit 47 k) XOR drop_bit 47 (k XOR drop_bit 47 k)) i = bit k i"
    unfolding bit_xor_iff bit_drop_bit_eq comp_def by auto
qed

lemma xorshift_inject: "x XOR drop_bit 47 x = y XOR drop_bit 47 y \<longleftrightarrow> x = (y :: u64)"
  by (metis xorshift_involution)

lemma xor_right_inject: "h XOR x = h XOR y \<longleftrightarrow> x = (y :: 'a::len word)"
  by (metis bit.xor_left_self)

lemma xor_left_inject: "x XOR k = y XOR k \<longleftrightarrow> x = (y :: 'a::len word)"
  by (metis xor.commute xor_right_inject)

lemma hash_combine_value_inject: "hash_combine seed x = hash_combine seed y \<longleftrightarrow> x = y"
  unfolding hash_combine_def hash_combine_impl64_def Let_def
  by (simp only: add_right_cancel mixing_constant xor_right_inject xorshift_inject)

lemma hash_combine_seed_inject: "hash_combine x k = hash_combine y k \<longleftrightarrow> x = y"
  unfolding hash_combine_def hash_combine_impl64_def Let_def
  by (simp only: add_right_cancel mixing_constant xor_left_inject)

lemma fnv_step_hash_inject: "fnv_step b x = fnv_step b y \<longleftrightarrow> x = y"
  by (simp only: fnv_step_def FNV_prime_cancel xor_left_inject)

lemma ucast_byte_inject: "(ucast a :: u64) = ucast b \<longleftrightarrow> a = (b :: u8)"
proof
  assume eq: "(ucast a :: u64) = ucast b"
  show "a = b"
  proof (rule word_eq_bitsI)
    fix i assume "i < LENGTH(8)"
    then show "bit a i = bit b i"
      using arg_cong[OF eq, of "\<lambda>w. bit w i"] by (simp add: bit_ucast_iff)
  qed
qed simp

lemma fnv_step_byte_inject: "fnv_step a h = fnv_step b h \<longleftrightarrow> a = b"
  by (simp only: fnv_step_def FNV_prime_cancel xor_right_inject ucast_byte_inject)

lemma fnv_hash_fold: "fnv_hash key (length key) = Inr (fold fnv_step key offset_basis)"
proof -
  have "rfold (\<lambda>i h. rbind (at key i) (\<lambda>b. Inr (fnv_step b h))) [0..<n] h0 = Inr (fold fnv_step (take n key) h0)"
    if "n \<le> length key" for n h0
    using that
    by (induction n) (simp_all only: upt_0 take_0 fold.simps rfold.simps rfold_upt_Suc, simp_all add: take_Suc_conv_app_nth)
  then show ?thesis by (simp add: fnv_hash_def)
qed

lemma fnv_fold_inject: "fold fnv_step bs x = fold fnv_step bs y \<longleftrightarrow> x = y"
  by (induction bs arbitrary: x y) (simp_all add: fnv_step_hash_inject)

text \<open>Two keys of one length that differ in a single byte have different FNV hashes.\<close>

lemma fnv_hash_single_byte:
  assumes "a \<noteq> b"
  shows "fnv_hash (xs @ a # ys) (length (xs @ a # ys)) \<noteq> fnv_hash (xs @ b # ys) (length (xs @ b # ys))"
  unfolding fnv_hash_fold using assms by (simp add: fnv_fold_inject fnv_step_byte_inject)

section \<open>The order of table entities\<close>

lemma bytes_less_irrefl [simp]: "\<not> bytes_less xs xs"
  by (induction xs) simp_all

lemma bytes_less_trans: "bytes_less xs ys \<Longrightarrow> bytes_less ys zs \<Longrightarrow> bytes_less xs zs"
proof (induction xs ys arbitrary: zs rule: bytes_less.induct)
  case (3 x xs y ys)
  then show ?case by (cases zs) auto
next
  case (2 y ys)
  then show ?case by (cases zs) auto
qed simp

lemma bytes_less_linear: "bytes_less xs ys \<or> xs = ys \<or> bytes_less ys xs"
proof (induction xs ys rule: bytes_less.induct)
  case (1 xs)
  then show ?case by (cases xs) auto
next
  case (3 x xs y ys)
  then show ?case by (auto simp: word_unat_eq_iff)
qed simp

instantiation table_entity :: linorder
begin

definition less_table_entity :: "table_entity \<Rightarrow> table_entity \<Rightarrow> bool" where
  "a < b \<longleftrightarrow> te_less a b"

definition less_eq_table_entity :: "table_entity \<Rightarrow> table_entity \<Rightarrow> bool" where
  "a \<le> b \<longleftrightarrow> te_less a b \<or> te_equal a b"

lemma te_equal_iff: "te_equal a b \<longleftrightarrow> a = b"
  by (cases a; cases b) (simp add: te_equal_def)

lemma te_less_iff: "te_less a b \<longleftrightarrow>
  bytes_less (te_table a) (te_table b) \<or> te_table a = te_table b \<and> te_id a < te_id b"
  using bytes_less_linear[of "te_table a" "te_table b"] bytes_less_trans by (auto simp: te_less_def)

lemma te_less_asym: "te_less a b \<Longrightarrow> \<not> te_less b a"
  using bytes_less_trans by (fastforce simp: te_less_iff)

lemma te_less_trans: "te_less a b \<Longrightarrow> te_less b c \<Longrightarrow> te_less a c"
  using bytes_less_trans by (fastforce simp: te_less_iff)

lemma te_less_linear: "te_less a b \<or> a = b \<or> te_less b a"
  using bytes_less_linear[of "te_table a" "te_table b"]
  by (cases a; cases b) (auto simp: te_less_iff)

instance
proof
  fix a b c :: table_entity
  show "a < b \<longleftrightarrow> a \<le> b \<and> \<not> b \<le> a"
    using te_less_asym by (auto simp: less_table_entity_def less_eq_table_entity_def te_equal_iff)
  show "a \<le> a" by (simp add: less_eq_table_entity_def te_equal_iff)
  show "a \<le> c" if "a \<le> b" "b \<le> c"
    using that te_less_trans by (auto simp: less_eq_table_entity_def te_equal_iff)
  show "a = b" if "a \<le> b" "b \<le> a"
    using that te_less_asym by (auto simp: less_eq_table_entity_def te_equal_iff)
  show "a \<le> b \<or> b \<le> a"
    using te_less_linear[of a b] by (auto simp: less_eq_table_entity_def te_equal_iff)
qed

end

section \<open>Properties\<close>

text \<open>The comparison operators and the hash of \<open>TableEntity\<close> fit together: exactly one of
  \<open>a < b\<close>, \<open>a == b\<close> and \<open>b < a\<close> holds, and for entities that differ in one component only the
  hashes are equal exactly if \<open>std::hash\<close> maps the two components to one value, so the mixing of
  \<open>hash_combine\<close> causes no collision of its own.\<close>

theorem table_entity_order_and_hash:
  "(te_less a b \<longleftrightarrow> te_not_equal a b \<and> \<not> te_less b a) \<and>
   (te_hash hs hi (TableEntity t i) = te_hash hs hi (TableEntity t j) \<longleftrightarrow> hi i = hi j) \<and>
   (te_hash hs hi (TableEntity t i) = te_hash hs hi (TableEntity u i) \<longleftrightarrow> hs t = hs u)"
  using te_less_linear[of a b] te_less_asym[of a b] te_less_asym[of a a]
  by (auto simp: te_hash_def hash_combine_value_inject hash_combine_seed_inject te_not_equal_def te_equal_iff)

end
