(* ===== verification/PageOwnership.thy ===== *)
theory PageOwnership
  imports Pages
begin

text \<open>
  Who owns the pages of a column: \<open>MappedMemory\<close> and the life cycle of \<open>Column\<close> in
  \<open>src/include/plan.h\<close>, and how \<open>Table::from_cache\<close> (\<open>src/src/build_table.cpp\<close>) hands out the pages
  of a mapped file. A column either owns pages from \<open>new\<close> or shares a mapping whose object counts its
  columns. The memory records the live pages, mapping objects and mapped regions; deleting
  something that is not live, or a page that does not come from \<open>new\<close>, is undefined.

  The life of the columns of a program is a step relation over the live columns and the memory. Its
  invariant says that no page is owned twice, none is lost, and each mapping lives as long as one
  of its columns.
\<close>

section \<open>Memory\<close>

datatype page_ptr = New_page nat | Mapped_page nat nat

record mapped_memory =
  mm_addr :: nat
  mm_length :: nat
  mm_refs :: nat

record owned_column =
  oc_type :: data_type
  oc_pages :: "page_ptr list"
  oc_mapped :: "nat option"

text \<open>Addresses are numbers; \<open>mem_next\<close> has not been used yet.\<close>

record memory =
  mem_pages :: "nat set"
  mem_maps :: "nat \<rightharpoonup> mapped_memory"
  mem_regions :: "nat set"
  mem_next :: nat

definition delete_page :: "page_ptr \<Rightarrow> memory \<Rightarrow> memory res" where
  "delete_page p mem =
     (case p of
        New_page a \<Rightarrow> if a \<in> mem_pages mem then Inr (mem\<lparr>mem_pages := mem_pages mem - {a}\<rparr>) else Inl Undefined
      | Mapped_page r off \<Rightarrow> Inl Undefined)"

text \<open>\<open>delete mapped_memory\<close> with the destructor, which unmaps the region.\<close>

definition delete_mapped_memory :: "nat \<Rightarrow> memory \<Rightarrow> memory res" where
  "delete_mapped_memory m mem =
     (case mem_maps mem m of
        None \<Rightarrow> Inl Undefined
      | Some mm \<Rightarrow> Inr (mem\<lparr>mem_maps := (mem_maps mem)(m := None), mem_regions := mem_regions mem - {mm_addr mm}\<rparr>))"

section \<open>Columns\<close>

definition column_create :: "data_type \<Rightarrow> owned_column" where
  "column_create ty = \<lparr>oc_type = ty, oc_pages = [], oc_mapped = None\<rparr>"

definition column_new_page :: "owned_column \<Rightarrow> memory \<Rightarrow> owned_column \<times> memory" where
  "column_new_page c mem =
     (let ret = mem_next mem
      in (c\<lparr>oc_pages := oc_pages c @ [New_page ret]\<rparr>,
          mem\<lparr>mem_pages := insert ret (mem_pages mem), mem_next := ret + 1\<rparr>))"

definition assign_mapped_memory :: "nat \<Rightarrow> owned_column \<Rightarrow> memory \<Rightarrow> (owned_column \<times> memory) res" where
  "assign_mapped_memory m c mem =
     (case mem_maps mem m of
        None \<Rightarrow> Inl Undefined
      | Some mm \<Rightarrow> Inr (c\<lparr>oc_mapped := Some m\<rparr>,
          mem\<lparr>mem_maps := (mem_maps mem)(m \<mapsto> mm\<lparr>mm_refs := mm_refs mm + 1\<rparr>)\<rparr>))"

text \<open>What a move leaves behind.\<close>

definition column_emptied :: "owned_column \<Rightarrow> owned_column" where
  "column_emptied other = other\<lparr>oc_pages := [], oc_mapped := None\<rparr>"

definition column_move :: "owned_column \<Rightarrow> owned_column \<times> owned_column" where
  "column_move other =
     (\<lparr>oc_type = oc_type other, oc_pages = oc_pages other, oc_mapped = oc_mapped other\<rparr>, column_emptied other)"

text \<open>The move assignment between two different columns; onto itself it does nothing.\<close>

definition column_assign :: "owned_column \<Rightarrow> owned_column \<Rightarrow> memory \<Rightarrow> (owned_column \<times> owned_column \<times> memory) res" where
  "column_assign this other mem =
     rbind (rfold delete_page (oc_pages this) mem) (\<lambda>mem.
       Inr (this\<lparr>oc_type := oc_type other, oc_pages := oc_pages other, oc_mapped := oc_mapped other\<rparr>,
            column_emptied other, mem))"

text \<open>Decrementing a \<open>size_t\<close> that is 0 wraps.\<close>

definition column_destroy :: "owned_column \<Rightarrow> memory \<Rightarrow> memory res" where
  "column_destroy c mem =
     (case oc_mapped c of
        Some m \<Rightarrow>
          (case mem_maps mem m of
             None \<Rightarrow> Inl Undefined
           | Some mm \<Rightarrow>
               let refs = (if mm_refs mm = 0 then 2 ^ 64 - 1 else mm_refs mm - 1);
                   mem = mem\<lparr>mem_maps := (mem_maps mem)(m \<mapsto> mm\<lparr>mm_refs := refs\<rparr>)\<rparr>
               in if refs = 0 then delete_mapped_memory m mem else Inr mem)
      | None \<Rightarrow> rfold delete_page (oc_pages c) mem)"

section \<open>Loading a file\<close>

text \<open>\<open>mmap\<close> returns a new region, \<open>new MappedMemory\<close> a new object.\<close>

definition map_file :: "nat \<Rightarrow> memory \<Rightarrow> nat \<times> memory" where
  "map_file len mem =
     (let r = mem_next mem; m = r + 1
      in (m, mem\<lparr>mem_regions := insert r (mem_regions mem),
            mem_maps := (mem_maps mem)(m \<mapsto> \<lparr>mm_addr = r, mm_length = len, mm_refs = 0\<rparr>), mem_next := r + 2\<rparr>))"

definition load_column ::
    "nat \<Rightarrow> nat \<Rightarrow> data_type \<times> nat \<Rightarrow> owned_column list \<times> nat \<times> memory \<Rightarrow> (owned_column list \<times> nat \<times> memory) res" where
  "load_column m region spec = (\<lambda>(columns, data, mem).
     rbind (assign_mapped_memory m (column_create (fst spec)) mem) (\<lambda>(last_column, mem).
       Inr (columns @ [last_column\<lparr>oc_pages := map (Mapped_page region) [data..<data + snd spec]\<rparr>],
            data + snd spec, mem)))"

text \<open>The first page of the file is its header.\<close>

definition load_columns :: "nat \<Rightarrow> (data_type \<times> nat) list \<Rightarrow> memory \<Rightarrow> (owned_column list \<times> memory) res" where
  "load_columns len specs mem =
     (let (m, mem1) = map_file len mem
      in rbind (rfold (load_column m (mem_next mem)) specs ([], 1, mem1)) (\<lambda>(columns, data, mem2).
           Inr (columns, mem2)))"

section \<open>The life of the columns of a program\<close>

type_synonym columns_state = "(nat \<rightharpoonup> owned_column) \<times> memory"

text \<open>
  A program creates columns, lets them allocate pages, loads files with at least one column, moves
  columns into new ones and over existing ones, and destroys them; growing a vector of columns is a
  move and a destruction per element. The two conditions beyond the language's own: pages are only
  allocated for, and only assigned over, a column that is not mapped.
\<close>

inductive column_step :: "columns_state \<Rightarrow> columns_state \<Rightarrow> bool" where
  Step_create: "vars x = None \<Longrightarrow> column_step (vars, mem) (vars(x \<mapsto> column_create ty), mem)"
| Step_new_page: "vars x = Some c \<Longrightarrow> oc_mapped c = None \<Longrightarrow> column_new_page c mem = (c', mem') \<Longrightarrow>
    column_step (vars, mem) (vars(x \<mapsto> c'), mem')"
| Step_load: "specs \<noteq> [] \<Longrightarrow> distinct xs \<Longrightarrow> length xs = length specs \<Longrightarrow> set xs \<inter> dom vars = {} \<Longrightarrow>
    load_columns len specs mem = Inr (cs, mem') \<Longrightarrow>
    column_step (vars, mem) (vars ++ map_of (zip xs cs), mem')"
| Step_move: "vars y = Some d \<Longrightarrow> vars x = None \<Longrightarrow> column_move d = (c', d') \<Longrightarrow>
    column_step (vars, mem) (vars(x \<mapsto> c', y \<mapsto> d'), mem)"
| Step_assign: "vars x = Some c \<Longrightarrow> vars y = Some d \<Longrightarrow> x \<noteq> y \<Longrightarrow> oc_mapped c = None \<Longrightarrow>
    column_assign c d mem = Inr (c', d', mem') \<Longrightarrow> column_step (vars, mem) (vars(x \<mapsto> c', y \<mapsto> d'), mem')"
| Step_destroy: "vars x = Some c \<Longrightarrow> column_destroy c mem = Inr mem' \<Longrightarrow>
    column_step (vars, mem) (vars(x := None), mem')"

inductive_cases column_stepE: "column_step s s'"

definition memory_empty :: memory where
  "memory_empty = \<lparr>mem_pages = {}, mem_maps = Map.empty, mem_regions = {}, mem_next = 0\<rparr>"

definition columns_reachable :: "columns_state \<Rightarrow> bool" where
  "columns_reachable s \<longleftrightarrow> column_step\<^sup>*\<^sup>* (Map.empty, memory_empty) s"

section \<open>The invariant\<close>

subsection \<open>Pages from \<open>new\<close>\<close>

definition owns :: "(nat \<rightharpoonup> owned_column) \<Rightarrow> nat \<Rightarrow> page_ptr list" where
  "owns vars x = (case vars x of Some c \<Rightarrow> if oc_mapped c = None then oc_pages c else [] | None \<Rightarrow> [])"

definition pages_ok :: "(nat \<Rightarrow> page_ptr list) \<Rightarrow> memory \<Rightarrow> bool" where
  "pages_ok own mem \<longleftrightarrow>
     (\<forall>x. distinct (own x)) \<and> (\<forall>x y p. p \<in> set (own x) \<longrightarrow> p \<in> set (own y) \<longrightarrow> x = y) \<and>
     (\<forall>x p. p \<in> set (own x) \<longrightarrow> (\<exists>a \<in> mem_pages mem. p = New_page a)) \<and>
     (\<forall>a \<in> mem_pages mem. a < mem_next mem \<and> (\<exists>x. New_page a \<in> set (own x)))"

lemma pages_okD:
  assumes "pages_ok own mem"
  shows "distinct (own x)" "p \<in> set (own x) \<Longrightarrow> p \<in> set (own y) \<Longrightarrow> x = y"
    "p \<in> set (own x) \<Longrightarrow> \<exists>a \<in> mem_pages mem. p = New_page a"
    "a \<in> mem_pages mem \<Longrightarrow> a < mem_next mem" "a \<in> mem_pages mem \<Longrightarrow> \<exists>x. New_page a \<in> set (own x)"
  using assms unfolding pages_ok_def by blast+

lemma pages_okI:
  assumes "\<And>x. distinct (own x)" "\<And>x y p. p \<in> set (own x) \<Longrightarrow> p \<in> set (own y) \<Longrightarrow> x = y"
    "\<And>x p. p \<in> set (own x) \<Longrightarrow> \<exists>a \<in> mem_pages mem. p = New_page a"
    "\<And>a. a \<in> mem_pages mem \<Longrightarrow> a < mem_next mem" "\<And>a. a \<in> mem_pages mem \<Longrightarrow> \<exists>x. New_page a \<in> set (own x)"
  shows "pages_ok own mem"
  using assms unfolding pages_ok_def by blast

lemma owns_update: "owns (vars(x \<mapsto> c)) = (owns vars)(x := if oc_mapped c = None then oc_pages c else [])"
  by (rule ext) (simp add: owns_def)

lemma owns_remove: "owns (vars(x := None)) = (owns vars)(x := [])"
  by (rule ext) (simp add: owns_def)

lemma owns_simps [simp]:
  "vars x = None \<Longrightarrow> owns vars x = []"
  "vars x = Some c \<Longrightarrow> owns vars x = (if oc_mapped c = None then oc_pages c else [])"
  by (simp_all add: owns_def)

lemma pages_ok_mono:
  assumes ok: "pages_ok own mem" and same: "mem_pages mem' = mem_pages mem" "mem_next mem \<le> mem_next mem'"
  shows "pages_ok own mem'"
proof (rule pages_okI)
  show "a < mem_next mem'" if "a \<in> mem_pages mem'" for a using pages_okD(4)[OF ok, of a] that same by simp
  show "\<exists>a \<in> mem_pages mem'. p = New_page a" if "p \<in> set (own x)" for x p
    using pages_okD(3)[OF ok that] same(1) by simp
  show "\<exists>x. New_page a \<in> set (own x)" if "a \<in> mem_pages mem'" for a
    using pages_okD(5)[OF ok, of a] that same(1) by simp
qed (use pages_okD(1,2)[OF ok] in blast)+

lemma pages_ok_transfer:
  assumes ok: "pages_ok own mem" and x: "own x = []" "x \<noteq> y"
  shows "pages_ok (own(x := own y, y := [])) mem"
proof (rule pages_okI)
  let ?own = "own(x := own y, y := [])"
  show "distinct (?own z)" for z using pages_okD(1)[OF ok] by simp
  show "z = w" if "p \<in> set (?own z)" "p \<in> set (?own w)" for z w p
    using that pages_okD(2)[OF ok] by (auto split: if_splits)
  show "\<exists>a \<in> mem_pages mem. p = New_page a" if "p \<in> set (?own z)" for z p
    using that pages_okD(3)[OF ok] by (auto split: if_splits)
  show "a < mem_next mem" if "a \<in> mem_pages mem" for a using pages_okD(4)[OF ok that] .
  show "\<exists>z. New_page a \<in> set (?own z)" if a: "a \<in> mem_pages mem" for a
  proof -
    from pages_okD(5)[OF ok a] obtain z where z: "New_page a \<in> set (own z)" by blast
    show ?thesis
    proof (cases "z = y")
      case True
      then show ?thesis using z x(2) by (intro exI[of _ x]) simp
    next
      case False
      then show ?thesis using z x by (intro exI[of _ z]) auto
    qed
  qed
qed

lemma pages_ok_empty: "pages_ok own mem \<Longrightarrow> own x = [] \<Longrightarrow> pages_ok (own(x := [])) mem"
  by (metis fun_upd_triv)

lemma pages_ok_new:
  assumes ok: "pages_ok own mem"
  shows "pages_ok (own(x := own x @ [New_page (mem_next mem)]))
    (mem\<lparr>mem_pages := insert (mem_next mem) (mem_pages mem), mem_next := mem_next mem + 1\<rparr>)"
proof (rule pages_okI)
  let ?own = "own(x := own x @ [New_page (mem_next mem)])"
  have fresh: "New_page (mem_next mem) \<notin> set (own z)" for z
    using pages_okD(3)[OF ok, of "New_page (mem_next mem)" z] pages_okD(4)[OF ok] by fastforce
  show "distinct (?own z)" for z using pages_okD(1)[OF ok] fresh by simp
  show "z = w" if "p \<in> set (?own z)" "p \<in> set (?own w)" for z w p
    using that pages_okD(2)[OF ok] fresh by (auto split: if_splits)
  show "\<exists>a \<in> mem_pages (mem\<lparr>mem_pages := insert (mem_next mem) (mem_pages mem), mem_next := mem_next mem + 1\<rparr>).
      p = New_page a" if "p \<in> set (?own z)" for z p
    using that pages_okD(3)[OF ok] by (auto split: if_splits)
  fix a assume a: "a \<in> mem_pages (mem\<lparr>mem_pages := insert (mem_next mem) (mem_pages mem), mem_next := mem_next mem + 1\<rparr>)"
  then show "a < mem_next (mem\<lparr>mem_pages := insert (mem_next mem) (mem_pages mem), mem_next := mem_next mem + 1\<rparr>)"
    using pages_okD(4)[OF ok] by fastforce
  show "\<exists>z. New_page a \<in> set (?own z)"
  proof (cases "a = mem_next mem")
    case True
    then show ?thesis by (intro exI[of _ x]) simp
  next
    case False
    then obtain z where "New_page a \<in> set (own z)" using a pages_okD(5)[OF ok] by auto
    then show ?thesis by (intro exI[of _ z]) auto
  qed
qed

lemma delete_page_new [simp]:
  "a \<in> mem_pages mem \<Longrightarrow> delete_page (New_page a) mem = Inr (mem\<lparr>mem_pages := mem_pages mem - {a}\<rparr>)"
  by (simp add: delete_page_def)

lemma delete_pages:
  assumes "distinct ps" "\<forall>p \<in> set ps. \<exists>a \<in> mem_pages mem. p = New_page a"
  shows "rfold delete_page ps mem = Inr (mem\<lparr>mem_pages := {a \<in> mem_pages mem. New_page a \<notin> set ps}\<rparr>)"
  using assms
proof (induction ps arbitrary: mem)
  case (Cons p ps)
  then obtain a where a: "p = New_page a" "a \<in> mem_pages mem" by auto
  let ?mem = "mem\<lparr>mem_pages := mem_pages mem - {a}\<rparr>"
  have "\<forall>p \<in> set ps. \<exists>b \<in> mem_pages ?mem. p = New_page b" using Cons.prems a by fastforce
  from Cons.IH[OF _ this] Cons.prems(1)
  have "rfold delete_page ps ?mem = Inr (?mem\<lparr>mem_pages := {b \<in> mem_pages ?mem. New_page b \<notin> set ps}\<rparr>)" by simp
  moreover have "{b \<in> mem_pages ?mem. New_page b \<notin> set ps} = {b \<in> mem_pages mem. New_page b \<notin> set (p # ps)}"
    using a by auto
  ultimately show ?case using a by simp
qed simp

lemma pages_ok_delete:
  assumes ok: "pages_ok own mem"
  shows "\<exists>P. rfold delete_page (own x) mem = Inr (mem\<lparr>mem_pages := P\<rparr>) \<and> pages_ok (own(x := [])) (mem\<lparr>mem_pages := P\<rparr>)"
proof -
  let ?P = "{a \<in> mem_pages mem. New_page a \<notin> set (own x)}"
  have "pages_ok (own(x := [])) (mem\<lparr>mem_pages := ?P\<rparr>)"
  proof (rule pages_okI)
    show "distinct ((own(x := [])) z)" for z using pages_okD(1)[OF ok] by simp
    show "z = w" if "p \<in> set ((own(x := [])) z)" "p \<in> set ((own(x := [])) w)" for z w p
      using that pages_okD(2)[OF ok] by (auto split: if_splits)
    show "\<exists>a \<in> mem_pages (mem\<lparr>mem_pages := ?P\<rparr>). p = New_page a" if "p \<in> set ((own(x := [])) z)" for z p
    proof -
      have z: "z \<noteq> x" "p \<in> set (own z)" using that by (auto split: if_splits)
      obtain a where "a \<in> mem_pages mem" "p = New_page a" using pages_okD(3)[OF ok z(2)] by blast
      moreover have "p \<notin> set (own x)" using pages_okD(2)[OF ok z(2)] z(1) by blast
      ultimately show ?thesis by simp
    qed
    show "a < mem_next (mem\<lparr>mem_pages := ?P\<rparr>)" if "a \<in> mem_pages (mem\<lparr>mem_pages := ?P\<rparr>)" for a
      using that pages_okD(4)[OF ok] by simp
    show "\<exists>z. New_page a \<in> set ((own(x := [])) z)" if a: "a \<in> mem_pages (mem\<lparr>mem_pages := ?P\<rparr>)" for a
    proof -
      obtain z where "New_page a \<in> set (own z)" using a pages_okD(5)[OF ok] by auto
      then show ?thesis using a by (intro exI[of _ z]) auto
    qed
  qed
  moreover have "rfold delete_page (own x) mem = Inr (mem\<lparr>mem_pages := ?P\<rparr>)"
    by (rule delete_pages) (use pages_okD(1,3)[OF ok] in blast)+
  ultimately show ?thesis by blast
qed

subsection \<open>Mappings\<close>

definition uses :: "(nat \<rightharpoonup> owned_column) \<Rightarrow> nat \<Rightarrow> nat option" where
  "uses vars x = (case vars x of Some c \<Rightarrow> oc_mapped c | None \<Rightarrow> None)"

definition users :: "(nat \<Rightarrow> nat option) \<Rightarrow> nat \<Rightarrow> nat set" where
  "users use m = {x. use x = Some m}"

definition map_ok :: "(nat \<Rightarrow> nat option) \<Rightarrow> memory \<Rightarrow> nat \<Rightarrow> mapped_memory \<Rightarrow> bool" where
  "map_ok use mem m mm \<longleftrightarrow> m < mem_next mem \<and> mm_addr mm < mem_next mem \<and> mm_addr mm \<in> mem_regions mem \<and>
     finite (users use m) \<and> mm_refs mm = card (users use m) \<and> 0 < mm_refs mm"

definition maps_ok :: "(nat \<Rightarrow> nat option) \<Rightarrow> memory \<Rightarrow> bool" where
  "maps_ok use mem \<longleftrightarrow>
     (\<forall>x m. use x = Some m \<longrightarrow> (\<exists>mm. mem_maps mem m = Some mm)) \<and>
     (\<forall>m mm. mem_maps mem m = Some mm \<longrightarrow> map_ok use mem m mm) \<and>
     (\<forall>m m' mm mm'. mem_maps mem m = Some mm \<longrightarrow> mem_maps mem m' = Some mm' \<longrightarrow> mm_addr mm = mm_addr mm' \<longrightarrow> m = m') \<and>
     (\<forall>r \<in> mem_regions mem. \<exists>m mm. mem_maps mem m = Some mm \<and> mm_addr mm = r)"

lemma maps_okD:
  assumes "maps_ok use mem"
  shows "use x = Some m \<Longrightarrow> \<exists>mm. mem_maps mem m = Some mm" "mem_maps mem m = Some mm \<Longrightarrow> map_ok use mem m mm"
    "mem_maps mem m = Some mm \<Longrightarrow> mem_maps mem m' = Some mm' \<Longrightarrow> mm_addr mm = mm_addr mm' \<Longrightarrow> m = m'"
    "r \<in> mem_regions mem \<Longrightarrow> \<exists>m mm. mem_maps mem m = Some mm \<and> mm_addr mm = r"
  using assms unfolding maps_ok_def by blast+

lemma maps_okI:
  assumes "\<And>x m. use x = Some m \<Longrightarrow> \<exists>mm. mem_maps mem m = Some mm"
    "\<And>m mm. mem_maps mem m = Some mm \<Longrightarrow> map_ok use mem m mm"
    "\<And>m m' mm mm'. mem_maps mem m = Some mm \<Longrightarrow> mem_maps mem m' = Some mm' \<Longrightarrow> mm_addr mm = mm_addr mm' \<Longrightarrow> m = m'"
    "\<And>r. r \<in> mem_regions mem \<Longrightarrow> \<exists>m mm. mem_maps mem m = Some mm \<and> mm_addr mm = r"
  shows "maps_ok use mem"
  using assms unfolding maps_ok_def by blast

lemma uses_update: "uses (vars(x \<mapsto> c)) = (uses vars)(x := oc_mapped c)"
  by (rule ext) (simp add: uses_def)

lemma uses_remove: "uses (vars(x := None)) = (uses vars)(x := None)"
  by (rule ext) (simp add: uses_def)

lemma uses_simps [simp]: "vars x = None \<Longrightarrow> uses vars x = None" "vars x = Some c \<Longrightarrow> uses vars x = oc_mapped c"
  by (simp_all add: uses_def)

lemma users_remove: "users (use(x := None)) m = users use m - {x}"
  by (auto simp: users_def)

lemma users_transfer:
  assumes "use x = None" "x \<noteq> y"
  shows "users (use(x := use y, y := None)) m = (if use y = Some m then insert x (users use m - {y}) else users use m)"
proof -
  have "z \<in> users (use(x := use y, y := None)) m \<longleftrightarrow>
      z \<in> (if use y = Some m then insert x (users use m - {y}) else users use m)" for z
    using assms by (cases "z = x"; cases "z = y") (simp_all add: users_def)
  then show ?thesis by blast
qed

lemma card_users_transfer:
  assumes "use x = None" "x \<noteq> y" "finite (users use m)"
  shows "finite (users (use(x := use y, y := None)) m) \<and>
    card (users (use(x := use y, y := None)) m) = card (users use m)"
proof (cases "use y = Some m")
  case True
  have "x \<notin> users use m" "y \<in> users use m" using assms(1) True by (simp_all add: users_def)
  then have "card (insert x (users use m - {y})) = card (users use m)"
    using assms(3) by (simp add: card_gt_0_iff) (metis One_nat_def Suc_pred card_gt_0_iff empty_iff)
  then show ?thesis unfolding users_transfer[where use = use, OF assms(1,2)] using True assms(3) by simp
next
  case False
  then show ?thesis unfolding users_transfer[where use = use, OF assms(1,2)] using assms(3) by simp
qed

lemma maps_ok_transfer:
  assumes ok: "maps_ok use mem" and x: "use x = None" "x \<noteq> y"
  shows "maps_ok (use(x := use y, y := None)) mem"
proof (rule maps_okI)
  show "\<exists>mm. mem_maps mem m = Some mm" if "(use(x := use y, y := None)) z = Some m" for z m
  proof -
    have "use z = Some m \<or> use y = Some m" using that by (simp split: if_splits)
    then show ?thesis using maps_okD(1)[OF ok] by blast
  qed
  show "map_ok (use(x := use y, y := None)) mem m mm" if "mem_maps mem m = Some mm" for m mm
  proof -
    have M: "map_ok use mem m mm" by (rule maps_okD(2)[OF ok that])
    then have "finite (users use m)" by (simp add: map_ok_def)
    from card_users_transfer[where use = use, OF x this] M show ?thesis by (simp add: map_ok_def)
  qed
qed (use maps_okD(3,4)[OF ok] in blast)+

lemma maps_ok_empty: "maps_ok use mem \<Longrightarrow> use x = None \<Longrightarrow> maps_ok (use(x := None)) mem"
  by (metis fun_upd_triv)

lemma maps_ok_mono:
  assumes ok: "maps_ok use mem" and same: "mem_maps mem' = mem_maps mem" "mem_regions mem' = mem_regions mem"
    and n: "mem_next mem \<le> mem_next mem'"
  shows "maps_ok use mem'"
proof (rule maps_okI; unfold same)
  show "map_ok use mem' m mm" if "mem_maps mem m = Some mm" for m mm
    using maps_okD(2)[OF ok that] n by (simp add: map_ok_def same)
qed (use maps_okD(1,3,4)[OF ok] in blast)+

text \<open>A column that is destroyed gives up its mapping; the last one takes the mapping along.\<close>

lemma maps_ok_last:
  assumes ok: "maps_ok use mem" and x: "use x = Some m" and m: "mem_maps mem m = Some mm" and one: "mm_refs mm = 1"
  shows "maps_ok (use(x := None))
    (mem\<lparr>mem_maps := (mem_maps mem)(m := None), mem_regions := mem_regions mem - {mm_addr mm}\<rparr>)" (is "maps_ok ?use ?mem")
proof (rule maps_okI)
  have M: "map_ok use mem m mm" by (rule maps_okD(2)[OF ok m])
  have xm: "x \<in> users use m" using x by (simp add: users_def)
  then have "users use m = {x}" using M one by (metis card_1_singletonE map_ok_def singletonD)
  then have only: "use z = Some m \<longleftrightarrow> z = x" for z unfolding users_def by blast
  show "\<exists>mm. mem_maps ?mem k = Some mm" if "?use z = Some k" for z k
  proof -
    have z: "z \<noteq> x" "use z = Some k" using that by (simp_all split: if_splits)
    then have "k \<noteq> m" using only by blast
    then show ?thesis using maps_okD(1)[OF ok z(2)] by simp
  qed
  show "map_ok ?use ?mem k kk" if "mem_maps ?mem k = Some kk" for k kk
  proof -
    have k: "k \<noteq> m" "mem_maps mem k = Some kk" using that by (simp_all split: if_splits)
    have "users use k - {x} = users use k" using k(1) x by (auto simp: users_def)
    moreover have "mm_addr kk \<noteq> mm_addr mm" using maps_okD(3)[OF ok k(2) m] k(1) by blast
    ultimately show ?thesis using maps_okD(2)[OF ok k(2)] by (simp add: map_ok_def users_remove)
  qed
  show "k = k'" if "mem_maps ?mem k = Some kk" "mem_maps ?mem k' = Some kk'" "mm_addr kk = mm_addr kk'" for k k' kk kk'
    using that maps_okD(3)[OF ok, of k kk k' kk'] by (simp split: if_splits)
  show "\<exists>k kk. mem_maps ?mem k = Some kk \<and> mm_addr kk = r" if r: "r \<in> mem_regions ?mem" for r
  proof -
    from r obtain k kk where k: "mem_maps mem k = Some kk" "mm_addr kk = r" using maps_okD(4)[OF ok, of r] by auto
    then have "k \<noteq> m" using r m by auto
    then show ?thesis using k by auto
  qed
qed

lemma maps_ok_release:
  assumes ok: "maps_ok use mem" and x: "use x = Some m" and m: "mem_maps mem m = Some mm" and more: "mm_refs mm \<noteq> 1"
  shows "maps_ok (use(x := None)) (mem\<lparr>mem_maps := (mem_maps mem)(m \<mapsto> mm\<lparr>mm_refs := mm_refs mm - 1\<rparr>)\<rparr>)"
    (is "maps_ok ?use ?mem")
proof (rule maps_okI)
  have M: "map_ok use mem m mm" by (rule maps_okD(2)[OF ok m])
  have xm: "x \<in> users use m" using x by (simp add: users_def)
  show "\<exists>mm. mem_maps ?mem k = Some mm" if "?use z = Some k" for z k
    using that maps_okD(1)[OF ok, of z k] by (simp split: if_splits)
  show "map_ok ?use ?mem k kk" if k: "mem_maps ?mem k = Some kk" for k kk
  proof (cases "k = m")
    case True
    then show ?thesis using k M xm more by (auto simp: map_ok_def users_remove)
  next
    case False
    then have "users use k - {x} = users use k" using x by (auto simp: users_def)
    then show ?thesis using False k maps_okD(2)[OF ok, of k kk] by (simp add: map_ok_def users_remove)
  qed
  show "k = k'" if "mem_maps ?mem k = Some kk" "mem_maps ?mem k' = Some kk'" "mm_addr kk = mm_addr kk'" for k k' kk kk'
  proof -
    have same: "\<exists>uu. mem_maps mem u = Some uu \<and> mm_addr uu = mm_addr vv" if "mem_maps ?mem u = Some vv" for u vv
      using that m by (auto split: if_splits)
    show ?thesis using same[OF that(1)] same[OF that(2)] that(3) maps_okD(3)[OF ok] by metis
  qed
  show "\<exists>k kk. mem_maps ?mem k = Some kk \<and> mm_addr kk = r" if r: "r \<in> mem_regions ?mem" for r
  proof -
    from r obtain k kk where k: "mem_maps mem k = Some kk" "mm_addr kk = r" using maps_okD(4)[OF ok, of r] by auto
    show ?thesis
    proof (cases "k = m")
      case True
      then show ?thesis using k m by (intro exI[of _ m]) simp
    next
      case False
      then show ?thesis using k by (intro exI[of _ k]) simp
    qed
  qed
qed

text \<open>Loading a file: one new mapping with a user per column.\<close>

lemma load_column_rfold:
  assumes "mem_maps mem m = Some mm"
  shows "\<exists>cs data'. rfold (load_column m r) specs (cs0, data, mem) =
      Inr (cs0 @ cs, data', mem\<lparr>mem_maps := (mem_maps mem)(m \<mapsto> mm\<lparr>mm_refs := mm_refs mm + length specs\<rparr>)\<rparr>) \<and>
    length cs = length specs \<and>
    (\<forall>c \<in> set cs. oc_mapped c = Some m \<and> (\<forall>p \<in> set (oc_pages c). \<exists>off. p = Mapped_page r off))"
  using assms
proof (induction specs arbitrary: cs0 data mem mm)
  case Nil
  then have "(mem_maps mem)(m \<mapsto> mm) = mem_maps mem" by auto
  then show ?case by simp
next
  case (Cons spec specs)
  let ?mm = "mm\<lparr>mm_refs := mm_refs mm + 1\<rparr>"
  let ?mem = "mem\<lparr>mem_maps := (mem_maps mem)(m \<mapsto> ?mm)\<rparr>"
  let ?c = "(column_create (fst spec))\<lparr>oc_mapped := Some m, oc_pages := map (Mapped_page r) [data..<data + snd spec]\<rparr>"
  have step: "load_column m r spec (cs0, data, mem) = Inr (cs0 @ [?c], data + snd spec, ?mem)"
    using Cons.prems by (simp add: load_column_def assign_mapped_memory_def)
  have "mem_maps ?mem m = Some ?mm" by simp
  from Cons.IH[OF this, of "cs0 @ [?c]" "data + snd spec"] obtain cs data' where
    cs: "rfold (load_column m r) specs (cs0 @ [?c], data + snd spec, ?mem) =
      Inr ((cs0 @ [?c]) @ cs, data', ?mem\<lparr>mem_maps := (mem_maps ?mem)(m \<mapsto> ?mm\<lparr>mm_refs := mm_refs ?mm + length specs\<rparr>)\<rparr>)"
    "length cs = length specs"
    "\<forall>c \<in> set cs. oc_mapped c = Some m \<and> (\<forall>p \<in> set (oc_pages c). \<exists>off. p = Mapped_page r off)" by blast
  have "?mem\<lparr>mem_maps := (mem_maps ?mem)(m \<mapsto> ?mm\<lparr>mm_refs := mm_refs ?mm + length specs\<rparr>)\<rparr> =
      mem\<lparr>mem_maps := (mem_maps mem)(m \<mapsto> mm\<lparr>mm_refs := mm_refs mm + length (spec # specs)\<rparr>)\<rparr>" by simp
  then have "rfold (load_column m r) (spec # specs) (cs0, data, mem) = Inr (cs0 @ ?c # cs, data',
      mem\<lparr>mem_maps := (mem_maps mem)(m \<mapsto> mm\<lparr>mm_refs := mm_refs mm + length (spec # specs)\<rparr>)\<rparr>)"
    using cs(1) by (simp only: rfold.simps step rbind_simps append_assoc append_Cons append_Nil)
  moreover have "length (?c # cs) = length (spec # specs)" using cs(2) by simp
  moreover have "\<forall>c \<in> set (?c # cs). oc_mapped c = Some m \<and> (\<forall>p \<in> set (oc_pages c). \<exists>off. p = Mapped_page r off)"
    using cs(3) by auto
  ultimately show ?case by blast
qed

lemma load_columns_result:
  "\<exists>cs. load_columns len specs mem =
      Inr (cs, mem\<lparr>mem_regions := insert (mem_next mem) (mem_regions mem),
        mem_maps := (mem_maps mem)(mem_next mem + 1 \<mapsto>
          \<lparr>mm_addr = mem_next mem, mm_length = len, mm_refs = length specs\<rparr>), mem_next := mem_next mem + 2\<rparr>) \<and>
    length cs = length specs \<and>
    (\<forall>c \<in> set cs. oc_mapped c = Some (mem_next mem + 1) \<and>
      (\<forall>p \<in> set (oc_pages c). \<exists>off. p = Mapped_page (mem_next mem) off))"
proof -
  let ?mm = "\<lparr>mm_addr = mem_next mem, mm_length = len, mm_refs = 0\<rparr>"
  let ?mem = "mem\<lparr>mem_regions := insert (mem_next mem) (mem_regions mem),
    mem_maps := (mem_maps mem)(mem_next mem + 1 \<mapsto> ?mm), mem_next := mem_next mem + 2\<rparr>"
  have "mem_maps ?mem (mem_next mem + 1) = Some ?mm" by simp
  from load_column_rfold[OF this, of "mem_next mem" specs "[]" 1] show ?thesis
    by (auto simp: load_columns_def map_file_def Let_def)
qed

lemma maps_ok_load:
  assumes ok: "maps_ok use mem" and xs: "distinct xs" "xs \<noteq> []" "\<forall>x \<in> set xs. use x = None"
  shows "maps_ok (\<lambda>x. if x \<in> set xs then Some (mem_next mem + 1) else use x)
    (mem\<lparr>mem_regions := insert (mem_next mem) (mem_regions mem),
        mem_maps := (mem_maps mem)(mem_next mem + 1 \<mapsto>
          \<lparr>mm_addr = mem_next mem, mm_length = len, mm_refs = length xs\<rparr>), mem_next := mem_next mem + 2\<rparr>)"
    (is "maps_ok ?use ?mem")
proof (rule maps_okI)
  let ?m = "mem_next mem + 1"
  have fresh: "k < mem_next mem \<and> mm_addr kk < mem_next mem" if "mem_maps mem k = Some kk" for k kk
    using maps_okD(2)[OF ok that] by (simp add: map_ok_def)
  have unused: "use z \<noteq> Some ?m" for z using maps_okD(1)[OF ok, of z ?m] fresh by fastforce
  show "\<exists>mm. mem_maps ?mem k = Some mm" if "?use z = Some k" for z k
    using that maps_okD(1)[OF ok, of z k] by (auto split: if_splits)
  show "map_ok ?use ?mem k kk" if k: "mem_maps ?mem k = Some kk" for k kk
  proof (cases "k = ?m")
    case True
    have "users ?use ?m = set xs" using unused by (auto simp: users_def)
    moreover have "kk = \<lparr>mm_addr = mem_next mem, mm_length = len, mm_refs = length xs\<rparr>" using True k by simp
    ultimately show ?thesis using True xs by (simp add: map_ok_def distinct_card)
  next
    case False
    then have "users ?use k = users use k" using xs(3) by (auto simp: users_def)
    then show ?thesis using False k maps_okD(2)[OF ok, of k kk] by (simp add: map_ok_def)
  qed
  show "k = k'" if "mem_maps ?mem k = Some kk" "mem_maps ?mem k' = Some kk'" "mm_addr kk = mm_addr kk'" for k k' kk kk'
  proof -
    have addr: "u = ?m \<and> mm_addr vv = mem_next mem \<or> mem_maps mem u = Some vv \<and> mm_addr vv < mem_next mem"
      if "mem_maps ?mem u = Some vv" for u vv
      using that fresh[of u vv] by (auto split: if_splits)
    show ?thesis using addr[OF that(1)] addr[OF that(2)] that(3) maps_okD(3)[OF ok, of k kk k' kk'] by linarith
  qed
  show "\<exists>k kk. mem_maps ?mem k = Some kk \<and> mm_addr kk = r" if "r \<in> mem_regions ?mem" for r
  proof (cases "r = mem_next mem")
    case True
    then show ?thesis by (intro exI[of _ ?m]) simp
  next
    case False
    then have "r \<in> mem_regions mem" using that by simp
    then obtain k kk where k: "mem_maps mem k = Some kk" "mm_addr kk = r" using maps_okD(4)[OF ok] by blast
    then have "k \<noteq> ?m" using fresh by fastforce
    then show ?thesis using k by (intro exI[of _ k]) simp
  qed
qed

subsection \<open>Columns of a program\<close>

definition mapped_ok :: "(nat \<rightharpoonup> owned_column) \<Rightarrow> memory \<Rightarrow> bool" where
  "mapped_ok vars mem \<longleftrightarrow> (\<forall>x c m mm p. vars x = Some c \<longrightarrow> oc_mapped c = Some m \<longrightarrow> mem_maps mem m = Some mm \<longrightarrow>
     p \<in> set (oc_pages c) \<longrightarrow> (\<exists>off. p = Mapped_page (mm_addr mm) off))"

fun columns_ok :: "columns_state \<Rightarrow> bool" where
  "columns_ok (vars, mem) = (pages_ok (owns vars) mem \<and> maps_ok (uses vars) mem \<and> mapped_ok vars mem)"

lemma mapped_ok_update:
  assumes "mapped_ok vars mem" "\<And>m. oc_mapped c = Some m \<Longrightarrow> \<exists>y d. vars y = Some d \<and> oc_mapped d = Some m \<and> oc_pages d = oc_pages c"
  shows "mapped_ok (vars(x \<mapsto> c)) mem"
  using assms unfolding mapped_ok_def by (auto split: if_splits)

lemma mapped_ok_memory:
  assumes "mapped_ok vars mem"
    and "\<And>m mm'. mem_maps mem' m = Some mm' \<Longrightarrow> \<exists>mm. mem_maps mem m = Some mm \<and> mm_addr mm = mm_addr mm'"
  shows "mapped_ok vars mem'"
  using assms unfolding mapped_ok_def by metis

lemma mapped_ok_remove: "mapped_ok vars mem \<Longrightarrow> mapped_ok (vars(x := None)) mem"
  unfolding mapped_ok_def by auto

lemma transfer_ok:
  assumes ok: "columns_ok (vars, mem)" and y: "vars y = Some d" and xy: "x \<noteq> y"
    and x: "owns vars x = []" "uses vars x = None"
    and c: "oc_pages c = oc_pages d" "oc_mapped c = oc_mapped d"
  shows "columns_ok (vars(x \<mapsto> c, y \<mapsto> column_emptied d), mem)"
proof -
  let ?vars = "vars(x \<mapsto> c, y \<mapsto> column_emptied d)"
  have own: "owns ?vars = (owns vars)(x := owns vars y, y := [])"
    using y c by (simp add: owns_update column_emptied_def)
  have use: "uses ?vars = (uses vars)(x := uses vars y, y := None)"
    using y c by (simp add: uses_update column_emptied_def)
  have "mapped_ok (vars(x \<mapsto> c)) mem"
    using ok c y by (intro mapped_ok_update) auto
  then have "mapped_ok ?vars mem" by (rule mapped_ok_update) (simp add: column_emptied_def)
  then show ?thesis
    using ok pages_ok_transfer[where own = "owns vars", OF _ x(1) xy] maps_ok_transfer[where use = "uses vars", OF _ x(2) xy]
    by (simp only: columns_ok.simps own use)
qed

text \<open>In a good state the operations on live columns do not run into undefined behaviour.\<close>

lemma destroy_ok:
  assumes ok: "columns_ok (vars, mem)" and x: "vars x = Some c"
  shows "\<exists>mem'. column_destroy c mem = Inr mem' \<and> columns_ok (vars(x := None), mem')"
proof (cases "oc_mapped c")
  case None
  have P: "pages_ok (owns vars) mem" and M: "maps_ok (uses vars) mem" and C: "mapped_ok vars mem" using ok by simp_all
  from pages_ok_delete[OF P, of x] None x obtain Q where
    Q: "rfold delete_page (oc_pages c) mem = Inr (mem\<lparr>mem_pages := Q\<rparr>)"
    "pages_ok ((owns vars)(x := [])) (mem\<lparr>mem_pages := Q\<rparr>)" by auto
  have "maps_ok (uses vars) (mem\<lparr>mem_pages := Q\<rparr>)" by (rule maps_ok_mono[OF M]) simp_all
  then have "maps_ok ((uses vars)(x := None)) (mem\<lparr>mem_pages := Q\<rparr>)" by (rule maps_ok_empty) (simp add: x None)
  moreover have "mapped_ok (vars(x := None)) (mem\<lparr>mem_pages := Q\<rparr>)"
    using mapped_ok_remove[OF C] by (simp add: mapped_ok_def)
  ultimately show ?thesis using Q None by (simp add: column_destroy_def owns_remove uses_remove)
next
  case (Some m)
  have P: "pages_ok (owns vars) mem" and M: "maps_ok (uses vars) mem" and C: "mapped_ok vars mem" using ok by simp_all
  have use: "uses vars x = Some m" using x Some by simp
  then obtain mm where mm: "mem_maps mem m = Some mm" using maps_okD(1)[OF M] by blast
  have pos: "0 < mm_refs mm" using maps_okD(2)[OF M mm] by (simp add: map_ok_def)
  have P': "pages_ok ((owns vars)(x := [])) mem" by (rule pages_ok_empty[OF P]) (simp add: x Some)
  have C': "mapped_ok (vars(x := None)) mem" by (rule mapped_ok_remove[OF C])
  show ?thesis
  proof (cases "mm_refs mm = 1")
    case True
    let ?mem = "mem\<lparr>mem_maps := (mem_maps mem)(m := None), mem_regions := mem_regions mem - {mm_addr mm}\<rparr>"
    have "column_destroy c mem = Inr ?mem"
      using Some mm True by (simp add: column_destroy_def delete_mapped_memory_def)
    moreover have "pages_ok ((owns vars)(x := [])) ?mem" by (rule pages_ok_mono[OF P']) simp_all
    moreover have "mapped_ok (vars(x := None)) ?mem" by (rule mapped_ok_memory[OF C']) (auto split: if_splits)
    ultimately show ?thesis using maps_ok_last[OF M use mm True] by (simp add: owns_remove uses_remove)
  next
    case False
    let ?mem = "mem\<lparr>mem_maps := (mem_maps mem)(m \<mapsto> mm\<lparr>mm_refs := mm_refs mm - 1\<rparr>)\<rparr>"
    have "column_destroy c mem = Inr ?mem"
      using Some mm False pos by (simp add: column_destroy_def)
    moreover have "pages_ok ((owns vars)(x := [])) ?mem" by (rule pages_ok_mono[OF P']) simp_all
    moreover have "mapped_ok (vars(x := None)) ?mem"
      by (rule mapped_ok_memory[OF C']) (use mm in \<open>auto split: if_splits\<close>)
    ultimately show ?thesis using maps_ok_release[OF M use mm False] by (simp add: owns_remove uses_remove)
  qed
qed

lemma assign_ok:
  assumes ok: "columns_ok (vars, mem)" and x: "vars x = Some c" "oc_mapped c = None" and y: "vars y = Some d" "x \<noteq> y"
  shows "\<exists>c' d' mem'. column_assign c d mem = Inr (c', d', mem') \<and> columns_ok (vars(x \<mapsto> c', y \<mapsto> d'), mem')"
proof -
  let ?e = "column_create (oc_type c)"
  obtain mem' where mem': "column_destroy c mem = Inr mem'" "columns_ok (vars(x := None), mem')"
    using destroy_ok[OF ok x(1)] by blast
  then have del: "rfold delete_page (oc_pages c) mem = Inr mem'" using x(2) by (simp add: column_destroy_def)
  let ?c = "c\<lparr>oc_type := oc_type d, oc_pages := oc_pages d, oc_mapped := oc_mapped d\<rparr>"
  have "columns_ok ((vars(x := None))(x \<mapsto> ?c, y \<mapsto> column_emptied d), mem')"
    by (rule transfer_ok[OF mem'(2)]) (use y in simp_all)
  then have "columns_ok (vars(x \<mapsto> ?c, y \<mapsto> column_emptied d), mem')" by simp
  moreover have "column_assign c d mem = Inr (?c, column_emptied d, mem')"
    using del by (simp add: column_assign_def)
  ultimately show ?thesis by blast
qed

lemma load_ok:
  assumes ok: "columns_ok (vars, mem)" and xs: "specs \<noteq> []" "distinct xs" "length xs = length specs" "set xs \<inter> dom vars = {}"
  shows "\<exists>cs mem'. load_columns len specs mem = Inr (cs, mem') \<and> columns_ok (vars ++ map_of (zip xs cs), mem')"
proof -
  obtain cs where load: "load_columns len specs mem =
      Inr (cs, mem\<lparr>mem_regions := insert (mem_next mem) (mem_regions mem),
        mem_maps := (mem_maps mem)(mem_next mem + 1 \<mapsto>
          \<lparr>mm_addr = mem_next mem, mm_length = len, mm_refs = length specs\<rparr>), mem_next := mem_next mem + 2\<rparr>)" (is "_ = Inr (_, ?mem)")
    and cs: "length cs = length specs" "\<forall>c \<in> set cs. oc_mapped c = Some (mem_next mem + 1) \<and>
      (\<forall>p \<in> set (oc_pages c). \<exists>off. p = Mapped_page (mem_next mem) off)"
    using load_columns_result[of len specs mem] by blast
  have P: "pages_ok (owns vars) mem" and M: "maps_ok (uses vars) mem" and C: "mapped_ok vars mem" using ok by simp_all
  let ?vars = "vars ++ map_of (zip xs cs)"
  have keys: "dom (map_of (zip xs cs)) = set xs" using cs(1) xs(3) by simp
  have old: "?vars z = vars z" if "z \<notin> set xs" for z using that keys by (simp add: map_add_dom_app_simps(3) domIff)
  have new: "\<exists>c \<in> set cs. ?vars z = Some c" if "z \<in> set xs" for z
  proof -
    from that keys obtain c where c: "map_of (zip xs cs) z = Some c" by blast
    then have "c \<in> set cs" by (meson map_of_SomeD set_zip_rightD)
    then show ?thesis using c by auto
  qed
  have none: "vars z = None" if "z \<in> set xs" for z using that xs(4) by auto
  have own: "owns ?vars = owns vars"
  proof (rule ext)
    fix z
    show "owns ?vars z = owns vars z"
    proof (cases "z \<in> set xs")
      case True
      then obtain c where c: "c \<in> set cs" "?vars z = Some c" using new by (elim bexE[OF new])
      then have "oc_mapped c = Some (mem_next mem + 1)" using cs(2) by simp
      then show ?thesis using c(2) none[OF True] by (simp add: owns_def del: map_add_Some_iff)
    qed (simp add: owns_def old)
  qed
  have use: "uses ?vars = (\<lambda>z. if z \<in> set xs then Some (mem_next mem + 1) else uses vars z)"
  proof (rule ext)
    fix z
    show "uses ?vars z = (if z \<in> set xs then Some (mem_next mem + 1) else uses vars z)"
    proof (cases "z \<in> set xs")
      case True
      then obtain c where c: "c \<in> set cs" "?vars z = Some c" using new by (elim bexE[OF new])
      then have "oc_mapped c = Some (mem_next mem + 1)" using cs(2) by simp
      then show ?thesis using c(2) True by (simp add: uses_def del: map_add_Some_iff)
    qed (simp add: uses_def old)
  qed
  have "pages_ok (owns vars) ?mem" by (rule pages_ok_mono[OF P]) simp_all
  moreover have "maps_ok (uses ?vars) ?mem"
  proof -
    have "xs \<noteq> []" "\<forall>x \<in> set xs. uses vars x = None" using xs(1,3) none by auto
    from maps_ok_load[OF M xs(2) this, of len] show ?thesis unfolding use xs(3) .
  qed
  moreover have "mapped_ok ?vars ?mem"
    unfolding mapped_ok_def
  proof (intro allI impI)
    fix z c m mm p
    assume z: "?vars z = Some c" "oc_mapped c = Some m" "mem_maps ?mem m = Some mm" "p \<in> set (oc_pages c)"
    show "\<exists>off. p = Mapped_page (mm_addr mm) off"
    proof (cases "z \<in> set xs")
      case True
      then have "c \<in> set cs" using new[OF True] z(1) by auto
      then show ?thesis using cs(2) z(2-4) by auto
    next
      case False
      then have vz: "vars z = Some c" using old z(1) by simp
      have "uses vars z = Some m" using vz z(2) by simp
      then obtain mm0 where mm0: "mem_maps mem m = Some mm0" using maps_okD(1)[OF M] by blast
      then have "m < mem_next mem" using maps_okD(2)[OF M mm0] by (simp add: map_ok_def)
      then have "mem_maps mem m = Some mm" using z(3) by simp
      then show ?thesis using C vz z(2,4) unfolding mapped_ok_def by blast
    qed
  qed
  ultimately show ?thesis using load own by auto
qed

lemma column_step_ok:
  assumes "column_step s s'" "columns_ok s"
  shows "columns_ok s'"
  using assms
proof (induction rule: column_step.induct)
  case (Step_create vars x mem ty)
  have "owns (vars(x \<mapsto> column_create ty)) = owns vars" "uses (vars(x \<mapsto> column_create ty)) = uses vars"
    using Step_create(1) by (auto simp: owns_def uses_def column_create_def split: if_splits)
  moreover have "mapped_ok (vars(x \<mapsto> column_create ty)) mem"
    by (rule mapped_ok_update) (use Step_create(2) in \<open>simp_all add: column_create_def\<close>)
  ultimately show ?case using Step_create(2) by simp
next
  case (Step_new_page vars x c mem c' mem')
  have P: "pages_ok (owns vars) mem" and M: "maps_ok (uses vars) mem" and C: "mapped_ok vars mem"
    using Step_new_page(4) by simp_all
  have c': "c' = c\<lparr>oc_pages := oc_pages c @ [New_page (mem_next mem)]\<rparr>"
    and mem': "mem' = mem\<lparr>mem_pages := insert (mem_next mem) (mem_pages mem), mem_next := mem_next mem + 1\<rparr>"
    using Step_new_page(3) by (simp_all add: column_new_page_def Let_def)
  have own: "owns (vars(x \<mapsto> c')) = (owns vars)(x := owns vars x @ [New_page (mem_next mem)])"
    using Step_new_page(1,2) by (simp add: owns_update c')
  have use: "uses (vars(x \<mapsto> c')) = uses vars"
    using Step_new_page(1,2) by (auto simp: uses_def c')
  have "maps_ok (uses vars) mem'" by (rule maps_ok_mono[OF M]) (simp_all add: mem')
  moreover have "mapped_ok vars mem'" by (rule mapped_ok_memory[OF C]) (simp add: mem')
  then have "mapped_ok (vars(x \<mapsto> c')) mem'" by (rule mapped_ok_update) (simp add: c' Step_new_page(2))
  ultimately show ?case using pages_ok_new[OF P, of x] by (simp only: columns_ok.simps own use mem')
next
  case (Step_load specs xs vars len mem cs mem')
  then show ?case using load_ok[OF Step_load(6,1-4), of len] by auto
next
  case (Step_move vars y d x c' d' mem)
  have "x \<noteq> y" using Step_move(1,2) by auto
  then show ?case
    using transfer_ok[OF Step_move(4,1), of x c'] Step_move(2,3) by (auto simp: column_move_def)
next
  case (Step_assign vars x c y d mem c' d' mem')
  then show ?case using assign_ok[OF Step_assign(6,1,4,2,3)] by auto
next
  case (Step_destroy vars x c mem mem')
  then show ?case using destroy_ok[OF Step_destroy(3,1)] by auto
qed

lemma columns_reachable_ok: "columns_reachable s \<Longrightarrow> columns_ok s"
proof -
  have start: "columns_ok (Map.empty, memory_empty)"
    by (simp add: pages_ok_def maps_ok_def mapped_ok_def memory_empty_def owns_def uses_def)
  assume "columns_reachable s"
  then show ?thesis unfolding columns_reachable_def
    by (induction rule: rtranclp_induct) (use start column_step_ok in blast)+
qed

section \<open>Properties\<close>

definition page_live :: "memory \<Rightarrow> page_ptr \<Rightarrow> bool" where
  "page_live mem p = (case p of New_page a \<Rightarrow> a \<in> mem_pages mem | Mapped_page r off \<Rightarrow> r \<in> mem_regions mem)"

lemma columns_ok_live:
  assumes ok: "columns_ok (vars, mem)" and x: "vars x = Some c" "p \<in> set (oc_pages c)"
  shows "page_live mem p"
proof (cases "oc_mapped c")
  case None
  then show ?thesis using ok x pages_okD(3)[of "owns vars" mem p x] by (auto simp: page_live_def)
next
  case (Some m)
  have M: "maps_ok (uses vars) mem" and C: "mapped_ok vars mem" using ok by simp_all
  have "uses vars x = Some m" using x(1) Some by simp
  then obtain mm where mm: "mem_maps mem m = Some mm" using maps_okD(1)[OF M] by blast
  then obtain off where "p = Mapped_page (mm_addr mm) off" using C x Some unfolding mapped_ok_def by blast
  then show ?thesis using maps_okD(2)[OF M mm] by (simp add: page_live_def map_ok_def)
qed

lemma columns_ok_disjoint:
  assumes ok: "columns_ok (vars, mem)" and x: "vars x = Some c" "oc_mapped c = None" and y: "vars y = Some d" "x \<noteq> y"
  shows "set (oc_pages c) \<inter> set (oc_pages d) = {}"
proof (cases "oc_mapped d")
  case None
  then have "owns vars x = oc_pages c" "owns vars y = oc_pages d" using x y by simp_all
  then show ?thesis using ok pages_okD(2)[of "owns vars" mem _ x y] y(2) by auto
next
  case (Some m)
  have P: "pages_ok (owns vars) mem" and M: "maps_ok (uses vars) mem" and C: "mapped_ok vars mem" using ok by simp_all
  have "uses vars y = Some m" using y(1) Some by simp
  then obtain mm where mm: "mem_maps mem m = Some mm" using maps_okD(1)[OF M] by blast
  have "\<exists>off. p = Mapped_page (mm_addr mm) off" if "p \<in> set (oc_pages d)" for p
    using C y(1) Some mm that unfolding mapped_ok_def by blast
  moreover have "\<exists>a. p = New_page a" if "p \<in> set (oc_pages c)" for p
    using pages_okD(3)[OF P, of p x] x that by auto
  ultimately show ?thesis by fastforce
qed

lemma columns_ok_empty:
  assumes ok: "columns_ok (Map.empty, mem)"
  shows "mem_pages mem = {} \<and> mem_maps mem = Map.empty \<and> mem_regions mem = {}"
proof -
  have P: "pages_ok (owns Map.empty) mem" and M: "maps_ok (uses Map.empty) mem" using ok by simp_all
  have "mem_pages mem = {}" using pages_okD(5)[OF P] by auto
  moreover have none: "mem_maps mem m = None" for m
  proof (rule ccontr)
    assume "mem_maps mem m \<noteq> None"
    then obtain mm where mm: "mem_maps mem m = Some mm" by blast
    have "0 < card (users (uses Map.empty) m)" using maps_okD(2)[OF M mm] by (simp add: map_ok_def)
    then show False by (simp add: users_def uses_def)
  qed
  moreover have "mem_regions mem = {}" using maps_okD(4)[OF M] none by auto
  ultimately show ?thesis by auto
qed

text \<open>C16. The memory of columns is managed soundly: in every state a program can reach with the steps
  above, every page a live column points to is live, no page from \<open>new\<close> is in two columns, every live
  column can be destroyed, and moved over if it is not mapped, without deleting anything twice; and
  once all columns are gone nothing is leaked: no page, no mapping object, no mapped region.\<close>

theorem column_memory_safe:
  assumes "columns_reachable (vars, mem)"
  shows "(\<forall>x c. vars x = Some c \<longrightarrow> list_all (page_live mem) (oc_pages c) \<and> \<not> isl (column_destroy c mem)) \<and>
    (\<forall>x y c d. vars x = Some c \<and> oc_mapped c = None \<and> vars y = Some d \<and> x \<noteq> y \<longrightarrow>
       \<not> isl (column_assign c d mem) \<and> set (oc_pages c) \<inter> set (oc_pages d) = {}) \<and>
    (vars = Map.empty \<longrightarrow> mem_pages mem = {} \<and> mem_maps mem = Map.empty \<and> mem_regions mem = {})"
proof -
  have ok: "columns_ok (vars, mem)" by (rule columns_reachable_ok[OF assms])
  have "list_all (page_live mem) (oc_pages c) \<and> \<not> isl (column_destroy c mem)" if "vars x = Some c" for x c
    using columns_ok_live[OF ok that] destroy_ok[OF ok that] by (auto simp: list_all_iff)
  moreover have "\<not> isl (column_assign c d mem) \<and> set (oc_pages c) \<inter> set (oc_pages d) = {}"
    if "vars x = Some c \<and> oc_mapped c = None \<and> vars y = Some d \<and> x \<noteq> y" for x y c d
  proof -
    from that have c: "vars x = Some c" "oc_mapped c = None" and d: "vars y = Some d" "x \<noteq> y" by simp_all
    show ?thesis using assign_ok[OF ok c d] columns_ok_disjoint[OF ok c d] by auto
  qed
  moreover have "mem_pages mem = {} \<and> mem_maps mem = Map.empty \<and> mem_regions mem = {}" if "vars = Map.empty"
    using columns_ok_empty[of mem] ok that by simp
  ultimately show ?thesis by blast
qed

text \<open>A program that creates a column with a page, loads a file of two columns and moves one of them over
  the first column.\<close>

definition example_memory :: memory where
  "example_memory = \<lparr>mem_pages = {}, mem_maps = [2 \<mapsto> \<lparr>mm_addr = 1, mm_length = 24576, mm_refs = 2\<rparr>], mem_regions = {1}, mem_next = 3\<rparr>"

definition example_mapped :: owned_column where
  "example_mapped = \<lparr>oc_type = INT32, oc_pages = [Mapped_page 1 1], oc_mapped = Some 2\<rparr>"

definition example_columns :: "nat \<rightharpoonup> owned_column" where
  "example_columns = [0 \<mapsto> example_mapped, 1 \<mapsto> column_create INT32,
     2 \<mapsto> \<lparr>oc_type = VARCHAR, oc_pages = [Mapped_page 1 2], oc_mapped = Some 2\<rparr>]"

lemma example_columns_reachable: "columns_reachable (example_columns, example_memory)"
proof -
  let ?page = "\<lparr>oc_type = INT64, oc_pages = [New_page 0], oc_mapped = None\<rparr>"
  let ?m1 = "memory_empty\<lparr>mem_pages := {0}, mem_next := 1\<rparr>"
  let ?text = "\<lparr>oc_type = VARCHAR, oc_pages = [Mapped_page 1 2], oc_mapped = Some 2\<rparr>"
  let ?m2 = "example_memory\<lparr>mem_pages := {0}\<rparr>"
  have s1: "column_step (Map.empty, memory_empty) ([0 \<mapsto> column_create INT64], memory_empty)"
    by (rule Step_create) simp
  have "column_step ([0 \<mapsto> column_create INT64], memory_empty) ([0 \<mapsto> column_create INT64](0 \<mapsto> ?page), ?m1)"
    by (rule Step_new_page[of _ _ "column_create INT64"])
      (simp_all add: column_create_def column_new_page_def memory_empty_def)
  then have s2: "column_step ([0 \<mapsto> column_create INT64], memory_empty) ([0 \<mapsto> ?page], ?m1)" by simp
  have s3: "column_step ([0 \<mapsto> ?page], ?m1)
      ([0 \<mapsto> ?page] ++ map_of (zip [1, 2] [example_mapped, ?text]), ?m2)"
    by (rule Step_load[of "[(INT32, 1), (VARCHAR, 1)]" _ _ 24576])
      (simp_all add: load_columns_def map_file_def load_column_def assign_mapped_memory_def column_create_def
        memory_empty_def example_mapped_def example_memory_def Let_def numeral_2_eq_2)
  have s4: "column_step ([0 \<mapsto> ?page] ++ map_of (zip [1, 2] [example_mapped, ?text]), ?m2)
      (([0 \<mapsto> ?page] ++ map_of (zip [1, 2] [example_mapped, ?text]))(0 \<mapsto> example_mapped, 1 \<mapsto> column_create INT32), example_memory)"
    by (rule Step_assign[of _ _ ?page _ example_mapped])
      (simp_all add: column_assign_def delete_page_def column_emptied_def example_mapped_def column_create_def example_memory_def)
  note step = converse_rtranclp_into_rtranclp[where r = column_step]
  have "column_step\<^sup>*\<^sup>* (Map.empty, memory_empty)
      (([0 \<mapsto> ?page] ++ map_of (zip [1, 2] [example_mapped, ?text]))(0 \<mapsto> example_mapped, 1 \<mapsto> column_create INT32), example_memory)"
    by (rule step[OF s1 step[OF s2 step[OF s3 step[OF s4 rtranclp.rtrancl_refl]]]])
  moreover have "([0 \<mapsto> ?page] ++ map_of (zip [1, 2] [example_mapped, ?text]))(0 \<mapsto> example_mapped, 1 \<mapsto> column_create INT32) =
      example_columns"
    by (rule ext) (simp add: example_columns_def)
  ultimately show ?thesis by (simp only: columns_reachable_def)
qed

lemma column_memory_safe_witness:
  "page_live example_memory (Mapped_page 1 1) \<and> \<not> isl (column_destroy example_mapped example_memory) \<and>
   \<not> isl (column_assign (column_create INT32) example_mapped example_memory)"
proof -
  have v: "example_columns 0 = Some example_mapped" "example_columns 1 = Some (column_create INT32)"
    by (simp_all add: example_columns_def)
  note safe = column_memory_safe[OF example_columns_reachable]
  have "list_all (page_live example_memory) (oc_pages example_mapped) \<and> \<not> isl (column_destroy example_mapped example_memory)"
    using safe v(1) by blast
  moreover have "oc_mapped (column_create INT32) = None" by (simp add: column_create_def)
  then have "\<not> isl (column_assign (column_create INT32) example_mapped example_memory)"
    using safe[THEN conjunct2, THEN conjunct1, rule_format, of 1 "column_create INT32" 0 example_mapped] v by simp
  ultimately show ?thesis by (simp add: example_mapped_def)
qed

text \<open>C19. A column of a loaded file must not be assigned over: the move assignment deletes the pages
  without asking whether they are mapped, so it deletes memory that \<open>new\<close> did not return.\<close>

theorem assign_over_mapped_undefined:
  assumes "columns_reachable (vars, mem)" "vars x = Some c" "oc_mapped c = Some m" "oc_pages c \<noteq> []"
  shows "column_assign c d mem = Inl Undefined"
proof -
  have ok: "columns_ok (vars, mem)" by (rule columns_reachable_ok[OF assms(1)])
  then have M: "maps_ok (uses vars) mem" and C: "mapped_ok vars mem" by simp_all
  have "uses vars x = Some m" using assms(2,3) by simp
  then obtain mm where mm: "mem_maps mem m = Some mm" using maps_okD(1)[OF M] by blast
  obtain p ps where p: "oc_pages c = p # ps" using assms(4) by (cases "oc_pages c") auto
  then obtain off where "p = Mapped_page (mm_addr mm) off" using C assms(2,3) mm unfolding mapped_ok_def by fastforce
  then show ?thesis using p by (simp add: column_assign_def delete_page_def)
qed

lemma assign_over_mapped_undefined_witness:
  "column_assign example_mapped (column_create INT32) example_memory = Inl Undefined"
  by (rule assign_over_mapped_undefined[OF example_columns_reachable, of 0 _ 2]) (simp_all add: example_columns_def example_mapped_def)

end
