(* ===== verification/ParallelFill.thy ===== *)
theory ParallelFill
  imports JoinExec
begin

text \<open>
  The second way \<open>run_int32\<close> (\<open>src/src/execute_default.cpp\<close>) has of copying the matched rows: one thread
  per probe thread, each writing the rows of its own matches behind those of the threads before it, with
  page caches of its own. The source keeps it behind the constant \<open>parallel_materialize\<close>, which is
  false; the result here is what allows to switch it on. A step of a thread writes one cell, so a schedule
  is any interleaving of the writes of the threads; the writes go to shared pages.
\<close>

section \<open>The threads\<close>

text \<open>What a thread has left to do: the row it writes next, the column of that row, its caches, and the
  matches that remain.\<close>

record fill_thread =
  th_out_idx :: nat
  th_col :: nat
  th_caches :: "nat list"
  th_ops :: "out_pair list"

text \<open>Prefix sums of the numbers of matches.\<close>

definition fill_bases :: "out_pair list list \<Rightarrow> nat list" where
  "fill_bases out_by_thread =
     fold (\<lambda>t base. base[t + 1 := base ! t + length (out_by_thread ! t)]) [0..<length out_by_thread]
       (replicate (length out_by_thread + 1) 0)"

definition fill_thread_new :: "nat \<Rightarrow> nat list \<Rightarrow> out_pair list list \<Rightarrow> nat \<Rightarrow> fill_thread" where
  "fill_thread_new num_output_cols base out_by_thread t =
     \<lparr>th_out_idx = base ! t, th_col = 0, th_caches = replicate num_output_cols 0, th_ops = out_by_thread ! t\<rparr>"

definition cached_cell ::
    "(bool \<times> u32) list \<Rightarrow> column_t list \<Rightarrow> column_t list \<Rightarrow> out_pair \<Rightarrow> nat \<Rightarrow> nat list \<Rightarrow> (value_t \<times> nat list) res" where
  "cached_cell out_map left right op col caches =
     rbind (at out_map col) (\<lambda>(from_left, idx).
     rbind (at caches col) (\<lambda>cache.
     rbind (at (if from_left then left else right) (unat idx)) (\<lambda>c.
     rbind (column_get_cached c (if from_left then unat (fst op) else unat (snd op)) cache) (\<lambda>(v, cache).
       Inr (v, caches[col := cache])))))"

definition fill_thread_step ::
    "(bool \<times> u32) list \<Rightarrow> nat \<Rightarrow> nat \<Rightarrow> column_t list \<Rightarrow> column_t list \<Rightarrow>
     fill_thread \<Rightarrow> column_t list \<Rightarrow> (fill_thread \<times> column_t list) res" where
  "fill_thread_step out_map num_output_cols out_page_sz left right th out =
     (case th_ops th of
        [] \<Rightarrow> Inr (th, out)
      | op # ops \<Rightarrow>
          if th_col th < num_output_cols
          then rbind (cached_cell out_map left right op (th_col th) (th_caches th)) (\<lambda>(v, caches).
               rbind (write_cell out (th_col th) (th_out_idx th div out_page_sz) (th_out_idx th mod out_page_sz) v) (\<lambda>out.
                 Inr (th\<lparr>th_col := th_col th + 1, th_caches := caches\<rparr>, out)))
          else Inr (th\<lparr>th_out_idx := th_out_idx th + 1, th_col := 0, th_ops := ops\<rparr>, out))"

text \<open>The schedule names the thread that makes the next step; the threads are joined at the end.\<close>

definition fill_outputs_parallel ::
    "(bool \<times> u32) list \<Rightarrow> nat \<Rightarrow> nat \<Rightarrow> nat list \<Rightarrow> out_pair list list \<Rightarrow> fill_state \<Rightarrow> fill_state res" where
  "fill_outputs_parallel out_map num_output_cols out_page_sz sched out_by_thread st =
     (let base = fill_bases out_by_thread;
          threads = map (fill_thread_new num_output_cols base out_by_thread) [0..<length out_by_thread]
      in rbind (rfold (\<lambda>t (threads, out).
                  rbind (at threads t) (\<lambda>th.
                  rbind (fill_thread_step out_map num_output_cols out_page_sz (fs_left st) (fs_right st) th out) (\<lambda>(th, out).
                    Inr (threads[t := th], out))))
                sched (threads, fs_out st)) (\<lambda>(threads, out).
           if list_all (\<lambda>th. th_ops th = []) threads then Inr (st\<lparr>fs_out := out\<rparr>) else Inl No_return))"

section \<open>Where the threads write\<close>

definition before :: "'a list list \<Rightarrow> nat \<Rightarrow> nat" where
  "before outs t = length (concat (take t outs))"

lemma before_Suc: "t < length outs \<Longrightarrow> before outs (Suc t) = before outs t + length (outs ! t)"
  by (simp add: before_def take_Suc_conv_app_nth)

lemma before_mono: "t \<le> u \<Longrightarrow> before outs t \<le> before outs u"
proof (induction u)
  case (Suc u)
  have "before outs u \<le> before outs (Suc u)"
  proof (cases "u < length outs")
    case True
    then show ?thesis by (simp add: before_Suc)
  qed (simp add: before_def)
  then show ?case using Suc by (cases "t = Suc u") auto
qed simp

lemma fill_bases_before:
  assumes "t < length outs"
  shows "fill_bases outs ! t = before outs t"
proof -
  have "k \<le> length outs \<Longrightarrow> (let base = fold (\<lambda>t base. base[t + 1 := base ! t + length (outs ! t)]) [0..<k] (replicate (length outs + 1) 0)
      in length base = length outs + 1 \<and> (\<forall>u \<le> k. base ! u = before outs u))" for k
  proof (induction k)
    case 0
    then show ?case by (simp add: before_def Let_def)
  next
    case (Suc k)
    then show ?case by (auto simp: Let_def before_Suc nth_list_update le_Suc_eq)
  qed
  from this[of "length outs"] show ?thesis using assms by (simp add: fill_bases_def Let_def)
qed

lemma concat_nth_before:
  assumes "t < length outs" "k < length (outs ! t)"
  shows "concat outs ! (before outs t + k) = outs ! t ! k" "before outs t + k < length (concat outs)"
proof -
  have "concat outs = concat (take t outs) @ outs ! t @ concat (drop (Suc t) outs)"
    using id_take_nth_drop[OF assms(1)] by (metis concat.simps(2) concat_append)
  then show "concat outs ! (before outs t + k) = outs ! t ! k" "before outs t + k < length (concat outs)"
    using assms(2) by (simp_all add: before_def nth_append)
qed

text \<open>The rows of two threads are disjoint.\<close>

definition rows_of :: "'a list list \<Rightarrow> nat \<Rightarrow> nat \<Rightarrow> bool" where
  "rows_of outs t j \<longleftrightarrow> before outs t \<le> j \<and> j < before outs (Suc t)"

lemma rows_of_unique: "rows_of outs t j \<Longrightarrow> rows_of outs u j \<Longrightarrow> t = u"
proof (rule ccontr)
  assume a: "rows_of outs t j" "rows_of outs u j" "t \<noteq> u"
  then consider "Suc t \<le> u" | "Suc u \<le> t" by linarith
  then show False
    using a before_mono[of "Suc t" u outs] before_mono[of "Suc u" t outs] by cases (simp_all add: rows_of_def)
qed

section \<open>The invariant of the interleaving\<close>

definition thread_ok :: "out_pair list list \<Rightarrow> nat \<Rightarrow> nat \<Rightarrow> fill_thread \<Rightarrow> bool" where
  "thread_ok outs n_cols t th \<longleftrightarrow>
     (\<exists>k \<le> length (outs ! t). th_ops th = drop k (outs ! t) \<and> th_out_idx th = before outs t + k) \<and>
     th_col th \<le> n_cols \<and> (th_ops th = [] \<longrightarrow> th_col th = 0) \<and> length (th_caches th) = n_cols"

text \<open>Thread \<open>th\<close> has written column \<open>col\<close> of row \<open>j\<close>.\<close>

definition passed :: "fill_thread \<Rightarrow> nat \<Rightarrow> nat \<Rightarrow> bool" where
  "passed th j col \<longleftrightarrow> j < th_out_idx th \<or> j = th_out_idx th \<and> col < th_col th"

definition written :: "'a list list \<Rightarrow> fill_thread list \<Rightarrow> nat \<Rightarrow> nat \<Rightarrow> bool" where
  "written outs ths j col \<longleftrightarrow> (\<exists>t < length ths. rows_of outs t j \<and> passed (ths ! t) j col)"

lemma written_update:
  assumes "t < length ths"
  shows "written outs (ths[t := th]) j col \<longleftrightarrow>
    (if rows_of outs t j then passed th j col else written outs ths j col)"
proof (cases "rows_of outs t j")
  case True
  then have "rows_of outs u j \<longleftrightarrow> u = t" for u using rows_of_unique by blast
  then show ?thesis using True assms by (simp add: written_def)
next
  case False
  have "(ths[t := th]) ! u = ths ! u" if "rows_of outs u j" for u
    using that False by (metis nth_list_update_neq)
  then show ?thesis using False by (simp add: written_def cong: conj_cong)
qed

lemma written_iff: "t < length ths \<Longrightarrow> rows_of outs t j \<Longrightarrow> written outs ths j col \<longleftrightarrow> passed (ths ! t) j col"
  using written_update[of t ths outs "ths ! t" j col] by simp

definition cells_written ::
    "column_t list \<Rightarrow> column_t list \<Rightarrow> attrs \<Rightarrow> (nat \<times> nat) list \<Rightarrow> (nat \<Rightarrow> nat \<Rightarrow> bool) \<Rightarrow> nat \<Rightarrow> value_t list" where
  "cells_written L R attrs ps D col =
     map (\<lambda>i. if D i col then join_cell L R (fst (attrs ! col)) (ps ! i) else zero_value) [0..<length ps]"

lemma cells_written_update:
  assumes "i < length ps" "\<And>j. D' j col \<longleftrightarrow> j = i \<or> D j col"
  shows "cells_written L R attrs ps D' col =
    (cells_written L R attrs ps D col)[i := join_cell L R (fst (attrs ! col)) (ps ! i)]"
  by (rule nth_equalityI) (use assms in \<open>auto simp: cells_written_def nth_list_update\<close>)

lemma cells_written_cong:
  "(\<And>j. D' j col \<longleftrightarrow> D j col) \<Longrightarrow> cells_written L R attrs ps D' col = cells_written L R attrs ps D col"
  by (simp add: cells_written_def)

definition par_inv ::
    "column_t list \<Rightarrow> column_t list \<Rightarrow> attrs \<Rightarrow> (nat \<times> nat) list \<Rightarrow> nat \<Rightarrow> out_pair list list \<Rightarrow>
     fill_thread list \<Rightarrow> column_t list \<Rightarrow> bool" where
  "par_inv L R attrs ps n outs ths out \<longleftrightarrow>
     length ths = length outs \<and> (\<forall>t < length outs. thread_ok outs (length attrs) t (ths ! t)) \<and>
     length out = length attrs \<and>
     (\<forall>col < length attrs. plain_column n (cells_written L R attrs ps (written outs ths) col) (out ! col))"

lemma cached_cell_correct:
  assumes col: "col < length attrs" "length caches = length attrs"
    and p: "op = pair32 p" "fst p < nl" "snd p < nr" and small: "nl \<le> 2 ^ 32" "nr \<le> 2 ^ 32"
    and wf: "columns_wf nl L" "columns_wf nr R" and attrs: "attrs_in (length L) (length R) attrs"
    and om: "om = map (\<lambda>a. output_map (length L) (fst a)) attrs"
  shows "\<exists>caches'. cached_cell om L R op col caches = Inr (join_cell L R (fst (attrs ! col)) p, caches') \<and>
    length caches' = length attrs"
proof -
  let ?src = "fst (attrs ! col)"
  have src: "?src < length L + length R" "length L \<le> 2 ^ 32" "length R \<le> 2 ^ 32"
    using attrs col(1) by (auto simp: attrs_in_def)
  have op: "unat (fst op) = fst p" "unat (snd op) = snd p"
    using p small by (simp_all add: unat_of_nat_u32)
  show ?thesis
  proof (cases "?src < length L")
    case True
    then have idx: "om ! col = (True, of_nat ?src)" "unat (of_nat ?src :: u32) = ?src"
      using om col src by (auto simp: output_map_def unat_of_nat_u32)
    have "column_wf (L ! ?src)" "fst p < length (ct_values (L ! ?src))"
      using columns_wfD[OF wf(1) True] p(2) by simp_all
    then obtain cache' where "column_get_cached (L ! ?src) (fst p) (caches ! col) = Inr (ct_values (L ! ?src) ! fst p, cache')"
      using column_get_cached_correct by blast
    then show ?thesis using idx col om op True by (simp add: cached_cell_def join_cell_def)
  next
    case False
    let ?s = "?src - length L"
    have s: "?s < length R" using False src by simp
    have "om ! col = (False, of_nat ?s)" using om col False by (simp add: output_map_def)
    moreover have "unat (of_nat ?s :: u32) = ?s" using s src(3) by (intro unat_of_nat_u32) simp
    ultimately obtain w where idx: "om ! col = (False, w)" "unat w = ?s" by blast
    have "column_wf (R ! ?s)" "snd p < length (ct_values (R ! ?s))"
      using columns_wfD[OF wf(2) s] p(3) by simp_all
    then obtain cache' where "column_get_cached (R ! ?s) (snd p) (caches ! col) = Inr (ct_values (R ! ?s) ! snd p, cache')"
      using column_get_cached_correct by blast
    then show ?thesis using idx col om op False s by (simp add: cached_cell_def join_cell_def)
  qed
qed

lemma par_step:
  assumes inv: "par_inv L R attrs ps n outs ths out" and t: "t < length outs"
    and outs: "concat outs = map pair32 ps" and small: "nl \<le> 2 ^ 32" "nr \<le> 2 ^ 32"
    and wf: "columns_wf nl L" "columns_wf nr R" and attrs: "attrs_in (length L) (length R) attrs"
    and ps: "\<And>p. p \<in> set ps \<Longrightarrow> fst p < nl \<and> snd p < nr"
    and om: "om = map (\<lambda>a. output_map (length L) (fst a)) attrs"
  shows "\<exists>th' out'. fill_thread_step om (length attrs) n L R (ths ! t) out = Inr (th', out') \<and>
    par_inv L R attrs ps n outs (ths[t := th']) out'"
proof -
  let ?th = "ths ! t"
  have I: "length ths = length outs" "\<And>u. u < length outs \<Longrightarrow> thread_ok outs (length attrs) u (ths ! u)"
    "length out = length attrs"
    "\<And>col. col < length attrs \<Longrightarrow> plain_column n (cells_written L R attrs ps (written outs ths) col) (out ! col)"
    using inv by (simp_all add: par_inv_def)
  obtain k where k: "k \<le> length (outs ! t)" "th_ops ?th = drop k (outs ! t)" "th_out_idx ?th = before outs t + k"
    and th: "th_col ?th \<le> length attrs" "th_ops ?th = [] \<Longrightarrow> th_col ?th = 0" "length (th_caches ?th) = length attrs"
    using I(2)[OF t] by (auto simp: thread_ok_def)
  have tl: "t < length ths" using t I(1) by simp
  show ?thesis
  proof (cases "th_ops ?th")
    case Nil
    then show ?thesis using inv by (simp add: fill_thread_step_def)
  next
    case (Cons op ops)
    then have kl: "k < length (outs ! t)" using k(1,2) by (cases "k = length (outs ! t)") auto
    then have op: "op = outs ! t ! k" "ops = drop (Suc k) (outs ! t)" using Cons k(2) by (simp_all add: Cons_nth_drop_Suc[symmetric])
    let ?i = "before outs t + k"
    have i: "?i < length ps" "op = pair32 (ps ! ?i)"
      using concat_nth_before[OF t kl] op(1) by (simp_all add: outs)
    have row: "rows_of outs t ?i" using kl by (simp add: rows_of_def before_Suc[OF t])
    show ?thesis
    proof (cases "th_col ?th < length attrs")
      case True
      let ?v = "join_cell L R (fst (attrs ! th_col ?th)) (ps ! ?i)"
      obtain caches' where c: "cached_cell om L R op (th_col ?th) (th_caches ?th) = Inr (?v, caches')" "length caches' = length attrs"
        using cached_cell_correct[OF True th(3) i(2) _ _ small wf attrs om] ps[of "ps ! ?i"] i(1) by auto
      have len: "?i < length (cells_written L R attrs ps (written outs ths) (th_col ?th))"
        using i(1) by (simp add: cells_written_def)
      obtain c' where w: "write_cell out (th_col ?th) (?i div n) (?i mod n) ?v = Inr (out[th_col ?th := c'])"
        "plain_column n ((cells_written L R attrs ps (written outs ths) (th_col ?th))[?i := ?v]) c'"
        using write_cell_plain[OF _ I(4)[OF True] len, of ?v] True I(3) by auto
      let ?th' = "?th\<lparr>th_col := th_col ?th + 1, th_caches := caches'\<rparr>"
      have D: "written outs (ths[t := ?th']) j col \<longleftrightarrow> j = ?i \<and> col = th_col ?th \<or> written outs ths j col" for j col
        using row written_iff[OF tl, of outs j col] k(3)
        by (auto simp: written_update[OF tl] passed_def)
      have "thread_ok outs (length attrs) t ?th'"
        using k th True Cons c(2) by (auto simp: thread_ok_def)
      then have threads: "thread_ok outs (length attrs) u (ths[t := ?th'] ! u)" if "u < length outs" for u
        using I(2)[OF that] tl by (cases "u = t") simp_all
      have cols: "plain_column n (cells_written L R attrs ps (written outs (ths[t := ?th'])) col) (out[th_col ?th := c'] ! col)"
        if "col < length attrs" for col
      proof (cases "col = th_col ?th")
        case col: True
        have "cells_written L R attrs ps (written outs (ths[t := ?th'])) (th_col ?th) =
            (cells_written L R attrs ps (written outs ths) (th_col ?th))[?i := ?v]"
          by (rule cells_written_update[OF i(1)]) (simp only: D simp_thms)
        then show ?thesis using w(2) True I(3) col by simp
      next
        case col: False
        have "cells_written L R attrs ps (written outs (ths[t := ?th'])) col = cells_written L R attrs ps (written outs ths) col"
          by (rule cells_written_cong) (simp only: D col simp_thms)
        then show ?thesis using I(4)[OF that] col by simp
      qed
      have "par_inv L R attrs ps n outs (ths[t := ?th']) (out[th_col ?th := c'])"
        using threads cols I(1,3) by (simp only: par_inv_def length_list_update) blast
      then show ?thesis using Cons True c(1) w(1) k(3) by (simp add: fill_thread_step_def)
    next
      case False
      then have col: "th_col ?th = length attrs" using th(1) by simp
      let ?th' = "?th\<lparr>th_out_idx := th_out_idx ?th + 1, th_col := 0, th_ops := ops\<rparr>"
      have D: "written outs (ths[t := ?th']) j c \<longleftrightarrow> written outs ths j c" if "c < length attrs" for j c
        using row written_iff[OF tl, of outs j c] k(3) that col
        by (auto simp: written_update[OF tl] passed_def)
      have "thread_ok outs (length attrs) t ?th'"
        using k(3) th(3) op(2) kl by (auto simp: thread_ok_def intro!: exI[of _ "Suc k"])
      then have threads: "thread_ok outs (length attrs) u (ths[t := ?th'] ! u)" if "u < length outs" for u
        using I(2)[OF that] tl by (cases "u = t") simp_all
      have cols: "plain_column n (cells_written L R attrs ps (written outs (ths[t := ?th'])) col) (out ! col)"
        if "col < length attrs" for col
      proof -
        have "cells_written L R attrs ps (written outs (ths[t := ?th'])) col = cells_written L R attrs ps (written outs ths) col"
          by (rule cells_written_cong) (rule D[OF that])
        then show ?thesis using I(4)[OF that] by simp
      qed
      have "par_inv L R attrs ps n outs (ths[t := ?th']) out"
        using threads cols I(1,3) by (simp only: par_inv_def length_list_update) blast
      then show ?thesis using Cons False by (simp add: fill_thread_step_def)
    qed
  qed
qed

section \<open>All threads together\<close>

text \<open>The number of steps a thread still needs.\<close>

definition todo :: "nat \<Rightarrow> fill_thread \<Rightarrow> nat" where
  "todo n_cols th = (n_cols + 1) * length (th_ops th) - th_col th"

lemma fill_thread_step_todo:
  assumes "fill_thread_step om n_cols n L R th out = Inr (th', out')" "th_col th \<le> n_cols" "th_ops th = [] \<Longrightarrow> th_col th = 0"
  shows "todo n_cols th' = todo n_cols th - 1"
  using assms by (auto simp: fill_thread_step_def todo_def res_simps split: list.splits if_splits)

lemma par_run:
  assumes start: "par_inv L R attrs ps n outs ths out" and sched: "set sched \<subseteq> {..<length outs}"
    and outs: "concat outs = map pair32 ps" and small: "nl \<le> 2 ^ 32" "nr \<le> 2 ^ 32"
    and wf: "columns_wf nl L" "columns_wf nr R" and attrs: "attrs_in (length L) (length R) attrs"
    and ps: "\<And>p. p \<in> set ps \<Longrightarrow> fst p < nl \<and> snd p < nr"
    and om: "om = map (\<lambda>a. output_map (length L) (fst a)) attrs"
  shows "\<exists>ths' out'. rfold (\<lambda>t (threads, out).
        rbind (at threads t) (\<lambda>th.
        rbind (fill_thread_step om (length attrs) n L R th out) (\<lambda>(th, out).
          Inr (threads[t := th], out)))) sched (ths, out) = Inr (ths', out') \<and>
      par_inv L R attrs ps n outs ths' out' \<and>
      (\<forall>t < length outs. todo (length attrs) (ths' ! t) = todo (length attrs) (ths ! t) - count_list sched t)"
  using start sched
proof (induction sched arbitrary: ths out)
  case (Cons t sched)
  have t: "t < length outs" "t < length ths" using Cons.prems by (auto simp: par_inv_def)
  obtain th' out' where step: "fill_thread_step om (length attrs) n L R (ths ! t) out = Inr (th', out')"
    and inv: "par_inv L R attrs ps n outs (ths[t := th']) out'"
    using par_step[OF Cons.prems(1) t(1) outs small wf attrs ps om] by blast
  have "thread_ok outs (length attrs) t (ths ! t)" using Cons.prems(1) t(1) by (simp add: par_inv_def)
  then have todo: "todo (length attrs) th' = todo (length attrs) (ths ! t) - 1"
    by (intro fill_thread_step_todo[OF step]) (simp_all add: thread_ok_def)
  have "set sched \<subseteq> {..<length outs}" using Cons.prems(2) by simp
  from Cons.IH[OF inv this] obtain ths2 out2 where
    run: "rfold (\<lambda>t (threads, out).
        rbind (at threads t) (\<lambda>th.
        rbind (fill_thread_step om (length attrs) n L R th out) (\<lambda>(th, out).
          Inr (threads[t := th], out)))) sched (ths[t := th'], out') = Inr (ths2, out2)"
    and inv2: "par_inv L R attrs ps n outs ths2 out2"
    and todo2: "\<forall>u < length outs. todo (length attrs) (ths2 ! u) = todo (length attrs) (ths[t := th'] ! u) - count_list sched u"
    by blast
  have "todo (length attrs) (ths2 ! u) = todo (length attrs) (ths ! u) - count_list (t # sched) u" if "u < length outs" for u
    using todo2 that todo t(2) by (cases "u = t") simp_all
  then show ?case using run inv2 step t(2) by simp
qed simp

lemma rows_of_some:
  assumes "j < length (concat outs)"
  shows "\<exists>t < length outs. rows_of outs t j"
proof -
  have "k \<le> length outs \<Longrightarrow> j < before outs k \<Longrightarrow> \<exists>t < k. rows_of outs t j" for k
  proof (induction k)
    case (Suc k)
    then show ?case
    proof (cases "j < before outs k")
      case True
      then show ?thesis using Suc by (metis less_SucI Suc_leD)
    next
      case False
      then show ?thesis using Suc.prems by (intro exI[of _ k]) (simp add: rows_of_def)
    qed
  qed (simp add: before_def)
  from this[of "length outs"] show ?thesis using assms by (simp add: before_def)
qed

lemma par_finished:
  assumes inv: "par_inv L R attrs ps n outs ths out" and outs: "concat outs = map pair32 ps"
    and fin: "\<And>t. t < length outs \<Longrightarrow> th_ops (ths ! t) = []"
  shows "map ct_values (out) = map (\<lambda>col. map (join_cell L R (fst (attrs ! col))) ps) [0..<length attrs]"
proof (rule nth_equalityI)
  have all: "written outs ths j col" if j: "j < length ps" for j col
  proof -
    from rows_of_some[of j outs] j obtain t where t: "t < length outs" "rows_of outs t j" by (auto simp: outs)
    obtain k where k: "k \<le> length (outs ! t)" "th_ops (ths ! t) = drop k (outs ! t)" "th_out_idx (ths ! t) = before outs t + k"
      using inv t(1) by (auto simp: par_inv_def thread_ok_def)
    then have "k = length (outs ! t)" using fin[OF t(1)] by simp
    then have "passed (ths ! t) j col" using k(3) t by (simp add: passed_def rows_of_def before_Suc)
    then show ?thesis using t inv by (auto simp: written_def par_inv_def)
  qed
  show "length (map ct_values out) = length (map (\<lambda>col. map (join_cell L R (fst (attrs ! col))) ps) [0..<length attrs])"
    using inv by (simp add: par_inv_def)
  fix col assume "col < length (map ct_values out)"
  then have col: "col < length attrs" "col < length out" using inv by (simp_all add: par_inv_def)
  then have "ct_values (out ! col) = cells_written L R attrs ps (written outs ths) col"
    using inv plain_column_values by (auto simp: par_inv_def)
  also have "\<dots> = map (join_cell L R (fst (attrs ! col))) ps"
    by (rule nth_equalityI) (simp_all add: cells_written_def all)
  finally show "map ct_values out ! col = map (\<lambda>col. map (join_cell L R (fst (attrs ! col))) ps) [0..<length attrs] ! col"
    using col by simp
qed

lemma par_start:
  assumes out: "length out = length attrs" "\<And>col. col < length attrs \<Longrightarrow> plain_column n (replicate (length ps) zero_value) (out ! col)"
    and outs: "concat outs = map pair32 ps"
  shows "par_inv L R attrs ps n outs (map (fill_thread_new (length attrs) (fill_bases outs) outs) [0..<length outs]) out"
    (is "par_inv _ _ _ _ _ _ ?ths _")
proof -
  have idx: "th_out_idx (?ths ! t) = before outs t" "th_col (?ths ! t) = 0" if "t < length outs" for t
    using that by (simp_all add: fill_thread_new_def fill_bases_before)
  have "\<not> written outs ?ths j col" for j col
    using idx by (auto simp: written_def passed_def rows_of_def)
  then have "cells_written L R attrs ps (written outs ?ths) col = replicate (length ps) zero_value" for col
    by (simp add: cells_written_def map_replicate_trivial)
  moreover have "thread_ok outs (length attrs) t (?ths ! t)" if "t < length outs" for t
    using that by (auto simp: thread_ok_def fill_thread_new_def fill_bases_before intro!: exI[of _ 0])
  ultimately show ?thesis using out by (simp add: par_inv_def)
qed

section \<open>Properties\<close>

text \<open>C15. Filling the output with several threads gives the same columns as filling it with one: under
  every schedule that gives each thread enough steps, whatever the order of their writes to the shared
  pages. The input columns stay as they are, caches included.\<close>

theorem parallel_fill_agrees:
  assumes wf: "columns_wf nl (fs_left st)" "columns_wf nr (fs_right st)" and small: "nl \<le> 2 ^ 32" "nr \<le> 2 ^ 32"
    and attrs: "attrs_in (length (fs_left st)) (length (fs_right st)) attrs"
    and out: "length (fs_out st) = length attrs"
      "\<forall>c \<in> set (fs_out st). plain_column n (replicate (length (concat outs)) zero_value) c"
    and ops: "\<forall>op \<in> set (concat outs). unat (fst op) < nl \<and> unat (snd op) < nr"
    and sched: "set sched \<subseteq> {..<length outs}"
      "\<forall>t < length outs. (length attrs + 1) * length (outs ! t) \<le> count_list sched t"
  shows "\<exists>st1 st2.
    fill_outputs (map (\<lambda>a. output_map (length (fs_left st)) (fst a)) attrs) (length attrs) n outs st = Inr st1 \<and>
    fill_outputs_parallel (map (\<lambda>a. output_map (length (fs_left st)) (fst a)) attrs) (length attrs) n sched outs st = Inr st2 \<and>
    map ct_values (fs_out st2) = map ct_values (fs_out st1) \<and>
    fs_left st2 = fs_left st \<and> fs_right st2 = fs_right st"
proof -
  let ?L = "fs_left st" and ?R = "fs_right st" and ?om = "map (\<lambda>a. output_map (length (fs_left st)) (fst a)) attrs"
  define ps where "ps = map (\<lambda>op :: out_pair. (unat (fst op), unat (snd op))) (concat outs)"
  have outs: "concat outs = map pair32 ps" by (simp add: ps_def comp_def)
  have len: "length (concat outs) = length ps" by (simp add: ps_def)
  have ps: "fst p < nl \<and> snd p < nr" if "p \<in> set ps" for p
  proof -
    from that obtain op where "op \<in> set (concat outs)" "p = (unat (fst op), unat (snd op))"
      unfolding ps_def set_map by blast
    then show ?thesis using ops by auto
  qed
  have plain: "plain_column n (replicate (length ps) zero_value) (fs_out st ! col)" if "col < length attrs" for col
    using out that by (simp add: len)
  have "fill_inv ?L ?R attrs ps n 0 0 st"
    using plain out(1) by (simp add: fill_inv_def filled_def list_all2_same same_but_cache_refl)
  from fill_outputs_correct[OF this outs small wf attrs ps refl] obtain st1 where
    st1: "fill_outputs ?om (length attrs) n outs st = Inr st1" "fill_inv ?L ?R attrs ps n (length ps) 0 st1" by blast
  let ?ths = "map (fill_thread_new (length attrs) (fill_bases outs) outs) [0..<length outs]"
  from par_run[OF par_start[OF out(1) plain outs] sched(1) outs small wf attrs ps refl]
  obtain ths' out' where run: "rfold (\<lambda>t (threads, out).
        rbind (at threads t) (\<lambda>th.
        rbind (fill_thread_step ?om (length attrs) n ?L ?R th out) (\<lambda>(th, out).
          Inr (threads[t := th], out)))) sched (?ths, fs_out st) = Inr (ths', out')"
    and inv: "par_inv ?L ?R attrs ps n outs ths' out'"
    and todo: "\<forall>t < length outs. todo (length attrs) (ths' ! t) = todo (length attrs) (?ths ! t) - count_list sched t" by blast
  have fin: "th_ops (ths' ! t) = []" if t: "t < length outs" for t
  proof -
    have "todo (length attrs) (?ths ! t) = (length attrs + 1) * length (outs ! t)"
      using t by (simp add: todo_def fill_thread_new_def)
    then have "todo (length attrs) (ths' ! t) = 0" using todo sched(2) t by simp
    moreover have "th_col (ths' ! t) \<le> length attrs" using inv t by (simp add: par_inv_def thread_ok_def)
    ultimately show ?thesis by (cases "th_ops (ths' ! t)") (simp_all add: todo_def)
  qed
  have "list_all (\<lambda>th. th_ops th = []) ths'" using fin inv by (auto simp: list_all_length par_inv_def)
  then have st2: "fill_outputs_parallel ?om (length attrs) n sched outs st = Inr (st\<lparr>fs_out := out'\<rparr>)"
    using run by (simp add: fill_outputs_parallel_def Let_def)
  have "map ct_values (fs_out st1) = map (\<lambda>col. map (join_cell ?L ?R (fst (attrs ! col))) ps) [0..<length attrs]"
    using st1(2) plain_column_values by (intro nth_equalityI) (auto simp: fill_inv_def filled_def)
  then show ?thesis using st1(1) st2 par_finished[OF inv outs fin] by simp
qed

text \<open>Two threads that take turns; the second one writes behind the first.\<close>

definition example_fill :: fill_state where
  "example_fill = \<lparr>fs_left = cb_columns example_left, fs_right = cb_columns example_right,
     fs_out = replicate 2 (example_column [zero_value, zero_value])\<rparr>"

lemma parallel_fill_agrees_witness:
  "\<exists>st1 st2. fill_outputs [(False, 1), (True, 0)] 2 1024 [[(0, 1)], [(2, 0)]] example_fill = Inr st1 \<and>
    fill_outputs_parallel [(False, 1), (True, 0)] 2 1024 [1, 0, 0, 1, 1, 0] [[(0, 1)], [(2, 0)]] example_fill = Inr st2 \<and>
    map ct_values (fs_out st2) = map ct_values (fs_out st1)"
proof -
  have om: "map (\<lambda>a. output_map (length (fs_left example_fill)) (fst a)) example_attrs = [(False, 1), (True, 0)]"
    by (simp add: example_fill_def example_left_def example_attrs_def output_map_def)
  have wf: "columns_wf 3 (fs_left example_fill)" "columns_wf 3 (fs_right example_fill)"
    using example_column_wf by (simp_all add: columns_wf_def example_fill_def example_left_def example_right_def)
  have attrs: "attrs_in (length (fs_left example_fill)) (length (fs_right example_fill)) example_attrs" "length example_attrs = 2"
    by (simp_all add: attrs_in_def example_fill_def example_left_def example_right_def example_attrs_def)
  have out: "\<forall>c \<in> set (fs_out example_fill). plain_column 1024 (replicate (length (concat [[(0 :: u32, 1 :: u32)], [(2, 0)]])) zero_value) c"
    by (simp add: example_fill_def plain_column_def example_column_def column_new_def pages_wf_def numeral_2_eq_2)
  have ops: "\<forall>op \<in> set (concat [[(0 :: u32, 1 :: u32)], [(2, 0)]]). unat (fst op) < 3 \<and> unat (snd op) < 3" by simp
  have small: "(3 :: nat) \<le> 2 ^ 32" by simp
  have n: "length (fs_out example_fill) = length example_attrs" by (simp add: example_fill_def attrs(2))
  have "set [1, 0, 0, 1, 1, 0] \<subseteq> {..<length [[(0 :: u32, 1 :: u32)], [(2, 0)]]}"
    "\<forall>t < length [[(0 :: u32, 1 :: u32)], [(2, 0)]]. (length example_attrs + 1) * length ([[(0 :: u32, 1 :: u32)], [(2, 0)]] ! t) \<le>
      count_list [1, 0, 0, 1, 1, 0] t"
    by (simp_all add: attrs(2) All_less_Suc numeral_2_eq_2)
  from parallel_fill_agrees[OF wf small small attrs(1) n out ops this] show ?thesis
    unfolding om attrs(2) by blast
qed

end
