(* ===== verification/Spec2Isabelle.thy ===== *)
theory Spec2Isabelle
  imports ExpectedAnswers FileHandles MappedFiles TelemetryReport TextOutput ColumnarJoin TableChoice CuckooMap UnchainedTable
    DisjointSets TableEntities PageOwnership ParallelFill
begin

text \<open>
  A model of the SIGMOD runtime engine (namespace \<open>Contest\<close>): an in-memory engine that evaluates a
  tree of scans and inner equi-joins over columnar tables with several worker threads, with the code
  that imports tables from CSV files, filters them, caches them in files and converts them to rows.

  How the program works. A \<open>Plan\<close> names input tables (\<open>ColumnarTable\<close>: columns as lists of
  8192-byte pages) and nodes. \<open>execute\<close> recurses over the nodes. A scan turns the columns of a table
  into intermediate columns (\<open>column_t\<close>): a zero-copy view for INT32 without NULLs, otherwise pages of
  64-bit \<open>value_t\<close> payloads, where a string is a packed reference to its page and slot. A join builds a
  hash table on one side (from the pages where the column is zero-copy), probes it from worker
  threads that steal blocks of rows, and copies the matching rows. At the end the buffer is written
  back into pages and the references are resolved to characters. The input tables come from
  \<open>Table::from_csv\<close>: a character automaton hands fields to a row parser, the records go into typed
  columns with validity bitmaps, a filter (a tree of comparisons) selects rows, and tasks of a thread
  pool write the selected rows into pages.

  Which theory models which part (paths under \<open>src/\<close>):
    \<^item> \<open>Prelude\<close>: machine integers, results (\<open>Runtime_error\<close> for a throw, \<open>Bad_alloc\<close> for a failed
      allocation where a component can run into one, \<open>Undefined\<close> for undefined behaviour, \<open>No_return\<close>
      for a loop or schedule that does not finish), folds over results.
    \<^item> \<open>Pages\<close>, \<open>Plans\<close>: \<open>include/plan.h\<close>, \<open>include/attribute.h\<close>; a page is a function from
      offsets to bytes.
    \<^item> \<open>Values\<close>, \<open>ColumnStore\<close>: \<open>include/late_materialization.h\<close>, \<open>include/columnar.h\<close>. \<open>ct_values\<close>
      abstracts a column of either representation to the list of its values.
    \<^item> \<open>HashBloom\<close>, \<open>CountingSort\<close>, \<open>HashTables\<close>, \<open>FlatTable\<close>: \<open>include/hash_functions.h\<close>,
      \<open>include/bloom_filter.h\<close>, \<open>include/hash_common.h\<close>, \<open>include/hashtable_interface.h\<close>,
      \<open>include/parallel_unchained_hashtable.h\<close>, \<open>include/unchained_hashtable_wrapper.h\<close>. The locales
      \<open>hash_index\<close> and \<open>join_table\<close> state what a join relies on; the join is verified inside
      \<open>join_table\<close>, and every table behind the interface interprets it.
    \<^item> \<open>UnchainedTable\<close>: \<open>include/unchained_hashtable.h\<close>, the predecessor of the flat table.
    \<^item> \<open>KeyGroups\<close>, \<open>RobinHood\<close>, \<open>Cuckoo\<close>, \<open>Hopscotch\<close>: the other tables behind the interface
      (\<open>include/robinhood.h\<close>, \<open>include/cuckoo.h\<close>, \<open>include/hopscotch.h\<close> and their wrappers);
      \<open>KeyGroups\<close> holds the grouping of the entries by key they share. \<open>TableChoice\<close>: the join with
      each of them. \<open>CuckooMap\<close>: \<open>include/cuckoo_map.h\<close>.
    \<^item> \<open>WorkStealing\<close>: \<open>include/work_stealing.h\<close>, \<open>src/work_stealing.cpp\<close>, with an inductive step
      relation for the interleavings of the threads.
    \<^item> \<open>Telemetry\<close>, \<open>TelemetryReport\<close>: \<open>include/join_telemetry.h\<close>, \<open>src/join_telemetry.cpp\<close>; the report
      computes with the multiplication and division of \<open>DoubleArith\<close>.
    \<^item> \<open>JoinProbe\<close>, \<open>JoinExec\<close>, \<open>Execute\<close>: \<open>src/execute_default.cpp\<close>, bottom up; \<open>ParallelFill\<close> the
      copy with several threads that it keeps switched off. \<open>ColumnarJoin\<close>: the single-threaded join of
      \<open>src/columnar.cpp\<close>.
    \<^item> \<open>Scan\<close>, \<open>Resolver\<close>, \<open>Finalize\<close>: \<open>src/late_materialization.cpp\<close>.
    \<^item> \<open>Inserter\<close>, \<open>StringPages\<close>: the two \<open>ColumnInserter\<close> classes of \<open>include/plan.h\<close>.
    \<^item> \<open>FilterPool\<close>, \<open>TableRead\<close>, \<open>TableWrite\<close>: the thread pool of \<open>include/inner_column.h\<close> and the
      conversions \<open>from_columnar\<close>, \<open>copy_scan\<close> and \<open>to_columnar\<close> of \<open>src/build_table.cpp\<close>. \<open>TableCache\<close>:
      the file format of \<open>DumpTable\<close> (\<open>include/table.h\<close>) and \<open>from_cache\<close>.
    \<^item> \<open>Doubles\<close>, \<open>InnerColumns\<close>, \<open>Filters\<close>: the columns of \<open>include/inner_column.h\<close> and the filter
      statements of \<open>include/statement.h\<close> and \<open>src/statement.cpp\<close>. A \<open>double\<close> is its 64 bits.
    \<^item> \<open>CsvParser\<close>, \<open>CsvImport\<close>: \<open>src/csv_parser.cpp\<close>, and \<open>TableParser\<close>, the caches and
      \<open>Table::from_csv\<close> of \<open>src/build_table.cpp\<close>.
    \<^item> \<open>Queries\<close>, \<open>CachedQueries\<close>: the parts together, from text files over tables, cache files and plans
      to the rows of the answer, the way \<open>tests/read_sql.cpp\<close> runs a query.
    \<^item> \<open>RowOrder\<close>, \<open>ExpectedAnswers\<close>: the acceptance test. The answers of DuckDB are sorted and dumped (the
      second constructor of \<open>DumpTable\<close>, \<open>include/table.h\<close>), loaded, and compared with the answer of the
      engine (\<open>sort\<close> and \<open>compare_withcache\<close>, \<open>tests/read_sql.cpp\<close>).
    \<^item> \<open>FileHandles\<close>: \<open>File\<close> and \<open>read_file\<close> (\<open>include/common.h\<close>) over a table of open streams.
      \<open>MappedFiles\<close>: the system calls of \<open>from_cache\<close> and the owner of a mapping (\<open>MappedMemory\<close>).
    \<^item> \<open>TextOutput\<close>: \<open>Table::print\<close> (\<open>include/table.h\<close>), the formatter of \<open>Data\<close> and \<open>pretty_print\<close>
      (\<open>include/statement.h\<close>).
    \<^item> \<open>PageOwnership\<close>: \<open>MappedMemory\<close> and the life cycle of \<open>Column\<close> (\<open>include/plan.h\<close>) as a step relation,
      with the columns of a loaded file (\<open>from_cache\<close>).
    \<^item> \<open>DisjointSets\<close>, \<open>TableEntities\<close>: \<open>include/common.h\<close>, \<open>include/table_entity.h\<close> and the FNV hash of
      \<open>include/table.h\<close>.

  What the lemmas show. The top results (\<open>Queries\<close>, \<open>CachedQueries\<close>, \<open>ExpectedAnswers\<close>) say that a query answers what it asks
  of the text files: import, filter, cache file, execution and reading the pages of the result
  together compute, as a bag of rows, the relational evaluation \<open>eval_rows\<close> of the plan on the rows of
  the files, and that the acceptance test accepts the answer if and only if DuckDB's answer is the same
  bag. They rest on a refinement (\<open>Execute\<close>): \<open>execute\<close> on a supported plan
  writes pages that store exactly the rows of the evaluation \<open>eval_plan\<close> of the plan over cells. It
  composes the correctness of the scan, of the join inside the contract of the hash table,
  and of finalization; on the way every value of an intermediate column stands for a value of the
  input column that its attribute comes from (\<open>attr_from\<close>). Each component has its own: every table returns exactly the entries of a key,
  or its build fails in the one way the code has; stolen blocks cover every row once under every
  interleaving; every accessor reads \<open>ct_values\<close>; inserted rows are read back; references resolve to
  the stored strings. On the side of the tables, a session of imports returns the rows of the files
  that satisfy the filters, whatever the chunks, the caches and the order of the pool's tasks; rows
  survive the way through text, pages and dumped files; the two evaluations of a filter agree, and its
  text, after which cache files are named, determines it. Where
  the code goes wrong on some inputs, the theorems carry the exact condition as a hypothesis
  (keys -1 in zero-copy columns, empty strings in CSV files, more than 16 output columns), or a
  theorem states the failure (literals narrowed to 32 bits, joins on INT64 and FP64 keys that return
  nothing in \<open>ColumnarJoin\<close>, the parser with trailing commas, which depends on the chunks).

  Bounds and fuel. \<open>execute_impl\<close> recurses with fuel; children have smaller node numbers, so fuel
  above the root number is enough. Row numbers are 32-bit, so the results assume fewer than 2^32 rows
  per node; a parallel probe assumes a schedule that gives every thread more turns than there are rows.
  \<open>execute\<close> writes at most 16 columns (\<open>MAX_COLS\<close>). \<open>find\<close> of a disjoint-set forest has one unit of
  fuel per element, enough without a cycle. The tables that grow until a build succeeds take the
  number of slots that can be allocated as a parameter.

  Parameters. DuckDB, RE2, which system calls succeed, \<open>std::hash\<close>, \<open>std::stod\<close>, the text the fmt library chooses for a double, the contents of files, the bytes of fresh pages, the
  available memory and the schedules of the threads and of the pool are arguments of the definitions.

  Not modelled: the release of memory other than pages, mappings and streams, the digits that
  \<open>fprintf\<close> prints for the doubles of the telemetry report, the loop of \<open>from_cache\<close> that only touches the mapped pages
  where \<open>MAP_POPULATE\<close> is missing, the constants of \<open>include/hardware.h\<close>, and what the test drivers do besides the acceptance test: \<open>tests/read_sql.cpp\<close>
  translates SQL texts and JSON plans of DuckDB, by parsers that are not in the repository, into the
  plans and filters the theorems quantify over.
\<close>

end
